(* ===== verification/Prelude.thy ===== *)
theory Prelude
  imports Main "HOL-Library.Word" "HOL-Library.Monad_Syntax"
begin

text \<open>
  Shared notions of the development: the machine integers of the host the code is compiled for,
  assertions as partial results, insertion into an array, and the facts about lists that the
  component theories use. Two collections gather the rules component proofs are run with:
  \<open>list_array\<close> (array moves written as list operations) and \<open>u32_arith\<close>
  (unsigned 32-bit arithmetic read over the naturals).
\<close>

named_theorems list_array \<open>array updates, insertions and cuts written over lists\<close>
named_theorems u32_arith \<open>unsigned 32-bit arithmetic read over the naturals\<close>

section \<open>Machine integers and assertions\<close>

text \<open>The C++ types \<open>unsigned\<close> and \<open>int\<close> (read as two's complement) of a 32-bit host word.\<close>

type_synonym u32 = "32 word"

text \<open>
  Where a proof adds up sizes of parts, an \<open>unsigned\<close> is kept as a natural and the value a sum
  wraps to is written out.
\<close>

definition wrap32 :: "nat \<Rightarrow> nat" where
  "wrap32 n = n mod 2 ^ 32"

lemma wrap32_id [simp]: "n < 2 ^ 32 \<Longrightarrow> wrap32 n = n"
  by (simp add: wrap32_def)

lemma wrap32_less: "wrap32 n < 2 ^ 32"
  by (simp add: wrap32_def)

text \<open>
  An \<open>assert\<close> of the source. A failed assertion, a read outside an array or any other step
  whose result the source leaves undefined is the value \<open>None\<close>.
\<close>

definition asserting :: "bool \<Rightarrow> unit option" where
  "asserting b = (if b then Some () else None)"

lemma asserting_simps [simp]:
  "asserting True = Some ()" "asserting False = None"
  by (simp_all add: asserting_def)

lemma asserting_bind_eq_Some [simp]:
  "Option.bind (asserting b) f = Some y \<longleftrightarrow> b \<and> f () = Some y"
  by (cases b) simp_all

text \<open>A sequence of partial steps that succeeds: what its steps return.\<close>

lemma bind_SomeE:
  assumes "Option.bind x f = Some y"
  obtains a where "x = Some a" "f a = Some y"
  using assms by (cases x) auto

section \<open>Arrays as lists\<close>

text \<open>\<open>memmove\<close> of the tail by one slot followed by a store: insertion at position \<open>i\<close>.\<close>

definition insert_at :: "nat \<Rightarrow> 'a \<Rightarrow> 'a list \<Rightarrow> 'a list" where
  "insert_at i x xs = take i xs @ x # drop i xs"

lemma length_insert_at [simp]: "i \<le> length xs \<Longrightarrow> length (insert_at i x xs) = Suc (length xs)"
  by (simp add: insert_at_def)

lemma set_insert_at [simp]: "set (insert_at i x xs) = insert x (set xs)"
proof -
  have "set xs = set (take i xs) \<union> set (drop i xs)"
    by (metis append_take_drop_id set_append)
  then show ?thesis by (auto simp: insert_at_def)
qed

lemma insert_at_append [list_array]: "insert_at (length xs) x (xs @ ys) = xs @ x # ys"
  by (simp add: insert_at_def)

lemma insert_at_Suc_append [list_array]:
  "insert_at (Suc (length xs)) x (xs @ y # ys) = xs @ y # x # ys"
  by (simp add: insert_at_def)

lemma update_append_middle [list_array]: "(xs @ y # ys)[length xs := z] = xs @ z # ys"
  by simp

text \<open>A position inside a list names a decomposition around the element there.\<close>

lemma split_at_index:
  assumes "i < length xs"
  obtains as bs where "xs = as @ xs ! i # bs" and "length as = i"
  using assms id_take_nth_drop [of i xs] by (metis length_take min.absorb4)

lemma sum_list_nth_le:
  fixes f :: "'a \<Rightarrow> nat"
  shows "i < length xs \<Longrightarrow> f (xs ! i) \<le> sum_list (map f xs)"
  by (simp add: member_le_sum_list)

lemma sum_list_map_last:
  fixes f :: "'a \<Rightarrow> 'b::monoid_add"
  assumes "length xs = Suc n"
  shows "sum_list (map f xs) = sum_list (map f (take n xs)) + f (xs ! n)"
proof -
  have "xs = take n xs @ [xs ! n]"
    using assms take_Suc_conv_app_nth [of n xs] by simp
  then have "sum_list (map f xs) = sum_list (map f (take n xs @ [xs ! n]))" by simp
  then show ?thesis by simp
qed

lemma sum_list_nat_pos:
  fixes f :: "'a \<Rightarrow> nat"
  shows "xs \<noteq> [] \<Longrightarrow> \<forall>x \<in> set xs. 0 < f x \<Longrightarrow> 0 < sum_list (map f xs)"
  by (cases xs) auto

end
