(* ===== verification/Interfaces.thy ===== *)
theory Interfaces
  imports Prelude
begin

text \<open>
  The interfaces between components, as locales over the operations a client calls. The theory
  of the component that provides the operations interprets the locale on its model.
\<close>

section \<open>A store of deltas\<close>

text \<open>
  What \<^verbatim>\<open>RewriteBuffer\<close> relies on in \<^verbatim>\<open>DeltaTree\<close>
  (\<^verbatim>\<open>include/clang/Rewrite/DeltaTree.h\<close>): lookups and additions do not fail, and a lookup
  sums the deltas recorded strictly before the index.
\<close>

fun add_all :: "('t \<Rightarrow> u32 \<Rightarrow> u32 \<Rightarrow> 't option) \<Rightarrow> 't \<Rightarrow> (u32 \<times> u32) list \<Rightarrow> 't option" where
  "add_all add t [] = Some t"
| "add_all add t ((i, d) # ops) = Option.bind (add t i d) (\<lambda>t'. add_all add t' ops)"

definition delta_before :: "u32 \<Rightarrow> (u32 \<times> u32) list \<Rightarrow> u32" where
  "delta_before x ops = (\<Sum>(i, d) \<leftarrow> ops. if i < x then d else 0)"

lemma delta_before_simps [simp]:
  "delta_before x [] = 0"
  "delta_before x ((i, d) # ops) = (if i < x then d else 0) + delta_before x ops"
  by (simp_all add: delta_before_def)

locale delta_store =
  fixes invar :: "'t \<Rightarrow> bool"
    and empty :: 't
    and get :: "u32 \<Rightarrow> 't \<Rightarrow> u32 option"
    and add :: "'t \<Rightarrow> u32 \<Rightarrow> u32 \<Rightarrow> 't option"
  assumes invar_empty: "invar empty"
    and get_empty: "get x empty = Some 0"
    and get_total: "invar t \<Longrightarrow> \<exists>r. get x t = Some r"
    and add_total: "invar t \<Longrightarrow> d \<noteq> 0 \<Longrightarrow> \<exists>t'. add t i d = Some t'"
    and invar_add: "invar t \<Longrightarrow> add t i d = Some t' \<Longrightarrow> invar t'"
    and get_add: "invar t \<Longrightarrow> add t i d = Some t' \<Longrightarrow>
      get x t' = map_option (\<lambda>r. r + (if i < x then d else 0)) (get x t)"
begin

lemma get_add_before:
  "invar t \<Longrightarrow> add t i d = Some t' \<Longrightarrow> x \<le> i \<Longrightarrow> get x t' = get x t"
  using get_add [of t i d t' x] get_total [of t x] by auto

lemma get_add_after:
  "invar t \<Longrightarrow> add t i d = Some t' \<Longrightarrow> i < x \<Longrightarrow> get x t = Some r \<Longrightarrow> get x t' = Some (r + d)"
  using get_add [of t i d t' x] by simp

lemma add_all_spec:
  assumes "invar t" "\<forall>(i, d) \<in> set ops. d \<noteq> 0"
  shows "\<exists>t'. add_all add t ops = Some t' \<and> invar t' \<and>
    (\<forall>x. get x t' = map_option (\<lambda>r. r + delta_before x ops) (get x t))"
  using assms
proof (induction ops arbitrary: t)
  case Nil
  then show ?case by (simp add: option.map_ident)
next
  case (Cons op ops)
  obtain i d where op: "op = (i, d)" by (cases op)
  then have "d \<noteq> 0" using Cons.prems(2) by auto
  then obtain t1 where t1: "add t i d = Some t1" "invar t1"
    using Cons.prems(1) add_total invar_add by blast
  then obtain t2 where t2: "add_all add t1 ops = Some t2" "invar t2"
    "\<forall>x. get x t2 = map_option (\<lambda>r. r + delta_before x ops) (get x t1)"
    using Cons.IH [of t1] Cons.prems(2) by auto
  then show ?case
    using t1 get_add [OF Cons.prems(1) t1(1)]
    by (intro exI [of _ t2]) (auto simp: op option.map_comp comp_def algebra_simps)
qed

lemma add_all_empty:
  assumes "\<forall>(i, d) \<in> set ops. d \<noteq> 0"
  shows "\<exists>t. add_all add empty ops = Some t \<and> invar t \<and> (\<forall>x. get x t = Some (delta_before x ops))"
  using add_all_spec [OF invar_empty assms] by (simp add: get_empty)

end

section \<open>A store of text\<close>

text \<open>
  What \<^verbatim>\<open>RewriteBuffer\<close> relies on in \<^verbatim>\<open>RewriteRope\<close>
  (\<^verbatim>\<open>include/clang/Rewrite/RewriteRope.h\<close>): a string with insertion and erasure at an
  offset. Erasing the whole string is not part of the contract.
\<close>

text \<open>
  The longest string: a length, the fill of the shared chunk (of 4080 bytes) in front of it and the
  header of an allocation of its own are added up as \<open>unsigned\<close>.
\<close>

definition string_fits :: "char list \<Rightarrow> bool" where
  "string_fits s \<longleftrightarrow> length s + 4080 < 2 ^ 32"

locale text_store =
  fixes invar :: "'b \<Rightarrow> bool"
    and chars :: "'b \<Rightarrow> char list"
    and len :: "'b \<Rightarrow> nat"
    and assign :: "char list \<Rightarrow> 'b \<Rightarrow> 'b option"
    and ins :: "nat \<Rightarrow> char list \<Rightarrow> 'b \<Rightarrow> 'b option"
    and del :: "nat \<Rightarrow> nat \<Rightarrow> 'b \<Rightarrow> 'b option"
  assumes len: "invar b \<Longrightarrow> len b = length (chars b)"
    and assign: "invar b \<Longrightarrow> string_fits s \<Longrightarrow> \<exists>b'. assign s b = Some b' \<and> invar b' \<and> chars b' = s"
    and ins: "invar b \<Longrightarrow> off \<le> length (chars b) \<Longrightarrow> string_fits s \<Longrightarrow>
      length (chars b) + length s < 2 ^ 32 \<Longrightarrow> \<exists>b'. ins off s b = Some b' \<and> invar b' \<and>
      chars b' = take off (chars b) @ s @ drop off (chars b)"
    and del: "invar b \<Longrightarrow> off + n < length (chars b) \<Longrightarrow> \<exists>b'. del off n b = Some b' \<and> invar b' \<and>
      chars b' = take off (chars b) @ drop (off + n) (chars b)"
begin

text \<open>Replacing a range, the way \<^verbatim>\<open>ReplaceText\<close> does it.\<close>

lemma ins_after_del:
  assumes "invar b" "off + n < length (chars b)" "string_fits s" "length (chars b) + length s < 2 ^ 32"
  shows "\<exists>b' b''. del off n b = Some b' \<and> ins off s b' = Some b'' \<and> invar b'' \<and>
    chars b'' = take off (chars b) @ s @ drop (off + n) (chars b)"
proof -
  obtain b' where b': "del off n b = Some b'" "invar b'"
    "chars b' = take off (chars b) @ drop (off + n) (chars b)" using del [OF assms(1,2)] by blast
  then have "off \<le> length (chars b')" "length (chars b') + length s < 2 ^ 32" using assms(2,4) by auto
  from ins [OF b'(2) this(1) assms(3) this(2)] b' assms(2) show ?thesis by auto
qed

end

section \<open>A store of texts\<close>

text \<open>
  What \<^verbatim>\<open>TokenRewriter\<close> relies on in \<^verbatim>\<open>ScratchBuffer\<close>
  (\<^verbatim>\<open>include/clang/Lex/ScratchBuffer.h\<close>): a text is placed if there is room, at a location of its own, and every
  text that stood somewhere keeps standing there. \<open>room S n\<close> tells that \<open>n\<close> more addresses are free.
\<close>

fun place_all :: "(string \<Rightarrow> 'b \<Rightarrow> 's \<Rightarrow> ('l \<times> nat \<times> 'b \<times> 's) option) \<Rightarrow> string list \<Rightarrow> 'b \<Rightarrow> 's \<Rightarrow> ('l list \<times> 'b \<times> 's) option" where
  "place_all place [] B S = Some ([], B, S)"
| "place_all place (s # ss) B S = do {
     (L, _, B1, S1) \<leftarrow> place s B S;
     (Ls, B2, S2) \<leftarrow> place_all place ss B1 S1;
     Some (L # Ls, B2, S2) }"

locale scratch_store =
  fixes place :: "string \<Rightarrow> 'b \<Rightarrow> 's \<Rightarrow> ('l \<times> nat \<times> 'b \<times> 's) option"
    and invar :: "'b \<Rightarrow> 's \<Rightarrow> bool"
    and stands :: "'b \<Rightarrow> 's \<Rightarrow> 'l \<Rightarrow> string \<Rightarrow> bool"
    and room :: "'s \<Rightarrow> nat \<Rightarrow> bool"
    and need :: "string \<Rightarrow> nat"
  assumes places: "invar B S \<Longrightarrow> room S (need s + n) \<Longrightarrow> \<exists>L d B' S'. place s B S = Some (L, d, B', S') \<and> invar B' S' \<and>
      stands B' S' L s \<and> room S' n \<and> (\<forall>M t. stands B S M t \<longrightarrow> stands B' S' M t \<and> M \<noteq> L)"
begin

lemma places_one:
  assumes "invar B S" "room S (need s)"
  obtains L d B' S' where "place s B S = Some (L, d, B', S')" "invar B' S'" "stands B' S' L s"
    "\<And>M t. stands B S M t \<Longrightarrow> stands B' S' M t" "\<And>t. \<not> stands B S L t"
proof -
  from places [OF assms(1), of s 0] assms(2) obtain L d B' S' where P: "place s B S = Some (L, d, B', S')" "invar B' S'" "stands B' S' L s"
    "\<forall>M t. stands B S M t \<longrightarrow> stands B' S' M t \<and> M \<noteq> L" by auto
  then show thesis by (intro that [OF P(1-3)]) blast+
qed

lemma all_placed:
  assumes "invar B S" "room S (\<Sum>s \<leftarrow> ss. need s)"
  shows "\<exists>Ls B' S'. place_all place ss B S = Some (Ls, B', S') \<and> invar B' S' \<and> length Ls = length ss \<and> distinct Ls \<and>
    (\<forall>i < length ss. stands B' S' (Ls ! i) (ss ! i)) \<and> (\<forall>M t. stands B S M t \<longrightarrow> stands B' S' M t \<and> M \<notin> set Ls)"
  using assms
proof (induction ss arbitrary: B S)
  case (Cons s ss)
  obtain L d B1 S1 where 1: "place s B S = Some (L, d, B1, S1)" "invar B1 S1" "stands B1 S1 L s" "room S1 (\<Sum>s \<leftarrow> ss. need s)"
    "\<forall>M t. stands B S M t \<longrightarrow> stands B1 S1 M t \<and> M \<noteq> L"
    using places [OF Cons.prems(1), of s "\<Sum>s \<leftarrow> ss. need s"] Cons.prems(2) by auto
  obtain Ls B2 S2 where 2: "place_all place ss B1 S1 = Some (Ls, B2, S2)" "invar B2 S2" "length Ls = length ss" "distinct Ls"
    "\<forall>i < length ss. stands B2 S2 (Ls ! i) (ss ! i)" "\<forall>M t. stands B1 S1 M t \<longrightarrow> stands B2 S2 M t \<and> M \<notin> set Ls"
    using Cons.IH [OF 1(2,4)] by auto
  have "\<forall>i < length (s # ss). stands B2 S2 ((L # Ls) ! i) ((s # ss) ! i)" using 1(3) 2(5,6) by (auto simp: less_Suc_eq_0_disj)
  moreover have "\<forall>M t. stands B S M t \<longrightarrow> stands B2 S2 M t \<and> M \<notin> set (L # Ls)" using 1(5) 2(6) by (metis set_ConsD)
  moreover have "L \<notin> set Ls" using 1(3) 2(6) by blast
  moreover have "place_all place (s # ss) B S = Some (L # Ls, B2, S2)" using 1(1) 2(1) by simp
  ultimately show ?case using 2(2-4) by (intro exI [of _ "L # Ls"] exI [of _ B2] exI [of _ S2]) (simp del: nth_Cons_Suc)
qed simp

end

end
