(* ===== verification/DeltaTree.thy ===== *)
theory DeltaTree
  imports Interfaces
begin

text \<open>
  \<^verbatim>\<open>lib/Rewrite/DeltaTree.cpp\<close>: the B-tree that maps file offsets to the amount of text
  inserted (or, with two's complement negative values, removed) at them, every node caching the
  sum of the deltas below it. \<open>Values[0..NumValuesUsed)\<close> and
  \<open>Children[0..NumValuesUsed]\<close> are the lists of a node. A file offset is an
  \<open>unsigned\<close> and a delta an \<open>int\<close>, both 32-bit words here (the signed sums of the
  source are taken modulo \<open>2^32\<close>, as its targets compute them).

  \<open>delta_inv\<close> is the B-tree invariant: sorted keys, exact cached sums, occupancy between
  \<open>WidthFactor - 1\<close> and \<open>2 * WidthFactor - 1\<close>, leaves at one depth. The abstract
  value of a tree is the list \<open>entries\<close> of its keys and deltas in order.
\<close>

section \<open>The nodes\<close>

record source_delta =
  FileLoc :: u32
  Delta :: u32

definition SourceDelta_get :: "u32 \<Rightarrow> u32 \<Rightarrow> source_delta" where
  "SourceDelta_get Loc D = \<lparr>FileLoc = Loc, Delta = D\<rparr>"

datatype delta_node =
  DeltaLeaf "source_delta list" u32
| DeltaInterior "source_delta list" u32 "delta_node list"

definition DeltaWidthFactor :: nat where
  "DeltaWidthFactor = 8"

fun Values :: "delta_node \<Rightarrow> source_delta list" where
  "Values (DeltaLeaf vs fd) = vs"
| "Values (DeltaInterior vs fd cs) = vs"

fun FullDelta :: "delta_node \<Rightarrow> u32" where
  "FullDelta (DeltaLeaf vs fd) = fd"
| "FullDelta (DeltaInterior vs fd cs) = fd"

definition deltas_full :: "source_delta list \<Rightarrow> bool" where
  "deltas_full vs \<longleftrightarrow> length vs = 2 * DeltaWidthFactor - 1"

datatype insert_result =
  Inserted delta_node
| Split delta_node source_delta delta_node

fun RecomputeFullDeltaLocally :: "delta_node \<Rightarrow> delta_node" where
  "RecomputeFullDeltaLocally (DeltaLeaf vs _) = DeltaLeaf vs (sum_list (map Delta vs))"
| "RecomputeFullDeltaLocally (DeltaInterior vs _ cs) =
     DeltaInterior vs (sum_list (map Delta vs) + sum_list (map FullDelta cs)) cs"

text \<open>
  \<open>DoSplit\<close> keeps the first half in this node (the \<open>LHS\<close>), hands the value in
  the middle up and moves the rest into a new node.
\<close>

fun DoSplit :: "delta_node \<Rightarrow> (delta_node \<times> source_delta \<times> delta_node) option" where
  "DoSplit (DeltaLeaf vs fd) = do {
     asserting (deltas_full vs);
     Some (RecomputeFullDeltaLocally (DeltaLeaf (take (DeltaWidthFactor - 1) vs) fd),
           vs ! (DeltaWidthFactor - 1),
           RecomputeFullDeltaLocally (DeltaLeaf (drop DeltaWidthFactor vs) 0)) }"
| "DoSplit (DeltaInterior vs fd cs) = do {
     asserting (deltas_full vs);
     Some (RecomputeFullDeltaLocally
             (DeltaInterior (take (DeltaWidthFactor - 1) vs) fd (take DeltaWidthFactor cs)),
           vs ! (DeltaWidthFactor - 1),
           RecomputeFullDeltaLocally
             (DeltaInterior (drop DeltaWidthFactor vs) 0 (drop DeltaWidthFactor cs))) }"

text \<open>The scan shared by insertion and lookup: the first value whose key is not below the index.\<close>

fun insertion_point :: "u32 \<Rightarrow> source_delta list \<Rightarrow> nat" where
  "insertion_point idx [] = 0"
| "insertion_point idx (v # vs) = (if idx > FileLoc v then Suc (insertion_point idx vs) else 0)"

text \<open>The percolated value and its right subtree go into the half of a split interior node.\<close>

fun insert_percolated :: "source_delta \<Rightarrow> delta_node \<Rightarrow> delta_node \<Rightarrow> delta_node option" where
  "insert_percolated SubSplit SubRHS (DeltaLeaf vs fd) = None"
| "insert_percolated SubSplit SubRHS (DeltaInterior vs fd cs) =
     (let i = insertion_point (FileLoc SubSplit) vs
      in Some (DeltaInterior (insert_at i SubSplit vs)
                 (fd + (Delta SubSplit + FullDelta SubRHS)) (insert_at (Suc i) SubRHS cs)))"

text \<open>A node's share of the values and subtrees below it, the measure of the recursions.\<close>

fun delta_weight :: "delta_node \<Rightarrow> nat" where
  "delta_weight (DeltaLeaf vs _) = length vs"
| "delta_weight (DeltaInterior vs _ cs) = Suc (sum_list (map delta_weight cs))"

lemma delta_weight_child: "i < length cs \<Longrightarrow> delta_weight (cs ! i) < delta_weight (DeltaInterior vs fd cs)"
  using sum_list_nth_le [of i cs delta_weight] by simp

lemma DoSplit_leaf_weight:
  "DoSplit (DeltaLeaf vs fd) = Some (L, m, R) \<Longrightarrow>
     delta_weight L < length vs \<and> delta_weight R < length vs"
  by (auto simp: deltas_full_def DeltaWidthFactor_def)

section \<open>Insertion and lookup\<close>

function DoInsertion :: "u32 \<Rightarrow> u32 \<Rightarrow> delta_node \<Rightarrow> insert_result option" where
  "DoInsertion idx d (DeltaLeaf vs fd0) =
     (let fd = fd0 + d; i = insertion_point idx vs
      in if i \<noteq> length vs \<and> FileLoc (vs ! i) = idx
         then Some (Inserted (DeltaLeaf (vs[i := (vs ! i)\<lparr>Delta := Delta (vs ! i) + d\<rparr>]) fd))
         else if \<not> deltas_full vs
         then Some (Inserted (DeltaLeaf (insert_at i (SourceDelta_get idx d) vs) fd))
         else (case DoSplit (DeltaLeaf vs fd) of
             None \<Rightarrow> None
           | Some (L, m, R) \<Rightarrow>
               if FileLoc m > idx
               then (case DoInsertion idx d L of
                         Some (Inserted L') \<Rightarrow> Some (Split L' m R)
                       | _ \<Rightarrow> None)
               else (case DoInsertion idx d R of
                         Some (Inserted R') \<Rightarrow> Some (Split L m R')
                       | _ \<Rightarrow> None)))"
| "DoInsertion idx d (DeltaInterior vs fd0 cs) =
     (let fd = fd0 + d; i = insertion_point idx vs
      in if i \<noteq> length vs \<and> FileLoc (vs ! i) = idx
         then Some (Inserted (DeltaInterior (vs[i := (vs ! i)\<lparr>Delta := Delta (vs ! i) + d\<rparr>]) fd cs))
         else if \<not> i < length cs then None
         else (case DoInsertion idx d (cs ! i) of
             None \<Rightarrow> None
           | Some (Inserted c) \<Rightarrow> Some (Inserted (DeltaInterior vs fd (cs[i := c])))
           | Some (Split l m r) \<Rightarrow>
               if \<not> deltas_full vs
               then Some (Inserted (DeltaInterior (insert_at i m vs) fd
                                     (insert_at (Suc i) r (cs[i := l]))))
               else (case DoSplit (DeltaInterior vs fd (cs[i := l])) of
                   None \<Rightarrow> None
                 | Some (L, M, R) \<Rightarrow>
                     if FileLoc m < FileLoc M
                     then map_option (\<lambda>L'. Split L' M R) (insert_percolated m r L)
                     else map_option (\<lambda>R'. Split L M R') (insert_percolated m r R))))"
  by pat_completeness auto
termination
  by (relation "measure (\<lambda>(_, _, t). delta_weight t)")
     (auto simp: delta_weight_child dest: DoSplit_leaf_weight
        simp del: delta_weight.simps(2) DoSplit.simps)

function getDeltaAt :: "u32 \<Rightarrow> delta_node \<Rightarrow> u32 option" where
  "getDeltaAt idx (DeltaLeaf vs fd) =
     Some (sum_list (map Delta (take (insertion_point idx vs) vs)))"
| "getDeltaAt idx (DeltaInterior vs fd cs) =
     (let n = insertion_point idx vs;
          Result = sum_list (map Delta (take n vs)) + sum_list (map FullDelta (take n cs))
      in if \<not> n < length cs then None
         else if n \<noteq> length vs \<and> FileLoc (vs ! n) = idx
         then Some (Result + FullDelta (cs ! n))
         else map_option (\<lambda>x. Result + x) (getDeltaAt idx (cs ! n)))"
  by pat_completeness auto
termination
  by (relation "measure (\<lambda>(_, t). delta_weight t)")
     (simp_all add: delta_weight_child del: delta_weight.simps(2))

declare DoInsertion.simps [simp del] getDeltaAt.simps [simp del]

definition DeltaTree_empty :: delta_node where
  "DeltaTree_empty = DeltaLeaf [] 0"

definition new_interior_root :: "delta_node \<Rightarrow> source_delta \<Rightarrow> delta_node \<Rightarrow> delta_node" where
  "new_interior_root LHS S RHS =
     DeltaInterior [S] (FullDelta LHS + FullDelta RHS + Delta S) [LHS, RHS]"

definition AddDelta :: "delta_node \<Rightarrow> u32 \<Rightarrow> u32 \<Rightarrow> delta_node option" where
  "AddDelta root idx d = do {
     asserting (d \<noteq> 0);
     res \<leftarrow> DoInsertion idx d root;
     Some (case res of Inserted t \<Rightarrow> t | Split l m r \<Rightarrow> new_interior_root l m r) }"

section \<open>Order and sums\<close>

text \<open>The values of an interior node interleaved with what its children hold.\<close>

fun weave :: "'v list list \<Rightarrow> 'v list \<Rightarrow> 'v list" where
  "weave (x # xs) (v # vs) = x @ v # weave xs vs"
| "weave (x # xs) [] = x @ weave xs []"
| "weave [] vs = vs"

fun entries :: "delta_node \<Rightarrow> source_delta list" where
  "entries (DeltaLeaf vs _) = vs"
| "entries (DeltaInterior vs _ cs) = weave (map entries cs) vs"

definition delta_sum :: "source_delta list \<Rightarrow> u32" where
  "delta_sum vs = sum_list (map Delta vs)"

fun lpart :: "'v list list \<Rightarrow> 'v list \<Rightarrow> 'v list" where
  "lpart (x # xs) (v # vs) = x @ v # lpart xs vs"
| "lpart _ _ = []"

fun rpart :: "'v list \<Rightarrow> 'v list list \<Rightarrow> 'v list" where
  "rpart (v # vs) (x # xs) = v # x @ rpart vs xs"
| "rpart _ _ = []"

lemma weave_around [simp]:
  "length xs = length us \<Longrightarrow> length ys = length ws \<Longrightarrow>
     weave (xs @ x # ys) (us @ ws) = lpart xs us @ x @ rpart ws ys"
proof (induction xs us rule: list_induct2')
  case 1
  then show ?case
  proof (simp, induction ys ws arbitrary: x rule: list_induct2')
    case (4 y ys w ws)
    then show ?case by simp
  qed auto
qed auto

lemma weave_cut:
  "length xs = Suc (length us) \<Longrightarrow> weave (xs @ ys) (us @ v # vs) = weave xs us @ v # weave ys vs"
proof (induction xs us rule: list_induct2')
  case (2 x xs)
  then show ?case by simp
next
  case (4 x xs u us)
  then show ?case by simp
qed auto

lemma lpart_snoc [simp]:
  "length xs = length us \<Longrightarrow> lpart (xs @ [x]) (us @ [u]) = lpart xs us @ x @ [u]"
  by (induction xs us rule: list_induct2') auto

lemma delta_sum_simps [simp]:
  "delta_sum [] = 0" "delta_sum (v # vs) = Delta v + delta_sum vs"
  "delta_sum (us @ vs) = delta_sum us + delta_sum vs"
  by (simp_all add: delta_sum_def)

lemma delta_sum_weave:
  "delta_sum (weave xs vs) = delta_sum vs + sum_list (map delta_sum xs)"
  by (induction xs vs rule: weave.induct) (simp_all add: algebra_simps)

lemma delta_sum_lpart:
  "length xs = length vs \<Longrightarrow> delta_sum (lpart xs vs) = delta_sum vs + sum_list (map delta_sum xs)"
  by (induction xs vs rule: lpart.induct) (simp_all add: algebra_simps)

abbreviation sorted_deltas :: "source_delta list \<Rightarrow> bool" where
  "sorted_deltas vs \<equiv> sorted_wrt (\<lambda>u v. FileLoc u < FileLoc v) vs"

text \<open>The abstract insertion: add to the delta recorded at the index, or record a new one.\<close>

fun add_entry :: "u32 \<Rightarrow> u32 \<Rightarrow> source_delta list \<Rightarrow> source_delta list" where
  "add_entry idx d [] = [SourceDelta_get idx d]"
| "add_entry idx d (v # vs) =
     (if FileLoc v < idx then v # add_entry idx d vs
      else if FileLoc v = idx then v\<lparr>Delta := Delta v + d\<rparr> # vs
      else SourceDelta_get idx d # v # vs)"

lemma FileLoc_get [simp]: "FileLoc (SourceDelta_get l d) = l" "Delta (SourceDelta_get l d) = d"
  by (simp_all add: SourceDelta_get_def)

lemma set_add_entry_locs: "FileLoc ` set (add_entry idx d vs) = insert idx (FileLoc ` set vs)"
  by (induction vs) auto

lemma sorted_add_entry: "sorted_deltas vs \<Longrightarrow> sorted_deltas (add_entry idx d vs)"
proof (induction vs)
  case (Cons v vs)
  have "FileLoc v < FileLoc w" if "FileLoc v < idx" "w \<in> set (add_entry idx d vs)" for w
  proof -
    have "FileLoc w \<in> insert idx (FileLoc ` set vs)"
      using that(2) set_add_entry_locs [of idx d vs] by blast
    then show ?thesis using that(1) Cons.prems by auto
  qed
  then show ?case using Cons by (auto intro: less_trans)
qed simp

lemma delta_sum_add_entry: "delta_sum (add_entry idx d vs) = delta_sum vs + d"
  by (induction vs) (simp_all add: algebra_simps)

lemma add_entry_after:
  "\<forall>u \<in> set us. FileLoc u < idx \<Longrightarrow> add_entry idx d (us @ vs) = us @ add_entry idx d vs"
  by (induction us) auto

lemma add_entry_before:
  "vs = [] \<or> idx < FileLoc (hd vs) \<Longrightarrow> add_entry idx d (us @ vs) = add_entry idx d us @ vs"
  by (induction us) (cases vs; auto)+

lemma length_add_entry:
  "sorted_deltas vs \<Longrightarrow>
     length (add_entry idx d vs) = length vs + (if idx \<in> FileLoc ` set vs then 0 else 1)"
proof (induction vs)
  case (Cons v vs)
  have "idx \<notin> FileLoc ` set vs" if "idx \<le> FileLoc v" using Cons.prems that by auto
  then show ?case using Cons by (auto simp: not_less)
qed simp

lemma insertion_point_split:
  obtains us ws where "vs = us @ ws" and "insertion_point idx vs = length us"
    and "\<forall>u \<in> set us. FileLoc u < idx" and "ws = [] \<or> \<not> FileLoc (hd ws) < idx"
proof -
  have "\<exists>us ws. vs = us @ ws \<and> insertion_point idx vs = length us \<and>
     (\<forall>u \<in> set us. FileLoc u < idx) \<and> (ws = [] \<or> \<not> FileLoc (hd ws) < idx)"
  proof (induction vs)
    case (Cons v vs)
    then obtain us ws where IH: "vs = us @ ws" "insertion_point idx vs = length us"
      "\<forall>u \<in> set us. FileLoc u < idx" "ws = [] \<or> \<not> FileLoc (hd ws) < idx" by blast
    show ?case
    proof (cases "FileLoc v < idx")
      case True
      then show ?thesis using IH by (intro exI [of _ "v # us"] exI [of _ ws]) auto
    next
      case False
      then show ?thesis by (intro exI [of _ "[]"] exI [of _ "v # vs"]) auto
    qed
  qed simp
  then show ?thesis using that by blast
qed

lemma insertion_point_eqI:
  "\<forall>u \<in> set us. FileLoc u < idx \<Longrightarrow> ws = [] \<or> \<not> FileLoc (hd ws) < idx \<Longrightarrow>
     insertion_point idx (us @ ws) = length us"
  by (induction us) (cases ws; auto)+

section \<open>The invariant\<close>

fun delta_wf :: "nat \<Rightarrow> delta_node \<Rightarrow> bool" where
  "delta_wf 0 (DeltaLeaf vs fd) \<longleftrightarrow>
     length vs \<le> 2 * DeltaWidthFactor - 1 \<and> fd = delta_sum vs"
| "delta_wf (Suc h) (DeltaInterior vs fd cs) \<longleftrightarrow>
     0 < length vs \<and> length vs \<le> 2 * DeltaWidthFactor - 1 \<and> length cs = Suc (length vs) \<and>
     (\<forall>c \<in> set cs. delta_wf h c \<and> DeltaWidthFactor - 1 \<le> length (Values c)) \<and>
     fd = delta_sum (entries (DeltaInterior vs fd cs))"
| "delta_wf _ _ \<longleftrightarrow> False"

definition delta_inv :: "delta_node \<Rightarrow> bool" where
  "delta_inv t \<longleftrightarrow> (\<exists>h. delta_wf h t) \<and> sorted_deltas (entries t)"

lemma delta_wf_FullDelta: "delta_wf h t \<Longrightarrow> FullDelta t = delta_sum (entries t)"
  by (cases "(h, t)" rule: delta_wf.cases) auto

lemma sum_FullDelta_children:
  "\<forall>c \<in> set cs. delta_wf h c \<Longrightarrow>
     sum_list (map FullDelta cs) = sum_list (map delta_sum (map entries cs))"
  by (induction cs) (auto simp: delta_wf_FullDelta)

lemma FullDelta_interior:
  "\<forall>c \<in> set cs. delta_wf h c \<Longrightarrow>
     sum_list (map Delta vs) + sum_list (map FullDelta cs) = delta_sum (weave (map entries cs) vs)"
  by (simp add: sum_FullDelta_children delta_sum_weave delta_sum_def [of vs])

text \<open>What an insertion promises of its result, against the sorted list it should hold.\<close>

fun insertion_ok :: "nat \<Rightarrow> nat \<Rightarrow> source_delta list \<Rightarrow> insert_result \<Rightarrow> bool" where
  "insertion_ok h n es (Inserted t) \<longleftrightarrow> delta_wf h t \<and> entries t = es \<and> n \<le> length (Values t)"
| "insertion_ok h n es (Split l m r) \<longleftrightarrow>
     delta_wf h l \<and> delta_wf h r \<and> DeltaWidthFactor - 1 \<le> length (Values l) \<and>
     DeltaWidthFactor - 1 \<le> length (Values r) \<and> entries l @ m # entries r = es"

lemma update_at_point:
  assumes "vs = us @ w # ws" "\<forall>u \<in> set us. FileLoc u < idx" "FileLoc w = idx"
  shows "vs[length us := (vs ! length us)\<lparr>Delta := Delta (vs ! length us) + d\<rparr>] = add_entry idx d vs"
  using assms by (simp add: add_entry_after)

lemma insert_at_point:
  assumes "vs = us @ ws" "\<forall>u \<in> set us. FileLoc u < idx" "ws = [] \<or> idx < FileLoc (hd ws)"
  shows "insert_at (length us) (SourceDelta_get idx d) vs = add_entry idx d vs"
proof (cases ws)
  case Nil
  then show ?thesis using assms insert_at_append [of us _ "[]"] by (simp add: add_entry_after [of us idx d "[]", simplified])
next
  case (Cons w ws')
  then have "FileLoc w \<noteq> idx" "\<not> FileLoc w < idx" using assms(3) by auto
  then show ?thesis using assms Cons by (simp add: add_entry_after insert_at_append)
qed

section \<open>Insertion\<close>

lemma DoInsertion_leaf_match:
  assumes "sorted_deltas vs" "idx \<in> FileLoc ` set vs"
  shows "DoInsertion idx d (DeltaLeaf vs fd) =
    Some (Inserted (DeltaLeaf (add_entry idx d vs) (fd + d)))"
proof -
  obtain us ws where s: "vs = us @ ws" "insertion_point idx vs = length us"
    "\<forall>u \<in> set us. FileLoc u < idx" "ws = [] \<or> \<not> FileLoc (hd ws) < idx"
    by (rule insertion_point_split)
  from assms(2) s(1,3) obtain w ws' where ws: "ws = w # ws'" by (cases ws) auto
  have "FileLoc w = idx"
    using assms s(1,3,4) ws by (auto simp: sorted_wrt_append not_less)
  then show ?thesis
    using s ws update_at_point [OF s(1) [unfolded ws] s(3), of d]
    by (simp add: DoInsertion.simps Let_def)
qed

lemma DoInsertion_leaf_room:
  assumes "sorted_deltas vs" "\<not> deltas_full vs"
  shows "DoInsertion idx d (DeltaLeaf vs fd) =
    Some (Inserted (DeltaLeaf (add_entry idx d vs) (fd + d)))"
proof (cases "idx \<in> FileLoc ` set vs")
  case False
  obtain us ws where s: "vs = us @ ws" "insertion_point idx vs = length us"
    "\<forall>u \<in> set us. FileLoc u < idx" "ws = [] \<or> \<not> FileLoc (hd ws) < idx"
    by (rule insertion_point_split)
  have ws: "ws = [] \<or> idx < FileLoc (hd ws)"
    using False s(1,4) by (cases ws) auto
  have nomatch: "\<not> (length us \<noteq> length vs \<and> FileLoc (vs ! length us) = idx)"
    using False s(1) by (cases ws) auto
  show ?thesis
    using assms(2) insert_at_point [OF s(1,3) ws, of d]
    by (simp only: DoInsertion.simps(1) Let_def s(2) if_not_P [OF nomatch] not_False_eq_True if_True)
qed (use assms DoInsertion_leaf_match in blast)

lemma full_deltas_parts:
  assumes "deltas_full vs"
  obtains us m ws where "vs = us @ m # ws" "length us = DeltaWidthFactor - 1"
    "length ws = DeltaWidthFactor - 1"
proof -
  have "DeltaWidthFactor - 1 < length vs"
    using assms by (simp add: deltas_full_def DeltaWidthFactor_def)
  then obtain us ws where p: "vs = us @ vs ! (DeltaWidthFactor - 1) # ws" "length us = DeltaWidthFactor - 1"
    by (rule split_at_index)
  then have "length vs = DeltaWidthFactor - 1 + Suc (length ws)"
    by (metis length_append length_Cons)
  then have "length ws = DeltaWidthFactor - 1"
    using assms by (simp add: deltas_full_def DeltaWidthFactor_def)
  then show ?thesis using that p by blast
qed

lemma DoSplit_leaf_parts:
  assumes "length us = DeltaWidthFactor - 1" "length ws = DeltaWidthFactor - 1"
  shows "DoSplit (DeltaLeaf (us @ m # ws) fd) =
    Some (DeltaLeaf us (delta_sum us), m, DeltaLeaf ws (delta_sum ws))"
proof -
  have "(us @ m # ws) ! (DeltaWidthFactor - 1) = m"
    using assms(1) nth_append_length [of us m ws] by simp
  then show ?thesis
    using assms by (simp add: deltas_full_def DeltaWidthFactor_def delta_sum_def)
qed

lemma DoInsertion_leaf:
  assumes "delta_wf 0 (DeltaLeaf vs fd)" "sorted_deltas vs"
  obtains res where "DoInsertion idx d (DeltaLeaf vs fd) = Some res"
    and "insertion_ok 0 (length vs) (add_entry idx d vs) res"
proof (cases "idx \<in> FileLoc ` set vs \<or> \<not> deltas_full vs")
  case True
  then have "DoInsertion idx d (DeltaLeaf vs fd) =
      Some (Inserted (DeltaLeaf (add_entry idx d vs) (fd + d)))"
    using assms DoInsertion_leaf_match DoInsertion_leaf_room by blast
  moreover have "length (add_entry idx d vs) = length vs + (if idx \<in> FileLoc ` set vs then 0 else 1)"
    using assms(2) by (rule length_add_entry)
  moreover have "deltas_full vs \<or> length vs < 2 * DeltaWidthFactor - 1"
    using assms by (auto simp: deltas_full_def)
  ultimately show ?thesis
    using assms True by (intro that) (auto simp: delta_sum_add_entry)
next
  case False
  then have nin: "idx \<notin> FileLoc ` set vs" and full: "deltas_full vs" by auto
  obtain us m ws where p: "vs = us @ m # ws" "length us = DeltaWidthFactor - 1"
    "length ws = DeltaWidthFactor - 1" using full by (rule full_deltas_parts)
  have sorted: "sorted_deltas us" "sorted_deltas ws" "\<forall>u \<in> set us. FileLoc u < FileLoc m"
    using assms(2) p(1) by (auto simp: sorted_wrt_append)
  have room: "\<not> deltas_full us" "\<not> deltas_full ws"
    using p by (auto simp: deltas_full_def DeltaWidthFactor_def)
  let ?i = "insertion_point idx vs"
  have "\<not> (?i \<noteq> length vs \<and> FileLoc (vs ! ?i) = idx)"
  proof -
    have "?i \<le> length vs" by (rule insertion_point_split [of vs idx]) simp
    then show ?thesis using nin by (metis image_eqI le_neq_implies_less nth_mem)
  qed
  note nomatch = this
  have step: "DoInsertion idx d (DeltaLeaf vs fd) =
     (if FileLoc m > idx
      then Some (Split (DeltaLeaf (add_entry idx d us) (delta_sum us + d)) m (DeltaLeaf ws (delta_sum ws)))
      else Some (Split (DeltaLeaf us (delta_sum us)) m (DeltaLeaf (add_entry idx d ws) (delta_sum ws + d))))"
    unfolding DoInsertion.simps(1) [of idx d vs] Let_def if_not_P [OF nomatch]
    using full DoSplit_leaf_parts [OF p(2,3), of m "fd + d"] sorted room
    by (simp add: DoInsertion_leaf_room p(1) [symmetric] del: DoSplit.simps)
  have len: "length (add_entry idx d us) = Suc (length us)" "length (add_entry idx d ws) = Suc (length ws)"
    using nin p(1) sorted by (simp_all add: length_add_entry image_iff)
  show ?thesis
  proof (cases "FileLoc m > idx")
    case True
    then have "add_entry idx d vs = add_entry idx d us @ m # ws"
      unfolding p(1) by (intro add_entry_before) simp
    then show ?thesis using True step len p sorted
      by (intro that) (auto simp: delta_sum_add_entry DeltaWidthFactor_def)
  next
    case False
    then have lt: "FileLoc m < idx" using nin p(1) by auto
    then have "\<forall>u \<in> set (us @ [m]). FileLoc u < idx" using sorted(3) by auto
    then have "add_entry idx d ((us @ [m]) @ ws) = (us @ [m]) @ add_entry idx d ws"
      by (rule add_entry_after)
    then show ?thesis using False step len p sorted
      by (intro that) (auto simp: delta_sum_add_entry DeltaWidthFactor_def)
  qed
qed

lemma DoSplit_interior_parts:
  assumes "length V1 = DeltaWidthFactor - 1" "length V2 = DeltaWidthFactor - 1"
    "length C1 = DeltaWidthFactor"
  shows "DoSplit (DeltaInterior (V1 @ M # V2) fd (C1 @ C2)) =
    Some (DeltaInterior V1 (sum_list (map Delta V1) + sum_list (map FullDelta C1)) C1, M,
          DeltaInterior V2 (sum_list (map Delta V2) + sum_list (map FullDelta C2)) C2)"
proof -
  have "(V1 @ M # V2) ! (DeltaWidthFactor - 1) = M"
    using assms(1) nth_append_length [of V1 M V2] by simp
  then show ?thesis
    using assms by (simp add: deltas_full_def DeltaWidthFactor_def)
qed

lemma insert_percolated_parts:
  assumes "\<forall>u \<in> set us. FileLoc u < FileLoc m" "ws = [] \<or> FileLoc m < FileLoc (hd ws)"
    "length as = length us"
  shows "insert_percolated m r (DeltaInterior (us @ ws) fd (as @ l # bs)) =
    Some (DeltaInterior (us @ m # ws) (fd + (Delta m + FullDelta r)) (as @ l # r # bs))"
proof -
  have "insertion_point (FileLoc m) (us @ ws) = length us"
    using assms(1,2) by (intro insertion_point_eqI) auto
  moreover have "insert_at (Suc (length us)) r (as @ l # bs) = as @ l # r # bs"
    unfolding assms(3) [symmetric] by (rule insert_at_Suc_append)
  ultimately show ?thesis by (simp add: Let_def insert_at_append)
qed

text \<open>Splitting a full interior node around a percolated value, wherever the value goes.\<close>

lemma split_full_interior:
  assumes full: "deltas_full (us @ ws)" and len: "length as = length us" "length bs = length ws"
    and sorted: "sorted_deltas (us @ m # ws)"
  obtains V1 f1 C1 M V2 f2 C2 where
    "(case DoSplit (DeltaInterior (us @ ws) fd (as @ l # bs)) of
        None \<Rightarrow> None
      | Some (L, M, R) \<Rightarrow>
          if FileLoc m < FileLoc M
          then map_option (\<lambda>L'. Split L' M R) (insert_percolated m r L)
          else map_option (\<lambda>R'. Split L M R') (insert_percolated m r R)) =
      Some (Split (DeltaInterior V1 f1 C1) M (DeltaInterior V2 f2 C2))"
    and "us @ m # ws = V1 @ M # V2" and "as @ l # r # bs = C1 @ C2"
    and "length C1 = Suc (length V1)" and "length C2 = Suc (length V2)"
    and "DeltaWidthFactor - 1 \<le> length V1" and "length V1 \<le> DeltaWidthFactor"
    and "DeltaWidthFactor - 1 \<le> length V2" and "length V2 \<le> DeltaWidthFactor"
    and "f1 = sum_list (map Delta V1) + sum_list (map FullDelta C1)"
    and "f2 = sum_list (map Delta V2) + sum_list (map FullDelta C2)"
proof -
  have lens: "length us + length ws = 15"
    using full by (simp add: deltas_full_def DeltaWidthFactor_def)
  show ?thesis
  proof (cases "length us \<le> 7")
    case True
    define n where "n = 7 - length us"
    have n: "n < length ws" using lens True by (simp add: n_def)
    obtain ws1 M ws2 where ws: "ws = ws1 @ M # ws2" "length ws1 = n"
      using split_at_index [OF n] by metis
    obtain bs1 bs2 where bs: "bs = bs1 @ bs2" "length bs1 = n"
      by (metis append_take_drop_id len(2) length_take less_imp_le min.absorb2 n)
    have l1: "length (us @ ws1) = 7" "length ws2 = 7" "length (as @ l # bs1) = 8" "length bs2 = 8"
      using ws bs True lens len by (simp_all add: n_def)
    have M: "FileLoc m < FileLoc M" using sorted ws by (auto simp: sorted_wrt_append)
    have split: "DoSplit (DeltaInterior (us @ ws) fd (as @ l # bs)) =
      Some (DeltaInterior (us @ ws1) (sum_list (map Delta (us @ ws1)) + sum_list (map FullDelta (as @ l # bs1))) (as @ l # bs1), M,
            DeltaInterior ws2 (sum_list (map Delta ws2) + sum_list (map FullDelta bs2)) bs2)"
      using DoSplit_interior_parts [of "us @ ws1" ws2 "as @ l # bs1" M fd bs2] l1
      by (simp add: ws bs DeltaWidthFactor_def del: DoSplit.simps)
    have ins: "insert_percolated m r (DeltaInterior (us @ ws1) f (as @ l # bs1)) =
      Some (DeltaInterior (us @ m # ws1) (f + (Delta m + FullDelta r)) (as @ l # r # bs1))" for f
      using sorted ws len(1) by (intro insert_percolated_parts) (cases ws1; auto simp: sorted_wrt_append)+
    show ?thesis
      using l1 M split ins ws bs
      by (intro that [of "us @ m # ws1" _ "as @ l # r # bs1" M ws2 _ bs2])
         (simp_all add: DeltaWidthFactor_def algebra_simps del: DoSplit.simps insert_percolated.simps)
  next
    case False
    then have n: "7 < length us" by simp
    obtain us1 M us2 where us: "us = us1 @ M # us2" "length us1 = 7"
      using split_at_index [OF n] by metis
    obtain as1 as2 where as: "as = as1 @ as2" "length as1 = 8"
      using n len(1) by (intro that [of "take 8 as" "drop 8 as"]) simp_all
    have l1: "length (us2 @ ws) = 7" "length (as2 @ l # bs) = 8" "length as2 = length us2"
      using us as lens len by simp_all
    have M: "\<not> FileLoc m < FileLoc M" using sorted us by (auto simp: sorted_wrt_append)
    have split: "DoSplit (DeltaInterior (us @ ws) fd (as @ l # bs)) =
      Some (DeltaInterior us1 (sum_list (map Delta us1) + sum_list (map FullDelta as1)) as1, M,
            DeltaInterior (us2 @ ws) (sum_list (map Delta (us2 @ ws)) + sum_list (map FullDelta (as2 @ l # bs))) (as2 @ l # bs))"
      using DoSplit_interior_parts [of us1 "us2 @ ws" as1 M fd "as2 @ l # bs"] us as l1
      by (simp add: DeltaWidthFactor_def del: DoSplit.simps)
    have ins: "insert_percolated m r (DeltaInterior (us2 @ ws) f (as2 @ l # bs)) =
      Some (DeltaInterior (us2 @ m # ws) (f + (Delta m + FullDelta r)) (as2 @ l # r # bs))" for f
      using sorted us l1(3) by (intro insert_percolated_parts) (cases ws; auto simp: sorted_wrt_append)+
    show ?thesis
      using l1 M split ins us as
      by (intro that [of us1 _ as1 M "us2 @ m # ws" _ "as2 @ l # r # bs"])
         (simp_all add: DeltaWidthFactor_def algebra_simps del: DoSplit.simps insert_percolated.simps)
  qed
qed

lemma sorted_weave_values: "sorted_deltas (weave xs vs) \<Longrightarrow> sorted_deltas vs"
proof (induction xs vs rule: weave.induct)
  case (1 x xs v vs)
  have "set vs \<subseteq> set (weave xs vs)" by (induction xs vs rule: weave.induct) auto
  then show ?case using 1 by (auto simp: sorted_wrt_append)
next
  case (2 x xs)
  then show ?case by simp
qed simp

text \<open>Around the insertion point of an interior node: what lies to its left and to its right.\<close>

lemma lpart_below:
  assumes "length xs = length us" "sorted_deltas (lpart xs us)" "\<forall>u \<in> set us. FileLoc u < idx"
  shows "\<forall>v \<in> set (lpart xs us). FileLoc v < idx"
proof (cases us rule: rev_cases)
  case (snoc us' u)
  then obtain xs' x where xs: "xs = xs' @ [x]" "length xs' = length us'"
    using assms(1) by (cases xs rule: rev_cases) auto
  have "FileLoc u < idx" using assms(3) snoc by simp
  then show ?thesis
    using assms(2) by (auto simp: snoc xs sorted_wrt_append intro: less_trans)
qed simp

lemma rpart_hd: "length ws = length ys \<Longrightarrow> rpart ws ys = [] \<longleftrightarrow> ws = []"
  "length ws = length ys \<Longrightarrow> ws \<noteq> [] \<Longrightarrow> hd (rpart ws ys) = hd ws"
  by (cases ws; cases ys; simp)+

lemma DoInsertion_ok:
  assumes "delta_wf h t" "sorted_deltas (entries t)"
  shows "\<exists>res. DoInsertion idx d t = Some res \<and>
    insertion_ok h (length (Values t)) (add_entry idx d (entries t)) res"
  using assms
proof (induction h arbitrary: t)
  case 0
  then obtain vs fd where t: "t = DeltaLeaf vs fd" by (cases t) auto
  show ?case using 0 DoInsertion_leaf [of vs fd idx d] unfolding t by (metis Values.simps(1) entries.simps(1))
next
  case (Suc h)
  then obtain vs fd cs where t: "t = DeltaInterior vs fd cs" by (cases t) auto
  have vs: "0 < length vs" "length vs \<le> 2 * DeltaWidthFactor - 1" and lcs: "length cs = Suc (length vs)"
    and ch: "\<forall>c \<in> set cs. delta_wf h c \<and> DeltaWidthFactor - 1 \<le> length (Values c)"
    and fd: "fd = delta_sum (entries t)"
    using Suc.prems(1) by (auto simp: t)
  obtain us ws where s: "vs = us @ ws" "insertion_point idx vs = length us"
    "\<forall>u \<in> set us. FileLoc u < idx" "ws = [] \<or> \<not> FileLoc (hd ws) < idx"
    by (rule insertion_point_split)
  have "length us < length cs" using lcs s(1) by simp
  note inr = this
  then obtain as c bs where cs: "cs = as @ c # bs" "length as = length us"
    using split_at_index by metis
  have lbs: "length bs = length ws" using lcs cs s(1) by simp
  note lens = cs(2) lbs
  have es: "entries t = lpart (map entries as) us @ entries c @ rpart ws (map entries bs)"
    using lens by (simp add: t cs(1) s(1))
  have srt: "sorted_deltas (entries c)" "sorted_deltas (lpart (map entries as) us)"
    using Suc.prems(2) by (auto simp: es sorted_wrt_append)
  have below: "\<forall>v \<in> set (lpart (map entries as) us). FileLoc v < idx"
    using lens srt(2) s(3) by (intro lpart_below) simp_all
  have nth: "cs ! length us = c" using cs by (metis nth_append_length)
  show ?case
  proof (cases "length us \<noteq> length vs \<and> FileLoc (vs ! length us) = idx")
    case True
    then obtain w ws' where ws: "ws = w # ws'" "FileLoc w = idx" using s(1) by (cases ws) auto
    obtain b bs' where bs: "bs = b # bs'" using lbs ws by (cases bs) auto
    let ?w = "w\<lparr>Delta := Delta w + d\<rparr>"
    have "\<forall>v \<in> set (lpart (map entries as) us @ entries c). FileLoc v < idx"
      using below Suc.prems(2) ws by (auto simp: es bs sorted_wrt_append)
    from add_entry_after [OF this, of d "w # entries b @ rpart ws' (map entries bs')"] ws
    have ae: "add_entry idx d (entries t) =
      lpart (map entries as) us @ entries c @ ?w # entries b @ rpart ws' (map entries bs')"
      by (simp add: es bs)
    have step: "DoInsertion idx d t = Some (Inserted (DeltaInterior (us @ ?w # ws') (fd + d) cs))"
      using True s ws by (simp add: t DoInsertion.simps Let_def)
    have ent: "entries (DeltaInterior (us @ ?w # ws') (fd + d) cs) = add_entry idx d (entries t)"
      using lens by (simp add: ae cs(1) ws bs)
    have "delta_sum (add_entry idx d (entries t)) = fd + d" by (simp add: delta_sum_add_entry fd)
    then show ?thesis
      using step ent vs lcs ch s(1) ws by (auto simp: t simp del: entries.simps)
  next
    case False
    have right: "ws = [] \<or> idx < FileLoc (hd ws)" using False s(1,4) by (cases ws) auto
    have "add_entry idx d (entries t) =
      lpart (map entries as) us @ add_entry idx d (entries c @ rpart ws (map entries bs))"
      unfolding es using below by (rule add_entry_after)
    also have "add_entry idx d (entries c @ rpart ws (map entries bs)) =
      add_entry idx d (entries c) @ rpart ws (map entries bs)"
      using right lbs rpart_hd [of ws "map entries bs"] by (intro add_entry_before) auto
    finally have ae: "add_entry idx d (entries t) =
      lpart (map entries as) us @ add_entry idx d (entries c) @ rpart ws (map entries bs)" .
    have sum: "delta_sum (add_entry idx d (entries t)) = fd + d" by (simp add: delta_sum_add_entry fd)
    have "delta_wf h c" using ch cs by simp
    from Suc.IH [OF this srt(1)] obtain res where
      res: "DoInsertion idx d c = Some res"
        "insertion_ok h (length (Values c)) (add_entry idx d (entries c)) res" by blast
    note step0 = DoInsertion.simps(2) [of idx d vs fd cs, unfolded Let_def s(2) if_not_P [OF False]]
    show ?thesis
    proof (cases res)
      case (Inserted c')
      have updc: "cs[length us := c'] = as @ c' # bs" using cs by (metis list_update_length)
      have step: "DoInsertion idx d t = Some (Inserted (DeltaInterior vs (fd + d) (as @ c' # bs)))"
        unfolding t step0 using res(1) Inserted nth inr updc by simp
      have ent: "entries (DeltaInterior vs (fd + d) (as @ c' # bs)) = add_entry idx d (entries t)"
        using res(2) Inserted lens by (simp add: ae s(1))
      show ?thesis
        using step ent sum res(2) Inserted vs lcs ch cs by (auto simp: t simp del: entries.simps)
    next
      case (Split l m r)
      have lr: "delta_wf h l" "delta_wf h r" "DeltaWidthFactor - 1 \<le> length (Values l)"
        "DeltaWidthFactor - 1 \<le> length (Values r)" "entries l @ m # entries r = add_entry idx d (entries c)"
        using res(2) Split by auto
      have upd: "cs[length us := l] = as @ l # bs" using cs by (metis list_update_length)
      have iv: "insert_at (length us) m vs = us @ m # ws" by (simp add: s(1) insert_at_append)
      have ws': "weave (map entries (as @ l # r # bs)) (us @ m # ws) = add_entry idx d (entries t)"
        using lens by (simp add: ae lr(5) [symmetric])
      have all: "\<forall>x \<in> set (as @ l # r # bs). delta_wf h x \<and> DeltaWidthFactor - 1 \<le> length (Values x)"
        using ch lr cs by auto
      show ?thesis
      proof (cases "deltas_full vs")
        case notfull: False
        have step: "DoInsertion idx d t =
          Some (Inserted (DeltaInterior (us @ m # ws) (fd + d) (as @ l # r # bs)))"
          unfolding t step0
          using res(1) Split nth inr notfull upd iv insert_at_Suc_append [of as r l bs] cs(2) by simp
        have "length vs < 2 * DeltaWidthFactor - 1" using notfull vs by (simp add: deltas_full_def)
        then show ?thesis
          using step ws' all sum lens s(1) by (auto simp: t)
      next
        case True
        have "sorted_deltas (weave (map entries (as @ l # r # bs)) (us @ m # ws))"
          unfolding ws' using Suc.prems(2) by (rule sorted_add_entry)
        then have sv: "sorted_deltas (us @ m # ws)" by (rule sorted_weave_values)
        obtain V1 f1 C1 M V2 f2 C2 where sp:
          "(case DoSplit (DeltaInterior (us @ ws) (fd + d) (as @ l # bs)) of
              None \<Rightarrow> None
            | Some (L, M, R) \<Rightarrow>
                if FileLoc m < FileLoc M
                then map_option (\<lambda>L'. Split L' M R) (insert_percolated m r L)
                else map_option (\<lambda>R'. Split L M R') (insert_percolated m r R)) =
            Some (Split (DeltaInterior V1 f1 C1) M (DeltaInterior V2 f2 C2))"
          and p: "us @ m # ws = V1 @ M # V2" "as @ l # r # bs = C1 @ C2"
          "length C1 = Suc (length V1)" "length C2 = Suc (length V2)"
          "DeltaWidthFactor - 1 \<le> length V1" "length V1 \<le> DeltaWidthFactor"
          "DeltaWidthFactor - 1 \<le> length V2" "length V2 \<le> DeltaWidthFactor"
          "f1 = sum_list (map Delta V1) + sum_list (map FullDelta C1)"
          "f2 = sum_list (map Delta V2) + sum_list (map FullDelta C2)"
          by (rule split_full_interior [OF True [unfolded s(1)] lens sv, where fd = "fd + d" and l = l and r = r])
             (rule that; assumption)
        have step: "DoInsertion idx d t = Some (Split (DeltaInterior V1 f1 C1) M (DeltaInterior V2 f2 C2))"
          unfolding t step0
          using res(1) Split nth inr True upd sp [folded s(1)]
          by (simp del: DoSplit.simps insert_percolated.simps)
        have C: "\<forall>x \<in> set C1. delta_wf h x \<and> DeltaWidthFactor - 1 \<le> length (Values x)"
          "\<forall>x \<in> set C2. delta_wf h x \<and> DeltaWidthFactor - 1 \<le> length (Values x)"
          using all unfolding p(2) by simp_all
        have "f1 = delta_sum (weave (map entries C1) V1)" "f2 = delta_sum (weave (map entries C2) V2)"
          unfolding p(9,10) using C by (intro FullDelta_interior; blast)+
        then have wf: "delta_wf (Suc h) (DeltaInterior V1 f1 C1)" "delta_wf (Suc h) (DeltaInterior V2 f2 C2)"
          using C p(3-8) by (auto simp: DeltaWidthFactor_def)
        moreover have "weave (map entries C1) V1 @ M # weave (map entries C2) V2 = add_entry idx d (entries t)"
          using ws' p(1-4) weave_cut [of "map entries C1" V1 "map entries C2" M V2] by simp
        ultimately show ?thesis
          using step p(5,7) by (simp del: delta_wf.simps)
      qed
    qed
  qed
qed

section \<open>Lookup\<close>

definition deltas_before :: "u32 \<Rightarrow> source_delta list \<Rightarrow> u32" where
  "deltas_before idx vs = delta_sum (filter (\<lambda>v. FileLoc v < idx) vs)"

lemma deltas_before_simps [simp]:
  "deltas_before idx [] = 0"
  "deltas_before idx (v # vs) = (if FileLoc v < idx then Delta v else 0) + deltas_before idx vs"
  "deltas_before idx (us @ vs) = deltas_before idx us + deltas_before idx vs"
  by (simp_all add: deltas_before_def)

lemma deltas_before_all:
  "\<forall>v \<in> set vs. FileLoc v < idx \<Longrightarrow> deltas_before idx vs = delta_sum vs"
  by (simp add: deltas_before_def)

lemma deltas_before_none:
  "\<forall>v \<in> set vs. \<not> FileLoc v < idx \<Longrightarrow> deltas_before idx vs = 0"
  by (induction vs) auto

lemma deltas_before_add_entry:
  "deltas_before x (add_entry idx d vs) = deltas_before x vs + (if idx < x then d else 0)"
  by (induction vs) (auto simp: algebra_simps)

lemma getDeltaAt_entries:
  assumes "delta_wf h t" "sorted_deltas (entries t)"
  shows "getDeltaAt idx t = Some (deltas_before idx (entries t))"
  using assms
proof (induction h arbitrary: t)
  case 0
  then obtain vs fd where t: "t = DeltaLeaf vs fd" by (cases t) auto
  obtain us ws where s: "vs = us @ ws" "insertion_point idx vs = length us"
    "\<forall>u \<in> set us. FileLoc u < idx" "ws = [] \<or> \<not> FileLoc (hd ws) < idx"
    by (rule insertion_point_split)
  have "\<forall>v \<in> set ws. \<not> FileLoc v < idx"
    using s(4) 0 s(1) by (cases ws) (auto simp: t sorted_wrt_append)
  then show ?case
    using s by (simp add: t getDeltaAt.simps deltas_before_all deltas_before_none delta_sum_def)
next
  case (Suc h)
  then obtain vs fd cs where t: "t = DeltaInterior vs fd cs" by (cases t) auto
  have lcs: "length cs = Suc (length vs)" and ch: "\<forall>c \<in> set cs. delta_wf h c"
    using Suc.prems(1) by (auto simp: t)
  obtain us ws where s: "vs = us @ ws" "insertion_point idx vs = length us"
    "\<forall>u \<in> set us. FileLoc u < idx" "ws = [] \<or> \<not> FileLoc (hd ws) < idx"
    by (rule insertion_point_split)
  have inr: "length us < length cs" using lcs s(1) by simp
  then obtain as c bs where cs: "cs = as @ c # bs" "length as = length us"
    using split_at_index by metis
  have lbs: "length bs = length ws" using lcs cs s(1) by simp
  note lens = cs(2) lbs
  have es: "entries t = lpart (map entries as) us @ entries c @ rpart ws (map entries bs)"
    using lens by (simp add: t cs(1) s(1))
  have srt: "sorted_deltas (entries c)" "sorted_deltas (lpart (map entries as) us)"
    using Suc.prems(2) by (auto simp: es sorted_wrt_append)
  have below: "\<forall>v \<in> set (lpart (map entries as) us). FileLoc v < idx"
    using lens srt(2) s(3) by (intro lpart_below) simp_all
  have "sum_list (map Delta us) + sum_list (map FullDelta as) = delta_sum (lpart (map entries as) us)"
    using sum_FullDelta_children [of as h] ch lens
    by (simp add: cs(1) delta_sum_lpart delta_sum_def [of us] comp_def)
  then have left: "sum_list (map Delta us) + sum_list (map FullDelta as) =
      deltas_before idx (lpart (map entries as) us)"
    using deltas_before_all [OF below] by simp
  have "\<forall>v \<in> set (rpart ws (map entries bs)). \<not> FileLoc v < idx"
    using s(4) Suc.prems(2) lbs rpart_hd [of ws "map entries bs"]
    by (cases "rpart ws (map entries bs)") (auto simp: es sorted_wrt_append)
  then have right: "deltas_before idx (rpart ws (map entries bs)) = 0"
    by (rule deltas_before_none)
  have nth: "cs ! length us = c" "take (length us) vs = us" "take (length us) cs = as"
    using cs s(1) by (simp_all add: nth_append)
  have wfc: "delta_wf h c" using ch cs by simp
  show ?case
  proof (cases "length us \<noteq> length vs \<and> FileLoc (vs ! length us) = idx")
    case True
    then obtain w ws' where "ws = w # ws'" "FileLoc w = idx" using s(1) by (cases ws) auto
    then have "\<forall>v \<in> set (entries c). FileLoc v < idx"
      using Suc.prems(2) lbs by (cases bs) (auto simp: es sorted_wrt_append)
    then have "deltas_before idx (entries c) = FullDelta c"
      using deltas_before_all delta_wf_FullDelta [OF wfc] by simp
    then show ?thesis
      using True nth inr left right
      unfolding t getDeltaAt.simps Let_def s(2) es [unfolded t] by simp
  next
    case False
    then show ?thesis
      using nth inr left right Suc.IH [OF wfc srt(1)]
      unfolding t getDeltaAt.simps Let_def s(2) es [unfolded t] by (simp add: if_not_P [OF False])
  qed
qed

section \<open>The tree as a whole\<close>

lemma delta_inv_empty [simp]: "delta_inv DeltaTree_empty" "entries DeltaTree_empty = []"
proof -
  have "delta_wf 0 DeltaTree_empty" by (simp add: DeltaTree_empty_def)
  then have "\<exists>h. delta_wf h DeltaTree_empty" ..
  then show "delta_inv DeltaTree_empty" by (simp add: delta_inv_def DeltaTree_empty_def)
qed (simp add: DeltaTree_empty_def)

lemma delta_wf_new_root:
  assumes "delta_wf h l" "delta_wf h r" "DeltaWidthFactor - 1 \<le> length (Values l)"
    "DeltaWidthFactor - 1 \<le> length (Values r)"
  shows "delta_wf (Suc h) (new_interior_root l m r)"
    and "entries (new_interior_root l m r) = entries l @ m # entries r"
  using assms by (simp_all add: new_interior_root_def delta_wf_FullDelta DeltaWidthFactor_def)

lemma AddDelta_spec:
  assumes "delta_inv t" "d \<noteq> 0"
  obtains t' where "AddDelta t idx d = Some t'" "delta_inv t'"
    "entries t' = add_entry idx d (entries t)"
proof -
  from assms(1) obtain h where h: "delta_wf h t" and s: "sorted_deltas (entries t)"
    by (auto simp: delta_inv_def)
  from DoInsertion_ok [OF this] obtain res where res: "DoInsertion idx d t = Some res"
    "insertion_ok h (length (Values t)) (add_entry idx d (entries t)) res" by blast
  have sorted: "sorted_deltas (add_entry idx d (entries t))" using s by (rule sorted_add_entry)
  show ?thesis
  proof (cases res)
    case (Inserted t')
    then show ?thesis using res sorted assms(2)
      by (intro that [of t']) (auto simp: AddDelta_def delta_inv_def)
  next
    case (Split l m r)
    then show ?thesis using res sorted assms(2) delta_wf_new_root [of h l r m]
      by (intro that [of "new_interior_root l m r"]) (auto simp: AddDelta_def delta_inv_def)
  qed
qed

section \<open>The debug check\<close>

text \<open>
  \<^verbatim>\<open>VerifyTree\<close>, compiled in under \<^verbatim>\<open>VERIFY_TREE\<close>: the value is whether no assertion
  fires. The loop visits child \<open>i\<close> of value \<open>i\<close>, so the last child is not visited.
\<close>

fun VerifyTree :: "delta_node \<Rightarrow> bool" where
  "VerifyTree (DeltaLeaf vs fd) \<longleftrightarrow>
     (\<forall>i \<in> {1..<length vs}. FileLoc (vs ! (i - 1)) < FileLoc (vs ! i)) \<and> sum_list (map Delta vs) = fd"
| "VerifyTree (DeltaInterior vs fd cs) \<longleftrightarrow>
     (let ok = map VerifyTree cs
      in length vs < length cs \<and>
         list_all (\<lambda>i.
           (0 < i \<longrightarrow> FileLoc (vs ! (i - 1)) < FileLoc (vs ! i)) \<and>
           Values (cs ! i) \<noteq> [] \<and> FileLoc (last (Values (cs ! i))) < FileLoc (vs ! i) \<and>
           Values (cs ! Suc i) \<noteq> [] \<and> FileLoc (hd (Values (cs ! Suc i))) > FileLoc (vs ! i) \<and>
           ok ! i) [0..<length vs] \<and>
         sum_list (map Delta vs) + sum_list (map FullDelta (take (length vs) cs)) +
           FullDelta (cs ! length vs) = fd)"

lemma set_values_weave: "set vs \<subseteq> set (weave xs vs)"
  by (induction xs vs rule: weave.induct) auto

lemma set_Values_entries: "set (Values t) \<subseteq> set (entries t)"
  by (cases t) (simp_all add: set_values_weave)

lemma weave_neighbours:
  assumes "length xs = Suc (length vs)" "i < length vs"
  obtains A B where "weave xs vs = A @ xs ! i @ vs ! i # xs ! Suc i @ B"
proof -
  obtain us ws where vs: "vs = us @ vs ! i # ws" "length us = i"
    using assms(2) by (rule split_at_index)
  have "i < length xs" using assms by simp
  then obtain as bs where xs: "xs = as @ xs ! i # bs" "length as = i" by (rule split_at_index)
  have "length xs = i + Suc (length bs)" "length vs = i + Suc (length ws)"
    by (subst xs(1) vs(1), simp add: xs(2) vs(2))+
  then have lbs: "length bs = Suc (length ws)" using assms(1) by simp
  then obtain b bs' where bs: "bs = b # bs'" by (cases bs) auto
  have "xs ! Suc i = (as @ xs ! i # b # bs') ! Suc i" using xs(1) bs by metis
  also have "\<dots> = b" using xs(2) by (simp add: nth_append)
  finally have b: "xs ! Suc i = b" .
  have "weave (as @ xs ! i # bs) (us @ vs ! i # ws) = lpart as us @ xs ! i @ rpart (vs ! i # ws) bs"
    using lbs xs(2) vs(2) by simp
  then have "weave xs vs = lpart as us @ xs ! i @ vs ! i # xs ! Suc i @ rpart ws bs'"
    using vs(1) xs(1) b bs by simp
  then show ?thesis by (rule that)
qed

lemma delta_wf_VerifyTree: "delta_wf h t \<Longrightarrow> sorted_deltas (entries t) \<Longrightarrow> VerifyTree t"
proof (induction h arbitrary: t)
  case 0
  then obtain vs fd where t: "t = DeltaLeaf vs fd" by (cases t) auto
  have "FileLoc (vs ! (i - 1)) < FileLoc (vs ! i)" if "i \<in> {1..<length vs}" for i
    using 0(2) that sorted_wrt_nth_less [of _ vs "i - 1" i] by (auto simp: t)
  then show ?case using 0 by (auto simp: t delta_sum_def)
next
  case (Suc h)
  then obtain vs fd cs where t: "t = DeltaInterior vs fd cs" by (cases t) auto
  have lcs: "length cs = Suc (length vs)"
    and ch: "\<forall>c \<in> set cs. delta_wf h c \<and> DeltaWidthFactor - 1 \<le> length (Values c)"
    and fd: "fd = delta_sum (weave (map entries cs) vs)"
    using Suc.prems(1) by (auto simp: t)
  have ok: "(0 < i \<longrightarrow> FileLoc (vs ! (i - 1)) < FileLoc (vs ! i)) \<and>
      Values (cs ! i) \<noteq> [] \<and> FileLoc (last (Values (cs ! i))) < FileLoc (vs ! i) \<and>
      Values (cs ! Suc i) \<noteq> [] \<and> FileLoc (hd (Values (cs ! Suc i))) > FileLoc (vs ! i) \<and>
      VerifyTree (cs ! i)" if i: "i < length vs" for i
  proof -
    obtain A B where w: "weave (map entries cs) vs =
      A @ entries (cs ! i) @ vs ! i # entries (cs ! Suc i) @ B"
      using weave_neighbours [of "map entries cs" vs i] lcs i by auto
    have mem: "cs ! i \<in> set cs" "cs ! Suc i \<in> set cs" using lcs i by simp_all
    then have ne: "Values (cs ! i) \<noteq> []" "Values (cs ! Suc i) \<noteq> []"
      using ch by (auto simp: DeltaWidthFactor_def)
    have srt: "sorted_deltas (A @ entries (cs ! i) @ vs ! i # entries (cs ! Suc i) @ B)"
      using Suc.prems(2) by (simp add: t w)
    moreover have "last (Values (cs ! i)) \<in> set (entries (cs ! i))"
      "hd (Values (cs ! Suc i)) \<in> set (entries (cs ! Suc i))"
      using ne set_Values_entries last_in_set hd_in_set by blast+
    moreover have "sorted_deltas vs"
      using Suc.prems(2) sorted_weave_values by (simp add: t)
    then have "0 < i \<longrightarrow> FileLoc (vs ! (i - 1)) < FileLoc (vs ! i)"
      using i sorted_wrt_nth_less [of _ vs "i - 1" i] by auto
    moreover have "VerifyTree (cs ! i)"
      using Suc.IH ch mem(1) srt by (auto simp: sorted_wrt_append)
    ultimately show ?thesis
      using ne i by (auto simp: sorted_wrt_append)
  qed
  have "sum_list (map FullDelta cs) =
      sum_list (map FullDelta (take (length vs) cs)) + FullDelta (cs ! length vs)"
    using lcs by (rule sum_list_map_last)
  moreover have "sum_list (map Delta vs) + sum_list (map FullDelta cs) = fd"
    unfolding fd using ch by (intro FullDelta_interior) blast
  ultimately show ?case
    using ok lcs by (simp add: t Let_def list_all_iff add.assoc)
qed

section \<open>Depth\<close>

lemma length_weave: "length (weave xs vs) = length vs + sum_list (map length xs)"
  by (induction xs vs rule: weave.induct) simp_all

lemma entries_children_bound:
  assumes "\<forall>c \<in> set cs. n \<le> length (entries c) + 1" "length cs = Suc (length vs)"
  shows "Suc (length vs) * n \<le> length (weave (map entries cs) vs) + 1"
proof -
  have "length cs * n \<le> (\<Sum>c\<leftarrow>cs. length (entries c) + 1)"
    using assms(1) by (induction cs) auto
  also have "\<dots> = (\<Sum>c\<leftarrow>cs. length (entries c)) + length cs" by (induction cs) simp_all
  finally show ?thesis using assms(2) by (simp add: length_weave comp_def)
qed

lemma occupancy_bound:
  "delta_wf h t \<Longrightarrow> DeltaWidthFactor - 1 \<le> length (Values t) \<Longrightarrow>
     DeltaWidthFactor ^ Suc h \<le> length (entries t) + 1"
proof (induction h arbitrary: t)
  case 0
  then show ?case by (cases t) (auto simp: DeltaWidthFactor_def)
next
  case (Suc h)
  then obtain vs fd cs where t: "t = DeltaInterior vs fd cs" by (cases t) auto
  have "\<forall>c \<in> set cs. DeltaWidthFactor ^ Suc h \<le> length (entries c) + 1"
    using Suc.IH Suc.prems(1) by (auto simp: t)
  then have "Suc (length vs) * DeltaWidthFactor ^ Suc h \<le> length (entries t) + 1"
    using Suc.prems(1) entries_children_bound [of cs _ vs] by (simp add: t)
  moreover have "DeltaWidthFactor \<le> Suc (length vs)" using Suc.prems(2) by (simp add: t)
  ultimately show ?case by (metis mult_le_mono1 order_trans power_Suc)
qed

lemma root_occupancy_bound:
  assumes "delta_wf (Suc h) t"
  shows "2 * DeltaWidthFactor ^ Suc h \<le> length (entries t) + 1"
proof -
  obtain vs fd cs where t: "t = DeltaInterior vs fd cs" using assms by (cases t) auto
  have "\<forall>c \<in> set cs. DeltaWidthFactor ^ Suc h \<le> length (entries c) + 1"
    using occupancy_bound assms by (auto simp: t)
  then have "Suc (length vs) * DeltaWidthFactor ^ Suc h \<le> length (entries t) + 1"
    using assms entries_children_bound [of cs _ vs] by (simp add: t)
  moreover have "2 \<le> Suc (length vs)" using assms by (auto simp: t Suc_le_eq)
  ultimately show ?thesis by (metis mult_le_mono1 order_trans)
qed

lemma sorted_deltas_length: "sorted_deltas vs \<Longrightarrow> length vs \<le> 2 ^ 32"
proof -
  assume "sorted_deltas vs"
  then have "distinct (map FileLoc vs)" by (induction vs) auto
  then have "length vs = card (set (map FileLoc vs))" by (metis distinct_card length_map)
  also have "\<dots> \<le> card (UNIV :: u32 set)" by (intro card_mono) auto
  finally show ?thesis by (simp add: card_word)
qed

section \<open>The interface\<close>

lemma getDeltaAt_inv: "delta_inv t \<Longrightarrow> getDeltaAt x t = Some (deltas_before x (entries t))"
  by (auto simp: delta_inv_def getDeltaAt_entries)

lemma AddDelta_Some:
  assumes "delta_inv t" "AddDelta t idx d = Some t'"
  shows "delta_inv t'" "entries t' = add_entry idx d (entries t)"
proof -
  have "d \<noteq> 0" using assms(2) by (auto simp: AddDelta_def)
  with assms show "delta_inv t'" "entries t' = add_entry idx d (entries t)"
    by (metis AddDelta_spec option.inject)+
qed

interpretation dt: delta_store delta_inv DeltaTree_empty getDeltaAt AddDelta
proof unfold_locales
  fix t idx d t' x
  assume "delta_inv t" and "AddDelta t idx d = Some t'"
  then show "getDeltaAt x t' = map_option (\<lambda>r. r + (if idx < x then d else 0)) (getDeltaAt x t)"
    using AddDelta_Some [of t idx d t'] by (simp add: getDeltaAt_inv deltas_before_add_entry)
qed (simp_all add: getDeltaAt_inv AddDelta_Some, metis AddDelta_spec)

lemma length_add_entry_le: "length (add_entry idx d vs) \<le> Suc (length vs)"
  by (induction vs) simp_all

lemma add_all_entries_length:
  "delta_inv t \<Longrightarrow> add_all AddDelta t ops = Some t' \<Longrightarrow>
     delta_inv t' \<and> length (entries t') \<le> length (entries t) + length ops"
proof (induction ops arbitrary: t)
  case (Cons op ops)
  obtain idx d where op: "op = (idx, d)" by (cases op)
  then obtain t1 where t1: "AddDelta t idx d = Some t1" "add_all AddDelta t1 ops = Some t'"
    using Cons.prems(2) by (auto simp: Option.bind_eq_Some_conv)
  with Cons.IH [of t1] Cons.prems(1) length_add_entry_le [of idx d "entries t"]
  show ?case by (simp add: AddDelta_Some)
qed simp

section \<open>Properties\<close>

text \<open>
  C2: \<^verbatim>\<open>DeltaTree::AddDelta\<close> on a tree that satisfies the B-tree invariant trips no
  assertion, restores the invariant (keys in order, cached \<^verbatim>\<open>FullDelta\<close> sums exact,
  between \<^verbatim>\<open>WidthFactor-1\<close> and \<^verbatim>\<open>2*WidthFactor-1\<close> values per
  node, leaves at one depth), and changes the recorded deltas only by adding the new delta at its
  index, whichever of the merge, insert, child split and root split paths runs.
\<close>

theorem AddDelta_correct:
  assumes "delta_inv t" and "d \<noteq> 0"
  shows "\<exists>t'. AddDelta t idx d = Some t' \<and> delta_inv t' \<and> entries t' = add_entry idx d (entries t)"
  using assms by (metis AddDelta_spec)

theorem AddDelta_correct_witness:
  "\<exists>t'. AddDelta DeltaTree_empty 7 3 = Some t' \<and> delta_inv t' \<and>
     entries t' = [\<lparr>FileLoc = 7, Delta = 3\<rparr>]"
  using AddDelta_correct [of DeltaTree_empty 3 7] by (simp add: SourceDelta_get_def)

text \<open>
  Whatever sequence of changes is recorded in a new \<^verbatim>\<open>DeltaTree\<close>,
  \<^verbatim>\<open>getDeltaAt\<close> returns, for every index, the sum of all the deltas that were
  recorded at indices strictly before it, as its documentation promises.
\<close>

theorem getDeltaAt_after_AddDeltas:
  assumes "\<forall>(idx, d) \<in> set ops. d \<noteq> 0"
  shows "\<exists>t. add_all AddDelta DeltaTree_empty ops = Some t \<and> delta_inv t \<and>
    (\<forall>x. getDeltaAt x t = Some (delta_before x ops))"
  using assms by (rule dt.add_all_empty)

theorem getDeltaAt_after_AddDeltas_witness:
  "\<exists>t. add_all AddDelta DeltaTree_empty [(10, 3), (4, -2), (10, 1)] = Some t \<and> delta_inv t \<and>
     getDeltaAt 10 t = Some (-2) \<and> getDeltaAt 11 t = Some 2"
proof -
  have "\<forall>(idx, d) \<in> set [(10, 3), (4, -2), (10, 1)]. (d :: u32) \<noteq> 0" by simp
  from getDeltaAt_after_AddDeltas [OF this] show ?thesis by (auto simp: delta_before_def)
qed

text \<open>
  The debug walker \<^verbatim>\<open>VerifyTree\<close> fires no assertion on any tree built by
  \<^verbatim>\<open>AddDelta\<close> from the empty one.
\<close>

theorem AddDeltas_VerifyTree:
  assumes "add_all AddDelta DeltaTree_empty ops = Some t"
  shows "VerifyTree t"
proof -
  have "delta_inv t" using add_all_entries_length [OF delta_inv_empty(1) assms] by simp
  then show ?thesis using delta_wf_VerifyTree by (auto simp: delta_inv_def)
qed

theorem AddDeltas_VerifyTree_witness:
  "\<exists>t. add_all AddDelta DeltaTree_empty [(10, 3), (4, -2)] = Some t \<and> VerifyTree t"
proof -
  obtain t where t: "add_all AddDelta DeltaTree_empty [(10, 3), (4, -2)] = Some t"
    using dt.add_all_empty [of "[(10, 3), (4, -2)]"] by auto
  from AddDeltas_VerifyTree [OF this] t show ?thesis by blast
qed

text \<open>
  A tree built by \<open>n\<close> calls of \<^verbatim>\<open>AddDelta\<close> has all its leaves at
  one depth \<open>h\<close> with \<open>2 * 8 ^ h \<le> n + 1\<close> once it has an interior node, and
  never more than ten levels of interior nodes, since keys are distinct 32-bit offsets: the walk
  of \<^verbatim>\<open>getDeltaAt\<close> is logarithmic.
\<close>

theorem DeltaTree_depth:
  assumes "add_all AddDelta DeltaTree_empty ops = Some t"
  shows "\<exists>h. delta_wf h t \<and> h \<le> 10 \<and> (0 < h \<longrightarrow> 2 * 8 ^ h \<le> length ops + 1)"
proof -
  from add_all_entries_length [OF delta_inv_empty(1) assms]
  have len: "length (entries t) \<le> length ops" and "delta_inv t" by simp_all
  then obtain h where h: "delta_wf h t" and srt: "sorted_deltas (entries t)"
    by (auto simp: delta_inv_def)
  show ?thesis
  proof (cases h)
    case (Suc k)
    then have b: "2 * 8 ^ h \<le> length (entries t) + 1"
      using root_occupancy_bound [of k t] h by (simp add: DeltaWidthFactor_def)
    moreover have "length (entries t) \<le> 2 ^ 32" using srt by (rule sorted_deltas_length)
    ultimately have "2 * (8::nat) ^ h < 2 * 8 ^ 11" by simp
    then have "h < 11" using power_less_imp_less_exp [of "8::nat" h 11] by simp
    then show ?thesis using h b len by auto
  qed (use h in auto)
qed

theorem DeltaTree_depth_witness:
  "\<exists>t h. add_all AddDelta DeltaTree_empty [(10, 3), (4, -2)] = Some t \<and> delta_wf h t \<and> h \<le> 10"
proof -
  obtain t where t: "add_all AddDelta DeltaTree_empty [(10, 3), (4, -2)] = Some t"
    using dt.add_all_empty [of "[(10, 3), (4, -2)]"] by auto
  from DeltaTree_depth [OF this] t show ?thesis by blast
qed

end
