(* ===== verification/RopeLeaves.thy ===== *)
theory RopeLeaves
  imports Interfaces
begin

text \<open>
  The leaves of the rope's tree as objects in memory (\<^verbatim>\<open>RopePieceBTreeLeaf\<close> of
  \<^verbatim>\<open>lib/Rewrite/RewriteRope.cpp\<close>): a leaf is named by a number, its address, and the
  fields that link it to its neighbours are maps from addresses. Deleting a leaf unlinks it; a leaf
  whose parent was deleted without it keeps its pieces (\<open>Abandoned\<close>) and its links. The lemmas
  show that creating a leaf behind another and deleting one act on the doubly linked list of leaves
  as insertion and removal.
\<close>

section \<open>Pieces\<close>

record rope_piece =
  StrData :: nat
  StartOffs :: nat
  EndOffs :: nat

definition piece_size :: "rope_piece \<Rightarrow> nat" where
  "piece_size p = EndOffs p - StartOffs p"

section \<open>Leaves in memory\<close>

text \<open>
  \<open>PrevLeaf\<close> points to the \<^verbatim>\<open>NextLeaf\<close> field of another leaf and is named by that
  leaf. \<open>next_leaf\<close> is the next address to be allocated.
\<close>

record leaf_heap =
  NextLeaf :: "nat \<Rightarrow> nat option"
  PrevLeaf :: "nat \<Rightarrow> nat option"
  Abandoned :: "nat \<Rightarrow> rope_piece list option"
  next_leaf :: nat

definition leaf_heap_empty :: leaf_heap where
  "leaf_heap_empty = \<lparr>NextLeaf = Map.empty, PrevLeaf = Map.empty, Abandoned = Map.empty, next_leaf = 0\<rparr>"

text \<open>\<^verbatim>\<open>new RopePieceBTreeLeaf()\<close>.\<close>

definition new_leaf :: "leaf_heap \<Rightarrow> nat \<times> leaf_heap" where
  "new_leaf H = (next_leaf H, H\<lparr>NextLeaf := (NextLeaf H)(next_leaf H := None),
     PrevLeaf := (PrevLeaf H)(next_leaf H := None), next_leaf := Suc (next_leaf H)\<rparr>)"

definition insertAfterLeafInOrder :: "nat \<Rightarrow> nat \<Rightarrow> leaf_heap \<Rightarrow> leaf_heap option" where
  "insertAfterLeafInOrder this Node H = do {
     asserting (PrevLeaf H this = None \<and> NextLeaf H this = None);
     let H1 = H\<lparr>NextLeaf := (NextLeaf H)(this := NextLeaf H Node)\<rparr>;
         H2 = (case NextLeaf H1 this of
             None \<Rightarrow> H1
           | Some n \<Rightarrow> H1\<lparr>PrevLeaf := (PrevLeaf H1)(n := Some this)\<rparr>);
         H3 = H2\<lparr>PrevLeaf := (PrevLeaf H2)(this := Some Node)\<rparr>
     in Some (H3\<lparr>NextLeaf := (NextLeaf H3)(Node := Some this)\<rparr>) }"

definition removeFromLeafInOrder :: "nat \<Rightarrow> leaf_heap \<Rightarrow> leaf_heap" where
  "removeFromLeafInOrder this H = (case PrevLeaf H this of
     Some p \<Rightarrow>
       (let H1 = H\<lparr>NextLeaf := (NextLeaf H)(p := NextLeaf H this)\<rparr>
        in case NextLeaf H this of
            None \<Rightarrow> H1
          | Some n \<Rightarrow> H1\<lparr>PrevLeaf := (PrevLeaf H1)(n := Some p)\<rparr>)
   | None \<Rightarrow> (case NextLeaf H this of
         None \<Rightarrow> H
       | Some n \<Rightarrow> H\<lparr>PrevLeaf := (PrevLeaf H)(n := None)\<rparr>))"

text \<open>\<^verbatim>\<open>~RopePieceBTreeLeaf\<close>.\<close>

definition delete_leaf :: "nat \<Rightarrow> leaf_heap \<Rightarrow> leaf_heap" where
  "delete_leaf this H =
     (if PrevLeaf H this \<noteq> None \<or> NextLeaf H this \<noteq> None then removeFromLeafInOrder this H else H)"

text \<open>Leaves that no node refers to any more, neither deleted nor unlinked.\<close>

definition abandon :: "(nat \<times> rope_piece list) list \<Rightarrow> leaf_heap \<Rightarrow> leaf_heap" where
  "abandon ls H = H\<lparr>Abandoned := Abandoned H ++ map_of ls\<rparr>"

section \<open>The order of the leaves\<close>

text \<open>\<open>linked H p xs q\<close>: the leaves \<open>xs\<close> are linked both ways, between \<open>p\<close> and \<open>q\<close>.\<close>

fun linked :: "leaf_heap \<Rightarrow> nat option \<Rightarrow> nat list \<Rightarrow> nat option \<Rightarrow> bool" where
  "linked H p [] q \<longleftrightarrow> True"
| "linked H p (x # xs) q \<longleftrightarrow> PrevLeaf H x = p \<and>
     NextLeaf H x = (case xs of [] \<Rightarrow> q | y # _ \<Rightarrow> Some y) \<and> linked H (Some x) xs q"

abbreviation first_of :: "nat list \<Rightarrow> nat option \<Rightarrow> nat option" where
  "first_of xs q \<equiv> (case xs of [] \<Rightarrow> q | y # _ \<Rightarrow> Some y)"

abbreviation last_of :: "nat option \<Rightarrow> nat list \<Rightarrow> nat option" where
  "last_of p xs \<equiv> (if xs = [] then p else Some (last xs))"

lemma linked_append:
  "linked H p (xs @ ys) q \<longleftrightarrow> linked H p xs (first_of ys q) \<and> linked H (last_of p xs) ys q"
proof (induction xs arbitrary: p)
  case (Cons x xs)
  then show ?case by (cases xs) auto
qed simp

lemma linked_cong:
  "\<forall>x \<in> set xs. NextLeaf H x = NextLeaf H' x \<and> PrevLeaf H x = PrevLeaf H' x \<Longrightarrow>
     linked H p xs q = linked H' p xs q"
  by (induction xs arbitrary: p) auto

text \<open>The predecessor of the first leaf, and the successor of the last, can be exchanged.\<close>

lemma linked_first:
  assumes "linked H p xs q" "distinct xs"
    "\<forall>x \<in> set xs. NextLeaf H' x = NextLeaf H x"
    "\<forall>x \<in> set xs. PrevLeaf H' x = (if x = hd xs then p' else PrevLeaf H x)"
  shows "linked H' p' xs q"
proof (cases xs)
  case (Cons x ys)
  then have "linked H' (Some x) ys q = linked H (Some x) ys q"
    using assms(2-4) by (intro linked_cong) auto
  then show ?thesis using assms Cons by simp
qed simp

lemma linked_last:
  assumes "linked H p xs q" "distinct xs"
    "\<forall>x \<in> set xs. PrevLeaf H' x = PrevLeaf H x"
    "\<forall>x \<in> set xs. NextLeaf H' x = (if x = last xs then q' else NextLeaf H x)"
  shows "linked H' p xs q'"
proof (cases xs rule: rev_cases)
  case (snoc ys x)
  then have "linked H' p ys (Some x) = linked H p ys (Some x)"
    using assms(2-4) by (intro linked_cong) auto
  then show ?thesis using assms snoc by (simp add: linked_append)
qed simp

definition leaf_order :: "leaf_heap \<Rightarrow> nat list \<Rightarrow> bool" where
  "leaf_order H xs \<longleftrightarrow> linked H None xs None \<and> distinct xs \<and> (\<forall>x \<in> set xs. x < next_leaf H)"

text \<open>A new leaf linked behind another.\<close>

definition leaf_after :: "nat \<Rightarrow> leaf_heap \<Rightarrow> leaf_heap" where
  "leaf_after a H = the (insertAfterLeafInOrder (next_leaf H) a (snd (new_leaf H)))"

lemma insertAfter_new_leaf: "insertAfterLeafInOrder (next_leaf H) a (snd (new_leaf H)) = Some (leaf_after a H)"
  by (simp add: leaf_after_def insertAfterLeafInOrder_def new_leaf_def Let_def)

lemma leaf_after_fields:
  assumes "a < next_leaf H" "NextLeaf H a = n" "n \<noteq> Some (next_leaf H)"
  shows "NextLeaf (leaf_after a H) = (NextLeaf H)(next_leaf H := n, a := Some (next_leaf H))"
    "PrevLeaf (leaf_after a H) = (case n of None \<Rightarrow> (PrevLeaf H)(next_leaf H := Some a)
       | Some b \<Rightarrow> (PrevLeaf H)(b := Some (next_leaf H), next_leaf H := Some a))"
    "Abandoned (leaf_after a H) = Abandoned H" "next_leaf (leaf_after a H) = Suc (next_leaf H)"
  using assms
  by (auto simp: leaf_after_def insertAfterLeafInOrder_def new_leaf_def Let_def fun_eq_iff split: option.splits)

lemma leaf_after_order:
  assumes "leaf_order H (as @ a # bs)"
  shows "leaf_order (leaf_after a H) (as @ a # next_leaf H # bs)"
proof -
  let ?n = "next_leaf H" and ?H = "leaf_after a H"
  have l: "linked H None as (Some a)" "PrevLeaf H a = last_of None as" "NextLeaf H a = first_of bs None"
    "linked H (Some a) bs None" and d: "distinct (as @ a # bs)" and b: "\<forall>x \<in> set (as @ a # bs). x < ?n"
    using assms by (auto simp: leaf_order_def linked_append)
  have "first_of bs None \<noteq> Some ?n" using b by (cases bs) auto
  note f = leaf_after_fields [OF _ l(3) this]
  have a: "a < ?n" "?n \<notin> set as" "?n \<notin> set bs" using b by auto
  have "linked ?H None as (Some a) = linked H None as (Some a)"
    using d a by (intro linked_cong) (auto simp: f split: list.splits)
  moreover have "linked ?H (Some ?n) bs None"
    using d a by (intro linked_first [OF l(4)]) (auto simp: f split: list.splits)
  moreover have "PrevLeaf ?H a = last_of None as" using d a l(2) by (auto simp: f split: list.splits)
  ultimately show ?thesis
    using d a b l(1) by (auto simp: leaf_order_def linked_append f less_SucI split: list.splits)
qed

lemma delete_leaf_order:
  assumes "leaf_order H (as @ a # bs)"
  shows "leaf_order (delete_leaf a H) (as @ bs)"
proof -
  let ?H = "delete_leaf a H"
  have l: "linked H None as (Some a)" "PrevLeaf H a = last_of None as" "NextLeaf H a = first_of bs None"
    "linked H (Some a) bs None" and d: "distinct (as @ a # bs)" and b: "\<forall>x \<in> set (as @ a # bs). x < next_leaf H"
    using assms by (auto simp: leaf_order_def linked_append)
  have f: "NextLeaf ?H = (if as = [] then NextLeaf H else (NextLeaf H)(last as := first_of bs None))"
    "PrevLeaf ?H = (if bs = [] then PrevLeaf H else (PrevLeaf H)(hd bs := last_of None as))"
    "next_leaf ?H = next_leaf H"
    using l(2,3) by (auto simp: delete_leaf_def removeFromLeafInOrder_def Let_def split: list.splits)
  have "linked ?H None as (first_of bs None)"
  proof (rule linked_last [OF l(1)])
    show "\<forall>x \<in> set as. PrevLeaf ?H x = PrevLeaf H x" using d unfolding f by (cases bs) auto
  qed (use d in \<open>auto simp: f\<close>)
  moreover have "linked ?H (last_of None as) bs None"
  proof (rule linked_first [OF l(4)])
    show "\<forall>x \<in> set bs. NextLeaf ?H x = NextLeaf H x"
      using d by (cases as rule: rev_cases) (auto simp: f)
  qed (use d in \<open>auto simp: f\<close>)
  ultimately show ?thesis using d b by (simp add: leaf_order_def linked_append f)
qed

lemma abandon_order [simp]: "leaf_order (abandon ls H) xs = leaf_order H xs"
  using linked_cong [of xs "abandon ls H" H] by (simp add: leaf_order_def abandon_def)

lemma delete_leaf_fields [simp]:
  "Abandoned (delete_leaf x H) = Abandoned H" "next_leaf (delete_leaf x H) = next_leaf H"
  by (simp_all add: delete_leaf_def removeFromLeafInOrder_def Let_def split: option.splits)

lemma leaf_after_other [simp]:
  "Abandoned (leaf_after x H) = Abandoned H" "next_leaf (leaf_after x H) = Suc (next_leaf H)"
  by (simp_all add: leaf_after_def insertAfterLeafInOrder_def new_leaf_def Let_def split: option.splits)

section \<open>Following the links\<close>

fun follows :: "(nat \<Rightarrow> nat option) \<Rightarrow> nat option \<Rightarrow> nat list \<Rightarrow> bool" where
  "follows nx p [] \<longleftrightarrow> p = None"
| "follows nx p (x # xs) \<longleftrightarrow> p = Some x \<and> follows nx (nx x) xs"

lemma follows_unique: "follows nx p xs \<Longrightarrow> follows nx p ys \<Longrightarrow> xs = ys"
proof (induction xs arbitrary: p ys)
  case Nil
  then show ?case by (cases ys) auto
next
  case (Cons x xs)
  then show ?case by (cases ys) auto
qed

lemma follows_linked: "linked H p xs None \<Longrightarrow> follows (NextLeaf H) (first_of xs None) xs"
proof (induction xs arbitrary: p)
  case (Cons x xs)
  then show ?case by (cases xs) auto
qed simp

lemma follows_order:
  assumes "leaf_order H (us @ x # vs)"
  shows "follows (NextLeaf H) (Some x) (x # vs)"
  using assms follows_linked [of H "last_of None us" "x # vs"] by (simp add: leaf_order_def linked_append)

end
