(* ===== verification/RopeTree.thy ===== *)
theory RopeTree
  imports RopeLeaves
begin

text \<open>
  The tree of \<^verbatim>\<open>lib/Rewrite/RewriteRope.cpp\<close>: a B+ tree whose leaves hold pieces, each a
  range of a shared string chunk (\<^verbatim>\<open>RopePiece\<close> of
  \<^verbatim>\<open>include/clang/Rewrite/RewriteRope.h\<close>). A chunk is named by a number; the theory
  \<open>RewriteRope\<close> holds the chunks' bytes. \<open>Pieces[0..NumPieces)\<close> and
  \<open>Children[0..NumChildren)\<close> are lists; a leaf carries the address under which the
  \<open>leaf_heap\<close> keeps its links. A method that changes its node in place and may
  return a new sibling returns the pair of both, and the heap. Sizes and offsets are naturals with
  the 32-bit wrap-around of the sums written out; a difference is only taken of a whole and a part.

  The abstract value of a node is the list of its pieces, \<open>rope_pieces\<close>. The lemmas show
  that splitting, inserting and erasing keep the invariant \<open>rope_wf\<close> and act on that list as
  \<open>split_pieces\<close>, an insertion and \<open>drop_bytes\<close> do. What they do to the links of the
  leaves is shown in \<open>RopeChain\<close>.
\<close>

section \<open>Nodes\<close>

datatype rope_node =
  RopeLeaf nat "rope_piece list" nat
| RopeInterior "rope_node list" nat

fun rope_size :: "rope_node \<Rightarrow> nat" where
  "rope_size (RopeLeaf _ _ sz) = sz"
| "rope_size (RopeInterior _ sz) = sz"

definition RopeWidthFactor :: nat where
  "RopeWidthFactor = 8"

definition pieces_size :: "rope_piece list \<Rightarrow> nat" where
  "pieces_size ps = sum_list (map piece_size ps)"

text \<open>\<open>FullRecomputeSizeLocally\<close> of both kinds of node.\<close>

fun FullRecomputeSizeLocally :: "rope_node \<Rightarrow> rope_node" where
  "FullRecomputeSizeLocally (RopeLeaf this ps _) = RopeLeaf this ps (wrap32 (pieces_size ps))"
| "FullRecomputeSizeLocally (RopeInterior cs _) = RopeInterior cs (wrap32 (sum_list (map rope_size cs)))"

section \<open>Leaves\<close>

text \<open>
  The scans. \<open>find_piece\<close> is the loop of \<^verbatim>\<open>split\<close> (the piece an offset lands
  in, with the offset of its start), \<open>find_slot\<close> the loop of \<^verbatim>\<open>insert\<close>
  and of \<^verbatim>\<open>erase\<close> with the assertion that follows it.
\<close>

fun find_piece :: "nat \<Rightarrow> nat \<Rightarrow> nat \<Rightarrow> rope_piece list \<Rightarrow> (nat \<times> nat) option" where
  "find_piece Offset PieceOffs i [] = None"
| "find_piece Offset PieceOffs i (p # ps) =
     (if Offset \<ge> wrap32 (PieceOffs + piece_size p)
      then find_piece Offset (wrap32 (PieceOffs + piece_size p)) (Suc i) ps
      else Some (i, PieceOffs))"

fun find_slot :: "nat \<Rightarrow> nat \<Rightarrow> nat \<Rightarrow> rope_piece list \<Rightarrow> nat option" where
  "find_slot Offset SlotOffs i [] = (if Offset = SlotOffs then Some i else None)"
| "find_slot Offset SlotOffs i (p # ps) =
     (if Offset > SlotOffs then find_slot Offset (wrap32 (SlotOffs + piece_size p)) (Suc i) ps
      else if SlotOffs = Offset then Some i else None)"

text \<open>A full leaf is cut in two halves, the new one linked behind it.\<close>

function leaf_insert :: "nat \<Rightarrow> rope_piece \<Rightarrow> nat \<Rightarrow> rope_piece list \<Rightarrow> nat \<Rightarrow> leaf_heap \<Rightarrow>
    ((rope_node \<times> rope_node option) \<times> leaf_heap) option" where
  "leaf_insert Offset R this ps sz H =
     (if length ps \<noteq> 2 * RopeWidthFactor
      then do {
        i \<leftarrow> (if Offset = sz then Some (length ps) else find_slot Offset 0 0 ps);
        Some ((RopeLeaf this (insert_at i R ps) (wrap32 (sz + piece_size R)), None), H) }
      else
        let L = take RopeWidthFactor ps; Rest = drop RopeWidthFactor ps;
            LSize = wrap32 (pieces_size L); RestSize = wrap32 (pieces_size Rest);
            (NewNode, H1) = new_leaf H
        in do {
          H2 \<leftarrow> insertAfterLeafInOrder NewNode this H1;
          if LSize \<ge> Offset
          then do {
            ((LHS, _), H3) \<leftarrow> leaf_insert Offset R this L LSize H2;
            Some ((LHS, Some (RopeLeaf NewNode Rest RestSize)), H3) }
          else do {
            ((RHS, _), H3) \<leftarrow> leaf_insert (Offset - LSize) R NewNode Rest RestSize H2;
            Some ((RopeLeaf this L LSize, Some RHS), H3) } })"
  by pat_completeness auto
termination
  by (relation "measure (\<lambda>(_, _, _, ps, _). length ps)") (auto simp: RopeWidthFactor_def)

declare leaf_insert.simps [simp del]

definition leaf_split :: "nat \<Rightarrow> nat \<Rightarrow> rope_piece list \<Rightarrow> nat \<Rightarrow> leaf_heap \<Rightarrow>
    ((rope_node \<times> rope_node option) \<times> leaf_heap) option" where
  "leaf_split Offset this ps sz H =
     (if Offset = 0 \<or> Offset = sz then Some ((RopeLeaf this ps sz, None), H)
      else do {
        (i, PieceOffs) \<leftarrow> find_piece Offset 0 0 ps;
        if PieceOffs = Offset then Some ((RopeLeaf this ps sz, None), H)
        else
          let IntraPieceOffset = Offset - PieceOffs;
              p = ps ! i;
              Tail = p\<lparr>StartOffs := StartOffs p + IntraPieceOffset\<rparr>;
              Head = p\<lparr>EndOffs := StartOffs p + IntraPieceOffset\<rparr>
          in leaf_insert Offset Tail this (ps[i := Head]) (sz - piece_size p + piece_size Head) H })"

text \<open>The pieces wholly covered by a deletion that starts at a piece: how many, and where they end.\<close>

fun find_cover :: "nat \<Rightarrow> nat \<Rightarrow> nat \<Rightarrow> rope_piece list \<Rightarrow> (nat \<times> nat) option" where
  "find_cover EndOffset PieceOffs i [] = None"
| "find_cover EndOffset PieceOffs i (p # ps) =
     (if EndOffset > wrap32 (PieceOffs + piece_size p)
      then find_cover EndOffset (wrap32 (PieceOffs + piece_size p)) (Suc i) ps
      else if EndOffset = wrap32 (PieceOffs + piece_size p) then Some (Suc i, wrap32 (PieceOffs + piece_size p))
      else Some (i, PieceOffs))"

definition leaf_erase :: "nat \<Rightarrow> nat \<Rightarrow> nat \<Rightarrow> rope_piece list \<Rightarrow> nat \<Rightarrow> rope_node option" where
  "leaf_erase Offset NumBytes this ps sz = do {
     StartPiece \<leftarrow> find_slot Offset 0 0 ps;
     (i, PieceOffs) \<leftarrow> find_cover (wrap32 (Offset + NumBytes)) Offset StartPiece (drop StartPiece ps);
     let ps1 = take StartPiece ps @ drop i ps;
         CoverBytes = PieceOffs - Offset;
         NumBytes1 = NumBytes - CoverBytes;
         sz1 = sz - CoverBytes
     in if NumBytes1 = 0 then Some (RopeLeaf this ps1 sz1)
        else do {
          asserting (StartPiece < length ps1 \<and> piece_size (ps1 ! StartPiece) > NumBytes1);
          let p = ps1 ! StartPiece
          in Some (RopeLeaf this (ps1[StartPiece := p\<lparr>StartOffs := StartOffs p + NumBytes1\<rparr>])
                    (sz1 - NumBytes1)) } }"

section \<open>Interior nodes\<close>

function HandleChildPiece :: "nat \<Rightarrow> rope_node \<Rightarrow> rope_node list \<Rightarrow> nat \<Rightarrow> rope_node \<times> rope_node option" where
  "HandleChildPiece i RHS cs sz =
     (if length cs \<noteq> 2 * RopeWidthFactor
      then (RopeInterior (insert_at (i + 1) RHS cs) sz, None)
      else
        let this = take RopeWidthFactor cs; NewNode = drop RopeWidthFactor cs
        in if i < RopeWidthFactor
           then (FullRecomputeSizeLocally (fst (HandleChildPiece i RHS this sz)),
                 Some (FullRecomputeSizeLocally (RopeInterior NewNode 0)))
           else (FullRecomputeSizeLocally (RopeInterior this sz),
                 Some (FullRecomputeSizeLocally
                   (fst (HandleChildPiece (i - RopeWidthFactor) RHS NewNode 0)))))"
  by pat_completeness auto
termination
  by (relation "measure (\<lambda>(_, _, cs, _). length cs)") (auto simp: RopeWidthFactor_def)

declare HandleChildPiece.simps [simp del]

text \<open>The loops that choose a child: the first that ends beyond, or at or beyond, the offset.\<close>

fun find_child_split :: "nat \<Rightarrow> nat \<Rightarrow> nat \<Rightarrow> rope_node list \<Rightarrow> (nat \<times> nat) option" where
  "find_child_split Offset ChildOffset i [] = None"
| "find_child_split Offset ChildOffset i (c # cs) =
     (if Offset \<ge> wrap32 (ChildOffset + rope_size c)
      then find_child_split Offset (wrap32 (ChildOffset + rope_size c)) (Suc i) cs
      else Some (i, ChildOffset))"

fun find_child_insert :: "nat \<Rightarrow> nat \<Rightarrow> nat \<Rightarrow> rope_node list \<Rightarrow> (nat \<times> nat) option" where
  "find_child_insert Offset ChildOffs i [] = None"
| "find_child_insert Offset ChildOffs i (c # cs) =
     (if Offset > wrap32 (ChildOffs + rope_size c)
      then find_child_insert Offset (wrap32 (ChildOffs + rope_size c)) (Suc i) cs
      else Some (i, ChildOffs))"

lemma rope_node_child_size: "i < length cs \<Longrightarrow> size (cs ! i) < size (RopeInterior cs sz)"
  using sum_list_nth_le [of i cs size] by (simp add: size_list_conv_sum_list)

lemma find_child_split_lt:
  "find_child_split Offset co i cs = Some (j, co') \<Longrightarrow> i \<le> j \<and> j < i + length cs"
  by (induction cs arbitrary: co i) (fastforce split: if_splits)+

lemma find_child_insert_lt:
  "find_child_insert Offset co i cs = Some (j, co') \<Longrightarrow> i \<le> j \<and> j < i + length cs"
  by (induction cs arbitrary: co i) (fastforce split: if_splits)+

section \<open>The operations of a node\<close>

declare Option.bind_cong [fundef_cong]

function rope_split :: "nat \<Rightarrow> rope_node \<Rightarrow> leaf_heap \<Rightarrow> ((rope_node \<times> rope_node option) \<times> leaf_heap) option" where
  "rope_split Offset (RopeLeaf this ps sz) H = do { asserting (Offset \<le> sz); leaf_split Offset this ps sz H }"
| "rope_split Offset (RopeInterior cs sz) H = do {
     asserting (Offset \<le> sz);
     if Offset = 0 \<or> Offset = sz then Some ((RopeInterior cs sz, None), H)
     else case find_child_split Offset 0 0 cs of
         None \<Rightarrow> None
       | Some (i, ChildOffset) \<Rightarrow>
           if ChildOffset = Offset then Some ((RopeInterior cs sz, None), H)
           else (case rope_split (Offset - ChildOffset) (cs ! i) H of
               None \<Rightarrow> None
             | Some ((c, None), H') \<Rightarrow> Some ((RopeInterior (cs[i := c]) sz, None), H')
             | Some ((c, Some RHS), H') \<Rightarrow> Some (HandleChildPiece i RHS (cs[i := c]) sz, H')) }"
  by pat_completeness auto
termination
proof (relation "measure (\<lambda>(_, t, _). size t)", goal_cases)
  case (2 Offset cs sz H u x i co)
  then show ?case using rope_node_child_size [of i cs sz] by (auto dest: find_child_split_lt)
qed simp

function rope_insert :: "nat \<Rightarrow> rope_piece \<Rightarrow> rope_node \<Rightarrow> leaf_heap \<Rightarrow>
    ((rope_node \<times> rope_node option) \<times> leaf_heap) option" where
  "rope_insert Offset R (RopeLeaf this ps sz) H = do {
     asserting (Offset \<le> sz);
     leaf_insert Offset R this ps sz H }"
| "rope_insert Offset R (RopeInterior cs sz) H = do {
     asserting (Offset \<le> sz);
     case (if Offset = sz
           then (if cs = [] then None else Some (length cs - 1, sz - rope_size (last cs)))
           else find_child_insert Offset 0 0 cs) of
       None \<Rightarrow> None
     | Some (i, ChildOffs) \<Rightarrow>
         (case rope_insert (Offset - ChildOffs) R (cs ! i) H of
             None \<Rightarrow> None
           | Some ((c, None), H') \<Rightarrow> Some ((RopeInterior (cs[i := c]) (wrap32 (sz + piece_size R)), None), H')
           | Some ((c, Some RHS), H') \<Rightarrow>
               Some (HandleChildPiece i RHS (cs[i := c]) (wrap32 (sz + piece_size R)), H')) }"
  by pat_completeness auto
termination
proof (relation "measure (\<lambda>(_, _, t, _). size t)", goal_cases)
  case (2 Offset R cs sz H u x i co)
  then have "i < length cs" by (auto dest: find_child_insert_lt split: if_splits)
  then show ?case using rope_node_child_size [of i cs sz] by simp
qed simp

text \<open>The leaves below a node, each with its address and pieces, in the order of the tree.\<close>

fun rope_leaves :: "rope_node \<Rightarrow> (nat \<times> rope_piece list) list" where
  "rope_leaves (RopeLeaf this ps _) = [(this, ps)]"
| "rope_leaves (RopeInterior cs _) = concat (map rope_leaves cs)"

text \<open>
  \<^verbatim>\<open>Destroy\<close>: a leaf's destructor unlinks it. An interior node has no destructor: its
  children are not destroyed, and the leaves below it stay where they are in the list of leaves.
\<close>

fun rope_Destroy :: "rope_node \<Rightarrow> leaf_heap \<Rightarrow> leaf_heap" where
  "rope_Destroy (RopeLeaf this ps sz) H = delete_leaf this H"
| "rope_Destroy (RopeInterior cs sz) H = abandon (rope_leaves (RopeInterior cs sz)) H"

text \<open>
  Erasing: the first loop of an interior node skips the children before the offset, the second
  passes the request on, cuts the tail of a child, or destroys a child that is wholly covered.
\<close>

fun rope_erase :: "nat \<Rightarrow> nat \<Rightarrow> rope_node \<Rightarrow> leaf_heap \<Rightarrow> (rope_node \<times> leaf_heap) option"
  and erase_skip :: "nat \<Rightarrow> nat \<Rightarrow> rope_node list \<Rightarrow> leaf_heap \<Rightarrow> (rope_node list \<times> leaf_heap) option"
  and erase_loop :: "nat \<Rightarrow> nat \<Rightarrow> rope_node list \<Rightarrow> leaf_heap \<Rightarrow> (rope_node list \<times> leaf_heap) option" where
  "rope_erase Offset NumBytes (RopeLeaf this ps sz) H = do {
     asserting (wrap32 (Offset + NumBytes) \<le> sz);
     map_option (\<lambda>t. (t, H)) (leaf_erase Offset NumBytes this ps sz) }"
| "rope_erase Offset NumBytes (RopeInterior cs sz) H = do {
     asserting (wrap32 (Offset + NumBytes) \<le> sz);
     map_option (\<lambda>(cs', H'). (RopeInterior cs' (sz - NumBytes), H')) (erase_skip Offset NumBytes cs H) }"
| "erase_skip Offset NumBytes [] H = None"
| "erase_skip Offset NumBytes (c # cs) H =
     (if Offset \<ge> rope_size c
      then map_option (\<lambda>(cs', H'). (c # cs', H')) (erase_skip (Offset - rope_size c) NumBytes cs H)
      else erase_loop Offset NumBytes (c # cs) H)"
| "erase_loop Offset NumBytes [] H = (if NumBytes = 0 then Some ([], H) else None)"
| "erase_loop Offset NumBytes (c # cs) H =
     (if NumBytes = 0 then Some (c # cs, H)
      else if wrap32 (Offset + NumBytes) < rope_size c
      then map_option (\<lambda>(c', H'). (c' # cs, H')) (rope_erase Offset NumBytes c H)
      else if Offset \<noteq> 0
      then (let BytesFromChild = rope_size c - Offset
            in case rope_erase Offset BytesFromChild c H of
                None \<Rightarrow> None
              | Some (c', H') \<Rightarrow>
                  map_option (\<lambda>(cs', H''). (c' # cs', H'')) (erase_loop 0 (NumBytes - BytesFromChild) cs H'))
      else erase_loop 0 (NumBytes - rope_size c) cs (rope_Destroy c H))"

section \<open>The tree\<close>

text \<open>The tree's constructor, and a new empty root.\<close>

definition RopePieceBTree_empty :: "leaf_heap \<Rightarrow> rope_node \<times> leaf_heap" where
  "RopePieceBTree_empty H = (let (this, H') = new_leaf H in (RopeLeaf this [] 0, H'))"

fun RopePieceBTree_clear :: "rope_node \<times> leaf_heap \<Rightarrow> rope_node \<times> leaf_heap" where
  "RopePieceBTree_clear (RopeLeaf this ps sz, H) = (RopeLeaf this [] 0, H)"
| "RopePieceBTree_clear (RopeInterior cs sz, H) = RopePieceBTree_empty (rope_Destroy (RopeInterior cs sz) H)"

text \<open>A split that does not fit grows the tree by a root with two children.\<close>

definition grow_root :: "rope_node \<times> rope_node option \<Rightarrow> rope_node" where
  "grow_root res = (case res of
     (LHS, None) \<Rightarrow> LHS
   | (LHS, Some RHS) \<Rightarrow> RopeInterior [LHS, RHS] (wrap32 (rope_size LHS + rope_size RHS)))"

definition RopePieceBTree_insert :: "nat \<Rightarrow> rope_piece \<Rightarrow> rope_node \<times> leaf_heap \<Rightarrow> (rope_node \<times> leaf_heap) option" where
  "RopePieceBTree_insert Offset R T = do {
     (res, H) \<leftarrow> rope_split Offset (fst T) (snd T);
     (res2, H2) \<leftarrow> rope_insert Offset R (grow_root res) H;
     Some (grow_root res2, H2) }"

definition RopePieceBTree_erase :: "nat \<Rightarrow> nat \<Rightarrow> rope_node \<times> leaf_heap \<Rightarrow> (rope_node \<times> leaf_heap) option" where
  "RopePieceBTree_erase Offset NumBytes T = do {
     (res, H) \<leftarrow> rope_split Offset (fst T) (snd T);
     rope_erase Offset NumBytes (grow_root res) H }"

section \<open>Sequences of pieces\<close>

lemma pieces_size_simps [simp]:
  "pieces_size [] = 0" "pieces_size (p # ps) = piece_size p + pieces_size ps"
  "pieces_size (ps @ qs) = pieces_size ps + pieces_size qs"
  by (simp_all add: pieces_size_def)

abbreviation nonempty_pieces :: "rope_piece list \<Rightarrow> bool" where
  "nonempty_pieces ps \<equiv> (\<forall>p \<in> set ps. 0 < piece_size p)"

lemma pieces_size_0_iff [simp]: "nonempty_pieces ps \<Longrightarrow> pieces_size ps = 0 \<longleftrightarrow> ps = []"
  by (cases ps) auto

text \<open>Of two prefixes of one piece list, the one that covers fewer bytes is a prefix of the other.\<close>

lemma prefix_by_size:
  assumes "xs @ ys = ps @ qs" "pieces_size xs \<le> pieces_size ps" "nonempty_pieces (xs @ ys)"
  obtains zs where "ps = xs @ zs" "ys = zs @ qs"
proof -
  from assms(1) obtain zs where "xs = ps @ zs \<and> zs @ ys = qs \<or> xs @ zs = ps \<and> ys = zs @ qs"
    by (auto simp: append_eq_append_conv2)
  then show ?thesis
  proof
    assume *: "xs = ps @ zs \<and> zs @ ys = qs"
    then have "pieces_size zs = 0" using assms(2) by simp
    moreover have "nonempty_pieces zs" using conjunct1 [OF *] assms(3) by simp
    ultimately have "zs = []" by simp
    then show ?thesis using * that [of "[]"] by simp
  next
    assume "xs @ zs = ps \<and> ys = zs @ qs"
    then show ?thesis using that by auto
  qed
qed

lemma find_slot_at:
  "nonempty_pieces ps1 \<Longrightarrow> so + pieces_size ps1 < 2 ^ 32 \<Longrightarrow>
     find_slot (so + pieces_size ps1) so i (ps1 @ ps2) = Some (i + length ps1)"
proof (induction ps1 arbitrary: so i)
  case Nil
  then show ?case by (cases ps2) auto
next
  case (Cons p ps1)
  from Cons.IH [of "so + piece_size p" "Suc i"] Cons.prems show ?case
    by (simp add: add.assoc)
qed

lemma find_piece_at:
  "pieces_size ps1 \<le> off \<Longrightarrow> off < pieces_size ps1 + piece_size p \<Longrightarrow>
     so + pieces_size ps1 + piece_size p < 2 ^ 32 \<Longrightarrow>
     find_piece (so + off) so i (ps1 @ p # ps2) = Some (i + length ps1, so + pieces_size ps1)"
proof (induction ps1 arbitrary: so i off)
  case (Cons q ps1)
  from Cons.IH [of "off - piece_size q" "so + piece_size q" "Suc i"] Cons.prems show ?case by simp
qed simp

lemma find_cover_at:
  assumes "0 < n" "n \<le> pieces_size ps" "so + pieces_size ps < 2 ^ 32"
  obtains ps1 ps2 where "ps = ps1 @ ps2"
    "find_cover (so + n) so i ps = Some (i + length ps1, so + pieces_size ps1)"
    "pieces_size ps1 = n \<or> pieces_size ps1 < n \<and> ps2 \<noteq> [] \<and> n < pieces_size ps1 + piece_size (hd ps2)"
proof -
  have "\<exists>ps1 ps2. ps = ps1 @ ps2 \<and>
    find_cover (so + n) so i ps = Some (i + length ps1, so + pieces_size ps1) \<and>
    (pieces_size ps1 = n \<or> pieces_size ps1 < n \<and> ps2 \<noteq> [] \<and> n < pieces_size ps1 + piece_size (hd ps2))"
    using assms
  proof (induction ps arbitrary: so i n)
    case (Cons p ps)
    show ?case
    proof (cases "n > piece_size p")
      case True
      then have n: "0 < n - piece_size p" "n - piece_size p \<le> pieces_size ps"
        "so + piece_size p + pieces_size ps < 2 ^ 32"
        "so + piece_size p + (n - piece_size p) = so + n" using Cons.prems by auto
      from Cons.IH [OF n(1-3), of "Suc i"] n(4) obtain ps1 ps2 where "ps = ps1 @ ps2"
        "find_cover (so + n) (so + piece_size p) (Suc i) ps =
           Some (Suc i + length ps1, so + piece_size p + pieces_size ps1)"
        "pieces_size ps1 = n - piece_size p \<or> pieces_size ps1 < n - piece_size p \<and> ps2 \<noteq> [] \<and>
           n - piece_size p < pieces_size ps1 + piece_size (hd ps2)" by metis
      then show ?thesis using True n(3)
        by (intro exI [of _ "p # ps1"] exI [of _ ps2]) auto
    next
      case False
      then consider "n = piece_size p" | "n < piece_size p" by linarith
      then show ?thesis
      proof cases
        case 1
        then show ?thesis using Cons.prems(3) by (intro exI [of _ "[p]"] exI [of _ ps]) auto
      next
        case 2
        then show ?thesis using Cons.prems by (intro exI [of _ "[]"] exI [of _ "p # ps"]) auto
      qed
    qed
  qed simp
  then show ?thesis using that by blast
qed

section \<open>The invariant of a node\<close>

fun rope_pieces :: "rope_node \<Rightarrow> rope_piece list" where
  "rope_pieces (RopeLeaf _ ps _) = ps"
| "rope_pieces (RopeInterior cs _) = concat (map rope_pieces cs)"

abbreviation pieces_of :: "rope_node list \<Rightarrow> rope_piece list" where
  "pieces_of cs \<equiv> concat (map rope_pieces cs)"

fun rope_wf :: "nat \<Rightarrow> rope_node \<Rightarrow> bool" where
  "rope_wf 0 (RopeLeaf _ ps sz) \<longleftrightarrow>
     length ps \<le> 2 * RopeWidthFactor \<and> nonempty_pieces ps \<and> sz = pieces_size ps \<and> sz < 2 ^ 32"
| "rope_wf (Suc h) (RopeInterior cs sz) \<longleftrightarrow>
     cs \<noteq> [] \<and> length cs \<le> 2 * RopeWidthFactor \<and>
     (\<forall>c \<in> set cs. rope_wf h c \<and> 0 < rope_size c) \<and> sz = sum_list (map rope_size cs) \<and> sz < 2 ^ 32"
| "rope_wf _ _ \<longleftrightarrow> False"

lemma rope_wf_pieces:
  "rope_wf h t \<Longrightarrow> nonempty_pieces (rope_pieces t) \<and> pieces_size (rope_pieces t) = rope_size t"
proof (induction h arbitrary: t)
  case 0
  then show ?case by (cases t) auto
next
  case (Suc h)
  then obtain cs sz where t: "t = RopeInterior cs sz" by (cases t) auto
  have "\<forall>c \<in> set cs. nonempty_pieces (rope_pieces c) \<and> pieces_size (rope_pieces c) = rope_size c"
    using Suc by (auto simp: t)
  then have "nonempty_pieces (pieces_of cs) \<and> pieces_size (pieces_of cs) = sum_list (map rope_size cs)"
    by (induction cs) auto
  then show ?case using Suc.prems by (simp add: t)
qed

lemma rope_wf_nonempty: "rope_wf h t \<Longrightarrow> nonempty_pieces (rope_pieces t)"
  and rope_wf_size: "rope_wf h t \<Longrightarrow> pieces_size (rope_pieces t) = rope_size t"
  by (simp_all add: rope_wf_pieces)

lemma rope_wf_bound: "rope_wf h t \<Longrightarrow> rope_size t < 2 ^ 32"
  by (cases "(h, t)" rule: rope_wf.cases) auto

lemma rope_wf_children:
  assumes "\<forall>c \<in> set cs. rope_wf h c"
  shows "nonempty_pieces (pieces_of cs)" "pieces_size (pieces_of cs) = sum_list (map rope_size cs)"
  using assms by (induction cs) (auto simp: rope_wf_size dest: rope_wf_nonempty)

text \<open>What split and insert promise of a node and the sibling it may have split off.\<close>

fun result_ok :: "nat \<Rightarrow> rope_piece list \<Rightarrow> rope_node \<times> rope_node option \<Rightarrow> bool" where
  "result_ok h ps (t, None) \<longleftrightarrow> rope_wf h t \<and> rope_pieces t = ps"
| "result_ok h ps (t, Some r) \<longleftrightarrow>
     rope_wf h t \<and> rope_wf h r \<and> 0 < rope_size t \<and> 0 < rope_size r \<and>
     rope_pieces t @ rope_pieces r = ps"

lemma leaf_insert_room:
  assumes "length (ps1 @ ps2) < 2 * RopeWidthFactor" "nonempty_pieces (ps1 @ ps2)"
    "pieces_size (ps1 @ R # ps2) < 2 ^ 32"
  shows "leaf_insert (pieces_size ps1) R this (ps1 @ ps2) (pieces_size (ps1 @ ps2)) H =
    Some ((RopeLeaf this (ps1 @ R # ps2) (pieces_size (ps1 @ R # ps2)), None), H)"
proof -
  have "ps2 = []" if "pieces_size ps1 = pieces_size (ps1 @ ps2)"
  proof -
    have "pieces_size ps2 = 0" using that by simp
    then show ?thesis using assms(2) by simp
  qed
  then have "(if pieces_size ps1 = pieces_size (ps1 @ ps2) then Some (length (ps1 @ ps2))
      else find_slot (pieces_size ps1) 0 0 (ps1 @ ps2)) = Some (length ps1)"
    using assms(2,3) find_slot_at [of ps1 0 0 ps2] by auto
  then show ?thesis
    using assms(1,3) by (simp add: leaf_insert.simps [of _ _ _ "ps1 @ ps2"] insert_at_append add.commute add.left_commute)
qed

lemma leaf_insert_ok:
  assumes "length (ps1 @ ps2) \<le> 2 * RopeWidthFactor" "nonempty_pieces (ps1 @ ps2)" "0 < piece_size R"
    "pieces_size (ps1 @ R # ps2) < 2 ^ 32"
  shows "\<exists>res H'. leaf_insert (pieces_size ps1) R this (ps1 @ ps2) (pieces_size (ps1 @ ps2)) H = Some (res, H') \<and>
    result_ok 0 (ps1 @ R # ps2) res"
proof (cases "length (ps1 @ ps2) = 2 * RopeWidthFactor")
  case False
  then show ?thesis using assms leaf_insert_room [of ps1 ps2 R this H] by auto
next
  case True
  let ?L = "take RopeWidthFactor (ps1 @ ps2)" and ?N = "drop RopeWidthFactor (ps1 @ ps2)"
  have LN: "?L @ ?N = ps1 @ ps2" by (rule append_take_drop_id)
  have len: "length ?L = RopeWidthFactor" "length ?N = RopeWidthFactor" using True by simp_all
  have ne: "nonempty_pieces ?L" "nonempty_pieces ?N"
    using assms(2) by (auto dest: in_set_takeD in_set_dropD)
  have pos: "0 < pieces_size ?L" "0 < pieces_size ?N"
    using pieces_size_0_iff [OF ne(1)] pieces_size_0_iff [OF ne(2)] len
    by (metis RopeWidthFactor_def list.size(3) neq0_conv zero_neq_numeral)+
  have "pieces_size ?L + pieces_size ?N = pieces_size (ps1 @ ps2)" by (simp only: LN pieces_size_simps(3) [symmetric])
  then have fit: "pieces_size ?L + pieces_size ?N + piece_size R < 2 ^ 32" using assms(4) by simp
  let ?new = "next_leaf H" and ?H = "leaf_after this H"
  have new: "(case new_leaf H of (x, y) \<Rightarrow> f x y) = f ?new (snd (new_leaf H))" for f :: "nat \<Rightarrow> leaf_heap \<Rightarrow> 'a"
    by (simp add: new_leaf_def)
  note step = leaf_insert.simps [of _ _ _ "ps1 @ ps2"]
  show ?thesis
  proof (cases "pieces_size ?L \<ge> pieces_size ps1")
    case le: True
    obtain zs where zs: "?L = ps1 @ zs" "ps2 = zs @ ?N"
      using prefix_by_size [OF LN [symmetric] le assms(2)] by metis
    have small: "pieces_size (ps1 @ R # zs) < 2 ^ 32" using fit unfolding zs(1) by simp
    have "leaf_insert (pieces_size ps1) R this ?L (pieces_size ?L) ?H =
      Some ((RopeLeaf this (ps1 @ R # zs) (pieces_size (ps1 @ R # zs)), None), ?H)"
      using leaf_insert_room [OF _ _ small, of this ?H] len ne(1) unfolding zs(1) [symmetric]
      by (simp add: zs(1) RopeWidthFactor_def)
    then have "leaf_insert (pieces_size ps1) R this (ps1 @ ps2) (pieces_size (ps1 @ ps2)) H =
      Some ((RopeLeaf this (ps1 @ R # zs) (pieces_size (ps1 @ R # zs)),
        Some (RopeLeaf ?new ?N (pieces_size ?N))), ?H)"
      unfolding step using True le fit by (simp add: new insertAfter_new_leaf)
    moreover have "length (ps1 @ zs) = RopeWidthFactor" using len(1) unfolding zs(1) .
    ultimately show ?thesis
      using ne len pos assms(3) zs fit small by (auto simp: RopeWidthFactor_def)
  next
    case False
    then have "pieces_size ?L \<le> pieces_size ps1" by simp
    then obtain zs where zs: "ps1 = ?L @ zs" "?N = zs @ ps2"
      using prefix_by_size [OF LN _ ] assms(2) LN by metis
    have off: "pieces_size ps1 - pieces_size ?L = pieces_size zs"
      using zs(1) by (metis add_diff_cancel_left' pieces_size_simps(3))
    have small: "pieces_size (zs @ R # ps2) < 2 ^ 32" using fit unfolding zs(2) by simp
    have "leaf_insert (pieces_size zs) R ?new ?N (pieces_size ?N) ?H =
      Some ((RopeLeaf ?new (zs @ R # ps2) (pieces_size (zs @ R # ps2)), None), ?H)"
      using leaf_insert_room [OF _ _ small, of ?new ?H] len ne(2) unfolding zs(2) [symmetric]
      by (simp add: zs(2) RopeWidthFactor_def)
    moreover have "wrap32 (pieces_size ?L) = pieces_size ?L" "wrap32 (pieces_size ?N) = pieces_size ?N"
      using fit by simp_all
    ultimately have "leaf_insert (pieces_size ps1) R this (ps1 @ ps2) (pieces_size (ps1 @ ps2)) H =
      Some ((RopeLeaf this ?L (pieces_size ?L),
        Some (RopeLeaf ?new (zs @ R # ps2) (pieces_size (zs @ R # ps2)))), ?H)"
      unfolding step Let_def off [symmetric] using True False by (simp add: new insertAfter_new_leaf)
    moreover have "length (zs @ ps2) = RopeWidthFactor" using len(2) unfolding zs(2) .
    moreover have "?L @ zs @ R # ps2 = ps1 @ R # ps2" using zs(1) by (metis append_assoc)
    ultimately show ?thesis
      using ne len pos assms(3) zs fit small by (auto simp: RopeWidthFactor_def)
  qed
qed

section \<open>Splitting\<close>

definition piece_head :: "nat \<Rightarrow> rope_piece \<Rightarrow> rope_piece" where
  "piece_head n p = p\<lparr>EndOffs := StartOffs p + n\<rparr>"

definition piece_tail :: "nat \<Rightarrow> rope_piece \<Rightarrow> rope_piece" where
  "piece_tail n p = p\<lparr>StartOffs := StartOffs p + n\<rparr>"

lemma piece_size_cut [simp]:
  "piece_size (piece_head n p) = n" "piece_size (piece_tail n p) = piece_size p - n"
  by (simp_all add: piece_head_def piece_tail_def piece_size_def)

text \<open>The abstract split: cut the piece that holds the offset, unless the offset is a boundary.\<close>

fun split_pieces :: "nat \<Rightarrow> rope_piece list \<Rightarrow> rope_piece list" where
  "split_pieces off [] = []"
| "split_pieces off (p # ps) =
     (if off = 0 then p # ps
      else if off \<ge> piece_size p then p # split_pieces (off - piece_size p) ps
      else piece_head off p # piece_tail off p # ps)"

lemma split_pieces_0 [simp]: "split_pieces 0 ps = ps"
  by (cases ps) simp_all

lemma split_pieces_append_ge:
  "nonempty_pieces ps \<Longrightarrow> pieces_size ps \<le> off \<Longrightarrow>
     split_pieces off (ps @ qs) = ps @ split_pieces (off - pieces_size ps) qs"
  by (induction ps arbitrary: off) auto

lemma split_pieces_append_le:
  "off \<le> pieces_size ps \<Longrightarrow> split_pieces off (ps @ qs) = split_pieces off ps @ qs"
  by (induction ps arbitrary: off) auto

lemma split_pieces_at:
  assumes "off \<le> pieces_size ps" "nonempty_pieces ps"
  obtains ps1 ps2 where "split_pieces off ps = ps1 @ ps2" "pieces_size ps1 = off" "nonempty_pieces (ps1 @ ps2)"
proof -
  have "\<exists>ps1 ps2. split_pieces off ps = ps1 @ ps2 \<and> pieces_size ps1 = off \<and> nonempty_pieces (ps1 @ ps2)"
    using assms
  proof (induction ps arbitrary: off)
    case (Cons p ps)
    consider "off = 0" | "off \<noteq> 0" "off \<ge> piece_size p" | "off \<noteq> 0" "off < piece_size p" by linarith
    then show ?case
    proof cases
      case 1
      then show ?thesis using Cons.prems by (intro exI [of _ "[]"] exI [of _ "p # ps"]) auto
    next
      case 2
      then have "off - piece_size p \<le> pieces_size ps" "nonempty_pieces ps" using Cons.prems by auto
      from Cons.IH [OF this] obtain ps1 ps2 where "split_pieces (off - piece_size p) ps = ps1 @ ps2"
        "pieces_size ps1 = off - piece_size p" "nonempty_pieces (ps1 @ ps2)" by blast
      then show ?thesis using 2 Cons.prems by (intro exI [of _ "p # ps1"] exI [of _ ps2]) auto
    next
      case 3
      then show ?thesis using Cons.prems
        by (intro exI [of _ "[piece_head off p]"] exI [of _ "piece_tail off p # ps"]) auto
    qed
  qed simp
  then show ?thesis using that by blast
qed

lemma piece_containing:
  assumes "off < pieces_size ps"
  obtains ps1 p ps2 where "ps = ps1 @ p # ps2" "pieces_size ps1 \<le> off" "off < pieces_size ps1 + piece_size p"
proof -
  have "\<exists>ps1 p ps2. ps = ps1 @ p # ps2 \<and> pieces_size ps1 \<le> off \<and> off < pieces_size ps1 + piece_size p"
    using assms
  proof (induction ps arbitrary: off)
    case (Cons p ps)
    show ?case
    proof (cases "off < piece_size p")
      case True
      then show ?thesis by (intro exI [of _ "[]"] exI [of _ p] exI [of _ ps]) auto
    next
      case False
      then have "off - piece_size p < pieces_size ps" using Cons.prems by simp
      from Cons.IH [OF this] obtain ps1 q ps2 where "ps = ps1 @ q # ps2" "pieces_size ps1 \<le> off - piece_size p"
        "off - piece_size p < pieces_size ps1 + piece_size q"
        by blast
      then show ?thesis using False
        by (intro exI [of _ "p # ps1"] exI [of _ q] exI [of _ ps2]) auto
    qed
  qed simp
  then show ?thesis using that by blast
qed

lemma leaf_split_ok:
  assumes "rope_wf 0 (RopeLeaf this ps sz)" "off \<le> sz"
  shows "\<exists>res H'. leaf_split off this ps sz H = Some (res, H') \<and> result_ok 0 (split_pieces off ps) res"
proof (cases "off = 0 \<or> off = sz")
  case True
  then have "split_pieces off ps = ps"
    using assms split_pieces_append_ge [of ps off "[]"] by auto
  then show ?thesis using True assms by (auto simp: leaf_split_def)
next
  case False
  then have "off < pieces_size ps" using assms by simp
  then obtain ps1 p ps2 where ps: "ps = ps1 @ p # ps2" and lo: "pieces_size ps1 \<le> off"
    and hi: "off < pieces_size ps1 + piece_size p" by (rule piece_containing)
  have find: "find_piece off 0 0 ps = Some (length ps1, pieces_size ps1)"
    using find_piece_at [OF lo hi, of 0 0 ps2] assms(1) by (simp add: ps)
  have ne: "nonempty_pieces ps1" using assms(1) ps by simp
  show ?thesis
  proof (cases "pieces_size ps1 = off")
    case True
    then have "split_pieces off ps = ps"
      using ne split_pieces_append_ge [of ps1 off "p # ps2"] by (simp add: ps)
    then show ?thesis using find False True assms by (auto simp: leaf_split_def)
  next
    case inside: False
    define n where "n = off - pieces_size ps1"
    have n: "0 < n" "n < piece_size p" "off = pieces_size (ps1 @ [piece_head n p])"
      using inside lo hi by (auto simp: n_def)
    have split: "split_pieces off ps = (ps1 @ [piece_head n p]) @ piece_tail n p # ps2"
      using ne n split_pieces_append_ge [of ps1 off "p # ps2"] by (simp add: ps)
    have "sz - piece_size p + n = pieces_size ((ps1 @ [piece_head n p]) @ ps2)"
      using assms(1) by (simp add: ps)
    then have "leaf_split off this ps sz H =
      leaf_insert (pieces_size (ps1 @ [piece_head n p])) (piece_tail n p) this
        ((ps1 @ [piece_head n p]) @ ps2) (pieces_size ((ps1 @ [piece_head n p]) @ ps2)) H"
      using False inside find n(3) ps
      by (simp add: leaf_split_def Let_def n_def [symmetric] piece_head_def [symmetric] piece_tail_def [symmetric])
         (simp add: ac_simps)
    moreover have "length ((ps1 @ [piece_head n p]) @ ps2) \<le> 2 * RopeWidthFactor"
      "nonempty_pieces ((ps1 @ [piece_head n p]) @ ps2)" "0 < piece_size (piece_tail n p)"
      "pieces_size ((ps1 @ [piece_head n p]) @ piece_tail n p # ps2) < 2 ^ 32"
      using assms(1) n by (auto simp: ps)
    ultimately show ?thesis using leaf_insert_ok split by metis
  qed
qed

section \<open>Children\<close>

lemma find_child_split_at:
  "sum_list (map rope_size as) \<le> off \<Longrightarrow> off < sum_list (map rope_size as) + rope_size c \<Longrightarrow>
     co + sum_list (map rope_size as) + rope_size c < 2 ^ 32 \<Longrightarrow>
     find_child_split (co + off) co i (as @ c # bs) = Some (i + length as, co + sum_list (map rope_size as))"
proof (induction as arbitrary: co i off)
  case (Cons a as)
  from Cons.IH [of "off - rope_size a" "co + rope_size a" "Suc i"] Cons.prems show ?case by simp
qed simp

lemma find_child_insert_at:
  "as = [] \<or> sum_list (map rope_size as) < off \<Longrightarrow> off \<le> sum_list (map rope_size as) + rope_size c \<Longrightarrow>
     co + sum_list (map rope_size as) + rope_size c < 2 ^ 32 \<Longrightarrow>
     find_child_insert (co + off) co i (as @ c # bs) = Some (i + length as, co + sum_list (map rope_size as))"
proof (induction as arbitrary: co i off)
  case (Cons a as)
  then have "rope_size a < off" by simp
  moreover from this Cons.prems
  have "as = [] \<or> sum_list (map rope_size as) < off - rope_size a"
    "off - rope_size a \<le> sum_list (map rope_size as) + rope_size c" by auto
  ultimately show ?case
    using Cons.IH [of "off - rope_size a" "co + rope_size a" "Suc i"] Cons.prems(3) by simp
qed simp

lemma child_containing:
  assumes "off < sum_list (map rope_size cs)"
  obtains as c bs where "cs = as @ c # bs" "sum_list (map rope_size as) \<le> off"
    "off < sum_list (map rope_size as) + rope_size c"
proof -
  have "\<exists>as c bs. cs = as @ c # bs \<and> sum_list (map rope_size as) \<le> off \<and>
    off < sum_list (map rope_size as) + rope_size c"
    using assms
  proof (induction cs arbitrary: off)
    case (Cons a cs)
    show ?case
    proof (cases "off < rope_size a")
      case True
      then show ?thesis by (intro exI [of _ "[]"] exI [of _ a] exI [of _ cs]) auto
    next
      case False
      then have "off - rope_size a < sum_list (map rope_size cs)" using Cons.prems by simp
      from Cons.IH [OF this] obtain as c bs where "cs = as @ c # bs" "sum_list (map rope_size as) \<le> off - rope_size a"
        "off - rope_size a < sum_list (map rope_size as) + rope_size c"
        by blast
      then show ?thesis using False
        by (intro exI [of _ "a # as"] exI [of _ c] exI [of _ bs]) auto
    qed
  qed simp
  then show ?thesis using that by blast
qed

abbreviation children_wf :: "nat \<Rightarrow> rope_node list \<Rightarrow> bool" where
  "children_wf h cs \<equiv> (\<forall>c \<in> set cs. rope_wf h c \<and> 0 < rope_size c)"

lemma children_size_pos: "children_wf h cs \<Longrightarrow> cs \<noteq> [] \<Longrightarrow> 0 < sum_list (map rope_size cs)"
  by (cases cs) auto

lemma HandleChildPiece_room:
  "length (as @ c # bs) < 2 * RopeWidthFactor \<Longrightarrow>
     HandleChildPiece (length as) RHS (as @ c # bs) sz = (RopeInterior (as @ c # RHS # bs) sz, None)"
  by (subst HandleChildPiece.simps) (simp add: insert_at_Suc_append)

lemma HandleChildPiece_ok:
  assumes "length (as @ c # bs) \<le> 2 * RopeWidthFactor" "children_wf h (as @ c # RHS # bs)"
    "sz = sum_list (map rope_size (as @ c # RHS # bs))" "sz < 2 ^ 32"
  shows "result_ok (Suc h) (pieces_of (as @ c # RHS # bs)) (HandleChildPiece (length as) RHS (as @ c # bs) sz)"
proof (cases "length (as @ c # bs) = 2 * RopeWidthFactor")
  case False
  then show ?thesis using assms HandleChildPiece_room [of as c bs RHS sz] by simp
next
  case full: True
  note step = HandleChildPiece.simps [of "length as" RHS "as @ c # bs" sz, unfolded Let_def]
  show ?thesis
  proof (cases "length as < RopeWidthFactor")
    case True
    define n where "n = RopeWidthFactor - Suc (length as)"
    have cut: "take RopeWidthFactor (as @ c # bs) = as @ c # take n bs"
      "drop RopeWidthFactor (as @ c # bs) = drop n bs"
      using True by (simp_all add: n_def take_Cons' drop_Cons')
    have n: "n < length bs" "length (as @ c # take n bs) < 2 * RopeWidthFactor"
      using True full by (auto simp: n_def RopeWidthFactor_def)
    have wf: "children_wf h (as @ c # RHS # take n bs)" "children_wf h (drop n bs)" "drop n bs \<noteq> []"
      using assms(2) n by (auto dest: in_set_takeD in_set_dropD)
    have "pieces_of (take n bs) @ pieces_of (drop n bs) = pieces_of bs"
      by (metis append_take_drop_id concat_append map_append)
    moreover have "sum_list (map rope_size (take n bs)) + sum_list (map rope_size (drop n bs)) = sum_list (map rope_size bs)"
      by (metis append_take_drop_id map_append sum_list.append)
    moreover have "HandleChildPiece (length as) RHS (as @ c # bs) sz =
      (FullRecomputeSizeLocally (RopeInterior (as @ c # RHS # take n bs) sz),
       Some (FullRecomputeSizeLocally (RopeInterior (drop n bs) 0)))"
      unfolding step cut using full True n by (simp add: HandleChildPiece_room)
    moreover have "length (take n bs) + Suc (length as) = RopeWidthFactor" "length (drop n bs) = RopeWidthFactor"
      using n full True by (auto simp: n_def)
    ultimately show ?thesis
      using wf children_size_pos [OF wf(2,3)] assms(3,4) by (auto simp: RopeWidthFactor_def)
  next
    case False
    define n where "n = length as - RopeWidthFactor"
    have cut: "take RopeWidthFactor (as @ c # bs) = take RopeWidthFactor as"
      "drop RopeWidthFactor (as @ c # bs) = drop RopeWidthFactor as @ c # bs"
      using False by simp_all
    have n: "length (drop RopeWidthFactor as) = n" "length (drop RopeWidthFactor as @ c # bs) < 2 * RopeWidthFactor"
      using False full by (auto simp: n_def RopeWidthFactor_def)
    have wf: "children_wf h (take RopeWidthFactor as)" "children_wf h (drop RopeWidthFactor as @ c # RHS # bs)"
      "take RopeWidthFactor as \<noteq> []"
      using assms(2) False by (auto simp: RopeWidthFactor_def dest: in_set_takeD in_set_dropD)
    have "pieces_of (take RopeWidthFactor as) @ pieces_of (drop RopeWidthFactor as) = pieces_of as"
      by (metis append_take_drop_id concat_append map_append)
    note cat = this
    have sizes: "sum_list (map rope_size (take RopeWidthFactor as)) + sum_list (map rope_size (drop RopeWidthFactor as)) =
      sum_list (map rope_size as)"
      by (metis append_take_drop_id map_append sum_list.append)
    have "HandleChildPiece (length as - RopeWidthFactor) RHS (drop RopeWidthFactor as @ c # bs) 0 =
      (RopeInterior (drop RopeWidthFactor as @ c # RHS # bs) 0, None)"
      using HandleChildPiece_room [OF n(2), of RHS 0] by simp
    then have "HandleChildPiece (length as) RHS (as @ c # bs) sz =
      (FullRecomputeSizeLocally (RopeInterior (take RopeWidthFactor as) sz),
       Some (FullRecomputeSizeLocally (RopeInterior (drop RopeWidthFactor as @ c # RHS # bs) 0)))"
      unfolding step cut using full False by simp
    moreover have "length (take RopeWidthFactor as) = RopeWidthFactor"
      "length (drop RopeWidthFactor as @ c # bs) = RopeWidthFactor"
      using full False by auto
    ultimately show ?thesis
      using wf children_size_pos [OF wf(1,3)] cat sizes assms(3,4) by (auto simp: RopeWidthFactor_def)
  qed
qed

text \<open>A child's result lifted to its parent, with or without a sibling to place.\<close>

lemma lift_result_ok:
  assumes "result_ok h psc res" "children_wf h as" "children_wf h bs"
    "length (as @ c # bs) \<le> 2 * RopeWidthFactor" "0 < pieces_size psc"
    "sz = sum_list (map rope_size as) + pieces_size psc + sum_list (map rope_size bs)" "sz < 2 ^ 32"
  shows "result_ok (Suc h) (pieces_of as @ psc @ pieces_of bs)
    (case res of (c', None) \<Rightarrow> (RopeInterior (as @ c' # bs) sz, None)
     | (c', Some RHS) \<Rightarrow> HandleChildPiece (length as) RHS (as @ c' # bs) sz)"
proof (cases res)
  case (Pair c' x)
  show ?thesis
  proof (cases x)
    case None
    then have c': "rope_wf h c'" "rope_pieces c' = psc" using assms(1) Pair by auto
    then have "rope_size c' = pieces_size psc" using rope_wf_size by force
    then show ?thesis using assms c' Pair None by auto
  next
    case (Some r)
    then have cr: "rope_wf h c'" "rope_wf h r" "0 < rope_size c'" "0 < rope_size r"
      "rope_pieces c' @ rope_pieces r = psc" using assms(1) Pair by auto
    then have "rope_size c' + rope_size r = pieces_size psc"
      using rope_wf_size [of h c'] rope_wf_size [of h r] by auto
    then have sz: "sz = sum_list (map rope_size (as @ c' # r # bs))" using assms(6) by simp
    have "children_wf h (as @ c' # r # bs)" using assms(2,3) cr by auto
    moreover have "length (as @ c' # bs) \<le> 2 * RopeWidthFactor" using assms(4) by simp
    ultimately have "result_ok (Suc h) (pieces_of (as @ c' # r # bs)) (HandleChildPiece (length as) r (as @ c' # bs) sz)"
      using sz assms(7) by (intro HandleChildPiece_ok)
    then show ?thesis using cr(5) Pair Some by auto
  qed
qed

lemma pieces_size_split [simp]: "pieces_size (split_pieces off ps) = pieces_size ps"
  by (induction off ps rule: split_pieces.induct) auto

lemma rope_split_ok:
  assumes "rope_wf h t" "off \<le> rope_size t"
  shows "\<exists>res H'. rope_split off t H = Some (res, H') \<and> result_ok h (split_pieces off (rope_pieces t)) res"
  using assms
proof (induction h arbitrary: t off)
  case 0
  then obtain this ps sz where t: "t = RopeLeaf this ps sz" by (cases t) auto
  then show ?case using 0 leaf_split_ok [of this ps sz off] by simp
next
  case (Suc h)
  then obtain cs sz where t: "t = RopeInterior cs sz" by (cases t) auto
  have wf: "cs \<noteq> []" "length cs \<le> 2 * RopeWidthFactor" "children_wf h cs" "sz = sum_list (map rope_size cs)" "sz < 2 ^ 32"
    using Suc.prems(1) by (auto simp: t)
  have P: "nonempty_pieces (pieces_of cs)" "pieces_size (pieces_of cs) = sz"
    using rope_wf_children [of cs h] wf by auto
  show ?case
  proof (cases "off = 0 \<or> off = sz")
    case True
    then have "split_pieces off (pieces_of cs) = pieces_of cs"
      using P split_pieces_append_ge [of "pieces_of cs" off "[]"] by auto
    then show ?thesis using True Suc.prems by (auto simp: t)
  next
    case False
    then have "off < sum_list (map rope_size cs)" using Suc.prems(2) wf(4) by (simp add: t)
    then obtain as c bs where cs: "cs = as @ c # bs" and lo: "sum_list (map rope_size as) \<le> off"
      and hi: "off < sum_list (map rope_size as) + rope_size c" by (rule child_containing)
    define co where "co = sum_list (map rope_size as)"
    have find: "find_child_split off 0 0 cs = Some (length as, co)"
      using find_child_split_at [OF lo hi, of 0 0 bs] wf(4,5) by (simp add: cs co_def)
    have Pas: "nonempty_pieces (pieces_of as)" "pieces_size (pieces_of as) = co"
      using rope_wf_children [of as h] wf(3) by (auto simp: cs co_def)
    have Pc: "pieces_size (rope_pieces c) = rope_size c" using rope_wf_size [of h c] wf(3) by (simp add: cs)
    have split: "split_pieces off (pieces_of cs) =
      pieces_of as @ split_pieces (off - co) (rope_pieces c) @ pieces_of bs"
      using Pas Pc lo hi by (simp add: cs co_def split_pieces_append_ge split_pieces_append_le)
    show ?thesis
    proof (cases "co = off")
      case True
      then have "rope_split off t H = Some ((t, None), H)" using False find Suc.prems(2) by (simp add: t)
      moreover have "split_pieces off (pieces_of cs) = pieces_of cs" using split True by (simp add: cs)
      ultimately show ?thesis using Suc.prems(1) by (auto simp: t)
    next
      case inside: False
      have "rope_wf h c" "off - co \<le> rope_size c" using wf(3) hi by (auto simp: cs co_def)
      from Suc.IH [OF this] obtain res H' where
        res: "rope_split (off - co) c H = Some (res, H')" "result_ok h (split_pieces (off - co) (rope_pieces c)) res"
        by blast
      have "rope_split off t H = Some (case res of (c', None) \<Rightarrow> (RopeInterior (as @ c' # bs) sz, None)
         | (c', Some RHS) \<Rightarrow> HandleChildPiece (length as) RHS (as @ c' # bs) sz, H')"
        using False inside find res(1) Suc.prems(2) cs
        by (auto simp: t split: prod.splits option.splits)
      moreover have "result_ok (Suc h) (split_pieces off (pieces_of cs))
         (case res of (c', None) \<Rightarrow> (RopeInterior (as @ c' # bs) sz, None)
          | (c', Some RHS) \<Rightarrow> HandleChildPiece (length as) RHS (as @ c' # bs) sz)"
        unfolding split by (rule lift_result_ok [OF res(2), where c = c]) (use wf Pc in \<open>auto simp: cs\<close>)
      ultimately show ?thesis by (auto simp: t)
    qed
  qed
qed

text \<open>The child an insertion goes to: the first that ends at or beyond the offset.\<close>

lemma child_for_insert:
  assumes "off \<le> sum_list (map rope_size cs)" "cs \<noteq> []"
  obtains as c bs where "cs = as @ c # bs" "as = [] \<or> sum_list (map rope_size as) < off"
    "off \<le> sum_list (map rope_size as) + rope_size c"
proof -
  have "\<exists>as c bs. cs = as @ c # bs \<and> (as = [] \<or> sum_list (map rope_size as) < off) \<and>
    off \<le> sum_list (map rope_size as) + rope_size c"
    using assms
  proof (induction cs arbitrary: off)
    case (Cons a cs)
    show ?case
    proof (cases "off \<le> rope_size a")
      case True
      then show ?thesis by (intro exI [of _ "[]"] exI [of _ a] exI [of _ cs]) auto
    next
      case False
      then have "off - rope_size a \<le> sum_list (map rope_size cs)" "cs \<noteq> []" using Cons.prems by auto
      from Cons.IH [OF this] obtain as c bs where "cs = as @ c # bs"
        "as = [] \<or> sum_list (map rope_size as) < off - rope_size a"
        "off - rope_size a \<le> sum_list (map rope_size as) + rope_size c" by blast
      then show ?thesis using False
        by (intro exI [of _ "a # as"] exI [of _ c] exI [of _ bs]) auto
    qed
  qed simp
  then show ?thesis using that by blast
qed

lemma find_insert_child:
  assumes "children_wf h cs" "cs \<noteq> []" "off \<le> sum_list (map rope_size cs)" "sum_list (map rope_size cs) < 2 ^ 32"
  obtains as c bs where "cs = as @ c # bs" "sum_list (map rope_size as) \<le> off"
    "off \<le> sum_list (map rope_size as) + rope_size c"
    "(if off = sum_list (map rope_size cs)
      then (if cs = [] then None
            else Some (length cs - 1, sum_list (map rope_size cs) - rope_size (last cs)))
      else find_child_insert off 0 0 cs) = Some (length as, sum_list (map rope_size as))"
proof (cases "off = sum_list (map rope_size cs)")
  case True
  obtain as c where cs: "cs = as @ [c]" using assms(2) by (cases cs rule: rev_cases) auto
  then show ?thesis using that [of as c "[]"] True by simp
next
  case False
  obtain as c bs where *: "cs = as @ c # bs" "as = [] \<or> sum_list (map rope_size as) < off"
    "off \<le> sum_list (map rope_size as) + rope_size c"
    using child_for_insert [OF assms(3,2)] by metis
  then have "find_child_insert off 0 0 cs = Some (length as, sum_list (map rope_size as))"
    using find_child_insert_at [OF *(2,3), of 0 0 bs] assms(4) *(1) by simp
  then show ?thesis using that [of as c bs] * False by auto
qed

lemma rope_insert_ok:
  assumes "rope_wf h t" "rope_pieces t = ps1 @ ps2" "0 < piece_size R" "rope_size t + piece_size R < 2 ^ 32"
  shows "\<exists>res H'. rope_insert (pieces_size ps1) R t H = Some (res, H') \<and> result_ok h (ps1 @ R # ps2) res"
  using assms
proof (induction h arbitrary: t ps1 ps2)
  case 0
  then obtain this ps sz where t: "t = RopeLeaf this ps sz" by (cases t) auto
  then show ?case using 0 leaf_insert_ok [of ps1 ps2 R] by auto
next
  case (Suc h)
  then obtain cs sz where t: "t = RopeInterior cs sz" by (cases t) auto
  have wf: "cs \<noteq> []" "length cs \<le> 2 * RopeWidthFactor" "children_wf h cs" "sz = sum_list (map rope_size cs)" "sz < 2 ^ 32"
    using Suc.prems(1) by (auto simp: t)
  have P: "nonempty_pieces (pieces_of cs)" "pieces_size (pieces_of cs) = sz"
    using rope_wf_children [of cs h] wf by auto
  have split: "pieces_of cs = ps1 @ ps2" using Suc.prems(2) by (simp add: t)
  let ?off = "pieces_size ps1"
  have le: "?off \<le> sum_list (map rope_size cs)" using P(2) wf(4) by (simp add: split)
  obtain as c bs where cs: "cs = as @ c # bs" and lo: "sum_list (map rope_size as) \<le> ?off"
    and hi: "?off \<le> sum_list (map rope_size as) + rope_size c"
    and find: "(if ?off = sz then (if cs = [] then None else Some (length cs - 1, sz - rope_size (last cs)))
      else find_child_insert ?off 0 0 cs) = Some (length as, sum_list (map rope_size as))"
    using find_insert_child [OF wf(3,1) le] wf(5) unfolding wf(4) by metis
  have Pas: "pieces_size (pieces_of as) = sum_list (map rope_size as)"
    using rope_wf_children [of as h] wf(3) by (auto simp: cs)
  have c: "rope_wf h c" "pieces_size (rope_pieces c) = rope_size c"
    using rope_wf_size [of h c] wf(3) by (auto simp: cs)
  have cat: "pieces_of as @ rope_pieces c @ pieces_of bs = ps1 @ ps2" using split by (simp add: cs)
  have lo': "pieces_size (pieces_of as) \<le> ?off" using lo Pas by simp
  have ne: "nonempty_pieces (pieces_of as @ rope_pieces c @ pieces_of bs)" using P(1) by (simp add: cs)
  obtain qs1 where qs1: "ps1 = pieces_of as @ qs1" "rope_pieces c @ pieces_of bs = qs1 @ ps2"
    using prefix_by_size [OF cat lo' ne] by blast
  have off: "?off - sum_list (map rope_size as) = pieces_size qs1" using qs1(1) Pas by simp
  have "pieces_size qs1 \<le> pieces_size (rope_pieces c)" using hi off c(2) by simp
  moreover have "nonempty_pieces (qs1 @ ps2)" using P(1) unfolding split qs1(1) by simp
  ultimately obtain qs2 where qs2: "rope_pieces c = qs1 @ qs2" "ps2 = qs2 @ pieces_of bs"
    using prefix_by_size [OF qs1(2) [symmetric]] by blast
  have "rope_size c + piece_size R < 2 ^ 32" using Suc.prems(4) wf(4) by (simp add: t cs)
  from Suc.IH [OF c(1) qs2(1) Suc.prems(3) this] obtain res H' where
    res: "rope_insert (pieces_size qs1) R c H = Some (res, H')" "result_ok h (qs1 @ R # qs2) res" by blast
  have nth: "cs ! length as = c" and upd: "\<And>c'. cs[length as := c'] = as @ c' # bs"
    by (simp_all add: cs)
  have fit: "sz + piece_size R < 2 ^ 32" using Suc.prems(4) by (simp add: t)
  then have "rope_insert ?off R t H = Some (case res of
      (c', None) \<Rightarrow> (RopeInterior (as @ c' # bs) (sz + piece_size R), None)
    | (c', Some RHS) \<Rightarrow> HandleChildPiece (length as) RHS (as @ c' # bs) (sz + piece_size R), H')"
    using find res(1) le [folded wf(4)] off nth
    by (simp add: t upd split: prod.splits option.splits)
  moreover have "sz + piece_size R = sum_list (map rope_size as) + pieces_size (qs1 @ R # qs2) + sum_list (map rope_size bs)"
    using wf(4) c(2) qs2(1) by (simp add: cs)
  ultimately show ?case
    using lift_result_ok [OF res(2), where as = as and bs = bs and c = c and sz = "sz + piece_size R"]
      wf(2,3) Suc.prems(3) qs1(1) qs2(2) fit by (simp add: cs)
qed

section \<open>Erasing\<close>

text \<open>The abstract erase: drop the first bytes of a piece list, cutting the piece that survives in part.\<close>

fun drop_bytes :: "nat \<Rightarrow> rope_piece list \<Rightarrow> rope_piece list" where
  "drop_bytes n [] = []"
| "drop_bytes n (p # ps) =
     (if n = 0 then p # ps
      else if n \<ge> piece_size p then drop_bytes (n - piece_size p) ps
      else piece_tail n p # ps)"

lemma drop_bytes_0 [simp]: "drop_bytes 0 ps = ps"
  by (cases ps) simp_all

lemma drop_bytes_append_ge:
  "nonempty_pieces ps \<Longrightarrow> pieces_size ps \<le> n \<Longrightarrow> drop_bytes n (ps @ qs) = drop_bytes (n - pieces_size ps) qs"
  by (induction ps arbitrary: n) auto

lemma drop_bytes_append_le:
  "n \<le> pieces_size ps \<Longrightarrow> drop_bytes n (ps @ qs) = drop_bytes n ps @ qs"
  by (induction ps arbitrary: n) auto

lemma drop_bytes_facts:
  assumes "nonempty_pieces ps" "n \<le> pieces_size ps"
  shows "pieces_size (drop_bytes n ps) = pieces_size ps - n" "nonempty_pieces (drop_bytes n ps)"
    "length (drop_bytes n ps) \<le> length ps"
  using assms
proof (induction ps arbitrary: n)
  case (Cons p ps)
  {
    case 1
    then show ?case using Cons.IH(1) [of "n - piece_size p"] by auto
  next
    case 2
    then show ?case using Cons.IH(2) [of "n - piece_size p"] by auto
  next
    case 3
    then have "length (drop_bytes (n - piece_size p) ps) \<le> length ps" if "n \<ge> piece_size p"
      using Cons.IH(3) [of "n - piece_size p"] that by simp
    then show ?case by (auto intro: le_SucI)
  }
qed auto

lemma leaf_erase_ok:
  assumes "nonempty_pieces (ps1 @ ps2)" "0 < n" "n \<le> pieces_size ps2" "pieces_size (ps1 @ ps2) < 2 ^ 32"
  shows "leaf_erase (pieces_size ps1) n this (ps1 @ ps2) (pieces_size (ps1 @ ps2)) =
    Some (RopeLeaf this (ps1 @ drop_bytes n ps2) (pieces_size (ps1 @ ps2) - n))"
proof -
  have slot: "find_slot (pieces_size ps1) 0 0 (ps1 @ ps2) = Some (length ps1)"
    using find_slot_at [of ps1 0 0 ps2] assms(1,4) by simp
  have fit: "pieces_size ps1 + pieces_size ps2 < 2 ^ 32" "pieces_size ps1 + n < 2 ^ 32" using assms(3,4) by simp_all
  obtain qs1 qs2 where qs: "ps2 = qs1 @ qs2"
    and cover: "find_cover (pieces_size ps1 + n) (pieces_size ps1) (length ps1) ps2 =
      Some (length ps1 + length qs1, pieces_size ps1 + pieces_size qs1)"
    and n: "pieces_size qs1 = n \<or> pieces_size qs1 < n \<and> qs2 \<noteq> [] \<and> n < pieces_size qs1 + piece_size (hd qs2)"
    using find_cover_at [OF assms(2,3) fit(1), of "length ps1"] by metis
  have ne: "nonempty_pieces qs1" using assms(1) qs by simp
  have rest: "take (length ps1) (ps1 @ ps2) @ drop (length ps1 + length qs1) (ps1 @ ps2) = ps1 @ qs2"
    by (simp add: qs)
  note step = leaf_erase_def [of "pieces_size ps1" n this "ps1 @ ps2" "pieces_size (ps1 @ ps2)",
      unfolded Let_def slot wrap32_id [OF fit(2)]]
  show ?thesis
  proof (cases "pieces_size qs1 = n")
    case True
    then have "drop_bytes n ps2 = qs2" using ne qs drop_bytes_append_ge [of qs1 n qs2] by simp
    then show ?thesis using cover rest True unfolding step by simp
  next
    case False
    then obtain q qs2' where q: "qs2 = q # qs2'" "pieces_size qs1 < n" "n < pieces_size qs1 + piece_size q"
      using n by (cases qs2) auto
    have "drop_bytes n ps2 = drop_bytes (n - pieces_size qs1) (q # qs2')"
      using ne q drop_bytes_append_ge [of qs1 n qs2] qs by simp
    also have "\<dots> = piece_tail (n - pieces_size qs1) q # qs2'" using q by auto
    finally have "drop_bytes n ps2 = piece_tail (n - pieces_size qs1) q # qs2'" .
    then show ?thesis using cover rest q unfolding step by (simp add: piece_tail_def)
  qed
qed

text \<open>A node whose text is not erased as a whole stays well formed and not empty.\<close>

lemma erase_loop_0 [simp]: "erase_loop off 0 cs H = Some (cs, H)"
  by (cases cs) simp_all

definition erases :: "nat \<Rightarrow> bool" where
  "erases h \<longleftrightarrow> (\<forall>t ps1 ps2 n H. rope_wf h t \<longrightarrow> rope_pieces t = ps1 @ ps2 \<longrightarrow> 0 < n \<longrightarrow>
     n \<le> pieces_size ps2 \<longrightarrow> h = 0 \<or> n < rope_size t \<longrightarrow>
     (\<exists>t' H'. rope_erase (pieces_size ps1) n t H = Some (t', H') \<and> rope_wf h t' \<and>
        rope_pieces t' = ps1 @ drop_bytes n ps2 \<and> rope_size t' = rope_size t - n))"

lemma erases_child:
  assumes "erases h" "rope_wf h c" "rope_pieces c = ps1 @ ps2" "0 < n" "n \<le> pieces_size ps2"
    "n < rope_size c"
  obtains c' H' where "rope_erase (pieces_size ps1) n c H = Some (c', H')" "rope_wf h c'"
    "rope_pieces c' = ps1 @ drop_bytes n ps2" "rope_size c' = rope_size c - n"
  using assms unfolding erases_def by metis

lemma erase_loop_from_start:
  assumes "erases h" "children_wf h cs" "n \<le> sum_list (map rope_size cs)" "sum_list (map rope_size cs) < 2 ^ 32"
  shows "\<exists>cs' H'. erase_loop 0 n cs H = Some (cs', H') \<and> children_wf h cs' \<and>
    pieces_of cs' = drop_bytes n (pieces_of cs) \<and> length cs' \<le> length cs"
  using assms(2,3,4)
proof (induction cs arbitrary: n H)
  case (Cons c cs)
  have c: "nonempty_pieces (rope_pieces c)" "pieces_size (rope_pieces c) = rope_size c"
    using Cons.prems(1) rope_wf_nonempty [of h c] rope_wf_size [of h c] by auto
  consider "n = 0" | "0 < n" "n < rope_size c" | "n > 0" "n \<ge> rope_size c" by linarith
  then show ?case
  proof cases
    case 2
    have "rope_wf h c" "rope_pieces c = [] @ rope_pieces c" "n \<le> pieces_size (rope_pieces c)"
      using Cons.prems(1) 2 c(2) by auto
    from erases_child [OF assms(1) this(1,2) 2(1) this(3) 2(2), of H] obtain c' H' where
      "rope_erase 0 n c H = Some (c', H')" "rope_wf h c'"
      "rope_pieces c' = drop_bytes n (rope_pieces c)" "rope_size c' = rope_size c - n" by auto
    then show ?thesis using 2 Cons.prems c(2) by (auto simp: drop_bytes_append_le)
  next
    case 3
    have n: "n - rope_size c \<le> sum_list (map rope_size cs)" "children_wf h cs"
      "sum_list (map rope_size cs) < 2 ^ 32" "\<not> n < rope_size c" "n < 2 ^ 32" using Cons.prems 3 by auto
    from Cons.IH [OF n(2,1,3), of "rope_Destroy c H"] n(4,5) 3 c show ?thesis
      by (auto simp: drop_bytes_append_ge intro: le_SucI)
  qed (use Cons.prems in auto)
qed simp

lemma erase_loop_from_middle:
  assumes "erases h" "children_wf h (c # cs)" "rope_pieces c = qs1 @ qs2" "0 < pieces_size qs1"
    "0 < n" "pieces_size qs1 + n \<le> rope_size c + sum_list (map rope_size cs)" "pieces_size qs1 < rope_size c"
    "rope_size c + sum_list (map rope_size cs) < 2 ^ 32"
  shows "\<exists>cs' H'. erase_loop (pieces_size qs1) n (c # cs) H = Some (cs', H') \<and> children_wf h cs' \<and>
    pieces_of cs' = qs1 @ drop_bytes n (qs2 @ pieces_of cs) \<and> length cs' \<le> Suc (length cs)"
proof -
  have c: "nonempty_pieces (rope_pieces c)" "pieces_size qs1 + pieces_size qs2 = rope_size c"
    using assms(2,3) rope_wf_nonempty [of h c] rope_wf_size [of h c] by auto
  show ?thesis
  proof (cases "pieces_size qs1 + n < rope_size c")
    case True
    then have "rope_wf h c" "n \<le> pieces_size qs2" "n < rope_size c" using assms(2) c(2) by auto
    from erases_child [OF assms(1) this(1) assms(3,5) this(2,3), of H] obtain c' H' where
      "rope_erase (pieces_size qs1) n c H = Some (c', H')" "rope_wf h c'"
      "rope_pieces c' = qs1 @ drop_bytes n qs2" "rope_size c' = rope_size c - n" .
    then show ?thesis using True assms(2,5,8) c(2) by (auto simp: drop_bytes_append_le)
  next
    case False
    let ?b = "rope_size c - pieces_size qs1"
    have b: "?b = pieces_size qs2" "0 < ?b" "?b < rope_size c" using c(2) assms(4,7) by auto
    then have "rope_wf h c" "?b \<le> pieces_size qs2" using assms(2) by auto
    from erases_child [OF assms(1) this(1) assms(3) b(2) this(2) b(3), of H] obtain c' H1 where
      c': "rope_erase (pieces_size qs1) ?b c H = Some (c', H1)" "rope_wf h c'"
      "rope_pieces c' = qs1 @ drop_bytes ?b qs2" "rope_size c' = rope_size c - ?b" .
    have ne: "nonempty_pieces qs2" using c(1) assms(3) by simp
    have "n - ?b \<le> sum_list (map rope_size cs)" "children_wf h cs"
      "sum_list (map rope_size cs) < 2 ^ 32" using assms(2,6,8) c(2) by auto
    from erase_loop_from_start [OF assms(1) this(2,1,3), of H1] obtain cs' H2 where
      cs': "erase_loop 0 (n - ?b) cs H1 = Some (cs', H2)" "children_wf h cs'"
        "pieces_of cs' = drop_bytes (n - ?b) (pieces_of cs)" "length cs' \<le> length cs" by blast
    have "wrap32 (pieces_size qs1 + n) = pieces_size qs1 + n" using assms(6,8) by simp
    then have "erase_loop (pieces_size qs1) n (c # cs) H = Some (c' # cs', H2)"
      using False assms(4,5) c'(1) cs'(1) by (simp add: Let_def)
    moreover have "drop_bytes n (qs2 @ pieces_of cs) = drop_bytes (n - ?b) (pieces_of cs)"
      using False c(2) ne b(1) by (simp add: drop_bytes_append_ge)
    moreover have "drop_bytes ?b qs2 = []" using ne b(1) drop_bytes_append_ge [of qs2 ?b "[]"] by simp
    ultimately show ?thesis using c' cs' b assms(4) by auto
  qed
qed

lemma erase_skip_at:
  "sum_list (map rope_size as) \<le> off \<Longrightarrow> off < sum_list (map rope_size as) + rope_size c \<Longrightarrow>
     erase_skip off n (as @ c # bs) H =
       map_option (apfst ((@) as)) (erase_loop (off - sum_list (map rope_size as)) n (c # bs) H)"
proof (induction as arbitrary: off)
  case Nil
  then show ?case by (cases "erase_loop off n (c # bs) H") (auto simp del: erase_loop.simps)
next
  case (Cons a as)
  then have "erase_skip (off - rope_size a) n (as @ c # bs) H =
      map_option (apfst ((@) as)) (erase_loop (off - rope_size a - sum_list (map rope_size as)) n (c # bs) H)" by simp
  then show ?case using Cons.prems
    by (simp add: option.map_comp comp_def case_prod_beta apfst_def map_prod_def del: erase_loop.simps)
qed

lemma erase_skip_ok:
  assumes "erases h" "children_wf h cs" "pieces_of cs = ps1 @ ps2" "0 < n" "n \<le> pieces_size ps2"
    "sum_list (map rope_size cs) < 2 ^ 32"
  shows "\<exists>cs' H'. erase_skip (pieces_size ps1) n cs H = Some (cs', H') \<and> children_wf h cs' \<and>
    pieces_of cs' = ps1 @ drop_bytes n ps2 \<and> length cs' \<le> length cs"
proof -
  let ?off = "pieces_size ps1"
  have tot: "pieces_size ps1 + pieces_size ps2 = sum_list (map rope_size cs)"
    and ne: "nonempty_pieces (pieces_of cs)"
    using rope_wf_children [of cs h] assms(2,3) by auto
  then have "?off < sum_list (map rope_size cs)" using assms(4,5) by simp
  then obtain as c bs where cs: "cs = as @ c # bs" and lo: "sum_list (map rope_size as) \<le> ?off"
    and hi: "?off < sum_list (map rope_size as) + rope_size c" by (rule child_containing)
  have wf: "children_wf h as" "children_wf h (c # bs)" using assms(2) cs by auto
  have Pas: "pieces_size (pieces_of as) = sum_list (map rope_size as)"
    using rope_wf_children [of as h] wf(1) by auto
  have Pc: "pieces_size (rope_pieces c) = rope_size c" using wf(2) rope_wf_size by auto
  have cat: "pieces_of as @ rope_pieces c @ pieces_of bs = ps1 @ ps2" using assms(3) by (simp add: cs)
  obtain qs1 where qs1: "ps1 = pieces_of as @ qs1" "rope_pieces c @ pieces_of bs = qs1 @ ps2"
    using prefix_by_size [OF cat] lo ne unfolding Pas cs by auto
  have off: "?off - sum_list (map rope_size as) = pieces_size qs1" using qs1(1) Pas by simp
  have "pieces_size qs1 \<le> pieces_size (rope_pieces c)" using hi off Pc by simp
  moreover have "nonempty_pieces (qs1 @ ps2)" using ne unfolding assms(3) qs1(1) by simp
  ultimately obtain qs2 where qs2: "rope_pieces c = qs1 @ qs2" "ps2 = qs2 @ pieces_of bs"
    using prefix_by_size [OF qs1(2) [symmetric]] by blast
  have n: "pieces_size qs1 + n \<le> rope_size c + sum_list (map rope_size bs)"
    using assms(5) Pc qs2 rope_wf_children [of bs h] wf(2) by auto
  have fit: "rope_size c + sum_list (map rope_size bs) < 2 ^ 32" using assms(6) by (simp add: cs)
  have "\<exists>cs' H'. erase_loop (pieces_size qs1) n (c # bs) H = Some (cs', H') \<and> children_wf h cs' \<and>
    pieces_of cs' = qs1 @ drop_bytes n (qs2 @ pieces_of bs) \<and> length cs' \<le> Suc (length bs)"
  proof (cases "pieces_size qs1 = 0")
    case True
    then have "qs1 = []" using ne qs2(1) by (simp add: cs)
    then show ?thesis using erase_loop_from_start [OF assms(1) wf(2), of n H] n fit qs2(1) by simp
  next
    case False
    have pos: "0 < pieces_size qs1" "pieces_size qs1 < rope_size c" using False hi off by auto
    show ?thesis by (rule erase_loop_from_middle [OF assms(1) wf(2) qs2(1) pos(1) assms(4) n pos(2) fit])
  qed
  then show ?thesis using erase_skip_at [OF lo hi, of n bs H] off wf qs1(1) qs2(2) by (auto simp: cs)
qed

lemma erases_all: "erases h"
proof (induction h)
  case 0
  show ?case unfolding erases_def
  proof (intro allI impI)
    fix t ps1 ps2 n H
    assume *: "rope_wf 0 t" "rope_pieces t = ps1 @ ps2" "0 < n" "n \<le> pieces_size ps2"
    then obtain this sz where t: "t = RopeLeaf this (ps1 @ ps2) sz" by (cases t) auto
    then have b: "nonempty_pieces (ps1 @ ps2)" "pieces_size (ps1 @ ps2) < 2 ^ 32" "sz = pieces_size (ps1 @ ps2)"
      "length (ps1 @ ps2) \<le> 2 * RopeWidthFactor" using * by auto
    have "wrap32 (pieces_size ps1 + n) = pieces_size ps1 + n" using b(2) *(4) by simp
    then show "\<exists>t' H'. rope_erase (pieces_size ps1) n t H = Some (t', H') \<and> rope_wf 0 t' \<and>
        rope_pieces t' = ps1 @ drop_bytes n ps2 \<and> rope_size t' = rope_size t - n"
      using leaf_erase_ok [OF b(1) *(3,4) b(2), of this] drop_bytes_facts [of ps2 n] *(3,4) b by (auto simp: t)
  qed
next
  case (Suc h)
  show ?case unfolding erases_def
  proof (intro allI impI)
    fix t ps1 ps2 n H
    assume *: "rope_wf (Suc h) t" "rope_pieces t = ps1 @ ps2" "0 < n" "n \<le> pieces_size ps2"
      "Suc h = 0 \<or> n < rope_size t"
    then obtain cs sz where t: "t = RopeInterior cs sz" by (cases t) auto
    have wf: "length cs \<le> 2 * RopeWidthFactor" "children_wf h cs" "sz = sum_list (map rope_size cs)"
      "pieces_of cs = ps1 @ ps2" "sum_list (map rope_size cs) < 2 ^ 32" using * by (auto simp: t)
    from erase_skip_ok [OF Suc wf(2,4) *(3,4) wf(5), of H] obtain cs' H' where
      cs': "erase_skip (pieces_size ps1) n cs H = Some (cs', H')" "children_wf h cs'"
        "pieces_of cs' = ps1 @ drop_bytes n ps2" "length cs' \<le> length cs" by blast
    have tot: "pieces_size ps1 + pieces_size ps2 = sz" and ne: "nonempty_pieces ps2"
      using rope_wf_children [of cs h] wf by auto
    have "sum_list (map rope_size cs') = pieces_size (ps1 @ drop_bytes n ps2)"
      using rope_wf_children [of cs' h] cs' by auto
    also have "\<dots> = sz - n" using drop_bytes_facts(1) [OF ne *(4)] tot *(4) by simp
    finally have sz': "sum_list (map rope_size cs') = sz - n" .
    then have "cs' \<noteq> []" using *(5) by (auto simp: t)
    have fit: "pieces_size ps1 + n < 2 ^ 32" "pieces_size ps1 + n \<le> sz" "sz - n < 2 ^ 32"
      using tot *(4) wf(3,5) by auto
    show "\<exists>t' H'. rope_erase (pieces_size ps1) n t H = Some (t', H') \<and> rope_wf (Suc h) t' \<and>
        rope_pieces t' = ps1 @ drop_bytes n ps2 \<and> rope_size t' = rope_size t - n"
      using cs' \<open>cs' \<noteq> []\<close> sz' wf(1) fit wrap32_id [OF fit(1)] by (simp add: t)
  qed
qed

section \<open>The tree\<close>

lemma grow_root_ok:
  assumes "result_ok h ps res" "pieces_size ps < 2 ^ 32"
  shows "\<exists>h'. rope_wf h' (grow_root res)" "rope_pieces (grow_root res) = ps"
proof -
  obtain t x where res: "res = (t, x)" by (cases res)
  show "\<exists>h'. rope_wf h' (grow_root res)"
  proof (cases x)
    case None
    then show ?thesis using assms by (auto simp: res grow_root_def)
  next
    case (Some r)
    then have tr: "rope_wf h t" "rope_wf h r" "0 < rope_size t" "0 < rope_size r" "rope_pieces t @ rope_pieces r = ps"
      using assms(1) by (simp_all add: res)
    then have "rope_size t + rope_size r = pieces_size ps"
      using rope_wf_size [of h t] rope_wf_size [of h r] by (metis pieces_size_simps(3))
    then have "rope_wf (Suc h) (grow_root res)"
      using tr(1-4) assms(2) Some by (simp add: res grow_root_def RopeWidthFactor_def)
    then show ?thesis by blast
  qed
  show "rope_pieces (grow_root res) = ps"
    using assms(1) by (cases x) (auto simp: res grow_root_def)
qed

abbreviation rope_tree :: "rope_node \<Rightarrow> bool" where
  "rope_tree t \<equiv> \<exists>h. rope_wf h t"

lemma rope_split_root:
  assumes "rope_tree t" "off \<le> rope_size t"
  obtains res H' where "rope_split off t H = Some (res, H')" "rope_tree (grow_root res)"
    "rope_pieces (grow_root res) = split_pieces off (rope_pieces t)" "rope_size (grow_root res) = rope_size t"
proof -
  obtain h where h: "rope_wf h t" using assms(1) by blast
  obtain res H' where res: "rope_split off t H = Some (res, H')"
    "result_ok h (split_pieces off (rope_pieces t)) res" using rope_split_ok [OF h assms(2)] by blast
  have "pieces_size (split_pieces off (rope_pieces t)) < 2 ^ 32"
    using rope_wf_bound [OF h] rope_wf_size [OF h] by simp
  note g = grow_root_ok [OF res(2) this]
  moreover have "rope_size (grow_root res) = rope_size t"
    using g rope_wf_size [of _ "grow_root res"] rope_wf_size [OF h] by auto
  ultimately show ?thesis using that res(1) by blast
qed

lemma RopePieceBTree_insert_ok:
  assumes "rope_tree t" "off \<le> rope_size t" "0 < piece_size R" "rope_size t + piece_size R < 2 ^ 32"
  obtains t' H' ps1 ps2 where "RopePieceBTree_insert off R (t, H) = Some (t', H')" "rope_tree t'"
    "split_pieces off (rope_pieces t) = ps1 @ ps2" "pieces_size ps1 = off"
    "rope_pieces t' = ps1 @ R # ps2"
proof -
  obtain res H1 where res: "rope_split off t H = Some (res, H1)" "rope_tree (grow_root res)"
    "rope_pieces (grow_root res) = split_pieces off (rope_pieces t)" "rope_size (grow_root res) = rope_size t"
    using rope_split_root [OF assms(1,2)] by metis
  have "off \<le> pieces_size (rope_pieces t)" "nonempty_pieces (rope_pieces t)"
    using assms(1,2) rope_wf_size rope_wf_nonempty by auto
  then obtain ps1 ps2 where ps: "split_pieces off (rope_pieces t) = ps1 @ ps2" "pieces_size ps1 = off"
    by (rule split_pieces_at)
  obtain h where h: "rope_wf h (grow_root res)" using res(2) by blast
  have fit: "rope_size (grow_root res) + piece_size R < 2 ^ 32" using assms(4) res(4) by simp
  obtain res2 H2 where res2: "rope_insert off R (grow_root res) H1 = Some (res2, H2)" "result_ok h (ps1 @ R # ps2) res2"
    using rope_insert_ok [OF h res(3) [unfolded ps(1)] assms(3) fit, of H1] ps(2) by blast
  have "pieces_size (ps1 @ ps2) = rope_size t"
    using ps(1) assms(1) rope_wf_size by (metis pieces_size_split)
  then have "pieces_size (ps1 @ R # ps2) < 2 ^ 32" using assms(4) by simp
  then show ?thesis
    using that [OF _ _ ps, of "grow_root res2" H2] grow_root_ok [OF res2(2)] res(1) res2(1)
    by (simp add: RopePieceBTree_insert_def)
qed

lemma RopePieceBTree_erase_ok:
  assumes "rope_tree t" "0 < n" "off + n < rope_size t"
  obtains t' H' ps1 ps2 where "RopePieceBTree_erase off n (t, H) = Some (t', H')" "rope_tree t'"
    "split_pieces off (rope_pieces t) = ps1 @ ps2" "pieces_size ps1 = off"
    "rope_pieces t' = ps1 @ drop_bytes n ps2"
proof -
  have off: "off \<le> rope_size t" using assms(3) by simp
  obtain res H1 where res: "rope_split off t H = Some (res, H1)" "rope_tree (grow_root res)"
    "rope_pieces (grow_root res) = split_pieces off (rope_pieces t)"
    "rope_size (grow_root res) = rope_size t"
    using rope_split_root [OF assms(1) off] by metis
  have tot: "rope_size t = pieces_size (rope_pieces t)" "nonempty_pieces (rope_pieces t)"
    using assms(1) rope_wf_size rope_wf_nonempty by auto
  then obtain ps1 ps2 where ps: "split_pieces off (rope_pieces t) = ps1 @ ps2" "pieces_size ps1 = off"
    using off split_pieces_at [of off "rope_pieces t"] by metis
  have "off + pieces_size ps2 = rope_size t" using tot(1) ps by (metis pieces_size_simps(3) pieces_size_split)
  then have n: "n \<le> pieces_size ps2" using assms(3) by simp
  obtain h where h: "rope_wf h (grow_root res)" using res(2) by blast
  have "n < rope_size (grow_root res)" using assms(3) res(4) by simp
  then obtain t' H' where "rope_erase off n (grow_root res) H1 = Some (t', H')" "rope_wf h t'"
    "rope_pieces t' = ps1 @ drop_bytes n ps2"
    using erases_all [of h] h res(3) ps assms(2) n unfolding erases_def by metis
  then show ?thesis using that [OF _ _ ps] res(1) by (auto simp: RopePieceBTree_erase_def)
qed

text \<open>
  Erasing everything: a leaf root is left empty, an interior root loses all its children. The
  empty interior node is not well formed, and the tree operations are not defined on it.
\<close>

lemma erase_loop_all:
  "children_wf h cs \<Longrightarrow> sum_list (map rope_size cs) < 2 ^ 32 \<Longrightarrow>
     \<exists>H'. erase_loop 0 (sum_list (map rope_size cs)) cs H = Some ([], H')"
  by (induction cs arbitrary: H) auto

text \<open>
  C9: erasing the whole text of a tree of more than one level succeeds and leaves an interior root
  without children; the insertion that follows indexes the children array at -1, so it has no
  defined result.
\<close>

theorem RopePieceBTree_erase_all_unusable:
  assumes "rope_wf (Suc h) t"
  shows "\<exists>H'. RopePieceBTree_erase 0 (rope_size t) (t, H) = Some (RopeInterior [] 0, H') \<and>
    RopePieceBTree_insert 0 R (RopeInterior [] 0, H') = None"
proof -
  obtain cs sz where t: "t = RopeInterior cs sz" using assms by (cases t) auto
  have cs: "children_wf h cs" "sum_list (map rope_size cs) < 2 ^ 32" "cs \<noteq> []" "sz = sum_list (map rope_size cs)"
    using assms by (auto simp: t)
  obtain H' where "erase_loop 0 sz cs H = Some ([], H')" using erase_loop_all [OF cs(1,2)] cs(4) by blast
  then have "erase_skip 0 sz cs H = Some ([], H')" using cs(1,3) by (cases cs) auto
  then have "RopePieceBTree_erase 0 (rope_size t) (t, H) = Some (RopeInterior [] 0, H')"
    using cs(2,4) by (simp add: RopePieceBTree_erase_def t grow_root_def)
  then show ?thesis by (simp add: RopePieceBTree_insert_def grow_root_def)
qed

theorem RopePieceBTree_erase_all_unusable_witness:
  "\<exists>H'. RopePieceBTree_erase 0 3 (RopeInterior [RopeLeaf 0 [\<lparr>StrData = 0, StartOffs = 0, EndOffs = 3\<rparr>] 3] 3, leaf_heap_empty) =
     Some (RopeInterior [] 0, H')"
  using RopePieceBTree_erase_all_unusable
    [of 0 "RopeInterior [RopeLeaf 0 [\<lparr>StrData = 0, StartOffs = 0, EndOffs = 3\<rparr>] 3] 3" leaf_heap_empty]
  by (simp add: RopeWidthFactor_def piece_size_def pieces_size_def) blast

end
