(* ===== verification/RopeChain.thy ===== *)
theory RopeChain
  imports RopeTree
begin

text \<open>
  What the operations of \<open>RopeTree\<close> do to the list of leaves that the rope's iterator follows.
  Each is a sequence of steps on the tree's leaves and the heap: a leaf is created behind another, a
  leaf is deleted, or, when an interior node is destroyed, the leaves below it leave the tree and stay
  linked. The invariant \<open>leaf_inv\<close> says that the tree's leaves are linked in the order of the
  tree and that only abandoned leaves stand between them.
\<close>

section \<open>Steps\<close>

abbreviation leaf_ids :: "rope_node \<Rightarrow> nat list" where
  "leaf_ids t \<equiv> map fst (rope_leaves t)"

abbreviation ids_of :: "rope_node list \<Rightarrow> nat list" where
  "ids_of cs \<equiv> concat (map leaf_ids cs)"

lemma leaf_ids_interior: "leaf_ids (RopeInterior cs sz) = ids_of cs"
  by (simp add: map_concat comp_def)

text \<open>\<open>b\<close> allows leaves to be abandoned, with pieces out of \<open>S\<close>.\<close>

inductive leaf_step :: "bool \<Rightarrow> rope_piece set \<Rightarrow> nat list \<times> leaf_heap \<Rightarrow> nat list \<times> leaf_heap \<Rightarrow> bool"
  for b S where
  created: "leaf_step b S (as @ a # bs, H) (as @ a # next_leaf H # bs, leaf_after a H)"
| deleted: "leaf_step b S (as @ a # bs, H) (as @ bs, delete_leaf a H)"
| abandoned: "b \<Longrightarrow> \<forall>(x, ps) \<in> set ls. set ps \<subseteq> S \<Longrightarrow>
    leaf_step b S (as @ map fst ls @ bs, H) (as @ bs, abandon ls H)"

inductive_cases leaf_stepE: "leaf_step b S (ids, H) (ids', H')"

abbreviation leaf_steps :: "bool \<Rightarrow> rope_piece set \<Rightarrow> nat list \<times> leaf_heap \<Rightarrow> nat list \<times> leaf_heap \<Rightarrow> bool" where
  "leaf_steps b S \<equiv> (leaf_step b S)\<^sup>*\<^sup>*"

lemma leaf_step_frame:
  assumes "leaf_step b S (ids, H) (ids', H')"
  shows "leaf_step b S (us @ ids @ vs, H) (us @ ids' @ vs, H')"
  using assms
  by (elim leaf_stepE)
    (use leaf_step.created [of b S "us @ _" _ "_ @ vs"] leaf_step.deleted [of b S "us @ _" _ "_ @ vs"]
      leaf_step.abandoned [of b _ S "us @ _" "_ @ vs"] in auto)

lemma leaf_steps_frame:
  assumes "leaf_steps b S (ids, H) (ids', H')"
  shows "leaf_steps b S (us @ ids @ vs, H) (us @ ids' @ vs, H')"
  using assms
proof (induction rule: rtranclp_induct2)
  case (step ids1 H1 ids2 H2)
  then show ?case using leaf_step_frame [of b S ids1 H1 ids2 H2 us vs] by (meson rtranclp.rtrancl_into_rtrancl)
qed simp

section \<open>Splitting and inserting\<close>

fun result_ids :: "rope_node \<times> rope_node option \<Rightarrow> nat list" where
  "result_ids (t, None) = leaf_ids t"
| "result_ids (t, Some r) = leaf_ids t @ leaf_ids r"

text \<open>Nothing, or one leaf created.\<close>

definition grown :: "nat list \<Rightarrow> leaf_heap \<Rightarrow> nat list \<Rightarrow> leaf_heap \<Rightarrow> bool" where
  "grown ids H ids' H' \<longleftrightarrow> ids' = ids \<and> H' = H \<or>
     (\<exists>as a bs. ids = as @ a # bs \<and> ids' = as @ a # next_leaf H # bs \<and> H' = leaf_after a H)"

lemma grown_refl [simp]: "grown ids H ids H"
  by (simp add: grown_def)

lemma grown_frame:
  assumes "grown ids H ids' H'"
  shows "grown (us @ ids @ vs) H (us @ ids' @ vs) H'"
  using assms unfolding grown_def
proof (elim disjE exE conjE)
  fix as a bs
  assume "ids = as @ a # bs" "ids' = as @ a # next_leaf H # bs" "H' = leaf_after a H"
  then show "us @ ids' @ vs = us @ ids @ vs \<and> H' = H \<or> (\<exists>as a bs. us @ ids @ vs = as @ a # bs \<and>
      us @ ids' @ vs = as @ a # next_leaf H # bs \<and> H' = leaf_after a H)"
    by (intro disjI2 exI [of _ "us @ as"] exI [of _ a] exI [of _ "bs @ vs"]) simp
qed simp

lemma grown_steps: "grown ids H ids' H' \<Longrightarrow> leaf_steps b S (ids, H) (ids', H')"
  unfolding grown_def using leaf_step.created [of b S] by auto

lemma leaf_insert_room_ids:
  assumes "leaf_insert off R this ps sz H = Some (res, H')" "length ps \<noteq> 2 * RopeWidthFactor"
  shows "H' = H \<and> (\<exists>ps' sz'. res = (RopeLeaf this ps' sz', None))"
  using assms by (auto simp: leaf_insert.simps [of _ _ _ ps] bind_eq_Some_conv)

lemma leaf_insert_grown:
  assumes "leaf_insert off R this ps sz H = Some (res, H')"
  shows "grown [this] H (result_ids res) H'"
proof (cases "length ps = 2 * RopeWidthFactor")
  case False
  then show ?thesis using leaf_insert_room_ids [OF assms] by auto
next
  case True
  have half: "length (take RopeWidthFactor ps) \<noteq> 2 * RopeWidthFactor" "length (drop RopeWidthFactor ps) \<noteq> 2 * RopeWidthFactor"
    using True by (simp_all add: RopeWidthFactor_def)
  have new: "fst (new_leaf H) = next_leaf H" by (simp add: new_leaf_def)
  have "result_ids res = [this, next_leaf H] \<and> H' = leaf_after this H"
    using assms unfolding leaf_insert.simps [of _ _ _ ps]
    by (auto simp: True Let_def case_prod_beta new insertAfter_new_leaf bind_eq_Some_conv split: if_splits
        dest!: leaf_insert_room_ids [OF _ half(1)] leaf_insert_room_ids [OF _ half(2)])
  then show ?thesis unfolding grown_def by (metis append_Nil)
qed

lemma leaf_split_grown:
  "leaf_split off this ps sz H = Some (res, H') \<Longrightarrow> grown [this] H (result_ids res) H'"
  by (auto simp: leaf_split_def Let_def bind_eq_Some_conv split: if_splits intro: leaf_insert_grown)

lemma result_ids_HandleChildPiece:
  "result_ids (HandleChildPiece (length as) RHS (as @ c # bs) sz) = ids_of as @ leaf_ids c @ leaf_ids RHS @ ids_of bs"
proof -
  have recompute: "leaf_ids (FullRecomputeSizeLocally t) = leaf_ids t" for t by (cases t) simp_all
  have room: "HandleChildPiece (length us) RHS (us @ c # vs) z = (RopeInterior (us @ c # RHS # vs) z, None)"
    if "length (us @ c # vs) \<noteq> 2 * RopeWidthFactor" for us vs z
    using that by (subst HandleChildPiece.simps) (simp add: insert_at_Suc_append)
  note step = HandleChildPiece.simps [of "length as" RHS "as @ c # bs" sz, unfolded Let_def]
  consider "length (as @ c # bs) \<noteq> 2 * RopeWidthFactor"
    | "length (as @ c # bs) = 2 * RopeWidthFactor" "length as < RopeWidthFactor"
    | "length (as @ c # bs) = 2 * RopeWidthFactor" "length as \<ge> RopeWidthFactor" by linarith
  then show ?thesis
  proof cases
    case 1
    then show ?thesis using room [OF 1] by (simp add: leaf_ids_interior del: rope_leaves.simps)
  next
    case 2
    define n where "n = RopeWidthFactor - Suc (length as)"
    have cut: "take RopeWidthFactor (as @ c # bs) = as @ c # take n bs" "drop RopeWidthFactor (as @ c # bs) = drop n bs"
      using 2 by (simp_all add: n_def take_Cons' drop_Cons')
    have "length (as @ c # take n bs) \<noteq> 2 * RopeWidthFactor"
      using 2 by (auto simp: n_def RopeWidthFactor_def)
    moreover have "ids_of (take n bs) @ ids_of (drop n bs) = ids_of bs"
      by (metis append_take_drop_id concat_append map_append)
    ultimately show ?thesis
      unfolding step cut using 2 by (simp add: room recompute leaf_ids_interior del: rope_leaves.simps)
  next
    case 3
    have cut: "take RopeWidthFactor (as @ c # bs) = take RopeWidthFactor as"
      "drop RopeWidthFactor (as @ c # bs) = drop RopeWidthFactor as @ c # bs" using 3 by simp_all
    have "length (drop RopeWidthFactor as @ c # bs) \<noteq> 2 * RopeWidthFactor"
      "length as - RopeWidthFactor = length (drop RopeWidthFactor as)"
      using 3 by (auto simp: RopeWidthFactor_def)
    moreover have "ids_of (take RopeWidthFactor as) @ ids_of (drop RopeWidthFactor as) = ids_of as"
      by (metis append_take_drop_id concat_append map_append)
    ultimately show ?thesis
      unfolding step cut using 3 by (simp add: room recompute leaf_ids_interior del: rope_leaves.simps length_drop)
  qed
qed

text \<open>A child's step lifted to its parent.\<close>

lemma lift_grown:
  assumes "grown (leaf_ids (cs ! i)) H (result_ids res) H'" "i < length cs"
  shows "grown (ids_of cs) H (result_ids (case res of (c, None) \<Rightarrow> (RopeInterior (cs[i := c]) sz, None)
      | (c, Some RHS) \<Rightarrow> HandleChildPiece i RHS (cs[i := c]) sz)) H'"
proof -
  obtain as bs where cs: "cs = as @ cs ! i # bs" and i: "length as = i" using split_at_index [OF assms(2)] .
  have upd: "cs[i := c] = as @ c # bs" for c
    by (subst cs) (simp add: i [symmetric])
  have "grown (ids_of as @ leaf_ids (cs ! i) @ ids_of bs) H (ids_of as @ result_ids res @ ids_of bs) H'"
    using assms(1) by (rule grown_frame)
  moreover have "ids_of cs = ids_of as @ leaf_ids (cs ! i) @ ids_of bs"
    by (subst cs) simp
  moreover obtain c x where res: "res = (c, x)" by (cases res)
  have "result_ids (case res of (c, None) \<Rightarrow> (RopeInterior (cs[i := c]) sz, None)
      | (c, Some RHS) \<Rightarrow> HandleChildPiece i RHS (cs[i := c]) sz) = ids_of as @ result_ids res @ ids_of bs"
    by (cases x) (simp_all add: res upd leaf_ids_interior result_ids_HandleChildPiece [of as, unfolded i] del: rope_leaves.simps)
  ultimately show ?thesis by simp
qed

lemma rope_split_grown:
  "rope_split off t H = Some (res, H') \<Longrightarrow> grown (leaf_ids t) H (result_ids res) H'"
proof (induction off t H arbitrary: res H' rule: rope_split.induct)
  case (1 off this ps sz H)
  then show ?case by (auto dest: leaf_split_grown)
next
  case (2 off cs sz H)
  then have lim: "off \<le> sz" by simp
  show ?case
  proof (cases "off = 0 \<or> off = sz")
    case True
    then show ?thesis using 2 by auto
  next
    case False
    then obtain i co where f: "find_child_split off 0 0 cs = Some (i, co)" using 2(2) by (auto split: option.splits)
    then have i: "i < length cs" by (auto dest: find_child_split_lt)
    show ?thesis
    proof (cases "co = off")
      case True
      then show ?thesis using 2(2) False f by auto
    next
      case inside: False
      then obtain r H1 where r: "rope_split (off - co) (cs ! i) H = Some (r, H1)"
        using 2(2) False f by (auto split: option.splits)
      have "grown (leaf_ids (cs ! i)) H (result_ids r) H1" using 2(1) lim False f inside r by auto
      from lift_grown [OF this i, of sz] show ?thesis
        using 2(2) lim False f inside r by (auto simp: leaf_ids_interior simp del: rope_leaves.simps split: option.splits prod.splits)
    qed
  qed
qed

lemma rope_insert_grown:
  "rope_insert off R t H = Some (res, H') \<Longrightarrow> grown (leaf_ids t) H (result_ids res) H'"
proof (induction off R t H arbitrary: res H' rule: rope_insert.induct)
  case (1 off R this ps sz H)
  then show ?case by (auto dest: leaf_insert_grown)
next
  case (2 off R cs sz H)
  let ?f = "if off = sz then (if cs = [] then None else Some (length cs - 1, sz - rope_size (last cs)))
    else find_child_insert off 0 0 cs"
  have lim: "off \<le> sz" using 2(2) by simp
  then obtain i co where f: "?f = Some (i, co)" using 2(2) by (cases ?f) auto
  then have i: "i < length cs" by (auto dest: find_child_insert_lt split: if_splits)
  obtain r H1 where r: "rope_insert (off - co) R (cs ! i) H = Some (r, H1)"
    using 2(2) f lim by (auto simp del: if_split split: option.splits)
  have "grown (leaf_ids (cs ! i)) H (result_ids r) H1"
    using 2(1) [OF _ f refl r] lim by simp
  from lift_grown [OF this i, of "wrap32 (sz + piece_size R)"] show ?case
    using 2(2) lim r unfolding rope_insert.simps f
    by (auto simp: leaf_ids_interior simp del: rope_leaves.simps split: option.splits prod.splits)
qed

lemma leaf_ids_grow_root [simp]: "leaf_ids (grow_root res) = result_ids res"
  by (cases res rule: result_ids.cases) (simp_all add: grow_root_def)

lemma RopePieceBTree_insert_steps:
  assumes "RopePieceBTree_insert off R (t, H) = Some (t', H')"
  shows "leaf_steps b S (leaf_ids t, H) (leaf_ids t', H')"
proof -
  obtain res H1 res2 where *: "rope_split off t H = Some (res, H1)"
    "rope_insert off R (grow_root res) H1 = Some (res2, H')" "t' = grow_root res2"
    using assms by (auto simp: RopePieceBTree_insert_def bind_eq_Some_conv)
  have "leaf_steps b S (leaf_ids t, H) (result_ids res, H1)"
    by (rule grown_steps [OF rope_split_grown [OF *(1)]])
  moreover have "leaf_steps b S (result_ids res, H1) (leaf_ids t', H')"
    using grown_steps [OF rope_insert_grown [OF *(2)]] by (simp add: *(3))
  ultimately show ?thesis by (rule rtranclp_trans)
qed

section \<open>Erasing\<close>

text \<open>
  An interior node below \<open>t\<close> that lies wholly in the range from \<open>lo\<close> to \<open>hi\<close>:
  erasing the range destroys it, and abandons the leaves below it.
\<close>

fun isLeaf :: "rope_node \<Rightarrow> bool" where
  "isLeaf (RopeLeaf _ _ _) = True"
| "isLeaf (RopeInterior _ _) = False"

fun interior_inside :: "nat \<Rightarrow> nat \<Rightarrow> rope_node \<Rightarrow> bool"
  and child_inside :: "nat \<Rightarrow> nat \<Rightarrow> rope_node list \<Rightarrow> bool" where
  "interior_inside lo hi (RopeLeaf _ _ _) = False"
| "interior_inside lo hi (RopeInterior cs _) = child_inside lo hi cs"
| "child_inside lo hi [] = False"
| "child_inside lo hi (c # cs) =
     (lo = 0 \<and> rope_size c \<le> hi \<and> \<not> isLeaf c \<or> interior_inside lo hi c \<or>
      child_inside (lo - rope_size c) (hi - rope_size c) cs)"

lemma inside_mono:
  "interior_inside lo hi t \<Longrightarrow> hi \<le> hi' \<Longrightarrow> interior_inside lo hi' t"
  "child_inside lo hi cs \<Longrightarrow> hi \<le> hi' \<Longrightarrow> child_inside lo hi' cs"
proof (induction lo hi t and lo hi cs arbitrary: hi' and hi' rule: interior_inside_child_inside.induct)
  case (4 lo hi c cs)
  then have "hi - rope_size c \<le> hi' - rope_size c" by simp
  then show ?case using 4 by auto
qed auto

text \<open>A tree of at most two levels has no interior node below its root.\<close>

lemma two_levels_inside: "rope_wf h t \<Longrightarrow> h \<le> 1 \<Longrightarrow> \<not> interior_inside lo hi t"
proof (cases t)
  case (RopeInterior cs sz)
  assume "rope_wf h t" "h \<le> 1"
  then have "\<forall>c \<in> set cs. rope_wf 0 c" by (cases h) (auto simp: RopeInterior)
  moreover have "rope_wf 0 c \<Longrightarrow> isLeaf c" for c by (cases c) auto
  ultimately have "\<forall>c \<in> set cs. isLeaf c" by blast
  then have "\<not> child_inside lo hi cs" for lo hi
  proof (induction cs arbitrary: lo hi)
    case (Cons c cs)
    then show ?case by (cases c) auto
  qed simp
  then show ?thesis by (simp add: RopeInterior)
qed simp

lemma pieces_of_leaves: "concat (map snd (rope_leaves t)) = rope_pieces t"
proof (induction t)
  case (RopeInterior cs sz)
  then show ?case by (induction cs) auto
qed simp

lemma Destroy_step:
  assumes "set (rope_pieces c) \<subseteq> S" "\<not> isLeaf c \<Longrightarrow> b"
  shows "leaf_step b S (leaf_ids c @ vs, H) (vs, rope_Destroy c H)"
proof (cases c)
  case (RopeLeaf this ps sz)
  then show ?thesis using leaf_step.deleted [of b S "[]" this vs H] by simp
next
  case (RopeInterior cs sz)
  have "\<forall>(x, ps) \<in> set (rope_leaves c). set ps \<subseteq> set (rope_pieces c)"
    unfolding pieces_of_leaves [symmetric] by force
  then have "\<forall>(x, ps) \<in> set (rope_leaves c). set ps \<subseteq> S" using assms(1) by blast
  then show ?thesis
    using leaf_step.abandoned [of b "rope_leaves c" S "[]" vs H] assms(2) RopeInterior by (simp del: rope_leaves.simps)
qed

lemma steps_child:
  assumes "leaf_steps b S (leaf_ids c, H) (leaf_ids c', H')"
  shows "leaf_steps b S (ids_of (c # cs), H) (ids_of (c' # cs), H')"
  using leaf_steps_frame [OF assms, of "[]" "ids_of cs"] by simp

lemma steps_tail:
  assumes "leaf_steps b S (ids_of cs, H) (ids_of cs', H')"
  shows "leaf_steps b S (ids_of (c # cs), H) (ids_of (c # cs'), H')"
  using leaf_steps_frame [OF assms, of "leaf_ids c" "[]"] by simp

lemma leaf_ids_erase: "leaf_erase off n this ps sz = Some t \<Longrightarrow> leaf_ids t = [this]"
  by (auto simp: leaf_erase_def Let_def bind_eq_Some_conv split: if_splits)

lemma erase_steps:
  "rope_erase off n t H = Some (t', H') \<Longrightarrow> rope_wf h t \<Longrightarrow> 0 < n \<Longrightarrow> off + n \<le> rope_size t \<Longrightarrow>
     set (rope_pieces t) \<subseteq> S \<Longrightarrow> (interior_inside off (off + n) t \<Longrightarrow> b) \<Longrightarrow>
     leaf_steps b S (leaf_ids t, H) (leaf_ids t', H')"
  "erase_skip off n cs H = Some (cs', H') \<Longrightarrow> children_wf h cs \<Longrightarrow> sum_list (map rope_size cs) < 2 ^ 32 \<Longrightarrow>
     0 < n \<Longrightarrow> off + n \<le> sum_list (map rope_size cs) \<Longrightarrow> set (pieces_of cs) \<subseteq> S \<Longrightarrow>
     (child_inside off (off + n) cs \<Longrightarrow> b) \<Longrightarrow> leaf_steps b S (ids_of cs, H) (ids_of cs', H')"
  "erase_loop off n cs H = Some (cs', H') \<Longrightarrow> children_wf h cs \<Longrightarrow> sum_list (map rope_size cs) < 2 ^ 32 \<Longrightarrow>
     cs = [] \<or> off < rope_size (hd cs) \<Longrightarrow> off + n \<le> sum_list (map rope_size cs) \<Longrightarrow> set (pieces_of cs) \<subseteq> S \<Longrightarrow>
     (child_inside off (off + n) cs \<Longrightarrow> b) \<Longrightarrow> leaf_steps b S (ids_of cs, H) (ids_of cs', H')"
proof (induction off n t H and off n cs H and off n cs H arbitrary: h t' H' and h cs' H' and h cs' H'
    rule: rope_erase_erase_skip_erase_loop.induct)
  case (1 off n this ps sz H)
  then show ?case by (auto dest: leaf_ids_erase)
next
  case (2 off n cs sz H)
  then obtain k where h: "h = Suc k" by (cases h) auto
  obtain cs1 where cs1: "erase_skip off n cs H = Some (cs1, H')" "t' = RopeInterior cs1 (sz - n)" using 2(2) by auto
  have "wrap32 (off + n) \<le> sz" using 2(2) by simp
  then have "asserting (wrap32 (off + n) \<le> sz) = Some ()" by simp
  then show ?case
    using 2(1) [OF _ cs1(1), of "()" k] 2(3-) cs1(2) by (simp add: h leaf_ids_interior del: rope_leaves.simps)
next
  case (4 off n c cs H)
  show ?case
  proof (cases "off \<ge> rope_size c")
    case True
    then obtain cs1 where cs1: "erase_skip (off - rope_size c) n cs H = Some (cs1, H')" "cs' = c # cs1"
      using 4(3) by auto
    have "leaf_steps b S (ids_of cs, H) (ids_of cs1, H')"
      using 4(1) [OF True cs1(1), of h] 4(4-) True by simp
    then show ?thesis unfolding cs1(2) by (rule steps_tail)
  next
    case False
    then have "erase_loop off n (c # cs) H = Some (cs', H')" using 4(3) by simp
    from 4(2) [OF False this 4(4,5) _ 4(7,8,9)] show ?thesis using False by simp
  qed
next
  case (6 off n c cs H)
  have wf: "rope_wf h c" "children_wf h cs" "sum_list (map rope_size cs) < 2 ^ 32" "set (rope_pieces c) \<subseteq> S"
    "set (pieces_of cs) \<subseteq> S" "off < rope_size c" "off + n < 2 ^ 32" "off + n \<le> rope_size c + sum_list (map rope_size cs)"
    using 6(6-11) by auto
  have w: "wrap32 (off + n) = off + n" using wf(7) by simp
  have first: "cs = [] \<or> 0 < rope_size (hd cs)" using wf(2) by (cases cs) auto
  consider "n = 0" | "n \<noteq> 0" "off + n < rope_size c" | "n \<noteq> 0" "\<not> off + n < rope_size c" "off \<noteq> 0"
    | "n \<noteq> 0" "\<not> off + n < rope_size c" "off = 0" by blast
  then show ?case
  proof cases
    case 1
    then show ?thesis using 6(5) by simp
  next
    case 2
    then obtain c' where c': "rope_erase off n c H = Some (c', H')" "cs' = c' # cs"
      using 6(5) by (auto simp: w)
    have "leaf_steps b S (leaf_ids c, H) (leaf_ids c', H')"
      using 6(1) [OF 2(1) _ c'(1) wf(1)] 2 wf 6(11) by (simp add: w)
    then show ?thesis unfolding c'(2) by (rule steps_child)
  next
    case 3
    let ?m = "rope_size c - off"
    obtain c' H1 cs1 where c': "rope_erase off ?m c H = Some (c', H1)"
      "erase_loop 0 (n - ?m) cs H1 = Some (cs1, H')" "cs' = c' # cs1"
      using 3 6(5) by (auto simp: w Let_def split: option.splits)
    have m: "0 < ?m" "off + ?m = rope_size c" using wf(6) by auto
    have "interior_inside off (rope_size c) c \<Longrightarrow> b"
      using inside_mono(1) [of off "rope_size c" c "off + n"] 3 6(11) by auto
    then have "leaf_steps b S (leaf_ids c, H) (leaf_ids c', H1)"
      using 6(2) [OF 3(1) _ 3(3) refl c'(1) wf(1)] 3 wf m by (simp add: w)
    then have "leaf_steps b S (ids_of (c # cs), H) (ids_of (c' # cs), H1)" by (rule steps_child)
    moreover have "child_inside 0 (n - ?m) cs \<Longrightarrow> b" using 6(11) wf(6) 3 by (simp add: add.commute)
    then have "leaf_steps b S (ids_of cs, H1) (ids_of cs1, H')"
      using 6(3) [OF 3(1) _ 3(3) refl c'(1) refl c'(2) wf(2,3)] 3 wf first by (auto simp: w)
    then have "leaf_steps b S (ids_of (c' # cs), H1) (ids_of (c' # cs1), H')" by (rule steps_tail)
    ultimately show ?thesis unfolding c'(3) by (rule rtranclp_trans)
  next
    case 4
    have "leaf_step b S (leaf_ids c @ ids_of cs, H) (ids_of cs, rope_Destroy c H)"
      using 4 6(11) by (intro Destroy_step [OF wf(4)]) auto
    moreover have loop: "erase_loop 0 (n - rope_size c) cs (rope_Destroy c H) = Some (cs', H')"
      using 4 6(5) w by simp
    have "leaf_steps b S (ids_of cs, rope_Destroy c H) (ids_of cs', H')"
      using 6(4) [OF 4(1) _ _ loop wf(2,3)] 4 wf first 6(11) by (auto simp: w)
    ultimately show ?thesis by simp
  qed
qed auto

lemma RopePieceBTree_erase_steps:
  assumes "RopePieceBTree_erase off n (t, H) = Some (t', H')" "rope_tree t" "0 < n" "off + n \<le> rope_size t"
    "set (split_pieces off (rope_pieces t)) \<subseteq> S"
    "\<And>res H1. rope_split off t H = Some (res, H1) \<Longrightarrow> interior_inside off (off + n) (grow_root res) \<Longrightarrow> b"
  shows "leaf_steps b S (leaf_ids t, H) (leaf_ids t', H')"
proof -
  have off: "off \<le> rope_size t" using assms(4) by simp
  obtain res H1 where res: "rope_split off t H = Some (res, H1)" "rope_tree (grow_root res)"
    "rope_pieces (grow_root res) = split_pieces off (rope_pieces t)" "rope_size (grow_root res) = rope_size t"
    using rope_split_root [OF assms(2) off] by metis
  obtain h where h: "rope_wf h (grow_root res)" using res(2) by blast
  have er: "rope_erase off n (grow_root res) H1 = Some (t', H')"
    using assms(1) res(1) by (simp add: RopePieceBTree_erase_def)
  have "leaf_steps b S (leaf_ids t, H) (result_ids res, H1)"
    by (rule grown_steps [OF rope_split_grown [OF res(1)]])
  moreover have "leaf_steps b S (leaf_ids (grow_root res), H1) (leaf_ids t', H')"
    using assms(4,5) res(3,4) by (intro erase_steps(1) [OF er h assms(3)]) (auto intro: assms(6) [OF res(1)])
  ultimately show ?thesis by (simp add: rtranclp_trans [of "leaf_step b S"])
qed

section \<open>The invariant\<close>

text \<open>
  \<open>xs\<close> are all leaves in the order of their links. The tree's leaves are among them, in the
  tree's order; the others are abandoned leaves with pieces in \<open>S\<close>.
\<close>

definition leaf_inv :: "rope_piece set \<Rightarrow> leaf_heap \<Rightarrow> nat list \<Rightarrow> nat list \<Rightarrow> bool" where
  "leaf_inv S H ids xs \<longleftrightarrow> leaf_order H xs \<and> filter (\<lambda>x. x \<in> set ids) xs = ids \<and>
     (\<forall>x \<in> set xs - set ids. \<exists>ps. Abandoned H x = Some ps \<and> set ps \<subseteq> S)"

text \<open>No abandoned leaf stands behind the tree's first leaf.\<close>

definition leaves_linked :: "leaf_heap \<Rightarrow> nat list \<Rightarrow> bool" where
  "leaves_linked H ids \<longleftrightarrow> follows (NextLeaf H) (first_of ids None) ids"

lemma leaf_inv_split:
  assumes "leaf_inv S H (as @ a # bs) xs"
  obtains us vs where "xs = us @ a # vs" "filter (\<lambda>x. x \<in> set (as @ a # bs)) us = as"
    "filter (\<lambda>x. x \<in> set (as @ a # bs)) vs = bs" "distinct (us @ a # vs)"
proof -
  let ?P = "\<lambda>x. x \<in> set (as @ a # bs)"
  have x: "filter ?P xs = as @ a # bs" "distinct xs" using assms by (simp_all add: leaf_inv_def leaf_order_def)
  then have d: "distinct (as @ a # bs)" by (metis distinct_filter)
  have "a \<in> set (filter ?P xs)" unfolding x(1) by simp
  then obtain us vs where xs: "xs = us @ a # vs" by (auto dest: split_list)
  have eq: "filter ?P us @ a # filter ?P vs = as @ a # bs" using x(1) by (simp add: xs)
  have "a \<notin> set (filter ?P us)" "a \<notin> set (filter ?P vs)" using x(2) by (auto simp: xs)
  then have "filter ?P us = as \<and> filter ?P vs = bs" using eq d by (metis append_Cons_eq_iff not_distinct_conv_prefix)
  then show ?thesis using that [OF xs] x(2) by (simp add: xs)
qed

lemma leaf_step_inv:
  assumes "leaf_step b S (ids, H) (ids', H')" "leaf_inv S H ids xs"
  shows "\<exists>xs'. leaf_inv S H' ids' xs'"
  using assms(1)
proof (cases rule: leaf_step.cases)
  case (created as a bs)
  then have inv: "leaf_inv S H (as @ a # bs) xs" and eq: "ids = as @ a # bs" "ids' = as @ a # next_leaf H # bs" "H' = leaf_after a H"
    using assms(2) by auto
  obtain us vs where xs: "xs = us @ a # vs" "filter (\<lambda>x. x \<in> set (as @ a # bs)) us = as"
    "filter (\<lambda>x. x \<in> set (as @ a # bs)) vs = bs" "distinct (us @ a # vs)" by (rule leaf_inv_split [OF inv])
  have new: "next_leaf H \<notin> set xs" using inv by (auto simp: leaf_inv_def leaf_order_def)
  have same: "filter (\<lambda>x. x \<in> set ids') ys = filter (\<lambda>x. x \<in> set (as @ a # bs)) ys" if "set ys \<subseteq> set xs" for ys
    using that new by (intro filter_cong) (auto simp: eq)
  have sub: "set us \<subseteq> set xs" "set vs \<subseteq> set xs" using xs(1) by auto
  have "filter (\<lambda>x. x \<in> set ids') (us @ a # next_leaf H # vs) = ids'"
    unfolding filter_append filter.simps same [OF sub(1)] same [OF sub(2)] xs(2,3) by (simp add: eq)
  then have "leaf_inv S H' ids' (us @ a # next_leaf H # vs)"
    using inv leaf_after_order [of H us a vs] xs(1) by (auto simp: leaf_inv_def eq)
  then show ?thesis by blast
next
  case (deleted as a bs)
  then have inv: "leaf_inv S H (as @ a # bs) xs" and eq: "ids = as @ a # bs" "ids' = as @ bs" "H' = delete_leaf a H"
    using assms(2) by auto
  obtain us vs where xs: "xs = us @ a # vs" "filter (\<lambda>x. x \<in> set (as @ a # bs)) us = as"
    "filter (\<lambda>x. x \<in> set (as @ a # bs)) vs = bs" "distinct (us @ a # vs)" by (rule leaf_inv_split [OF inv])
  have same: "filter (\<lambda>x. x \<in> set ids') ys = filter (\<lambda>x. x \<in> set (as @ a # bs)) ys" if "a \<notin> set ys" for ys
    using that by (intro filter_cong) (auto simp: eq)
  have "filter (\<lambda>x. x \<in> set ids') (us @ vs) = ids'" using same [of us] same [of vs] xs by (simp add: eq)
  then have "leaf_inv S H' ids' (us @ vs)"
    using inv delete_leaf_order [of H us a vs] xs(1,4) by (auto simp: leaf_inv_def eq)
  then show ?thesis by blast
next
  case (abandoned ls as bs)
  then have inv: "leaf_inv S H (as @ map fst ls @ bs) xs" and eq: "ids = as @ map fst ls @ bs" "ids' = as @ bs" "H' = abandon ls H"
    and S: "\<forall>(x, ps) \<in> set ls. set ps \<subseteq> S"
    using assms(2) by auto
  have f: "filter (\<lambda>x. x \<in> set ids) xs = ids" and d: "distinct xs"
    using inv by (simp_all add: leaf_inv_def leaf_order_def eq)
  have "distinct ids" using d f by (metis distinct_filter)
  then have "filter (\<lambda>x. x \<in> set ids') ids = ids'"
    by (auto simp: eq filter_empty_conv intro!: filter_True)
  moreover have "filter (\<lambda>x. x \<in> set ids') xs = filter (\<lambda>x. x \<in> set ids') (filter (\<lambda>x. x \<in> set ids) xs)"
    by (auto simp: eq intro: filter_cong)
  ultimately have f': "filter (\<lambda>x. x \<in> set ids') xs = ids'" by (simp add: f)
  have "\<exists>ps. Abandoned H' x = Some ps \<and> set ps \<subseteq> S" if x: "x \<in> set xs - set ids'" for x
  proof (cases "x \<in> set ids")
    case True
    then have "x \<in> fst ` set ls" using x by (auto simp: eq)
    then obtain ps where ps: "map_of ls x = Some ps" by (metis map_of_eq_None_iff not_None_eq)
    then show ?thesis using S map_of_SomeD [OF ps] by (auto simp: eq abandon_def)
  next
    case False
    then have "map_of ls x = None" by (auto simp: eq map_of_eq_None_iff)
    moreover have "\<exists>ps. Abandoned H x = Some ps \<and> set ps \<subseteq> S"
      using False x assms(2) unfolding leaf_inv_def by blast
    ultimately show ?thesis by (simp add: eq abandon_def map_add_def)
  qed
  then have "leaf_inv S H' ids' xs" using inv f' by (simp add: leaf_inv_def eq)
  then show ?thesis by blast
qed

lemma leaf_steps_inv:
  assumes "leaf_steps b S (ids, H) (ids', H')" "\<exists>xs. leaf_inv S H ids xs"
  shows "\<exists>xs'. leaf_inv S H' ids' xs'"
  using assms
proof (induction rule: rtranclp_induct2)
  case (step ids1 H1 ids2 H2)
  then show ?case using leaf_step_inv by blast
qed simp

text \<open>As long as no leaf is abandoned, the leaves linked from the first on are the tree's.\<close>

lemma leaves_linked_order:
  assumes "leaf_inv S H ids xs" "leaves_linked H ids"
  obtains us where "leaf_order H (us @ ids)"
proof (cases ids)
  case Nil
  then show ?thesis using assms(1) that [of xs] by (simp add: leaf_inv_def)
next
  case (Cons a bs)
  then have "leaf_inv S H ([] @ a # bs) xs" using assms(1) by simp
  then obtain us vs where xs: "xs = us @ a # vs" by (rule leaf_inv_split)
  have "leaf_order H (us @ a # vs)" using assms(1) by (simp add: leaf_inv_def xs)
  moreover have "follows (NextLeaf H) (Some a) ids" using assms(2) by (simp add: leaves_linked_def Cons)
  ultimately have "a # vs = ids" using follows_unique follows_order by metis
  moreover note \<open>leaf_order H (us @ a # vs)\<close>
  ultimately show ?thesis using that by metis
qed

lemma leaf_order_linked: "leaf_order H (us @ ids) \<Longrightarrow> leaves_linked H ids"
  using follows_order [of H us] follows_linked by (cases ids) (auto simp: leaves_linked_def)

lemma leaf_steps_order:
  assumes "leaf_steps False S (ids, H) (ids', H')" "leaf_order H (us @ ids)"
  shows "leaf_order H' (us @ ids')"
  using assms
proof (induction rule: rtranclp_induct2)
  case (step ids1 H1 ids2 H2)
  then have "leaf_order H1 (us @ ids1)" by blast
  from step(2) this show ?case
    by (elim leaf_stepE) (use leaf_after_order [of H1 "us @ _"] delete_leaf_order [of H1 "us @ _"] in auto)
qed simp

lemma leaf_steps_linked:
  assumes "leaf_steps False S (ids, H) (ids', H')" "\<exists>xs. leaf_inv S H ids xs" "leaves_linked H ids"
  shows "leaves_linked H' ids'"
  using assms leaves_linked_order leaf_steps_order leaf_order_linked by metis

end
