(* ===== verification/RewriteRope.thy ===== *)
theory RewriteRope
  imports RopeChain
begin

text \<open>
  \<^verbatim>\<open>RewriteRope\<close> and its iterator (\<^verbatim>\<open>lib/Rewrite/RewriteRope.cpp\<close>,
  \<^verbatim>\<open>include/clang/Rewrite/RewriteRope.h\<close>): the tree of pieces together with the store
  \<open>strings\<close> of string chunks, indexed by their number. Small strings share the allocation
  buffer, so the store makes the aliasing between pieces and later writes explicit. The reference
  counts, which only decide when a chunk is freed, are not modelled. An iterator points into a leaf
  and goes from leaf to leaf through \<^verbatim>\<open>NextLeaf\<close>, as the code's does.

  The abstract value of a rope is its text, \<open>rope_text\<close>, the pieces below the root; the lemmas
  show that \<open>assign\<close>, \<open>insert\<close> and \<open>erase\<close> act on it as the list operations do.
  Iterating from \<open>begin\<close> reads the leaves that are linked: that is the text as long as no
  erasure destroyed an interior node (\<open>rope_linked\<close>), and erased text too once one did.
\<close>

section \<open>The rope\<close>

record rope =
  Chunks :: rope_node
  Leaves :: leaf_heap
  AllocBuffer :: "nat option"
  AllocOffs :: nat
  strings :: "nat \<Rightarrow> char list"
  next_string :: nat

definition AllocChunkSize :: nat where
  "AllocChunkSize = 4080"

text \<open>\<open>sizeof\<close> of the reference counted string, whose data starts at its fifth byte.\<close>

definition sizeof_RopeRefCountString :: nat where
  "sizeof_RopeRefCountString = 8"

definition RewriteRope_empty :: rope where
  "RewriteRope_empty = (let (t, H) = RopePieceBTree_empty leaf_heap_empty
     in \<lparr>Chunks = t, Leaves = H, AllocBuffer = None,
         AllocOffs = AllocChunkSize, strings = (\<lambda>_. []), next_string = 0\<rparr>)"

definition set_tree :: "rope_node \<times> leaf_heap \<Rightarrow> rope \<Rightarrow> rope" where
  "set_tree T r = r\<lparr>Chunks := fst T, Leaves := snd T\<rparr>"

text \<open>\<open>memcpy\<close> to an offset of a chunk's data.\<close>

definition write_at :: "nat \<Rightarrow> char list \<Rightarrow> char list \<Rightarrow> char list" where
  "write_at offs s data = take offs data @ s @ drop (offs + length s) data"

text \<open>
  The new string's length is an \<open>unsigned\<close>, and so are the offset behind it in the shared chunk
  and the size of an allocation of its own; a copy that does not fit is undefined.
\<close>

definition MakeRopeString :: "char list \<Rightarrow> rope \<Rightarrow> (rope_piece \<times> rope) option" where
  "MakeRopeString s r = do {
     let Len = wrap32 (length s);
     asserting (Len \<noteq> 0);
     if wrap32 (AllocOffs r + Len) \<le> AllocChunkSize
     then (case AllocBuffer r of
         None \<Rightarrow> None
       | Some b \<Rightarrow> do {
           asserting (AllocOffs r + Len \<le> AllocChunkSize);
           Some (\<lparr>StrData = b, StartOffs = AllocOffs r, EndOffs = AllocOffs r + Len\<rparr>,
             r\<lparr>strings := (strings r)(b := write_at (AllocOffs r) (take Len s) (strings r b)),
               AllocOffs := AllocOffs r + Len\<rparr>) })
     else
       let n = next_string r;
           p = \<lparr>StrData = n, StartOffs = 0, EndOffs = Len\<rparr>
       in if Len > AllocChunkSize
          then do {
            let Size = wrap32 (length s + sizeof_RopeRefCountString - 1);
            asserting (4 + length s \<le> Size);
            Some (p, r\<lparr>strings := (strings r)(n := s), next_string := Suc n\<rparr>) }
          else Some (p, r\<lparr>strings := (strings r)(n := take Len s), next_string := Suc n,
            AllocBuffer := Some n, AllocOffs := Len\<rparr>) }"

definition rope_clear :: "rope \<Rightarrow> rope" where
  "rope_clear r = set_tree (RopePieceBTree_clear (Chunks r, Leaves r)) r"

definition RewriteRope_size :: "rope \<Rightarrow> nat" where
  "RewriteRope_size r = rope_size (Chunks r)"

definition RewriteRope_assign :: "char list \<Rightarrow> rope \<Rightarrow> rope option" where
  "RewriteRope_assign s r0 =
     (let r = rope_clear r0
      in if s = [] then Some r
         else do {
           (R, r') \<leftarrow> MakeRopeString s r;
           T \<leftarrow> RopePieceBTree_insert 0 R (Chunks r', Leaves r');
           Some (set_tree T r') })"

definition RewriteRope_insert :: "nat \<Rightarrow> char list \<Rightarrow> rope \<Rightarrow> rope option" where
  "RewriteRope_insert Offset s r = do {
     asserting (Offset \<le> RewriteRope_size r);
     if s = [] then Some r
     else do {
       (R, r') \<leftarrow> MakeRopeString s r;
       T \<leftarrow> RopePieceBTree_insert Offset R (Chunks r', Leaves r');
       Some (set_tree T r') } }"

definition RewriteRope_erase :: "nat \<Rightarrow> nat \<Rightarrow> rope \<Rightarrow> rope option" where
  "RewriteRope_erase Offset NumBytes r = do {
     asserting (wrap32 (Offset + NumBytes) \<le> RewriteRope_size r);
     if NumBytes = 0 then Some r
     else do {
       T \<leftarrow> RopePieceBTree_erase Offset NumBytes (Chunks r, Leaves r);
       Some (set_tree T r) } }"

section \<open>Iteration\<close>

text \<open>
  The pieces of the leaf at an address, whether it is still in the tree or was abandoned;
  \<open>None\<close> is memory that was freed.
\<close>

definition leaf_pieces :: "rope \<Rightarrow> nat \<Rightarrow> rope_piece list option" where
  "leaf_pieces r x = (case map_of (rope_leaves (Chunks r)) x of
     Some ps \<Rightarrow> Some ps
   | None \<Rightarrow> Abandoned (Leaves r) x)"

text \<open>An iterator that is not \<open>end()\<close> stands on a byte of a piece of a leaf.\<close>

record rope_iterator =
  CurNode :: nat
  CurPiece :: nat
  CurChar :: nat

text \<open>The walk down the left side; an interior node without children has none.\<close>

fun leftmost_leaf :: "rope_node \<Rightarrow> nat option" where
  "leftmost_leaf (RopeLeaf this _ _) = Some this"
| "leftmost_leaf (RopeInterior [] _) = None"
| "leftmost_leaf (RopeInterior (c # cs) _) = leftmost_leaf c"

partial_function (option) next_nonempty_leaf :: "rope \<Rightarrow> nat option \<Rightarrow> rope_iterator option option" where
  "next_nonempty_leaf r node = (case node of
     None \<Rightarrow> Some None
   | Some x \<Rightarrow> do {
       ps \<leftarrow> leaf_pieces r x;
       if ps = [] then next_nonempty_leaf r (NextLeaf (Leaves r) x)
       else Some (Some \<lparr>CurNode = x, CurPiece = 0, CurChar = 0\<rparr>) })"

definition rope_begin :: "rope \<Rightarrow> rope_iterator option option" where
  "rope_begin r = do { x \<leftarrow> leftmost_leaf (Chunks r); next_nonempty_leaf r (Some x) }"

definition MoveToNextPiece :: "rope \<Rightarrow> rope_iterator \<Rightarrow> rope_iterator option option" where
  "MoveToNextPiece r it = do {
     ps \<leftarrow> leaf_pieces r (CurNode it);
     if CurPiece it \<noteq> length ps - 1
     then Some (Some (it\<lparr>CurPiece := CurPiece it + 1, CurChar := 0\<rparr>))
     else next_nonempty_leaf r (NextLeaf (Leaves r) (CurNode it)) }"

definition current_piece :: "rope \<Rightarrow> rope_iterator \<Rightarrow> rope_piece option" where
  "current_piece r it = do {
     ps \<leftarrow> leaf_pieces r (CurNode it);
     asserting (CurPiece it < length ps);
     Some (ps ! CurPiece it) }"

definition rope_advance :: "rope \<Rightarrow> rope_iterator \<Rightarrow> rope_iterator option option" where
  "rope_advance r it = do {
     p \<leftarrow> current_piece r it;
     if CurChar it + 1 < piece_size p
     then Some (Some (it\<lparr>CurChar := CurChar it + 1\<rparr>))
     else MoveToNextPiece r it }"

definition rope_deref :: "rope \<Rightarrow> rope_iterator \<Rightarrow> char option" where
  "rope_deref r it = do {
     p \<leftarrow> current_piece r it;
     let i = CurChar it + StartOffs p;
     asserting (i < length (strings r (StrData p)));
     Some (strings r (StrData p) ! i) }"

text \<open>Reading from an iterator to the end, with a bound on the number of steps.\<close>

fun rope_read :: "nat \<Rightarrow> rope \<Rightarrow> rope_iterator option \<Rightarrow> char list option" where
  "rope_read fuel r None = Some []"
| "rope_read 0 r (Some it) = None"
| "rope_read (Suc fuel) r (Some it) = do {
     c \<leftarrow> rope_deref r it;
     it' \<leftarrow> rope_advance r it;
     map_option ((#) c) (rope_read fuel r it') }"

section \<open>The text of a rope\<close>

definition piece_bytes :: "(nat \<Rightarrow> char list) \<Rightarrow> rope_piece \<Rightarrow> char list" where
  "piece_bytes st p = take (piece_size p) (drop (StartOffs p) (st (StrData p)))"

definition pieces_bytes :: "(nat \<Rightarrow> char list) \<Rightarrow> rope_piece list \<Rightarrow> char list" where
  "pieces_bytes st ps = concat (map (piece_bytes st) ps)"

definition rope_text :: "rope \<Rightarrow> char list" where
  "rope_text r = pieces_bytes (strings r) (rope_pieces (Chunks r))"

definition piece_valid :: "rope \<Rightarrow> rope_piece \<Rightarrow> bool" where
  "piece_valid r p \<longleftrightarrow> StrData p < next_string r \<and> EndOffs p \<le> length (strings r (StrData p))"

text \<open>The allocation buffer is filled up to \<open>AllocOffs\<close>; before the first one, no offset fits.\<close>

definition alloc_inv :: "rope \<Rightarrow> bool" where
  "alloc_inv r \<longleftrightarrow> AllocOffs r \<le> AllocChunkSize \<and>
     (case AllocBuffer r of
        None \<Rightarrow> AllocOffs r = AllocChunkSize
      | Some b \<Rightarrow> b < next_string r \<and> length (strings r b) = AllocOffs r)"

text \<open>What an abandoned leaf holds: pieces that were in the tree.\<close>

definition readable :: "rope \<Rightarrow> rope_piece set" where
  "readable r = {p. piece_valid r p \<and> 0 < piece_size p}"

definition rope_inv :: "rope \<Rightarrow> bool" where
  "rope_inv r \<longleftrightarrow> rope_tree (Chunks r) \<and> (\<forall>p \<in> set (rope_pieces (Chunks r)). piece_valid r p) \<and> alloc_inv r \<and>
     (\<exists>xs. leaf_inv (readable r) (Leaves r) (leaf_ids (Chunks r)) xs)"

text \<open>From the first leaf on, exactly the leaves of the tree are linked.\<close>

definition rope_linked :: "rope \<Rightarrow> bool" where
  "rope_linked r = leaves_linked (Leaves r) (leaf_ids (Chunks r))"

text \<open>Erasing the range destroys an interior node of the tree.\<close>

definition erases_interior :: "nat \<Rightarrow> nat \<Rightarrow> rope \<Rightarrow> bool" where
  "erases_interior off n r = (case rope_split off (Chunks r) (Leaves r) of
     None \<Rightarrow> False
   | Some (res, _) \<Rightarrow> interior_inside off (off + n) (grow_root res))"

lemma pieces_bytes_simps [simp]:
  "pieces_bytes st [] = []" "pieces_bytes st (p # ps) = piece_bytes st p @ pieces_bytes st ps"
  "pieces_bytes st (ps @ qs) = pieces_bytes st ps @ pieces_bytes st qs"
  by (simp_all add: pieces_bytes_def)

lemma piece_valid_cut [simp]:
  "0 < n \<Longrightarrow> n \<le> piece_size p \<Longrightarrow> piece_valid r p \<Longrightarrow> piece_valid r (piece_head n p)"
  "piece_valid r p \<Longrightarrow> piece_valid r (piece_tail n p)"
  by (auto simp: piece_valid_def piece_head_def piece_tail_def piece_size_def)

lemma length_piece_bytes [simp]: "piece_valid r p \<Longrightarrow> length (piece_bytes (strings r) p) = piece_size p"
  by (auto simp: piece_valid_def piece_bytes_def piece_size_def)

lemma length_pieces_bytes:
  "\<forall>p \<in> set ps. piece_valid r p \<Longrightarrow> length (pieces_bytes (strings r) ps) = pieces_size ps"
  by (induction ps) auto

lemma piece_bytes_cut:
  assumes "n \<le> piece_size p"
  shows "piece_bytes st (piece_head n p) = take n (piece_bytes st p)"
    "piece_bytes st (piece_tail n p) = drop n (piece_bytes st p)"
  using assms
  by (auto simp: piece_bytes_def piece_head_def piece_tail_def piece_size_def min_def drop_take
      add.commute diff_diff_add)

lemma pieces_bytes_split:
  "pieces_bytes st (split_pieces off ps) = pieces_bytes st ps"
proof (induction ps arbitrary: off)
  case (Cons p ps)
  then show ?case by (auto simp: piece_bytes_cut simp flip: append_assoc)
qed simp

lemma split_pieces_valid:
  "\<forall>p \<in> set ps. piece_valid r p \<Longrightarrow> \<forall>p \<in> set (split_pieces off ps). piece_valid r p"
proof (induction ps arbitrary: off)
  case (Cons p ps)
  then show ?case by auto
qed simp

lemma drop_bytes_bytes:
  "\<forall>p \<in> set ps. piece_valid r p \<Longrightarrow> pieces_bytes (strings r) (drop_bytes n ps) = drop n (pieces_bytes (strings r) ps)"
proof (induction ps arbitrary: n)
  case (Cons p ps)
  then show ?case by (auto simp: piece_bytes_cut)
qed simp

lemma drop_bytes_valid:
  "\<forall>p \<in> set ps. piece_valid r p \<Longrightarrow> \<forall>p \<in> set (drop_bytes n ps). piece_valid r p"
proof (induction ps arbitrary: n)
  case (Cons p ps)
  then show ?case by auto
qed simp

lemma pieces_bytes_cong:
  "\<forall>p \<in> set ps. piece_bytes st p = piece_bytes st' p \<Longrightarrow> pieces_bytes st ps = pieces_bytes st' ps"
  by (induction ps) auto

section \<open>Allocation\<close>

text \<open>A new string is where its piece says, and no piece already there sees the write.\<close>

lemma MakeRopeString_ok:
  assumes "alloc_inv r" "s \<noteq> []" "string_fits s"
  obtains p r' where "MakeRopeString s r = Some (p, r')" "Chunks r' = Chunks r" "Leaves r' = Leaves r" "alloc_inv r'"
    "piece_valid r' p" "piece_size p = length s" "piece_bytes (strings r') p = s"
    "\<And>q. piece_valid r q \<Longrightarrow> piece_valid r' q \<and> piece_bytes (strings r') q = piece_bytes (strings r) q"
proof -
  have len: "wrap32 (length s) = length s" "wrap32 (AllocOffs r + length s) = AllocOffs r + length s"
    "wrap32 (7 + length s) = 7 + length s" "wrap32 (length s + 7) = 7 + length s"
    using assms(1,3) by (auto simp: string_fits_def alloc_inv_def AllocChunkSize_def)
  show ?thesis
  proof (cases "AllocOffs r + length s \<le> AllocChunkSize")
    case True
    then obtain b where b: "AllocBuffer r = Some b" "b < next_string r" "length (strings r b) = AllocOffs r"
      using assms by (cases "AllocBuffer r") (auto simp: alloc_inv_def)
    then have w: "write_at (AllocOffs r) s (strings r b) = strings r b @ s" by (simp add: write_at_def)
    show ?thesis
      using True b assms w
      by (intro that [of "\<lparr>StrData = b, StartOffs = AllocOffs r, EndOffs = AllocOffs r + length s\<rparr>"
            "r\<lparr>strings := (strings r)(b := strings r b @ s), AllocOffs := AllocOffs r + length s\<rparr>"])
        (auto simp: MakeRopeString_def Let_def len alloc_inv_def piece_valid_def piece_bytes_def piece_size_def)
  next
    case False
    let ?p = "\<lparr>StrData = next_string r, StartOffs = 0, EndOffs = length s\<rparr>"
    let ?r = "r\<lparr>strings := (strings r)(next_string r := s), next_string := Suc (next_string r)\<rparr>"
    let ?r' = "if length s > AllocChunkSize then ?r else ?r\<lparr>AllocBuffer := Some (next_string r), AllocOffs := length s\<rparr>"
    have eq: "MakeRopeString s r = Some (?p, ?r')"
      using False assms(2) len by (simp add: MakeRopeString_def Let_def sizeof_RopeRefCountString_def)
    show ?thesis
      using False assms
      by (intro that [OF eq])
        (auto simp: alloc_inv_def piece_valid_def piece_bytes_def piece_size_def split: option.splits if_splits)
  qed
qed

section \<open>The operations on the text\<close>

lemma rope_size_text:
  assumes "rope_inv r"
  shows "RewriteRope_size r = length (rope_text r)"
  using assms rope_wf_size
  by (auto simp: rope_inv_def RewriteRope_size_def rope_text_def length_pieces_bytes)

lemma rope_text_bound:
  assumes "rope_inv r"
  shows "length (rope_text r) < 2 ^ 32"
proof -
  obtain h where "rope_wf h (Chunks r)" using assms by (auto simp: rope_inv_def)
  from rope_wf_bound [OF this] show ?thesis using rope_size_text [OF assms] by (simp add: RewriteRope_size_def)
qed

lemma rope_text_at:
  assumes "rope_inv r" "split_pieces off (rope_pieces (Chunks r)) = ps1 @ ps2" "pieces_size ps1 = off"
  shows "pieces_bytes (strings r) ps1 = take off (rope_text r)"
    "pieces_bytes (strings r) ps2 = drop off (rope_text r)"
    "\<forall>p \<in> set (ps1 @ ps2). piece_valid r p"
proof -
  show v: "\<forall>p \<in> set (ps1 @ ps2). piece_valid r p"
    using assms(1) split_pieces_valid unfolding assms(2) [symmetric] rope_inv_def by blast
  have "rope_text r = pieces_bytes (strings r) (split_pieces off (rope_pieces (Chunks r)))"
    by (simp add: rope_text_def pieces_bytes_split)
  then have eq: "rope_text r = pieces_bytes (strings r) ps1 @ pieces_bytes (strings r) ps2"
    by (simp add: assms(2))
  have "length (pieces_bytes (strings r) ps1) = off" using v assms(3) by (simp add: length_pieces_bytes)
  then show "pieces_bytes (strings r) ps1 = take off (rope_text r)"
    "pieces_bytes (strings r) ps2 = drop off (rope_text r)" by (simp_all add: eq)
qed

lemma set_tree_simps [simp]:
  "Chunks (set_tree T r) = fst T" "Leaves (set_tree T r) = snd T" "strings (set_tree T r) = strings r"
  "alloc_inv (set_tree T r) = alloc_inv r" "piece_valid (set_tree T r) p = piece_valid r p"
  "readable (set_tree T r) = readable r"
  by (simp_all add: set_tree_def alloc_inv_def piece_valid_def readable_def split: option.splits)

lemma leaf_inv_mono: "leaf_inv S H ids xs \<Longrightarrow> S \<subseteq> S' \<Longrightarrow> leaf_inv S' H ids xs"
  unfolding leaf_inv_def by blast

lemma readable_pieces:
  assumes "rope_inv r"
  shows "set (rope_pieces (Chunks r)) \<subseteq> readable r"
  using assms rope_wf_nonempty by (auto simp: rope_inv_def readable_def)

lemma fresh_leaf_order: "leaf_order (snd (new_leaf H)) [fst (new_leaf H)]"
  by (simp add: new_leaf_def leaf_order_def)

lemma empty_tree:
  assumes "RopePieceBTree_empty H0 = (t, H)"
  shows "rope_wf 0 t" "rope_pieces t = []" "leaf_inv S H (leaf_ids t) (leaf_ids t)" "leaves_linked H (leaf_ids t)"
  using assms fresh_leaf_order [of H0] leaf_order_linked [of H "[]" "leaf_ids t"]
  by (auto simp: RopePieceBTree_empty_def leaf_inv_def split: prod.splits)

lemma rope_inv_empty: "rope_inv RewriteRope_empty" "rope_text RewriteRope_empty = []" "rope_linked RewriteRope_empty"
proof -
  obtain t H where e: "RopePieceBTree_empty leaf_heap_empty = (t, H)" by force
  note t = empty_tree [OF e]
  show "rope_inv RewriteRope_empty"
    using t(1-3) by (auto simp: rope_inv_def RewriteRope_empty_def e alloc_inv_def)
  show "rope_text RewriteRope_empty = []" "rope_linked RewriteRope_empty"
    using t(2,4) by (auto simp: rope_text_def rope_linked_def RewriteRope_empty_def e)
qed

text \<open>An insertion: the text, the invariant, and the links of the leaves.\<close>

lemma RewriteRope_insert_step:
  assumes "rope_inv r" "off \<le> length (rope_text r)" "string_fits s" "length (rope_text r) + length s < 2 ^ 32"
  shows "\<exists>r'. RewriteRope_insert off s r = Some r' \<and> rope_inv r' \<and>
    rope_text r' = take off (rope_text r) @ s @ drop off (rope_text r) \<and> (rope_linked r \<longrightarrow> rope_linked r')"
proof (cases "s = []")
  case True
  then show ?thesis using assms rope_size_text [OF assms(1)] by (simp add: RewriteRope_insert_def)
next
  case False
  have "alloc_inv r" using assms(1) by (simp add: rope_inv_def)
  from MakeRopeString_ok [OF this False assms(3)] obtain p r1 where
    r1: "MakeRopeString s r = Some (p, r1)" "Chunks r1 = Chunks r" "Leaves r1 = Leaves r" "alloc_inv r1"
      "piece_valid r1 p" "piece_size p = length s" "piece_bytes (strings r1) p = s"
    and old: "\<And>q. piece_valid r q \<Longrightarrow> piece_valid r1 q \<and> piece_bytes (strings r1) q = piece_bytes (strings r) q"
    by blast
  have tree: "rope_tree (Chunks r)" "off \<le> rope_size (Chunks r)" "0 < piece_size p"
    "rope_size (Chunks r) + piece_size p < 2 ^ 32"
    using assms rope_size_text [OF assms(1)] r1(6) False by (auto simp: rope_inv_def RewriteRope_size_def)
  obtain t H ps1 ps2 where t: "RopePieceBTree_insert off p (Chunks r, Leaves r) = Some (t, H)" "rope_tree t"
    "split_pieces off (rope_pieces (Chunks r)) = ps1 @ ps2" "pieces_size ps1 = off"
    "rope_pieces t = ps1 @ p # ps2"
    using RopePieceBTree_insert_ok [OF tree] by metis
  let ?r' = "set_tree (t, H) r1"
  note at = rope_text_at [OF assms(1) t(3,4)]
  have keep: "\<forall>q \<in> set (ps1 @ ps2). piece_valid r1 q \<and> piece_bytes (strings r1) q = piece_bytes (strings r) q"
    using at(3) old by blast
  then have same: "pieces_bytes (strings r1) ps1 = pieces_bytes (strings r) ps1"
    "pieces_bytes (strings r1) ps2 = pieces_bytes (strings r) ps2"
    by (auto intro!: pieces_bytes_cong)
  have "readable r \<subseteq> readable r1" using old by (auto simp: readable_def)
  then have chain: "\<exists>xs. leaf_inv (readable r1) (Leaves r) (leaf_ids (Chunks r)) xs"
    using assms(1) leaf_inv_mono unfolding rope_inv_def by blast
  have "rope_inv ?r'"
    using t(2,5) keep r1(4,5) leaf_steps_inv [OF RopePieceBTree_insert_steps [OF t(1), of True] chain]
    by (auto simp: rope_inv_def)
  moreover have "rope_linked r \<longrightarrow> rope_linked ?r'"
    using leaf_steps_linked [OF RopePieceBTree_insert_steps [OF t(1)] chain] by (simp add: rope_linked_def)
  moreover have "rope_text ?r' = take off (rope_text r) @ s @ drop off (rope_text r)"
    using t(5) r1(7) same at(1,2) by (simp add: rope_text_def)
  moreover have "RewriteRope_insert off s r = Some ?r'"
    using assms(2) rope_size_text [OF assms(1)] False r1(1-3) t(1) by (simp add: RewriteRope_insert_def)
  ultimately show ?thesis by blast
qed

lemma RewriteRope_erase_step:
  assumes "rope_inv r" "off + n < length (rope_text r)"
  shows "\<exists>r'. RewriteRope_erase off n r = Some r' \<and> rope_inv r' \<and>
    rope_text r' = take off (rope_text r) @ drop (off + n) (rope_text r) \<and>
    (rope_linked r \<and> \<not> erases_interior off n r \<longrightarrow> rope_linked r')"
proof (cases "n = 0")
  case True
  then have "wrap32 (off + n) = off + n" using assms(2) rope_text_bound [OF assms(1)] by simp
  then show ?thesis using True assms rope_size_text [OF assms(1)] by (simp add: RewriteRope_erase_def)
next
  case False
  obtain h where h: "rope_wf h (Chunks r)" using assms(1) by (auto simp: rope_inv_def)
  have tree: "rope_tree (Chunks r)" "0 < n" "off + n < rope_size (Chunks r)"
    using assms rope_size_text [OF assms(1)] False by (auto simp: rope_inv_def RewriteRope_size_def)
  obtain t H ps1 ps2 where t: "RopePieceBTree_erase off n (Chunks r, Leaves r) = Some (t, H)" "rope_tree t"
    "split_pieces off (rope_pieces (Chunks r)) = ps1 @ ps2" "pieces_size ps1 = off"
    "rope_pieces t = ps1 @ drop_bytes n ps2"
    using RopePieceBTree_erase_ok [OF tree] by metis
  let ?r' = "set_tree (t, H) r"
  note at = rope_text_at [OF assms(1) t(3,4)]
  have v: "\<forall>p \<in> set ps2. piece_valid r p" "\<forall>p \<in> set ps1. piece_valid r p" using at(3) by auto
  have "off \<le> pieces_size (rope_pieces (Chunks r))" using tree(3) rope_wf_size [OF h] by simp
  then have "nonempty_pieces (ps1 @ ps2)" using split_pieces_at rope_wf_nonempty [OF h] t(3) by metis
  then have S: "set (split_pieces off (rope_pieces (Chunks r))) \<subseteq> readable r"
    using v by (auto simp: t(3) readable_def)
  have le: "off + n \<le> rope_size (Chunks r)" using tree(3) by simp
  have chain: "\<exists>xs. leaf_inv (readable r) (Leaves r) (leaf_ids (Chunks r)) xs" using assms(1) by (simp add: rope_inv_def)
  have "leaf_steps True (readable r) (leaf_ids (Chunks r), Leaves r) (leaf_ids t, H)"
    by (rule RopePieceBTree_erase_steps [OF t(1) tree(1,2) le S]) simp
  then have "rope_inv ?r'"
    using t(2,5) v(2) drop_bytes_valid [OF v(1), of n] assms(1) leaf_steps_inv [OF _ chain]
    by (auto simp: rope_inv_def)
  moreover have "rope_linked ?r'" if "rope_linked r" "\<not> erases_interior off n r"
  proof -
    have "leaf_steps False (readable r) (leaf_ids (Chunks r), Leaves r) (leaf_ids t, H)"
      by (rule RopePieceBTree_erase_steps [OF t(1) tree(1,2) le S]) (use that(2) in \<open>simp add: erases_interior_def\<close>)
    from leaf_steps_linked [OF this chain] show ?thesis using that(1) by (simp add: rope_linked_def)
  qed
  moreover have "rope_text ?r' = take off (rope_text r) @ drop (off + n) (rope_text r)"
    using t(5) drop_bytes_bytes [OF v(1), of n] at(1,2) by (simp add: rope_text_def add.commute)
  moreover have "wrap32 (off + n) = off + n" using tree(3) rope_wf_bound [OF h] by simp
  then have "RewriteRope_erase off n r = Some ?r'"
    using assms(2) rope_size_text [OF assms(1)] False t(1) by (simp add: RewriteRope_erase_def)
  ultimately show ?thesis by blast
qed

lemma rope_clear_ok:
  assumes "rope_inv r"
  shows "rope_inv (rope_clear r)" "rope_text (rope_clear r) = []" "rope_linked r \<Longrightarrow> rope_linked (rope_clear r)"
proof -
  obtain h where h: "rope_wf h (Chunks r)" and chain: "\<exists>xs. leaf_inv (readable r) (Leaves r) (leaf_ids (Chunks r)) xs"
    and a: "alloc_inv r" using assms by (auto simp: rope_inv_def)
  have "rope_inv (rope_clear r) \<and> rope_text (rope_clear r) = [] \<and> (rope_linked r \<longrightarrow> rope_linked (rope_clear r))"
  proof (cases "Chunks r")
    case (RopeLeaf this ps sz)
    then have *: "Chunks (rope_clear r) = RopeLeaf this [] 0" "Leaves (rope_clear r) = Leaves r"
      by (simp_all add: rope_clear_def)
    then show ?thesis
      using * chain a RopeLeaf by (auto simp: rope_inv_def rope_text_def rope_linked_def rope_clear_def intro!: exI [of _ 0])
  next
    case (RopeInterior cs sz)
    obtain t H where e: "RopePieceBTree_empty (rope_Destroy (Chunks r) (Leaves r)) = (t, H)" by force
    note t = empty_tree [OF e]
    have "Chunks (rope_clear r) = t" "Leaves (rope_clear r) = H" using e RopeInterior by (simp_all add: rope_clear_def)
    then show ?thesis using t a by (auto simp: rope_inv_def rope_text_def rope_linked_def rope_clear_def)
  qed
  then show "rope_inv (rope_clear r)" "rope_text (rope_clear r) = []" "rope_linked r \<Longrightarrow> rope_linked (rope_clear r)" by blast+
qed

lemma RewriteRope_assign_step:
  assumes "rope_inv r" "string_fits s"
  shows "\<exists>r'. RewriteRope_assign s r = Some r' \<and> rope_inv r' \<and> rope_text r' = s \<and> (rope_linked r \<longrightarrow> rope_linked r')"
proof -
  have "RewriteRope_assign s r = RewriteRope_insert 0 s (rope_clear r)"
    by (simp add: RewriteRope_assign_def RewriteRope_insert_def)
  then show ?thesis
    using RewriteRope_insert_step [OF rope_clear_ok(1) [OF assms(1)] _ assms(2), of 0] rope_clear_ok(2,3) [OF assms(1)] assms(2)
    by (auto simp: string_fits_def)
qed

interpretation rope: text_store rope_inv rope_text RewriteRope_size RewriteRope_assign
  RewriteRope_insert RewriteRope_erase
proof
  fix b off s n
  assume b: "rope_inv b"
  show "RewriteRope_size b = length (rope_text b)" using b by (rule rope_size_text)
  show "\<exists>b'. RewriteRope_assign s b = Some b' \<and> rope_inv b' \<and> rope_text b' = s" if "string_fits s"
    using RewriteRope_assign_step [OF b that] by blast
  show "\<exists>b'. RewriteRope_insert off s b = Some b' \<and> rope_inv b' \<and>
      rope_text b' = take off (rope_text b) @ s @ drop off (rope_text b)"
    if "off \<le> length (rope_text b)" "string_fits s" "length (rope_text b) + length s < 2 ^ 32"
    using RewriteRope_insert_step [OF b that] by blast
  show "\<exists>b'. RewriteRope_erase off n b = Some b' \<and> rope_inv b' \<and>
      rope_text b' = take off (rope_text b) @ drop (off + n) (rope_text b)" if "off + n < length (rope_text b)"
    using RewriteRope_erase_step [OF b that] by blast
qed

section \<open>Reading\<close>

text \<open>The bytes of a sequence of leaves, and what is left to read from an iterator.\<close>

definition leaves_text :: "rope \<Rightarrow> nat list \<Rightarrow> char list" where
  "leaves_text r xs = pieces_bytes (strings r) (concat (map (\<lambda>x. the (leaf_pieces r x)) xs))"

lemma leaves_text_simps [simp]:
  "leaves_text r [] = []"
  "leaves_text r (x # xs) = pieces_bytes (strings r) (the (leaf_pieces r x)) @ leaves_text r xs"
  by (simp_all add: leaves_text_def)

definition leaf_readable :: "rope \<Rightarrow> nat \<Rightarrow> bool" where
  "leaf_readable r x \<longleftrightarrow> (\<exists>ps. leaf_pieces r x = Some ps \<and> set ps \<subseteq> readable r)"

definition iterator_at :: "rope \<Rightarrow> rope_iterator \<Rightarrow> char list \<Rightarrow> bool" where
  "iterator_at r it s \<longleftrightarrow> (\<exists>xs ps qs p.
     follows (NextLeaf (Leaves r)) (NextLeaf (Leaves r) (CurNode it)) xs \<and> (\<forall>x \<in> set xs. leaf_readable r x) \<and>
     leaf_pieces r (CurNode it) = Some (ps @ p # qs) \<and> set (p # qs) \<subseteq> readable r \<and>
     CurPiece it = length ps \<and> CurChar it < piece_size p \<and>
     s = drop (CurChar it) (piece_bytes (strings r) p) @ pieces_bytes (strings r) qs @ leaves_text r xs)"

fun reads :: "rope \<Rightarrow> rope_iterator option \<Rightarrow> char list \<Rightarrow> bool" where
  "reads r None s \<longleftrightarrow> s = []"
| "reads r (Some it) s \<longleftrightarrow> iterator_at r it s"

lemma next_nonempty_leaf_reads:
  "follows (NextLeaf (Leaves r)) p xs \<Longrightarrow> \<forall>x \<in> set xs. leaf_readable r x \<Longrightarrow>
     \<exists>it. next_nonempty_leaf r p = Some it \<and> reads r it (leaves_text r xs)"
proof (induction xs arbitrary: p)
  case Nil
  then show ?case by (simp add: next_nonempty_leaf.simps)
next
  case (Cons x xs)
  then obtain ps where x: "p = Some x" "follows (NextLeaf (Leaves r)) (NextLeaf (Leaves r) x) xs"
    "leaf_pieces r x = Some ps" "set ps \<subseteq> readable r" by (auto simp: leaf_readable_def)
  show ?case
  proof (cases ps)
    case Nil
    then have "leaves_text r (x # xs) = leaves_text r xs" using x by simp
    then show ?thesis using Cons.IH [OF x(2)] Cons.prems(2) Nil x(1,3)
      by (simp add: next_nonempty_leaf.simps [of r "Some x"])
  next
    case (Cons q qs)
    then have "iterator_at r \<lparr>CurNode = x, CurPiece = 0, CurChar = 0\<rparr> (leaves_text r (x # xs))"
      unfolding iterator_at_def using x Cons.prems
      by (intro exI [of _ xs] exI [of _ "[]"] exI [of _ qs] exI [of _ q]) (auto simp: readable_def)
    then show ?thesis using Cons x by (simp add: next_nonempty_leaf.simps [of r "Some x"])
  qed
qed

lemma rope_advance_reads:
  assumes "iterator_at r it s"
  obtains c s' it' where "s = c # s'" "rope_deref r it = Some c" "rope_advance r it = Some it'" "reads r it' s'"
proof -
  obtain xs ps qs p where xs: "follows (NextLeaf (Leaves r)) (NextLeaf (Leaves r) (CurNode it)) xs" "\<forall>x \<in> set xs. leaf_readable r x"
    and ps: "leaf_pieces r (CurNode it) = Some (ps @ p # qs)" "set (p # qs) \<subseteq> readable r" "CurPiece it = length ps"
    and i: "CurChar it < piece_size p"
    and s: "s = drop (CurChar it) (piece_bytes (strings r) p) @ pieces_bytes (strings r) qs @ leaves_text r xs"
    using assms unfolding iterator_at_def by blast
  have v: "piece_valid r p" using ps(2) by (auto simp: readable_def)
  let ?B = "piece_bytes (strings r) p"
  have len: "length ?B = piece_size p" using v by simp
  have cur: "current_piece r it = Some p" using ps by (simp add: current_piece_def)
  have off: "CurChar it + StartOffs p < length (strings r (StrData p))"
    using i v unfolding piece_valid_def piece_size_def by linarith
  then have "?B ! CurChar it = strings r (StrData p) ! (CurChar it + StartOffs p)"
    using i by (simp add: piece_bytes_def add.commute)
  then have "drop (CurChar it) ?B = strings r (StrData p) ! (CurChar it + StartOffs p) # drop (Suc (CurChar it)) ?B"
    using i len by (metis Cons_nth_drop_Suc)
  then have s': "s = strings r (StrData p) ! (CurChar it + StartOffs p) #
      drop (Suc (CurChar it)) ?B @ pieces_bytes (strings r) qs @ leaves_text r xs" by (simp add: s)
  have d: "rope_deref r it = Some (strings r (StrData p) ! (CurChar it + StartOffs p))"
    using off by (simp add: rope_deref_def cur Let_def)
  have "\<exists>it'. rope_advance r it = Some it' \<and>
      reads r it' (drop (Suc (CurChar it)) ?B @ pieces_bytes (strings r) qs @ leaves_text r xs)"
  proof (cases "CurChar it + 1 < piece_size p")
    case True
    then show ?thesis using xs ps by (auto simp: rope_advance_def cur iterator_at_def)
  next
    case last: False
    then have end_: "drop (Suc (CurChar it)) ?B = []" using i len by simp
    show ?thesis
    proof (cases qs)
      case Nil
      then show ?thesis using last end_ ps next_nonempty_leaf_reads [OF xs]
        by (simp add: rope_advance_def cur MoveToNextPiece_def)
    next
      case (Cons q qs')
      let ?it = "it\<lparr>CurPiece := CurPiece it + 1, CurChar := 0\<rparr>"
      have "iterator_at r ?it (pieces_bytes (strings r) qs @ leaves_text r xs)"
        unfolding iterator_at_def using xs ps Cons
        by (intro exI [of _ xs] exI [of _ "ps @ [p]"] exI [of _ qs'] exI [of _ q]) (auto simp: readable_def)
      then show ?thesis using last end_ ps Cons by (simp add: rope_advance_def cur MoveToNextPiece_def)
    qed
  qed
  then show ?thesis using that [OF s' d] by blast
qed

lemma rope_read_reads: "reads r it s \<Longrightarrow> length s \<le> fuel \<Longrightarrow> rope_read fuel r it = Some s"
proof (induction fuel arbitrary: it s)
  case 0
  then show ?case by (cases it) (auto elim: rope_advance_reads)
next
  case (Suc fuel)
  show ?case
  proof (cases it)
    case None
    then show ?thesis using Suc.prems by simp
  next
    case (Some i)
    then have "iterator_at r i s" using Suc.prems by simp
    then obtain c s' it' where *: "s = c # s'" "rope_deref r i = Some c" "rope_advance r i = Some it'" "reads r it' s'"
      by (rule rope_advance_reads)
    then show ?thesis using Suc.IH [OF *(4)] Suc.prems(2) Some by simp
  qed
qed

lemma leftmost_leaf_first: "rope_wf h t \<Longrightarrow> \<exists>x ys. leftmost_leaf t = Some x \<and> leaf_ids t = x # ys"
proof (induction h arbitrary: t)
  case 0
  then show ?case by (cases t) auto
next
  case (Suc h)
  then obtain c cs sz where t: "t = RopeInterior (c # cs) sz" by (cases t) (auto simp: neq_Nil_conv)
  then show ?case using Suc.IH [of c] Suc.prems by auto
qed

text \<open>The leaves of the tree, found by their address, hold the tree's pieces.\<close>

lemma leaves_text_tree:
  assumes "distinct (leaf_ids (Chunks r))"
  shows "leaves_text r (leaf_ids (Chunks r)) = rope_text r"
proof -
  let ?ls = "rope_leaves (Chunks r)"
  have "the (leaf_pieces r x) = ps" if "(x, ps) \<in> set ?ls" for x ps
    using map_of_is_SomeI [OF assms that] by (simp add: leaf_pieces_def)
  then have "map (\<lambda>x. the (leaf_pieces r x)) (leaf_ids (Chunks r)) = map snd ?ls" by auto
  then show ?thesis by (simp add: leaves_text_def rope_text_def pieces_of_leaves del: map_map)
qed

text \<open>The leaves an iteration visits: those of the tree in their order, and abandoned ones.\<close>

lemma rope_begin_reads:
  assumes "rope_inv r"
  obtains it xs where "rope_begin r = Some it" "follows (NextLeaf (Leaves r)) (leftmost_leaf (Chunks r)) xs"
    "filter (\<lambda>x. x \<in> set (leaf_ids (Chunks r))) xs = leaf_ids (Chunks r)" "\<forall>x \<in> set xs. leaf_readable r x"
    "reads r it (leaves_text r xs)" "distinct xs"
proof -
  let ?ids = "leaf_ids (Chunks r)"
  obtain zs h where inv: "leaf_inv (readable r) (Leaves r) ?ids zs" and h: "rope_wf h (Chunks r)"
    using assms by (auto simp: rope_inv_def)
  obtain a bs where a: "leftmost_leaf (Chunks r) = Some a" "?ids = a # bs" using leftmost_leaf_first [OF h] by (elim exE conjE)
  then have "leaf_inv (readable r) (Leaves r) ([] @ a # bs) zs" using inv by simp
  then obtain us vs where zs: "zs = us @ a # vs" "filter (\<lambda>x. x \<in> set ([] @ a # bs)) vs = bs" "distinct (us @ a # vs)"
    by (rule leaf_inv_split)
  let ?xs = "a # vs"
  have f: "follows (NextLeaf (Leaves r)) (Some a) ?xs"
    using inv follows_order [of "Leaves r" us a vs] by (simp add: leaf_inv_def zs)
  have "leaf_readable r x" if x: "x \<in> set ?xs" for x
  proof (cases "x \<in> set ?ids")
    case True
    then obtain ps where ps: "map_of (rope_leaves (Chunks r)) x = Some ps"
      by (metis list.set_map map_of_eq_None_iff not_Some_eq)
    have "set ps \<subseteq> set (rope_pieces (Chunks r))"
      using map_of_SomeD [OF ps] unfolding pieces_of_leaves [symmetric] by force
    then show ?thesis using readable_pieces [OF assms] ps by (auto simp: leaf_readable_def leaf_pieces_def)
  next
    case False
    then have "map_of (rope_leaves (Chunks r)) x = None" by (simp add: map_of_eq_None_iff)
    then show ?thesis using inv x False unfolding leaf_inv_def zs leaf_readable_def leaf_pieces_def by auto
  qed
  then have rd: "\<forall>x \<in> set ?xs. leaf_readable r x" by blast
  from next_nonempty_leaf_reads [OF f rd] obtain it where
    it: "next_nonempty_leaf r (Some a) = Some it" "reads r it (leaves_text r ?xs)" by blast
  show ?thesis
    by (rule that [of it ?xs]) (use f rd it zs a in \<open>simp_all add: rope_begin_def\<close>)
qed

lemma leaf_ids_distinct:
  assumes "rope_inv r"
  shows "distinct (leaf_ids (Chunks r))"
  using assms unfolding rope_inv_def leaf_inv_def leaf_order_def by (metis distinct_filter)

lemma rope_begin_linked_leaves:
  assumes "rope_inv r" "rope_linked r" "follows (NextLeaf (Leaves r)) (leftmost_leaf (Chunks r)) xs"
  shows "xs = leaf_ids (Chunks r)"
proof -
  obtain h where "rope_wf h (Chunks r)" using assms(1) by (auto simp: rope_inv_def)
  from leftmost_leaf_first [OF this] obtain a bs where
    a: "leftmost_leaf (Chunks r) = Some a" "leaf_ids (Chunks r) = a # bs" by (elim exE conjE)
  then show ?thesis
    using assms(2,3) follows_unique by (fastforce simp: rope_linked_def leaves_linked_def)
qed

lemma rope_begin_linked:
  assumes "rope_inv r" "rope_linked r"
  obtains it where "rope_begin r = Some it" "reads r it (rope_text r)"
proof -
  obtain it xs where *: "rope_begin r = Some it" "follows (NextLeaf (Leaves r)) (leftmost_leaf (Chunks r)) xs"
    "reads r it (leaves_text r xs)" using rope_begin_reads [OF assms(1)] .
  from rope_begin_linked_leaves [OF assms *(2)]
  show ?thesis using that [OF *(1)] *(3) leaves_text_tree [OF leaf_ids_distinct [OF assms(1)]] by simp
qed

section \<open>Erased text that is read\<close>

text \<open>
  The erasure of exactly one interior child behind the first: the node goes, the heap keeps the
  leaves below it and their links.
\<close>

lemma erase_interior_child:
  assumes "rope_wf (Suc h) (RopeInterior (as @ c # bs) sz)" "as \<noteq> []" "\<not> isLeaf c"
    "off = sum_list (map rope_size as)"
  shows "RopePieceBTree_erase off (rope_size c) (RopeInterior (as @ c # bs) sz, H) =
    Some (RopeInterior (as @ bs) (sz - rope_size c), abandon (rope_leaves c) H)"
proof -
  let ?t = "RopeInterior (as @ c # bs) sz"
  have wf: "children_wf h as" "rope_wf h c" "0 < rope_size c" "children_wf h bs" "off + rope_size c \<le> sz" "sz < 2 ^ 32"
    using assms(1,4) by auto
  have "0 < off" using children_size_pos [OF wf(1) assms(2)] assms(4) by simp
  moreover have "find_child_split off 0 0 (as @ c # bs) = Some (length as, off)"
    using find_child_split_at [of as off c 0 0 bs] wf assms(4) by simp
  ultimately have "rope_split off ?t H = Some ((?t, None), H)" using wf(3,5) by simp
  moreover have "erase_skip off (rope_size c) (as @ c # bs) H = Some (as @ bs, rope_Destroy c H)"
  proof -
    have "wrap32 (rope_size c) = rope_size c" using wf(5,6) by simp
    then show ?thesis using erase_skip_at [of as off c "rope_size c" bs H] wf(3) assms(4) by simp
  qed
  moreover have "wrap32 (off + rope_size c) = off + rope_size c" using wf(5,6) by simp
  moreover have "rope_Destroy c H = abandon (rope_leaves c) H" using assms(3) by (cases c) simp_all
  ultimately show ?thesis using wf(5) by (simp add: RopePieceBTree_erase_def grow_root_def)
qed

lemma leftmost_leaf_prefix: "as \<noteq> [] \<Longrightarrow> leftmost_leaf (RopeInterior (as @ cs) sz) = leftmost_leaf (RopeInterior (as @ ds) sz')"
  by (cases as) simp_all

section \<open>Properties\<close>

text \<open>
  C5: reading a rope from \<open>begin\<close> to \<open>end\<close> terminates, after as many increments as there
  are bytes in the leaves linked from the leftmost leaf on, and yields these bytes. The leaves of the
  tree are among the linked ones, in the tree's order, and as long as they are the only ones
  (\<open>rope_linked\<close>: no erasure has destroyed an interior node) what is read is the rope's text.
\<close>

theorem rope_iteration:
  assumes "rope_inv r"
  shows "\<exists>it xs. rope_begin r = Some it \<and> follows (NextLeaf (Leaves r)) (leftmost_leaf (Chunks r)) xs \<and>
    [x \<leftarrow> xs. x \<in> set (leaf_ids (Chunks r))] = leaf_ids (Chunks r) \<and>
    (\<forall>fuel \<ge> length (leaves_text r xs). rope_read fuel r it = Some (leaves_text r xs)) \<and>
    (rope_linked r \<longrightarrow> leaves_text r xs = rope_text r)"
proof -
  obtain it xs where *: "rope_begin r = Some it" "follows (NextLeaf (Leaves r)) (leftmost_leaf (Chunks r)) xs"
    "[x \<leftarrow> xs. x \<in> set (leaf_ids (Chunks r))] = leaf_ids (Chunks r)" "reads r it (leaves_text r xs)" "distinct xs"
    using rope_begin_reads [OF assms] .
  have "leaves_text r xs = rope_text r" if "rope_linked r"
    using rope_begin_linked_leaves [OF assms that *(2)] leaves_text_tree [of r] *(5) by simp
  then show ?thesis using * rope_read_reads by blast
qed

theorem rope_iteration_witness:
  "\<exists>r it. RewriteRope_assign ''ab'' RewriteRope_empty = Some r \<and> rope_begin r = Some it \<and>
    rope_read 2 r it = Some ''ab''"
proof -
  obtain r where r: "RewriteRope_assign ''ab'' RewriteRope_empty = Some r" "rope_inv r" "rope_text r = ''ab''" "rope_linked r"
    using RewriteRope_assign_step [OF rope_inv_empty(1), of "''ab''"] rope_inv_empty(3) by (auto simp: string_fits_def)
  from rope_iteration [OF r(2)] show ?thesis using r by auto
qed

text \<open>
  C6: erasing exactly the bytes of an interior node below the root, other than the first, takes them
  out of the tree and out of the text that offsets address, but \<^verbatim>\<open>Destroy\<close> leaves the
  leaves below that node linked: reading the rope from \<open>begin\<close> to \<open>end\<close> still yields
  the text as it was before the erasure.
\<close>

theorem erased_interior_still_read:
  assumes "rope_inv r" "rope_linked r" "Chunks r = RopeInterior (as @ c # bs) sz" "as \<noteq> []" "\<not> isLeaf c"
    and off: "off = sum_list (map rope_size as)"
  shows "\<exists>r' it. RewriteRope_erase off (rope_size c) r = Some r' \<and>
    rope_text r' = take off (rope_text r) @ drop (off + rope_size c) (rope_text r) \<and>
    RewriteRope_size r' < RewriteRope_size r \<and>
    rope_begin r' = Some it \<and> rope_read (length (rope_text r)) r' it = Some (rope_text r)"
proof -
  obtain h where "rope_wf h (Chunks r)" using assms(1) by (auto simp: rope_inv_def)
  then obtain k where wf: "rope_wf (Suc k) (RopeInterior (as @ c # bs) sz)" using assms(3) by (cases h) auto
  then have c: "children_wf k as" "rope_wf k c" "0 < rope_size c" "off + rope_size c \<le> sz" "sz < 2 ^ 32" using off by auto
  define H where "H = abandon (rope_leaves c) (Leaves r)"
  define r' where "r' = set_tree (RopeInterior (as @ bs) (sz - rope_size c), H) r"
  have "wrap32 (off + rope_size c) = off + rope_size c" using c(4,5) by simp
  then have erase: "RewriteRope_erase off (rope_size c) r = Some r'"
    using erase_interior_child [OF wf assms(4,5) off, of "Leaves r"] c(3,4) assms(3)
    by (simp add: RewriteRope_erase_def RewriteRope_size_def r'_def H_def)
  let ?ids = "leaf_ids (Chunks r)"
  have same: "leaf_pieces r' x = leaf_pieces r x" if x: "x \<in> set ?ids" for x
  proof -
    let ?l = "\<lambda>cs. concat (map rope_leaves cs)"
    have d: "distinct (map fst (?l as @ rope_leaves c @ ?l bs))" using leaf_ids_distinct [OF assms(1)] assms(3) by simp
    have old: "leaf_pieces r x = map_of (?l as @ rope_leaves c @ ?l bs) x"
      using x assms(3) by (auto simp: leaf_pieces_def map_of_eq_None_iff split: option.splits)
    have tree: "Chunks r' = RopeInterior (as @ bs) (sz - rope_size c)"
      "Abandoned (Leaves r') = Abandoned (Leaves r) ++ map_of (rope_leaves c)"
      by (simp_all add: r'_def H_def abandon_def)
    have new: "leaf_pieces r' x = (case map_of (?l as @ ?l bs) x of Some ps \<Rightarrow> Some ps
        | None \<Rightarrow> (Abandoned (Leaves r) ++ map_of (rope_leaves c)) x)"
      unfolding leaf_pieces_def tree by simp
    show ?thesis
    proof (cases "x \<in> set (leaf_ids c)")
      case True
      then have "x \<notin> set (map fst (?l as))" "x \<notin> set (map fst (?l bs))"
        using d unfolding map_append distinct_append set_append by blast+
      then have "map_of (?l as) x = None" "map_of (?l bs) x = None" "map_of (rope_leaves c) x \<noteq> None"
        using True by (simp_all only: map_of_eq_None_iff list.set_map not_False_eq_True simp_thms)
      then show ?thesis unfolding old new by (auto simp: map_add_def split: option.splits)
    next
      case False
      then have "map_of (rope_leaves c) x = None" by (simp add: map_of_eq_None_iff)
      moreover have "map_of (?l as @ rope_leaves c @ ?l bs) x \<noteq> None" using x assms(3) by (simp add: map_of_eq_None_iff)
      ultimately show ?thesis unfolding old new by (auto simp: map_add_def split: option.splits)
    qed
  qed
  obtain it xs where xs: "follows (NextLeaf (Leaves r)) (leftmost_leaf (Chunks r)) xs" "\<forall>x \<in> set xs. leaf_readable r x"
    using rope_begin_reads [OF assms(1)] by metis
  have ids: "xs = ?ids" by (rule rope_begin_linked_leaves [OF assms(1,2) xs(1)])
  have rd: "\<forall>x \<in> set ?ids. leaf_readable r' x"
    using xs(2) same by (simp add: ids leaf_readable_def r'_def)
  have "leaves_text r' ?ids = rope_text r"
    using leaves_text_tree [OF leaf_ids_distinct [OF assms(1)]] same by (simp add: leaves_text_def r'_def cong: map_cong)
  moreover have "NextLeaf (Leaves r') = NextLeaf (Leaves r)" by (simp add: r'_def H_def abandon_def)
  moreover have "leftmost_leaf (Chunks r') = leftmost_leaf (Chunks r)"
    using leftmost_leaf_prefix [OF assms(4)] assms(3) by (simp add: r'_def)
  moreover obtain y ys where first: "leftmost_leaf (Chunks r) = Some y" "?ids = y # ys"
    using leftmost_leaf_first [OF wf] unfolding assms(3) by (elim exE conjE)
  ultimately obtain it' where it': "rope_begin r' = Some it'" "reads r' it' (rope_text r)"
    using next_nonempty_leaf_reads [OF _ rd, of "Some y"] xs(1) by (auto simp: rope_begin_def ids)
  have v: "\<forall>p \<in> set (rope_pieces (Chunks r)). piece_valid r p" using assms(1) by (simp add: rope_inv_def)
  have "pieces_size (pieces_of as) = off" "pieces_size (rope_pieces c) = rope_size c"
    using rope_wf_children [of as k] rope_wf_size [OF c(2)] c(1) off by auto
  then have len: "length (pieces_bytes (strings r) (pieces_of as)) = off"
    "length (pieces_bytes (strings r) (rope_pieces c)) = rope_size c"
    using v length_pieces_bytes [of "pieces_of as" r] length_pieces_bytes [of "rope_pieces c" r] assms(3) by auto
  have "rope_text r' = take off (rope_text r) @ drop (off + rope_size c) (rope_text r)"
    using len assms(3) by (simp add: rope_text_def r'_def)
  moreover have "RewriteRope_size r' < RewriteRope_size r"
    using c(3,4) assms(3) by (simp add: RewriteRope_size_def r'_def)
  ultimately show ?thesis using erase it' rope_read_reads [OF it'(2)] by auto
qed

text \<open>A rope of three levels: an interior root over two interior nodes of one leaf each.\<close>

definition three_levels :: rope where
  "three_levels = \<lparr>
     Chunks = RopeInterior [
       RopeInterior [RopeLeaf 0 [\<lparr>StrData = 0, StartOffs = 0, EndOffs = 1\<rparr>] 1] 1,
       RopeInterior [RopeLeaf 1 [\<lparr>StrData = 0, StartOffs = 1, EndOffs = 2\<rparr>] 1] 1] 2,
     Leaves = \<lparr>NextLeaf = [0 \<mapsto> 1], PrevLeaf = [1 \<mapsto> 0], Abandoned = Map.empty, next_leaf = 2\<rparr>,
     AllocBuffer = Some 0, AllocOffs = 2, strings = (\<lambda>_. ''ab''), next_string = 1\<rparr>"

theorem erased_interior_still_read_witness:
  "\<exists>r' it. RewriteRope_erase 1 1 three_levels = Some r' \<and> rope_text r' = ''a'' \<and>
    rope_begin r' = Some it \<and> rope_read 2 r' it = Some ''ab''"
proof -
  have "rope_wf (Suc (Suc 0)) (Chunks three_levels)"
    by (simp add: three_levels_def RopeWidthFactor_def pieces_size_def piece_size_def)
  moreover have "leaf_inv (readable three_levels) (Leaves three_levels) (leaf_ids (Chunks three_levels)) [0, 1]"
    by (simp add: three_levels_def leaf_inv_def leaf_order_def)
  moreover have "\<forall>p \<in> set (rope_pieces (Chunks three_levels)). piece_valid three_levels p" "alloc_inv three_levels"
    by (simp_all add: three_levels_def piece_valid_def alloc_inv_def AllocChunkSize_def)
  ultimately have "rope_inv three_levels" unfolding rope_inv_def by blast
  moreover have "rope_linked three_levels" by (simp add: three_levels_def rope_linked_def leaves_linked_def)
  moreover have "rope_text three_levels = ''ab''"
    by (simp add: three_levels_def rope_text_def piece_bytes_def piece_size_def)
  moreover have "Chunks three_levels = RopeInterior
      ([RopeInterior [RopeLeaf 0 [\<lparr>StrData = 0, StartOffs = 0, EndOffs = 1\<rparr>] 1] 1] @
       RopeInterior [RopeLeaf 1 [\<lparr>StrData = 0, StartOffs = 1, EndOffs = 2\<rparr>] 1] 1 # []) 2"
    by (simp add: three_levels_def)
  ultimately show ?thesis
    using erased_interior_still_read [of three_levels
        "[RopeInterior [RopeLeaf 0 [\<lparr>StrData = 0, StartOffs = 0, EndOffs = 1\<rparr>] 1] 1]"
        "RopeInterior [RopeLeaf 1 [\<lparr>StrData = 0, StartOffs = 1, EndOffs = 2\<rparr>] 1] 1" "[]" 2 1]
    by (auto simp: numeral_2_eq_2)
qed

text \<open>
  C3: an insertion at an offset inside the rope succeeds as long as the rope's text stays below
  \<open>2^32\<close> bytes, keeps the rope's invariant and the links of its leaves, and its text is
  the old text with the new string at that offset. The new string may share a chunk with pieces
  already in the rope: none of their bytes change.
\<close>

theorem RewriteRope_insert_correct:
  assumes "rope_inv r" "off \<le> RewriteRope_size r" "RewriteRope_size r + length s < 2 ^ 32" "length s + 4080 < 2 ^ 32"
  shows "\<exists>r'. RewriteRope_insert off s r = Some r' \<and> rope_inv r' \<and> (rope_linked r \<longrightarrow> rope_linked r') \<and>
    rope_text r' = take off (rope_text r) @ s @ drop off (rope_text r) \<and>
    RewriteRope_size r' = RewriteRope_size r + length s"
proof -
  have "off \<le> length (rope_text r)" "length (rope_text r) + length s < 2 ^ 32" "string_fits s"
    using assms(2-4) rope_size_text [OF assms(1)] by (simp_all add: string_fits_def)
  from RewriteRope_insert_step [OF assms(1) this(1,3,2)] this(1) show ?thesis
    using rope_size_text [OF assms(1)] rope_size_text by fastforce
qed

theorem RewriteRope_insert_correct_witness:
  "\<exists>r. RewriteRope_insert 0 ''ab'' RewriteRope_empty = Some r \<and> rope_text r = ''ab'' \<and> RewriteRope_size r = 2"
  using RewriteRope_insert_correct [OF rope_inv_empty(1), of 0 "''ab''"] rope_inv_empty(2)
    rope_size_text [OF rope_inv_empty(1)] by auto

text \<open>
  C4: an erasure that leaves part of the text succeeds, keeps the rope's invariant, and removes
  exactly the bytes asked for from the text, however many leaves and levels they span. It also keeps
  the links of the leaves, so that the bytes are gone from what an iteration reads, unless the erased
  range covers an interior node below the root.
\<close>

theorem RewriteRope_erase_correct:
  assumes "rope_inv r" "off + n < RewriteRope_size r"
  shows "\<exists>r'. RewriteRope_erase off n r = Some r' \<and> rope_inv r' \<and>
    rope_text r' = take off (rope_text r) @ drop (off + n) (rope_text r) \<and>
    RewriteRope_size r' = RewriteRope_size r - n \<and>
    (rope_linked r \<and> \<not> erases_interior off n r \<longrightarrow> rope_linked r' \<and>
      (\<exists>it. rope_begin r' = Some it \<and> rope_read (length (rope_text r')) r' it = Some (rope_text r')))"
proof -
  have lt: "off + n < length (rope_text r)" using assms rope_size_text by simp
  from RewriteRope_erase_step [OF assms(1) this] obtain r' where r': "RewriteRope_erase off n r = Some r'" "rope_inv r'"
    "rope_text r' = take off (rope_text r) @ drop (off + n) (rope_text r)"
    "rope_linked r \<and> \<not> erases_interior off n r \<longrightarrow> rope_linked r'" by blast
  have "\<exists>it. rope_begin r' = Some it \<and> rope_read (length (rope_text r')) r' it = Some (rope_text r')" if l: "rope_linked r'"
  proof -
    obtain it where it: "rope_begin r' = Some it" "reads r' it (rope_text r')" by (rule rope_begin_linked [OF r'(2) l])
    from rope_read_reads [OF it(2) order_refl] it(1) show ?thesis by blast
  qed
  moreover have "RewriteRope_size r' = RewriteRope_size r - n"
    using r'(3) lt rope_size_text [OF assms(1)] rope_size_text [OF r'(2)] by simp
  ultimately show ?thesis using r' by (intro exI [of _ r'] conjI impI) simp_all
qed

theorem RewriteRope_erase_correct_witness:
  "\<exists>r r'. RewriteRope_assign ''abc'' RewriteRope_empty = Some r \<and>
    RewriteRope_erase 1 1 r = Some r' \<and> rope_text r' = ''ac''"
proof -
  obtain r where r: "RewriteRope_assign ''abc'' RewriteRope_empty = Some r" "rope_inv r" "rope_text r = ''abc''"
    using RewriteRope_assign_step [OF rope_inv_empty(1), of "''abc''"] by (auto simp: string_fits_def)
  then have "1 + 1 < RewriteRope_size r" by (simp add: rope_size_text)
  from RewriteRope_erase_correct [OF r(2) this] r show ?thesis by auto
qed

end
