(* ===== verification/EditLayout.thy ===== *)
theory EditLayout
  imports Interfaces
begin

text \<open>
  The abstract view of an edited file, against which \<open>RewriteBuffer\<close> is verified: for every
  offset of the original file, the text inserted in front of that offset's character, and whether
  the character has been removed. Offset \<open>length (Original L)\<close> is the end of the file.
\<close>

section \<open>Layouts\<close>

record layout =
  Original :: "char list"
  Ahead :: "nat \<Rightarrow> char list"
  Dead :: "nat \<Rightarrow> bool"
  Inner :: "nat \<Rightarrow> bool"

definition layout_start :: "char list \<Rightarrow> layout" where
  "layout_start s = \<lparr>Original = s, Ahead = (\<lambda>_. []), Dead = (\<lambda>_. False), Inner = (\<lambda>_. False)\<rparr>"

definition layout_cell :: "layout \<Rightarrow> nat \<Rightarrow> char list" where
  "layout_cell L i = Ahead L i @ (if i < length (Original L) \<and> \<not> Dead L i then [Original L ! i] else [])"

definition layout_between :: "layout \<Rightarrow> nat \<Rightarrow> nat \<Rightarrow> char list" where
  "layout_between L i j = concat (map (layout_cell L) [i..<j])"

definition layout_text :: "layout \<Rightarrow> char list" where
  "layout_text L = layout_between L 0 (Suc (length (Original L)))"

text \<open>Where offset \<open>i\<close> is now, in front of the text inserted there.\<close>

definition layout_pos :: "layout \<Rightarrow> nat \<Rightarrow> nat" where
  "layout_pos L i = (\<Sum>j \<leftarrow> [0..<i]. length (Ahead L j) + (if Dead L j then 0 else 1))"

text \<open>
  The edits, at offsets of the original file. Removed ranges are disjoint and nothing was inserted
  strictly inside one before. The offsets strictly inside a removed range are \<open>Inner\<close>; no edit
  may name them, and at the first offset of the range text can only be added in front.
\<close>

datatype edit =
  Insert nat "char list" bool
| Remove nat nat
| Replace nat nat "char list"

definition range_free :: "layout \<Rightarrow> nat \<Rightarrow> nat \<Rightarrow> bool" where
  "range_free L i n \<longleftrightarrow> 0 < n \<and> i + n \<le> length (Original L) \<and>
     (\<forall>j \<in> {i..<i + n}. \<not> Dead L j) \<and> (\<forall>j \<in> {i<..<i + n}. Ahead L j = [])"

fun edit_ok :: "layout \<Rightarrow> edit \<Rightarrow> bool" where
  "edit_ok L (Insert i s after) \<longleftrightarrow>
     i \<le> length (Original L) \<and> \<not> Inner L i \<and> (after \<longrightarrow> \<not> Dead L i) \<and>
     length (layout_text L) + length s < 2 ^ 32 \<and> string_fits s"
| "edit_ok L (Remove i n) \<longleftrightarrow> range_free L i n \<and>
     layout_pos L i + length (Ahead L i) + n < length (layout_text L)"
| "edit_ok L (Replace i n s) \<longleftrightarrow> range_free L i n \<and> Ahead L i = [] \<and>
     layout_pos L i + n < length (layout_text L) \<and> length (layout_text L) + length s < 2 ^ 32 \<and> string_fits s"

definition kill :: "nat \<Rightarrow> nat \<Rightarrow> layout \<Rightarrow> layout" where
  "kill i n L = L\<lparr>Dead := \<lambda>j. Dead L j \<or> (i \<le> j \<and> j < i + n),
                  Inner := \<lambda>j. Inner L j \<or> (i < j \<and> j < i + n)\<rparr>"

fun apply_edit :: "edit \<Rightarrow> layout \<Rightarrow> layout" where
  "apply_edit (Insert i s after) L =
     L\<lparr>Ahead := (Ahead L)(i := if after then Ahead L i @ s else s @ Ahead L i)\<rparr>"
| "apply_edit (Remove i n) L = kill i n L"
| "apply_edit (Replace i n s) L = kill i n (L\<lparr>Ahead := (Ahead L)(i := s)\<rparr>)"

fun edits_ok :: "layout \<Rightarrow> edit list \<Rightarrow> bool" where
  "edits_ok L [] = True"
| "edits_ok L (e # es) \<longleftrightarrow> edit_ok L e \<and> edits_ok (apply_edit e L) es"

definition layout_ok :: "layout \<Rightarrow> bool" where
  "layout_ok L \<longleftrightarrow> length (Original L) + 1 < 2 ^ 32 \<and> length (layout_text L) < 2 ^ 32 \<and>
     (\<forall>j. Dead L j \<longrightarrow> j < length (Original L)) \<and>
     (\<forall>j. Inner L j \<longrightarrow> 0 < j \<and> Dead L j \<and> Dead L (j - 1))"

section \<open>Facts about layouts\<close>

lemma layout_between_split:
  "i \<le> j \<Longrightarrow> j \<le> k \<Longrightarrow> layout_between L i k = layout_between L i j @ layout_between L j k"
  by (metis concat_append layout_between_def le_Suc_ex map_append upt_add_eq_append)

lemma layout_between_Suc: "i < k \<Longrightarrow> layout_between L i k = layout_cell L i @ layout_between L (Suc i) k"
  by (simp add: layout_between_def upt_conv_Cons)

lemma layout_between_same [simp]: "layout_between L i i = []"
  by (simp add: layout_between_def)

lemma layout_between_cong:
  "(\<And>j. i \<le> j \<Longrightarrow> j < k \<Longrightarrow> layout_cell L j = layout_cell L' j) \<Longrightarrow> layout_between L i k = layout_between L' i k"
  unfolding layout_between_def by (rule arg_cong [where f = concat]) simp

lemma layout_text_at:
  "i \<le> length (Original L) \<Longrightarrow> layout_text L = layout_between L 0 i @ Ahead L i @
     (if i < length (Original L) \<and> \<not> Dead L i then [Original L ! i] else []) @
     layout_between L (Suc i) (Suc (length (Original L)))"
  unfolding layout_text_def
  by (simp add: layout_between_split [of 0 i "Suc (length (Original L))"]
      layout_between_Suc [of i "Suc (length (Original L))"] layout_cell_def)

lemma layout_pos_Suc [simp]:
  "layout_pos L 0 = 0"
  "layout_pos L (Suc i) = layout_pos L i + length (Ahead L i) + (if Dead L i then 0 else 1)"
  by (simp_all add: layout_pos_def)

lemma length_layout_between:
  "i \<le> length (Original L) \<Longrightarrow> length (layout_between L 0 i) = layout_pos L i"
proof (induction i)
  case (Suc i)
  then show ?case
    using layout_between_split [of 0 i "Suc i" L] layout_between_Suc [of i "Suc i" L]
    by (auto simp: layout_cell_def)
qed simp

lemma layout_pos_cong:
  "(\<And>j. j < i \<Longrightarrow> Ahead L j = Ahead L' j \<and> Dead L j = Dead L' j) \<Longrightarrow> layout_pos L i = layout_pos L' i"
  by (induction i) auto

lemma range_cells:
  assumes "range_free L i n"
  shows "layout_between L i (i + n) = Ahead L i @ take n (drop i (Original L))"
proof -
  have "layout_between L i (i + m) = Ahead L i @ take m (drop i (Original L))" if "0 < m" "m \<le> n" for m
    using that
  proof (induction m)
    case (Suc m)
    show ?case
    proof (cases m)
      case 0
      then show ?thesis using assms Suc.prems
        by (auto simp: layout_between_def layout_cell_def range_free_def take_Suc_conv_app_nth)
    next
      case (Suc k)
      then have "layout_cell L (i + m) = [Original L ! (i + m)]"
        using assms Suc.prems by (auto simp: layout_cell_def range_free_def)
      moreover have "take (Suc m) (drop i (Original L)) = take m (drop i (Original L)) @ [Original L ! (i + m)]"
      proof -
        have "i + n \<le> length (Original L)" using assms by (simp add: range_free_def)
        then have "m < length (drop i (Original L))" "i \<le> length (Original L)" using Suc.prems by simp_all
        then show ?thesis by (simp add: take_Suc_conv_app_nth)
      qed
      ultimately show ?thesis
        using Suc.IH Suc.prems Suc layout_between_split [of i "i + m" "i + Suc m" L]
          layout_between_Suc [of "i + m" "i + Suc m" L] by simp
    qed
  qed simp
  then show ?thesis using assms by (simp add: range_free_def)
qed

lemma layout_text_range:
  assumes "range_free L i n"
  shows "layout_text L = layout_between L 0 i @ Ahead L i @ take n (drop i (Original L)) @
    layout_between L (i + n) (Suc (length (Original L)))"
proof -
  have "i + n \<le> length (Original L)" using assms by (simp add: range_free_def)
  then have "layout_text L = layout_between L 0 i @ layout_between L i (i + n) @
      layout_between L (i + n) (Suc (length (Original L)))"
    by (simp add: layout_text_def flip: layout_between_split)
  then show ?thesis by (simp add: range_cells [OF assms])
qed

lemma dead_range_cells:
  assumes "\<forall>j \<in> {i..<i + n}. Dead L j" "\<forall>j \<in> {i<..<i + n}. Ahead L j = []" "0 < n"
  shows "layout_between L i (i + n) = Ahead L i"
proof -
  have "map (layout_cell L) [Suc i..<i + n] = map (\<lambda>_. []) [Suc i..<i + n]"
    using assms(1,2) by (intro map_cong) (auto simp: layout_cell_def)
  then have "layout_between L (Suc i) (i + n) = []" by (simp add: layout_between_def)
  moreover have "layout_cell L i = Ahead L i" using assms(1,3) by (simp add: layout_cell_def)
  ultimately show ?thesis using assms(3) by (simp add: layout_between_Suc)
qed

text \<open>The text after removing a range and putting \<open>s\<close> in front of it.\<close>

lemma kill_text:
  assumes "range_free L i n"
  shows "layout_text (kill i n (L\<lparr>Ahead := (Ahead L)(i := s)\<rparr>)) =
    layout_between L 0 i @ s @ layout_between L (i + n) (Suc (length (Original L)))"
proof -
  let ?L = "kill i n (L\<lparr>Ahead := (Ahead L)(i := s)\<rparr>)"
  have n: "0 < n" "i + n \<le> length (Original ?L)" using assms by (simp_all add: range_free_def kill_def)
  then have "layout_text ?L = layout_between ?L 0 i @ layout_between ?L i (i + n) @
      layout_between ?L (i + n) (Suc (length (Original ?L)))"
    by (simp add: layout_text_def flip: layout_between_split)
  moreover have "layout_between ?L i (i + n) = s"
    using assms dead_range_cells [of i n ?L] by (auto simp: range_free_def kill_def)
  moreover have "layout_between ?L 0 i = layout_between L 0 i"
    by (rule layout_between_cong) (auto simp: layout_cell_def kill_def)
  moreover have "layout_between ?L (i + n) m = layout_between L (i + n) m" for m
    using n(1) by (intro layout_between_cong) (auto simp: layout_cell_def kill_def)
  ultimately show ?thesis by (simp add: kill_def)
qed

lemma kill_selectors:
  "Original (kill i n L) = Original L" "Ahead (kill i n L) = Ahead L"
  "Dead (kill i n L) j = (Dead L j \<or> (i \<le> j \<and> j < i + n))"
  "Inner (kill i n L) j = (Inner L j \<or> (i < j \<and> j < i + n))"
  by (simp_all add: kill_def)

lemma kill_pos_before: "j \<le> i \<Longrightarrow> layout_pos (kill i n (L\<lparr>Ahead := (Ahead L)(i := s)\<rparr>)) j = layout_pos L j"
  by (rule layout_pos_cong) (auto simp: kill_def)

lemma kill_pos_after:
  assumes "range_free L i n" "i + n \<le> j"
  shows "layout_pos (kill i n (L\<lparr>Ahead := (Ahead L)(i := s)\<rparr>)) j + length (Ahead L i) + n =
    layout_pos L j + length s"
  using assms(2)
proof (induction j rule: dec_induct)
  case base
  define K where "K = kill i n (L\<lparr>Ahead := (Ahead L)(i := s)\<rparr>)"
  have K: "Ahead K j = (if j = i then s else Ahead L j)" "Dead K j = (Dead L j \<or> (i \<le> j \<and> j < i + n))" for j
    by (simp_all add: K_def kill_selectors)
  have "layout_pos K (i + m) = layout_pos L i + length s \<and>
      layout_pos L (i + m) = layout_pos L i + length (Ahead L i) + m" if "0 < m" "m \<le> n" for m
    using that
  proof (induction m)
    case (Suc m)
    show ?case
    proof (cases "m = 0")
      case True
      then show ?thesis using kill_pos_before [of i i n L s, folded K_def] Suc.prems assms(1)
        by (auto simp: K range_free_def)
    next
      case False
      then have "\<not> Dead L (i + m)" "Ahead L (i + m) = []"
        using assms(1) Suc.prems by (auto simp: range_free_def)
      then show ?thesis using Suc.IH Suc.prems False by (simp add: K)
    qed
  qed simp
  then have e: "layout_pos K (i + n) = layout_pos L i + length s"
    "layout_pos L (i + n) = layout_pos L i + length (Ahead L i) + n"
    using assms(1) by (simp_all add: range_free_def)
  show ?case unfolding K_def [symmetric] e by simp
next
  case (step j)
  then show ?case using assms(1) by (auto simp: kill_selectors range_free_def)
qed

lemma insert_pos:
  "layout_pos (L\<lparr>Ahead := (Ahead L)(i := s)\<rparr>) j + (if i < j then length (Ahead L i) else 0) =
     layout_pos L j + (if i < j then length s else 0)"
  by (induction j) auto

lemma kill_plain: "kill i n (L\<lparr>Ahead := (Ahead L)(i := Ahead L i)\<rparr>) = kill i n L"
  by simp

lemma layout_start_text: "layout_text (layout_start s) = s"
proof -
  have "map (\<lambda>i. if i < length s then [s ! i] else []) [0..<length s] = map (\<lambda>i. [s ! i]) [0..<length s]"
    by (rule map_cong) auto
  then have "concat (map (\<lambda>i. if i < length s then [s ! i] else []) [0..<length s]) = s"
    by (simp add: concat_map_singleton map_nth del: map_eq_conv)
  moreover have "layout_cell (layout_start s) = (\<lambda>i. if i < length s then [s ! i] else [])"
    by (rule ext) (simp add: layout_cell_def layout_start_def)
  ultimately show ?thesis
    by (simp add: layout_text_def layout_between_def) (simp add: layout_start_def)
qed

lemma layout_start_pos: "layout_pos (layout_start s) i = i"
  by (induction i) (simp_all add: layout_start_def)

end
