(* ===== verification/RewriteBuffer.thy ===== *)
theory RewriteBuffer
  imports EditLayout DeltaTree RewriteRope
begin

text \<open>
  \<^verbatim>\<open>RewriteBuffer\<close> and \<^verbatim>\<open>Rewriter\<close>
  (\<^verbatim>\<open>lib/Rewrite/Rewriter.cpp\<close>, \<^verbatim>\<open>include/clang/Rewrite/Rewriter.h\<close>): edits
  named by offsets of the original file, carried out on the rope at the offset the delta tree maps
  them to. The correctness argument is a client of the interfaces \<open>delta_store\<close> and
  \<open>text_store\<close> alone: inside the locale \<open>edited_text\<close> every edit is shown to take a
  representation of a \<open>layout\<close> to a representation of the edited layout; the interpretation
  instantiates it with the models of the delta tree and of the rope.
\<close>

section \<open>The edit buffer\<close>

record rewrite_buffer =
  Deltas :: delta_node
  Buffer :: rope

definition RewriteBuffer_empty :: rewrite_buffer where
  "RewriteBuffer_empty = \<lparr>Deltas = DeltaTree_empty, Buffer = RewriteRope_empty\<rparr>"

definition RewriteBuffer_Initialize :: "char list \<Rightarrow> rewrite_buffer \<Rightarrow> rewrite_buffer option" where
  "RewriteBuffer_Initialize s RB = map_option (\<lambda>b. RB\<lparr>Buffer := b\<rparr>) (RewriteRope_assign s (Buffer RB))"

definition getMappedOffset :: "u32 \<Rightarrow> bool \<Rightarrow> rewrite_buffer \<Rightarrow> u32 option" where
  "getMappedOffset OrigOffset AfterInserts RB =
     map_option (\<lambda>d. d + OrigOffset) (getDeltaAt (OrigOffset + of_bool AfterInserts) (Deltas RB))"

definition RewriteBuffer_AddDelta :: "u32 \<Rightarrow> u32 \<Rightarrow> rewrite_buffer \<Rightarrow> rewrite_buffer option" where
  "RewriteBuffer_AddDelta OrigOffset Change RB =
     map_option (\<lambda>t. RB\<lparr>Deltas := t\<rparr>) (AddDelta (Deltas RB) OrigOffset Change)"

definition RewriteBuffer_RemoveText :: "u32 \<Rightarrow> u32 \<Rightarrow> rewrite_buffer \<Rightarrow> rewrite_buffer option" where
  "RewriteBuffer_RemoveText OrigOffset Size RB =
     (if Size = 0 then Some RB
      else do {
        RealOffset \<leftarrow> getMappedOffset OrigOffset True RB;
        asserting (RealOffset + Size < of_nat (RewriteRope_size (Buffer RB)));
        b \<leftarrow> RewriteRope_erase (unat RealOffset) (unat Size) (Buffer RB);
        RewriteBuffer_AddDelta OrigOffset (- Size) (RB\<lparr>Buffer := b\<rparr>) })"

definition RewriteBuffer_InsertText :: "u32 \<Rightarrow> char list \<Rightarrow> bool \<Rightarrow> rewrite_buffer \<Rightarrow> rewrite_buffer option" where
  "RewriteBuffer_InsertText OrigOffset Str InsertAfter RB =
     (if length Str = 0 then Some RB
      else do {
        RealOffset \<leftarrow> getMappedOffset OrigOffset InsertAfter RB;
        b \<leftarrow> RewriteRope_insert (unat RealOffset) Str (Buffer RB);
        RewriteBuffer_AddDelta OrigOffset (of_nat (length Str)) (RB\<lparr>Buffer := b\<rparr>) })"

definition RewriteBuffer_ReplaceText :: "u32 \<Rightarrow> u32 \<Rightarrow> char list \<Rightarrow> rewrite_buffer \<Rightarrow> rewrite_buffer option" where
  "RewriteBuffer_ReplaceText OrigOffset OrigLength NewStr RB = do {
     RealOffset \<leftarrow> getMappedOffset OrigOffset False RB;
     b1 \<leftarrow> RewriteRope_erase (unat RealOffset) (unat OrigLength) (Buffer RB);
     b2 \<leftarrow> RewriteRope_insert (unat RealOffset) NewStr b1;
     if OrigLength \<noteq> of_nat (length NewStr)
     then RewriteBuffer_AddDelta OrigOffset (of_nat (length NewStr) - OrigLength) (RB\<lparr>Buffer := b2\<rparr>)
     else Some (RB\<lparr>Buffer := b2\<rparr>) }"

section \<open>Edited text over the two interfaces\<close>

lemma unat_of_nat_u32 [u32_arith]: "i < 2 ^ 32 \<Longrightarrow> unat (of_nat i :: u32) = i"
  by (simp add: unsigned_of_nat take_bit_nat_eq_self)

lemma of_nat_u32_less [u32_arith]:
  "i < 2 ^ 32 \<Longrightarrow> j < 2 ^ 32 \<Longrightarrow> (of_nat i :: u32) < of_nat j \<longleftrightarrow> i < j"
  unfolding word_less_nat_alt by (simp only: unat_of_nat_u32)

lemma of_nat_u32_0: "i < 2 ^ 32 \<Longrightarrow> (of_nat i :: u32) = 0 \<Longrightarrow> i = 0"
  using unat_of_nat_u32 [of i] by simp

locale edited_text =
  ds: delta_store dinv dempty get add + ts: text_store tinv chars len assign ins del
  for dinv :: "'t \<Rightarrow> bool" and dempty :: 't and get :: "u32 \<Rightarrow> 't \<Rightarrow> u32 option"
    and add :: "'t \<Rightarrow> u32 \<Rightarrow> u32 \<Rightarrow> 't option"
    and tinv :: "'b \<Rightarrow> bool" and chars :: "'b \<Rightarrow> char list" and len :: "'b \<Rightarrow> nat"
    and assign :: "char list \<Rightarrow> 'b \<Rightarrow> 'b option" and ins :: "nat \<Rightarrow> char list \<Rightarrow> 'b \<Rightarrow> 'b option"
    and del :: "nat \<Rightarrow> nat \<Rightarrow> 'b \<Rightarrow> 'b option"
begin

definition represents :: "layout \<Rightarrow> 't \<Rightarrow> 'b \<Rightarrow> bool" where
  "represents L t b \<longleftrightarrow> dinv t \<and> tinv b \<and> layout_ok L \<and> chars b = layout_text L \<and>
     (\<forall>i \<le> Suc (length (Original L)). \<not> Inner L i \<longrightarrow>
        get (of_nat i) t = Some (of_nat (layout_pos L i) - of_nat i))"

lemma represents_start:
  assumes "tinv b" "chars b = s" "length s + 1 < 2 ^ 32"
  shows "represents (layout_start s) dempty b"
  using assms ds.invar_empty ds.get_empty
  by (auto simp: represents_def layout_ok_def layout_start_text layout_start_pos) (auto simp: layout_start_def)

lemma layout_pos_le:
  assumes "i \<le> length (Original L)"
  shows "layout_pos L i + length (Ahead L i) \<le> length (layout_text L)"
  using assms by (simp add: layout_text_at [OF assms] length_layout_between)

text \<open>The two lookups: in front of, and behind, the text inserted at an offset.\<close>

lemma mapped_before:
  assumes "represents L t b" "i \<le> length (Original L)" "\<not> Inner L i"
  obtains d where "get (of_nat i) t = Some d" "unat (d + of_nat i) = layout_pos L i"
    "layout_pos L i \<le> length (chars b)"
proof
  show "get (of_nat i) t = Some (of_nat (layout_pos L i) - of_nat i)"
    using assms by (simp add: represents_def)
  have "layout_pos L i \<le> length (chars b)" "length (chars b) < 2 ^ 32"
    using layout_pos_le [OF assms(2)] assms(1) by (auto simp: represents_def layout_ok_def)
  then show "unat (of_nat (layout_pos L i) - of_nat i + of_nat i :: u32) = layout_pos L i"
    "layout_pos L i \<le> length (chars b)" by (simp_all add: u32_arith)
qed

lemma mapped_after:
  assumes "represents L t b" "i \<le> length (Original L)" "\<not> Dead L i"
  obtains d where "get (of_nat i + 1) t = Some d"
    "unat (d + of_nat i) = layout_pos L i + length (Ahead L i)"
    "layout_pos L i + length (Ahead L i) \<le> length (chars b)"
proof
  have "\<not> Inner L (Suc i)" using assms(1,3) by (auto simp: represents_def layout_ok_def)
  then have "get (of_nat (Suc i)) t = Some (of_nat (layout_pos L (Suc i)) - of_nat (Suc i))"
    using assms(1,2) unfolding represents_def by (auto simp del: of_nat_Suc)
  then show "get (of_nat i + 1) t = Some (of_nat (layout_pos L i + length (Ahead L i)) - of_nat i)"
    using assms(3) by (simp add: add.commute)
  have "layout_pos L i + length (Ahead L i) \<le> length (chars b)" "length (chars b) < 2 ^ 32"
    using layout_pos_le [OF assms(2)] assms(1) by (auto simp: represents_def layout_ok_def)
  then show "unat (of_nat (layout_pos L i + length (Ahead L i)) - of_nat i + of_nat i :: u32) =
      layout_pos L i + length (Ahead L i)"
    "layout_pos L i + length (Ahead L i) \<le> length (chars b)" by (simp_all add: u32_arith del: of_nat_add)
qed

text \<open>What an edit has to establish: the new text, and that one delta accounts for the new positions.\<close>

lemma represents_step:
  assumes "represents L t b" "i \<le> length (Original L)" "tinv b'" "layout_ok L'" "chars b' = layout_text L'"
    "Original L' = Original L"
    "d = 0 \<and> t' = t \<or> d \<noteq> 0 \<and> add t (of_nat i) d = Some t'"
    "\<And>j. \<not> Inner L' j \<Longrightarrow> \<not> Inner L j \<and>
       (of_nat (layout_pos L' j) :: u32) = of_nat (layout_pos L j) + (if i < j then d else 0)"
  shows "represents L' t' b'"
  unfolding represents_def
proof (intro conjI allI impI)
  have t: "dinv t" and n: "length (Original L) + 1 < 2 ^ 32"
    using assms(1) by (auto simp: represents_def layout_ok_def)
  show "dinv t'" using assms(7) t ds.invar_add by blast
  fix j
  assume j: "j \<le> Suc (length (Original L'))" "\<not> Inner L' j"
  have old: "get (of_nat j) t = Some (of_nat (layout_pos L j) - of_nat j)"
    using assms(1,6,8) j by (simp add: represents_def)
  have "(of_nat i :: u32) < of_nat j \<longleftrightarrow> i < j"
    using j(1) assms(2,6) n by (intro of_nat_u32_less) auto
  then have "get (of_nat j) t' = map_option (\<lambda>r. r + (if i < j then d else 0)) (get (of_nat j) t)"
    using assms(7) ds.get_add [OF t, of "of_nat i" d t' "of_nat j"] by (auto simp: option.map_ident)
  then show "get (of_nat j) t' = Some (of_nat (layout_pos L' j) - of_nat j)"
    using old assms(8) [OF j(2)] by simp
qed (use assms in auto)

lemma insert_step:
  assumes rep: "represents L t b" and ok: "edit_ok L (Insert i s after)" and "s \<noteq> []"
    and p: "p = layout_pos L i + (if after then length (Ahead L i) else 0)"
  shows "\<exists>b' t'. ins p s b = Some b' \<and> add t (of_nat i) (of_nat (length s)) = Some t' \<and>
    represents (apply_edit (Insert i s after) L) t' b'"
proof -
  let ?I = "if after then Ahead L i @ s else s @ Ahead L i"
  let ?L = "L\<lparr>Ahead := (Ahead L)(i := ?I)\<rparr>"
  have i: "i \<le> length (Original L)" using ok by simp
  have tinv: "tinv b" "dinv t" "chars b = layout_text L" using rep by (auto simp: represents_def)
  let ?rest = "(if i < length (Original L) \<and> \<not> Dead L i then [Original L ! i] else []) @
      layout_between L (Suc i) (Suc (length (Original L)))"
  have before: "layout_text L = layout_between L 0 i @ Ahead L i @ ?rest"
    using layout_text_at [OF i] by simp
  have same: "layout_between ?L 0 i = layout_between L 0 i"
    "layout_between ?L (Suc i) m = layout_between L (Suc i) m" for m
    by (rule layout_between_cong; simp add: layout_cell_def)+
  have after: "layout_text ?L = layout_between L 0 i @ ?I @ ?rest"
    using layout_text_at [of i ?L] i same by simp
  have "p \<le> length (chars b)" using layout_pos_le [OF i] tinv p by simp
  moreover have "string_fits s" "length (chars b) + length s < 2 ^ 32" using ok tinv(3) by simp_all
  ultimately obtain b' where
    b': "ins p s b = Some b'" "tinv b'" "chars b' = take p (chars b) @ s @ drop p (chars b)"
    using ts.ins [OF tinv(1)] by blast
  have "chars b' = layout_text ?L"
    using b'(3) after length_layout_between [OF i] p unfolding tinv(3) before by auto
  moreover have len: "length (layout_text ?L) = length (layout_text L) + length s"
    using before after by auto
  moreover have "layout_ok ?L" using rep ok len by (auto simp: represents_def layout_ok_def)
  moreover have s: "(of_nat (length s) :: u32) \<noteq> 0"
  proof
    assume "(of_nat (length s) :: u32) = 0"
    moreover have "length s < 2 ^ 32" using ok by simp
    ultimately show False using of_nat_u32_0 [of "length s"] \<open>s \<noteq> []\<close> by simp
  qed
  moreover obtain t' where t': "add t (of_nat i) (of_nat (length s)) = Some t'"
    using ds.add_total [OF tinv(2) s] by blast
  moreover have "layout_pos ?L j = layout_pos L j + (if i < j then length s else 0)" for j
    using insert_pos [of L i ?I j] by (auto split: if_splits)
  ultimately have "represents ?L t' b'"
    using b'(2) by (intro represents_step [OF rep i, where d = "of_nat (length s)"]) auto
  then show ?thesis using b'(1) t' by auto
qed

lemma layout_ok_kill:
  assumes "layout_ok L" "range_free L i n" "length (layout_text (kill i n L)) < 2 ^ 32"
  shows "layout_ok (kill i n L)"
  using assms by (auto simp: layout_ok_def kill_selectors range_free_def)

lemma replace_step:
  assumes rep: "represents L t b" and free: "range_free L i n" and I: "Ahead L i = I"
    and p: "p = layout_pos L i + length I" and lt: "p + n < length (layout_text L)"
    and fit: "length (layout_text L) + length s < 2 ^ 32" "string_fits s"
    and t': "d = of_nat (length s) - of_nat n" "d = 0 \<and> t' = t \<or> d \<noteq> 0 \<and> add t (of_nat i) d = Some t'"
  shows "\<exists>b' b''. del p n b = Some b' \<and> ins p s b' = Some b'' \<and> tinv b' \<and> chars b' = layout_text (kill i n L) \<and>
    represents (kill i n (L\<lparr>Ahead := (Ahead L)(i := I @ s)\<rparr>)) t' b''"
proof -
  let ?L = "kill i n (L\<lparr>Ahead := (Ahead L)(i := I @ s)\<rparr>)"
  let ?post = "layout_between L (i + n) (Suc (length (Original L)))"
  have i: "i \<le> length (Original L)" using free by (simp add: range_free_def)
  have tinv: "tinv b" "chars b = layout_text L" using rep by (auto simp: represents_def)
  have mid: "length (take n (drop i (Original L))) = n" using free by (auto simp: range_free_def)
  have before: "layout_text L = layout_between L 0 i @ I @ take n (drop i (Original L)) @ ?post"
    using layout_text_range [OF free] I by simp
  have after: "layout_text ?L = layout_between L 0 i @ I @ s @ ?post"
    using kill_text [OF free, of "I @ s"] by simp
  have between: "layout_text (kill i n L) = layout_between L 0 i @ I @ ?post"
    using kill_text [OF free, of I] unfolding I [symmetric] kill_plain by simp
  have len: "length (layout_between L 0 i) = layout_pos L i" by (rule length_layout_between [OF i])
  have plen: "p = length (layout_between L 0 i @ I)" using p len by simp
  have cut: "take p (chars b) = layout_between L 0 i @ I" "drop (p + n) (chars b) = ?post"
    using mid unfolding tinv(2) before plen by simp_all
  obtain b' where b': "del p n b = Some b'" "tinv b'" "chars b' = (layout_between L 0 i @ I) @ ?post"
    using ts.del [OF tinv(1), of p n] lt unfolding tinv(2) [symmetric] cut by blast
  have "p \<le> length (chars b')" using b'(3) plen by simp
  moreover have "length (chars b') + length s < 2 ^ 32" using b'(3) before fit(1) by simp
  ultimately obtain b'' where
    b'': "ins p s b' = Some b''" "tinv b''" "chars b'' = take p (chars b') @ s @ drop p (chars b')"
    using ts.ins [OF b'(2) _ fit(2)] by blast
  have chars: "chars b'' = layout_text ?L" using b''(3) after unfolding b'(3) plen by simp
  have fit': "length (layout_text ?L) < 2 ^ 32" using before after fit(1) mid by simp
  have pos: "(of_nat (layout_pos ?L j) :: u32) = of_nat (layout_pos L j) + (if i < j then d else 0)"
    if "\<not> Inner ?L j" for j
  proof (cases "j \<le> i")
    case True
    then show ?thesis by (simp add: kill_pos_before)
  next
    case False
    then have "i + n \<le> j" using that by (auto simp: kill_selectors)
    from kill_pos_after [OF free this, of "I @ s"]
    have "layout_pos ?L j + n = layout_pos L j + length s" by (simp add: I)
    then have "(of_nat (layout_pos ?L j) + of_nat n :: u32) = of_nat (layout_pos L j) + of_nat (length s)"
      by (metis of_nat_add)
    then show ?thesis using False by (simp add: t'(1) algebra_simps)
  qed
  have "layout_ok ?L"
    using rep free fit' by (auto simp: represents_def layout_ok_def kill_selectors range_free_def)
  then have "represents ?L t' b''"
    using b''(2) chars t'(2) pos
    by (intro represents_step [OF rep i, where d = d]) (auto simp: kill_selectors)
  then show ?thesis using b'(1,2,3) b''(1) between by auto
qed

lemma remove_step:
  assumes rep: "represents L t b" and ok: "edit_ok L (Remove i n)"
    and p: "p = layout_pos L i + length (Ahead L i)"
  shows "\<exists>b' t'. del p n b = Some b' \<and> add t (of_nat i) (- of_nat n) = Some t' \<and>
    represents (kill i n L) t' b'"
proof -
  have n: "0 < n" "n < 2 ^ 32"
    using rep ok by (auto simp: represents_def layout_ok_def range_free_def)
  then have d: "(- of_nat n :: u32) \<noteq> 0" using of_nat_u32_0 [of n] by auto
  have "dinv t" using rep by (simp add: represents_def)
  from ds.add_total [OF this d] obtain t' where t': "add t (of_nat i) (- of_nat n) = Some t'" by blast
  have lim: "p + n < length (layout_text L)" "length (layout_text L) + length [] < 2 ^ 32" "string_fits []"
    using rep ok p by (simp_all add: represents_def layout_ok_def string_fits_def)
  have "\<exists>b' b''. del p n b = Some b' \<and> ins p [] b' = Some b'' \<and> tinv b' \<and> chars b' = layout_text (kill i n L) \<and>
    represents (kill i n (L\<lparr>Ahead := (Ahead L)(i := Ahead L i @ [])\<rparr>)) t' b''"
    using t' d ok by (intro replace_step [OF rep _ refl p lim, where d = "- of_nat n"]) auto
  then show ?thesis using t'(1) unfolding append_Nil2 kill_plain represents_def by auto
qed

end

section \<open>The code's buffer represents the edited file\<close>

interpretation rb: edited_text delta_inv DeltaTree_empty getDeltaAt AddDelta rope_inv rope_text
  RewriteRope_size RewriteRope_assign RewriteRope_insert RewriteRope_erase
  by (intro edited_text.intro dt.delta_store_axioms rope.text_store_axioms)

definition buffer_represents :: "layout \<Rightarrow> rewrite_buffer \<Rightarrow> bool" where
  "buffer_represents L RB \<longleftrightarrow> delta_inv (Deltas RB) \<and> rope_inv (Buffer RB) \<and> layout_ok L \<and>
     rope_text (Buffer RB) = layout_text L \<and>
     (\<forall>i \<le> Suc (length (Original L)). \<not> Inner L i \<longrightarrow>
        getDeltaAt (of_nat i) (Deltas RB) = Some (of_nat (layout_pos L i) - of_nat i))"

lemma buffer_represents_rb: "buffer_represents L RB = rb.represents L (Deltas RB) (Buffer RB)"
  by (simp add: buffer_represents_def rb.represents_def)

lemma u32_of_unat: "unat (x :: u32) = n \<Longrightarrow> x = of_nat n"
  by auto

lemma getMappedOffset_before:
  assumes "buffer_represents L RB" "i \<le> length (Original L)" "\<not> Inner L i"
  obtains x where "getMappedOffset (of_nat i) False RB = Some x" "unat x = layout_pos L i"
    "layout_pos L i \<le> length (layout_text L)"
proof -
  have rep: "rb.represents L (Deltas RB) (Buffer RB)" using assms(1) by (simp add: buffer_represents_rb)
  have chars: "rope_text (Buffer RB) = layout_text L" using assms(1) by (simp add: buffer_represents_def)
  show ?thesis
    by (rule rb.mapped_before [OF rep assms(2,3)], rule that) (simp_all add: getMappedOffset_def chars)
qed

lemma getMappedOffset_after:
  assumes "buffer_represents L RB" "i \<le> length (Original L)" "\<not> Dead L i"
  obtains x where "getMappedOffset (of_nat i) True RB = Some x"
    "unat x = layout_pos L i + length (Ahead L i)"
    "layout_pos L i + length (Ahead L i) \<le> length (layout_text L)"
proof -
  have rep: "rb.represents L (Deltas RB) (Buffer RB)" using assms(1) by (simp add: buffer_represents_rb)
  have chars: "rope_text (Buffer RB) = layout_text L" using assms(1) by (simp add: buffer_represents_def)
  show ?thesis
    by (rule rb.mapped_after [OF rep assms(2,3)], rule that) (simp_all add: getMappedOffset_def chars)
qed

fun perform :: "edit \<Rightarrow> rewrite_buffer \<Rightarrow> rewrite_buffer option" where
  "perform (Insert i s after) RB = RewriteBuffer_InsertText (of_nat i) s after RB"
| "perform (Remove i n) RB = RewriteBuffer_RemoveText (of_nat i) (of_nat n) RB"
| "perform (Replace i n s) RB = RewriteBuffer_ReplaceText (of_nat i) (of_nat n) s RB"

fun perform_all :: "edit list \<Rightarrow> rewrite_buffer \<Rightarrow> rewrite_buffer option" where
  "perform_all [] RB = Some RB"
| "perform_all (e # es) RB = Option.bind (perform e RB) (perform_all es)"

lemma perform_Insert:
  assumes rep: "buffer_represents L RB" and ok: "edit_ok L (Insert i s after)"
  shows "\<exists>RB'. perform (Insert i s after) RB = Some RB' \<and> buffer_represents (apply_edit (Insert i s after) L) RB'"
proof (cases "s = []")
  case True
  then have "apply_edit (Insert i s after) L = L" by simp
  then show ?thesis using rep True by (simp add: RewriteBuffer_InsertText_def del: apply_edit.simps)
next
  case False
  let ?p = "layout_pos L i + (if after then length (Ahead L i) else 0)"
  have i: "i \<le> length (Original L)" "\<not> Inner L i" "after \<Longrightarrow> \<not> Dead L i" using ok by auto
  obtain x where x: "getMappedOffset (of_nat i) after RB = Some x" "unat x = ?p"
  proof (cases after)
    case True
    then show ?thesis using getMappedOffset_after [OF rep i(1) i(3)] that by auto
  next
    case False
    then show ?thesis using getMappedOffset_before [OF rep i(1,2)] that by auto
  qed
  have rep': "rb.represents L (Deltas RB) (Buffer RB)" using rep by (simp add: buffer_represents_rb)
  show ?thesis
    using rb.insert_step [OF rep' ok False refl] x False
    by (auto simp: RewriteBuffer_InsertText_def RewriteBuffer_AddDelta_def buffer_represents_rb
        simp del: apply_edit.simps)
qed

lemma perform_Remove:
  assumes rep: "buffer_represents L RB" and ok: "edit_ok L (Remove i n)"
  shows "\<exists>RB'. perform (Remove i n) RB = Some RB' \<and> buffer_represents (kill i n L) RB'"
proof -
  let ?p = "layout_pos L i + length (Ahead L i)"
  have i: "i \<le> length (Original L)" "\<not> Dead L i" "0 < n" and lim: "?p + n < length (layout_text L)"
    using ok by (auto simp: range_free_def)
  obtain x where x: "getMappedOffset (of_nat i) True RB = Some x" "unat x = ?p"
    using getMappedOffset_after [OF rep i(1,2)] by blast
  have bounds: "length (layout_text L) < 2 ^ 32" "rope_inv (Buffer RB)" "rope_text (Buffer RB) = layout_text L"
    using rep by (auto simp: buffer_represents_def layout_ok_def)
  have n: "(of_nat n :: u32) \<noteq> 0" "unat (of_nat n :: u32) = n"
    using i(3) lim bounds(1) of_nat_u32_0 [of n] by (auto simp: u32_arith)
  have "x + of_nat n = of_nat (?p + n)" using u32_of_unat [OF x(2)] by simp
  then have "x + of_nat n < of_nat (RewriteRope_size (Buffer RB))"
    using lim bounds rope_size_text [OF bounds(2)] by (simp add: of_nat_u32_less del: of_nat_add)
  moreover have rep': "rb.represents L (Deltas RB) (Buffer RB)" using rep by (simp add: buffer_represents_rb)
  ultimately show ?thesis
    using rb.remove_step [OF rep' ok refl] x n
    by (auto simp: RewriteBuffer_RemoveText_def RewriteBuffer_AddDelta_def buffer_represents_rb)
qed

lemma perform_Replace:
  assumes rep: "buffer_represents L RB" and ok: "edit_ok L (Replace i n s)"
  shows "\<exists>RB'. perform (Replace i n s) RB = Some RB' \<and> buffer_represents (apply_edit (Replace i n s) L) RB'"
proof -
  let ?p = "layout_pos L i" and ?d = "of_nat (length s) - of_nat n :: u32"
  have i: "i \<le> length (Original L)" "\<not> Inner L i" "range_free L i n" "Ahead L i = []"
    and lim: "?p + n < length (layout_text L)" "length (layout_text L) + length s < 2 ^ 32" "string_fits s"
    using ok rep by (auto simp: range_free_def buffer_represents_def layout_ok_def)
  obtain x where x: "getMappedOffset (of_nat i) False RB = Some x" "unat x = ?p"
    using getMappedOffset_before [OF rep i(1,2)] by blast
  have n: "unat (of_nat n :: u32) = n" using lim by (simp add: u32_arith)
  have rep': "rb.represents L (Deltas RB) (Buffer RB)" using rep by (simp add: buffer_represents_rb)
  obtain t' where t': "?d = 0 \<and> t' = Deltas RB \<or> ?d \<noteq> 0 \<and> AddDelta (Deltas RB) (of_nat i) ?d = Some t'"
    using rep dt.add_total [of "Deltas RB" ?d] by (cases "?d = 0") (auto simp: buffer_represents_def)
  have p: "?p = layout_pos L i + length []" by simp
  from rb.replace_step [OF rep' i(3,4) p lim refl t'] obtain b' b'' where
    b: "RewriteRope_erase ?p n (Buffer RB) = Some b'" "RewriteRope_insert ?p s b' = Some b''"
      "rb.represents (kill i n (L\<lparr>Ahead := (Ahead L)(i := s)\<rparr>)) t' b''" by auto
  have "perform (Replace i n s) RB = (if ?d = 0 then Some (RB\<lparr>Buffer := b''\<rparr>)
      else RewriteBuffer_AddDelta (of_nat i) ?d (RB\<lparr>Buffer := b''\<rparr>))"
    using x n b(1,2) by (auto simp: RewriteBuffer_ReplaceText_def)
  then show ?thesis using b(3) t'
    by (cases "?d = 0") (simp_all add: buffer_represents_rb RewriteBuffer_AddDelta_def)
qed

lemma perform_ok:
  assumes "buffer_represents L RB" "edit_ok L e"
  shows "\<exists>RB'. perform e RB = Some RB' \<and> buffer_represents (apply_edit e L) RB'"
  using assms perform_Insert perform_Remove perform_Replace
  by (cases e) (simp_all del: perform.simps edit_ok.simps)

lemma perform_all_ok:
  assumes "buffer_represents L RB" "edits_ok L es"
  shows "\<exists>RB'. perform_all es RB = Some RB' \<and> buffer_represents (fold apply_edit es L) RB'"
  using assms
proof (induction es arbitrary: L RB)
  case (Cons e es)
  then have e: "edit_ok L e" "edits_ok (apply_edit e L) es" by simp_all
  from perform_ok [OF Cons.prems(1) e(1)] obtain RB1 where
    "perform e RB = Some RB1" "buffer_represents (apply_edit e L) RB1" by blast
  then show ?case using Cons.IH [OF _ e(2)] by simp
qed simp

lemma Initialize_ok:
  assumes "string_fits s"
  shows "\<exists>RB. RewriteBuffer_Initialize s RewriteBuffer_empty = Some RB \<and> buffer_represents (layout_start s) RB \<and>
    rope_linked (Buffer RB)"
proof -
  obtain b where b: "RewriteRope_assign s RewriteRope_empty = Some b" "rope_inv b" "rope_text b = s" "rope_linked b"
    using RewriteRope_assign_step [OF rope_inv_empty(1) assms] rope_inv_empty(3) by blast
  have "length s + 1 < 2 ^ 32" using assms by (simp add: string_fits_def)
  then show ?thesis
    using rb.represents_start [OF b(2,3)] b(1,4)
    by (simp add: RewriteBuffer_Initialize_def RewriteBuffer_empty_def buffer_represents_rb)
qed

text \<open>Insertions keep the leaves of the rope linked.\<close>

lemma perform_Insert_linked:
  assumes "buffer_represents L RB" "edit_ok L (Insert i s after)" "rope_linked (Buffer RB)"
    "perform (Insert i s after) RB = Some RB'"
  shows "rope_linked (Buffer RB')"
proof (cases "s = []")
  case True
  then show ?thesis using assms(3,4) by (simp add: RewriteBuffer_InsertText_def)
next
  case False
  then obtain x :: u32 and b where b: "RewriteRope_insert (unat x) s (Buffer RB) = Some b" "Buffer RB' = b"
    using assms(4) by (auto simp: RewriteBuffer_InsertText_def RewriteBuffer_AddDelta_def bind_eq_Some_conv)
  have inv: "rope_inv (Buffer RB)" and fit: "length (rope_text (Buffer RB)) + length s < 2 ^ 32" "string_fits s"
    using assms(1,2) by (simp_all add: buffer_represents_def)
  have "unat x \<le> length (rope_text (Buffer RB))"
    using b(1) rope_size_text [OF inv] by (simp add: RewriteRope_insert_def)
  from RewriteRope_insert_step [OF inv this fit(2,1)] show ?thesis using b assms(3) by simp
qed

fun is_Insert :: "edit \<Rightarrow> bool" where
  "is_Insert (Insert _ _ _) = True"
| "is_Insert _ = False"

lemma perform_all_linked:
  assumes "buffer_represents L RB" "edits_ok L es" "list_all is_Insert es" "rope_linked (Buffer RB)"
    "perform_all es RB = Some RB'"
  shows "rope_linked (Buffer RB')"
  using assms
proof (induction es arbitrary: L RB)
  case (Cons e es)
  obtain i s after where e: "e = Insert i s after" using Cons.prems(3) by (cases e) auto
  have ok: "edit_ok L (Insert i s after)" "edits_ok (apply_edit (Insert i s after) L) es" "list_all is_Insert es"
    using Cons.prems(2,3) by (simp_all add: e)
  obtain RB1 where 1: "perform (Insert i s after) RB = Some RB1" "perform_all es RB1 = Some RB'"
    using Cons.prems(5) unfolding perform_all.simps e by (elim bind_SomeE)
  have "buffer_represents (apply_edit (Insert i s after) L) RB1"
    using perform_Insert [OF Cons.prems(1) ok(1)] 1(1) by auto
  from Cons.IH [OF this ok(2,3) perform_Insert_linked [OF Cons.prems(1) ok(1) Cons.prems(4) 1(1)] 1(2)] show ?case .
qed simp

section \<open>The rewriter\<close>

text \<open>
  What the rewriter asks of the source manager and the lexer: whether a location is in a file, its
  file and offset, a file's bytes, and the length of the token at a location.
\<close>

record ('loc, 'fid) source_files =
  isFileID :: "'loc \<Rightarrow> bool"
  isValid :: "'loc \<Rightarrow> bool"
  getDecomposedLoc :: "'loc \<Rightarrow> 'fid \<times> u32"
  getBufferData :: "'fid \<Rightarrow> char list"
  MeasureTokenLength :: "'loc \<Rightarrow> u32"

record 'fid rewriter =
  RewriteBuffers :: "'fid \<rightharpoonup> rewrite_buffer"

definition isRewritable :: "('loc, 'fid) source_files \<Rightarrow> 'loc \<Rightarrow> bool" where
  "isRewritable SM Loc = isFileID SM Loc"

definition getLocationOffsetAndFileID :: "('loc, 'fid) source_files \<Rightarrow> 'loc \<Rightarrow> ('fid \<times> u32) option" where
  "getLocationOffsetAndFileID SM Loc = do { asserting (isValid SM Loc); Some (getDecomposedLoc SM Loc) }"

definition getEditBuffer :: "('loc, 'fid) source_files \<Rightarrow> 'fid \<Rightarrow> 'fid rewriter \<Rightarrow> rewrite_buffer option" where
  "getEditBuffer SM FID R = (case RewriteBuffers R FID of
     Some RB \<Rightarrow> Some RB
   | None \<Rightarrow> RewriteBuffer_Initialize (getBufferData SM FID) RewriteBuffer_empty)"

text \<open>The three requests differ in the operation they run on the buffer of the location's file.\<close>

definition Rewriter_edit :: "('loc, 'fid) source_files \<Rightarrow> 'loc \<Rightarrow> (u32 \<Rightarrow> rewrite_buffer \<Rightarrow> rewrite_buffer option) \<Rightarrow>
    'fid rewriter \<Rightarrow> (bool \<times> 'fid rewriter) option" where
  "Rewriter_edit SM Loc f R =
     (if \<not> isRewritable SM Loc then Some (True, R)
      else do {
        (FID, StartOffs) \<leftarrow> getLocationOffsetAndFileID SM Loc;
        RB \<leftarrow> getEditBuffer SM FID R;
        RB' \<leftarrow> f StartOffs RB;
        Some (False, R\<lparr>RewriteBuffers := (RewriteBuffers R)(FID \<mapsto> RB')\<rparr>) })"

definition Rewriter_InsertText :: "('loc, 'fid) source_files \<Rightarrow> 'loc \<Rightarrow> char list \<Rightarrow> bool \<Rightarrow> 'fid rewriter \<Rightarrow>
    (bool \<times> 'fid rewriter) option" where
  "Rewriter_InsertText SM Loc Str InsertAfter =
     Rewriter_edit SM Loc (\<lambda>StartOffs. RewriteBuffer_InsertText StartOffs Str InsertAfter)"

definition Rewriter_RemoveText :: "('loc, 'fid) source_files \<Rightarrow> 'loc \<Rightarrow> u32 \<Rightarrow> 'fid rewriter \<Rightarrow>
    (bool \<times> 'fid rewriter) option" where
  "Rewriter_RemoveText SM Start Len =
     Rewriter_edit SM Start (\<lambda>StartOffs. RewriteBuffer_RemoveText StartOffs Len)"

definition Rewriter_ReplaceText :: "('loc, 'fid) source_files \<Rightarrow> 'loc \<Rightarrow> u32 \<Rightarrow> char list \<Rightarrow> 'fid rewriter \<Rightarrow>
    (bool \<times> 'fid rewriter) option" where
  "Rewriter_ReplaceText SM Start OrigLength NewStr =
     Rewriter_edit SM Start (\<lambda>StartOffs. RewriteBuffer_ReplaceText StartOffs OrigLength NewStr)"

definition getRangeSize :: "('loc, 'fid) source_files \<Rightarrow> 'loc \<Rightarrow> 'loc \<Rightarrow> 'fid rewriter \<Rightarrow> u32 option" where
  "getRangeSize SM Begin End R =
     (if \<not> isRewritable SM Begin \<or> \<not> isRewritable SM End then Some (- 1)
      else do {
        (StartFileID, StartOff) \<leftarrow> getLocationOffsetAndFileID SM Begin;
        (EndFileID, EndOff) \<leftarrow> getLocationOffsetAndFileID SM End;
        if StartFileID \<noteq> EndFileID then Some (- 1)
        else do {
          (E, S) \<leftarrow> (case RewriteBuffers R StartFileID of
              None \<Rightarrow> Some (EndOff, StartOff)
            | Some RB \<Rightarrow> do { E \<leftarrow> getMappedOffset EndOff True RB;
                             S \<leftarrow> getMappedOffset StartOff False RB;
                             Some (E, S) });
          Some (E + MeasureTokenLength SM End - S) } })"

text \<open>
  \<open>std::advance\<close> and the range constructor of \<open>std::string\<close>, over the rope's iterator;
  stepping or reading at the end is undefined.
\<close>

fun rope_advance_by :: "nat \<Rightarrow> rope \<Rightarrow> rope_iterator option \<Rightarrow> rope_iterator option option" where
  "rope_advance_by 0 r it = Some it"
| "rope_advance_by (Suc n) r None = None"
| "rope_advance_by (Suc n) r (Some it) = do { it' \<leftarrow> rope_advance r it; rope_advance_by n r it' }"

fun rope_take :: "nat \<Rightarrow> rope \<Rightarrow> rope_iterator option \<Rightarrow> char list option" where
  "rope_take 0 r it = Some []"
| "rope_take (Suc n) r None = None"
| "rope_take (Suc n) r (Some it) = do {
     c \<leftarrow> rope_deref r it;
     it' \<leftarrow> rope_advance r it;
     map_option ((#) c) (rope_take n r it') }"

definition getRewritenText :: "('loc, 'fid) source_files \<Rightarrow> 'loc \<Rightarrow> 'loc \<Rightarrow> 'fid rewriter \<Rightarrow> char list option" where
  "getRewritenText SM Begin End R =
     (if \<not> isRewritable SM Begin \<or> \<not> isRewritable SM End then Some []
      else do {
        (StartFileID, StartOff) \<leftarrow> getLocationOffsetAndFileID SM Begin;
        (EndFileID, EndOff) \<leftarrow> getLocationOffsetAndFileID SM End;
        if StartFileID \<noteq> EndFileID then Some []
        else case RewriteBuffers R StartFileID of
            None \<Rightarrow>
              (let E = EndOff + MeasureTokenLength SM End;
                   Ptr = drop (unat StartOff) (getBufferData SM StartFileID)
               in do { asserting (unat (E - StartOff) \<le> length Ptr);
                       Some (take (unat (E - StartOff)) Ptr) })
          | Some RB \<Rightarrow> do {
              E0 \<leftarrow> getMappedOffset EndOff True RB;
              S \<leftarrow> getMappedOffset StartOff False RB;
              let E = E0 + MeasureTokenLength SM End
              in do {
                b \<leftarrow> rope_begin (Buffer RB);
                Start \<leftarrow> rope_advance_by (unat S) (Buffer RB) b;
                rope_take (unat (E - S)) (Buffer RB) Start } } })"

text \<open>\<open>ReplaceStmt\<close>, given the statement's range and the pretty printer's output for the new one.\<close>

definition ReplaceStmt :: "('loc, 'fid) source_files \<Rightarrow> 'loc \<Rightarrow> 'loc \<Rightarrow> char list \<Rightarrow> 'fid rewriter \<Rightarrow>
    (bool \<times> 'fid rewriter) option" where
  "ReplaceStmt SM Begin End Str R = do {
     Size \<leftarrow> getRangeSize SM Begin End R;
     if Size = - 1 then Some (True, R)
     else map_option (\<lambda>(_, R'). (False, R')) (Rewriter_ReplaceText SM Begin Size Str R) }"

section \<open>Lemmas on the rewriter\<close>

lemma rope_advance_by_reads:
  "reads r it s \<Longrightarrow> n \<le> length s \<Longrightarrow> \<exists>it'. rope_advance_by n r it = Some it' \<and> reads r it' (drop n s)"
proof (induction n arbitrary: it s)
  case (Suc n)
  then obtain i where i: "it = Some i" "iterator_at r i s" by (cases it) auto
  obtain c s' it' where "s = c # s'" "rope_deref r i = Some c" "rope_advance r i = Some it'" "reads r it' s'"
    using i(2) by (rule rope_advance_reads)
  then show ?case using Suc.IH [of it' s'] Suc.prems(2) i(1) by simp
qed simp

lemma rope_take_reads: "reads r it s \<Longrightarrow> n \<le> length s \<Longrightarrow> rope_take n r it = Some (take n s)"
proof (induction n arbitrary: it s)
  case (Suc n)
  then obtain i where i: "it = Some i" "iterator_at r i s" by (cases it) auto
  obtain c s' it' where "s = c # s'" "rope_deref r i = Some c" "rope_advance r i = Some it'" "reads r it' s'"
    using i(2) by (rule rope_advance_reads)
  then show ?case using Suc.IH [of it' s'] Suc.prems(2) i(1) by simp
qed simp

text \<open>The layout a file is in: of its buffer, or of the unmodified file when it has none.\<close>

definition file_represents :: "('loc, 'fid) source_files \<Rightarrow> 'fid rewriter \<Rightarrow> 'fid \<Rightarrow> layout \<Rightarrow> bool" where
  "file_represents SM R FID L \<longleftrightarrow> (case RewriteBuffers R FID of
     None \<Rightarrow> L = layout_start (getBufferData SM FID) \<and> string_fits (getBufferData SM FID)
   | Some RB \<Rightarrow> buffer_represents L RB \<and> Original L = getBufferData SM FID)"

lemma getEditBuffer_ok:
  assumes "file_represents SM R FID L"
  obtains RB where "getEditBuffer SM FID R = Some RB" "buffer_represents L RB" "Original L = getBufferData SM FID"
proof (cases "RewriteBuffers R FID")
  case None
  then show ?thesis
    using assms Initialize_ok [of "getBufferData SM FID"] that
    by (auto simp: file_represents_def getEditBuffer_def layout_start_def)
next
  case (Some RB)
  then show ?thesis using assms that by (simp add: file_represents_def getEditBuffer_def)
qed

lemma Original_apply_edit [simp]: "Original (apply_edit e L) = Original L"
  by (cases e) (simp_all add: kill_selectors)

lemma Rewriter_edit_ok:
  assumes "isFileID SM Loc" "isValid SM Loc" "getDecomposedLoc SM Loc = (FID, offs)"
    "file_represents SM R FID L" "edit_ok L e" "\<And>RB. f offs RB = perform e RB"
  shows "\<exists>R'. Rewriter_edit SM Loc f R = Some (False, R') \<and> file_represents SM R' FID (apply_edit e L) \<and>
    (\<forall>F. F \<noteq> FID \<longrightarrow> RewriteBuffers R' F = RewriteBuffers R F)"
proof -
  obtain RB where RB: "getEditBuffer SM FID R = Some RB" "buffer_represents L RB"
    "Original L = getBufferData SM FID" using getEditBuffer_ok [OF assms(4)] .
  obtain RB' where RB': "perform e RB = Some RB'" "buffer_represents (apply_edit e L) RB'"
    using perform_ok [OF RB(2) assms(5)] by blast
  then show ?thesis using RB assms
    by (auto simp: Rewriter_edit_def isRewritable_def getLocationOffsetAndFileID_def file_represents_def)
qed

lemma edit_offsets:
  "Rewriter_InsertText SM Loc s after = Rewriter_edit SM Loc (\<lambda>o'. RewriteBuffer_InsertText o' s after)"
  "Rewriter_RemoveText SM Loc m = Rewriter_edit SM Loc (\<lambda>o'. RewriteBuffer_RemoveText o' m)"
  "Rewriter_ReplaceText SM Loc m s = Rewriter_edit SM Loc (\<lambda>o'. RewriteBuffer_ReplaceText o' m s)"
  by (simp_all add: Rewriter_InsertText_def Rewriter_RemoveText_def Rewriter_ReplaceText_def)

lemmas layout_eval = layout_start_def layout_text_def layout_between_def layout_cell_def layout_pos_def
  range_free_def kill_def upt_rec string_fits_def

section \<open>Properties\<close>

text \<open>
  C1: for every sequence of insertions, removals and replacements at offsets of the original file
  (removals disjoint, not reaching the end of the text, with nothing inserted inside them before, the
  text below \<open>2^32\<close> bytes), all operations succeed and the text that the buffer's offsets
  address is the layout's: each surviving character of the file in its place, preceded by what was
  inserted there, in the order the requests ask for. Reading the buffer from \<open>begin\<close> to
  \<open>end\<close> yields that text if only the tree's leaves are linked, which is so after any sequence of
  insertions.
\<close>

theorem RewriteBuffer_edits_correct:
  assumes "length s + 4080 < 2 ^ 32" "edits_ok (layout_start s) es"
  shows "\<exists>RB. Option.bind (RewriteBuffer_Initialize s RewriteBuffer_empty) (perform_all es) = Some RB \<and>
    rope_text (Buffer RB) = layout_text (fold apply_edit es (layout_start s)) \<and>
    buffer_represents (fold apply_edit es (layout_start s)) RB \<and>
    (list_all is_Insert es \<longrightarrow> rope_linked (Buffer RB)) \<and>
    (rope_linked (Buffer RB) \<longrightarrow> (\<exists>it. rope_begin (Buffer RB) = Some it \<and>
      rope_read (length (rope_text (Buffer RB))) (Buffer RB) it = Some (rope_text (Buffer RB))))"
proof -
  obtain RB0 where RB0: "RewriteBuffer_Initialize s RewriteBuffer_empty = Some RB0" "buffer_represents (layout_start s) RB0"
    "rope_linked (Buffer RB0)" using Initialize_ok [of s] assms(1) by (auto simp: string_fits_def)
  from perform_all_ok [OF RB0(2) assms(2)] obtain RB where RB: "perform_all es RB0 = Some RB"
    "buffer_represents (fold apply_edit es (layout_start s)) RB" by blast
  have "\<exists>it. rope_begin (Buffer RB) = Some it \<and>
      rope_read (length (rope_text (Buffer RB))) (Buffer RB) it = Some (rope_text (Buffer RB))" if l: "rope_linked (Buffer RB)"
  proof -
    have inv: "rope_inv (Buffer RB)" using RB(2) by (simp add: buffer_represents_def)
    obtain it where it: "rope_begin (Buffer RB) = Some it" "reads (Buffer RB) it (rope_text (Buffer RB))"
      by (rule rope_begin_linked [OF inv l])
    from rope_read_reads [OF it(2) order_refl] it(1) show ?thesis by blast
  qed
  moreover have "list_all is_Insert es \<longrightarrow> rope_linked (Buffer RB)"
    using perform_all_linked [OF RB0(2) assms(2) _ RB0(3) RB(1)] by blast
  moreover have "rope_text (Buffer RB) = layout_text (fold apply_edit es (layout_start s))"
    using RB(2) by (simp add: buffer_represents_def)
  ultimately show ?thesis using RB0(1) RB by (intro exI [of _ RB] conjI) simp_all
qed

theorem RewriteBuffer_edits_correct_witness:
  "\<exists>RB. Option.bind (RewriteBuffer_Initialize ''abcd'' RewriteBuffer_empty)
      (perform_all [Insert 2 ''X'' True, Insert 2 ''Y'' False, Remove 0 1, Insert 2 ''Z'' True]) = Some RB \<and>
    rope_text (Buffer RB) = ''bYXZcd''"
proof -
  have "edits_ok (layout_start ''abcd'') [Insert 2 ''X'' True, Insert 2 ''Y'' False, Remove 0 1, Insert 2 ''Z'' True]"
    by (auto simp: layout_eval)
  moreover have "layout_text (fold apply_edit [Insert 2 ''X'' True, Insert 2 ''Y'' False, Remove 0 1, Insert 2 ''Z'' True]
      (layout_start ''abcd'')) = ''bYXZcd''"
    by (simp add: layout_eval)
  ultimately show ?thesis
    using RewriteBuffer_edits_correct [of "''abcd''"
        "[Insert 2 ''X'' True, Insert 2 ''Y'' False, Remove 0 1, Insert 2 ''Z'' True]"] by auto
qed

text \<open>
  C7: in every such state, the mapped offset of a character that was not removed is where that
  character now is.
\<close>

theorem getMappedOffset_finds_character:
  assumes "buffer_represents L RB" "i < length (Original L)" "\<not> Dead L i"
  shows "\<exists>x. getMappedOffset (of_nat i) True RB = Some x \<and> unat x < RewriteRope_size (Buffer RB) \<and>
    rope_text (Buffer RB) ! unat x = Original L ! i"
proof -
  have i: "i \<le> length (Original L)" using assms(2) by simp
  obtain x where x: "getMappedOffset (of_nat i) True RB = Some x"
    "unat x = layout_pos L i + length (Ahead L i)" using getMappedOffset_after [OF assms(1) i assms(3)] .
  have chars: "rope_text (Buffer RB) = layout_between L 0 i @ Ahead L i @ Original L ! i #
      layout_between L (Suc i) (Suc (length (Original L)))" and inv: "rope_inv (Buffer RB)"
    using assms layout_text_at [OF i] by (auto simp: buffer_represents_def)
  have "unat x = length (layout_between L 0 i @ Ahead L i)"
    using x(2) length_layout_between [OF i] by simp
  then have "unat x < length (rope_text (Buffer RB)) \<and> rope_text (Buffer RB) ! unat x = Original L ! i"
    unfolding chars by (simp add: nth_append)
  then show ?thesis using x(1) rope_size_text [OF inv] by auto
qed

theorem getMappedOffset_finds_character_witness:
  "\<exists>RB x. Option.bind (RewriteBuffer_Initialize ''ab'' RewriteBuffer_empty) (perform_all [Insert 1 ''XY'' True]) = Some RB \<and>
    getMappedOffset 1 True RB = Some x \<and> rope_text (Buffer RB) ! unat x = CHR ''b''"
proof -
  have "edits_ok (layout_start ''ab'') [Insert 1 ''XY'' True]" by (auto simp: layout_eval)
  moreover obtain RB0 where RB0: "RewriteBuffer_Initialize ''ab'' RewriteBuffer_empty = Some RB0"
    "buffer_represents (layout_start ''ab'') RB0" using Initialize_ok [of "''ab''"] by (auto simp: string_fits_def)
  ultimately obtain RB where RB: "perform_all [Insert 1 ''XY'' True] RB0 = Some RB"
    "buffer_represents (fold apply_edit [Insert 1 ''XY'' True] (layout_start ''ab'')) RB"
    using perform_all_ok by blast
  from getMappedOffset_finds_character [OF RB(2), of 1]
  obtain x where "getMappedOffset 1 True RB = Some x" "rope_text (Buffer RB) ! unat x = CHR ''b''"
    by (auto simp: layout_start_def)
  then show ?thesis using RB0(1) RB(1) by (simp del: perform_all.simps)
qed

text \<open>
  C10: after a removal, the position \<^verbatim>\<open>getMappedOffset\<close> gives for an insertion behind the
  text at the removed range's own start is too small by the length of the range: it is not the
  position after the text inserted there, but the removed length in front of it.
\<close>

theorem getMappedOffset_after_RemoveText:
  assumes "buffer_represents L RB" "edit_ok L (Remove i n)"
  shows "\<exists>RB'. RewriteBuffer_RemoveText (of_nat i) (of_nat n) RB = Some RB' \<and>
    getMappedOffset (of_nat i) True RB' = Some (of_nat (layout_pos L i + length (Ahead L i)) - of_nat n)"
proof -
  have i: "i \<le> length (Original L)" "\<not> Dead L i" "0 < n" using assms(2) by (auto simp: range_free_def)
  have len: "length (Original L) + 1 < 2 ^ 32" "layout_pos L i + length (Ahead L i) + n < length (layout_text L)"
      "length (layout_text L) < 2 ^ 32"
    using assms by (auto simp: buffer_represents_def layout_ok_def)
  obtain RB' where RB': "perform (Remove i n) RB = Some RB'"
    using perform_Remove [OF assms] by blast
  obtain x where x: "getMappedOffset (of_nat i) True RB = Some x"
    "unat x = layout_pos L i + length (Ahead L i)" using getMappedOffset_after [OF assms(1) i(1,2)] .
  have n: "(of_nat n :: u32) \<noteq> 0" using of_nat_u32_0 [of n] i(3) len by auto
  obtain t where t: "AddDelta (Deltas RB) (of_nat i) (- of_nat n) = Some t" "Deltas RB' = t"
    using RB' n by (auto simp: RewriteBuffer_RemoveText_def RewriteBuffer_AddDelta_def bind_eq_Some_conv)
  have lt: "(of_nat i :: u32) < of_nat i + 1"
    using of_nat_u32_less [of i "Suc i"] i(1) len(1) by (simp add: add.commute)
  have "delta_inv (Deltas RB)" using assms(1) by (simp add: buffer_represents_def)
  note after = dt.get_add_after [OF this t(1) lt]
  obtain d where d: "getDeltaAt (of_nat i + 1) (Deltas RB) = Some d" "x = d + of_nat i"
    using x(1) by (auto simp: getMappedOffset_def)
  have "getMappedOffset (of_nat i) True RB' = Some (x - of_nat n)"
    using after [OF d(1)] by (simp add: getMappedOffset_def t(2) d(2))
  then show ?thesis using RB' u32_of_unat [OF x(2)] by simp
qed

theorem getMappedOffset_after_RemoveText_witness:
  "\<exists>RB RB'. RewriteBuffer_Initialize ''abcdefgh'' RewriteBuffer_empty = Some RB \<and>
    RewriteBuffer_RemoveText 4 2 RB = Some RB' \<and> getMappedOffset 4 True RB' = Some 2"
proof -
  have ok: "edit_ok (layout_start ''abcdefgh'') (Remove 4 2)" by (auto simp: layout_eval)
  obtain RB where RB: "RewriteBuffer_Initialize ''abcdefgh'' RewriteBuffer_empty = Some RB"
    "buffer_represents (layout_start ''abcdefgh'') RB" using Initialize_ok [of "''abcdefgh''"] by (auto simp: string_fits_def)
  from getMappedOffset_after_RemoveText [OF RB(2) ok] RB(1) show ?thesis
    by (auto simp: layout_start_pos) (simp add: layout_start_def)
qed

text \<open>
  C8: the rewriter's requests on a location in a file edit that file's buffer, created from the
  file's bytes on the first request, as the layout of the file is edited, and leave the buffers of
  all other files as they are; a location that is not in a file changes nothing and is reported.
\<close>

theorem Rewriter_requests_correct:
  assumes "isFileID SM Loc \<Longrightarrow> isValid SM Loc \<and> getDecomposedLoc SM Loc = (FID, of_nat i) \<and>
      file_represents SM R FID L \<and> edit_ok L e"
    and "request = (case e of
        Insert j s after \<Rightarrow> Rewriter_InsertText SM Loc s after
      | Remove j n \<Rightarrow> Rewriter_RemoveText SM Loc (of_nat n)
      | Replace j n s \<Rightarrow> Rewriter_ReplaceText SM Loc (of_nat n) s)"
    and "i = (case e of Insert j s after \<Rightarrow> j | Remove j n \<Rightarrow> j | Replace j n s \<Rightarrow> j)"
  shows "if isFileID SM Loc
    then \<exists>R'. request R = Some (False, R') \<and> file_represents SM R' FID (apply_edit e L) \<and>
      (\<forall>F. F \<noteq> FID \<longrightarrow> RewriteBuffers R' F = RewriteBuffers R F)
    else request R = Some (True, R)"
proof (cases "isFileID SM Loc")
  case True
  then have *: "isValid SM Loc" "getDecomposedLoc SM Loc = (FID, of_nat i)" "file_represents SM R FID L" "edit_ok L e"
    using assms(1) by auto
  note ok = Rewriter_edit_ok [OF True *]
  show ?thesis
  proof (cases e)
    case (Insert j s after)
    then show ?thesis using True ok [of "\<lambda>o'. RewriteBuffer_InsertText o' s after"] assms(2,3)
      by (simp add: edit_offsets)
  next
    case (Remove j n)
    then show ?thesis using True ok [of "\<lambda>o'. RewriteBuffer_RemoveText o' (of_nat n)"] assms(2,3)
      by (simp add: edit_offsets)
  next
    case (Replace j n s)
    then show ?thesis using True ok [of "\<lambda>o'. RewriteBuffer_ReplaceText o' (of_nat n) s"] assms(2,3)
      by (simp add: edit_offsets)
  qed
next
  case False
  then show ?thesis using assms(2)
    by (cases e) (simp_all add: edit_offsets Rewriter_edit_def isRewritable_def)
qed

theorem Rewriter_requests_correct_witness:
  "\<exists>R'. Rewriter_InsertText \<lparr>isFileID = (\<lambda>_. True), isValid = (\<lambda>_. True), getDecomposedLoc = (\<lambda>_. ((), 1)),
      getBufferData = (\<lambda>_. ''ab''), MeasureTokenLength = (\<lambda>_. 1)\<rparr> () ''X'' True \<lparr>RewriteBuffers = Map.empty\<rparr> =
    Some (False, R')"
proof -
  let ?SM = "\<lparr>isFileID = (\<lambda>_. True), isValid = (\<lambda>_. True), getDecomposedLoc = (\<lambda>_. ((), 1)),
      getBufferData = (\<lambda>_. ''ab''), MeasureTokenLength = (\<lambda>_. 1)\<rparr> :: (unit, unit) source_files"
  have "file_represents ?SM \<lparr>RewriteBuffers = Map.empty\<rparr> () (layout_start ''ab'')"
    by (simp add: file_represents_def string_fits_def)
  moreover have "edit_ok (layout_start ''ab'') (Insert 1 ''X'' True)" by (auto simp: layout_eval)
  ultimately show ?thesis
    using Rewriter_requests_correct [where SM = ?SM and Loc = "()" and FID = "()" and i = 1 and
        R = "\<lparr>RewriteBuffers = Map.empty\<rparr>" and L = "layout_start ''ab''" and e = "Insert 1 ''X'' True" and
        request = "Rewriter_InsertText ?SM () ''X'' True"]
    by (auto simp del: edit_ok.simps apply_edit.simps)
qed

text \<open>
  The rewritten text of a range runs from the mapped start of its first offset, text inserted
  there included, through the token at its last offset as it is now.
\<close>

theorem getRewritenText_correct:
  assumes "isFileID SM Begin" "isFileID SM End" "isValid SM Begin" "isValid SM End"
    "getDecomposedLoc SM Begin = (FID, of_nat i)" "getDecomposedLoc SM End = (FID, of_nat j)"
    "RewriteBuffers R FID = Some RB" "buffer_represents L RB" "rope_linked (Buffer RB)"
    "i \<le> length (Original L)" "\<not> Inner L i" "j \<le> length (Original L)" "\<not> Dead L j"
    "e = layout_pos L j + length (Ahead L j) + unat (MeasureTokenLength SM End)"
    "layout_pos L i \<le> e" "e \<le> length (layout_text L)"
  shows "getRewritenText SM Begin End R = Some (take (e - layout_pos L i) (drop (layout_pos L i) (layout_text L)))"
proof -
  obtain S where S: "getMappedOffset (of_nat i) False RB = Some S" "unat S = layout_pos L i"
    using getMappedOffset_before [OF assms(8,10,11)] by blast
  obtain E where E: "getMappedOffset (of_nat j) True RB = Some E" "unat E = layout_pos L j + length (Ahead L j)"
    using getMappedOffset_after [OF assms(8,12,13)] by blast
  have inv: "rope_inv (Buffer RB)" and chars: "rope_text (Buffer RB) = layout_text L"
    and fit: "length (layout_text L) < 2 ^ 32"
    using assms(8) by (auto simp: buffer_represents_def layout_ok_def)
  have "E + MeasureTokenLength SM End - S = of_nat (e - layout_pos L i)"
    using u32_of_unat [OF S(2)] u32_of_unat [OF E(2)] assms(14,15) by (simp add: of_nat_diff)
  then have n: "unat (E + MeasureTokenLength SM End - S) = e - layout_pos L i"
    using fit assms(16) by (simp add: unat_of_nat_u32)
  obtain it where it: "rope_begin (Buffer RB) = Some it" "reads (Buffer RB) it (layout_text L)"
    using rope_begin_linked [OF inv assms(9)] unfolding chars .
  have "layout_pos L i \<le> length (layout_text L)" using assms(15,16) by simp
  from rope_advance_by_reads [OF it(2) this] obtain it' where
    it': "rope_advance_by (layout_pos L i) (Buffer RB) it = Some it'"
      "reads (Buffer RB) it' (drop (layout_pos L i) (layout_text L))" by auto
  have "e - layout_pos L i \<le> length (drop (layout_pos L i) (layout_text L))" using assms(16) by simp
  from rope_take_reads [OF it'(2) this] show ?thesis
    using assms(1-7) S E n it(1) it' by (simp add: getRewritenText_def isRewritable_def getLocationOffsetAndFileID_def)
qed

theorem getRewritenText_correct_witness:
  "\<exists>RB. RewriteBuffer_Initialize ''abcd'' RewriteBuffer_empty = Some RB \<and>
    getRewritenText \<lparr>isFileID = (\<lambda>_. True), isValid = (\<lambda>_. True), getDecomposedLoc = (\<lambda>n. ((), of_nat n)),
      getBufferData = (\<lambda>_. ''abcd''), MeasureTokenLength = (\<lambda>_. 1)\<rparr> 1 2 \<lparr>RewriteBuffers = [() \<mapsto> RB]\<rparr> = Some ''bc''"
proof -
  obtain RB where RB: "RewriteBuffer_Initialize ''abcd'' RewriteBuffer_empty = Some RB"
    "buffer_represents (layout_start ''abcd'') RB" "rope_linked (Buffer RB)"
    using Initialize_ok [of "''abcd''"] by (auto simp: string_fits_def)
  from getRewritenText_correct [OF _ _ _ _ _ _ _ RB(2,3), where FID = "()" and i = 1 and j = 2 and e = 3
      and R = "\<lparr>RewriteBuffers = [() \<mapsto> RB]\<rparr>" and Begin = "1::nat" and End = 2
      and SM = "\<lparr>isFileID = (\<lambda>_. True), isValid = (\<lambda>_. True), getDecomposedLoc = (\<lambda>n. ((), of_nat n)),
        getBufferData = (\<lambda>_. ''abcd''), MeasureTokenLength = (\<lambda>_. 1)\<rparr>"]
  show ?thesis using RB(1) by (simp add: layout_start_pos layout_start_text) (simp add: layout_start_def)
qed

end
