(* ===== verification/Characters.thy ===== *)
theory Characters
  imports Prelude
begin

text \<open>
  The character functions of the C library that the literal parsers call, in the C locale, and
  \<^verbatim>\<open>HexDigitValue\<close> of \<^verbatim>\<open>lib/Lex/LiteralSupport.cpp\<close>. A \<open>char\<close> is an eight-bit
  byte; the host's \<open>char\<close> is signed, so converting one to \<open>unsigned\<close> extends its sign.
\<close>

section \<open>Options\<close>

text \<open>The language options and the properties of the target that the code below reads.\<close>

record lang_options =
  Microsoft :: bool
  NoExtensions :: bool
  HexFloats :: bool
  PascalStrings :: bool

record target_info =
  WCharWidth :: nat
  IntWidth :: nat
  isCharSigned :: bool

definition getCharWidth :: "target_info \<Rightarrow> bool \<Rightarrow> nat" where
  "getCharWidth TI isWide = (if isWide then WCharWidth TI else 8)"

section \<open>Characters\<close>

abbreviation code_of :: "char \<Rightarrow> nat" where
  "code_of c \<equiv> of_char c"

definition char_unsigned :: "char \<Rightarrow> u32" where
  "char_unsigned c = scast (of_char c :: 8 word)"

definition isdigit :: "char \<Rightarrow> bool" where
  "isdigit c \<longleftrightarrow> 48 \<le> code_of c \<and> code_of c \<le> 57"

definition isoctal :: "char \<Rightarrow> bool" where
  "isoctal c \<longleftrightarrow> 48 \<le> code_of c \<and> code_of c \<le> 55"

definition isxdigit :: "char \<Rightarrow> bool" where
  "isxdigit c \<longleftrightarrow> isdigit c \<or> (97 \<le> code_of c \<and> code_of c \<le> 102) \<or> (65 \<le> code_of c \<and> code_of c \<le> 70)"

definition isalnum :: "char \<Rightarrow> bool" where
  "isalnum c \<longleftrightarrow> isdigit c \<or> (97 \<le> code_of c \<and> code_of c \<le> 122) \<or> (65 \<le> code_of c \<and> code_of c \<le> 90)"

definition isgraph :: "char \<Rightarrow> bool" where
  "isgraph c \<longleftrightarrow> 33 \<le> code_of c \<and> code_of c \<le> 126"

definition HexDigitValue :: "char \<Rightarrow> int" where
  "HexDigitValue C =
     (if 48 \<le> code_of C \<and> code_of C \<le> 57 then int (code_of C) - 48
      else if 97 \<le> code_of C \<and> code_of C \<le> 102 then int (code_of C) - 97 + 10
      else if 65 \<le> code_of C \<and> code_of C \<le> 70 then int (code_of C) - 65 + 10
      else - 1)"

lemmas char_class_defs = isdigit_def isoctal_def isxdigit_def isalnum_def isgraph_def

lemma HexDigitValue_bounds:
  "isxdigit c \<Longrightarrow> 0 \<le> HexDigitValue c \<and> HexDigitValue c < 16"
  "isdigit c \<Longrightarrow> 0 \<le> HexDigitValue c \<and> HexDigitValue c < 10"
  "isoctal c \<Longrightarrow> 0 \<le> HexDigitValue c \<and> HexDigitValue c < 8"
  by (auto simp: HexDigitValue_def char_class_defs)

lemma HexDigitValue_invalid: "HexDigitValue c = - 1 \<longleftrightarrow> \<not> isxdigit c"
  by (auto simp: HexDigitValue_def char_class_defs)

text \<open>The character that stands for a digit below 16.\<close>

definition digit_char :: "nat \<Rightarrow> char" where
  "digit_char d = char_of (if d < 10 then 48 + d else 87 + d)"

lemma HexDigitValue_digit_char: "d < 16 \<Longrightarrow> HexDigitValue (digit_char d) = int d"
  by (auto simp: HexDigitValue_def digit_char_def)

lemma isxdigit_digit_char: "d < 16 \<Longrightarrow> isxdigit (digit_char d)"
  by (auto simp: char_class_defs digit_char_def)

lemma isdigit_digit_char: "d < 10 \<Longrightarrow> isdigit (digit_char d)"
  by (auto simp: char_class_defs digit_char_def)

lemma isoctal_digit_char: "d < 8 \<Longrightarrow> isoctal (digit_char d)"
  by (auto simp: char_class_defs digit_char_def)

section \<open>Cursors\<close>

text \<open>
  A cursor into a buffer is the list of the characters from it to the end of the token, and \<open>e\<close>
  is the byte at the end, which may be read. Moving a cursor beyond the end is \<open>None\<close>.
\<close>

definition peek :: "char \<Rightarrow> char list \<Rightarrow> char" where
  "peek e s = (case s of [] \<Rightarrow> e | c # _ \<Rightarrow> c)"

text \<open>\<open>s[1]\<close>; read only where \<open>s[0]\<close> is inside the token.\<close>

definition peek1 :: "char \<Rightarrow> char list \<Rightarrow> char" where
  "peek1 e s = peek e (tl s)"

definition bump :: "char list \<Rightarrow> char list option" where
  "bump s = (case s of [] \<Rightarrow> None | _ # s' \<Rightarrow> Some s')"

lemma bump_eq_Some: "bump s = Some s' \<longleftrightarrow> s \<noteq> [] \<and> s' = tl s"
  by (auto simp: bump_def split: list.splits)

lemma peek_Cons [simp]: "peek e (c # s) = c" "peek1 e (c # s) = peek e s"
  by (simp_all add: peek_def peek1_def)

lemma peek_Nil [simp]: "peek e [] = e"
  by (simp add: peek_def)

lemma bump_Cons [simp]: "bump (c # s) = Some s"
  by (simp add: bump_def)

end
