(* ===== verification/NumericLiteral.thy ===== *)
theory NumericLiteral
  imports Characters "HOL-Library.Sublist"
begin

text \<open>
  \<^verbatim>\<open>NumericLiteralParser\<close> (\<^verbatim>\<open>lib/Lex/LiteralSupport.cpp\<close>,
  \<^verbatim>\<open>include/clang/Lex/LiteralSupport.h\<close>). A cursor into the token is the list of the
  characters from it to \<^verbatim>\<open>ThisTokEnd\<close>; \<open>e\<close> is the byte at \<^verbatim>\<open>ThisTokEnd\<close>, the only one
  outside the token that may be read. Moving the cursor beyond \<^verbatim>\<open>ThisTokEnd\<close> and a failing
  assertion are \<open>None\<close>. \<^verbatim>\<open>SuffixBegin\<close> is not set when the constructor returns early with an
  error; nothing reads it then. The diagnostics are recorded with their offset in the token.
  \<^verbatim>\<open>APInt\<close> is LLVM's and an argument, with the laws of the locale \<open>apint\<close>.
\<close>

section \<open>State\<close>

datatype num_diag =
  err_invalid_decimal_digit char
| err_invalid_octal_digit char
| err_invalid_binary_digit char
| err_exponent_has_no_digits
| err_hexconstant_requires_exponent
| ext_hexconstant_invalid
| ext_binary_literal
| ext_imaginary_constant
| err_invalid_suffix_float_constant "char list"
| err_invalid_suffix_integer_constant "char list"

record numeric_parser =
  num_s :: "char list"
  DigitsBegin :: "char list"
  SuffixBegin :: "char list"
  radix :: nat
  saw_exponent :: bool
  saw_period :: bool
  hadError :: bool
  isUnsigned :: bool
  isLong :: bool
  isLongLong :: bool
  isFloat :: bool
  isImaginary :: bool
  num_diags :: "(num_diag \<times> nat) list"

definition isIntegerLiteral :: "numeric_parser \<Rightarrow> bool" where
  "isIntegerLiteral P \<longleftrightarrow> \<not> saw_period P \<and> \<not> saw_exponent P"

definition isFloatingLiteral :: "numeric_parser \<Rightarrow> bool" where
  "isFloatingLiteral P \<longleftrightarrow> saw_period P \<or> saw_exponent P"

definition hasSuffix :: "numeric_parser \<Rightarrow> bool" where
  "hasSuffix P \<longleftrightarrow> SuffixBegin P \<noteq> []"

section \<open>The cursor\<close>

definition SkipHexDigits :: "char list \<Rightarrow> char list" where
  "SkipHexDigits s = dropWhile isxdigit s"

definition SkipOctalDigits :: "char list \<Rightarrow> char list" where
  "SkipOctalDigits s = dropWhile isoctal s"

definition SkipDigits :: "char list \<Rightarrow> char list" where
  "SkipDigits s = dropWhile isdigit s"

definition SkipBinaryDigits :: "char list \<Rightarrow> char list" where
  "SkipBinaryDigits s = dropWhile (\<lambda>c. c = CHR ''0'' \<or> c = CHR ''1'') s"

text \<open>A diagnostic at the cursor \<open>at\<close> of the token \<open>tok\<close>.\<close>

definition num_diag_at :: "char list \<Rightarrow> num_diag \<Rightarrow> char list \<Rightarrow> numeric_parser \<Rightarrow> numeric_parser" where
  "num_diag_at tok d at P = P\<lparr>num_diags := num_diags P @ [(d, length tok - length at)]\<rparr>"

definition num_error_at :: "char list \<Rightarrow> num_diag \<Rightarrow> char list \<Rightarrow> numeric_parser \<Rightarrow> numeric_parser" where
  "num_error_at tok d at P = (num_diag_at tok d at P)\<lparr>hadError := True\<rparr>"

section \<open>Digits and exponent\<close>

definition skip_sign :: "char \<Rightarrow> char list \<Rightarrow> char list option" where
  "skip_sign e s = (if peek e s = CHR ''+'' \<or> peek e s = CHR ''-'' then bump s else Some s)"

text \<open>
  The exponent, with the cursor on its letter. The three places of the source that parse one agree
  but for the radix they set, which the caller does.
\<close>

definition parse_exponent :: "char list \<Rightarrow> char \<Rightarrow> numeric_parser \<Rightarrow> numeric_parser option" where
  "parse_exponent tok e P = do {
     let Exponent = num_s P;
     s1 \<leftarrow> bump Exponent;
     s2 \<leftarrow> skip_sign e s1;
     let first_non_digit = SkipDigits s2;
     let P1 = P\<lparr>num_s := s2, saw_exponent := True\<rparr>;
     Some (if first_non_digit \<noteq> s2 then P1\<lparr>num_s := first_non_digit\<rparr>
           else num_error_at tok err_exponent_has_no_digits Exponent P1) }"

definition is_e :: "char \<Rightarrow> bool" where
  "is_e c \<longleftrightarrow> c = CHR ''e'' \<or> c = CHR ''E''"

definition is_p :: "char \<Rightarrow> bool" where
  "is_p c \<longleftrightarrow> c = CHR ''p'' \<or> c = CHR ''P''"

text \<open>
  The point and the exponent of a decimal number, in the two places that parse them: a point or an
  exponent makes the number a decimal one.
\<close>

definition parse_fraction :: "char list \<Rightarrow> char \<Rightarrow> numeric_parser \<Rightarrow> numeric_parser option" where
  "parse_fraction tok e P = do {
     P1 \<leftarrow> (if peek e (num_s P) = CHR ''.''
            then map_option (\<lambda>s. P\<lparr>radix := 10, saw_period := True, num_s := SkipDigits s\<rparr>) (bump (num_s P))
            else Some P);
     if is_e (peek e (num_s P1)) then parse_exponent tok e (P1\<lparr>radix := 10\<rparr>) else Some P1 }"

text \<open>After the octal digits: more decimal digits are skipped when a point or an exponent follows them.\<close>

definition octal_as_decimal :: "char \<Rightarrow> numeric_parser \<Rightarrow> numeric_parser" where
  "octal_as_decimal e P =
     (let EndDecimal = SkipDigits (num_s P)
      in if isdigit (peek e (num_s P)) \<and> (peek e EndDecimal = CHR ''.'' \<or> is_e (peek e EndDecimal))
         then P\<lparr>num_s := EndDecimal, radix := 10\<rparr> else P)"

text \<open>
  The three kinds of number that start with a zero, with the cursor \<open>s0\<close> behind the zero. The hex
  and binary ones have their letter there.
\<close>

definition ParseHexNumber :: "lang_options \<Rightarrow> char list \<Rightarrow> char \<Rightarrow> char list \<Rightarrow> numeric_parser \<Rightarrow>
    numeric_parser option" where
  "ParseHexNumber LO tok e s0 P = do {
     s1 \<leftarrow> bump s0;
     let s2 = SkipHexDigits s1;
     let P1 = P\<lparr>radix := 16, DigitsBegin := s1, num_s := s2\<rparr>;
     P2 \<leftarrow> (if s2 = [] then Some P1
            else if peek e s2 = CHR ''.''
            then map_option (\<lambda>s3. P1\<lparr>saw_period := True, num_s := SkipHexDigits s3\<rparr>) (bump s2)
            else Some P1);
     if is_p (peek e (num_s P2))
     then do {
       P3 \<leftarrow> parse_exponent tok e P2;
       Some (if \<not> hadError P3 \<and> \<not> HexFloats LO then num_diag_at tok ext_hexconstant_invalid tok P3 else P3) }
     else Some (if saw_period P2 then num_error_at tok err_hexconstant_requires_exponent (num_s P2) P2 else P2) }"

definition ParseBinaryNumber :: "char list \<Rightarrow> char \<Rightarrow> char list \<Rightarrow> numeric_parser \<Rightarrow> numeric_parser option" where
  "ParseBinaryNumber tok e s0 P = do {
     s1 \<leftarrow> bump s0;
     let s2 = SkipBinaryDigits s1;
     let P1 = (num_diag_at tok ext_binary_literal tok P)\<lparr>radix := 2, DigitsBegin := s1, num_s := s2\<rparr>;
     Some (if s2 = [] then P1
           else if isxdigit (peek e s2) then num_error_at tok (err_invalid_binary_digit (peek e s2)) s2 P1
           else P1) }"

definition ParseOctalNumber :: "char list \<Rightarrow> char \<Rightarrow> char list \<Rightarrow> numeric_parser \<Rightarrow> numeric_parser option" where
  "ParseOctalNumber tok e s0 P =
     (let s1 = SkipOctalDigits s0; P1 = P\<lparr>radix := 8, DigitsBegin := s0, num_s := s1\<rparr>
      in if s1 = [] then Some P1
         else
           let P2 = octal_as_decimal e P1; c = peek e (num_s P2)
           in if isxdigit c \<and> \<not> is_e c
              then Some (num_error_at tok (err_invalid_octal_digit c) (num_s P2) P2)
              else parse_fraction tok e P2)"

definition ParseNumberStartingWithZero :: "lang_options \<Rightarrow> char list \<Rightarrow> char \<Rightarrow> numeric_parser \<Rightarrow>
    numeric_parser option" where
  "ParseNumberStartingWithZero LO tok e P0 = do {
     asserting (peek e (num_s P0) = CHR ''0'');
     s0 \<leftarrow> bump (num_s P0);
     let P = P0\<lparr>num_s := s0\<rparr>;
     if (peek e s0 = CHR ''x'' \<or> peek e s0 = CHR ''X'') \<and> (isxdigit (peek1 e s0) \<or> peek1 e s0 = CHR ''.'')
     then ParseHexNumber LO tok e s0 P
     else if peek e s0 = CHR ''b'' \<or> peek e s0 = CHR ''B'' then ParseBinaryNumber tok e s0 P
     else ParseOctalNumber tok e s0 P }"

text \<open>A number that does not start with a zero, up to its suffix.\<close>

definition ParseDecimal :: "char list \<Rightarrow> char \<Rightarrow> numeric_parser \<Rightarrow> numeric_parser option" where
  "ParseDecimal tok e P =
     (let s = SkipDigits (num_s P); P1 = P\<lparr>radix := 10, num_s := s\<rparr>
      in if s \<noteq> [] \<and> isxdigit (peek e s) \<and> \<not> is_e (peek e s)
         then Some (num_error_at tok (err_invalid_decimal_digit (peek e s)) s P1)
         else parse_fraction tok e P1)"

section \<open>The suffix\<close>

text \<open>The Microsoft suffixes, with the cursor behind the \<open>i\<close>: where the nested switch leaves it.\<close>

definition microsoft_suffix :: "char list \<Rightarrow> char list" where
  "microsoft_suffix s = (case s of
     [] \<Rightarrow> []
   | c # s1 \<Rightarrow>
       if c = CHR ''8'' then s1
       else if c = CHR ''1''
       then (case s1 of [] \<Rightarrow> []
             | d # s2 \<Rightarrow>
                 if d = CHR ''6'' then s2
                 else if d = CHR ''2''
                 then (case s2 of [] \<Rightarrow> [] | f # s3 \<Rightarrow> if f = CHR ''8'' then s3 else s2)
                 else s1)
       else if c = CHR ''3''
       then (case s1 of [] \<Rightarrow> [] | d # s2 \<Rightarrow> if d = CHR ''2'' then s2 else s1)
       else if c = CHR ''6''
       then (case s1 of [] \<Rightarrow> [] | d # s2 \<Rightarrow> if d = CHR ''4'' then s2 else s1)
       else s)"

definition is_imaginary :: "char \<Rightarrow> bool" where
  "is_imaginary c \<longleftrightarrow> c = CHR ''i'' \<or> c = CHR ''I'' \<or> c = CHR ''j'' \<or> c = CHR ''J''"

text \<open>
  One round of the loop over the suffix, at the character \<open>c\<close> with \<open>s\<close> behind it: either it goes on
  behind what it accepted, or it breaks out of the loop and leaves the cursor there.
\<close>

datatype suffix_round =
  Continue "char list" numeric_parser
| Break "char list"

definition suffix_step :: "lang_options \<Rightarrow> char list \<Rightarrow> bool \<Rightarrow> char \<Rightarrow> char list \<Rightarrow> numeric_parser \<Rightarrow> suffix_round" where
  "suffix_step LO tok isFPConstant c s P =
     (if c = CHR ''f'' \<or> c = CHR ''F''
      then if \<not> isFPConstant \<or> isFloat P \<or> isLong P then Break (c # s)
           else Continue s (P\<lparr>isFloat := True\<rparr>)
      else if c = CHR ''u'' \<or> c = CHR ''U''
      then if isFPConstant \<or> isUnsigned P then Break (c # s)
           else Continue s (P\<lparr>isUnsigned := True\<rparr>)
      else if c = CHR ''l'' \<or> c = CHR ''L''
      then if isLong P \<or> isLongLong P \<or> isFloat P then Break (c # s)
           else if s \<noteq> [] \<and> hd s = c
           then if isFPConstant then Break (c # s) else Continue (tl s) (P\<lparr>isLongLong := True\<rparr>)
           else Continue s (P\<lparr>isLong := True\<rparr>)
      else if c = CHR ''i'' \<and> Microsoft LO then Break (microsoft_suffix s)
      else if is_imaginary c
      then if isImaginary P then Break (c # s)
           else Continue s ((num_diag_at tok ext_imaginary_constant (c # s) P)\<lparr>isImaginary := True\<rparr>)
      else Break (c # s))"

lemma suffix_step_shorter:
  "suffix_step LO tok fp c s P = Continue s' P' \<Longrightarrow> length s' < length (c # s)"
  unfolding suffix_step_def by (cases s) (auto split: if_split_asm)

function (sequential) parse_suffix :: "lang_options \<Rightarrow> char list \<Rightarrow> bool \<Rightarrow> char list \<Rightarrow> numeric_parser \<Rightarrow>
    numeric_parser" where
  "parse_suffix LO tok isFPConstant [] P = P\<lparr>num_s := []\<rparr>"
| "parse_suffix LO tok isFPConstant (c # s) P =
     (case suffix_step LO tok isFPConstant c s P of
        Break s' \<Rightarrow> P\<lparr>num_s := s'\<rparr>
      | Continue s' P' \<Rightarrow> parse_suffix LO tok isFPConstant s' P')"
  by pat_completeness auto
termination
  by (relation "measure (\<lambda>(_, _, _, s, _). length s)") (auto dest: suffix_step_shorter)

section \<open>The constructor\<close>

definition numeric_start :: "char list \<Rightarrow> numeric_parser" where
  "numeric_start tok = \<lparr>num_s = tok, DigitsBegin = tok, SuffixBegin = [], radix = 0,
     saw_exponent = False, saw_period = False, hadError = False, isUnsigned = False, isLong = False,
     isLongLong = False, isFloat = False, isImaginary = False, num_diags = []\<rparr>"

text \<open>The second half of the constructor: the suffix and its errors.\<close>

definition literal_suffix :: "lang_options \<Rightarrow> char list \<Rightarrow> numeric_parser \<Rightarrow> numeric_parser" where
  "literal_suffix LO tok P =
     (let isFPConstant = isFloatingLiteral P;
          P1 = parse_suffix LO tok isFPConstant (num_s P) (P\<lparr>SuffixBegin := num_s P\<rparr>)
      in if num_s P1 \<noteq> []
         then num_error_at tok
                (if isFPConstant then err_invalid_suffix_float_constant (SuffixBegin P1)
                 else err_invalid_suffix_integer_constant (SuffixBegin P1)) (num_s P1) P1
         else P1)"

definition NumericLiteralParser :: "lang_options \<Rightarrow> char list \<Rightarrow> char \<Rightarrow> numeric_parser option" where
  "NumericLiteralParser LO tok e = do {
     asserting (\<not> isalnum e \<and> e \<noteq> CHR ''.'' \<and> e \<noteq> CHR ''_'');
     P \<leftarrow> (if peek e tok = CHR ''0''
           then ParseNumberStartingWithZero LO tok e (numeric_start tok)
           else ParseDecimal tok e (numeric_start tok));
     Some (if hadError P then P else literal_suffix LO tok P) }"

section \<open>The value of an integer literal\<close>

text \<open>
  The operations of \<^verbatim>\<open>llvm::APInt\<close> that \<^verbatim>\<open>GetIntegerValue\<close> uses: assignment of a
  64-bit value, \<^verbatim>\<open>getZExtValue\<close>, construction at the width of another value, arithmetic and
  comparisons.
\<close>

record 'a apint_ops =
  ap_assign :: "'a \<Rightarrow> 64 word \<Rightarrow> 'a"
  ap_zext :: "'a \<Rightarrow> 64 word"
  ap_of :: "'a \<Rightarrow> nat \<Rightarrow> 'a"
  ap_mul :: "'a \<Rightarrow> 'a \<Rightarrow> 'a"
  ap_udiv :: "'a \<Rightarrow> 'a \<Rightarrow> 'a"
  ap_add :: "'a \<Rightarrow> 'a \<Rightarrow> 'a"
  ap_eq :: "'a \<Rightarrow> 'a \<Rightarrow> bool"
  ap_ult :: "'a \<Rightarrow> 'a \<Rightarrow> bool"

text \<open>The documented behaviour: unsigned arithmetic modulo two to the width.\<close>

locale apint =
  fixes A :: "'a apint_ops" and width :: "'a \<Rightarrow> nat" and val :: "'a \<Rightarrow> nat"
  assumes val_lt: "val x < 2 ^ width x"
    and assign: "width (ap_assign A x n) = width x" "val (ap_assign A x n) = unat n mod 2 ^ width x"
    and zext: "val x < 2 ^ 64 \<Longrightarrow> unat (ap_zext A x) = val x"
    and of_val: "width (ap_of A x k) = width x" "val (ap_of A x k) = k mod 2 ^ width x"
    and mul: "width x = width y \<Longrightarrow> width (ap_mul A x y) = width x \<and> val (ap_mul A x y) = val x * val y mod 2 ^ width x"
    and add: "width x = width y \<Longrightarrow> width (ap_add A x y) = width x \<and> val (ap_add A x y) = (val x + val y) mod 2 ^ width x"
    and udiv: "width x = width y \<Longrightarrow> val y \<noteq> 0 \<Longrightarrow> width (ap_udiv A x y) = width x \<and> val (ap_udiv A x y) = val x div val y"
    and eq: "width x = width y \<Longrightarrow> ap_eq A x y \<longleftrightarrow> val x = val y"
    and ult: "width x = width y \<Longrightarrow> ap_ult A x y \<longleftrightarrow> val x < val y"

function max_bits_per_digit :: "nat \<Rightarrow> nat \<Rightarrow> nat" where
  "max_bits_per_digit r m = (if 2 ^ m < r then max_bits_per_digit r (m + 1) else m)"
  by pat_completeness auto
termination
proof (relation "measure (\<lambda>(r, m). r - m)", goal_cases)
  case (2 r m)
  have "m < r" using less_exp 2 by (rule less_trans)
  then show ?case by simp
qed simp

declare max_bits_per_digit.simps [simp del]

definition literal_digits :: "numeric_parser \<Rightarrow> char list" where
  "literal_digits P = take (length (DigitsBegin P) - length (SuffixBegin P)) (DigitsBegin P)"

fun fast_value :: "nat \<Rightarrow> 64 word \<Rightarrow> char list \<Rightarrow> 64 word" where
  "fast_value r N [] = N"
| "fast_value r N (c # cs) = fast_value r (N * of_nat r + word_of_int (HexDigitValue c)) cs"

fun slow_value :: "'a apint_ops \<Rightarrow> nat \<Rightarrow> 'a \<Rightarrow> bool \<Rightarrow> char list \<Rightarrow> ('a \<times> bool) option" where
  "slow_value A r Val OverflowOccurred [] = Some (Val, OverflowOccurred)"
| "slow_value A r Val OverflowOccurred (c # cs) = do {
     let C = HexDigitValue c;
     asserting (0 \<le> C \<and> C < int r);
     let RadixVal = ap_of A Val r;
     let CharVal = ap_of A Val (nat C);
     let OldVal = Val;
     let Val1 = ap_mul A Val RadixVal;
     let Overflow1 = (OverflowOccurred \<or> \<not> ap_eq A (ap_udiv A Val1 RadixVal) OldVal);
     let Val2 = ap_add A Val1 CharVal;
     slow_value A r Val2 (Overflow1 \<or> ap_ult A Val2 CharVal) cs }"

definition GetIntegerValue :: "'a apint_ops \<Rightarrow> 'a \<Rightarrow> numeric_parser \<Rightarrow> ('a \<times> bool) option" where
  "GetIntegerValue A Val P =
     (let MaxBitsPerDigit = max_bits_per_digit (radix P) 1; digits = literal_digits P
      in if length digits * MaxBitsPerDigit \<le> 64
         then
           let N = fast_value (radix P) 0 digits; Val1 = ap_assign A Val N
           in Some (Val1, ap_zext A Val1 \<noteq> N)
         else slow_value A (radix P) (ap_assign A Val 0) False digits)"

section \<open>What the digits denote\<close>

abbreviation digit_ok :: "nat \<Rightarrow> char \<Rightarrow> bool" where
  "digit_ok r c \<equiv> 0 \<le> HexDigitValue c \<and> HexDigitValue c < int r"

fun digits_value :: "nat \<Rightarrow> nat \<Rightarrow> char list \<Rightarrow> nat" where
  "digits_value r v [] = v"
| "digits_value r v (c # cs) = digits_value r (v * r + nat (HexDigitValue c)) cs"

lemma digits_value_ge: "0 < r \<Longrightarrow> v \<le> digits_value r v cs"
proof (induction cs arbitrary: v)
  case (Cons c cs)
  then have "v \<le> v * r + nat (HexDigitValue c)" by (simp add: trans_le_add1)
  then show ?case using Cons.IH [OF Cons.prems, of "v * r + nat (HexDigitValue c)"] by simp
qed simp

lemma digits_value_lt:
  "list_all (digit_ok r) cs \<Longrightarrow> v < 2 ^ k \<Longrightarrow> r \<le> 2 ^ b \<Longrightarrow> digits_value r v cs < 2 ^ (k + b * length cs)"
proof (induction cs arbitrary: v k)
  case (Cons c cs)
  have "v * r + nat (HexDigitValue c) < v * r + r" using Cons.prems(1) by auto
  also have "\<dots> = (v + 1) * r" by simp
  also have "\<dots> \<le> 2 ^ k * 2 ^ b" using Cons.prems(2,3) by (intro mult_mono) auto
  finally have "v * r + nat (HexDigitValue c) < 2 ^ (k + b)" by (simp add: power_add)
  from Cons.IH [OF _ this Cons.prems(3)] Cons.prems(1) show ?case by (simp add: algebra_simps)
qed simp

lemma max_bits_per_digit_enough: "r \<le> 2 ^ max_bits_per_digit r m"
proof (induction r m rule: max_bits_per_digit.induct)
  case (1 r m)
  then show ?case by (subst max_bits_per_digit.simps) auto
qed

lemma fast_value_digits:
  "list_all (digit_ok r) cs \<Longrightarrow> fast_value r (of_nat v) cs = of_nat (digits_value r v cs)"
proof (induction cs arbitrary: v)
  case (Cons c cs)
  then have "(word_of_int (HexDigitValue c) :: 64 word) = of_nat (nat (HexDigitValue c))" by simp
  then have "(of_nat v * of_nat r + word_of_int (HexDigitValue c) :: 64 word) =
      of_nat (v * r + nat (HexDigitValue c))" by simp
  then show ?case using Cons.IH [of "v * r + nat (HexDigitValue c)"] Cons.prems
    by (simp del: of_nat_add of_nat_mult)
qed simp

text \<open>The two overflow tests, over the naturals.\<close>

lemma overflow_mul:
  fixes v r m :: nat
  assumes "0 < r" "v * r mod m div r = v" "0 < m"
  shows "v * r < m"
proof (rule ccontr)
  assume "\<not> v * r < m"
  then have "v * r mod m < v * r" using assms(3) by (meson mod_less_divisor not_le order_less_le_trans)
  then have "v * r mod m div r < v" using assms(1) by (simp add: div_less_iff_less_mult)
  then show False using assms(2) by simp
qed

lemma overflow_mul_iff:
  fixes v r m :: nat
  assumes "0 < r" "0 < m"
  shows "v * r mod m div r = v \<longleftrightarrow> v * r < m"
proof
  assume "v * r < m"
  then show "v * r mod m div r = v" using assms(1) by simp
qed (rule overflow_mul [OF assms(1) _ assms(2)])

lemma overflow_add:
  fixes a c m :: nat
  assumes "a < m" "c < m"
  shows "(a + c) mod m < c \<longleftrightarrow> m \<le> a + c"
proof (cases "a + c < m")
  case False
  then have "(a + c) mod m = a + c - m" using assms by (simp add: mod_if)
  then show ?thesis using False assms by simp
qed simp

context apint begin

lemma slow_value_ok:
  assumes "list_all (digit_ok r) cs" "r < 2 ^ width x" "0 < r"
    "val x = N mod 2 ^ width x" "ov \<longleftrightarrow> 2 ^ width x \<le> N"
  shows "\<exists>y. slow_value A r x ov cs = Some (y, 2 ^ width x \<le> digits_value r N cs) \<and> width y = width x \<and>
    val y = digits_value r N cs mod 2 ^ width x"
  using assms
proof (induction cs arbitrary: x N ov)
  case Nil
  then show ?case by auto
next
  case (Cons c cs)
  let ?M = "2 ^ width x :: nat"
  let ?C = "nat (HexDigitValue c)"
  let ?R = "ap_of A x r" and ?c = "ap_of A x ?C"
  let ?v1 = "ap_mul A x ?R"
  let ?v2 = "ap_add A ?v1 ?c"
  let ?N' = "N * r + ?C"
  have C: "0 \<le> HexDigitValue c" "HexDigitValue c < int r" "?C < r" using Cons.prems(1) by auto
  have R: "width ?R = width x" "val ?R = r" "width ?c = width x" "val ?c = ?C"
    using of_val [of x] Cons.prems(2) C(3) less_trans [OF C(3) Cons.prems(2)] by simp_all
  have v1: "width ?v1 = width x" "val ?v1 = val x * r mod ?M" using mul [of x ?R] R by auto
  have v2: "width ?v2 = width x" "val ?v2 = (val ?v1 + ?C) mod ?M" using add [of ?v1 ?c] v1 R by auto
  have div: "ap_eq A (ap_udiv A ?v1 ?R) x \<longleftrightarrow> val x * r mod ?M div r = val x"
    using udiv [of ?v1 ?R] eq [of "ap_udiv A ?v1 ?R" x] R v1 Cons.prems(3) by auto
  have lt: "ap_ult A ?v2 ?c \<longleftrightarrow> ?M \<le> val ?v1 + ?C"
    using ult [of ?v2 ?c] v2 R v1 overflow_add [of "val ?v1" ?M ?C] less_trans [OF C(3) Cons.prems(2)]
    by simp
  have mul_ov: "ap_eq A (ap_udiv A ?v1 ?R) x \<longleftrightarrow> val x * r < ?M"
    unfolding div by (rule overflow_mul_iff) (simp_all add: Cons.prems(3))
  have ov': "(ov \<or> \<not> ap_eq A (ap_udiv A ?v1 ?R) x \<or> ap_ult A ?v2 ?c) \<longleftrightarrow> ?M \<le> ?N'"
  proof (cases "?M \<le> N")
    case True
    then have "?M \<le> N * r" using Cons.prems(3) by (metis mult_le_mono One_nat_def Suc_leI mult.right_neutral)
    then show ?thesis using True Cons.prems(5) by simp
  next
    case False
    then have "val x = N" using Cons.prems(4) by simp
    then show ?thesis using False Cons.prems(5) mul_ov lt v1(2) by auto
  qed
  have val': "val ?v2 = ?N' mod 2 ^ width ?v2"
    unfolding v2 v1 Cons.prems(4) by (metis mod_add_left_eq mod_mult_left_eq)
  have step: "slow_value A r x ov (c # cs) =
      slow_value A r ?v2 (ov \<or> \<not> ap_eq A (ap_udiv A ?v1 ?R) x \<or> ap_ult A ?v2 ?c) cs"
    using C by (simp add: Let_def disj_assoc)
  have cs: "list_all (digit_ok r) cs" and r: "r < 2 ^ width ?v2" using Cons.prems(1,2) v2(1) by simp_all
  show ?case
    using Cons.IH [OF cs r Cons.prems(3) val' ov' [folded v2(1)]]
    unfolding step digits_value.simps v2(1) .
qed

lemma GetIntegerValue_ok:
  assumes "list_all (digit_ok (radix P)) (literal_digits P)" "0 < radix P" "radix P < 2 ^ width x"
  shows "\<exists>y. GetIntegerValue A x P = Some (y, 2 ^ width x \<le> digits_value (radix P) 0 (literal_digits P)) \<and>
    width y = width x \<and> val y = digits_value (radix P) 0 (literal_digits P) mod 2 ^ width x"
proof (cases "length (literal_digits P) * max_bits_per_digit (radix P) 1 \<le> 64")
  case True
  let ?N = "digits_value (radix P) 0 (literal_digits P)"
  have "?N < 2 ^ (0 + max_bits_per_digit (radix P) 1 * length (literal_digits P))"
    by (rule digits_value_lt [OF assms(1) _ max_bits_per_digit_enough]) simp
  also have "\<dots> \<le> 2 ^ 64" using True by (intro power_increasing) (auto simp: mult.commute)
  finally have N: "?N < 2 ^ 64" .
  have f: "fast_value (radix P) 0 (literal_digits P) = of_nat ?N"
    using fast_value_digits [OF assms(1), of 0] by simp
  have u: "unat (of_nat ?N :: 64 word) = ?N" using N by (simp add: unsigned_of_nat take_bit_nat_eq_self)
  let ?y = "ap_assign A x (of_nat ?N)"
  have y: "width ?y = width x" "val ?y = ?N mod 2 ^ width x" using assign [of x "of_nat ?N"] u by auto
  have "val ?y < 2 ^ 64" using N unfolding y(2) by (rule le_less_trans [OF mod_less_eq_dividend])
  then have z: "unat (ap_zext A ?y) = ?N mod 2 ^ width x" using zext y(2) by simp
  have "ap_zext A ?y = of_nat ?N \<longleftrightarrow> ?N mod 2 ^ width x = ?N" by (metis u word_unat_eq_iff z)
  also have "\<dots> \<longleftrightarrow> ?N < 2 ^ width x" by (metis mod_less mod_less_divisor zero_less_numeral zero_less_power)
  finally have "(ap_zext A ?y \<noteq> of_nat ?N) = (2 ^ width x \<le> ?N)" by auto
  then have "GetIntegerValue A x P = Some (?y, 2 ^ width x \<le> ?N)"
    using True by (simp add: GetIntegerValue_def f Let_def)
  then show ?thesis using y by blast
next
  case False
  have z: "width (ap_assign A x 0) = width x" "val (ap_assign A x 0) = 0" using assign [of x 0] by auto
  show ?thesis
    using False slow_value_ok [OF assms(1) _ assms(2), of "ap_assign A x 0" 0 False] assms(3) z
    by (simp add: GetIntegerValue_def)
qed

end

text \<open>An instance: pairs of a width and a number, read modulo two to the width.\<close>

definition pair_apint :: "(nat \<times> nat) apint_ops" where
  "pair_apint = \<lparr>
     ap_assign = (\<lambda>x n. (fst x, unat n)),
     ap_zext = (\<lambda>x. of_nat (snd x mod 2 ^ fst x)),
     ap_of = (\<lambda>x k. (fst x, k)),
     ap_mul = (\<lambda>x y. (fst x, snd x * snd y)),
     ap_udiv = (\<lambda>x y. (fst x, (snd x mod 2 ^ fst x) div (snd y mod 2 ^ fst y))),
     ap_add = (\<lambda>x y. (fst x, snd x + snd y)),
     ap_eq = (\<lambda>x y. snd x mod 2 ^ fst x = snd y mod 2 ^ fst y),
     ap_ult = (\<lambda>x y. snd x mod 2 ^ fst x < snd y mod 2 ^ fst y)\<rparr>"

interpretation pair_apint: apint pair_apint fst "\<lambda>x. snd x mod 2 ^ fst x"
proof (unfold_locales, goal_cases)
  case (4 x)
  then show ?case by (simp add: pair_apint_def unsigned_of_nat take_bit_nat_eq_self)
next
  case (9 x y)
  have "snd x mod 2 ^ fst x div (snd y mod 2 ^ fst y) < 2 ^ fst x"
    by (rule le_less_trans [OF div_le_dividend]) simp
  then show ?case by (simp add: pair_apint_def)
qed (auto simp: pair_apint_def mod_mult_eq mod_add_eq)

section \<open>What the parser leaves unchanged\<close>

lemma num_diag_at_simps [simp]:
  "num_s (num_diag_at tok d at P) = num_s P" "DigitsBegin (num_diag_at tok d at P) = DigitsBegin P"
  "SuffixBegin (num_diag_at tok d at P) = SuffixBegin P" "radix (num_diag_at tok d at P) = radix P"
  "saw_exponent (num_diag_at tok d at P) = saw_exponent P" "saw_period (num_diag_at tok d at P) = saw_period P"
  "hadError (num_diag_at tok d at P) = hadError P" "isUnsigned (num_diag_at tok d at P) = isUnsigned P"
  "isLong (num_diag_at tok d at P) = isLong P" "isLongLong (num_diag_at tok d at P) = isLongLong P"
  "isFloat (num_diag_at tok d at P) = isFloat P" "isImaginary (num_diag_at tok d at P) = isImaginary P"
  by (simp_all add: num_diag_at_def)

lemma num_error_at_simps [simp]:
  "hadError (num_error_at tok d at P)" "saw_exponent (num_error_at tok d at P) = saw_exponent P"
  "saw_period (num_error_at tok d at P) = saw_period P"
  by (simp_all add: num_error_at_def)

text \<open>The fields a suffix does not touch.\<close>

definition num_frame :: "numeric_parser \<Rightarrow> char list \<times> char list \<times> nat \<times> bool \<times> bool \<times> bool" where
  "num_frame P = (DigitsBegin P, SuffixBegin P, radix P, saw_exponent P, saw_period P, hadError P)"

lemma num_frame_simps [simp]:
  "num_frame (P\<lparr>num_s := s\<rparr>) = num_frame P" "num_frame (P\<lparr>isFloat := b\<rparr>) = num_frame P"
  "num_frame (P\<lparr>isUnsigned := b\<rparr>) = num_frame P" "num_frame (P\<lparr>isLong := b\<rparr>) = num_frame P"
  "num_frame (P\<lparr>isLongLong := b\<rparr>) = num_frame P" "num_frame (P\<lparr>isImaginary := b\<rparr>) = num_frame P"
  "num_frame (num_diag_at tok d at P) = num_frame P"
  by (simp_all add: num_frame_def)

lemma suffix_step_frame: "suffix_step LO tok fp c s P = Continue s' P' \<Longrightarrow> num_frame P' = num_frame P"
  unfolding suffix_step_def by (auto split: if_split_asm)

lemma parse_suffix_frame: "num_frame (parse_suffix LO tok fp s P) = num_frame P"
  by (induction LO tok fp s P rule: parse_suffix.induct) (auto split: suffix_round.splits dest: suffix_step_frame)

lemma parse_suffix_keeps:
  "DigitsBegin (parse_suffix LO tok fp s P) = DigitsBegin P" "SuffixBegin (parse_suffix LO tok fp s P) = SuffixBegin P"
  "radix (parse_suffix LO tok fp s P) = radix P" "saw_exponent (parse_suffix LO tok fp s P) = saw_exponent P"
  "saw_period (parse_suffix LO tok fp s P) = saw_period P" "hadError (parse_suffix LO tok fp s P) = hadError P"
  using parse_suffix_frame [of LO tok fp s P] by (simp_all add: num_frame_def)

lemma parse_exponent_saw:
  "parse_exponent tok e P = Some P' \<Longrightarrow> saw_exponent P'"
  by (auto simp: parse_exponent_def Let_def bind_eq_Some_conv split: if_splits)

section \<open>The digits of an integer literal\<close>

definition digit_class :: "nat \<Rightarrow> char \<Rightarrow> bool" where
  "digit_class r = (if r = 16 then isxdigit else if r = 8 then isoctal
     else if r = 2 then (\<lambda>c. c = CHR ''0'' \<or> c = CHR ''1'') else isdigit)"

lemma HexDigitValue_01: "HexDigitValue (CHR ''0'') = 0" "HexDigitValue (CHR ''1'') = 1"
  by (simp_all add: HexDigitValue_def)

lemma digit_class_ok: "r \<in> {2, 8, 10, 16} \<Longrightarrow> digit_class r c \<Longrightarrow> digit_ok r c"
  using HexDigitValue_bounds [of c] HexDigitValue_01 by (auto simp: digit_class_def)

definition digits_parsed :: "numeric_parser \<Rightarrow> bool" where
  "digits_parsed P \<longleftrightarrow> radix P \<in> {2, 8, 10, 16} \<and> num_s P = dropWhile (digit_class (radix P)) (DigitsBegin P)"

lemma parse_fraction_int:
  assumes "parse_fraction tok e P0 = Some P" "isIntegerLiteral P"
  shows "P = P0 \<and> peek e (num_s P0) \<noteq> CHR ''.'' \<and> \<not> is_e (peek e (num_s P0))"
proof -
  have saw: "\<not> saw_exponent P" "\<not> saw_period P" using assms(2) by (simp_all add: isIntegerLiteral_def)
  from assms(1) obtain P1 where
    X: "(if peek e (num_s P0) = CHR ''.''
       then map_option (\<lambda>s. P0\<lparr>radix := 10, saw_period := True, num_s := SkipDigits s\<rparr>) (bump (num_s P0))
       else Some P0) = Some P1"
    and P: "(if is_e (peek e (num_s P1)) then parse_exponent tok e (P1\<lparr>radix := 10\<rparr>) else Some P1) = Some P"
    unfolding parse_fraction_def by (elim bind_SomeE) (rule that)
  have e: "\<not> is_e (peek e (num_s P1))"
    using P parse_exponent_saw [of tok e "P1\<lparr>radix := 10\<rparr>" P] saw(1) by (cases "is_e (peek e (num_s P1))") simp_all
  then have "P = P1" using P by simp
  then show ?thesis using X saw(2) e by (cases "peek e (num_s P0) = CHR ''.''") auto
qed

lemma ParseDecimal_digits:
  assumes "ParseDecimal tok e P0 = Some P" "\<not> hadError P" "isIntegerLiteral P" "DigitsBegin P0 = num_s P0"
  shows "digits_parsed P \<and> radix P = 10"
proof -
  let ?s = "SkipDigits (num_s P0)" and ?P1 = "P0\<lparr>radix := 10, num_s := SkipDigits (num_s P0)\<rparr>"
  have "parse_fraction tok e ?P1 = Some P"
    using assms(1,2) unfolding ParseDecimal_def Let_def
    by (cases "?s \<noteq> [] \<and> isxdigit (peek e ?s) \<and> \<not> is_e (peek e ?s)") auto
  then have "P = ?P1" using parse_fraction_int assms(3) by blast
  then show ?thesis using assms(4) by (simp add: digits_parsed_def digit_class_def SkipDigits_def)
qed

lemma ParseHexNumber_digits:
  assumes "ParseHexNumber LO tok e s0 P0 = Some P" "\<not> hadError P" "isIntegerLiteral P"
  shows "digits_parsed P \<and> radix P = 16"
proof -
  have saw: "\<not> saw_exponent P" "\<not> saw_period P" using assms(3) by (simp_all add: isIntegerLiteral_def)
  from assms(1) obtain s1 P2 where "bump s0 = Some s1"
    and X: "(if SkipHexDigits s1 = [] then Some (P0\<lparr>radix := 16, DigitsBegin := s1, num_s := SkipHexDigits s1\<rparr>)
       else if peek e (SkipHexDigits s1) = CHR ''.''
       then map_option (\<lambda>s3. P0\<lparr>radix := 16, DigitsBegin := s1, num_s := SkipHexDigits s1,
              saw_period := True, num_s := SkipHexDigits s3\<rparr>) (bump (SkipHexDigits s1))
       else Some (P0\<lparr>radix := 16, DigitsBegin := s1, num_s := SkipHexDigits s1\<rparr>)) = Some P2"
    and P: "(if is_p (peek e (num_s P2))
       then Option.bind (parse_exponent tok e P2) (\<lambda>P3. Some (if \<not> hadError P3 \<and> \<not> HexFloats LO
              then num_diag_at tok ext_hexconstant_invalid tok P3 else P3))
       else Some (if saw_period P2 then num_error_at tok err_hexconstant_requires_exponent (num_s P2) P2 else P2)) = Some P"
    unfolding ParseHexNumber_def Let_def by (elim bind_SomeE) (rule that)
  from X have P2: "P2 = P0\<lparr>radix := 16, DigitsBegin := s1, num_s := SkipHexDigits s1\<rparr> \<or> saw_period P2"
    by (auto split: if_split_asm)
  have "\<not> is_p (peek e (num_s P2))" 
    using P parse_exponent_saw [of tok e P2] saw(1) by (auto elim!: bind_SomeE split: if_split_asm)
  then have "P = P2" using P saw(2) assms(2) by (auto split: if_split_asm)
  then have "P = P0\<lparr>radix := 16, DigitsBegin := s1, num_s := SkipHexDigits s1\<rparr>" using P2 saw(2) by auto
  then show ?thesis by (simp add: digits_parsed_def digit_class_def SkipHexDigits_def)
qed

lemma ParseBinaryNumber_digits:
  assumes "ParseBinaryNumber tok e s0 P0 = Some P" "\<not> hadError P"
  shows "digits_parsed P \<and> radix P = 2"
proof -
  from assms(1) obtain s1 where "(let s2 = SkipBinaryDigits s1;
      P1 = (num_diag_at tok ext_binary_literal tok P0)\<lparr>radix := 2, DigitsBegin := s1, num_s := s2\<rparr>
    in Some (if s2 = [] then P1 else if isxdigit (peek e s2)
       then num_error_at tok (err_invalid_binary_digit (peek e s2)) s2 P1 else P1)) = Some P"
    unfolding ParseBinaryNumber_def by (elim bind_SomeE) (rule that)
  then have "P = (num_diag_at tok ext_binary_literal tok P0)\<lparr>radix := 2, DigitsBegin := s1, num_s := SkipBinaryDigits s1\<rparr>"
    using assms(2) unfolding Let_def
    by (cases "SkipBinaryDigits s1 = []"; cases "isxdigit (peek e (SkipBinaryDigits s1))") auto
  then show ?thesis by (simp add: digits_parsed_def digit_class_def SkipBinaryDigits_def)
qed

lemma ParseOctalNumber_digits:
  assumes "ParseOctalNumber tok e s0 P0 = Some P" "\<not> hadError P" "isIntegerLiteral P"
  shows "digits_parsed P \<and> radix P = 8"
proof -
  let ?P1 = "P0\<lparr>radix := 8, DigitsBegin := s0, num_s := SkipOctalDigits s0\<rparr>"
  have "P = ?P1"
  proof (cases "SkipOctalDigits s0 = []")
    case True
    then show ?thesis using assms(1) by (simp add: ParseOctalNumber_def)
  next
    case False
    let ?P2 = "octal_as_decimal e ?P1"
    let ?c = "peek e (num_s ?P2)"
    have "parse_fraction tok e ?P2 = Some P"
      using assms(1,2) False unfolding ParseOctalNumber_def Let_def
      by (cases "isxdigit ?c \<and> \<not> is_e ?c") auto
    from parse_fraction_int [OF this assms(3)] have P: "P = ?P2" "?c \<noteq> CHR ''.''" "\<not> is_e ?c" by auto
    then have "?P2 = ?P1" by (auto simp: octal_as_decimal_def Let_def split: if_split_asm)
    then show ?thesis using P(1) by simp
  qed
  then show ?thesis by (simp add: digits_parsed_def digit_class_def SkipOctalDigits_def)
qed

lemma ParseNumberStartingWithZero_digits:
  assumes "ParseNumberStartingWithZero LO tok e P0 = Some P" "\<not> hadError P" "isIntegerLiteral P"
  shows "digits_parsed P \<and> radix P \<in> {2, 8, 16}"
  using assms ParseHexNumber_digits ParseBinaryNumber_digits ParseOctalNumber_digits
  unfolding ParseNumberStartingWithZero_def Let_def
  by (auto simp: bind_eq_Some_conv split: if_split_asm)

lemma literal_digits_takeWhile:
  assumes "DigitsBegin P = ds @ SuffixBegin P"
  shows "literal_digits P = ds"
  using assms by (simp add: literal_digits_def)

lemma literal_suffix_ok:
  assumes "\<not> hadError (literal_suffix LO tok P)"
  shows "literal_suffix LO tok P = parse_suffix LO tok (isFloatingLiteral P) (num_s P) (P\<lparr>SuffixBegin := num_s P\<rparr>)"
    "num_s (literal_suffix LO tok P) = []"
  using assms unfolding literal_suffix_def Let_def by (auto split: if_split_asm)

lemma NumericLiteralParser_steps:
  assumes "NumericLiteralParser LO tok e = Some P" "\<not> hadError P"
  obtains P1 where "(if peek e tok = CHR ''0'' then ParseNumberStartingWithZero LO tok e (numeric_start tok)
      else ParseDecimal tok e (numeric_start tok)) = Some P1" "\<not> hadError P1" "P = literal_suffix LO tok P1"
proof -
  from assms(1) obtain P1 where P1: "(if peek e tok = CHR ''0'' then ParseNumberStartingWithZero LO tok e (numeric_start tok)
      else ParseDecimal tok e (numeric_start tok)) = Some P1"
    and P: "Some (if hadError P1 then P1 else literal_suffix LO tok P1) = Some P"
    unfolding NumericLiteralParser_def by (elim bind_SomeE) (rule that)
  then show ?thesis using assms(2) that by (cases "hadError P1") auto
qed

lemma NumericLiteralParser_digits:
  assumes "NumericLiteralParser LO tok e = Some P" "\<not> hadError P" "isIntegerLiteral P"
  shows "radix P \<in> {2, 8, 10, 16} \<and> literal_digits P = takeWhile (digit_class (radix P)) (DigitsBegin P)"
proof -
  from assms(1,2) obtain P1 where P1: "(if peek e tok = CHR ''0'' then ParseNumberStartingWithZero LO tok e (numeric_start tok)
      else ParseDecimal tok e (numeric_start tok)) = Some P1" and err: "\<not> hadError P1"
    and P: "P = literal_suffix LO tok P1" by (rule NumericLiteralParser_steps)
  note keep = parse_suffix_keeps [of LO tok "isFloatingLiteral P1" "num_s P1" "P1\<lparr>SuffixBegin := num_s P1\<rparr>",
      folded literal_suffix_ok(1) [OF assms(2) [unfolded P]], folded P]
  have int: "isIntegerLiteral P1" using assms(3) keep by (simp add: isIntegerLiteral_def)
  have dp: "digits_parsed P1"
  proof (cases "peek e tok = CHR ''0''")
    case True
    then show ?thesis using P1 ParseNumberStartingWithZero_digits [OF _ err int] by simp
  next
    case False
    then show ?thesis using P1 ParseDecimal_digits [OF _ err int] by (simp add: numeric_start_def)
  qed
  have "DigitsBegin P = takeWhile (digit_class (radix P)) (DigitsBegin P) @ SuffixBegin P"
    using keep dp by (simp add: digits_parsed_def)
  then show ?thesis using keep dp literal_digits_takeWhile by (simp add: digits_parsed_def)
qed

lemma NumericLiteralParser_digits_ok:
  assumes "NumericLiteralParser LO tok e = Some P" "\<not> hadError P" "isIntegerLiteral P"
  shows "list_all (digit_ok (radix P)) (literal_digits P)"
  using NumericLiteralParser_digits [OF assms] digit_class_ok
  by (auto simp: list_all_iff dest: set_takeWhileD)

section \<open>The parser reads nothing behind the byte after the token\<close>

lemma bump_peek: "peek e s \<noteq> e \<Longrightarrow> \<exists>s'. bump s = Some s'"
  by (cases s) (auto simp: peek_def bump_def)

text \<open>
  A sign behind the token is not taken for that of an exponent: a token that a sign follows does not end in an
  exponent letter.
\<close>

definition sign_behind_ok :: "char list \<Rightarrow> char \<Rightarrow> bool" where
  "sign_behind_ok tok e \<longleftrightarrow> e \<noteq> CHR ''+'' \<and> e \<noteq> CHR ''-'' \<or> tok = [] \<or> \<not> is_e (last tok) \<and> \<not> is_p (last tok)"

definition cursor_in :: "char list \<Rightarrow> char list \<Rightarrow> bool" where
  "cursor_in tok s \<longleftrightarrow> (\<exists>xs. tok = xs @ s)"

lemma cursor_in_bump: "cursor_in tok s \<Longrightarrow> bump s = Some s' \<Longrightarrow> cursor_in tok s'"
  by (cases s) (auto simp: cursor_in_def bump_def intro: exI [of _ "_ @ [_]"])

lemma cursor_in_dropWhile: "cursor_in tok s \<Longrightarrow> cursor_in tok (dropWhile Q s)"
  using takeWhile_dropWhile_id [of Q s] unfolding cursor_in_def by (metis append_assoc)

lemmas cursor_in_skip = cursor_in_dropWhile [of _ _ isdigit, folded SkipDigits_def] cursor_in_dropWhile [of _ _ isxdigit, folded SkipHexDigits_def]
  cursor_in_dropWhile [of _ _ isoctal, folded SkipOctalDigits_def]

lemma parse_exponent_total:
  assumes "peek e (num_s P) \<noteq> e" "cursor_in tok (num_s P)" "is_e (peek e (num_s P)) \<or> is_p (peek e (num_s P))"
    "sign_behind_ok tok e"
  shows "\<exists>P'. parse_exponent tok e P = Some P'"
proof -
  obtain c s1 where s: "num_s P = c # s1" using bump_peek [OF assms(1)] by (auto simp: bump_eq_Some neq_Nil_conv)
  have "\<exists>s2. skip_sign e s1 = Some s2"
  proof (cases s1)
    case Nil
    then have "tok \<noteq> []" "last tok = c" using assms(2) s by (auto simp: cursor_in_def)
    then show ?thesis using assms(3,4) s Nil by (auto simp: skip_sign_def sign_behind_ok_def)
  qed (simp add: skip_sign_def)
  then show ?thesis using s by (auto simp: parse_exponent_def Let_def)
qed

lemma end_byte:
  assumes "\<not> isalnum e"
  shows "\<not> is_e e" "\<not> is_p e" "\<not> isxdigit e" "\<not> isdigit e" "e \<noteq> CHR ''0''"
    "e \<noteq> CHR ''x''" "e \<noteq> CHR ''X''" "e \<noteq> CHR ''b''" "e \<noteq> CHR ''B''"
  using assms by (auto simp: is_e_def is_p_def char_class_defs)

lemma bump_total: "peek e s = c \<Longrightarrow> c \<noteq> e \<Longrightarrow> \<exists>s'. bump s = Some s'"
  using bump_peek by blast

lemma parse_fraction_total:
  assumes "\<not> isalnum e" "e \<noteq> CHR ''.''" "sign_behind_ok tok e" "cursor_in tok (num_s P)"
  shows "\<exists>P'. parse_fraction tok e P = Some P'"
proof -
  obtain P1 where P1: "(if peek e (num_s P) = CHR ''.''
       then map_option (\<lambda>s. P\<lparr>radix := 10, saw_period := True, num_s := SkipDigits s\<rparr>) (bump (num_s P))
       else Some P) = Some P1" and c: "cursor_in tok (num_s P1)"
    using bump_total [of e "num_s P" "CHR ''.''"] assms(2,4) cursor_in_skip(1) cursor_in_bump
    by (cases "peek e (num_s P) = CHR ''.''") fastforce+
  have "is_e (peek e (num_s P1)) \<Longrightarrow> peek e (num_s P1) \<noteq> e" using end_byte(1) [OF assms(1)] by auto
  then have "\<exists>P'. (if is_e (peek e (num_s P1)) then parse_exponent tok e (P1\<lparr>radix := 10\<rparr>) else Some P1) = Some P'"
    using parse_exponent_total [of e "P1\<lparr>radix := 10\<rparr>"] assms(3) c by (cases "is_e (peek e (num_s P1))") auto
  then show ?thesis unfolding parse_fraction_def P1 by simp
qed

lemma ParseHexNumber_total:
  assumes "\<not> isalnum e" "e \<noteq> CHR ''.''" "sign_behind_ok tok e" "bump s0 = Some s1" "cursor_in tok s0"
  shows "\<exists>P'. ParseHexNumber LO tok e s0 P = Some P'"
proof -
  let ?P1 = "P\<lparr>radix := 16, DigitsBegin := s1, num_s := SkipHexDigits s1\<rparr>" and ?s2 = "SkipHexDigits s1"
  have c2: "cursor_in tok ?s2" using cursor_in_bump [OF assms(5,4)] cursor_in_skip(2) by simp
  obtain P2 where P2: "(if ?s2 = [] then Some ?P1
      else if peek e ?s2 = CHR ''.''
      then map_option (\<lambda>s3. ?P1\<lparr>saw_period := True, num_s := SkipHexDigits s3\<rparr>) (bump ?s2)
      else Some ?P1) = Some P2" and c: "cursor_in tok (num_s P2)"
    using bump_total [of e ?s2 "CHR ''.''"] assms(2) c2 cursor_in_skip(2) cursor_in_bump
    by (cases "peek e ?s2 = CHR ''.''"; cases "?s2 = []") fastforce+
  have "is_p (peek e (num_s P2)) \<Longrightarrow> peek e (num_s P2) \<noteq> e" using end_byte(2) [OF assms(1)] by auto
  then have "\<exists>P'. (if is_p (peek e (num_s P2))
     then Option.bind (parse_exponent tok e P2) (\<lambda>P3. Some (if \<not> hadError P3 \<and> \<not> HexFloats LO
            then num_diag_at tok ext_hexconstant_invalid tok P3 else P3))
     else Some (if saw_period P2 then num_error_at tok err_hexconstant_requires_exponent (num_s P2) P2 else P2)) = Some P'"
    using parse_exponent_total [of e P2 tok] assms(3) c by (cases "is_p (peek e (num_s P2))") auto
  then show ?thesis using assms(4) P2 by (simp add: ParseHexNumber_def Let_def)
qed

lemma octal_as_decimal_cursor: "cursor_in tok (num_s P) \<Longrightarrow> cursor_in tok (num_s (octal_as_decimal e P))"
  using cursor_in_skip(1) by (simp add: octal_as_decimal_def Let_def)

lemma NumericLiteralParser_total:
  assumes "\<not> isalnum e" "e \<noteq> CHR ''.''" "e \<noteq> CHR ''_''" "sign_behind_ok tok e"
  shows "\<exists>P. NumericLiteralParser LO tok e = Some P"
proof -
  have start: "num_s (numeric_start tok) = tok" by (simp add: numeric_start_def)
  have tok: "cursor_in tok tok" by (simp add: cursor_in_def)
  have "\<exists>P. ParseNumberStartingWithZero LO tok e (numeric_start tok) = Some P" if zero: "peek e tok = CHR ''0''"
  proof -
    obtain s0 where s0: "bump tok = Some s0" using bump_total [OF zero] end_byte [OF assms(1)] by auto
    note c0 = cursor_in_bump [OF tok s0]
    have "\<exists>s1. bump s0 = Some s1"
      if "peek e s0 = CHR ''x'' \<or> peek e s0 = CHR ''X'' \<or> peek e s0 = CHR ''b'' \<or> peek e s0 = CHR ''B''"
      using that bump_peek [of e s0] end_byte [OF assms(1)] by auto
    then show ?thesis
      using s0 zero ParseHexNumber_total [OF assms(1,2,4) _ c0] parse_fraction_total [OF assms(1,2,4) octal_as_decimal_cursor]
        cursor_in_skip(3) [OF c0]
      by (auto simp: ParseNumberStartingWithZero_def start Let_def ParseBinaryNumber_def ParseOctalNumber_def)
  qed
  moreover have "\<exists>P. ParseDecimal tok e (numeric_start tok) = Some P"
    using parse_fraction_total [OF assms(1,2,4)] cursor_in_skip(1) [OF tok] by (auto simp: ParseDecimal_def Let_def start)
  ultimately show ?thesis
    using assms(1-3) by (cases "peek e tok = CHR ''0''") (auto simp: NumericLiteralParser_def)
qed

section \<open>Integer suffixes\<close>

text \<open>The suffixes of the standard: one of \<open>u\<close> and one of \<open>l\<close> and \<open>ll\<close>, in either order.\<close>

definition unsigned_suffixes :: "char list list" where
  "unsigned_suffixes = [''u'', ''U'']"

definition long_suffixes :: "char list list" where
  "long_suffixes = [''l'', ''L'', ''ll'', ''LL'']"

definition integer_suffixes :: "char list list" where
  "integer_suffixes = [[]] @ unsigned_suffixes @ long_suffixes @
     [u @ l. u \<leftarrow> unsigned_suffixes, l \<leftarrow> long_suffixes] @ [l @ u. l \<leftarrow> long_suffixes, u \<leftarrow> unsigned_suffixes]"

definition plain_int :: "numeric_parser \<Rightarrow> bool" where
  "plain_int P \<longleftrightarrow> \<not> isFloat P \<and> \<not> isUnsigned P \<and> \<not> isLong P \<and> \<not> isLongLong P \<and> \<not> isImaginary P"

text \<open>What a suffix means.\<close>

definition suffix_flags :: "char list \<Rightarrow> numeric_parser \<Rightarrow> bool" where
  "suffix_flags sfx P \<longleftrightarrow> isUnsigned P = (CHR ''u'' \<in> set sfx \<or> CHR ''U'' \<in> set sfx) \<and>
     isLongLong P = (sublist ''ll'' sfx \<or> sublist ''LL'' sfx) \<and>
     isLong P = ((CHR ''l'' \<in> set sfx \<or> CHR ''L'' \<in> set sfx) \<and> \<not> isLongLong P) \<and> \<not> isFloat P"

lemma parse_suffix_accepts:
  assumes "sfx \<in> set integer_suffixes" "plain_int P"
  shows "num_s (parse_suffix LO tok False sfx P) = [] \<and> suffix_flags sfx (parse_suffix LO tok False sfx P) \<and>
    \<not> isImaginary (parse_suffix LO tok False sfx P)"
  using assms(1) assms(2)
  by (auto simp: integer_suffixes_def unsigned_suffixes_def long_suffixes_def suffix_step_def plain_int_def
      suffix_flags_def sublist_Cons_right)

text \<open>What is left of a suffix in each state of the loop, when no imaginary letter is accepted.\<close>

lemma parse_suffix_imaginary:
  "isImaginary P \<Longrightarrow> isImaginary (parse_suffix LO tok fp s P)"
proof (induction LO tok fp s P rule: parse_suffix.induct)
  case (2 LO tok fp c s P)
  have "isImaginary P'" if "suffix_step LO tok fp c s P = Continue s' P'" for s' P'
    using that 2(2) unfolding suffix_step_def by (auto split: if_split_asm)
  then show ?case using 2 by (auto split: suffix_round.splits)
qed simp

lemma parse_suffix_done:
  assumes "\<not> Microsoft LO" "num_s (parse_suffix LO tok False s P) = []" "\<not> isImaginary (parse_suffix LO tok False s P)"
  shows "s = [] \<or> (\<exists>c s' s1 P1. s = c # s' \<and> suffix_step LO tok False c s' P = Continue s1 P1 \<and>
     num_s (parse_suffix LO tok False s1 P1) = [] \<and> \<not> isImaginary (parse_suffix LO tok False s1 P1) \<and>
     (c \<in> {CHR ''u'', CHR ''U''} \<and> \<not> isUnsigned P \<and> s1 = s' \<and> P1 = P\<lparr>isUnsigned := True\<rparr> \<or>
      c \<in> {CHR ''l'', CHR ''L''} \<and> \<not> isLong P \<and> \<not> isLongLong P \<and>
        (s' = c # s1 \<and> P1 = P\<lparr>isLongLong := True\<rparr> \<or> s1 = s' \<and> P1 = P\<lparr>isLong := True\<rparr>)))"
proof (cases s)
  case (Cons c s')
  show ?thesis
  proof (cases "suffix_step LO tok False c s' P")
    case (Break t)
    then have "t \<noteq> []" using assms(1) unfolding suffix_step_def by (auto split: if_split_asm)
    then show ?thesis using assms(2) Cons Break by simp
  next
    case (Continue s1 P1)
    have rest: "num_s (parse_suffix LO tok False s1 P1) = []" "\<not> isImaginary (parse_suffix LO tok False s1 P1)"
      using assms(2,3) Cons Continue by simp_all
    then have "\<not> isImaginary P1" using parse_suffix_imaginary by blast
    then have "c \<in> {CHR ''u'', CHR ''U''} \<and> \<not> isUnsigned P \<and> s1 = s' \<and> P1 = P\<lparr>isUnsigned := True\<rparr> \<or>
      c \<in> {CHR ''l'', CHR ''L''} \<and> \<not> isLong P \<and> \<not> isLongLong P \<and>
        (s' = c # s1 \<and> P1 = P\<lparr>isLongLong := True\<rparr> \<or> s1 = s' \<and> P1 = P\<lparr>isLong := True\<rparr>)"
      using Continue assms(1) unfolding suffix_step_def
      by (cases s') (auto split: if_split_asm)
    then show ?thesis using Cons Continue rest by blast
  qed
qed simp

abbreviation accepts_rest :: "lang_options \<Rightarrow> char list \<Rightarrow> char list \<Rightarrow> numeric_parser \<Rightarrow> bool" where
  "accepts_rest LO tok s P \<equiv> num_s (parse_suffix LO tok False s P) = [] \<and> \<not> isImaginary (parse_suffix LO tok False s P)"

lemma rest_after_both:
  assumes "\<not> Microsoft LO" "accepts_rest LO tok s P" "isUnsigned P" "isLong P \<or> isLongLong P"
  shows "s = []"
  using parse_suffix_done [OF assms(1) conjunct1 [OF assms(2)] conjunct2 [OF assms(2)]] assms(3,4) by blast

lemma rest_after_unsigned:
  assumes "\<not> Microsoft LO" "accepts_rest LO tok s P" "isUnsigned P"
  shows "s = [] \<or> s \<in> set long_suffixes"
proof (cases "s = []")
  case False
  then obtain c s' s1 P1 where c: "s = c # s'" "c \<in> {CHR ''l'', CHR ''L''}"
    and rest: "accepts_rest LO tok s1 P1"
    and s1: "s' = c # s1 \<and> P1 = P\<lparr>isLongLong := True\<rparr> \<or> s1 = s' \<and> P1 = P\<lparr>isLong := True\<rparr>"
    using parse_suffix_done [OF assms(1) conjunct1 [OF assms(2)] conjunct2 [OF assms(2)]] assms(3) by blast
  have "s1 = []" by (rule rest_after_both [OF assms(1) rest]) (use s1 assms(3) in auto)
  then show ?thesis using c s1 by (auto simp: long_suffixes_def)
qed simp

lemma rest_after_long:
  assumes "\<not> Microsoft LO" "accepts_rest LO tok s P" "isLong P \<or> isLongLong P"
  shows "s = [] \<or> s \<in> set unsigned_suffixes"
proof (cases "s = []")
  case False
  then obtain c s' P1 where c: "s = c # s'" "c \<in> {CHR ''u'', CHR ''U''}"
    and rest: "accepts_rest LO tok s' P1" and P1: "P1 = P\<lparr>isUnsigned := True\<rparr>"
    using parse_suffix_done [OF assms(1) conjunct1 [OF assms(2)] conjunct2 [OF assms(2)]] assms(3) by blast
  have "s' = []" by (rule rest_after_both [OF assms(1) rest]) (use P1 assms(3) in auto)
  then show ?thesis using c by (auto simp: unsigned_suffixes_def)
qed simp

lemma integer_suffix_parts:
  "u \<in> set unsigned_suffixes \<Longrightarrow> s = [] \<or> s \<in> set long_suffixes \<Longrightarrow> u @ s \<in> set integer_suffixes"
  "l \<in> set long_suffixes \<Longrightarrow> s = [] \<or> s \<in> set unsigned_suffixes \<Longrightarrow> l @ s \<in> set integer_suffixes"
  unfolding integer_suffixes_def by auto

lemma suffix_letters:
  "c \<in> {CHR ''u'', CHR ''U''} \<Longrightarrow> [c] \<in> set unsigned_suffixes"
  "c \<in> {CHR ''l'', CHR ''L''} \<Longrightarrow> [c] \<in> set long_suffixes \<and> [c, c] \<in> set long_suffixes"
  by (auto simp: unsigned_suffixes_def long_suffixes_def)

lemma parse_suffix_language:
  assumes "\<not> Microsoft LO" "accepts_rest LO tok s P"
  shows "s \<in> set integer_suffixes"
  using parse_suffix_done [OF assms(1) conjunct1 [OF assms(2)] conjunct2 [OF assms(2)]]
proof (elim disjE exE conjE)
  fix c s' s1 P1
  assume *: "s = c # s'" "num_s (parse_suffix LO tok False s1 P1) = []"
    "\<not> isImaginary (parse_suffix LO tok False s1 P1)" "c \<in> {CHR ''u'', CHR ''U''}" "s1 = s'" "P1 = P\<lparr>isUnsigned := True\<rparr>"
  then have "s' = [] \<or> s' \<in> set long_suffixes" using rest_after_unsigned [OF assms(1), of tok s' P1] by simp
  then show ?thesis using integer_suffix_parts(1) [OF suffix_letters(1) [OF *(4)], of s'] *(1) by simp
next
  fix c s' s1 P1
  assume *: "s = c # s'" "num_s (parse_suffix LO tok False s1 P1) = []"
    "\<not> isImaginary (parse_suffix LO tok False s1 P1)" "c \<in> {CHR ''l'', CHR ''L''}" "s' = c # s1" "P1 = P\<lparr>isLongLong := True\<rparr>"
  then have "s1 = [] \<or> s1 \<in> set unsigned_suffixes" using rest_after_long [OF assms(1), of tok s1 P1] by simp
  then show ?thesis
    using integer_suffix_parts(2) [OF conjunct2 [OF suffix_letters(2) [OF *(4)]], of s1] *(1,5) by simp
next
  fix c s' s1 P1
  assume *: "s = c # s'" "num_s (parse_suffix LO tok False s1 P1) = []"
    "\<not> isImaginary (parse_suffix LO tok False s1 P1)" "c \<in> {CHR ''l'', CHR ''L''}" "s1 = s'" "P1 = P\<lparr>isLong := True\<rparr>"
  then have "s' = [] \<or> s' \<in> set unsigned_suffixes" using rest_after_long [OF assms(1), of tok s' P1] by simp
  then show ?thesis
    using integer_suffix_parts(2) [OF conjunct1 [OF suffix_letters(2) [OF *(4)]], of s'] *(1) by simp
qed (simp add: integer_suffixes_def)

text \<open>The first half of the constructor, up to the suffix, leaves the flags of the suffix unset.\<close>

definition number_part :: "lang_options \<Rightarrow> char list \<Rightarrow> char \<Rightarrow> numeric_parser option" where
  "number_part LO tok e =
     (if peek e tok = CHR ''0'' then ParseNumberStartingWithZero LO tok e (numeric_start tok)
      else ParseDecimal tok e (numeric_start tok))"

lemma NumericLiteralParser_parts:
  "NumericLiteralParser LO tok e = do {
     asserting (\<not> isalnum e \<and> e \<noteq> CHR ''.'' \<and> e \<noteq> CHR ''_'');
     P \<leftarrow> number_part LO tok e;
     Some (if hadError P then P else literal_suffix LO tok P) }"
  by (simp add: NumericLiteralParser_def number_part_def)

definition num_flags :: "numeric_parser \<Rightarrow> bool \<times> bool \<times> bool \<times> bool \<times> bool" where
  "num_flags P = (isUnsigned P, isLong P, isLongLong P, isFloat P, isImaginary P)"

lemma num_flags_simps [simp]:
  "num_flags (P\<lparr>num_s := s\<rparr>) = num_flags P" "num_flags (P\<lparr>DigitsBegin := s\<rparr>) = num_flags P"
  "num_flags (P\<lparr>radix := r\<rparr>) = num_flags P" "num_flags (P\<lparr>saw_exponent := b\<rparr>) = num_flags P"
  "num_flags (P\<lparr>saw_period := b\<rparr>) = num_flags P" "num_flags (num_diag_at tok d at P) = num_flags P"
  "num_flags (num_error_at tok d at P) = num_flags P"
  by (simp_all add: num_flags_def num_diag_at_def num_error_at_def)

lemma parse_exponent_flags: "parse_exponent tok e P = Some P' \<Longrightarrow> num_flags P' = num_flags P"
  by (auto simp: parse_exponent_def Let_def bind_eq_Some_conv split: if_splits)

lemma parse_fraction_flags: "parse_fraction tok e P = Some P' \<Longrightarrow> num_flags P' = num_flags P"
  by (auto simp: parse_fraction_def bind_eq_Some_conv split: if_splits dest!: parse_exponent_flags)

lemma number_part_flags:
  assumes "number_part LO tok e = Some P"
  shows "num_flags P = num_flags (numeric_start tok)"
proof -
  have hex: "num_flags P' = num_flags Q" if "ParseHexNumber LO tok e s Q = Some P'" for s Q P'
  proof -
    from that obtain s1 P2 where
      P2: "(if SkipHexDigits s1 = [] then Some (Q\<lparr>radix := 16, DigitsBegin := s1, num_s := SkipHexDigits s1\<rparr>)
        else if peek e (SkipHexDigits s1) = CHR ''.''
        then map_option (\<lambda>s3. Q\<lparr>radix := 16, DigitsBegin := s1, num_s := SkipHexDigits s1, saw_period := True,
          num_s := SkipHexDigits s3\<rparr>) (bump (SkipHexDigits s1))
        else Some (Q\<lparr>radix := 16, DigitsBegin := s1, num_s := SkipHexDigits s1\<rparr>)) = Some P2"
      and P': "(if is_p (peek e (num_s P2))
        then do {
          P3 \<leftarrow> parse_exponent tok e P2;
          Some (if \<not> hadError P3 \<and> \<not> HexFloats LO then num_diag_at tok ext_hexconstant_invalid tok P3 else P3) }
        else Some (if saw_period P2 then num_error_at tok err_hexconstant_requires_exponent (num_s P2) P2 else P2)) = Some P'"
      unfolding ParseHexNumber_def Let_def by (elim bind_SomeE) (rule that)
    have "num_flags P2 = num_flags Q" using P2 by (auto split: if_split_asm)
    moreover have "num_flags P' = num_flags P2"
    proof (cases "is_p (peek e (num_s P2))")
      case True
      then obtain P3 where "parse_exponent tok e P2 = Some P3"
        "P' = (if \<not> hadError P3 \<and> \<not> HexFloats LO then num_diag_at tok ext_hexconstant_invalid tok P3 else P3)"
        using P' by (auto simp: bind_eq_Some_conv)
      then show ?thesis using parse_exponent_flags by simp
    next
      case False
      then have "P' = (if saw_period P2 then num_error_at tok err_hexconstant_requires_exponent (num_s P2) P2 else P2)"
        using P' by simp
      then show ?thesis by simp
    qed
    ultimately show ?thesis by simp
  qed
  have bin: "num_flags P' = num_flags Q" if "ParseBinaryNumber tok e s Q = Some P'" for s Q P'
    using that by (auto simp: ParseBinaryNumber_def Let_def bind_eq_Some_conv split: if_splits)
  have dec: "num_flags (octal_as_decimal e Q) = num_flags Q" for Q
    by (simp add: octal_as_decimal_def Let_def)
  have oct: "num_flags P' = num_flags Q" if "ParseOctalNumber tok e s Q = Some P'" for s Q P'
    using that by (auto simp: ParseOctalNumber_def Let_def dec split: if_splits dest!: parse_fraction_flags)
  have "num_flags P' = num_flags Q" if "ParseNumberStartingWithZero LO tok e Q = Some P'" for Q P'
    using that by (auto simp: ParseNumberStartingWithZero_def Let_def bind_eq_Some_conv split: if_splits dest!: hex bin oct)
  moreover have "num_flags P' = num_flags Q" if "ParseDecimal tok e Q = Some P'" for Q P'
    using that by (auto simp: ParseDecimal_def Let_def split: if_splits dest!: parse_fraction_flags)
  ultimately show ?thesis using assms by (auto simp: number_part_def split: if_splits)
qed

lemma number_part_plain:
  assumes "number_part LO tok e = Some P"
  shows "plain_int (P\<lparr>SuffixBegin := s\<rparr>)"
  using number_part_flags [OF assms] by (simp add: num_flags_def numeric_start_def plain_int_def)

section \<open>Printing and parsing\<close>

fun print_radix :: "nat \<Rightarrow> nat \<Rightarrow> char list" where
  "print_radix r n = (if n < r \<or> r < 2 then [digit_char n] else print_radix r (n div r) @ [digit_char (n mod r)])"

declare print_radix.simps [simp del]

definition radix_prefix :: "nat \<Rightarrow> char list" where
  "radix_prefix r = (if r = 16 then ''0x'' else if r = 8 then ''0'' else if r = 2 then ''0b'' else [])"

lemma digits_value_append: "digits_value r v (xs @ ys) = digits_value r (digits_value r v xs) ys"
  by (induction xs arbitrary: v) simp_all

lemma print_radix_ok:
  assumes "2 \<le> r" "r \<le> 16"
  shows "print_radix r n \<noteq> [] \<and> (\<forall>c \<in> set (print_radix r n). \<exists>d < r. c = digit_char d) \<and>
    digits_value r 0 (print_radix r n) = n"
proof (induction n rule: less_induct)
  case (less n)
  show ?case
  proof (cases "n < r")
    case True
    then show ?thesis using assms by (auto simp: print_radix.simps [of r n] HexDigitValue_digit_char)
  next
    case False
    have d: "n mod r < r" "n div r < n" using assms False by auto
    note IH = less [OF d(2)]
    have p: "print_radix r n = print_radix r (n div r) @ [digit_char (n mod r)]"
      using False assms(1) by (simp add: print_radix.simps [of r n])
    have "nat (HexDigitValue (digit_char (n mod r))) = n mod r"
      using HexDigitValue_digit_char [of "n mod r"] d(1) assms(2) by simp
    then have "digits_value r 0 (print_radix r n) = n"
      unfolding p digits_value_append using IH by simp
    then show ?thesis using IH d(1) p by auto
  qed
qed

lemma digit_char_01: "digit_char 0 = CHR ''0''" "digit_char 1 = CHR ''1''"
  by code_simp+

lemma print_radix_class:
  assumes "r \<in> {2, 8, 10, 16}"
  shows "\<forall>c \<in> set (print_radix r n). digit_class r c"
proof
  fix c assume "c \<in> set (print_radix r n)"
  then obtain d where d: "d < r" "c = digit_char d" using print_radix_ok [of r n] assms by fastforce
  show "digit_class r c"
  proof (cases "r = 2")
    case True
    then have "d = 0 \<or> d = 1" using d(1) by auto
    then show ?thesis using d(2) True digit_char_01 by (auto simp: digit_class_def)
  next
    case False
    then show ?thesis
      using d assms isxdigit_digit_char [of d] isoctal_digit_char [of d] isdigit_digit_char [of d]
      by (auto simp: digit_class_def)
  qed
qed

lemma print_radix_head:
  assumes "0 < n" "2 \<le> r" "r \<le> 16"
  shows "hd (print_radix r n) \<noteq> CHR ''0''"
  using assms(1)
proof (induction n rule: less_induct)
  case (less n)
  show ?case
  proof (cases "n < r")
    case True
    then have "HexDigitValue (digit_char n) = int n" using assms(3) by (simp add: HexDigitValue_digit_char)
    then show ?thesis using True less.prems HexDigitValue_01(1) by (auto simp: print_radix.simps [of r n])
  next
    case False
    then have "hd (print_radix r n) = hd (print_radix r (n div r))"
      using assms print_radix_ok [of r "n div r"] by (simp add: print_radix.simps [of r n])
    moreover have "n div r < n" "0 < n div r" using assms False by (auto simp: div_greater_zero_iff)
    ultimately show ?thesis using less.IH by simp
  qed
qed

text \<open>A suffix, and the byte behind the token, end the digits.\<close>

lemma suffix_chars:
  assumes "sfx \<in> set integer_suffixes"
  shows "sfx = [] \<or> hd sfx \<in> {CHR ''u'', CHR ''U'', CHR ''l'', CHR ''L''}"
  using assms by (auto simp: integer_suffixes_def unsigned_suffixes_def long_suffixes_def)

lemma dropWhile_suffix:
  assumes "\<forall>c \<in> set ds. p c" "sfx \<in> set integer_suffixes"
    "\<not> p (CHR ''u'')" "\<not> p (CHR ''U'')" "\<not> p (CHR ''l'')" "\<not> p (CHR ''L'')"
  shows "dropWhile p (ds @ sfx) = sfx"
proof -
  have "dropWhile p sfx = sfx" using suffix_chars [OF assms(2)] assms(3-6) by (cases sfx) auto
  then show ?thesis using assms(1) by (simp add: dropWhile_append3)
qed

lemma suffix_peek:
  assumes "sfx \<in> set integer_suffixes" "\<not> isalnum e" "e \<noteq> CHR ''.''"
  shows "\<not> isxdigit (peek e sfx)" "\<not> isdigit (peek e sfx)" "peek e sfx \<noteq> CHR ''.''"
    "\<not> is_e (peek e sfx)" "\<not> is_p (peek e sfx)"
proof -
  have "peek e sfx = e \<or> peek e sfx \<in> {CHR ''u'', CHR ''U'', CHR ''l'', CHR ''L''}"
    using suffix_chars [OF assms(1)] by (cases sfx) (auto simp: peek_def)
  then show "\<not> isxdigit (peek e sfx)" "\<not> isdigit (peek e sfx)" "peek e sfx \<noteq> CHR ''.''"
    "\<not> is_e (peek e sfx)" "\<not> is_p (peek e sfx)"
    using end_byte [OF assms(2)] assms(3) by (auto simp: isxdigit_def isdigit_def is_e_def is_p_def)
qed

lemma parse_fraction_none:
  "peek e (num_s P) \<noteq> CHR ''.'' \<Longrightarrow> \<not> is_e (peek e (num_s P)) \<Longrightarrow> parse_fraction tok e P = Some P"
  by (simp add: parse_fraction_def)

lemma skip_digits_suffix:
  assumes "r \<in> {2, 8, 10, 16}" "sfx \<in> set integer_suffixes"
  shows "dropWhile (digit_class r) (print_radix r n @ sfx) = sfx"
  using assms
  by (intro dropWhile_suffix print_radix_class) (auto simp: digit_class_def char_class_defs)

text \<open>The digits of a printed number are parsed as such, in every radix.\<close>

definition parsed_number :: "nat \<Rightarrow> nat \<Rightarrow> char list \<Rightarrow> numeric_parser \<Rightarrow> bool" where
  "parsed_number r n sfx P \<longleftrightarrow> \<not> hadError P \<and> isIntegerLiteral P \<and> radix P = r \<and>
     DigitsBegin P = print_radix r n @ sfx \<and> num_s P = sfx \<and> plain_int P"

lemma parse_printed_decimal:
  assumes "0 < n" "sfx \<in> set integer_suffixes" "\<not> isalnum e" "e \<noteq> CHR ''.''"
  shows "peek e (print_radix 10 n @ sfx) \<noteq> CHR ''0''"
    "\<exists>P. ParseDecimal tok e (numeric_start (print_radix 10 n @ sfx)) = Some P \<and> parsed_number 10 n sfx P"
proof -
  show "peek e (print_radix 10 n @ sfx) \<noteq> CHR ''0''"
    using print_radix_head [OF assms(1), of 10] print_radix_ok [of 10 n]
    by (cases "print_radix 10 n") (auto simp: peek_def)
  have "SkipDigits (print_radix 10 n @ sfx) = sfx"
    using skip_digits_suffix [of 10 sfx n] assms(2) by (simp add: SkipDigits_def digit_class_def)
  then show "\<exists>P. ParseDecimal tok e (numeric_start (print_radix 10 n @ sfx)) = Some P \<and> parsed_number 10 n sfx P"
    using suffix_peek [OF assms(2-4)]
    by (simp add: ParseDecimal_def Let_def parse_fraction_none numeric_start_def parsed_number_def
        isIntegerLiteral_def plain_int_def)
qed

lemma parse_printed_hex:
  assumes "sfx \<in> set integer_suffixes" "\<not> isalnum e" "e \<noteq> CHR ''.''"
  shows "\<exists>P. ParseNumberStartingWithZero LO tok e (numeric_start (''0x'' @ print_radix 16 n @ sfx)) = Some P \<and>
    parsed_number 16 n sfx P"
proof -
  have skip: "SkipHexDigits (print_radix 16 n @ sfx) = sfx"
    using skip_digits_suffix [of 16 sfx n] assms(1) by (simp add: SkipHexDigits_def digit_class_def)
  have "isxdigit (peek e (print_radix 16 n @ sfx))"
    using print_radix_ok [of 16 n] print_radix_class [of 16 n]
    by (cases "print_radix 16 n") (auto simp: peek_def digit_class_def)
  then show ?thesis
    using suffix_peek [OF assms] skip
    by (cases "sfx = []"; simp add: ParseNumberStartingWithZero_def numeric_start_def peek_def [of e "_ # _"] bump_def peek1_def ParseHexNumber_def
        Let_def parsed_number_def isIntegerLiteral_def plain_int_def)
qed

lemma parse_printed_binary:
  assumes "sfx \<in> set integer_suffixes" "\<not> isalnum e" "e \<noteq> CHR ''.''"
  shows "\<exists>P. ParseNumberStartingWithZero LO tok e (numeric_start (''0b'' @ print_radix 2 n @ sfx)) = Some P \<and>
    parsed_number 2 n sfx P"
proof -
  have skip: "SkipBinaryDigits (print_radix 2 n @ sfx) = sfx"
    using skip_digits_suffix [of 2 sfx n] assms(1) by (simp add: SkipBinaryDigits_def digit_class_def)
  then show ?thesis
    using suffix_peek [OF assms]
    by (cases "sfx = []"; simp add: ParseNumberStartingWithZero_def numeric_start_def peek_def [of e "_ # _"] bump_def peek1_def ParseBinaryNumber_def
        Let_def parsed_number_def isIntegerLiteral_def plain_int_def)
qed

lemma parse_printed_octal:
  assumes "sfx \<in> set integer_suffixes" "\<not> isalnum e" "e \<noteq> CHR ''.''"
  shows "\<exists>P. ParseNumberStartingWithZero LO tok e (numeric_start (''0'' @ print_radix 8 n @ sfx)) = Some P \<and>
    parsed_number 8 n sfx P"
proof -
  have skip: "SkipOctalDigits (print_radix 8 n @ sfx) = sfx"
    using skip_digits_suffix [of 8 sfx n] assms(1) by (simp add: SkipOctalDigits_def digit_class_def)
  have "isoctal (peek e (print_radix 8 n @ sfx))"
    using print_radix_ok [of 8 n] print_radix_class [of 8 n]
    by (cases "print_radix 8 n") (auto simp: peek_def digit_class_def)
  then have "peek e (print_radix 8 n @ sfx) \<notin> {CHR ''x'', CHR ''X'', CHR ''b'', CHR ''B''}"
    by (auto simp: isoctal_def)
  then show ?thesis
    using suffix_peek [OF assms] skip
    by (cases "sfx = []"; simp add: ParseNumberStartingWithZero_def numeric_start_def peek_def [of e "_ # _"] bump_def ParseOctalNumber_def
        Let_def octal_as_decimal_def parse_fraction_none parsed_number_def isIntegerLiteral_def plain_int_def)
qed

lemma literal_suffix_accepts:
  assumes "parsed_number r n sfx P" "sfx \<in> set integer_suffixes"
  shows "\<not> hadError (literal_suffix LO tok P) \<and> isIntegerLiteral (literal_suffix LO tok P) \<and>
    radix (literal_suffix LO tok P) = r \<and> literal_digits (literal_suffix LO tok P) = print_radix r n \<and>
    suffix_flags sfx (literal_suffix LO tok P)"
proof -
  let ?P = "P\<lparr>SuffixBegin := num_s P\<rparr>"
  have P: "num_s P = sfx" "\<not> isFloatingLiteral P" "plain_int ?P" "\<not> hadError P" "isIntegerLiteral P"
    using assms(1) by (auto simp: parsed_number_def isFloatingLiteral_def isIntegerLiteral_def plain_int_def)
  note acc = parse_suffix_accepts [OF assms(2) P(3), of LO tok]
  then have eq: "literal_suffix LO tok P = parse_suffix LO tok False sfx ?P"
    using P(1,2) by (simp add: literal_suffix_def Let_def)
  note keep = parse_suffix_keeps [of LO tok False sfx ?P]
  have "literal_digits (literal_suffix LO tok P) = print_radix r n"
    by (rule literal_digits_takeWhile) (use keep assms(1) P(1) in \<open>simp add: eq parsed_number_def\<close>)
  then show ?thesis
    using acc keep assms(1) P by (simp add: eq isIntegerLiteral_def parsed_number_def)
qed

lemma NumericLiteralParser_printed:
  assumes "r \<in> {2, 8, 10, 16}" "r = 10 \<Longrightarrow> 0 < n" "sfx \<in> set integer_suffixes"
    "\<not> isalnum e" "e \<noteq> CHR ''.''" "e \<noteq> CHR ''_''"
  shows "\<exists>P. NumericLiteralParser LO (radix_prefix r @ print_radix r n @ sfx) e = Some P \<and> \<not> hadError P \<and>
    isIntegerLiteral P \<and> radix P = r \<and> literal_digits P = print_radix r n \<and> suffix_flags sfx P"
proof -
  let ?tok = "radix_prefix r @ print_radix r n @ sfx"
  have "\<exists>P1. (if peek e ?tok = CHR ''0'' then ParseNumberStartingWithZero LO ?tok e (numeric_start ?tok)
      else ParseDecimal ?tok e (numeric_start ?tok)) = Some P1 \<and> parsed_number r n sfx P1"
  proof -
    consider "r = 10" | "r = 16" | "r = 2" | "r = 8" using assms(1) by blast
    then show ?thesis
    proof cases
      case 1
      then show ?thesis using parse_printed_decimal(1) [of n sfx e] parse_printed_decimal(2) [of n sfx e ?tok] assms(2-5)
        by (simp add: radix_prefix_def)
    next
      case 2
      then show ?thesis using parse_printed_hex [OF assms(3-5), of LO ?tok n] by (simp add: radix_prefix_def peek_def)
    next
      case 3
      then show ?thesis using parse_printed_binary [OF assms(3-5), of LO ?tok n] by (simp add: radix_prefix_def peek_def)
    next
      case 4
      then show ?thesis using parse_printed_octal [OF assms(3-5), of LO ?tok n] by (simp add: radix_prefix_def peek_def)
    qed
  qed
  then obtain P1 where P1: "(if peek e ?tok = CHR ''0'' then ParseNumberStartingWithZero LO ?tok e (numeric_start ?tok)
      else ParseDecimal ?tok e (numeric_start ?tok)) = Some P1" "parsed_number r n sfx P1" by blast
  have "NumericLiteralParser LO ?tok e = Some (literal_suffix LO ?tok P1)"
    using P1 assms(4-6) unfolding NumericLiteralParser_def P1(1) by (simp add: parsed_number_def)
  then show ?thesis using literal_suffix_accepts [OF P1(2) assms(3), of LO ?tok] by auto
qed

lemma accepted_case: "(case x of None \<Rightarrow> False | Some P \<Rightarrow> q P \<and> q' P) \<Longrightarrow> \<exists>P. x = Some P \<and> q P \<and> q' P"
  by (cases x) auto

section \<open>Properties\<close>

text \<open>
  C11: an integer literal printed in one of the four radices, with any standard suffix, is accepted;
  its suffix flags are the suffix's, and \<^verbatim>\<open>GetIntegerValue\<close> returns the number modulo two to the
  width of the value it is given, with the overflow flag set exactly when the number does not fit.
\<close>

theorem integer_literal_roundtrip:
  assumes "r \<in> {2, 8, 10, 16}" "r = 10 \<Longrightarrow> 0 < n" "sfx \<in> set integer_suffixes"
    "\<not> isalnum e" "e \<noteq> CHR ''.''" "e \<noteq> CHR ''_''" "apint A width val" "r < 2 ^ width x"
  shows "\<exists>P y. NumericLiteralParser LO (radix_prefix r @ print_radix r n @ sfx) e = Some P \<and> \<not> hadError P \<and>
    isIntegerLiteral P \<and> suffix_flags sfx P \<and>
    GetIntegerValue A x P = Some (y, 2 ^ width x \<le> n) \<and> width y = width x \<and> val y = n mod 2 ^ width x"
proof -
  obtain P where P: "NumericLiteralParser LO (radix_prefix r @ print_radix r n @ sfx) e = Some P" "\<not> hadError P"
    "isIntegerLiteral P" "radix P = r" "literal_digits P = print_radix r n" "suffix_flags sfx P"
    using NumericLiteralParser_printed [OF assms(1-6)] by blast
  have "digits_value r 0 (print_radix r n) = n" "0 < r" using print_radix_ok [of r n] assms(1) by auto
  then show ?thesis
    using apint.GetIntegerValue_ok [OF assms(7) NumericLiteralParser_digits_ok [OF P(1-3)]] P assms(8) by auto
qed

theorem integer_literal_roundtrip_witness:
  "\<exists>P y. NumericLiteralParser \<lparr>Microsoft = False, NoExtensions = False, HexFloats = True, PascalStrings = False\<rparr>
      (radix_prefix 16 @ print_radix 16 300 @ ''ull'') (CHR '';'') = Some P \<and> \<not> hadError P \<and>
    GetIntegerValue pair_apint (8, 0) P = Some (y, True) \<and> snd y mod 2 ^ fst y = 44"
proof -
  have "''ull'' \<in> set integer_suffixes" by code_simp
  moreover have "\<not> isalnum (CHR '';'')" by code_simp
  ultimately show ?thesis
    using integer_literal_roundtrip [OF _ _ _ _ _ _ pair_apint.apint_axioms, where r = 16 and n = 300 and
        sfx = "''ull''" and e = "CHR '';''" and x = "(8, 0)" and
        LO = "\<lparr>Microsoft = False, NoExtensions = False, HexFloats = True, PascalStrings = False\<rparr>"]
    by auto
qed

text \<open>
  C12: for every token the constructor accepts as an integer literal, the assertion in
  \<^verbatim>\<open>GetIntegerValue\<close> holds at each digit: the call succeeds and returns the digits' value modulo two
  to the width, with the overflow flag set exactly when it does not fit.
\<close>

theorem GetIntegerValue_correct:
  assumes "NumericLiteralParser LO tok e = Some P" "\<not> hadError P" "isIntegerLiteral P"
    "apint A width val" "(16::nat) < 2 ^ width x"
  shows "\<exists>y. GetIntegerValue A x P = Some (y, 2 ^ width x \<le> digits_value (radix P) 0 (literal_digits P)) \<and>
    width y = width x \<and> val y = digits_value (radix P) 0 (literal_digits P) mod 2 ^ width x"
proof -
  have "radix P \<in> {2, 8, 10, 16}" using NumericLiteralParser_digits [OF assms(1-3)] by blast
  then have "0 < radix P" "radix P < 2 ^ width x" using assms(5) by auto
  then show ?thesis using apint.GetIntegerValue_ok [OF assms(4) NumericLiteralParser_digits_ok [OF assms(1-3)]] by blast
qed

theorem GetIntegerValue_correct_witness:
  "\<exists>P y. NumericLiteralParser \<lparr>Microsoft = False, NoExtensions = False, HexFloats = True, PascalStrings = False\<rparr>
      ''017'' (CHR '';'') = Some P \<and> GetIntegerValue pair_apint (32, 0) P = Some (y, False)"
proof -
  let ?LO = "\<lparr>Microsoft = False, NoExtensions = False, HexFloats = True, PascalStrings = False\<rparr>"
  have "case NumericLiteralParser ?LO ''017'' (CHR '';'') of None \<Rightarrow> False | Some P \<Rightarrow>
      \<not> hadError P \<and> isIntegerLiteral P \<and> radix P = 8 \<and> literal_digits P = ''17''" by code_simp
  then obtain P where P: "NumericLiteralParser ?LO ''017'' (CHR '';'') = Some P" "\<not> hadError P" "isIntegerLiteral P"
    "radix P = 8" "literal_digits P = ''17''" by (auto split: option.splits)
  have "digits_value 8 0 ''17'' = 15" by code_simp
  then show ?thesis
    using GetIntegerValue_correct [OF P(1-3) pair_apint.apint_axioms, of "(32, 0)"] P by auto
qed

text \<open>
  C13: the constructor terminates with a result and reads no byte behind the one that follows the
  token, whenever that byte is as its assertion demands and is not a sign behind an exponent letter.
\<close>

theorem NumericLiteralParser_no_overread:
  assumes "\<not> isalnum e" "e \<noteq> CHR ''.''" "e \<noteq> CHR ''_''" "sign_behind_ok tok e"
  shows "\<exists>P. NumericLiteralParser LO tok e = Some P"
  using NumericLiteralParser_total [OF assms] .

theorem NumericLiteralParser_no_overread_witness:
  "\<exists>P. NumericLiteralParser \<lparr>Microsoft = False, NoExtensions = False, HexFloats = True, PascalStrings = False\<rparr>
     ''1e5'' (CHR ''+'') = Some P"
  by (rule NumericLiteralParser_no_overread) code_simp+

text \<open>
  C14: outside Microsoft mode, when the digits of an integer literal were parsed without an error, the
  constructor accepts what follows them, without an imaginary letter, exactly when it is one of the
  23 suffixes of the standard, and then the flags are that suffix's.
\<close>

theorem integer_suffix_language:
  assumes "number_part LO tok e = Some P1" "\<not> hadError P1" "isIntegerLiteral P1" "\<not> Microsoft LO"
    "\<not> isalnum e" "e \<noteq> CHR ''.''" "e \<noteq> CHR ''_''"
  shows "\<exists>P. NumericLiteralParser LO tok e = Some P \<and>
    (\<not> hadError P \<and> \<not> isImaginary P \<longleftrightarrow> num_s P1 \<in> set integer_suffixes) \<and>
    (num_s P1 \<in> set integer_suffixes \<longrightarrow> suffix_flags (num_s P1) P)"
proof -
  let ?P = "P1\<lparr>SuffixBegin := num_s P1\<rparr>" and ?Q = "literal_suffix LO tok P1"
  let ?R = "parse_suffix LO tok False (num_s P1) ?P"
  have fp: "\<not> isFloatingLiteral P1" using assms(3) by (simp add: isFloatingLiteral_def isIntegerLiteral_def)
  have Q: "?Q = (if num_s ?R \<noteq> [] then num_error_at tok (err_invalid_suffix_integer_constant (SuffixBegin ?R)) (num_s ?R) ?R
      else ?R)" using fp by (simp add: literal_suffix_def Let_def)
  have err: "hadError ?Q \<longleftrightarrow> num_s ?R \<noteq> []"
    using assms(2) parse_suffix_keeps(6) [of LO tok False "num_s P1" ?P] by (simp add: Q num_error_at_def)
  have imag: "isImaginary ?Q = isImaginary ?R" by (simp add: Q num_error_at_def num_diag_at_def)
  have "num_s P1 \<in> set integer_suffixes" if "\<not> hadError ?Q" "\<not> isImaginary ?Q"
    using parse_suffix_language [OF assms(4), of tok "num_s P1" ?P] that err imag by simp
  moreover have "\<not> hadError ?Q \<and> \<not> isImaginary ?Q \<and> suffix_flags (num_s P1) ?Q" if "num_s P1 \<in> set integer_suffixes"
    using parse_suffix_accepts [OF that number_part_plain [OF assms(1)]] err imag by (simp add: Q)
  moreover have "NumericLiteralParser LO tok e = Some ?Q"
    using assms(1,2,5-7) by (simp add: NumericLiteralParser_parts)
  ultimately show ?thesis by blast
qed

theorem integer_suffix_language_witness:
  "\<exists>P1 P. number_part \<lparr>Microsoft = False, NoExtensions = False, HexFloats = True, PascalStrings = False\<rparr>
      ''1LLu'' (CHR '';'') = Some P1 \<and> num_s P1 = ''LLu'' \<and>
    NumericLiteralParser \<lparr>Microsoft = False, NoExtensions = False, HexFloats = True, PascalStrings = False\<rparr>
      ''1LLu'' (CHR '';'') = Some P \<and> \<not> hadError P \<and> isUnsigned P \<and> isLongLong P"
proof -
  let ?LO = "\<lparr>Microsoft = False, NoExtensions = False, HexFloats = True, PascalStrings = False\<rparr>"
  have "case number_part ?LO ''1LLu'' (CHR '';'') of None \<Rightarrow> False | Some P \<Rightarrow>
      \<not> hadError P \<and> isIntegerLiteral P \<and> num_s P = ''LLu''" by code_simp
  then obtain P1 where P1: "number_part ?LO ''1LLu'' (CHR '';'') = Some P1" "\<not> hadError P1" "isIntegerLiteral P1"
    "num_s P1 = ''LLu''" by (auto split: option.splits)
  have "''LLu'' \<in> set integer_suffixes" "\<not> isalnum (CHR '';'')" by code_simp+
  with integer_suffix_language [OF P1(1-3), unfolded P1(4)] P1 show ?thesis
    by (auto simp: suffix_flags_def sublist_Cons_right)
qed

text \<open>
  Tokens that are not numbers of the language and are accepted without an error: in Microsoft
  mode the incomplete suffixes \<open>i\<close> and \<open>i1\<close>, everywhere a hexadecimal floating constant and
  a binary constant without a digit. And a hexadecimal exponent at the end of its token whose sign
  the lexer left outside makes the parser step over the end of the token.
\<close>

theorem NumericLiteralParser_malformed:
  "(\<exists>P. NumericLiteralParser \<lparr>Microsoft = True, NoExtensions = False, HexFloats = True, PascalStrings = False\<rparr>
      ''1i1'' (CHR '';'') = Some P \<and> \<not> hadError P \<and> isIntegerLiteral P) \<and>
   (\<exists>P. NumericLiteralParser \<lparr>Microsoft = False, NoExtensions = False, HexFloats = True, PascalStrings = False\<rparr>
      ''0x.p1'' (CHR '';'') = Some P \<and> \<not> hadError P \<and> isFloatingLiteral P) \<and>
   (\<exists>P. NumericLiteralParser \<lparr>Microsoft = False, NoExtensions = False, HexFloats = True, PascalStrings = False\<rparr>
      ''0b'' (CHR '';'') = Some P \<and> \<not> hadError P \<and> literal_digits P = []) \<and>
   NumericLiteralParser \<lparr>Microsoft = False, NoExtensions = True, HexFloats = False, PascalStrings = False\<rparr>
      ''0x1p'' (CHR ''+'') = None"
  by (intro conjI accepted_case; code_simp)

end
