(* ===== verification/StringLiteral.thy ===== *)
theory StringLiteral
  imports Characters
begin

unbundle bit_operations_syntax

text \<open>
  Character and string literals: \<^verbatim>\<open>ProcessCharEscape\<close>, \<^verbatim>\<open>ProcessUCNEscape\<close>,
  \<^verbatim>\<open>CharLiteralParser\<close> and \<^verbatim>\<open>StringLiteralParser\<close> of
  \<^verbatim>\<open>lib/Lex/LiteralSupport.cpp\<close>. Cursors are as in \<open>Characters\<close>; the result buffer is the
  list of the bytes written so far. A function that takes \<^verbatim>\<open>HadError\<close> by reference returns
  whether it sets it. The diagnostics are recorded without their locations.
\<close>

section \<open>Escapes\<close>

type_synonym byte = "8 word"

datatype escape_diag =
  ext_nonstandard_escape "char list"
| err_hex_escape_no_digits
| warn_hex_escape_too_large
| warn_octal_escape_too_large
| ext_unknown_escape_char char
| ext_unknown_escape_hex u32
| err_ucn_escape_no_digits
| err_ucn_escape_incomplete nat
| err_ucn_escape_invalid
| warn_extraneous_wide_char_constant
| warn_char_constant_too_large
| err_pascal_string_too_long

text \<open>The result of an escape: the character, the cursor behind it, the error and the diagnostics.\<close>

type_synonym escape_result = "u32 \<times> char list \<times> bool \<times> escape_diag list"

fun hex_escape :: "bool \<Rightarrow> u32 \<Rightarrow> char list \<Rightarrow> bool \<times> u32 \<times> char list" where
  "hex_escape Overflow ResultChar [] = (Overflow, ResultChar, [])"
| "hex_escape Overflow ResultChar (c # s) =
     (let CharVal = HexDigitValue c
      in if CharVal = - 1 then (Overflow, ResultChar, c # s)
         else hex_escape (Overflow \<or> ResultChar AND 0xF0000000 \<noteq> 0)
                (push_bit 4 ResultChar OR word_of_int CharVal) s)"

fun octal_escape :: "nat \<Rightarrow> u32 \<Rightarrow> char list \<Rightarrow> u32 \<times> char list" where
  "octal_escape 0 ResultChar s = (ResultChar, s)"
| "octal_escape (Suc n) ResultChar [] = (ResultChar, [])"
| "octal_escape (Suc n) ResultChar (c # s) =
     (if isoctal c then octal_escape n (push_bit 3 ResultChar OR word_of_int (int (code_of c) - 48)) s
      else (ResultChar, c # s))"

definition fits_char :: "nat \<Rightarrow> u32 \<Rightarrow> bool" where
  "fits_char CharWidth r \<longleftrightarrow> CharWidth = 32 \<or> drop_bit CharWidth r = 0"

definition truncate_char :: "nat \<Rightarrow> u32 \<Rightarrow> u32" where
  "truncate_char CharWidth r = (if fits_char CharWidth r then r else r AND drop_bit (32 - CharWidth) (- 1))"

definition simple_escape :: "char \<Rightarrow> (u32 \<times> escape_diag list) option" where
  "simple_escape c =
     (if c \<in> {CHR 0x5C, CHR 0x27, CHR 0x22, CHR ''?''} then Some (char_unsigned c, [])
      else if c = CHR ''a'' then Some (7, [])
      else if c = CHR ''b'' then Some (8, [])
      else if c = CHR ''e'' then Some (27, [ext_nonstandard_escape ''e''])
      else if c = CHR ''f'' then Some (12, [])
      else if c = CHR ''n'' then Some (10, [])
      else if c = CHR ''r'' then Some (13, [])
      else if c = CHR ''t'' then Some (9, [])
      else if c = CHR ''v'' then Some (11, [])
      else None)"

definition ProcessCharEscape :: "lang_options \<Rightarrow> target_info \<Rightarrow> bool \<Rightarrow> char \<Rightarrow> char list \<Rightarrow> escape_result option" where
  "ProcessCharEscape LO TI IsWide e s = (case s of
     _ # c # r \<Rightarrow> Some
       (case simple_escape c of
          Some (v, ds) \<Rightarrow> (v, r, False, ds)
        | None \<Rightarrow>
            if c = CHR ''x''
            then (if r = [] \<or> \<not> isxdigit (peek e r) then (0, r, True, [err_hex_escape_no_digits])
                  else case hex_escape False 0 r of (Overflow, v, r') \<Rightarrow>
                    (truncate_char (getCharWidth TI IsWide) v, r', False,
                     if Overflow \<or> \<not> fits_char (getCharWidth TI IsWide) v then [warn_hex_escape_too_large] else []))
            else if isoctal c
            then (case octal_escape 3 0 (c # r) of (v, r') \<Rightarrow>
                    (truncate_char (getCharWidth TI IsWide) v, r', False,
                     if fits_char (getCharWidth TI IsWide) v then [] else [warn_octal_escape_too_large]))
            else if c \<in> {CHR ''('', CHR ''{'', CHR ''['', CHR ''%''} \<and> \<not> NoExtensions LO
            then (char_unsigned c, r, False, [ext_nonstandard_escape [c]])
            else (char_unsigned c, r, False,
                  [if isgraph (peek e r) then ext_unknown_escape_char c else ext_unknown_escape_hex (char_unsigned c)]))
   | _ \<Rightarrow> None)"

section \<open>Universal character names\<close>

fun ucn_digits :: "nat \<Rightarrow> u32 \<Rightarrow> char list \<Rightarrow> nat \<times> u32 \<times> char list" where
  "ucn_digits 0 UcnVal s = (0, UcnVal, s)"
| "ucn_digits (Suc n) UcnVal [] = (Suc n, UcnVal, [])"
| "ucn_digits (Suc n) UcnVal (c # s) =
     (let CharVal = HexDigitValue c
      in if CharVal = - 1 then (Suc n, UcnVal, c # s)
         else ucn_digits n (push_bit 4 UcnVal OR word_of_int CharVal) s)"

definition ucn_invalid :: "u32 \<Rightarrow> bool" where
  "ucn_invalid v \<longleftrightarrow> (v < 0xa0 \<and> (v \<noteq> 0x24 \<and> v \<noteq> 0x40 \<and> v \<noteq> 0x60)) \<or> (v \<ge> 0xD800 \<and> v \<le> 0xDFFF) \<or> v > 0x10FFFF"

definition bytesToWrite :: "u32 \<Rightarrow> nat" where
  "bytesToWrite v = (if v < 0x80 then 1 else if v < 0x800 then 2 else if v < 0x10000 then 3 else 4)"

definition firstByteMark :: "nat \<Rightarrow> byte" where
  "firstByteMark n = [0x00, 0x00, 0xC0, 0xE0, 0xF0] ! n"

text \<open>The switch that writes the bytes backwards, each case falling through to the next.\<close>

fun utf8_fallthrough :: "nat \<Rightarrow> byte \<Rightarrow> u32 \<Rightarrow> byte list \<Rightarrow> byte list" where
  "utf8_fallthrough 0 mark v out = ucast (v OR ucast mark) # out"
| "utf8_fallthrough (Suc k) mark v out =
     utf8_fallthrough k mark (drop_bit 6 v) (ucast ((v OR 0x80) AND 0xBF) # out)"

definition utf8_encode :: "u32 \<Rightarrow> byte list" where
  "utf8_encode v = utf8_fallthrough (bytesToWrite v - 1) (firstByteMark (bytesToWrite v)) v []"

text \<open>\<open>s\<close> starts at the backslash; the result is the cursor, the bytes, the error, the diagnostics.\<close>

definition ProcessUCNEscape :: "char \<Rightarrow> char list \<Rightarrow> (char list \<times> byte list \<times> bool \<times> escape_diag list) option" where
  "ProcessUCNEscape e s = (case s of
     _ # u # r \<Rightarrow> Some
       (if r = [] \<or> \<not> isxdigit (peek e r) then (r, [], True, [err_ucn_escape_no_digits])
        else case ucn_digits (if u = CHR ''u'' then 4 else 8) 0 r of (UcnLen, UcnVal, r') \<Rightarrow>
          if UcnLen \<noteq> 0 then (r', [], True, [err_ucn_escape_incomplete (length s - length r')])
          else if ucn_invalid UcnVal then (r', [], True, [err_ucn_escape_invalid])
          else (r', utf8_encode UcnVal, False, []))
   | _ \<Rightarrow> None)"

section \<open>Character literals\<close>

record char_literal =
  char_Value :: u32
  char_IsWide :: bool
  char_HadError :: bool
  char_diags :: "escape_diag list"

lemma hex_escape_length: "hex_escape ov r s = (ov', r', s') \<Longrightarrow> length s' \<le> length s"
  by (induction ov r s rule: hex_escape.induct) (auto simp: Let_def split: if_split_asm)

lemma octal_escape_length: "octal_escape n r s = (r', s') \<Longrightarrow> length s' \<le> length s"
  by (induction n r s rule: octal_escape.induct) (auto split: if_split_asm)

lemma octal_escape_first:
  "isoctal c \<Longrightarrow> octal_escape (Suc n) r (c # s) = (r', s') \<Longrightarrow> length s' \<le> length s"
  by (auto dest: octal_escape_length)

lemma ProcessCharEscape_shorter:
  assumes "ProcessCharEscape LO TI w e s = Some (v, s', err, ds)"
  shows "length s' + 2 \<le> length s"
proof -
  obtain b c r where s: "s = b # c # r"
    using assms by (auto simp: ProcessCharEscape_def split: list.splits)
  have oct: "octal_escape 3 0 (c # r) = (v, r') \<Longrightarrow> isoctal c \<Longrightarrow> length r' \<le> length r" for v r'
    using octal_escape_first [of c 2 0 r v r'] by (simp add: numeral_3_eq_3 numeral_2_eq_2)
  show ?thesis
    using assms hex_escape_length oct unfolding s ProcessCharEscape_def
    by (auto split: option.splits prod.splits if_split_asm)
qed

text \<open>The loop over the characters, up to the closing quote.\<close>

function char_loop :: "lang_options \<Rightarrow> target_info \<Rightarrow> bool \<Rightarrow> char \<Rightarrow> char list \<Rightarrow> bool \<Rightarrow> bool \<Rightarrow> u32 \<Rightarrow>
    bool \<Rightarrow> escape_diag list \<Rightarrow> (u32 \<times> bool \<times> bool \<times> escape_diag list) option" where
  "char_loop LO TI IsWide e s isFirstChar isMultiChar Value HadError diags =
     (case s of
        [] \<Rightarrow> None
      | c # r \<Rightarrow>
          if c = CHR 0x27 then Some (Value, isMultiChar, HadError, diags)
          else
            (case (if c \<noteq> CHR 0x5C then Some (char_unsigned c, r, False, []) else ProcessCharEscape LO TI IsWide e s) of
               None \<Rightarrow> None
             | Some (ResultChar, s', err, ds) \<Rightarrow>
                 let ds1 = (if \<not> isFirstChar \<and> \<not> isMultiChar \<and> IsWide then [warn_extraneous_wide_char_constant] else []);
                     ds2 = (if \<not> isFirstChar \<and> \<not> IsWide \<and> drop_bit 8 (push_bit 8 Value) \<noteq> Value
                            then [warn_char_constant_too_large] else []);
                     Value1 = (if isFirstChar then Value else if IsWide then 0 else push_bit 8 Value)
                 in char_loop LO TI IsWide e s' False (isMultiChar \<or> \<not> isFirstChar) (Value1 + ResultChar)
                      (HadError \<or> err) (diags @ ds @ ds1 @ ds2)))"
  by pat_completeness auto
termination
  by (relation "measure (\<lambda>(_, _, _, _, s, _). length s)")
    (auto dest!: ProcessCharEscape_shorter split: if_split_asm)

declare char_loop.simps [simp del]

definition CharLiteralParser :: "lang_options \<Rightarrow> target_info \<Rightarrow> char \<Rightarrow> char list \<Rightarrow> char_literal option" where
  "CharLiteralParser LO TI e tok = do {
     let IsWide = (peek e tok = CHR ''L'');
     s \<leftarrow> (if IsWide then bump tok else Some tok);
     asserting (peek e s = CHR 0x27);
     s1 \<leftarrow> bump s;
     asserting (IntWidth TI = 32 \<and> WCharWidth TI = 32);
     (Value, isMultiChar, HadError, ds) \<leftarrow> char_loop LO TI IsWide e s1 True False 0 False [];
     Some \<lparr>char_Value =
             (if \<not> IsWide \<and> \<not> isMultiChar \<and> Value AND 128 \<noteq> 0 \<and> isCharSigned TI
              then scast (ucast Value :: byte) else Value),
           char_IsWide = IsWide, char_HadError = HadError, char_diags = ds\<rparr> }"

section \<open>String literals\<close>

text \<open>
  A string token as the parser sees it: its length in the source, whether its kind is
  \<^verbatim>\<open>wide_string_literal\<close>, and its spelling, from which trigraphs and escaped newlines are gone.
\<close>

record string_token =
  getLength :: nat
  is_wide_string_literal :: bool
  getSpelling :: "char list"

record string_literal =
  str_bytes :: "byte list"
  str_SizeBound :: nat
  str_AnyWide :: bool
  str_wchar_tByteWidth :: nat
  str_Pascal :: bool
  str_hadError :: bool
  str_diags :: "escape_diag list"

text \<open>One element of the result: a byte, or a wide character, least significant byte first.\<close>

definition emit_plain :: "bool \<Rightarrow> nat \<Rightarrow> char \<Rightarrow> byte list" where
  "emit_plain AnyWide w c = of_char c # (if AnyWide then replicate (w - 1) 0 else [])"

definition emit_escape :: "bool \<Rightarrow> nat \<Rightarrow> u32 \<Rightarrow> byte list" where
  "emit_escape AnyWide w r = ucast (r AND 0xFF) #
     (if AnyWide then map (\<lambda>i. ucast (drop_bit (i * 8) r)) [1..<w] else [])"

text \<open>One round of the loop over a token's characters.\<close>

definition string_step :: "lang_options \<Rightarrow> target_info \<Rightarrow> bool \<Rightarrow> nat \<Rightarrow> bool \<Rightarrow> char \<Rightarrow> char list \<Rightarrow>
    (char list \<times> byte list \<times> bool \<times> escape_diag list) option" where
  "string_step LO TI AnyWide w ThisIsWide e s =
     (if peek e s \<noteq> CHR 0x5C
      then Some (dropWhile (\<lambda>c. c \<noteq> CHR 0x5C) s,
                 concat (map (emit_plain AnyWide w) (takeWhile (\<lambda>c. c \<noteq> CHR 0x5C) s)), False, [])
      else if peek1 e s = CHR ''u'' \<or> peek1 e s = CHR ''U'' then ProcessUCNEscape e s
      else case ProcessCharEscape LO TI ThisIsWide e s of
          None \<Rightarrow> None
        | Some (ResultChar, s', err, ds) \<Rightarrow> Some (s', emit_escape AnyWide w ResultChar, err, ds))"

lemma ucn_digits_length: "ucn_digits n v s = (n', v', s') \<Longrightarrow> length s' \<le> length s"
  by (induction n v s rule: ucn_digits.induct) (auto simp: Let_def split: if_split_asm)

lemma ProcessUCNEscape_shorter:
  "ProcessUCNEscape e s = Some (s', out, err, ds) \<Longrightarrow> length s' + 2 \<le> length s"
  by (auto simp: ProcessUCNEscape_def dest!: ucn_digits_length split: list.splits prod.splits if_split_asm)

lemma string_step_shorter:
  assumes "string_step LO TI AnyWide w ThisIsWide e (c # r) = Some (s', out, err, ds)"
  shows "length s' < length (c # r)"
proof (cases "c = CHR 0x5C")
  case True
  then show ?thesis using assms
    by (auto simp: string_step_def peek_def dest!: ProcessUCNEscape_shorter ProcessCharEscape_shorter
        split: if_split_asm option.splits)
next
  case False
  then show ?thesis using assms
    by (auto simp: string_step_def peek_def less_Suc_eq_le length_dropWhile_le)
qed

function (sequential) string_loop :: "lang_options \<Rightarrow> target_info \<Rightarrow> bool \<Rightarrow> nat \<Rightarrow> bool \<Rightarrow> char \<Rightarrow> char list \<Rightarrow>
    (byte list \<times> bool \<times> escape_diag list) option" where
  "string_loop LO TI AnyWide w ThisIsWide e [] = Some ([], False, [])"
| "string_loop LO TI AnyWide w ThisIsWide e (c # r) =
     (case string_step LO TI AnyWide w ThisIsWide e (c # r) of
        None \<Rightarrow> None
      | Some (s', out, err, ds) \<Rightarrow>
          map_option (\<lambda>(out', err', ds'). (out @ out', err \<or> err', ds @ ds'))
            (string_loop LO TI AnyWide w ThisIsWide e s'))"
  by pat_completeness auto
termination
  by (relation "measure (\<lambda>(_, _, _, _, _, _, s). length s)") (auto dest: string_step_shorter)

text \<open>
  One token: its quotes and prefix and the pascal marker, up to where the loop over its characters
  starts. \<open>first\<close> says whether it is the first token, \<open>Pascal\<close> whether the marker has
  been seen.
\<close>

definition string_token_start :: "lang_options \<Rightarrow> bool \<Rightarrow> bool \<Rightarrow> string_token \<Rightarrow> (bool \<times> char list \<times> bool) option" where
  "string_token_start LO first Pascal tok = do {
     asserting (getSpelling tok \<noteq> []);
     let e = last (getSpelling tok);
     let buf = butlast (getSpelling tok);
     let ThisIsWide = (peek e buf = CHR ''L'');
     s \<leftarrow> (if ThisIsWide then bump buf else Some buf);
     asserting (peek e s = CHR 0x22);
     s1 \<leftarrow> bump s;
     let marker = (PascalStrings LO \<and> length s1 \<noteq> 1 \<and> peek e s1 = CHR 0x5C \<and> peek1 e s1 = CHR ''p'');
     s2 \<leftarrow> (if marker \<and> first then bump s1
           else if marker \<and> Pascal then Option.bind (bump s1) bump
           else Some s1);
     Some (ThisIsWide, s2, Pascal \<or> marker \<and> first) }"

definition string_token_bytes :: "lang_options \<Rightarrow> target_info \<Rightarrow> bool \<Rightarrow> nat \<Rightarrow> bool \<Rightarrow> bool \<Rightarrow> string_token \<Rightarrow>
    (byte list \<times> bool \<times> escape_diag list \<times> bool) option" where
  "string_token_bytes LO TI AnyWide w first Pascal tok = do {
     (ThisIsWide, s, Pascal1) \<leftarrow> string_token_start LO first Pascal tok;
     (out, err, ds) \<leftarrow> string_loop LO TI AnyWide w ThisIsWide (last (getSpelling tok)) s;
     Some (out, err, ds, Pascal1) }"

fun string_tokens_bytes :: "lang_options \<Rightarrow> target_info \<Rightarrow> bool \<Rightarrow> nat \<Rightarrow> bool \<Rightarrow> bool \<Rightarrow> string_token list \<Rightarrow>
    (byte list \<times> bool \<times> escape_diag list \<times> bool) option" where
  "string_tokens_bytes LO TI AnyWide w first Pascal [] = Some ([], False, [], Pascal)"
| "string_tokens_bytes LO TI AnyWide w first Pascal (tok # toks) = do {
     (out, err, ds, Pascal1) \<leftarrow> string_token_bytes LO TI AnyWide w first Pascal tok;
     (out', err', ds', Pascal2) \<leftarrow> string_tokens_bytes LO TI AnyWide w False Pascal1 toks;
     Some (out @ out', err \<or> err', ds @ ds', Pascal2) }"

text \<open>
  The size the constructor gives the result buffer before it writes to it, computed as an
  \<open>unsigned\<close>; \<open>2^32 - 2\<close> is the -2 for the quotes.
\<close>

definition string_SizeBound :: "bool \<Rightarrow> nat \<Rightarrow> string_token list \<Rightarrow> nat" where
  "string_SizeBound AnyWide w toks =
     (let sum = foldl (\<lambda>SizeBound t. wrap32 (SizeBound + (getLength t + (2 ^ 32 - 2)))) 0 toks;
          SizeBound = wrap32 (sum + 1)
      in if AnyWide then wrap32 (SizeBound * w) else SizeBound)"

definition size_needed :: "bool \<Rightarrow> nat \<Rightarrow> string_token list \<Rightarrow> nat" where
  "size_needed AnyWide w toks =
     (sum_list (map (\<lambda>t. getLength t - 2) toks) + 1) * (if AnyWide then w else 1)"

text \<open>The computation does not wrap when what is needed is below \<open>2^32\<close>.\<close>

lemma wrap32_minus_2: "2 \<le> n \<Longrightarrow> b + (n - 2) < 2 ^ 32 \<Longrightarrow> wrap32 (b + (n + (2 ^ 32 - 2))) = b + (n - 2)"
proof -
  assume a: "2 \<le> n" "b + (n - 2) < 2 ^ 32"
  obtain m where n: "n = m + 2" using a(1) by (metis add.commute le_Suc_ex)
  have "b + (n + (2 ^ 32 - 2)) = b + m + 2 ^ 32" by (simp add: n)
  then have "wrap32 (b + (n + (2 ^ 32 - 2))) = (b + m) mod 2 ^ 32" by (simp only: wrap32_def mod_add_self2)
  then show ?thesis using a(2) by (simp add: n)
qed

lemma string_SizeBound_sum:
  "\<forall>t \<in> set toks. 2 \<le> getLength t \<Longrightarrow> b + sum_list (map (\<lambda>t. getLength t - 2) toks) < 2 ^ 32 \<Longrightarrow>
     foldl (\<lambda>SizeBound t. wrap32 (SizeBound + (getLength t + (2 ^ 32 - 2)))) b toks =
       b + sum_list (map (\<lambda>t. getLength t - 2) toks)"
proof (induction toks arbitrary: b)
  case (Cons t toks)
  have "wrap32 (b + (getLength t + (2 ^ 32 - 2))) = b + (getLength t - 2)"
    using Cons.prems by (intro wrap32_minus_2) simp_all
  then show ?case using Cons.IH [of "b + (getLength t - 2)"] Cons.prems by (simp del: power_numeral)
qed simp

lemma string_SizeBound_exact:
  assumes "\<forall>t \<in> set toks. 2 \<le> getLength t" "size_needed AnyWide w toks < 2 ^ 32" "AnyWide \<Longrightarrow> 1 \<le> w"
  shows "string_SizeBound AnyWide w toks = size_needed AnyWide w toks"
proof -
  let ?s = "sum_list (map (\<lambda>t. getLength t - 2) toks)"
  have "(?s + 1) * 1 \<le> size_needed AnyWide w toks"
    unfolding size_needed_def using assms(3) by (intro mult_le_mono2) simp
  then have "?s + 1 < 2 ^ 32" using assms(2) by simp
  then show ?thesis
    using string_SizeBound_sum [OF assms(1), of 0] assms(2)
    by (simp add: string_SizeBound_def size_needed_def Let_def split: if_splits)
qed

definition StringLiteralParser :: "lang_options \<Rightarrow> target_info \<Rightarrow> string_token list \<Rightarrow> string_literal option" where
  "StringLiteralParser LO TI toks = do {
     asserting (toks \<noteq> []);
     let AnyWide = list_ex is_wide_string_literal toks;
     asserting (AnyWide \<longrightarrow> WCharWidth TI mod 8 = 0);
     let w = (if AnyWide then WCharWidth TI div 8 else 2 ^ 32 - 1);
     (out, err, ds, Pascal) \<leftarrow> string_tokens_bytes LO TI AnyWide w True False toks;
     let too_long = (Pascal \<and> length out > 256);
     Some \<lparr>str_bytes = (if Pascal then out[0 := of_nat (length out - 1)] else out),
           str_SizeBound = string_SizeBound AnyWide w toks, str_AnyWide = AnyWide, str_wchar_tByteWidth = w,
           str_Pascal = Pascal, str_hadError = (err \<or> too_long),
           str_diags = ds @ (if too_long then [err_pascal_string_too_long] else [])\<rparr> }"

definition GetStringLength :: "string_literal \<Rightarrow> nat" where
  "GetStringLength S = length (str_bytes S)"

definition GetNumStringChars :: "string_literal \<Rightarrow> nat" where
  "GetNumStringChars S =
     (if str_AnyWide S then GetStringLength S div str_wchar_tByteWidth S else GetStringLength S)"

text \<open>
  \<^verbatim>\<open>getOffsetOfStringByte\<close>: the loop, with the cursor over the whole spelling, closing quote
  included, and the byte \<open>e\<close> behind it.
\<close>

fun offset_loop :: "lang_options \<Rightarrow> target_info \<Rightarrow> char \<Rightarrow> nat \<Rightarrow> char list \<Rightarrow> char list option" where
  "offset_loop LO TI e 0 s = Some s"
| "offset_loop LO TI e (Suc ByteNo) s =
     (case s of
        [] \<Rightarrow> None
      | c # r \<Rightarrow>
          if c \<noteq> CHR 0x5C then offset_loop LO TI e ByteNo r
          else case ProcessCharEscape LO TI False e s of
              None \<Rightarrow> None
            | Some (_, s', HadError, _) \<Rightarrow> if HadError then None else offset_loop LO TI e ByteNo s')"

definition getOffsetOfStringByte :: "lang_options \<Rightarrow> target_info \<Rightarrow> string_token \<Rightarrow> char \<Rightarrow> nat \<Rightarrow> nat option" where
  "getOffsetOfStringByte LO TI tok e ByteNo = do {
     let SpellingStart = getSpelling tok;
     asserting (SpellingStart \<noteq> [] \<and> hd SpellingStart \<noteq> CHR ''L'' \<and> hd SpellingStart = CHR 0x22);
     s \<leftarrow> bump SpellingStart;
     s' \<leftarrow> offset_loop LO TI e ByteNo s;
     Some (length SpellingStart - length s') }"

section \<open>UTF-8\<close>

text \<open>A decoder for one sequence, checking the marks of its bytes.\<close>

definition utf8_cont :: "byte \<Rightarrow> bool" where
  "utf8_cont b \<longleftrightarrow> drop_bit 6 b = 2"

fun utf8_decode :: "byte list \<Rightarrow> u32 option" where
  "utf8_decode [b1] = (if b1 < 0x80 then Some (ucast b1) else None)"
| "utf8_decode [b1, b2] =
     (if drop_bit 5 b1 = 6 \<and> utf8_cont b2
      then Some (push_bit 6 (ucast (take_bit 5 b1)) OR ucast (take_bit 6 b2)) else None)"
| "utf8_decode [b1, b2, b3] =
     (if drop_bit 4 b1 = 14 \<and> utf8_cont b2 \<and> utf8_cont b3
      then Some (push_bit 12 (ucast (take_bit 4 b1)) OR push_bit 6 (ucast (take_bit 6 b2)) OR ucast (take_bit 6 b3))
      else None)"
| "utf8_decode [b1, b2, b3, b4] =
     (if drop_bit 3 b1 = 30 \<and> utf8_cont b2 \<and> utf8_cont b3 \<and> utf8_cont b4
      then Some (push_bit 18 (ucast (take_bit 3 b1)) OR push_bit 12 (ucast (take_bit 6 b2)) OR
                 push_bit 6 (ucast (take_bit 6 b3)) OR ucast (take_bit 6 b4)) else None)"
| "utf8_decode _ = None"

abbreviation cont_byte :: "u32 \<Rightarrow> byte" where
  "cont_byte v \<equiv> ucast ((v OR 0x80) AND 0xBF)"

lemma nat_less_8: "n < 8 \<Longrightarrow> n = 0 \<or> n = 1 \<or> n = 2 \<or> n = 3 \<or> n = 4 \<or> n = 5 \<or> n = 6 \<or> n = (7::nat)"
  by auto

lemma cont_bits: "n < 8 \<Longrightarrow> bit ((v OR 0x80) AND 0xBF :: u32) n \<longleftrightarrow> n = 7 \<or> n < 6 \<and> bit v n"
  by (drule nat_less_8) (auto simp: bit_simps)

lemma cont_byte_ok: "utf8_cont (cont_byte v)" "take_bit 6 (cont_byte v) = ucast (take_bit 6 v)"
proof -
  show "utf8_cont (cont_byte v)"
    unfolding utf8_cont_def
  proof (rule bit_word_eqI)
    fix n assume "n < LENGTH(8)"
    then have "n < 8" by simp
    then show "bit (drop_bit 6 (cont_byte v)) n \<longleftrightarrow> bit (2 :: byte) n"
      by (drule_tac nat_less_8) (auto simp: bit_drop_bit_eq bit_ucast_iff cont_bits bit_simps)
  qed
  show "take_bit 6 (cont_byte v) = ucast (take_bit 6 v)"
    by (rule bit_word_eqI) (auto simp: bit_take_bit_iff bit_ucast_iff cont_bits)
qed

lemma small_bits: "unat v < 2 ^ k \<Longrightarrow> bit (v :: u32) n \<Longrightarrow> n < k"
proof -
  assume "unat v < 2 ^ k" "bit v n"
  then have "take_bit k (unat v) = unat v" "bit (unat v) n"
    by (simp_all add: take_bit_nat_eq_self bit_unsigned_iff)
  then show "n < k" by (metis bit_take_bit_iff)
qed

lemma lead_byte_ok:
  assumes "unat (x :: u32) < 2 ^ k" "take_bit k m = 0" "k \<le> 8"
  shows "take_bit k (ucast (x OR ucast (m :: byte)) :: byte) = ucast x"
    "drop_bit k (ucast (x OR ucast m) :: byte) = drop_bit k m"
proof -
  have x: "bit x n \<Longrightarrow> n < k" for n using small_bits [OF assms(1)] .
  have m: "bit m n \<Longrightarrow> \<not> n < k" for n
    using assms(2) by (metis bit_0_eq bit_take_bit_iff bot_apply bot_bool_def)
  show "take_bit k (ucast (x OR ucast m) :: byte) = ucast x"
    using x m by (intro bit_word_eqI) (auto simp: bit_take_bit_iff bit_ucast_iff bit_or_iff)
  show "drop_bit k (ucast (x OR ucast m) :: byte) = drop_bit k m"
    using x by (intro bit_word_eqI)
      (auto simp: bit_drop_bit_eq bit_ucast_iff bit_or_iff dest: bit_imp_le_length)
qed

lemma ucast_byte_small: "unat v < 2 ^ 8 \<Longrightarrow> ucast (ucast (v :: u32) :: byte) = v"
  using small_bits [of v 8] by (intro bit_word_eqI) (auto simp: bit_ucast_iff)

lemma ucast_byte_take: "ucast (ucast (take_bit 6 (v :: u32)) :: byte) = take_bit 6 v"
  by (rule bit_word_eqI) (auto simp: bit_ucast_iff bit_take_bit_iff)

lemma join_6: "push_bit 6 (drop_bit 6 (v :: u32)) OR take_bit 6 v = v"
  by (rule bit_word_eqI) (auto simp: bit_simps)

lemma join_12: "push_bit 12 (drop_bit 6 (drop_bit 6 v)) OR push_bit 6 (take_bit 6 (drop_bit 6 v)) = push_bit 6 (drop_bit 6 (v :: u32))"
proof -
  have "push_bit 6 (drop_bit 6 v) = push_bit 6 (push_bit 6 (drop_bit 6 (drop_bit 6 v)) OR take_bit 6 (drop_bit 6 v))"
    by (simp only: join_6)
  then show ?thesis by (simp only: push_bit_or push_bit_push_bit) simp
qed

lemma join_18: "push_bit 18 (drop_bit 6 (drop_bit 6 v)) OR push_bit 12 (take_bit 6 (drop_bit 6 v)) = push_bit 12 (drop_bit 6 (v :: u32))"
proof -
  have "push_bit 12 (drop_bit 6 v) = push_bit 12 (push_bit 6 (drop_bit 6 (drop_bit 6 v)) OR take_bit 6 (drop_bit 6 v))"
    by (simp only: join_6)
  then show ?thesis by (simp only: push_bit_or push_bit_push_bit) simp
qed

lemma unat_drop_6: "unat (v :: u32) < 2 ^ (k + 6) \<Longrightarrow> unat (drop_bit 6 v) < 2 ^ k"
proof -
  assume "unat v < 2 ^ (k + 6)"
  then have "unat v div 2 ^ 6 < 2 ^ k" by (simp add: power_add div_less_iff_less_mult)
  then show "unat (drop_bit 6 v) < 2 ^ k" unfolding unat_drop_bit_eq by (simp only: drop_bit_eq_div)
qed

lemma utf8_roundtrip_1:
  assumes "unat (v :: u32) < 2 ^ 7"
  shows "utf8_decode (utf8_fallthrough 0 0 v []) = Some v"
proof -
  have "(ucast v :: byte) < 0x80"
    using assms by (simp add: word_less_nat_alt unsigned_ucast_eq take_bit_nat_eq_self)
  then show ?thesis using assms by (simp add: ucast_byte_small)
qed

lemma utf8_roundtrip_2:
  assumes "unat (v :: u32) < 2 ^ 11"
  shows "utf8_decode (utf8_fallthrough 1 0xC0 v []) = Some v"
proof -
  have u: "unat (drop_bit 6 v) < 2 ^ 5" using unat_drop_6 [of v 5] assms by simp
  show ?thesis
    using lead_byte_ok [OF u, of "0xC0"] ucast_byte_small [of "drop_bit 6 v"] u
    by (simp add: cont_byte_ok ucast_byte_take join_6)
qed

lemma utf8_roundtrip_3:
  assumes "unat (v :: u32) < 2 ^ 16"
  shows "utf8_decode (utf8_fallthrough 2 0xE0 v []) = Some v"
proof -
  let ?v1 = "drop_bit 6 v" and ?v2 = "drop_bit 6 (drop_bit 6 v)"
  have u: "unat ?v2 < 2 ^ 4" using unat_drop_6 [of v 10] unat_drop_6 [of ?v1 4] assms by simp
  have j: "push_bit 12 ?v2 OR push_bit 6 (take_bit 6 ?v1) OR take_bit 6 v = v"
    by (simp only: or.assoc [symmetric] join_12 join_6)
  have lead: "take_bit 4 (ucast (?v2 OR ucast (0xE0 :: byte)) :: byte) = ucast ?v2"
    "drop_bit 4 (ucast (?v2 OR ucast (0xE0 :: byte)) :: byte) = 14"
    using lead_byte_ok [OF u, of "0xE0"] by simp_all
  have "(ucast (ucast ?v2 :: byte) :: u32) = ?v2" by (rule ucast_byte_small) (use u in simp)
  moreover have "utf8_fallthrough 2 0xE0 v [] = [ucast (?v2 OR ucast (0xE0 :: byte)), cont_byte ?v1, cont_byte v]"
    by (simp only: numeral_2_eq_2 utf8_fallthrough.simps)
  ultimately show ?thesis
    by (simp only: utf8_decode.simps lead cont_byte_ok ucast_byte_take j simp_thms if_True)
qed

lemma utf8_roundtrip_4:
  assumes "unat (v :: u32) < 2 ^ 21"
  shows "utf8_decode (utf8_fallthrough 3 0xF0 v []) = Some v"
proof -
  let ?v1 = "drop_bit 6 v" and ?v2 = "drop_bit 6 (drop_bit 6 v)" and ?v3 = "drop_bit 6 (drop_bit 6 (drop_bit 6 v))"
  have u: "unat ?v3 < 2 ^ 3"
    using unat_drop_6 [of v 15] unat_drop_6 [of ?v1 9] unat_drop_6 [of ?v2 3] assms by simp
  have j: "push_bit 18 ?v3 OR push_bit 12 (take_bit 6 ?v2) OR push_bit 6 (take_bit 6 ?v1) OR take_bit 6 v = v"
    by (simp only: or.assoc [symmetric] join_18 join_12 join_6)
  have lead: "take_bit 3 (ucast (?v3 OR ucast (0xF0 :: byte)) :: byte) = ucast ?v3"
    "drop_bit 3 (ucast (?v3 OR ucast (0xF0 :: byte)) :: byte) = 30"
    using lead_byte_ok [OF u, of "0xF0"] by simp_all
  have "(ucast (ucast ?v3 :: byte) :: u32) = ?v3" by (rule ucast_byte_small) (use u in simp)
  moreover have "utf8_fallthrough 3 0xF0 v [] =
      [ucast (?v3 OR ucast (0xF0 :: byte)), cont_byte ?v2, cont_byte ?v1, cont_byte v]"
    by (simp only: numeral_3_eq_3 utf8_fallthrough.simps)
  ultimately show ?thesis
    by (simp only: utf8_decode.simps lead cont_byte_ok ucast_byte_take j simp_thms if_True)
qed

lemma utf8_encode_decode:
  assumes "v \<le> 0x10FFFF"
  shows "utf8_decode (utf8_encode v) = Some v"
proof -
  consider "v < 0x80" | "\<not> v < 0x80" "v < 0x800" | "\<not> v < 0x800" "v < 0x10000" | "\<not> v < 0x10000" by blast
  then show ?thesis
  proof cases
    case 1
    then have "utf8_encode v = utf8_fallthrough 0 0 v []" "unat v < 2 ^ 7"
      by (simp_all add: utf8_encode_def bytesToWrite_def firstByteMark_def word_less_nat_alt del: utf8_fallthrough.simps)
    then show ?thesis by (simp only: utf8_roundtrip_1)
  next
    case 2
    then have "utf8_encode v = utf8_fallthrough 1 0xC0 v []" "unat v < 2 ^ 11"
      by (simp_all add: utf8_encode_def bytesToWrite_def firstByteMark_def word_less_nat_alt del: utf8_fallthrough.simps)
    then show ?thesis by (simp only: utf8_roundtrip_2)
  next
    case 3
    then have "\<not> v < 0x80" "unat v < 2 ^ 16" by (simp_all add: word_less_nat_alt)
    moreover from this have "utf8_encode v = utf8_fallthrough 2 0xE0 v []" using 3
      by (simp add: utf8_encode_def bytesToWrite_def firstByteMark_def del: utf8_fallthrough.simps)
    ultimately show ?thesis by (simp only: utf8_roundtrip_3)
  next
    case 4
    then have "\<not> v < 0x80" "\<not> v < 0x800" "unat v < 2 ^ 21"
      using assms by (simp_all add: word_less_nat_alt word_le_nat_alt)
    moreover from this have "utf8_encode v = utf8_fallthrough 3 0xF0 v []" using 4
      by (simp add: utf8_encode_def bytesToWrite_def firstByteMark_def del: utf8_fallthrough.simps)
    ultimately show ?thesis by (simp only: utf8_roundtrip_4)
  qed
qed

lemma length_utf8_fallthrough: "length (utf8_fallthrough k m v out) = Suc k + length out"
  by (induction k arbitrary: v out) simp_all

lemma length_utf8_encode: "1 \<le> length (utf8_encode v) \<and> length (utf8_encode v) \<le> 4"
  by (simp add: utf8_encode_def length_utf8_fallthrough bytesToWrite_def)

section \<open>The bound on the result\<close>

abbreviation char_bytes :: "bool \<Rightarrow> nat \<Rightarrow> nat" where
  "char_bytes AnyWide w \<equiv> if AnyWide then w else 1"

lemma length_emit:
  assumes "AnyWide \<Longrightarrow> 1 \<le> w"
  shows "length (emit_plain AnyWide w c) = char_bytes AnyWide w"
    "length (emit_escape AnyWide w r) = char_bytes AnyWide w"
  using assms by (auto simp: emit_plain_def emit_escape_def)

lemma ucn_digits_all: "ucn_digits n v s = (0, v', s') \<Longrightarrow> length s = length s' + n"
  by (induction n v s rule: ucn_digits.induct) (auto simp: Let_def split: if_split_asm)

lemma ProcessUCNEscape_bytes:
  assumes "ProcessUCNEscape e s = Some (s', out, err, ds)"
  shows "length out + length s' \<le> length s"
proof -
  obtain b u r where s: "s = b # u # r" using assms by (auto simp: ProcessUCNEscape_def split: list.splits)
  obtain n v r' where d: "ucn_digits (if u = CHR ''u'' then 4 else 8) 0 r = (n, v, r')"
    using prod_cases3 by blast
  have "length r' \<le> length r" "n = 0 \<Longrightarrow> length r' + 4 \<le> length r"
    using ucn_digits_length [OF d] ucn_digits_all [of "if u = CHR ''u'' then 4 else 8" 0 r v r'] d by auto
  moreover have "length (utf8_encode v) \<le> 4" using length_utf8_encode by blast
  ultimately show ?thesis
    using assms d unfolding s ProcessUCNEscape_def by (auto split: if_split_asm)
qed

lemma string_step_bytes:
  assumes "string_step LO TI AnyWide w tw e s = Some (s', out, err, ds)" "AnyWide \<Longrightarrow> 1 \<le> w"
  shows "length out + char_bytes AnyWide w * length s' \<le> char_bytes AnyWide w * length s"
proof -
  let ?W = "char_bytes AnyWide w"
  have W: "1 \<le> ?W" using assms(2) by auto
  show ?thesis
  proof (cases "peek e s = CHR 0x5C")
    case False
    have run: "length (concat (map (emit_plain AnyWide w) cs)) = ?W * length cs" for cs
      using length_emit(1) [OF assms(2)] by (induction cs) auto
    have "length s = length (takeWhile (\<lambda>c. c \<noteq> CHR 0x5C) s) + length (dropWhile (\<lambda>c. c \<noteq> CHR 0x5C) s)"
      by (metis length_append takeWhile_dropWhile_id)
    then have "?W * length s = ?W * length (takeWhile (\<lambda>c. c \<noteq> CHR 0x5C) s) + ?W * length (dropWhile (\<lambda>c. c \<noteq> CHR 0x5C) s)"
      by (metis distrib_left)
    then show ?thesis using assms(1) False run by (auto simp: string_step_def)
  next
    case esc: True
    show ?thesis
    proof (cases "peek1 e s = CHR ''u'' \<or> peek1 e s = CHR ''U''")
      case True
      then have "length out + length s' \<le> length s"
        using assms(1) esc by (auto simp: string_step_def dest: ProcessUCNEscape_bytes)
      then have "?W * (length out + length s') \<le> ?W * length s" by (rule mult_le_mono2)
      then have "?W * length out + ?W * length s' \<le> ?W * length s" by (simp only: distrib_left)
      moreover have "1 * length out \<le> ?W * length out" using W by (rule mult_le_mono1)
      ultimately show ?thesis by linarith
    next
      case False
      then obtain v where v: "ProcessCharEscape LO TI tw e s = Some (v, s', err, ds)" "out = emit_escape AnyWide w v"
        using assms(1) esc by (auto simp: string_step_def split: option.splits)
      have "1 + length s' \<le> length s" using ProcessCharEscape_shorter [OF v(1)] by simp
      then have "?W * (1 + length s') \<le> ?W * length s" by (rule mult_le_mono2)
      then show ?thesis using v(2) length_emit(2) [OF assms(2)] by (simp add: distrib_left)
    qed
  qed
qed

lemma string_loop_bytes:
  assumes "string_loop LO TI AnyWide w tw e s = Some (out, err, ds)" "AnyWide \<Longrightarrow> 1 \<le> w"
  shows "length out \<le> char_bytes AnyWide w * length s"
  using assms
proof (induction LO TI AnyWide w tw e s arbitrary: out err ds rule: string_loop.induct)
  case (2 LO TI AnyWide w tw e c r)
  obtain s' out1 err1 ds1 where step: "string_step LO TI AnyWide w tw e (c # r) = Some (s', out1, err1, ds1)"
    using "2.prems"(1) by (auto split: option.splits)
  then obtain out2 err2 ds2 where rest: "string_loop LO TI AnyWide w tw e s' = Some (out2, err2, ds2)" "out = out1 @ out2"
    using "2.prems"(1) by auto
  have "length out2 \<le> char_bytes AnyWide w * length s'"
    using "2.IH" [OF step refl refl refl rest(1) "2.prems"(2)] .
  then show ?case using string_step_bytes [OF step "2.prems"(2)] rest(2) by auto
qed simp

lemma string_token_start_length:
  "string_token_start LO first Pascal tok = Some (tw, s, P) \<Longrightarrow> length s \<le> length (getSpelling tok) - 2"
  unfolding string_token_start_def Let_def
  by (elim bind_SomeE) (auto simp: bump_eq_Some bind_eq_Some_conv split: if_split_asm)

lemma string_token_bytes_bound:
  assumes "string_token_bytes LO TI AnyWide w first Pascal tok = Some (out, err, ds, P)" "AnyWide \<Longrightarrow> 1 \<le> w"
  shows "length out \<le> char_bytes AnyWide w * (length (getSpelling tok) - 2)"
proof -
  obtain tw s where s: "string_token_start LO first Pascal tok = Some (tw, s, P)"
    "string_loop LO TI AnyWide w tw (last (getSpelling tok)) s = Some (out, err, ds)"
    using assms(1) unfolding string_token_bytes_def by (auto simp: bind_eq_Some_conv)
  have "char_bytes AnyWide w * length s \<le> char_bytes AnyWide w * (length (getSpelling tok) - 2)"
    using string_token_start_length [OF s(1)] by (rule mult_le_mono2)
  then show ?thesis using string_loop_bytes [OF s(2) assms(2)] by (rule order_trans [rotated])
qed

lemma string_tokens_bytes_bound:
  assumes "string_tokens_bytes LO TI AnyWide w first Pascal toks = Some (out, err, ds, P)" "AnyWide \<Longrightarrow> 1 \<le> w"
    "\<forall>t \<in> set toks. length (getSpelling t) \<le> getLength t"
  shows "length out \<le> char_bytes AnyWide w * sum_list (map (\<lambda>t. getLength t - 2) toks)"
  using assms
proof (induction toks arbitrary: first Pascal out err ds P)
  case (Cons t toks)
  obtain x where x: "string_token_bytes LO TI AnyWide w first Pascal t = Some x"
    using Cons.prems(1) by (cases "string_token_bytes LO TI AnyWide w first Pascal t") auto
  obtain out1 err1 ds1 P1 where x1: "x = (out1, err1, ds1, P1)" by (cases x)
  obtain y where y: "string_tokens_bytes LO TI AnyWide w False P1 toks = Some y"
    using Cons.prems(1) x x1 by (cases "string_tokens_bytes LO TI AnyWide w False P1 toks") auto
  obtain out2 err2 ds2 P2 where y1: "y = (out2, err2, ds2, P2)" by (cases y)
  have t: "string_token_bytes LO TI AnyWide w first Pascal t = Some (out1, err1, ds1, P1)"
    and ts: "string_tokens_bytes LO TI AnyWide w False P1 toks = Some (out2, err2, ds2, P2)"
    and out: "out = out1 @ out2"
    using Cons.prems(1) x x1 y y1 by auto
  have "length (getSpelling t) - 2 \<le> getLength t - 2" using Cons.prems(3) by auto
  then have "char_bytes AnyWide w * (length (getSpelling t) - 2) \<le> char_bytes AnyWide w * (getLength t - 2)"
    by (rule mult_le_mono2)
  then have "length out1 \<le> char_bytes AnyWide w * (getLength t - 2)"
    using string_token_bytes_bound [OF t Cons.prems(2)] by (rule order_trans [rotated])
  moreover have "length out2 \<le> char_bytes AnyWide w * sum_list (map (\<lambda>t. getLength t - 2) toks)"
    using Cons.IH [OF ts Cons.prems(2)] Cons.prems(3) by simp
  ultimately show ?case by (simp add: out distrib_left split del: if_split)
qed simp

section \<open>Well-formed tokens\<close>

text \<open>In a token the lexer makes, every backslash of the body has a character behind it.\<close>

fun body_ok :: "char list \<Rightarrow> bool" where
  "body_ok [] = True"
| "body_ok (c # s) = (if c = CHR 0x5C then (case s of [] \<Rightarrow> False | d # r \<Rightarrow> body_ok r) else body_ok s)"

definition token_ok :: "string_token \<Rightarrow> bool" where
  "token_ok tok \<longleftrightarrow> (\<exists>wide body. getSpelling tok = (if wide then ''L'' else []) @ CHR 0x22 # body @ [CHR 0x22] \<and>
     body_ok body) \<and> length (getSpelling tok) \<le> getLength tok"

lemma body_ok_hex: "body_ok s \<Longrightarrow> hex_escape ov r s = (ov', r', s') \<Longrightarrow> body_ok s'"
  by (induction ov r s rule: hex_escape.induct)
    (auto simp: Let_def HexDigitValue_invalid char_class_defs split: if_split_asm)

lemma body_ok_octal: "body_ok s \<Longrightarrow> octal_escape n r s = (r', s') \<Longrightarrow> body_ok s'"
  by (induction n r s rule: octal_escape.induct) (auto simp: char_class_defs split: if_split_asm)

lemma body_ok_ucn: "body_ok s \<Longrightarrow> ucn_digits n v s = (n', v', s') \<Longrightarrow> body_ok s'"
  by (induction n v s rule: ucn_digits.induct)
    (auto simp: Let_def HexDigitValue_invalid char_class_defs split: if_split_asm)

lemma body_ok_run: "body_ok s \<Longrightarrow> body_ok (dropWhile (\<lambda>c. c \<noteq> CHR 0x5C) s)"
  by (induction s) auto

lemma ProcessCharEscape_total:
  assumes "body_ok (CHR 0x5C # r)"
  shows "\<exists>v s' err ds. ProcessCharEscape LO TI tw e (CHR 0x5C # r) = Some (v, s', err, ds) \<and> body_ok s'"
proof -
  obtain c r' where r: "r = c # r'" "body_ok r'" using assms by (cases r) auto
  obtain ov v h where hex: "hex_escape False 0 r' = (ov, v, h)" by (cases "hex_escape False 0 r'")
  obtain v' h' where oct: "octal_escape 3 0 (c # r') = (v', h')" by (cases "octal_escape 3 0 (c # r')")
  have "body_ok h" using body_ok_hex [OF r(2) hex] .
  moreover have "body_ok h'" if "isoctal c"
  proof -
    have "body_ok (c # r')" using r(2) that by (auto simp: isoctal_def)
    then show ?thesis using oct by (rule body_ok_octal)
  qed
  ultimately show ?thesis using r(2)
    by (cases "simple_escape c"; cases "c = CHR ''x''"; cases "isoctal c")
      (auto simp: ProcessCharEscape_def r(1) hex oct)
qed

lemma ProcessUCNEscape_total:
  assumes "body_ok (CHR 0x5C # r)"
  shows "\<exists>s' out err ds. ProcessUCNEscape e (CHR 0x5C # r) = Some (s', out, err, ds) \<and> body_ok s'"
proof -
  obtain c r' where r: "r = c # r'" "body_ok r'" using assms by (cases r) auto
  moreover obtain n v h where "ucn_digits (if c = CHR ''u'' then 4 else 8) 0 r' = (n, v, h)" using prod_cases3 by blast
  moreover from this have "body_ok h" using body_ok_ucn r(2) by blast
  ultimately show ?thesis by (auto simp: ProcessUCNEscape_def)
qed

lemma string_step_total:
  assumes "body_ok (c # r)"
  shows "\<exists>s' out err ds. string_step LO TI AnyWide w tw e (c # r) = Some (s', out, err, ds) \<and> body_ok s'"
proof (cases "c = CHR 0x5C")
  case True
  then show ?thesis
    using ProcessUCNEscape_total [of r e] ProcessCharEscape_total [of r LO TI tw e] assms
    by (auto simp: string_step_def)
next
  case False
  then show ?thesis using body_ok_run [OF assms] by (auto simp: string_step_def)
qed

lemma string_loop_total:
  "body_ok s \<Longrightarrow> \<exists>out err ds. string_loop LO TI AnyWide w tw e s = Some (out, err, ds)"
proof (induction "length s" arbitrary: s rule: less_induct)
  case less
  show ?case
  proof (cases s)
    case (Cons c r)
    obtain s' out err ds where step: "string_step LO TI AnyWide w tw e (c # r) = Some (s', out, err, ds)" "body_ok s'"
      using string_step_total less.prems Cons by blast
    then show ?thesis using less.hyps [OF _ step(2)] string_step_shorter [OF step(1)] Cons by auto
  qed (simp add: ex_bool_eq)
qed

lemma string_token_start_total:
  assumes "token_ok tok"
  shows "\<exists>tw s P. string_token_start LO first Pascal tok = Some (tw, s, P) \<and> body_ok s"
proof -
  obtain wide body where sp: "getSpelling tok = (if wide then ''L'' else []) @ CHR 0x22 # body @ [CHR 0x22]"
    and ok: "body_ok body" using assms unfolding token_ok_def by blast
  have e: "last (getSpelling tok) = CHR 0x22" "butlast (getSpelling tok) = (if wide then ''L'' else []) @ CHR 0x22 # body"
    "getSpelling tok \<noteq> []" by (simp_all add: sp butlast_append)
  have marker: "\<exists>r. body = CHR 0x5C # CHR ''p'' # r \<and> body_ok r"
    if "peek (CHR 0x22) body = CHR 0x5C" "peek1 (CHR 0x22) body = CHR ''p''"
    using that ok by (auto simp: peek1_def peek_def split: list.splits if_split_asm)
  show ?thesis
  proof (cases "PascalStrings LO \<and> length body \<noteq> 1 \<and> peek (CHR 0x22) body = CHR 0x5C \<and> peek1 (CHR 0x22) body = CHR ''p''")
    case True
    then obtain r where "body = CHR 0x5C # CHR ''p'' # r" "body_ok r" using marker by blast
    then show ?thesis using True ok
      by (cases wide; cases first; cases Pascal) (simp_all add: string_token_start_def e Let_def ex_bool_eq)
  next
    case False
    then show ?thesis using ok by (cases wide) (auto simp: string_token_start_def e Let_def ex_bool_eq)
  qed
qed

lemma string_tokens_bytes_total:
  "\<forall>t \<in> set toks. token_ok t \<Longrightarrow>
     \<exists>out err ds P. string_tokens_bytes LO TI AnyWide w first Pascal toks = Some (out, err, ds, P)"
proof (induction toks arbitrary: first Pascal)
  case (Cons t toks)
  obtain tw s P where s: "string_token_start LO first Pascal t = Some (tw, s, P)" "body_ok s"
    using string_token_start_total [of t] Cons.prems by fastforce
  obtain out err ds where "string_loop LO TI AnyWide w tw (last (getSpelling t)) s = Some (out, err, ds)"
    using string_loop_total [OF s(2)] by blast
  then have "string_token_bytes LO TI AnyWide w first Pascal t = Some (out, err, ds, P)"
    using s by (simp add: string_token_bytes_def)
  moreover obtain out' err' ds' P' where
    "string_tokens_bytes LO TI AnyWide w False P toks = Some (out', err', ds', P')"
    using Cons.IH [of False P] Cons.prems by auto
  ultimately show ?case by simp
qed (simp add: ex_bool_eq)

section \<open>Offsets of bytes\<close>












lemma narrow_token:
  assumes "getSpelling tok = CHR 0x22 # body @ [CHR 0x22]" "\<not> is_wide_string_literal tok" "\<not> PascalStrings LO"
  shows "StringLiteralParser LO TI [tok] =
    map_option (\<lambda>(out, err, ds). \<lparr>str_bytes = out, str_SizeBound = string_SizeBound False (2 ^ 32 - 1) [tok],
        str_AnyWide = False, str_wchar_tByteWidth = 2 ^ 32 - 1, str_Pascal = False, str_hadError = err, str_diags = ds\<rparr>)
      (string_loop LO TI False (2 ^ 32 - 1) False (CHR 0x22) body)"
proof -
  have "string_token_start LO True False tok = Some (False, body, False)"
    using assms(1,3) by (simp add: string_token_start_def Let_def)
  then show ?thesis using assms
    by (cases "string_loop LO TI False (2 ^ 32 - 1) False (CHR 0x22) body")
      (auto simp: StringLiteralParser_def string_token_bytes_def Let_def)
qed


section \<open>Universal character names\<close>

lemma HexDigitValue_isxdigit: "isxdigit c \<Longrightarrow> 0 \<le> HexDigitValue c \<and> HexDigitValue c < 16"
  by (auto simp: isxdigit_def HexDigitValue_def isdigit_def)

lemma hex_digit_or:
  assumes "0 \<le> d" "d < 16"
  shows "push_bit 4 (v :: u32) OR word_of_int d = 16 * v + word_of_int d"
proof -
  have "unat (word_of_int d :: u32) < 2 ^ 4"
    using assms by (simp add: unsigned_of_int take_bit_int_eq_self nat_less_iff)
  then have "bit (word_of_int d :: u32) n \<Longrightarrow> n < 4" for n by (rule small_bits)
  then have "push_bit 4 v AND word_of_int d = 0"
    by (intro bit_word_eqI) (fastforce simp: bit_and_iff bit_push_bit_iff)
  then show ?thesis by (simp add: disjunctive_add_eq_or [symmetric] push_bit_eq_mult mult.commute)
qed

lemma ucn_digits_hex:
  "list_all isxdigit hs \<Longrightarrow> ucn_digits (length hs) v (hs @ r) =
    (0, foldl (\<lambda>v c. 16 * v + word_of_int (HexDigitValue c)) v hs, r)"
proof (induction hs arbitrary: v)
  case (Cons c hs)
  then have "HexDigitValue c \<noteq> - 1" using HexDigitValue_isxdigit [of c] by simp
  then show ?case using Cons HexDigitValue_isxdigit [of c] by (simp add: Let_def hex_digit_or)
qed simp

section \<open>Character literals of plain characters\<close>

abbreviation plain_char :: "char \<Rightarrow> bool" where
  "plain_char c \<equiv> code_of c < 128 \<and> c \<noteq> CHR 0x27 \<and> c \<noteq> CHR 0x5C"

lemma char_unsigned_plain: "code_of c < 128 \<Longrightarrow> char_unsigned c = of_nat (code_of c)"
proof -
  assume c: "code_of c < 128"
  have b: "(of_char c :: byte) = of_nat (code_of c)" by (rule of_nat_of_char [symmetric])
  have "signed_take_bit 7 (int (code_of c)) = int (code_of c)"
    using c by (intro signed_take_bit_int_eq_self) auto
  then have "sint (of_nat (code_of c) :: byte) = int (code_of c)" by (simp add: signed_of_nat)
  then show ?thesis unfolding char_unsigned_def b by (simp add: scast_eq)
qed

lemma char_loop_plain:
  assumes "list_all plain_char cs" "first \<longrightarrow> v = 0"
  shows "\<exists>ds. char_loop LO TI False e (cs @ CHR 0x27 # r) first multi v err diags =
    Some (foldl (\<lambda>v c. v * 256 + of_nat (code_of c)) v cs, multi \<or> (if first then 1 < length cs else 0 < length cs), err, ds)"
  using assms
proof (induction cs arbitrary: first multi v diags)
  case Nil
  then show ?case by (simp add: char_loop.simps)
next
  case (Cons c cs)
  have c: "c \<noteq> CHR 0x27" "c \<noteq> CHR 0x5C" "char_unsigned c = of_nat (code_of c)"
    using Cons.prems(1) char_unsigned_plain by auto
  have "\<exists>ds. char_loop LO TI False e (cs @ CHR 0x27 # r) False (multi \<or> \<not> first) (v * 256 + of_nat (code_of c)) err diags' =
      Some (foldl (\<lambda>v c. v * 256 + of_nat (code_of c)) (v * 256 + of_nat (code_of c)) cs,
        (multi \<or> \<not> first) \<or> 0 < length cs, err, ds)" for diags'
    using Cons.IH [of False "v * 256 + of_nat (code_of c)" "multi \<or> \<not> first" diags'] Cons.prems(1) by simp
  then show ?case using c Cons.prems(2)
    by (cases first; subst append_Cons, subst char_loop.simps) (auto simp: Let_def push_bit_eq_mult)
qed

lemma CharLiteralParser_plain:
  assumes "list_all plain_char cs" "cs \<noteq> []" "IntWidth TI = 32" "WCharWidth TI = 32"
  shows "\<exists>R. CharLiteralParser LO TI e (CHR 0x27 # cs @ [CHR 0x27]) = Some R \<and> \<not> char_HadError R \<and> \<not> char_IsWide R \<and>
    char_Value R = foldl (\<lambda>v c. v * 256 + of_nat (code_of c)) 0 cs"
proof -
  let ?v = "foldl (\<lambda>v c. v * 256 + of_nat (code_of c)) (0 :: u32) cs"
  obtain ds where loop: "char_loop LO TI False e (cs @ [CHR 0x27]) True False 0 False [] =
      Some (?v, 1 < length cs, False, ds)"
    using char_loop_plain [OF assms(1), of True 0 LO TI e "[]" False False "[]"] by auto
  have sign: "?v AND 128 = 0" if single: "\<not> 1 < length cs"
  proof -
    obtain c where c: "cs = [c]" using assms(2) single by (cases cs) auto
    have "unat (of_nat (code_of c) :: u32) < 2 ^ 7"
      using assms(1) c by (simp add: unsigned_of_nat take_bit_nat_eq_self)
    then have "\<not> bit (of_nat (code_of c) :: u32) 7" using small_bits [of "of_nat (code_of c)" 7 7] by auto
    moreover have "bit (128 :: u32) n \<Longrightarrow> n = 7" for n using bit_exp_iff [where 'a = "32 word", of 7 n] by simp
    ultimately have "(of_nat (code_of c) :: u32) AND 128 = 0"
      by (intro bit_word_eqI) (auto simp: bit_and_iff)
    then show ?thesis using c by simp
  qed
  show ?thesis using loop sign assms(3,4)
    by (cases "Suc 0 < length cs") (auto simp: CharLiteralParser_def Let_def)
qed

section \<open>Properties\<close>

text \<open>
  A universal character name of the right number of hexadecimal digits whose value passes the
  constraints of the standard is consumed whole, without an error, and the bytes written for it are
  the UTF-8 sequence that decodes to the value.
\<close>

theorem ProcessUCNEscape_utf8:
  assumes "list_all isxdigit hs" "length hs = (if u = CHR ''u'' then 4 else 8)"
    "\<not> ucn_invalid (foldl (\<lambda>v c. 16 * v + word_of_int (HexDigitValue c)) 0 hs)"
  shows "\<exists>out. ProcessUCNEscape e (CHR 0x5C # u # hs @ r) = Some (r, out, False, []) \<and>
    utf8_decode out = Some (foldl (\<lambda>v c. 16 * v + word_of_int (HexDigitValue c)) 0 hs)"
proof -
  let ?v = "foldl (\<lambda>v c. 16 * v + word_of_int (HexDigitValue c)) 0 hs :: u32"
  have "?v \<le> 0x10FFFF" using assms(3) by (auto simp: ucn_invalid_def)
  moreover have "hs @ r \<noteq> [] \<and> isxdigit (peek e (hs @ r))"
    using assms(1,2) by (cases hs) (auto simp: peek_def split: if_split_asm)
  ultimately show ?thesis
    using assms(3) ucn_digits_hex [OF assms(1), of 0 r] assms(2) utf8_encode_decode [of ?v]
    by (simp add: ProcessUCNEscape_def split: if_split_asm)
qed

theorem ProcessUCNEscape_utf8_witness:
  "\<exists>out. ProcessUCNEscape (CHR '';'') (CHR 0x5C # CHR ''u'' # ''20aC'' @ ''x'') = Some (''x'', out, False, []) \<and>
    utf8_decode out = Some 0x20AC"
  using ProcessUCNEscape_utf8 [of "''20aC''" "CHR ''u''" "CHR '';''" "''x''"]
  by (simp add: isxdigit_def isdigit_def HexDigitValue_def ucn_invalid_def)

text \<open>
  C15: for every sequence of string tokens as the lexer makes them, the constructor terminates and
  reads nothing outside the tokens. If the bytes between the quotes and a terminating character, times
  the width of a wide character, stay below \<open>2^32\<close>, it writes no more than its 32-bit size
  computation reserved, with room for a terminating character of the string's kind.
\<close>

theorem StringLiteralParser_in_bounds:
  assumes "toks \<noteq> []" "\<forall>t \<in> set toks. token_ok t"
    "list_ex is_wide_string_literal toks \<Longrightarrow> WCharWidth TI mod 8 = 0 \<and> 8 \<le> WCharWidth TI"
    "size_needed (list_ex is_wide_string_literal toks) (WCharWidth TI div 8) toks < 2 ^ 32"
  shows "\<exists>S. StringLiteralParser LO TI toks = Some S \<and>
    GetStringLength S + (if str_AnyWide S then str_wchar_tByteWidth S else 1) \<le> str_SizeBound S"
proof -
  let ?wide = "list_ex is_wide_string_literal toks"
  let ?w = "if ?wide then WCharWidth TI div 8 else 2 ^ 32 - 1"
  obtain out err ds P where out: "string_tokens_bytes LO TI ?wide ?w True False toks = Some (out, err, ds, P)"
    using string_tokens_bytes_total [OF assms(2)] by blast
  have len: "\<forall>t \<in> set toks. length (getSpelling t) \<le> getLength t" using assms(2) by (auto simp: token_ok_def)
  have w: "?wide \<Longrightarrow> 1 \<le> ?w" using assms(3) by (simp add: less_eq_div_iff_mult_less_eq)
  have "length out \<le> char_bytes ?wide ?w * sum_list (map (\<lambda>t. getLength t - 2) toks)"
    by (rule string_tokens_bytes_bound [OF out w len])
  then have "length out + char_bytes ?wide ?w \<le> size_needed ?wide ?w toks"
    by (auto simp: size_needed_def algebra_simps)
  moreover have "\<forall>t \<in> set toks. 2 \<le> getLength t" using assms(2) by (auto simp: token_ok_def)
  then have "string_SizeBound ?wide ?w toks = size_needed ?wide ?w toks"
    using w assms(4) by (intro string_SizeBound_exact) (auto simp: size_needed_def)
  ultimately have "length out + char_bytes ?wide ?w \<le> string_SizeBound ?wide ?w toks" by simp
  then show ?thesis
    using assms(1,3) out by (auto simp: StringLiteralParser_def Let_def GetStringLength_def)
qed

theorem StringLiteralParser_in_bounds_witness:
  "\<exists>S. StringLiteralParser \<lparr>Microsoft = False, NoExtensions = False, HexFloats = True, PascalStrings = False\<rparr>
      \<lparr>WCharWidth = 32, IntWidth = 32, isCharSigned = True\<rparr>
      [\<lparr>getLength = 4, is_wide_string_literal = False, getSpelling = [CHR 0x22, CHR ''a'', CHR ''b'', CHR 0x22]\<rparr>] = Some S \<and>
    GetStringLength S + (if str_AnyWide S then str_wchar_tByteWidth S else 1) \<le> str_SizeBound S"
proof (rule StringLiteralParser_in_bounds)
  show "\<forall>t \<in> set [\<lparr>getLength = 4, is_wide_string_literal = False, getSpelling = [CHR 0x22, CHR ''a'', CHR ''b'', CHR 0x22]\<rparr>]. token_ok t"
    by (auto simp: token_ok_def intro!: exI [of _ False] exI [of _ "''ab''"])
qed (simp_all add: size_needed_def)



text \<open>
  \<^verbatim>\<open>getOffsetOfStringByte\<close> does not know universal character names: in the token
  \<open>"\u00e9x"\<close>, whose bytes are the two of the name and \<open>x\<close>, it places byte 2 inside the name.
\<close>

theorem getOffsetOfStringByte_ucn:
  "map_option str_bytes (StringLiteralParser \<lparr>Microsoft = False, NoExtensions = False, HexFloats = True, PascalStrings = False\<rparr>
      \<lparr>WCharWidth = 32, IntWidth = 32, isCharSigned = True\<rparr>
      [\<lparr>getLength = 9, is_wide_string_literal = False, getSpelling = CHR 0x22 # CHR 0x5C # ''u00e9x'' @ [CHR 0x22]\<rparr>]) =
     Some [0xC3, 0xA9, 0x78] \<and>
   getOffsetOfStringByte \<lparr>Microsoft = False, NoExtensions = False, HexFloats = True, PascalStrings = False\<rparr>
      \<lparr>WCharWidth = 32, IntWidth = 32, isCharSigned = True\<rparr>
      \<lparr>getLength = 9, is_wide_string_literal = False, getSpelling = CHR 0x22 # CHR 0x5C # ''u00e9x'' @ [CHR 0x22]\<rparr>
      (CHR '';'') 2 = Some 4"
proof -
  have "string_loop \<lparr>Microsoft = False, NoExtensions = False, HexFloats = True, PascalStrings = False\<rparr>
      \<lparr>WCharWidth = 32, IntWidth = 32, isCharSigned = True\<rparr> False w False (CHR 0x22) (CHR 0x5C # ''u00e9x'') =
    Some ([0xC3, 0xA9, 0x78], False, [])" for w by code_simp
  moreover have "getOffsetOfStringByte \<lparr>Microsoft = False, NoExtensions = False, HexFloats = True, PascalStrings = False\<rparr>
      \<lparr>WCharWidth = 32, IntWidth = 32, isCharSigned = True\<rparr>
      \<lparr>getLength = 9, is_wide_string_literal = False, getSpelling = CHR 0x22 # CHR 0x5C # ''u00e9x'' @ [CHR 0x22]\<rparr>
      (CHR '';'') 2 = Some 4" by code_simp
  ultimately show ?thesis
    using narrow_token [of "\<lparr>getLength = 9, is_wide_string_literal = False, getSpelling = CHR 0x22 # CHR 0x5C # ''u00e9x'' @ [CHR 0x22]\<rparr>"
        "CHR 0x5C # ''u00e9x''"] by simp
qed

text \<open>
  A narrow character literal of plain characters is accepted, and its value is the characters'
  codes as the digits of a number to base 256, modulo two to the 32.
\<close>

theorem CharLiteralParser_value:
  assumes "list_all plain_char cs" "cs \<noteq> []" "IntWidth TI = 32" "WCharWidth TI = 32"
  shows "\<exists>R. CharLiteralParser LO TI e (CHR 0x27 # cs @ [CHR 0x27]) = Some R \<and> \<not> char_HadError R \<and> \<not> char_IsWide R \<and>
    char_Value R = foldl (\<lambda>v c. v * 256 + of_nat (code_of c)) 0 cs"
  using CharLiteralParser_plain [OF assms] .

theorem CharLiteralParser_value_witness:
  "\<exists>R. CharLiteralParser \<lparr>Microsoft = False, NoExtensions = False, HexFloats = True, PascalStrings = False\<rparr>
      \<lparr>WCharWidth = 32, IntWidth = 32, isCharSigned = True\<rparr> (CHR '';'') [CHR 0x27, CHR ''a'', CHR ''b'', CHR 0x27] = Some R \<and>
    char_Value R = 24930"
  using CharLiteralParser_value [of "''ab''" "\<lparr>WCharWidth = 32, IntWidth = 32, isCharSigned = True\<rparr>"
      "\<lparr>Microsoft = False, NoExtensions = False, HexFloats = True, PascalStrings = False\<rparr>" "CHR '';''"]
  by auto

text \<open>
  The value of the multi-character literal of two \<open>\xFF\<close> escapes is 65535; and a byte from 128
  on that is not escaped is sign extended on the host even when the target's \<open>char\<close> is unsigned.
\<close>

theorem CharLiteralParser_high_bytes:
  "map_option char_Value (CharLiteralParser \<lparr>Microsoft = False, NoExtensions = False, HexFloats = True, PascalStrings = False\<rparr>
      \<lparr>WCharWidth = 32, IntWidth = 32, isCharSigned = True\<rparr> (CHR '';'')
      (CHR 0x27 # CHR 0x5C # ''xFF'' @ CHR 0x5C # ''xFF'' @ [CHR 0x27])) = Some 65535 \<and>
   map_option char_Value (CharLiteralParser \<lparr>Microsoft = False, NoExtensions = False, HexFloats = True, PascalStrings = False\<rparr>
      \<lparr>WCharWidth = 32, IntWidth = 32, isCharSigned = False\<rparr> (CHR '';'') [CHR 0x27, CHR 0xE9, CHR 0x27]) = Some 0xFFFFFFE9"
  by code_simp

end
