(* ===== verification/Tokens.thy ===== *)
theory Tokens
  imports Characters
begin

text \<open>
  Tokens and identifiers (\<^verbatim>\<open>include/clang/Basic/TokenKinds.def\<close>,
  \<^verbatim>\<open>include/clang/Lex/Token.h\<close>, \<^verbatim>\<open>include/clang/Basic/IdentifierTable.h\<close>,
  \<^verbatim>\<open>lib/Basic/IdentifierTable.cpp\<close>), and what the lexing functions of the preprocessor
  deliver inside a directive. Keyword tokens carry the keyword; annotation tokens, which only the parser
  makes, are left out.
\<close>

section \<open>Kinds\<close>

datatype (plugins only: code size) tok_kind =
  tok_unknown | tok_eof | tok_eom | tok_comment | tok_identifier | tok_numeric_constant
  | tok_char_constant | tok_string_literal | tok_wide_string_literal | tok_angle_string_literal
  | tok_l_square | tok_r_square | tok_l_paren | tok_r_paren | tok_l_brace | tok_r_brace | tok_period
  | tok_ellipsis | tok_amp | tok_ampamp | tok_ampequal | tok_star | tok_starequal | tok_plus
  | tok_plusplus | tok_plusequal | tok_minus | tok_arrow | tok_minusminus | tok_minusequal | tok_tilde
  | tok_exclaim | tok_exclaimequal | tok_slash | tok_slashequal | tok_percent | tok_percentequal
  | tok_less | tok_lessless | tok_lessequal | tok_lesslessequal | tok_greater | tok_greatergreater
  | tok_greaterequal | tok_greatergreaterequal | tok_caret | tok_caretequal | tok_pipe | tok_pipepipe
  | tok_pipeequal | tok_question | tok_colon | tok_semi | tok_equal | tok_equalequal | tok_comma
  | tok_hash | tok_hashhash | tok_hashat | tok_periodstar | tok_arrowstar | tok_coloncolon | tok_at
  | tok_kw string

datatype pp_keyword =
  pp_not_keyword | pp_if | pp_elif | pp_else | pp_line | pp_sccs | pp_endif | pp_error | pp_ident
  | pp_ifdef | pp_undef | pp_assert | pp_define | pp_ifndef | pp_import | pp_pragma | pp_defined
  | pp_include | pp_warning | pp_unassert | pp_include_next | pp_x_include_macros

section \<open>Preprocessor keywords\<close>

text \<open>The hash is an \<open>unsigned\<close>: the length is shifted at 32 bits.\<close>

definition pp_hash :: "nat \<Rightarrow> char \<Rightarrow> char \<Rightarrow> int" where
  "pp_hash Len First Third =
     take_bit 32 (push_bit 5 (int Len)) + take_bit 5 ((int (of_char First) - 97) + (int (of_char Third) - 97))"

text \<open>The cases of the switch: length, first and third character, and the keyword they stand for.\<close>

definition pp_cases :: "(nat \<times> char \<times> char \<times> string \<times> pp_keyword) list" where
  "pp_cases =
     [(2, CHR ''i'', CHR 0x00, ''if'', pp_if),
      (4, CHR ''e'', CHR ''i'', ''elif'', pp_elif),
      (4, CHR ''e'', CHR ''s'', ''else'', pp_else),
      (4, CHR ''l'', CHR ''n'', ''line'', pp_line),
      (4, CHR ''s'', CHR ''c'', ''sccs'', pp_sccs),
      (5, CHR ''e'', CHR ''d'', ''endif'', pp_endif),
      (5, CHR ''e'', CHR ''r'', ''error'', pp_error),
      (5, CHR ''i'', CHR ''e'', ''ident'', pp_ident),
      (5, CHR ''i'', CHR ''d'', ''ifdef'', pp_ifdef),
      (5, CHR ''u'', CHR ''d'', ''undef'', pp_undef),
      (6, CHR ''a'', CHR ''s'', ''assert'', pp_assert),
      (6, CHR ''d'', CHR ''f'', ''define'', pp_define),
      (6, CHR ''i'', CHR ''n'', ''ifndef'', pp_ifndef),
      (6, CHR ''i'', CHR ''p'', ''import'', pp_import),
      (6, CHR ''p'', CHR ''a'', ''pragma'', pp_pragma),
      (7, CHR ''d'', CHR ''f'', ''defined'', pp_defined),
      (7, CHR ''i'', CHR ''c'', ''include'', pp_include),
      (7, CHR ''w'', CHR ''r'', ''warning'', pp_warning),
      (8, CHR ''u'', CHR ''a'', ''unassert'', pp_unassert),
      (12, CHR ''i'', CHR ''c'', ''include_next'', pp_include_next),
      (16, CHR ''_'', CHR ''i'', ''__include_macros'', pp_x_include_macros)]"

text \<open>\<open>Name[2]\<close> of a name of two characters is the null character that ends it.\<close>

definition name_char :: "string \<Rightarrow> nat \<Rightarrow> char" where
  "name_char Name i = (if i < length Name then Name ! i else CHR 0x00)"

definition getPPKeywordID :: "string \<Rightarrow> pp_keyword" where
  "getPPKeywordID Name =
     (let Len = length Name
      in if Len < 2 then pp_not_keyword
         else case find (\<lambda>(L, a, b, _). pp_hash L a b = pp_hash Len (name_char Name 0) (name_char Name 2)) pp_cases of
                None \<Rightarrow> pp_not_keyword
              | Some (L, _, _, N, k) \<Rightarrow> if take L Name = N then k else pp_not_keyword)"

lemma shifted_length: "m < 2 ^ 27 \<Longrightarrow> take_bit 32 (push_bit 5 (int m)) = int m * 32"
  by (simp add: push_bit_eq_mult take_bit_int_eq_self_iff)

lemma pp_hash_length:
  assumes "pp_hash m a b = pp_hash n c d" "m < 2 ^ 27" "n < 2 ^ 27"
  shows "m = n"
proof -
  define x y where "x = take_bit 5 ((int (of_char a) - 97) + (int (of_char b) - 97))"
    and "y = take_bit 5 ((int (of_char c) - 97) + (int (of_char d) - 97))"
  have "0 \<le> x" "x < 32" "0 \<le> y" "y < 32"
    using take_bit_int_less_exp [of 5] by (simp_all add: x_def y_def)
  moreover have "int m * 32 + x = int n * 32 + y"
    using assms(1) shifted_length [OF assms(2)] shifted_length [OF assms(3)] by (simp only: pp_hash_def x_def y_def)
  ultimately show ?thesis by linarith
qed

text \<open>The keyword of a name, without a hash.\<close>

definition pp_keyword_of :: "string \<Rightarrow> pp_keyword" where
  "pp_keyword_of Name = (case map_of (map (\<lambda>(_, _, _, N, k). (N, k)) pp_cases) Name of None \<Rightarrow> pp_not_keyword | Some k \<Rightarrow> k)"

lemma pp_cases_found: "list_all (\<lambda>(L, a, b, N, k). L = length N \<and> getPPKeywordID N = k) pp_cases"
  by code_simp

text \<open>
  C22: for a name of fewer than \<open>2^27\<close> characters, the switch on the hash of length, first and third
  character finds exactly the preprocessor keywords: it is a look-up of the whole name in their table, so no two
  of them collide and no other name is taken for one.
\<close>

theorem getPPKeywordID_keyword_of:
  assumes "length Name < 2 ^ 27"
  shows "getPPKeywordID Name = pp_keyword_of Name"
proof (cases "map_of (map (\<lambda>(_, _, _, N, k). (N, k)) pp_cases) Name")
  case (Some k)
  then have "(Name, k) \<in> set (map (\<lambda>(_, _, _, N, k). (N, k)) pp_cases)" by (rule map_of_SomeD)
  then have "getPPKeywordID Name = k" using pp_cases_found by (auto simp: list_all_iff)
  then show ?thesis using Some by (simp add: pp_keyword_of_def)
next
  case None
  then have none: "N \<noteq> Name" if "(L, a, b, N, k) \<in> set pp_cases" for L a b N k
    using that by (force simp: map_of_eq_None_iff)
  have "list_all (\<lambda>(L, _). L < 2 ^ 27) pp_cases" by (simp add: pp_cases_def)
  then have small: "L < 2 ^ 27" if "(L, a, b, N, k) \<in> set pp_cases" for L a b N k
    using that by (fastforce simp: list_all_iff)
  have "take L Name \<noteq> N" if "(L, a, b, N, k) \<in> set pp_cases" "pp_hash L a b = pp_hash (length Name) c d" for L a b N k c d
    using none [OF that(1)] pp_hash_length [OF that(2) small [OF that(1)] assms] by auto
  then have "getPPKeywordID Name = pp_not_keyword"
    by (auto simp: getPPKeywordID_def Let_def find_Some_iff split: option.splits) (metis nth_mem)+
  then show ?thesis using None by (simp add: pp_keyword_of_def)
qed

theorem getPPKeywordID_keyword_of_witness:
  "getPPKeywordID ''include'' = pp_include \<and> getPPKeywordID ''inclxde'' = pp_not_keyword"
  using getPPKeywordID_keyword_of [of "''include''"] getPPKeywordID_keyword_of [of "''inclxde''"]
  by (simp add: pp_keyword_of_def pp_cases_def)

text \<open>
  The bound is needed: the length of a longer name is cut off by the shift, and only as many characters are
  compared as the keyword has.
\<close>

lemma getPPKeywordID_long_name: "getPPKeywordID (''elif'' @ replicate (2 ^ 27) c) = pp_elif"
proof -
  let ?Name = "''elif'' @ replicate (2 ^ 27) c"
  have "pp_hash (length ?Name) (CHR ''e'') (CHR ''i'') = pp_hash 4 (CHR ''e'') (CHR ''i'')"
    by (simp add: pp_hash_def push_bit_eq_mult take_bit_eq_mod)
  moreover have "find (\<lambda>(L, a, b, _). pp_hash L a b = pp_hash 4 (CHR ''e'') (CHR ''i'')) pp_cases =
      Some (4, CHR ''e'', CHR ''i'', ''elif'', pp_elif)" by code_simp
  moreover have "name_char ?Name 0 = CHR ''e''" "name_char ?Name 2 = CHR ''i''" by (simp_all add: name_char_def)
  ultimately show ?thesis unfolding getPPKeywordID_def Let_def by simp
qed

section \<open>Identifiers and tokens\<close>

record identifier_info =
  getName :: string
  getTokenID :: tok_kind
  hasMacroDefinition :: bool

text \<open>
  A token has its kind, its location, its identifier pointer, whether it needs cleaning, the characters
  at its location in the source, from the first one on, its length there, its spelling with trigraphs and
  escaped newlines gone, and the byte behind that spelling.
\<close>

record token =
  getKind :: tok_kind
  getLocation :: nat
  PtrIdentifier :: "identifier_info option"
  needsCleaning :: bool
  characterData :: string
  tokLength :: nat
  tokSpelling :: string
  tokNext :: char

definition isLiteral :: "token \<Rightarrow> bool" where
  "isLiteral t \<longleftrightarrow> getKind t = tok_numeric_constant \<or> getKind t = tok_char_constant \<or> getKind t = tok_string_literal \<or>
     getKind t = tok_wide_string_literal \<or> getKind t = tok_angle_string_literal"

definition getIdentifierInfo :: "token \<Rightarrow> identifier_info option" where
  "getIdentifierInfo t = (if isLiteral t then None else PtrIdentifier t)"

section \<open>The tokens of a directive\<close>

text \<open>
  What is left of the line: tokens, and macro invocations, which the lexer expands when it comes to one
  with expansion enabled. An invocation is the name, what follows it as written (the arguments), and the
  replacement, which may hold further invocations. An unexpanded read takes the name only.
\<close>

datatype pp_item =
  Plain token
| Invocation token "pp_item list" "pp_item list"

abbreviation items_size :: "pp_item list \<Rightarrow> nat" where
  "items_size items \<equiv> size_list size items"

fun lex_items :: "pp_item list \<Rightarrow> (token \<times> pp_item list) option" where
  "lex_items [] = None"
| "lex_items (Plain t # r) = Some (t, r)"
| "lex_items (Invocation name args body # r) = lex_items (body @ r)"

fun lex_unexpanded :: "pp_item list \<Rightarrow> (token \<times> pp_item list) option" where
  "lex_unexpanded [] = None"
| "lex_unexpanded (Plain t # r) = Some (t, r)"
| "lex_unexpanded (Invocation name args body # r) = Some (name, args @ r)"

lemma items_size_append [simp]: "items_size (xs @ ys) = items_size xs + items_size ys"
  by (induction xs) auto

lemma lex_items_smaller: "lex_items items = Some (t, r) \<Longrightarrow> items_size r < items_size items"
  by (induction items rule: lex_items.induct) auto

lemma lex_unexpanded_smaller: "lex_unexpanded items = Some (t, r) \<Longrightarrow> items_size r < items_size items"
  by (cases items rule: lex_unexpanded.cases) auto

function lex_non_comment :: "pp_item list \<Rightarrow> (token \<times> pp_item list) option" where
  "lex_non_comment items = (case lex_items items of
     None \<Rightarrow> None
   | Some (t, r) \<Rightarrow> if getKind t = tok_comment then lex_non_comment r else Some (t, r))"
  by pat_completeness auto
termination by (relation "measure items_size") (auto dest: lex_items_smaller)

function discard_until_eom :: "pp_item list \<Rightarrow> pp_item list option" where
  "discard_until_eom items = (case lex_unexpanded items of
     None \<Rightarrow> None
   | Some (t, r) \<Rightarrow> if getKind t = tok_eom then Some r else discard_until_eom r)"
  by pat_completeness auto
termination by (relation "measure items_size") (auto dest: lex_unexpanded_smaller)

declare lex_non_comment.simps [simp del] discard_until_eom.simps [simp del]

subsection \<open>Inside the line\<close>

text \<open>
  The items of a line hold no end of line themselves; only the token behind them ends the directive. Every
  token of them satisfies \<open>Q\<close>.
\<close>

fun item_ok :: "(token \<Rightarrow> bool) \<Rightarrow> pp_item \<Rightarrow> bool" where
  "item_ok Q (Plain t) = (getKind t \<noteq> tok_eom \<and> Q t)"
| "item_ok Q (Invocation name args body) =
     (getKind name \<noteq> tok_eom \<and> Q name \<and> (\<forall>i \<in> set args. item_ok Q i) \<and> (\<forall>i \<in> set body. item_ok Q i))"

text \<open>The token that ends a line has no identifier.\<close>

definition is_eom :: "token \<Rightarrow> bool" where
  "is_eom t \<longleftrightarrow> getKind t = tok_eom \<and> PtrIdentifier t = None"

text \<open>The line \<open>items\<close> ends with \<open>eom\<close>, and \<open>rest\<close> is behind it.\<close>

definition line_ahead :: "(token \<Rightarrow> bool) \<Rightarrow> pp_item list \<Rightarrow> nat \<Rightarrow> pp_item list \<Rightarrow> bool" where
  "line_ahead Q rest n items \<longleftrightarrow> (\<exists>xs eom. items = xs @ Plain eom # rest \<and> (\<forall>i \<in> set xs. item_ok Q i) \<and>
     is_eom eom \<and> n = items_size xs)"

text \<open>What a read inside a line gives: the end of the line, or a token and a shorter line.\<close>

definition read_inside :: "(token \<Rightarrow> bool) \<Rightarrow> pp_item list \<Rightarrow> nat \<Rightarrow> token \<times> pp_item list \<Rightarrow> bool" where
  "read_inside Q rest n = (\<lambda>(t, r). if getKind t = tok_eom then is_eom t \<and> r = rest else Q t \<and> (\<exists>m < n. line_ahead Q rest m r))"

lemma line_ahead_cases:
  assumes "line_ahead Q rest n items"
  obtains (eom) eom where "items = Plain eom # rest" "is_eom eom"
    | (plain) t r m where "items = Plain t # r" "getKind t \<noteq> tok_eom" "Q t" "line_ahead Q rest m r" "m < n"
    | (invocation) name args body r m1 m2 where "items = Invocation name args body # r" "getKind name \<noteq> tok_eom" "Q name"
      "line_ahead Q rest m1 (args @ r)" "m1 < n" "line_ahead Q rest m2 (body @ r)" "m2 < n"
proof -
  from assms obtain xs eom where X: "items = xs @ Plain eom # rest" "\<forall>i \<in> set xs. item_ok Q i"
    "is_eom eom" "n = items_size xs" by (auto simp: line_ahead_def)
  show thesis
  proof (cases xs)
    case Nil
    then show ?thesis using X by (intro that(1)) auto
  next
    case (Cons x ys)
    show ?thesis
    proof (cases x)
      case (Plain t)
      then show ?thesis using X Cons
        by (intro that(2) [of t "ys @ Plain eom # rest" "items_size ys"]) (auto simp: line_ahead_def)
    next
      case (Invocation name args body)
      have "line_ahead Q rest (items_size (args @ ys)) (args @ ys @ Plain eom # rest)"
        "line_ahead Q rest (items_size (body @ ys)) (body @ ys @ Plain eom # rest)"
        using X Cons Invocation unfolding line_ahead_def
        by (intro exI [of _ "args @ ys"] exI [of _ "body @ ys"] exI [of _ eom]; auto)+
      then show ?thesis using X Cons Invocation
        by (intro that(3) [of name args body "ys @ Plain eom # rest"]) auto
    qed
  qed
qed

lemma read_inside_mono: "read_inside Q rest m p \<Longrightarrow> m \<le> n \<Longrightarrow> read_inside Q rest n p"
  by (auto simp: read_inside_def split: if_splits dest: less_le_trans)

lemma lex_items_inside: "line_ahead Q rest n items \<Longrightarrow> \<exists>p. lex_items items = Some p \<and> read_inside Q rest n p"
proof (induction n arbitrary: items rule: less_induct)
  case (less n)
  from less.prems show ?case
  proof (cases rule: line_ahead_cases)
    case (invocation name args body r m1 m2)
    then show ?thesis using less.IH [OF invocation(7,6)] read_inside_mono [of Q rest m2 _ n] by fastforce
  qed (auto simp: read_inside_def is_eom_def)
qed

lemma lex_unexpanded_inside: "line_ahead Q rest n items \<Longrightarrow> \<exists>p. lex_unexpanded items = Some p \<and> read_inside Q rest n p"
  by (erule line_ahead_cases) (auto simp: read_inside_def is_eom_def)

lemma lex_non_comment_inside: "line_ahead Q rest n items \<Longrightarrow> \<exists>p. lex_non_comment items = Some p \<and> read_inside Q rest n p"
proof (induction n arbitrary: items rule: less_induct)
  case (less n)
  obtain t r where p: "lex_items items = Some (t, r)" "read_inside Q rest n (t, r)"
    using lex_items_inside [OF less.prems] by auto
  show ?case
  proof (cases "getKind t = tok_comment")
    case True
    then obtain m where "m < n" "line_ahead Q rest m r" using p(2) by (auto simp: read_inside_def)
    then show ?thesis
      using less.IH p(1) True read_inside_mono [of Q rest m _ n] by (subst lex_non_comment.simps) fastforce
  qed (use p in \<open>subst lex_non_comment.simps; simp\<close>)
qed

lemma discard_until_eom_inside: "line_ahead Q rest n items \<Longrightarrow> discard_until_eom items = Some rest"
proof (induction n arbitrary: items rule: less_induct)
  case (less n)
  obtain t r where p: "lex_unexpanded items = Some (t, r)" "read_inside Q rest n (t, r)"
    using lex_unexpanded_inside [OF less.prems] by auto
  then show ?case using less.IH
    by (subst discard_until_eom.simps) (auto simp: read_inside_def split: if_splits)
qed

end
