(* ===== verification/APSInt.thy ===== *)
theory APSInt
  imports NumericLiteral "HOL-Library.Signed_Division"
begin

unbundle bit_operations_syntax

text \<open>
  LLVM's \<^verbatim>\<open>APSInt\<close>, an \<^verbatim>\<open>APInt\<close> with a flag for its signedness, as an argument of the
  components that compute with it: the operations they call are the record \<open>apsint_ops\<close>, and their
  documented behaviour is the locale \<open>apsint\<close>, which extends \<open>apint\<close>. An integer is seen
  through its view: its width, whether it is unsigned, and the number it stands for.
\<close>

section \<open>Numbers of a width\<close>

definition wrap_to :: "bool \<Rightarrow> nat \<Rightarrow> int \<Rightarrow> int" where
  "wrap_to u w z = (if u then take_bit w z else signed_take_bit (w - 1) z)"

definition min_value :: "bool \<Rightarrow> nat \<Rightarrow> int" where
  "min_value u w = (if u then 0 else - (2 ^ (w - 1)))"

definition max_value :: "bool \<Rightarrow> nat \<Rightarrow> int" where
  "max_value u w = (if u then 2 ^ w - 1 else 2 ^ (w - 1) - 1)"

lemma wrap_to_idem [simp]: "wrap_to u w (wrap_to u w z) = wrap_to u w z"
  by (simp add: wrap_to_def)

lemma wrap_to_range: "min_value u w \<le> wrap_to u w z" "wrap_to u w z \<le> max_value u w"
  using take_bit_int_less_exp [of w z] signed_take_bit_int_greater_eq_minus_exp [of "w - 1" z]
    signed_take_bit_int_less_exp [of "w - 1" z]
  by (simp_all add: wrap_to_def min_value_def max_value_def)

lemma wrap_to_id: "min_value u w \<le> z \<Longrightarrow> z \<le> max_value u w \<Longrightarrow> wrap_to u w z = z"
  by (auto simp: wrap_to_def min_value_def max_value_def take_bit_int_eq_self_iff signed_take_bit_int_eq_self_iff
      split: if_splits)

lemma wrap_to_eq_iff: "wrap_to u w z = z \<longleftrightarrow> min_value u w \<le> z \<and> z \<le> max_value u w"
  using wrap_to_id wrap_to_range by metis

lemma wrap_to_zero [simp]: "wrap_to u w 0 = 0"
  by (simp add: wrap_to_def)

lemma wrap_to_one: "2 \<le> w \<Longrightarrow> wrap_to u w 1 = 1"
proof (rule wrap_to_id)
  assume "2 \<le> w"
  then have "(2 :: int) ^ 1 \<le> 2 ^ (w - 1)" "(2 :: int) ^ 1 \<le> 2 ^ w" by (intro power_increasing; simp)+
  then show "1 \<le> max_value u w" by (simp add: max_value_def)
  show "min_value u w \<le> 1" by (rule order_trans [of _ 0]) (simp_all add: min_value_def)
qed

lemma value_range_mono:
  assumes "w \<le> w'"
  shows "min_value u w' \<le> min_value u w" "max_value u w \<le> max_value u w'"
proof -
  have "(2 :: int) ^ w \<le> 2 ^ w'" "(2 :: int) ^ (w - 1) \<le> 2 ^ (w' - 1)" using assms by (auto intro!: power_increasing)
  note pow = this
  show "min_value u w' \<le> min_value u w" "max_value u w \<le> max_value u w'"
    unfolding min_value_def max_value_def using pow by (cases u; simp only: if_True if_False; linarith)+
qed

lemma wrap_to_extend: "w \<le> w' \<Longrightarrow> wrap_to u w' (wrap_to u w v) = wrap_to u w v"
  using value_range_mono [of w w' u] wrap_to_range [of u w v] by (intro wrap_to_id) linarith+

lemma wrap_to_drop_bit: "wrap_to u w v = v \<Longrightarrow> wrap_to u w (drop_bit n v) = drop_bit n v"
proof (rule wrap_to_id)
  assume "wrap_to u w v = v"
  then have r: "min_value u w \<le> v" "v \<le> max_value u w" by (simp_all add: wrap_to_eq_iff)
  have z: "min_value u w \<le> 0" "0 \<le> max_value u w" by (simp_all add: min_value_def max_value_def)
  have d: "v \<le> drop_bit n v" if "v < 0"
  proof -
    have "v * 2 ^ n \<le> v" using that by (simp add: mult_le_cancel_left1)
    then have "v * 2 ^ n div 2 ^ n \<le> v div 2 ^ n" by (rule zdiv_mono1) simp
    then show ?thesis by (simp add: drop_bit_eq_div)
  qed
  have e: "0 \<le> drop_bit n v" "drop_bit n v \<le> v" if "0 \<le> v"
  proof -
    have "v div 2 ^ n \<le> v div 1" by (rule zdiv_mono2) (use that in simp_all)
    then show "drop_bit n v \<le> v" by (simp add: drop_bit_eq_div)
    show "0 \<le> drop_bit n v" using that by simp
  qed
  have f: "drop_bit n v < 0" if "v < 0" using that by (simp add: drop_bit_eq_div div_neg_pos_less0)
  show "min_value u w \<le> drop_bit n v" using r z d e by linarith
  show "drop_bit n v \<le> max_value u w" using r z e f by linarith
qed

text \<open>The leading zero bits of the \<open>w\<close> low bits of a natural number.\<close>

fun leading_zeros :: "nat \<Rightarrow> nat \<Rightarrow> nat" where
  "leading_zeros 0 b = 0"
| "leading_zeros (Suc w) b = (if b < 2 ^ w then Suc (leading_zeros w b) else 0)"

section \<open>The operations\<close>

record 'a apsint_ops =
  aps_int :: "'a apint_ops"
  aps_new :: "nat \<Rightarrow> 'a"
  aps_width :: "'a \<Rightarrow> nat"
  aps_isUnsigned :: "'a \<Rightarrow> bool"
  aps_setIsUnsigned :: "bool \<Rightarrow> 'a \<Rightarrow> 'a"
  aps_extend :: "nat \<Rightarrow> 'a \<Rightarrow> 'a"
  aps_neg :: "'a \<Rightarrow> 'a"
  aps_not :: "'a \<Rightarrow> 'a"
  aps_add :: "'a \<Rightarrow> 'a \<Rightarrow> 'a"
  aps_sub :: "'a \<Rightarrow> 'a \<Rightarrow> 'a"
  aps_mul :: "'a \<Rightarrow> 'a \<Rightarrow> 'a"
  aps_div :: "'a \<Rightarrow> 'a \<Rightarrow> 'a"
  aps_rem :: "'a \<Rightarrow> 'a \<Rightarrow> 'a"
  aps_and :: "'a \<Rightarrow> 'a \<Rightarrow> 'a"
  aps_or :: "'a \<Rightarrow> 'a \<Rightarrow> 'a"
  aps_xor :: "'a \<Rightarrow> 'a \<Rightarrow> 'a"
  aps_shl :: "'a \<Rightarrow> nat \<Rightarrow> 'a"
  aps_shr :: "'a \<Rightarrow> nat \<Rightarrow> 'a"
  aps_eq :: "'a \<Rightarrow> 'a \<Rightarrow> bool"
  aps_lt :: "'a \<Rightarrow> 'a \<Rightarrow> bool"
  aps_le :: "'a \<Rightarrow> 'a \<Rightarrow> bool"
  aps_nonzero :: "'a \<Rightarrow> bool"
  aps_isNegative :: "'a \<Rightarrow> bool"
  aps_isMinSignedValue :: "'a \<Rightarrow> bool"
  aps_isAllOnesValue :: "'a \<Rightarrow> bool"
  aps_getLimitedValue :: "'a \<Rightarrow> 64 word"
  aps_countLeadingZeros :: "'a \<Rightarrow> nat"
  aps_countLeadingOnes :: "'a \<Rightarrow> nat"

type_synonym aps_view = "nat \<times> bool \<times> int"

definition view_bits :: "aps_view \<Rightarrow> nat" where
  "view_bits = (\<lambda>(w, u, v). nat (take_bit w v))"

text \<open>
  The documented behaviour. The binary operators want operands of one width and one signedness;
  division and remainder truncate towards zero and want a divisor that is not zero; shifts want an
  amount below the width; \<^verbatim>\<open>isNegative\<close> reads the sign bit whatever the signedness.
\<close>

locale apsint = apint "aps_int S" "\<lambda>x. fst (view x)" "\<lambda>x. view_bits (view x)"
  for S :: "'a apsint_ops" and view :: "'a \<Rightarrow> aps_view" +
  assumes aps_range: "view x = (w, u, v) \<Longrightarrow> wrap_to u w v = v"
    and aps_new: "0 < w \<Longrightarrow> view (aps_new S w) = (w, True, 0)"
    and aps_width: "view x = (w, u, v) \<Longrightarrow> aps_width S x = w"
    and aps_isUnsigned: "view x = (w, u, v) \<Longrightarrow> aps_isUnsigned S x = u"
    and aps_assign: "view x = (w, u, v) \<Longrightarrow> view (ap_assign (aps_int S) x N) = (w, u, wrap_to u w (uint N))"
    and aps_setIsUnsigned: "view x = (w, u, v) \<Longrightarrow> view (aps_setIsUnsigned S u' x) = (w, u', wrap_to u' w v)"
    and aps_extend: "view x = (w, u, v) \<Longrightarrow> w \<le> w' \<Longrightarrow> view (aps_extend S w' x) = (w', u, v)"
    and aps_neg: "view x = (w, u, v) \<Longrightarrow> view (aps_neg S x) = (w, u, wrap_to u w (- v))"
    and aps_not: "view x = (w, u, v) \<Longrightarrow> view (aps_not S x) = (w, u, wrap_to u w (NOT v))"
    and aps_add: "view x = (w, u, a) \<Longrightarrow> view y = (w, u, b) \<Longrightarrow> view (aps_add S x y) = (w, u, wrap_to u w (a + b))"
    and aps_sub: "view x = (w, u, a) \<Longrightarrow> view y = (w, u, b) \<Longrightarrow> view (aps_sub S x y) = (w, u, wrap_to u w (a - b))"
    and aps_mul: "view x = (w, u, a) \<Longrightarrow> view y = (w, u, b) \<Longrightarrow> view (aps_mul S x y) = (w, u, wrap_to u w (a * b))"
    and aps_div: "view x = (w, u, a) \<Longrightarrow> view y = (w, u, b) \<Longrightarrow> b \<noteq> 0 \<Longrightarrow>
      view (aps_div S x y) = (w, u, wrap_to u w (a sdiv b))"
    and aps_rem: "view x = (w, u, a) \<Longrightarrow> view y = (w, u, b) \<Longrightarrow> b \<noteq> 0 \<Longrightarrow>
      view (aps_rem S x y) = (w, u, wrap_to u w (a smod b))"
    and aps_and: "view x = (w, u, a) \<Longrightarrow> view y = (w, u, b) \<Longrightarrow> view (aps_and S x y) = (w, u, wrap_to u w (a AND b))"
    and aps_or: "view x = (w, u, a) \<Longrightarrow> view y = (w, u, b) \<Longrightarrow> view (aps_or S x y) = (w, u, wrap_to u w (a OR b))"
    and aps_xor: "view x = (w, u, a) \<Longrightarrow> view y = (w, u, b) \<Longrightarrow> view (aps_xor S x y) = (w, u, wrap_to u w (a XOR b))"
    and aps_shl: "view x = (w, u, v) \<Longrightarrow> n < w \<Longrightarrow> view (aps_shl S x n) = (w, u, wrap_to u w (push_bit n v))"
    and aps_shr: "view x = (w, u, v) \<Longrightarrow> n < w \<Longrightarrow> view (aps_shr S x n) = (w, u, drop_bit n v)"
    and aps_eq: "view x = (w, u, a) \<Longrightarrow> view y = (w, u, b) \<Longrightarrow> aps_eq S x y \<longleftrightarrow> a = b"
    and aps_lt: "view x = (w, u, a) \<Longrightarrow> view y = (w, u, b) \<Longrightarrow> aps_lt S x y \<longleftrightarrow> a < b"
    and aps_le: "view x = (w, u, a) \<Longrightarrow> view y = (w, u, b) \<Longrightarrow> aps_le S x y \<longleftrightarrow> a \<le> b"
    and aps_nonzero: "view x = (w, u, v) \<Longrightarrow> aps_nonzero S x \<longleftrightarrow> v \<noteq> 0"
    and aps_isNegative: "view x = (w, u, v) \<Longrightarrow> aps_isNegative S x \<longleftrightarrow> wrap_to False w v < 0"
    and aps_isMinSignedValue: "view x = (w, u, v) \<Longrightarrow> aps_isMinSignedValue S x \<longleftrightarrow> wrap_to False w v = min_value False w"
    and aps_isAllOnesValue: "view x = (w, u, v) \<Longrightarrow> aps_isAllOnesValue S x \<longleftrightarrow> wrap_to False w v = - 1"
    and aps_getLimitedValue: "view x = (w, u, v) \<Longrightarrow>
      aps_getLimitedValue S x = (if take_bit w v < 2 ^ 64 then word_of_int (take_bit w v) else - 1)"
    and aps_countLeadingZeros: "view x = (w, u, v) \<Longrightarrow> aps_countLeadingZeros S x = leading_zeros w (nat (take_bit w v))"
    and aps_countLeadingOnes: "view x = (w, u, v) \<Longrightarrow> aps_countLeadingOnes S x = leading_zeros w (nat (take_bit w (NOT v)))"

text \<open>An instance: the view itself, with the number read modulo the width.\<close>

definition view_of :: "aps_view \<Rightarrow> aps_view" where
  "view_of = (\<lambda>(w, u, v). (w, u, wrap_to u w v))"

definition view_apint :: "aps_view apint_ops" where
  "view_apint = \<lparr>
     ap_assign = (\<lambda>(w, u, v) n. (w, u, uint n)),
     ap_zext = (\<lambda>(w, u, v). word_of_int (take_bit w v)),
     ap_of = (\<lambda>(w, u, v) k. (w, True, int k)),
     ap_mul = (\<lambda>(w, u, a) (_, _, b). (w, u, a * b)),
     ap_udiv = (\<lambda>(w, u, a) (_, _, b). (w, u, take_bit w a div take_bit w b)),
     ap_add = (\<lambda>(w, u, a) (_, _, b). (w, u, a + b)),
     ap_eq = (\<lambda>(w, u, a) (_, _, b). take_bit w a = take_bit w b),
     ap_ult = (\<lambda>(w, u, a) (_, _, b). take_bit w a < take_bit w b)\<rparr>"

definition view_apsint :: "aps_view apsint_ops" where
  "view_apsint = \<lparr>
     aps_int = view_apint,
     aps_new = (\<lambda>w. (w, True, 0)),
     aps_width = (\<lambda>(w, u, v). w),
     aps_isUnsigned = (\<lambda>(w, u, v). u),
     aps_setIsUnsigned = (\<lambda>u' (w, u, v). (w, u', wrap_to u w v)),
     aps_extend = (\<lambda>w' (w, u, v). (w', u, wrap_to u w v)),
     aps_neg = (\<lambda>(w, u, v). (w, u, - wrap_to u w v)),
     aps_not = (\<lambda>(w, u, v). (w, u, NOT (wrap_to u w v))),
     aps_add = (\<lambda>(w, u, a) (_, _, b). (w, u, wrap_to u w a + wrap_to u w b)),
     aps_sub = (\<lambda>(w, u, a) (_, _, b). (w, u, wrap_to u w a - wrap_to u w b)),
     aps_mul = (\<lambda>(w, u, a) (_, _, b). (w, u, wrap_to u w a * wrap_to u w b)),
     aps_div = (\<lambda>(w, u, a) (_, _, b). (w, u, wrap_to u w a sdiv wrap_to u w b)),
     aps_rem = (\<lambda>(w, u, a) (_, _, b). (w, u, wrap_to u w a smod wrap_to u w b)),
     aps_and = (\<lambda>(w, u, a) (_, _, b). (w, u, wrap_to u w a AND wrap_to u w b)),
     aps_or = (\<lambda>(w, u, a) (_, _, b). (w, u, wrap_to u w a OR wrap_to u w b)),
     aps_xor = (\<lambda>(w, u, a) (_, _, b). (w, u, wrap_to u w a XOR wrap_to u w b)),
     aps_shl = (\<lambda>(w, u, v) n. (w, u, push_bit n (wrap_to u w v))),
     aps_shr = (\<lambda>(w, u, v) n. (w, u, drop_bit n (wrap_to u w v))),
     aps_eq = (\<lambda>(w, u, a) (_, _, b). wrap_to u w a = wrap_to u w b),
     aps_lt = (\<lambda>(w, u, a) (_, _, b). wrap_to u w a < wrap_to u w b),
     aps_le = (\<lambda>(w, u, a) (_, _, b). wrap_to u w a \<le> wrap_to u w b),
     aps_nonzero = (\<lambda>(w, u, v). wrap_to u w v \<noteq> 0),
     aps_isNegative = (\<lambda>(w, u, v). wrap_to False w (wrap_to u w v) < 0),
     aps_isMinSignedValue = (\<lambda>(w, u, v). wrap_to False w (wrap_to u w v) = min_value False w),
     aps_isAllOnesValue = (\<lambda>(w, u, v). wrap_to False w (wrap_to u w v) = - 1),
     aps_getLimitedValue = (\<lambda>(w, u, v). if take_bit w (wrap_to u w v) < 2 ^ 64
       then word_of_int (take_bit w (wrap_to u w v)) else - 1),
     aps_countLeadingZeros = (\<lambda>(w, u, v). leading_zeros w (nat (take_bit w (wrap_to u w v)))),
     aps_countLeadingOnes = (\<lambda>(w, u, v). leading_zeros w (nat (take_bit w (NOT (wrap_to u w v)))))\<rparr>"

lemma take_bit_wrap_to [simp]: "take_bit w (wrap_to u w z) = take_bit w z"
  by (cases w) (simp_all add: wrap_to_def take_bit_signed_take_bit)

lemma nat_take_bit: "nat (take_bit w z) < 2 ^ w" "nat (take_bit w (int n)) = n mod 2 ^ w"
proof -
  show "nat (take_bit w z) < 2 ^ w" using take_bit_int_less_exp [of w z] by (simp add: nat_less_iff)
  show "nat (take_bit w (int n)) = n mod 2 ^ w" unfolding take_bit_of_nat nat_int by (rule take_bit_eq_mod)
qed

lemma nat_take_bit_arith:
  "nat (take_bit w (a * b)) = nat (take_bit w a) * nat (take_bit w b) mod 2 ^ w"
  "nat (take_bit w (a + b)) = (nat (take_bit w a) + nat (take_bit w b)) mod 2 ^ w"
proof -
  have i: "int (nat (take_bit w z)) = take_bit w z" for z by simp
  have m: "take_bit w (a * b) = take_bit w (int (nat (take_bit w a) * nat (take_bit w b)))"
    by (simp only: of_nat_mult i take_bit_mult)
  have p: "take_bit w (a + b) = take_bit w (int (nat (take_bit w a) + nat (take_bit w b)))"
    by (simp only: of_nat_add i take_bit_add)
  show "nat (take_bit w (a * b)) = nat (take_bit w a) * nat (take_bit w b) mod 2 ^ w"
    "nat (take_bit w (a + b)) = (nat (take_bit w a) + nat (take_bit w b)) mod 2 ^ w"
    by (simp_all only: m p nat_take_bit(2))
qed

lemma nat_take_bit_div:
  "nat (take_bit w (take_bit w a div take_bit w b)) = nat (take_bit w a) div nat (take_bit w b)"
proof -
  have "nat (take_bit w a) div nat (take_bit w b) < 2 ^ w"
    by (rule le_less_trans [OF div_le_dividend nat_take_bit(1)])
  moreover have "take_bit w a div take_bit w b = int (nat (take_bit w a) div nat (take_bit w b))" by (simp add: zdiv_int)
  ultimately show ?thesis using nat_take_bit(2) by simp
qed

interpretation view_apint: apint view_apint "\<lambda>x. fst (view_of x)" "\<lambda>x. view_bits (view_of x)"
proof (unfold_locales, goal_cases)
  case (1 x)
  then show ?case using nat_take_bit(1) by (simp add: view_bits_def view_of_def split: prod.split)
next
  case (3 x n)
  obtain w u v where x: "x = (w, u, v)" by (cases x)
  show ?case using nat_take_bit(2) [of w "unat n"] by (simp add: x view_apint_def view_bits_def view_of_def)
next
  case (4 x)
  obtain w u v where x: "x = (w, u, v)" by (cases x)
  have "take_bit 64 (take_bit w v) = take_bit w v"
    using 4 by (intro take_bit_int_eq_self) (auto simp: x view_of_def view_bits_def nat_less_iff)
  then show ?case by (simp add: x view_apint_def view_bits_def view_of_def unsigned_of_int)
next
  case (6 x k)
  then show ?case using nat_take_bit(2) by (simp add: view_apint_def view_bits_def view_of_def split: prod.split)
next
  case (11 x y)
  then show ?case
    by (auto simp: view_apint_def view_bits_def view_of_def zless_nat_eq_int_zless split: prod.splits)
qed (auto simp: view_apint_def view_bits_def view_of_def nat_take_bit_arith nat_take_bit_div eq_nat_nat_iff
  split: prod.splits)

interpretation view_apsint: apsint view_apsint view_of
proof (intro apsint.intro, goal_cases)
  case 1
  then show ?case using view_apint.apint_axioms by (simp add: view_apsint_def)
next
  case 2
  then show ?case by unfold_locales (auto simp: view_apsint_def view_apint_def view_of_def wrap_to_drop_bit wrap_to_extend)
qed

end
