(* ===== verification/PPExpressions.thy ===== *)
theory PPExpressions
  imports Tokens APSInt StringLiteral
begin

text \<open>
  The expressions of \<^verbatim>\<open>#if\<close> and \<^verbatim>\<open>#elif\<close> (\<^verbatim>\<open>lib/Lex/PPExpressions.cpp\<close>). The state is
  what is left of the file, the token peeked at, the diagnostics with their locations, and the macros
  marked used. A function that returns true on an error gives \<open>Inl\<close> of the state there, otherwise
  \<open>Inr\<close> of its result; a failing assertion, a read behind the end of the file and running out of fuel
  are \<open>None\<close>. Source ranges only decorate diagnostics and are left out.
\<close>

section \<open>State\<close>

datatype pp_diag =
  literal_diag num_diag
| char_diag escape_diag
| warn_pp_undef_identifier string
| err_pp_defined_requires_identifier
| err_pp_missing_rparen
| note_matching string
| err_pp_expr_bad_token_start_expr
| err_pp_expected_value_in_expr
| err_pp_illegal_floating_literal
| ext_longlong
| warn_integer_too_large
| warn_integer_too_large_for_signed
| err_pp_expected_rparen
| warn_pp_expr_overflow
| err_pp_expr_bad_token_binop
| warn_pp_convert_lhs_to_positive
| warn_pp_convert_rhs_to_positive
| err_pp_remainder_by_zero
| err_pp_division_by_zero
| ext_pp_comma_expr
| err_expected_colon
| err_pp_colon_without_question
| err_pp_expected_eol

record pp_state =
  pp_items :: "pp_item list"
  PeekTok :: token
  pp_diagnostics :: "(pp_diag \<times> nat) list"
  pp_used :: "string list"

text \<open>What the code asks the preprocessor: the operations of \<^verbatim>\<open>APSInt\<close>, the options and the target.\<close>

record 'a pp_env =
  env_S :: "'a apsint_ops"
  env_LO :: lang_options
  env_C99 :: bool
  env_CPlusPlus0x :: bool
  env_TI :: target_info
  getIntMaxTWidth :: nat

type_synonym 'v parsed = "(pp_state + 'v \<times> pp_state) option"

definition and_then :: "'v parsed \<Rightarrow> ('v \<Rightarrow> pp_state \<Rightarrow> 'w parsed) \<Rightarrow> 'w parsed" where
  "and_then p f = (case p of None \<Rightarrow> None | Some (Inl s) \<Rightarrow> Some (Inl s) | Some (Inr (v, s)) \<Rightarrow> f v s)"

definition parsed_ok :: "'v \<Rightarrow> pp_state \<Rightarrow> 'v parsed" where
  "parsed_ok v s = Some (Inr (v, s))"

definition PP_Diag :: "nat \<Rightarrow> pp_diag list \<Rightarrow> pp_state \<Rightarrow> pp_state" where
  "PP_Diag loc ds s = s\<lparr>pp_diagnostics := pp_diagnostics s @ map (\<lambda>d. (d, loc)) ds\<rparr>"

definition failed :: "nat \<Rightarrow> pp_diag \<Rightarrow> pp_state \<Rightarrow> 'v parsed" where
  "failed loc d s = Some (Inl (PP_Diag loc [d] s))"

definition read_token :: "(pp_item list \<Rightarrow> (token \<times> pp_item list) option) \<Rightarrow> pp_state \<Rightarrow> pp_state option" where
  "read_token f s = map_option (\<lambda>(t, r). s\<lparr>pp_items := r, PeekTok := t\<rparr>) (f (pp_items s))"

definition PP_Lex :: "pp_state \<Rightarrow> pp_state option" where
  "PP_Lex s = read_token lex_items s"

definition LexNonComment :: "pp_state \<Rightarrow> pp_state option" where
  "LexNonComment s = read_token lex_non_comment s"

definition LexUnexpandedToken :: "pp_state \<Rightarrow> pp_state option" where
  "LexUnexpandedToken s = read_token lex_unexpanded s"

abbreviation peek_kind :: "pp_state \<Rightarrow> tok_kind" where
  "peek_kind s \<equiv> getKind (PeekTok s)"

abbreviation peek_loc :: "pp_state \<Rightarrow> nat" where
  "peek_loc s \<equiv> getLocation (PeekTok s)"

section \<open>Values\<close>

text \<open>The form of a value: \<open>defined(X)\<close>, \<open>!defined(X)\<close>, or something else.\<close>

datatype tracker =
  DefinedMacro string
| NotDefinedMacro string
| Unknown

definition new_value :: "'a pp_env \<Rightarrow> 'a" where
  "new_value E = aps_new (env_S E) (getIntMaxTWidth E)"

text \<open>Assignment of a \<open>bool\<close> or \<open>unsigned\<close> keeps the sign; the code then makes the value signed.\<close>

definition set_bool :: "'a pp_env \<Rightarrow> bool \<Rightarrow> 'a \<Rightarrow> 'a" where
  "set_bool E b v = aps_setIsUnsigned (env_S E) False (ap_assign (aps_int (env_S E)) v (if b then 1 else 0))"

definition eval_identifier :: "'a pp_env \<Rightarrow> bool \<Rightarrow> identifier_info \<Rightarrow> pp_state \<Rightarrow> ('a \<times> tracker) parsed" where
  "eval_identifier E ValueLive II s = do {
     let s1 = (if ValueLive then PP_Diag (peek_loc s) [warn_pp_undef_identifier (getName II)] s else s);
     s2 \<leftarrow> LexNonComment s1;
     parsed_ok (set_bool E (getTokenID II = tok_kw ''true'') (new_value E), Unknown) s2 }"

text \<open>The operand of \<open>defined\<close> and the parenthesis behind it, when one was opened at \<open>LParenLoc\<close>.\<close>

definition defined_operand :: "'a pp_env \<Rightarrow> bool \<Rightarrow> bool \<Rightarrow> nat \<Rightarrow> identifier_info \<Rightarrow> pp_state \<Rightarrow> ('a \<times> tracker) parsed" where
  "defined_operand E ValueLive paren LParenLoc II s = do {
     let v = set_bool E (hasMacroDefinition II) (new_value E);
     let s1 = (if aps_nonzero (env_S E) v \<and> ValueLive then s\<lparr>pp_used := pp_used s @ [getName II]\<rparr> else s);
     s2 \<leftarrow> LexNonComment s1;
     if \<not> paren then parsed_ok (v, DefinedMacro (getName II)) s2
     else if peek_kind s2 \<noteq> tok_r_paren
     then Some (Inl (PP_Diag LParenLoc [note_matching ''(''] (PP_Diag (peek_loc s2) [err_pp_missing_rparen] s2)))
     else do {
       s3 \<leftarrow> LexNonComment s2;
       parsed_ok (v, DefinedMacro (getName II)) s3 } }"

definition defined_name :: "'a pp_env \<Rightarrow> bool \<Rightarrow> bool \<Rightarrow> nat \<Rightarrow> pp_state \<Rightarrow> ('a \<times> tracker) parsed" where
  "defined_name E ValueLive paren LParenLoc s =
     (case getIdentifierInfo (PeekTok s) of
        None \<Rightarrow> failed (peek_loc s) err_pp_defined_requires_identifier s
      | Some II \<Rightarrow> defined_operand E ValueLive paren LParenLoc II s)"

definition eval_defined :: "'a pp_env \<Rightarrow> bool \<Rightarrow> pp_state \<Rightarrow> ('a \<times> tracker) parsed" where
  "eval_defined E ValueLive s = do {
     s1 \<leftarrow> LexUnexpandedToken s;
     if peek_kind s1 = tok_l_paren
     then do { s2 \<leftarrow> LexUnexpandedToken s1; defined_name E ValueLive True (peek_loc s1) s2 }
     else defined_name E ValueLive False 0 s1 }"

text \<open>The value of an accepted integer literal, and the diagnostics on it.\<close>

definition numeric_value :: "'a pp_env \<Rightarrow> bool \<Rightarrow> numeric_parser \<Rightarrow> ('a \<times> pp_diag list) option" where
  "numeric_value E ValueLive P =
     map_option (\<lambda>(v, overflow).
       if overflow
       then (aps_setIsUnsigned (env_S E) True v, if ValueLive then [warn_integer_too_large] else [])
       else
         let v1 = aps_setIsUnsigned (env_S E) (isUnsigned P) v
         in if \<not> isUnsigned P \<and> aps_isNegative (env_S E) v1
            then (aps_setIsUnsigned (env_S E) True v1,
                  if ValueLive \<and> radix P \<noteq> 16 then [warn_integer_too_large_for_signed] else [])
            else (v1, []))
       (GetIntegerValue (aps_int (env_S E)) (new_value E) P)"

definition eval_numeric :: "'a pp_env \<Rightarrow> bool \<Rightarrow> pp_state \<Rightarrow> ('a \<times> tracker) parsed" where
  "eval_numeric E ValueLive s = do {
     let loc = peek_loc s;
     Literal \<leftarrow> NumericLiteralParser (env_LO E) (tokSpelling (PeekTok s)) (tokNext (PeekTok s));
     let s1 = s\<lparr>pp_diagnostics := pp_diagnostics s @ map (\<lambda>(d, n). (literal_diag d, loc + n)) (num_diags Literal)\<rparr>;
     if hadError Literal then Some (Inl s1)
     else if isFloatingLiteral Literal \<or> isImaginary Literal then failed loc err_pp_illegal_floating_literal s1
     else do {
       let s2 = (if \<not> env_C99 E \<and> \<not> env_CPlusPlus0x E \<and> isLongLong Literal then PP_Diag loc [ext_longlong] s1 else s1);
       (v, ds) \<leftarrow> numeric_value E ValueLive Literal;
       s3 \<leftarrow> LexNonComment (PP_Diag loc ds s2);
       parsed_ok (v, Unknown) s3 } }"

definition char_value :: "'a pp_env \<Rightarrow> char_literal \<Rightarrow> 'a option" where
  "char_value E L =
     (let NumBits = getCharWidth (env_TI E) (char_IsWide L);
          v = aps_setIsUnsigned (env_S E) (\<not> isCharSigned (env_TI E))
                (ap_assign (aps_int (env_S E)) (aps_new (env_S E) NumBits) (ucast (char_Value L)))
      in if NumBits < getIntMaxTWidth E then Some (aps_extend (env_S E) (getIntMaxTWidth E) v)
         else if getIntMaxTWidth E = NumBits then Some v else None)"

definition eval_char :: "'a pp_env \<Rightarrow> pp_state \<Rightarrow> ('a \<times> tracker) parsed" where
  "eval_char E s = do {
     Literal \<leftarrow> CharLiteralParser (env_LO E) (env_TI E) (tokNext (PeekTok s)) (tokSpelling (PeekTok s));
     let s1 = PP_Diag (peek_loc s) (map char_diag (char_diags Literal)) s;
     if char_HadError Literal then Some (Inl s1)
     else do {
       v \<leftarrow> char_value E Literal;
       s2 \<leftarrow> LexNonComment s1;
       parsed_ok (v, Unknown) s2 } }"

text \<open>What the unary operators make of the value of their operand.\<close>

definition unary_minus :: "'a pp_env \<Rightarrow> bool \<Rightarrow> nat \<Rightarrow> 'a \<Rightarrow> pp_state \<Rightarrow> ('a \<times> tracker) parsed" where
  "unary_minus E ValueLive Loc v s =
     (let v1 = aps_neg (env_S E) v;
          Overflow = (\<not> aps_isUnsigned (env_S E) v1 \<and> aps_isMinSignedValue (env_S E) v1)
      in parsed_ok (v1, Unknown) (if Overflow \<and> ValueLive then PP_Diag Loc [warn_pp_expr_overflow] s else s))"

definition negate_tracker :: "tracker \<Rightarrow> tracker" where
  "negate_tracker DT = (case DT of DefinedMacro X \<Rightarrow> NotDefinedMacro X | NotDefinedMacro X \<Rightarrow> DefinedMacro X | Unknown \<Rightarrow> Unknown)"

definition unary_not :: "'a pp_env \<Rightarrow> 'a \<Rightarrow> tracker \<Rightarrow> pp_state \<Rightarrow> ('a \<times> tracker) parsed" where
  "unary_not E v DT s = parsed_ok (set_bool E (\<not> aps_nonzero (env_S E) v) v, negate_tracker DT) s"

section \<open>Binary operators\<close>

text \<open>\<open>~0U\<close>, for a token that is no operator.\<close>

definition not_an_operator :: int where
  "not_an_operator = 4294967295"

definition getPrecedence :: "tok_kind \<Rightarrow> int" where
  "getPrecedence k = (case k of
     tok_percent \<Rightarrow> 14 | tok_slash \<Rightarrow> 14 | tok_star \<Rightarrow> 14
   | tok_plus \<Rightarrow> 13 | tok_minus \<Rightarrow> 13
   | tok_lessless \<Rightarrow> 12 | tok_greatergreater \<Rightarrow> 12
   | tok_lessequal \<Rightarrow> 11 | tok_less \<Rightarrow> 11 | tok_greaterequal \<Rightarrow> 11 | tok_greater \<Rightarrow> 11
   | tok_exclaimequal \<Rightarrow> 10 | tok_equalequal \<Rightarrow> 10
   | tok_amp \<Rightarrow> 9 | tok_caret \<Rightarrow> 8 | tok_pipe \<Rightarrow> 7 | tok_ampamp \<Rightarrow> 6 | tok_pipepipe \<Rightarrow> 5
   | tok_question \<Rightarrow> 4 | tok_comma \<Rightarrow> 3 | tok_colon \<Rightarrow> 2
   | tok_r_paren \<Rightarrow> 0 | tok_eom \<Rightarrow> 0
   | _ \<Rightarrow> not_an_operator)"

definition rhs_is_live :: "'a pp_env \<Rightarrow> tok_kind \<Rightarrow> bool \<Rightarrow> 'a \<Rightarrow> bool" where
  "rhs_is_live E Operator ValueLive LHS =
     (if Operator = tok_ampamp \<and> \<not> aps_nonzero (env_S E) LHS then False
      else if Operator = tok_pipepipe \<and> aps_nonzero (env_S E) LHS then False
      else if Operator = tok_question \<and> \<not> aps_nonzero (env_S E) LHS then False
      else ValueLive)"

definition no_conversions :: "tok_kind \<Rightarrow> bool" where
  "no_conversions op \<longleftrightarrow> op = tok_question \<or> op = tok_lessless \<or> op = tok_greatergreater \<or> op = tok_comma \<or>
     op = tok_pipepipe \<or> op = tok_ampamp"

text \<open>The usual arithmetic conversions: the result to be assigned, the two operands, and the warnings.\<close>

definition arithmetic_conversions :: "'a pp_env \<Rightarrow> tok_kind \<Rightarrow> bool \<Rightarrow> 'a \<Rightarrow> 'a \<Rightarrow> 'a \<times> 'a \<times> 'a \<times> pp_diag list" where
  "arithmetic_conversions E op ValueLive L R =
     (if no_conversions op then (new_value E, L, R, [])
      else
        let u = (aps_isUnsigned (env_S E) L \<or> aps_isUnsigned (env_S E) R)
        in (aps_setIsUnsigned (env_S E) u (new_value E), aps_setIsUnsigned (env_S E) u L, aps_setIsUnsigned (env_S E) u R,
            if ValueLive \<and> u
            then (if \<not> aps_isUnsigned (env_S E) L \<and> aps_isNegative (env_S E) L then [warn_pp_convert_lhs_to_positive] else []) @
                 (if \<not> aps_isUnsigned (env_S E) R \<and> aps_isNegative (env_S E) R then [warn_pp_convert_rhs_to_positive] else [])
            else []))"

text \<open>The result of an operator: an error, or a value and whether it overflowed.\<close>

datatype 'a op_result =
  OpError pp_diag
| OpValue 'a bool

definition shift_amount :: "'a pp_env \<Rightarrow> 'a \<Rightarrow> nat" where
  "shift_amount E R = unat (ucast (aps_getLimitedValue (env_S E) R) :: u32)"

definition shift_left :: "'a pp_env \<Rightarrow> 'a \<Rightarrow> 'a \<Rightarrow> 'a op_result" where
  "shift_left E L R =
     (let S = env_S E; ShAmt = shift_amount E R
      in if aps_width S L \<le> ShAmt then OpValue (aps_shl S L (aps_width S L - 1)) True
         else OpValue (aps_shl S L ShAmt)
           (if aps_isUnsigned S L then aps_countLeadingZeros S L < ShAmt
            else if \<not> aps_isNegative S L then aps_countLeadingZeros S L \<le> ShAmt
            else aps_countLeadingOnes S L \<le> ShAmt))"

definition shift_right :: "'a pp_env \<Rightarrow> 'a \<Rightarrow> 'a \<Rightarrow> 'a op_result" where
  "shift_right E L R =
     (let S = env_S E; ShAmt = shift_amount E R
      in if aps_width S L \<le> ShAmt then OpValue (aps_shr S L (aps_width S L - 1)) True
         else OpValue (aps_shr S L ShAmt) False)"

definition addition :: "'a pp_env \<Rightarrow> 'a \<Rightarrow> 'a \<Rightarrow> 'a op_result" where
  "addition E L R =
     (let S = env_S E; Res = aps_add S L R
      in OpValue Res
           (if aps_isUnsigned S L then ap_ult (aps_int S) Res L
            else (\<not> aps_isNegative S L) = (\<not> aps_isNegative S R) \<and> (\<not> aps_isNegative S Res) \<noteq> (\<not> aps_isNegative S L)))"

definition subtraction :: "'a pp_env \<Rightarrow> 'a \<Rightarrow> 'a \<Rightarrow> 'a op_result" where
  "subtraction E L R =
     (let S = env_S E; Res = aps_sub S L R
      in OpValue Res
           (if aps_isUnsigned S L then ap_ult (aps_int S) L Res
            else (\<not> aps_isNegative S L) \<noteq> (\<not> aps_isNegative S R) \<and> (\<not> aps_isNegative S Res) \<noteq> (\<not> aps_isNegative S L)))"

definition multiplication :: "'a pp_env \<Rightarrow> 'a \<Rightarrow> 'a \<Rightarrow> 'a op_result" where
  "multiplication E L R =
     (let S = env_S E; Res = aps_mul S L R
      in OpValue Res
           (aps_nonzero S L \<and> aps_nonzero S R \<and>
            (\<not> aps_eq S (aps_div S Res R) L \<or> \<not> aps_eq S (aps_div S Res L) R)))"

definition division :: "'a pp_env \<Rightarrow> bool \<Rightarrow> 'a \<Rightarrow> 'a \<Rightarrow> 'a \<Rightarrow> 'a op_result" where
  "division E ValueLive Res L R =
     (let S = env_S E
      in if aps_nonzero S R
         then OpValue (aps_div S L R)
                (\<not> aps_isUnsigned S L \<and> aps_isMinSignedValue S L \<and> aps_isAllOnesValue S R)
         else if ValueLive then OpError err_pp_division_by_zero else OpValue Res False)"

definition remainder :: "'a pp_env \<Rightarrow> bool \<Rightarrow> 'a \<Rightarrow> 'a \<Rightarrow> 'a \<Rightarrow> 'a op_result" where
  "remainder E ValueLive Res L R =
     (let S = env_S E
      in if aps_nonzero S R then OpValue (aps_rem S L R) False
         else if ValueLive then OpError err_pp_remainder_by_zero else OpValue Res False)"

definition binary_operator :: "'a pp_env \<Rightarrow> tok_kind \<Rightarrow> bool \<Rightarrow> 'a \<Rightarrow> 'a \<Rightarrow> 'a \<Rightarrow> 'a op_result option" where
  "binary_operator E op ValueLive Res L R =
     (let S = env_S E; truth = (\<lambda>b. Some (OpValue (set_bool E b Res) False))
      in case op of
        tok_percent \<Rightarrow> Some (remainder E ValueLive Res L R)
      | tok_slash \<Rightarrow> Some (division E ValueLive Res L R)
      | tok_star \<Rightarrow> Some (multiplication E L R)
      | tok_lessless \<Rightarrow> Some (shift_left E L R)
      | tok_greatergreater \<Rightarrow> Some (shift_right E L R)
      | tok_plus \<Rightarrow> Some (addition E L R)
      | tok_minus \<Rightarrow> Some (subtraction E L R)
      | tok_lessequal \<Rightarrow> truth (aps_le S L R)
      | tok_less \<Rightarrow> truth (aps_lt S L R)
      | tok_greaterequal \<Rightarrow> truth (aps_le S R L)
      | tok_greater \<Rightarrow> truth (aps_lt S R L)
      | tok_exclaimequal \<Rightarrow> truth (\<not> aps_eq S L R)
      | tok_equalequal \<Rightarrow> truth (aps_eq S L R)
      | tok_amp \<Rightarrow> Some (OpValue (aps_and S L R) False)
      | tok_caret \<Rightarrow> Some (OpValue (aps_xor S L R) False)
      | tok_pipe \<Rightarrow> Some (OpValue (aps_or S L R) False)
      | tok_ampamp \<Rightarrow> truth (aps_nonzero S L \<and> aps_nonzero S R)
      | tok_pipepipe \<Rightarrow> truth (aps_nonzero S L \<or> aps_nonzero S R)
      | tok_comma \<Rightarrow> Some (OpValue R False)
      | tok_colon \<Rightarrow> Some (OpError err_pp_colon_without_question)
      | _ \<Rightarrow> None)"

text \<open>The part of the loop of \<^verbatim>\<open>EvaluateDirectiveSubExpr\<close> behind the two operands, for all operators but \<open>?\<close>.\<close>

definition apply_operator :: "'a pp_env \<Rightarrow> tok_kind \<Rightarrow> bool \<Rightarrow> nat \<Rightarrow> 'a \<Rightarrow> 'a \<Rightarrow> pp_state \<Rightarrow> 'a parsed" where
  "apply_operator E op ValueLive OpLoc LHS RHS s =
     (case arithmetic_conversions E op ValueLive LHS RHS of (Res, L, R, ds) \<Rightarrow>
        let s1 = PP_Diag OpLoc ds s
        in case binary_operator E op ValueLive Res L R of
             None \<Rightarrow> None
           | Some (OpError d) \<Rightarrow> failed OpLoc d s1
           | Some (OpValue v Overflow) \<Rightarrow>
               let s2 = (if op = tok_comma \<and> (\<not> env_C99 E \<or> ValueLive) then PP_Diag OpLoc [ext_pp_comma_expr] s1 else s1)
               in parsed_ok v (if Overflow \<and> ValueLive then PP_Diag OpLoc [warn_pp_expr_overflow] s2 else s2))"

definition conditional_value :: "'a pp_env \<Rightarrow> 'a \<Rightarrow> 'a \<Rightarrow> 'a \<Rightarrow> 'a" where
  "conditional_value E LHS RHS AfterColon =
     (let S = env_S E
      in aps_setIsUnsigned S (aps_isUnsigned S RHS \<or> aps_isUnsigned S AfterColon)
           (if aps_nonzero S LHS then RHS else AfterColon))"

section \<open>The evaluator\<close>

text \<open>
  \<^verbatim>\<open>EvaluateValue\<close>, \<^verbatim>\<open>EvaluateDirectiveSubExpr\<close>, its loop, and the part of the loop for
  \<open>?\<close> call each other. The body of each is a definition over the calls it makes (\<open>value\<close> for
  \<^verbatim>\<open>EvaluateValue\<close> and \<open>sub\<close> for \<^verbatim>\<open>EvaluateDirectiveSubExpr\<close>), and the recursion with
  its fuel ties them together. The token peeked at keeps its kind while an operator is applied, so the loop
  takes the precedence it goes on with from that token.
\<close>

type_synonym 'a value_call = "bool \<Rightarrow> pp_state \<Rightarrow> ('a \<times> tracker) parsed"
type_synonym 'a sub_call = "int \<Rightarrow> bool \<Rightarrow> 'a \<Rightarrow> pp_state \<Rightarrow> 'a parsed"

text \<open>A value in parentheses; \<open>Start\<close> is where the opening one was.\<close>

definition eval_paren :: "'a value_call \<Rightarrow> 'a sub_call \<Rightarrow> bool \<Rightarrow> pp_state \<Rightarrow> ('a \<times> tracker) parsed" where
  "eval_paren value sub ValueLive s = do {
     let Start = peek_loc s;
     s1 \<leftarrow> LexNonComment s;
     and_then (value ValueLive s1) (\<lambda>(v, DT) s2.
       and_then
         (if peek_kind s2 = tok_r_paren then parsed_ok (v, DT) s2
          else and_then (sub 1 ValueLive v s2) (\<lambda>v1 s3.
            if peek_kind s3 \<noteq> tok_r_paren
            then Some (Inl (PP_Diag Start [note_matching ''(''] (PP_Diag (peek_loc s3) [err_pp_expected_rparen] s3)))
            else parsed_ok (v1, Unknown) s3))
         (\<lambda>r s3. do { s4 \<leftarrow> LexNonComment s3; parsed_ok r s4 })) }"

text \<open>A unary operator: \<open>f\<close> is what it makes of the operand.\<close>

definition eval_unary :: "'a value_call \<Rightarrow> bool \<Rightarrow> ('a \<times> tracker \<Rightarrow> pp_state \<Rightarrow> ('a \<times> tracker) parsed) \<Rightarrow> pp_state \<Rightarrow>
    ('a \<times> tracker) parsed" where
  "eval_unary value ValueLive f s = do {
     s1 \<leftarrow> LexNonComment s;
     and_then (value ValueLive s1) f }"

definition value_body :: "'a pp_env \<Rightarrow> 'a value_call \<Rightarrow> 'a sub_call \<Rightarrow> bool \<Rightarrow> pp_state \<Rightarrow> ('a \<times> tracker) parsed" where
  "value_body E value sub ValueLive s =
     (case getIdentifierInfo (PeekTok s) of
        Some II \<Rightarrow>
          if getPPKeywordID (getName II) \<noteq> pp_defined then eval_identifier E ValueLive II s
          else eval_defined E ValueLive s
      | None \<Rightarrow>
          let k = peek_kind s; Loc = peek_loc s
          in if k = tok_eom \<or> k = tok_r_paren then failed Loc err_pp_expected_value_in_expr s
             else if k = tok_numeric_constant then eval_numeric E ValueLive s
             else if k = tok_char_constant then eval_char E s
             else if k = tok_l_paren then eval_paren value sub ValueLive s
             else if k = tok_plus then eval_unary value ValueLive parsed_ok s
             else if k = tok_minus then eval_unary value ValueLive (\<lambda>(v, DT). unary_minus E ValueLive Loc v) s
             else if k = tok_tilde then eval_unary value ValueLive (\<lambda>(v, DT). parsed_ok (aps_not (env_S E) v, Unknown)) s
             else if k = tok_exclaim then eval_unary value ValueLive (\<lambda>(v, DT). unary_not E v DT) s
             else failed Loc err_pp_expr_bad_token_start_expr s)"

text \<open>The part of the loop for \<open>?\<close>, with the condition and what stands behind it evaluated.\<close>

definition eval_conditional :: "'a pp_env \<Rightarrow> 'a value_call \<Rightarrow> 'a sub_call \<Rightarrow> int \<Rightarrow> bool \<Rightarrow> nat \<Rightarrow> 'a \<Rightarrow> 'a \<Rightarrow> pp_state \<Rightarrow>
    'a parsed" where
  "eval_conditional E value sub ThisPrec ValueLive OpLoc LHS RHS s =
     (if peek_kind s \<noteq> tok_colon
      then Some (Inl (PP_Diag OpLoc [note_matching ''?''] (PP_Diag (peek_loc s) [err_expected_colon] s)))
      else do {
        s1 \<leftarrow> LexNonComment s;
        let AfterColonLive = (ValueLive \<and> \<not> aps_nonzero (env_S E) LHS);
        and_then (value AfterColonLive s1) (\<lambda>(AfterColon, DT) s2.
          and_then (sub ThisPrec AfterColonLive AfterColon s2) (\<lambda>AfterColon1 s3.
            parsed_ok (conditional_value E LHS RHS AfterColon1) s3)) })"

text \<open>One round of the loop: the operator, its operand on the right, and the result, with what goes on after it.\<close>

definition loop_round :: "'a pp_env \<Rightarrow> 'a value_call \<Rightarrow> 'a sub_call \<Rightarrow> bool \<Rightarrow> int \<Rightarrow> 'a \<Rightarrow> pp_state \<Rightarrow> 'a parsed" where
  "loop_round E value sub ValueLive ThisPrec LHS s = do {
     let Operator = peek_kind s;
     let OpLoc = peek_loc s;
     let RHSIsLive = rhs_is_live E Operator ValueLive LHS;
     s1 \<leftarrow> LexNonComment s;
     and_then (value RHSIsLive s1) (\<lambda>(RHS, DT) s2.
       if getPrecedence (peek_kind s2) = not_an_operator
       then failed (peek_loc s2) err_pp_expr_bad_token_binop s2
       else
         let RHSPrec = (if Operator = tok_question then getPrecedence tok_comma else ThisPrec + 1)
         in and_then
              (if RHSPrec \<le> getPrecedence (peek_kind s2) then sub RHSPrec RHSIsLive RHS s2 else parsed_ok RHS s2)
              (\<lambda>RHS1 s3.
                if \<not> getPrecedence (peek_kind s3) \<le> ThisPrec then None
                else if Operator = tok_question then eval_conditional E value sub ThisPrec ValueLive OpLoc LHS RHS1 s3
                else apply_operator E Operator ValueLive OpLoc LHS RHS1 s3)) }"

fun EvaluateValue :: "nat \<Rightarrow> 'a pp_env \<Rightarrow> bool \<Rightarrow> pp_state \<Rightarrow> ('a \<times> tracker) parsed"
  and EvaluateDirectiveSubExpr :: "nat \<Rightarrow> 'a pp_env \<Rightarrow> int \<Rightarrow> bool \<Rightarrow> 'a \<Rightarrow> pp_state \<Rightarrow> 'a parsed"
  and sub_expr_loop :: "nat \<Rightarrow> 'a pp_env \<Rightarrow> int \<Rightarrow> bool \<Rightarrow> int \<Rightarrow> 'a \<Rightarrow> pp_state \<Rightarrow> 'a parsed" where
  "EvaluateValue 0 E ValueLive s = None"
| "EvaluateValue (Suc n) E ValueLive s =
     value_body E (\<lambda>live. EvaluateValue n E live) (\<lambda>MinPrec live. EvaluateDirectiveSubExpr n E MinPrec live) ValueLive s"
| "EvaluateDirectiveSubExpr 0 E MinPrec ValueLive LHS s = None"
| "EvaluateDirectiveSubExpr (Suc n) E MinPrec ValueLive LHS s =
     (let PeekPrec = getPrecedence (peek_kind s)
      in if PeekPrec = not_an_operator then failed (peek_loc s) err_pp_expr_bad_token_binop s
         else sub_expr_loop n E MinPrec ValueLive PeekPrec LHS s)"
| "sub_expr_loop 0 E MinPrec ValueLive PeekPrec LHS s = None"
| "sub_expr_loop (Suc n) E MinPrec ValueLive PeekPrec LHS s =
     (if PeekPrec < MinPrec then parsed_ok LHS s
      else and_then
        (loop_round E (\<lambda>live. EvaluateValue n E live) (\<lambda>MinPrec live. EvaluateDirectiveSubExpr n E MinPrec live)
           ValueLive PeekPrec LHS s)
        (\<lambda>Res s1. sub_expr_loop n E MinPrec ValueLive (getPrecedence (peek_kind s1)) Res s1))"

text \<open>
  The result: the truth of the expression, the macro of \<^verbatim>\<open>IfNDefMacro\<close> when it is set, and the state
  with the line consumed.
\<close>

definition discard_line :: "pp_state \<Rightarrow> pp_state option" where
  "discard_line s = map_option (\<lambda>r. s\<lparr>pp_items := r\<rparr>) (discard_until_eom (pp_items s))"

definition skip_rest :: "pp_state \<Rightarrow> pp_state option" where
  "skip_rest s = (if peek_kind s \<noteq> tok_eom then discard_line s else Some s)"

definition EvaluateDirectiveExpression :: "nat \<Rightarrow> 'a pp_env \<Rightarrow> pp_state \<Rightarrow> (bool \<times> string option \<times> pp_state) option" where
  "EvaluateDirectiveExpression n E s = do {
     s1 \<leftarrow> PP_Lex s;
     r \<leftarrow> EvaluateValue n E True s1;
     case r of
       Inl s2 \<Rightarrow> do { s3 \<leftarrow> skip_rest s2; Some (False, None, s3) }
     | Inr ((v, DT), s2) \<Rightarrow>
         if peek_kind s2 = tok_eom
         then Some (aps_nonzero (env_S E) v, case DT of NotDefinedMacro X \<Rightarrow> Some X | _ \<Rightarrow> None, s2)
         else do {
           r2 \<leftarrow> EvaluateDirectiveSubExpr n E (getPrecedence tok_question) True v s2;
           case r2 of
             Inl s3 \<Rightarrow> do { s4 \<leftarrow> skip_rest s3; Some (False, None, s4) }
           | Inr (v1, s3) \<Rightarrow> do {
               s4 \<leftarrow> (if peek_kind s3 \<noteq> tok_eom then discard_line (PP_Diag (peek_loc s3) [err_pp_expected_eol] s3)
                      else Some s3);
               Some (aps_nonzero (env_S E) v1, None, s4) } } }"

end
