(* ===== verification/PPExpressionsTotal.thy ===== *)
theory PPExpressionsTotal
  imports PPExpressions
begin

text \<open>
  The evaluator of \<^verbatim>\<open>PPExpressions.cpp\<close> returns on every line and reads nothing behind its end:
  precedences, character literals as the lexer makes them, and the calls one inside the other, each on a
  shorter line.
\<close>

lemma and_then_simps [simp]:
  "and_then (parsed_ok v s) f = f v s" "and_then (Some (Inl s)) f = Some (Inl s)"
  "and_then (Some (Inr (v, s))) f = f v s" "and_then None f = None"
  by (simp_all add: and_then_def parsed_ok_def)

lemma PP_Diag_simps [simp]:
  "PeekTok (PP_Diag loc ds s) = PeekTok s" "pp_items (PP_Diag loc ds s) = pp_items s"
  "pp_used (PP_Diag loc ds s) = pp_used s"
  by (simp_all add: PP_Diag_def)

section \<open>Precedences\<close>

lemma getPrecedence_range:
  "getPrecedence k = not_an_operator \<or> 0 \<le> getPrecedence k \<and> getPrecedence k \<le> 14"
  by (cases k) (simp_all add: getPrecedence_def)

lemma getPrecedence_simps [simp]: "getPrecedence tok_eom = 0" "getPrecedence tok_r_paren = 0"
  "getPrecedence tok_comma = 3" "getPrecedence tok_question = 4" "getPrecedence tok_colon = 2"
  by (simp_all add: getPrecedence_def)

lemma binary_operator_total:
  assumes "getPrecedence op \<noteq> not_an_operator" "1 \<le> getPrecedence op" "op \<noteq> tok_question"
  shows "\<exists>r. binary_operator E op live Res L R = Some r"
  using assms by (cases op) (simp_all add: getPrecedence_def binary_operator_def Let_def)

section \<open>Character literals\<close>

lemma hex_escape_append:
  "\<not> isxdigit q \<Longrightarrow> hex_escape ov v (s @ q # t) = (case hex_escape ov v s of (ov', v', s') \<Rightarrow> (ov', v', s' @ q # t))"
  by (induction ov v s rule: hex_escape.induct) (auto simp: Let_def HexDigitValue_invalid)

lemma octal_escape_append:
  "\<not> isoctal q \<Longrightarrow> octal_escape n v (s @ q # t) = (case octal_escape n v s of (v', s') \<Rightarrow> (v', s' @ q # t))"
  by (induction n v s rule: octal_escape.induct) (auto simp: octal_escape.simps)

lemma body_ok_snoc: "body_ok s \<Longrightarrow> q \<noteq> CHR 0x5C \<Longrightarrow> body_ok (s @ [q])"
  by (induction s rule: body_ok.induct) (auto split: list.splits)

lemma ProcessCharEscape_quoted:
  assumes "body_ok (CHR 0x5C # r)"
  shows "\<exists>v s' err ds. ProcessCharEscape LO TI w e (CHR 0x5C # r @ [CHR 0x27]) = Some (v, s' @ [CHR 0x27], err, ds) \<and>
    body_ok s' \<and> length s' < Suc (length r)"
proof -
  obtain c r' where r: "r = c # r'" "body_ok r'" using assms by (cases r) auto
  have q: "\<not> isxdigit (CHR 0x27)" "\<not> isoctal (CHR 0x27)" by (simp_all add: char_class_defs)
  obtain ov v h where hex: "hex_escape False 0 r' = (ov, v, h)" by (cases "hex_escape False 0 r'")
  obtain v' h' where oct: "octal_escape 3 0 (c # r') = (v', h')" by (cases "octal_escape 3 0 (c # r')")
  have H: "body_ok h" "length h \<le> length r'" using body_ok_hex [OF r(2) hex] hex_escape_length [OF hex] by auto
  have O: "body_ok h' \<and> length h' \<le> length r'" if "isoctal c"
  proof -
    have "body_ok (c # r')" using r(2) that by (auto simp: isoctal_def)
    then have "body_ok h'" by (rule body_ok_octal [OF _ oct])
    then show ?thesis using octal_escape_first [OF that oct [unfolded numeral_3_eq_3]] by simp
  qed
  have hex': "hex_escape False 0 (r' @ [CHR 0x27]) = (ov, v, h @ [CHR 0x27])"
    using hex_escape_append [OF q(1), of False 0 r' "[]"] hex by simp
  have oct': "octal_escape 3 0 (c # r' @ [CHR 0x27]) = (v', h' @ [CHR 0x27])"
    using octal_escape_append [OF q(2), of 3 0 "c # r'" "[]"] oct by simp
  show ?thesis
    using H O r unfolding r(1) ProcessCharEscape_def append_Cons list.case hex' oct'
    by (auto split: option.split)
qed

lemma char_loop_total:
  "body_ok s \<Longrightarrow> \<exists>r. char_loop LO TI w e (s @ [CHR 0x27]) first multi v err diags = Some r"
proof (induction s arbitrary: first multi v err diags rule: length_induct)
  case (1 s)
  show ?case
  proof (cases s)
    case Nil
    then show ?thesis by (simp add: char_loop.simps)
  next
    case (Cons c r)
    show ?thesis
    proof (cases "c = CHR 0x5C")
      case True
      then have b: "body_ok (CHR 0x5C # r)" using 1 Cons by simp
      obtain v1 s' err1 ds where P: "ProcessCharEscape LO TI w e (CHR 0x5C # r @ [CHR 0x27]) = Some (v1, s' @ [CHR 0x27], err1, ds)"
        "body_ok s'" "length s' < Suc (length r)" using ProcessCharEscape_quoted [OF b] by blast
      then show ?thesis using 1(1) Cons True by (subst char_loop.simps) (simp add: Let_def)
    next
      case False
      then show ?thesis using 1 Cons by (subst char_loop.simps) (auto simp: Let_def)
    qed
  qed
qed

definition char_token_ok :: "string \<Rightarrow> bool" where
  "char_token_ok sp \<longleftrightarrow> (\<exists>wide body. sp = (if wide then ''L'' else []) @ CHR 0x27 # body @ [CHR 0x27] \<and> body_ok body)"

lemma CharLiteralParser_total:
  assumes "char_token_ok sp" "IntWidth TI = 32" "WCharWidth TI = 32"
  shows "\<exists>L. CharLiteralParser LO TI e sp = Some L"
proof -
  obtain wide body where sp: "sp = (if wide then ''L'' else []) @ CHR 0x27 # body @ [CHR 0x27]" and b: "body_ok body"
    using assms(1) by (auto simp: char_token_ok_def)
  obtain v m err ds where "char_loop LO TI wide e (body @ [CHR 0x27]) True False 0 False [] = Some (v, m, err, ds)"
    using char_loop_total [OF b, of LO TI wide e True False 0 False "[]"] by auto
  then show ?thesis using assms(2,3) by (cases wide) (auto simp: CharLiteralParser_def sp Let_def)
qed

section \<open>Reading inside the line\<close>

definition env_ok :: "'a pp_env \<Rightarrow> ('a \<Rightarrow> aps_view) \<Rightarrow> bool" where
  "env_ok E view \<longleftrightarrow> apsint (env_S E) view \<and> 32 \<le> getIntMaxTWidth E \<and> IntWidth (env_TI E) = 32 \<and> WCharWidth (env_TI E) = 32"

text \<open>Literals are as the lexer makes them.\<close>

definition lexed_token :: "token \<Rightarrow> bool" where
  "lexed_token t \<longleftrightarrow>
     (getKind t = tok_numeric_constant \<longrightarrow>
        \<not> isalnum (tokNext t) \<and> tokNext t \<noteq> CHR ''.'' \<and> tokNext t \<noteq> CHR ''_'' \<and> sign_behind_ok (tokSpelling t) (tokNext t)) \<and>
     (getKind t = tok_char_constant \<longrightarrow> char_token_ok (tokSpelling t))"

definition at_line :: "pp_item list \<Rightarrow> nat \<Rightarrow> pp_state \<Rightarrow> bool" where
  "at_line rest n s \<longleftrightarrow> read_inside lexed_token rest n (PeekTok s, pp_items s)"

text \<open>The call returns inside the line, and behind its start when it succeeds.\<close>

definition goes_on :: "pp_item list \<Rightarrow> nat \<Rightarrow> 'v parsed \<Rightarrow> bool" where
  "goes_on rest n p = (case p of None \<Rightarrow> False | Some (Inl s) \<Rightarrow> (\<exists>m. at_line rest m s) | Some (Inr (v, s)) \<Rightarrow> (\<exists>m < n. at_line rest m s))"

lemma at_line_Diag [simp]: "at_line rest n (PP_Diag loc ds s) = at_line rest n s"
  by (simp add: at_line_def)

lemma at_line_updates [simp]: "at_line rest n (s\<lparr>pp_diagnostics := ds\<rparr>) = at_line rest n s"
  "at_line rest n (s\<lparr>pp_used := us\<rparr>) = at_line rest n s"
  by (simp_all add: at_line_def)

lemma at_line_mono: "at_line rest m s \<Longrightarrow> m \<le> n \<Longrightarrow> at_line rest n s"
  unfolding at_line_def by (rule read_inside_mono)

lemma goes_on_failed [simp]: "at_line rest n s \<Longrightarrow> goes_on rest k (failed loc d s)"
  by (auto simp: goes_on_def failed_def)

lemma goes_on_Inl [simp]: "at_line rest n s \<Longrightarrow> goes_on rest k (Some (Inl s))"
  by (auto simp: goes_on_def)

lemma goes_on_ok [intro]: "at_line rest m s \<Longrightarrow> m < k \<Longrightarrow> goes_on rest k (parsed_ok v s)"
  by (auto simp: goes_on_def parsed_ok_def)

lemma goes_on_mono: "goes_on rest m p \<Longrightarrow> m \<le> n \<Longrightarrow> goes_on rest n p"
  by (auto simp: goes_on_def split: option.splits sum.splits dest: less_le_trans)

lemma goes_on_and_then:
  assumes "goes_on rest n p" "\<And>v s m. m < n \<Longrightarrow> at_line rest m s \<Longrightarrow> goes_on rest k (f v s)"
  shows "goes_on rest k (and_then p f)"
  using assms by (auto simp: goes_on_def [of rest n p] and_then_def split: option.splits sum.splits)

lemma goes_on_read:
  assumes f: "\<And>items n. line_ahead lexed_token rest n items \<Longrightarrow> \<exists>p. f items = Some p \<and> read_inside lexed_token rest n p"
    and "at_line rest n s" "peek_kind s \<noteq> tok_eom"
    and "\<And>s' m. m < n \<Longrightarrow> at_line rest m s' \<Longrightarrow> goes_on rest k (g s')"
  shows "goes_on rest k (Option.bind (read_token f s) g)"
proof -
  obtain m where m: "m < n" "line_ahead lexed_token rest m (pp_items s)"
    using assms(2,3) by (auto simp: at_line_def read_inside_def)
  obtain t r where p: "f (pp_items s) = Some (t, r)" "read_inside lexed_token rest m (t, r)" using f [OF m(2)] by auto
  then have "at_line rest m (s\<lparr>pp_items := r, PeekTok := t\<rparr>)" by (simp add: at_line_def)
  then show ?thesis using assms(4) [OF m(1)] p(1) by (simp add: read_token_def)
qed

lemma goes_on_lex:
  assumes "at_line rest n s" "peek_kind s \<noteq> tok_eom" "\<And>s' m. m < n \<Longrightarrow> at_line rest m s' \<Longrightarrow> goes_on rest k (g s')"
  shows "goes_on rest k (Option.bind (LexNonComment s) g)" "goes_on rest k (Option.bind (LexUnexpandedToken s) g)"
  unfolding LexNonComment_def LexUnexpandedToken_def
  using goes_on_read [OF lex_non_comment_inside assms] goes_on_read [OF lex_unexpanded_inside assms] by auto

section \<open>The parts that read no operand\<close>

lemma eval_identifier_goes_on:
  "at_line rest n s \<Longrightarrow> peek_kind s \<noteq> tok_eom \<Longrightarrow> goes_on rest n (eval_identifier E live II s)"
  unfolding eval_identifier_def Let_def by (rule goes_on_lex(1) [where n = n]) auto

lemma identifier_not_eom: "at_line rest n s \<Longrightarrow> getIdentifierInfo (PeekTok s) = Some II \<Longrightarrow> peek_kind s \<noteq> tok_eom"
  by (auto simp: at_line_def read_inside_def is_eom_def getIdentifierInfo_def split: if_splits)

lemma defined_operand_goes_on:
  assumes "at_line rest n s" "peek_kind s \<noteq> tok_eom"
  shows "goes_on rest n (defined_operand E live paren loc II s)"
  unfolding defined_operand_def Let_def
proof (rule goes_on_lex(1) [where n = n])
  fix s2 m assume s2: "m < n" "at_line rest m s2"
  then show "goes_on rest n (if \<not> paren then parsed_ok (set_bool E (hasMacroDefinition II) (new_value E), DefinedMacro (getName II)) s2
      else if peek_kind s2 \<noteq> tok_r_paren
      then Some (Inl (PP_Diag loc [note_matching ''(''] (PP_Diag (peek_loc s2) [err_pp_missing_rparen] s2)))
      else LexNonComment s2 \<bind> parsed_ok (set_bool E (hasMacroDefinition II) (new_value E), DefinedMacro (getName II)))"
    by (auto intro!: goes_on_lex(1) [OF s2(2)])
qed (use assms in auto)

lemma defined_name_goes_on: "at_line rest m s \<Longrightarrow> m \<le> n \<Longrightarrow> goes_on rest n (defined_name E live paren loc s)"
  using defined_operand_goes_on [THEN goes_on_mono] identifier_not_eom
  by (fastforce simp: defined_name_def split: option.splits)

lemma eval_defined_goes_on:
  assumes "at_line rest n s" "peek_kind s \<noteq> tok_eom"
  shows "goes_on rest n (eval_defined E live s)"
  unfolding eval_defined_def
proof (rule goes_on_lex(2) [OF assms])
  fix s1 m assume s1: "m < n" "at_line rest m s1"
  then show "goes_on rest n (if peek_kind s1 = tok_l_paren then LexUnexpandedToken s1 \<bind> defined_name E live True (peek_loc s1)
      else defined_name E live False 0 s1)"
    by (auto intro!: goes_on_lex(2) [OF s1(2)] defined_name_goes_on)
qed
lemma new_value_view: "env_ok E view \<Longrightarrow> view (new_value E) = (getIntMaxTWidth E, True, 0)"
  unfolding new_value_def env_ok_def by (intro apsint.aps_new) auto

lemma GetIntegerValue_new:
  assumes "env_ok E view" "NumericLiteralParser LO tok e = Some P" "\<not> hadError P" "isIntegerLiteral P"
  shows "\<exists>v. GetIntegerValue (aps_int (env_S E)) (new_value E) P =
      Some (v, 2 ^ getIntMaxTWidth E \<le> digits_value (radix P) 0 (literal_digits P)) \<and>
    fst (view v) = getIntMaxTWidth E \<and>
    view_bits (view v) = digits_value (radix P) 0 (literal_digits P) mod 2 ^ getIntMaxTWidth E"
proof -
  have S: "apsint (env_S E) view" and w: "32 \<le> getIntMaxTWidth E" using assms(1) by (simp_all add: env_ok_def)
  have r: "radix P \<in> {2, 8, 10, 16}" using NumericLiteralParser_digits [OF assms(2-4)] by blast
  have "(16 :: nat) < 2 ^ 5" by simp
  also have "(2 :: nat) ^ 5 \<le> 2 ^ getIntMaxTWidth E" using w by (intro power_increasing) auto
  finally have "0 < radix P" "radix P < 2 ^ fst (view (new_value E))" using r new_value_view [OF assms(1)] by auto
  then show ?thesis
    using apint.GetIntegerValue_ok [OF apsint.axioms(1) [OF S] NumericLiteralParser_digits_ok [OF assms(2-4)],
        of "new_value E"] new_value_view [OF assms(1)] by simp
qed

lemma eval_numeric_goes_on:
  assumes "env_ok E view" "at_line rest n s" "peek_kind s = tok_numeric_constant"
  shows "goes_on rest n (eval_numeric E live s)"
proof -
  have l: "lexed_token (PeekTok s)" using assms(2,3) by (auto simp: at_line_def read_inside_def)
  then obtain P where P: "NumericLiteralParser (env_LO E) (tokSpelling (PeekTok s)) (tokNext (PeekTok s)) = Some P"
    using NumericLiteralParser_total assms(3) unfolding lexed_token_def by blast
  show ?thesis
  proof (cases "hadError P \<or> \<not> isIntegerLiteral P \<or> isImaginary P")
    case True
    then show ?thesis using P assms(2) by (auto simp: eval_numeric_def Let_def isIntegerLiteral_def isFloatingLiteral_def)
  next
    case False
    then obtain v ov where "GetIntegerValue (aps_int (env_S E)) (new_value E) P = Some (v, ov)"
      using GetIntegerValue_new [OF assms(1) P] by blast
    then obtain v' ds where "numeric_value E live P = Some (v', ds)"
      by (cases "numeric_value E live P") (auto simp: numeric_value_def)
    then show ?thesis using P False assms(2,3)
      by (auto simp: eval_numeric_def Let_def isIntegerLiteral_def isFloatingLiteral_def intro!: goes_on_lex(1) [where n = n])
  qed
qed

lemma eval_char_goes_on:
  assumes "env_ok E view" "at_line rest n s" "peek_kind s = tok_char_constant"
  shows "goes_on rest n (eval_char E s)"
proof -
  have l: "lexed_token (PeekTok s)" using assms(2,3) by (auto simp: at_line_def read_inside_def)
  then obtain L where L: "CharLiteralParser (env_LO E) (env_TI E) (tokNext (PeekTok s)) (tokSpelling (PeekTok s)) = Some L"
    using CharLiteralParser_total assms(1,3) unfolding lexed_token_def env_ok_def by blast
  have "getCharWidth (env_TI E) (char_IsWide L) \<le> getIntMaxTWidth E"
    using assms(1) by (simp add: env_ok_def getCharWidth_def)
  then obtain v where "char_value E L = Some v" by (fastforce simp: char_value_def Let_def)
  then show ?thesis using L assms(2,3)
    by (auto simp: eval_char_def Let_def intro!: goes_on_lex(1) [where n = n])
qed

section \<open>The evaluator stays inside the line and returns\<close>

text \<open>A call with \<open>MinPrec\<close> that succeeds stops in front of an operator of lower precedence.\<close>

lemma sub_expr_loop_stops:
  "sub_expr_loop N E MinPrec live (getPrecedence (peek_kind s)) v s = Some (Inr (v', s')) \<Longrightarrow>
    getPrecedence (peek_kind s') < MinPrec"
proof (induction N arbitrary: v s)
  case (Suc N)
  show ?case
  proof (cases "getPrecedence (peek_kind s) < MinPrec")
    case True
    then show ?thesis using Suc.prems by (simp add: parsed_ok_def)
  next
    case False
    then show ?thesis using Suc.prems Suc.IH
      by (simp add: and_then_def split: option.splits sum.splits prod.splits)
  qed
qed simp

lemma EvaluateDirectiveSubExpr_stops:
  "EvaluateDirectiveSubExpr N E MinPrec live v s = Some (Inr (v', s')) \<Longrightarrow> getPrecedence (peek_kind s') < MinPrec"
  by (cases N) (auto simp: Let_def failed_def dest: sub_expr_loop_stops split: if_split_asm)

definition sub_stops :: "'a sub_call \<Rightarrow> bool" where
  "sub_stops sub \<longleftrightarrow> (\<forall>MinPrec live v s v' s'. sub MinPrec live v s = Some (Inr (v', s')) \<longrightarrow> getPrecedence (peek_kind s') < MinPrec)"

text \<open>What the recursive calls are known to do on the lines shorter than \<open>n\<close>.\<close>

definition calls_ok :: "pp_item list \<Rightarrow> nat \<Rightarrow> 'a value_call \<Rightarrow> 'a sub_call \<Rightarrow> bool" where
  "calls_ok rest n value sub \<longleftrightarrow>
     (\<forall>m < n. \<forall>live s. at_line rest m s \<longrightarrow> goes_on rest m (value live s)) \<and>
     (\<forall>m < n. \<forall>MinPrec live v s. at_line rest m s \<longrightarrow> 1 \<le> MinPrec \<longrightarrow> goes_on rest (Suc m) (sub MinPrec live v s)) \<and>
     sub_stops sub"

lemma eval_unary_goes_on:
  assumes "calls_ok rest n value sub" "at_line rest n s" "peek_kind s \<noteq> tok_eom"
    "\<And>r s1 m. m < n \<Longrightarrow> at_line rest m s1 \<Longrightarrow> goes_on rest n (f r s1)"
  shows "goes_on rest n (eval_unary value live f s)"
  unfolding eval_unary_def
proof (rule goes_on_lex(1) [OF assms(2,3)])
  fix s1 m assume m: "m < n" "at_line rest m s1"
  show "goes_on rest n (and_then (value live s1) f)"
  proof (rule goes_on_and_then [of rest m])
    show "goes_on rest m (value live s1)" using assms(1) m by (simp add: calls_ok_def)
    show "goes_on rest n (f v s2)" if "m2 < m" "at_line rest m2 s2" for v s2 m2
      using assms(4) that m by (meson less_trans)
  qed
qed

lemma and_then_assoc: "and_then (and_then p f) g = and_then p (\<lambda>v s. and_then (f v s) g)"
  by (auto simp: and_then_def split: option.splits sum.splits)

lemma eval_paren_goes_on:
  assumes "calls_ok rest n (value :: 'a value_call) sub" "at_line rest n s" "peek_kind s \<noteq> tok_eom"
  shows "goes_on rest n (eval_paren value sub live s)"
proof -
  have close: "goes_on rest n (LexNonComment s3 \<bind> parsed_ok r)"
    if "at_line rest m s3" "m < n" "peek_kind s3 = tok_r_paren" for r :: "'a \<times> tracker" and s3 m
    using that by (intro goes_on_lex(1) [where n = m]) auto
  have inner: "goes_on rest n (and_then
         (if peek_kind s2 = tok_r_paren then parsed_ok (v, DT) s2
          else and_then (sub 1 live v s2) (\<lambda>v1 s3.
            if peek_kind s3 \<noteq> tok_r_paren
            then Some (Inl (PP_Diag Start [note_matching ''(''] (PP_Diag (peek_loc s3) [err_pp_expected_rparen] s3)))
            else parsed_ok (v1, Unknown) s3))
         (\<lambda>r s3. LexNonComment s3 \<bind> parsed_ok r))"
    if s2: "at_line rest m s2" "m < n" for s2 m v DT Start
  proof (cases "peek_kind s2 = tok_r_paren")
    case True
    then show ?thesis using close [OF s2] by simp
  next
    case False
    have sub: "goes_on rest (Suc m) (sub 1 live v s2)" using assms(1) s2 by (auto simp: calls_ok_def)
    show ?thesis unfolding and_then_assoc if_not_P [OF False]
    proof (rule goes_on_and_then [OF sub])
      fix v1 :: 'a and s3 m3 assume "m3 < Suc m" "at_line rest m3 s3"
      then show "goes_on rest n (and_then (if peek_kind s3 \<noteq> tok_r_paren
            then Some (Inl (PP_Diag Start [note_matching ''(''] (PP_Diag (peek_loc s3) [err_pp_expected_rparen] s3)))
            else parsed_ok (v1, Unknown) s3) (\<lambda>r s3. LexNonComment s3 \<bind> parsed_ok r))"
        using close [of m3 s3 "(v1, Unknown)"] s2(2) by simp
    qed
  qed
  show ?thesis unfolding eval_paren_def Let_def
  proof (rule goes_on_lex(1) [OF assms(2,3)])
    fix s1 m assume m: "m < n" "at_line rest m s1"
    then have "goes_on rest m (value live s1)" using assms(1) by (simp add: calls_ok_def)
    then show "goes_on rest n (and_then (value live s1) (\<lambda>(v, DT) s2. and_then
         (if peek_kind s2 = tok_r_paren then parsed_ok (v, DT) s2
          else and_then (sub 1 live v s2) (\<lambda>v1 s3.
            if peek_kind s3 \<noteq> tok_r_paren
            then Some (Inl (PP_Diag (peek_loc s) [note_matching ''(''] (PP_Diag (peek_loc s3) [err_pp_expected_rparen] s3)))
            else parsed_ok (v1, Unknown) s3))
         (\<lambda>r s3. LexNonComment s3 \<bind> parsed_ok r)))"
      by (rule goes_on_and_then) (use inner m in \<open>auto\<close>)
  qed
qed

lemma unary_goes_on:
  "at_line rest m s \<Longrightarrow> m < n \<Longrightarrow> goes_on rest n (unary_minus E live loc v s)"
  "at_line rest m s \<Longrightarrow> m < n \<Longrightarrow> goes_on rest n (unary_not E v DT s)"
  unfolding unary_minus_def unary_not_def Let_def by (rule goes_on_ok; simp)+

lemma value_body_goes_on:
  assumes "env_ok E view" "calls_ok rest n value sub" "at_line rest n s"
  shows "goes_on rest n (value_body E value sub live s)"
proof (cases "getIdentifierInfo (PeekTok s)")
  case (Some II)
  then show ?thesis
    using identifier_not_eom [OF assms(3) Some]
    by (simp add: value_body_def eval_identifier_goes_on [OF assms(3)] eval_defined_goes_on [OF assms(3)])
next
  case None
  note unary = eval_unary_goes_on [OF assms(2,3)]
  show ?thesis unfolding value_body_def None option.case Let_def
    using assms(3) eval_numeric_goes_on [OF assms(1,3)] eval_char_goes_on [OF assms(1,3)]
      eval_paren_goes_on [OF assms(2,3)]
    by (auto intro!: unary unary_goes_on)
qed

lemma apply_operator_goes_on:
  assumes "at_line rest n s" "n < k" "getPrecedence op \<noteq> not_an_operator" "1 \<le> getPrecedence op" "op \<noteq> tok_question"
  shows "goes_on rest k (apply_operator E op live OpLoc LHS RHS s)"
proof -
  obtain Res L R ds where c: "arithmetic_conversions E op live LHS RHS = (Res, L, R, ds)"
    by (cases "arithmetic_conversions E op live LHS RHS")
  obtain r where r: "binary_operator E op live Res L R = Some r"
    using binary_operator_total [OF assms(3-5), of E live Res L R] by blast
  show ?thesis
    using assms(1,2) by (cases r) (auto simp: apply_operator_def c r Let_def)
qed

lemma eval_conditional_goes_on:
  assumes "calls_ok rest n value sub" "at_line rest m s" "m < n" "1 \<le> ThisPrec"
  shows "goes_on rest n (eval_conditional E value sub ThisPrec live OpLoc LHS RHS s)"
proof (cases "peek_kind s = tok_colon")
  case False
  then show ?thesis using assms(2) by (auto simp: eval_conditional_def)
next
  case True
  let ?live = "live \<and> \<not> aps_nonzero (env_S E) LHS"
  have sub: "goes_on rest n (and_then (sub ThisPrec ?live A s2) (\<lambda>A1 s3. parsed_ok (conditional_value E LHS RHS A1) s3))"
    if "k < n" "at_line rest k s2" for k s2 A
    using assms(1,4) that
    by (intro goes_on_and_then [where n = "Suc k"]) (auto simp: calls_ok_def)
  show ?thesis unfolding eval_conditional_def Let_def
  proof (subst if_not_P, use True in simp, rule goes_on_lex(1) [OF assms(2)])
    fix s1 k assume k: "k < m" "at_line rest k s1"
    then have "goes_on rest k (value ?live s1)" using assms(1,3) by (simp add: calls_ok_def)
    then show "goes_on rest n (and_then (value ?live s1) (\<lambda>(A, DT) s2.
        and_then (sub ThisPrec ?live A s2) (\<lambda>A1 s3. parsed_ok (conditional_value E LHS RHS A1) s3)))"
    proof (rule goes_on_and_then, goal_cases)
      case (1 r s2 k2)
      then show ?case using sub [of k2 s2 "fst r"] k assms(3) by (simp add: case_prod_beta)
    qed
  qed (use True in simp)
qed

lemma loop_round_goes_on:
  assumes "calls_ok rest n value sub" "at_line rest n s" "getPrecedence (peek_kind s) \<noteq> not_an_operator"
    "1 \<le> getPrecedence (peek_kind s)"
  shows "goes_on rest n (loop_round E value sub live (getPrecedence (peek_kind s)) LHS s)"
proof -
  let ?prec = "getPrecedence (peek_kind s)" and ?live = "rhs_is_live E (peek_kind s) live LHS"
  let ?RHSPrec = "if peek_kind s = tok_question then getPrecedence tok_comma else ?prec + 1"
  let ?finish = "\<lambda>R s3. if \<not> getPrecedence (peek_kind s3) \<le> ?prec then None
    else if peek_kind s = tok_question then eval_conditional E value sub ?prec live (peek_loc s) LHS R s3
    else apply_operator E (peek_kind s) live (peek_loc s) LHS R s3"
  have finish: "goes_on rest n (?finish R s3)"
    if "at_line rest m s3" "m < n" "getPrecedence (peek_kind s3) \<le> ?prec" for R s3 m
  proof (cases "peek_kind s = tok_question")
    case True
    show ?thesis unfolding if_not_P [OF iffD2 [OF not_not that(3)]] if_P [OF True]
      by (rule eval_conditional_goes_on [OF assms(1) that(1,2) assms(4)])
  next
    case False
    then show ?thesis using that(3) apply_operator_goes_on [OF that(1,2) assms(3,4) False] by simp
  qed
  have prec: "?RHSPrec - 1 \<le> ?prec" "1 \<le> ?RHSPrec" using assms(4) by auto
  have rhs: "goes_on rest n (and_then (if ?RHSPrec \<le> getPrecedence (peek_kind s2) then sub ?RHSPrec ?live R s2 else parsed_ok R s2) ?finish)"
    if s2: "at_line rest m s2" "m < n" for R s2 m
  proof (cases "?RHSPrec \<le> getPrecedence (peek_kind s2)")
    case False
    then show ?thesis using finish [OF s2, of R] prec(1) by simp
  next
    case True
    have g: "goes_on rest (Suc m) (sub ?RHSPrec ?live R s2)"
      and post: "\<And>v' s'. sub ?RHSPrec ?live R s2 = Some (Inr (v', s')) \<Longrightarrow> getPrecedence (peek_kind s') < ?RHSPrec"
      using assms(1) s2 prec(2) by (auto simp: calls_ok_def sub_stops_def)
    show ?thesis
    proof (cases "sub ?RHSPrec ?live R s2")
      case (Some r)
      show ?thesis
      proof (cases r)
        case (Inr p)
        obtain v' s' where p: "p = (v', s')" by (cases p)
        have "getPrecedence (peek_kind s') \<le> ?prec" using post [of v' s'] Some Inr p prec(1) by simp
        moreover obtain k where "k < Suc m" "at_line rest k s'" using g Some Inr p by (auto simp: goes_on_def)
        then have "k < n" "at_line rest k s'" using s2(2) by simp_all
        ultimately show ?thesis using True Some Inr p finish by simp
      qed (use True Some g in \<open>auto simp: goes_on_def\<close>)
    qed (use g in \<open>simp add: goes_on_def\<close>)
  qed
  have eom: "peek_kind s \<noteq> tok_eom" using assms(4) by auto
  show ?thesis unfolding loop_round_def Let_def
  proof (rule goes_on_lex(1) [OF assms(2) eom])
    fix s1 k assume k: "k < n" "at_line rest k s1"
    then have "goes_on rest k (value ?live s1)" using assms(1) by (simp add: calls_ok_def)
    then show "goes_on rest n (and_then (value ?live s1) (\<lambda>(RHS, DT) s2.
       if getPrecedence (peek_kind s2) = not_an_operator then failed (peek_loc s2) err_pp_expr_bad_token_binop s2
       else and_then (if ?RHSPrec \<le> getPrecedence (peek_kind s2) then sub ?RHSPrec ?live RHS s2 else parsed_ok RHS s2) ?finish))"
    proof (rule goes_on_and_then, goal_cases)
      case (1 r s2 k2)
      then show ?case using rhs [of k2 s2 "fst r"] k by (simp add: case_prod_beta del: getPrecedence_simps)
    qed
  qed
qed

lemma and_then_Inr:
  "and_then p f = Some (Inr r) \<Longrightarrow> \<exists>v s. p = Some (Inr (v, s)) \<and> f v s = Some (Inr r)"
  by (auto simp: and_then_def split: option.splits sum.splits)

lemma apply_operator_peek: "apply_operator E op live OpLoc LHS RHS s = Some (Inr (v, s')) \<Longrightarrow> PeekTok s' = PeekTok s"
  by (auto simp: apply_operator_def Let_def failed_def parsed_ok_def split: prod.splits option.splits op_result.splits if_splits)

lemma eval_conditional_stops:
  assumes "sub_stops sub" "eval_conditional E value sub ThisPrec live OpLoc LHS RHS s = Some (Inr (v, s'))"
  shows "getPrecedence (peek_kind s') < ThisPrec"
  using assms unfolding eval_conditional_def
  by (auto simp: Let_def parsed_ok_def sub_stops_def split: if_splits elim!: bind_SomeE dest!: and_then_Inr)

lemma loop_round_stops:
  assumes "sub_stops sub" "loop_round E value sub live ThisPrec LHS s = Some (Inr (v, s'))"
  shows "getPrecedence (peek_kind s') \<le> ThisPrec"
proof -
  obtain s1 R DT s2 where s1: "LexNonComment s = Some s1" "value (rhs_is_live E (peek_kind s) live LHS) s1 = Some (Inr ((R, DT), s2))"
    using assms(2) unfolding loop_round_def Let_def by (auto elim!: bind_SomeE dest!: and_then_Inr)
  let ?finish = "\<lambda>R s3. if \<not> getPrecedence (peek_kind s3) \<le> ThisPrec then None
    else if peek_kind s = tok_question then eval_conditional E value sub ThisPrec live (peek_loc s) LHS R s3
    else apply_operator E (peek_kind s) live (peek_loc s) LHS R s3"
  obtain p where "and_then p ?finish = Some (Inr (v, s'))"
    using assms(2) s1 by (auto simp: loop_round_def Let_def failed_def split: if_split_asm)
  then obtain R1 s3 where "?finish R1 s3 = Some (Inr (v, s'))" using and_then_Inr by blast
  then show ?thesis
    using eval_conditional_stops [OF assms(1)] apply_operator_peek
    by (fastforce split: if_split_asm dest: apply_operator_peek)
qed

text \<open>
  On a line of size below \<open>n\<close>, fuel \<open>2 n\<close> is enough: every call inside one that reads a token is on a
  shorter line, and between two reads there are at most two calls.
\<close>

lemma evaluator_goes_on:
  assumes "env_ok E view"
  shows "at_line rest n s \<Longrightarrow> 2 * n < N \<Longrightarrow> goes_on rest n (EvaluateValue N E live s)"
    "at_line rest n s \<Longrightarrow> 1 \<le> MinPrec \<Longrightarrow> 2 * n + 1 < N \<Longrightarrow>
      goes_on rest (Suc n) (EvaluateDirectiveSubExpr N E MinPrec live v s)"
    "at_line rest n s \<Longrightarrow> 1 \<le> MinPrec \<Longrightarrow> 2 * n < N \<Longrightarrow> getPrecedence (peek_kind s) \<noteq> not_an_operator \<Longrightarrow>
      goes_on rest (Suc n) (sub_expr_loop N E MinPrec live (getPrecedence (peek_kind s)) v s)"
proof (induction N arbitrary: n s live MinPrec v)
  case (Suc N)
  have calls: "calls_ok rest n (\<lambda>live. EvaluateValue N E live) (\<lambda>MinPrec live. EvaluateDirectiveSubExpr N E MinPrec live)"
    if "2 * n < Suc N" for n
    using that Suc.IH(1,2) EvaluateDirectiveSubExpr_stops unfolding calls_ok_def sub_stops_def
    by (intro conjI allI impI) auto
  {
    case 1
    then show ?case using value_body_goes_on [OF assms calls] by simp
  next
    case 2
    then show ?case using Suc.IH(3) by (auto simp: Let_def)
  next
    case 3
    show ?case
    proof (cases "getPrecedence (peek_kind s) < MinPrec")
      case True
      then show ?thesis using 3(1) by (auto simp: parsed_ok_def goes_on_def)
    next
      case False
      let ?r = "loop_round E (\<lambda>live. EvaluateValue N E live) (\<lambda>MinPrec live. EvaluateDirectiveSubExpr N E MinPrec live)
        live (getPrecedence (peek_kind s)) v s"
      have r: "goes_on rest n ?r" using loop_round_goes_on [OF calls 3(1)] 3 False by auto
      have "getPrecedence (peek_kind s1) \<noteq> not_an_operator" if "?r = Some (Inr (v1, s1))" for v1 s1
        using loop_round_stops [OF _ that] calls [of 0] getPrecedence_range [of "peek_kind s"] 3(4)
        by (auto simp: calls_ok_def not_an_operator_def)
      moreover have "goes_on rest (Suc n) (sub_expr_loop N E MinPrec live (getPrecedence (peek_kind s1)) v1 s1)"
        if "m < n" "at_line rest m s1" "getPrecedence (peek_kind s1) \<noteq> not_an_operator" for v1 s1 m
        by (rule goes_on_mono [OF Suc.IH(3) [OF that(2) 3(2) _ that(3)]]) (use that(1) 3(3) in simp_all)
      ultimately show ?thesis using r False
        by (auto simp: and_then_def goes_on_def [of rest n] split: option.splits sum.splits)
    qed
  }
qed simp_all

section \<open>The directive\<close>

lemma skip_rest_inside: "at_line rest n s \<Longrightarrow> \<exists>s'. skip_rest s = Some s' \<and> pp_items s' = rest"
  using discard_until_eom_inside by (fastforce simp: skip_rest_def discard_line_def at_line_def read_inside_def)

lemma EvaluateDirectiveExpression_total:
  assumes "env_ok E view" "line_ahead lexed_token rest n (pp_items s)" "2 * n + 1 < N"
  shows "\<exists>b ifn s'. EvaluateDirectiveExpression N E s = Some (b, ifn, s') \<and> pp_items s' = rest"
proof -
  obtain t r where L: "lex_items (pp_items s) = Some (t, r)" "read_inside lexed_token rest n (t, r)"
    using lex_items_inside [OF assms(2)] by auto
  let ?s1 = "s\<lparr>pp_items := r, PeekTok := t\<rparr>"
  have s1: "PP_Lex s = Some ?s1" "at_line rest n ?s1" using L by (simp_all add: PP_Lex_def read_token_def at_line_def)
  have "goes_on rest n (EvaluateValue N E True ?s1)"
    using evaluator_goes_on(1) [OF assms(1) s1(2)] assms(3) by simp
  then consider (err) s2 m where "EvaluateValue N E True ?s1 = Some (Inl s2)" "at_line rest m s2"
    | (val) v DT s2 m where "EvaluateValue N E True ?s1 = Some (Inr ((v, DT), s2))" "at_line rest m s2" "m < n"
    by (auto simp: goes_on_def split: option.splits sum.splits)
  then show ?thesis
  proof cases
    case err
    then show ?thesis using skip_rest_inside [OF err(2)] s1(1) by (auto simp: EvaluateDirectiveExpression_def)
  next
    case val
    show ?thesis
    proof (cases "peek_kind s2 = tok_eom")
      case True
      then show ?thesis using val s1(1)
        by (auto simp: EvaluateDirectiveExpression_def at_line_def read_inside_def)
    next
      case False
      have "goes_on rest (Suc m) (EvaluateDirectiveSubExpr N E (getPrecedence tok_question) True v s2)"
        using evaluator_goes_on(2) [OF assms(1) val(2)] assms(3) val(3) by simp
      then consider (err2) s3 k where
          "EvaluateDirectiveSubExpr N E (getPrecedence tok_question) True v s2 = Some (Inl s3)" "at_line rest k s3"
        | (val2) v1 s3 k where
          "EvaluateDirectiveSubExpr N E (getPrecedence tok_question) True v s2 = Some (Inr (v1, s3))" "at_line rest k s3"
        by (auto simp: goes_on_def split: option.splits sum.splits)
      then show ?thesis
      proof cases
        case err2
        then show ?thesis using skip_rest_inside [OF err2(2)] s1(1) val False
          by (auto simp: EvaluateDirectiveExpression_def simp del: getPrecedence_simps)
      next
        case val2
        have "\<exists>s4. (if peek_kind s3 \<noteq> tok_eom then discard_line (PP_Diag (peek_loc s3) [err_pp_expected_eol] s3)
          else Some s3) = Some s4 \<and> pp_items s4 = rest"
          using skip_rest_inside [of rest k "PP_Diag (peek_loc s3) [err_pp_expected_eol] s3"] val2(2)
          by (auto simp: skip_rest_def at_line_def read_inside_def)
        then show ?thesis using val2(1) s1(1) val False
          by (auto simp: EvaluateDirectiveExpression_def simp del: getPrecedence_simps)
      qed
    qed
  qed
qed

end
