(* ===== verification/PPExpressionsCorrect.thy ===== *)
theory PPExpressionsCorrect
  imports PPExpressionsTotal
begin

text \<open>
  What the evaluator of \<^verbatim>\<open>PPExpressions.cpp\<close> computes: the grammar and the values of C99 6.6 over
  unexpanded tokens, and that on a line of that grammar it returns the value.
\<close>

unbundle bit_operations_syntax

section \<open>The expressions and what they mean\<close>

text \<open>
  An expression of the grammar of C99 6.6, with the literals replaced by their values. \<open>expr_unsigned\<close> is
  whether its type is \<^verbatim>\<open>uintmax_t\<close>, and \<open>expr_value\<close> its value at width \<open>w\<close>, \<open>None\<close> where C leaves it
  undefined: a division by zero or a shift by an amount outside the width that is evaluated.
\<close>

datatype pp_expr =
  Number bool int
| Name identifier_info
| DefinedX identifier_info
| UnaryOp tok_kind pp_expr
| BinaryOp tok_kind pp_expr pp_expr
| Conditional pp_expr pp_expr pp_expr

definition is_truth :: "tok_kind \<Rightarrow> bool" where
  "is_truth k \<longleftrightarrow> k \<in> {tok_lessequal, tok_less, tok_greaterequal, tok_greater, tok_exclaimequal, tok_equalequal,
     tok_ampamp, tok_pipepipe}"

fun expr_unsigned :: "pp_expr \<Rightarrow> bool" where
  "expr_unsigned (Number u n) = u"
| "expr_unsigned (Name II) = False"
| "expr_unsigned (DefinedX II) = False"
| "expr_unsigned (UnaryOp k e) = (k \<noteq> tok_exclaim \<and> expr_unsigned e)"
| "expr_unsigned (BinaryOp k l r) =
     (if is_truth k then False
      else if k = tok_lessless \<or> k = tok_greatergreater then expr_unsigned l
      else if k = tok_comma then expr_unsigned r
      else expr_unsigned l \<or> expr_unsigned r)"
| "expr_unsigned (Conditional c a b) = (expr_unsigned a \<or> expr_unsigned b)"

definition unary_value :: "nat \<Rightarrow> bool \<Rightarrow> tok_kind \<Rightarrow> int \<Rightarrow> int" where
  "unary_value w u k a =
     (if k = tok_minus then wrap_to u w (- a) else if k = tok_tilde then wrap_to u w (NOT a)
      else if k = tok_exclaim then of_bool (a = 0) else a)"

text \<open>The operators that evaluate both operands.\<close>

definition binary_value :: "nat \<Rightarrow> tok_kind \<Rightarrow> bool \<Rightarrow> bool \<Rightarrow> int \<Rightarrow> int \<Rightarrow> int option" where
  "binary_value w k ul ur l r =
     (let u = (ul \<or> ur); a = wrap_to u w l; b = wrap_to u w r
      in if k = tok_percent then (if b = 0 then None else Some (wrap_to u w (a smod b)))
         else if k = tok_slash then (if b = 0 then None else Some (wrap_to u w (a sdiv b)))
         else if k = tok_star then Some (wrap_to u w (a * b))
         else if k = tok_plus then Some (wrap_to u w (a + b))
         else if k = tok_minus then Some (wrap_to u w (a - b))
         else if k = tok_lessless then (if 0 \<le> r \<and> r < int w then Some (wrap_to ul w (l * 2 ^ nat r)) else None)
         else if k = tok_greatergreater then (if 0 \<le> r \<and> r < int w then Some (l div 2 ^ nat r) else None)
         else if k = tok_lessequal then Some (of_bool (a \<le> b))
         else if k = tok_less then Some (of_bool (a < b))
         else if k = tok_greaterequal then Some (of_bool (b \<le> a))
         else if k = tok_greater then Some (of_bool (b < a))
         else if k = tok_exclaimequal then Some (of_bool (a \<noteq> b))
         else if k = tok_equalequal then Some (of_bool (a = b))
         else if k = tok_amp then Some (wrap_to u w (a AND b))
         else if k = tok_caret then Some (wrap_to u w (a XOR b))
         else if k = tok_pipe then Some (wrap_to u w (a OR b))
         else if k = tok_comma then Some r
         else None)"

fun expr_value :: "nat \<Rightarrow> pp_expr \<Rightarrow> int option" where
  "expr_value w (Number u n) = Some n"
| "expr_value w (Name II) = Some (of_bool (getTokenID II = tok_kw ''true''))"
| "expr_value w (DefinedX II) = Some (of_bool (hasMacroDefinition II))"
| "expr_value w (UnaryOp k e) = map_option (unary_value w (expr_unsigned e) k) (expr_value w e)"
| "expr_value w (BinaryOp k l r) =
     (case expr_value w l of
        None \<Rightarrow> None
      | Some a \<Rightarrow>
          if k = tok_ampamp \<and> a = 0 then Some 0
          else if k = tok_pipepipe \<and> a \<noteq> 0 then Some 1
          else (case expr_value w r of
                  None \<Rightarrow> None
                | Some b \<Rightarrow>
                    if k = tok_ampamp \<or> k = tok_pipepipe then Some (of_bool (b \<noteq> 0))
                    else binary_value w k (expr_unsigned l) (expr_unsigned r) a b))"
| "expr_value w (Conditional c a b) =
     (case expr_value w c of
        None \<Rightarrow> None
      | Some x \<Rightarrow> map_option (wrap_to (expr_unsigned a \<or> expr_unsigned b) w) (expr_value w (if x \<noteq> 0 then a else b)))"

text \<open>The value of an integer literal, and whether it is unsigned.\<close>

definition number_value :: "nat \<Rightarrow> lang_options \<Rightarrow> token \<Rightarrow> (bool \<times> int) option" where
  "number_value w LO t =
     (case NumericLiteralParser LO (tokSpelling t) (tokNext t) of
        None \<Rightarrow> None
      | Some P \<Rightarrow>
          if hadError P \<or> \<not> isIntegerLiteral P \<or> isImaginary P then None
          else
            let n = int (digits_value (radix P) 0 (literal_digits P))
            in Some (isUnsigned P \<or> max_value False w < n, n mod 2 ^ w))"

section \<open>Values of the evaluator\<close>

text \<open>\<open>v\<close> is of the width and signedness of \<open>e\<close>, and has its value when it is evaluated.\<close>

definition has_value :: "'a pp_env \<Rightarrow> ('a \<Rightarrow> aps_view) \<Rightarrow> bool \<Rightarrow> pp_expr \<Rightarrow> 'a \<Rightarrow> bool" where
  "has_value E view live e v \<longleftrightarrow>
     (\<exists>x. view v = (getIntMaxTWidth E, expr_unsigned e, x) \<and> (live \<longrightarrow> expr_value (getIntMaxTWidth E) e = Some x))"

lemma env_ok_apsint: "env_ok E view \<Longrightarrow> apsint (env_S E) view"
  by (simp add: env_ok_def)

lemmas env_ops = env_ok_apsint [THEN apsint.aps_width] env_ok_apsint [THEN apsint.aps_isUnsigned]
  env_ok_apsint [THEN apsint.aps_assign] env_ok_apsint [THEN apsint.aps_setIsUnsigned]
  env_ok_apsint [THEN apsint.aps_neg] env_ok_apsint [THEN apsint.aps_not] env_ok_apsint [THEN apsint.aps_nonzero]

lemmas env_binary_ops = env_ok_apsint [THEN apsint.aps_add] env_ok_apsint [THEN apsint.aps_sub]
  env_ok_apsint [THEN apsint.aps_mul] env_ok_apsint [THEN apsint.aps_div] env_ok_apsint [THEN apsint.aps_rem]
  env_ok_apsint [THEN apsint.aps_and] env_ok_apsint [THEN apsint.aps_or] env_ok_apsint [THEN apsint.aps_xor]
  env_ok_apsint [THEN apsint.aps_eq] env_ok_apsint [THEN apsint.aps_lt] env_ok_apsint [THEN apsint.aps_le]

lemma set_bool_view:
  assumes "env_ok E view" "view v = (getIntMaxTWidth E, u, x)"
  shows "view (set_bool E b v) = (getIntMaxTWidth E, False, of_bool b)"
proof -
  have w: "2 \<le> getIntMaxTWidth E" using assms(1) by (simp add: env_ok_def)
  have a: "view (ap_assign (aps_int (env_S E)) v (if b then 1 else 0)) = (getIntMaxTWidth E, u, of_bool b)"
    using env_ops(3) [OF assms, of "if b then 1 else 0"] wrap_to_one [OF w] by simp
  show ?thesis using env_ops(4) [OF assms(1) a, of False] wrap_to_one [OF w] by (simp add: set_bool_def)
qed

lemma shift_amount_ok:
  assumes "env_ok E view" "view R = (getIntMaxTWidth E, u, r)" "0 \<le> r" "r < int (getIntMaxTWidth E)" "getIntMaxTWidth E < 2 ^ 31"
  shows "shift_amount E R = nat r"
proof -
  let ?w = "getIntMaxTWidth E"
  have "int ?w < 2 ^ 31" using assms(5) by (simp only: of_nat_less_numeral_power_cancel_iff)
  then have r: "r < 2 ^ 31" using assms(4) by linarith
  have "int ?w < 2 ^ ?w" using less_exp [of ?w] by (metis of_nat_less_iff of_nat_numeral of_nat_power)
  then have "r < 2 ^ ?w" using assms(4) by linarith
  then have t: "take_bit ?w r = r" using assms(3) by (intro take_bit_int_eq_self)
  have "aps_getLimitedValue (env_S E) R = word_of_int r"
    using apsint.aps_getLimitedValue [OF env_ok_apsint [OF assms(1)] assms(2)] r by (simp add: t)
  then show ?thesis using r assms(3)
    by (simp add: shift_amount_def unsigned_ucast_eq unsigned_of_int take_bit_int_eq_self nat_take_bit_eq [symmetric])
qed

lemma operator_cases:
  assumes "1 \<le> getPrecedence k" "getPrecedence k \<noteq> not_an_operator" "k \<noteq> tok_question" "k \<noteq> tok_colon"
  shows "k \<in> {tok_percent, tok_slash, tok_star, tok_plus, tok_minus, tok_lessequal, tok_less, tok_greaterequal, tok_greater,
      tok_exclaimequal, tok_equalequal, tok_amp, tok_caret, tok_pipe} \<or>
    k = tok_lessless \<or> k = tok_greatergreater \<or> k = tok_ampamp \<or> k = tok_pipepipe \<or> k = tok_comma"
  using assms by (cases k) (simp_all add: getPrecedence_def)

lemma converted_operator:
  assumes E: "env_ok E view" and k: "k \<in> {tok_percent, tok_slash, tok_star, tok_plus, tok_minus, tok_lessequal, tok_less,
      tok_greaterequal, tok_greater, tok_exclaimequal, tok_equalequal, tok_amp, tok_caret, tok_pipe}"
    and v: "view Res = (getIntMaxTWidth E, u, 0)" "view L = (getIntMaxTWidth E, u, a)" "view R = (getIntMaxTWidth E, u, b)"
    and live: "live \<Longrightarrow> binary_value (getIntMaxTWidth E) k u u a b \<noteq> None"
  shows "\<exists>v ovf z. binary_operator E k live Res L R = Some (OpValue v ovf) \<and>
    view v = (getIntMaxTWidth E, \<not> is_truth k \<and> u, z) \<and> (live \<longrightarrow> binary_value (getIntMaxTWidth E) k u u a b = Some z)"
proof -
  let ?w = "getIntMaxTWidth E"
  have r: "wrap_to u ?w a = a" "wrap_to u ?w b = b" using apsint.aps_range [OF env_ok_apsint [OF E]] v by auto
  note nz = env_ops(7) [OF E v(3)]
  note truth = set_bool_view [OF E v(1)]
  note ops = env_binary_ops [OF E v(2,3)]
  from k have "k = tok_percent \<or> k = tok_slash \<or> k \<in> {tok_star, tok_plus, tok_minus, tok_amp, tok_caret, tok_pipe} \<or>
    k \<in> {tok_lessequal, tok_less, tok_greaterequal, tok_greater, tok_exclaimequal, tok_equalequal}" by auto
  then show ?thesis
  proof (elim disjE)
    assume k: "k = tok_percent"
    show ?thesis using v live ops(5) nz unfolding k
      by (cases "b = 0") (auto simp: binary_operator_def remainder_def binary_value_def r is_truth_def Let_def)
  next
    assume k: "k = tok_slash"
    show ?thesis using v live ops(4) nz unfolding k
      by (cases "b = 0") (auto simp: binary_operator_def division_def binary_value_def r is_truth_def Let_def)
  next
    assume "k \<in> {tok_star, tok_plus, tok_minus, tok_amp, tok_caret, tok_pipe}"
    then show ?thesis using ops(1,2,3,6,7,8)
      by (elim insertE emptyE) (auto simp: binary_operator_def multiplication_def addition_def subtraction_def
          binary_value_def r is_truth_def Let_def)
  next
    assume "k \<in> {tok_lessequal, tok_less, tok_greaterequal, tok_greater, tok_exclaimequal, tok_equalequal}"
    then show ?thesis using truth ops(9,10,11) env_binary_ops(10,11) [OF E v(3,2)]
      by (elim insertE emptyE) (auto simp: binary_operator_def binary_value_def r is_truth_def Let_def)
  qed
qed

lemma shift_operator:
  assumes E: "env_ok E view" "getIntMaxTWidth E < 2 ^ 31" and k: "k = tok_lessless \<or> k = tok_greatergreater"
    and v: "view L = (getIntMaxTWidth E, u, a)" "view R = (getIntMaxTWidth E, u', b)"
    and live: "live \<Longrightarrow> binary_value (getIntMaxTWidth E) k u u' a b \<noteq> None"
  shows "\<exists>v ovf z. binary_operator E k live Res L R = Some (OpValue v ovf) \<and>
    view v = (getIntMaxTWidth E, u, z) \<and> (live \<longrightarrow> binary_value (getIntMaxTWidth E) k u u' a b = Some z)"
proof -
  let ?w = "getIntMaxTWidth E"
  define n where "n = (if ?w \<le> shift_amount E R then ?w - 1 else shift_amount E R)"
  have n: "n < ?w" using E(1) by (auto simp: n_def env_ok_def)
  have amount: "n = nat b \<and> 0 \<le> b \<and> b < int ?w" if live
  proof -
    have b: "0 \<le> b" "b < int ?w" using live that k by (auto simp: binary_value_def Let_def split: if_split_asm)
    then show ?thesis using shift_amount_ok [OF E(1) v(2) b E(2)] by (simp add: n_def nat_less_iff)
  qed
  note width = env_ops(1) [OF E(1) v(1)]
  note shl = apsint.aps_shl [OF env_ok_apsint [OF E(1)] v(1) n] and shr = apsint.aps_shr [OF env_ok_apsint [OF E(1)] v(1) n]
  have l: "\<exists>ovf. shift_left E L R = OpValue (aps_shl (env_S E) L n) ovf" by (auto simp: shift_left_def Let_def width n_def)
  have r: "\<exists>ovf. shift_right E L R = OpValue (aps_shr (env_S E) L n) ovf" by (auto simp: shift_right_def Let_def width n_def)
  show ?thesis using k l r shl shr amount
    by (auto simp: binary_operator_def binary_value_def Let_def push_bit_eq_mult drop_bit_eq_div)
qed

lemma apply_operator_ok:
  assumes "arithmetic_conversions E k live L R = (Res, L', R', ds)" "binary_operator E k live Res L' R' = Some (OpValue v ovf)"
  shows "\<exists>s'. apply_operator E k live loc L R s = Some (Inr (v, s')) \<and> PeekTok s' = PeekTok s \<and> pp_items s' = pp_items s"
  using assms by (auto simp: apply_operator_def Let_def parsed_ok_def)

lemma apply_operator_value:
  assumes "env_ok E view" "getIntMaxTWidth E < 2 ^ 31" "has_value E view live l L"
    "has_value E view (rhs_is_live E k live L) r R"
    "live \<Longrightarrow> expr_value (getIntMaxTWidth E) (BinaryOp k l r) \<noteq> None"
    "1 \<le> getPrecedence k" "getPrecedence k \<noteq> not_an_operator" "k \<noteq> tok_question" "k \<noteq> tok_colon"
  shows "\<exists>v s'. apply_operator E k live loc L R s = Some (Inr (v, s')) \<and> has_value E view live (BinaryOp k l r) v \<and>
    PeekTok s' = PeekTok s \<and> pp_items s' = pp_items s"
proof -
  let ?w = "getIntMaxTWidth E"
  obtain x where x: "view L = (?w, expr_unsigned l, x)" "live \<Longrightarrow> expr_value ?w l = Some x"
    using assms(3) by (auto simp: has_value_def)
  obtain y where y: "view R = (?w, expr_unsigned r, y)" "rhs_is_live E k live L \<Longrightarrow> expr_value ?w r = Some y"
    using assms(4) by (auto simp: has_value_def)
  have "\<exists>Res L' R' ds v ovf. arithmetic_conversions E k live L R = (Res, L', R', ds) \<and>
      binary_operator E k live Res L' R' = Some (OpValue v ovf) \<and> has_value E view live (BinaryOp k l r) v"
    using operator_cases [OF assms(6-9)]
  proof (elim disjE)
    assume k: "k \<in> {tok_percent, tok_slash, tok_star, tok_plus, tok_minus, tok_lessequal, tok_less, tok_greaterequal,
      tok_greater, tok_exclaimequal, tok_equalequal, tok_amp, tok_caret, tok_pipe}"
    then have n: "\<not> no_conversions k" "rhs_is_live E k live L = live"
      "k \<noteq> tok_ampamp" "k \<noteq> tok_pipepipe" "k \<noteq> tok_lessless" "k \<noteq> tok_greatergreater" "k \<noteq> tok_comma"
      by (auto simp: no_conversions_def rhs_is_live_def)
    let ?u = "expr_unsigned l \<or> expr_unsigned r"
    let ?set = "aps_setIsUnsigned (env_S E) ?u"
    have v: "view (?set (new_value E)) = (?w, ?u, 0)" "view (?set L) = (?w, ?u, wrap_to ?u ?w x)" "view (?set R) = (?w, ?u, wrap_to ?u ?w y)"
      using env_ops(4) [OF assms(1), where u' = ?u] new_value_view [OF assms(1)] x(1) y(1) by fastforce+
    have b: "binary_value ?w k ?u ?u (wrap_to ?u ?w x) (wrap_to ?u ?w y) = binary_value ?w k (expr_unsigned l) (expr_unsigned r) x y"
      using n by (simp add: binary_value_def Let_def)
    have lv: "live \<Longrightarrow> binary_value ?w k ?u ?u (wrap_to ?u ?w x) (wrap_to ?u ?w y) \<noteq> None"
      using assms(5) x(2) y(2) n unfolding b by auto
    obtain v1 ovf z where o: "binary_operator E k live (?set (new_value E)) (?set L) (?set R) = Some (OpValue v1 ovf)"
      "view v1 = (?w, \<not> is_truth k \<and> ?u, z)" "live \<longrightarrow> binary_value ?w k ?u ?u (wrap_to ?u ?w x) (wrap_to ?u ?w y) = Some z"
      using converted_operator [OF assms(1) k v lv] by blast
    have "has_value E view live (BinaryOp k l r) v1"
      using o(2,3) x(2) y(2) n unfolding b has_value_def by auto
    moreover have "\<exists>ds. arithmetic_conversions E k live L R = (?set (new_value E), ?set L, ?set R, ds)"
      using n(1) env_ops(2) [OF assms(1) x(1)] env_ops(2) [OF assms(1) y(1)] by (simp add: arithmetic_conversions_def Let_def)
    ultimately show ?thesis using o(1) by blast
  next
    assume k: "k = tok_lessless"
    then have n: "arithmetic_conversions E k live L R = (new_value E, L, R, [])" "rhs_is_live E k live L = live"
      by (simp_all add: arithmetic_conversions_def no_conversions_def rhs_is_live_def)
    have lv: "live \<Longrightarrow> binary_value ?w k (expr_unsigned l) (expr_unsigned r) x y \<noteq> None"
      using assms(5) x(2) y(2) n(2) k by auto
    show ?thesis
      using shift_operator [OF assms(1,2) disjI1 [OF k] x(1) y(1) lv, where Res = "new_value E"] n x(2) y(2) k
      by (auto simp: has_value_def is_truth_def)
  next
    assume k: "k = tok_greatergreater"
    then have n: "arithmetic_conversions E k live L R = (new_value E, L, R, [])" "rhs_is_live E k live L = live"
      by (simp_all add: arithmetic_conversions_def no_conversions_def rhs_is_live_def)
    have lv: "live \<Longrightarrow> binary_value ?w k (expr_unsigned l) (expr_unsigned r) x y \<noteq> None"
      using assms(5) x(2) y(2) n(2) k by auto
    show ?thesis
      using shift_operator [OF assms(1,2) disjI2 [OF k] x(1) y(1) lv, where Res = "new_value E"] n x(2) y(2) k
      by (auto simp: has_value_def is_truth_def)
  next
    assume k: "k = tok_ampamp"
    note nz = env_ops(7) [OF assms(1) x(1)] env_ops(7) [OF assms(1) y(1)]
    have "arithmetic_conversions E k live L R = (new_value E, L, R, [])" "rhs_is_live E k live L \<longleftrightarrow> live \<and> x \<noteq> 0"
      using k nz(1) by (auto simp: arithmetic_conversions_def no_conversions_def rhs_is_live_def)
    then show ?thesis
      using set_bool_view [OF assms(1) new_value_view [OF assms(1)], of "x \<noteq> 0 \<and> y \<noteq> 0"] x(2) y(2) nz k
      by (auto simp: binary_operator_def has_value_def is_truth_def)
  next
    assume k: "k = tok_pipepipe"
    note nz = env_ops(7) [OF assms(1) x(1)] env_ops(7) [OF assms(1) y(1)]
    have "arithmetic_conversions E k live L R = (new_value E, L, R, [])" "rhs_is_live E k live L \<longleftrightarrow> live \<and> x = 0"
      using k nz(1) by (auto simp: arithmetic_conversions_def no_conversions_def rhs_is_live_def)
    then show ?thesis
      using set_bool_view [OF assms(1) new_value_view [OF assms(1)], of "x \<noteq> 0 \<or> y \<noteq> 0"] x(2) y(2) nz k
      by (auto simp: binary_operator_def has_value_def is_truth_def)
  next
    assume k: "k = tok_comma"
    then have "arithmetic_conversions E k live L R = (new_value E, L, R, [])" "rhs_is_live E k live L = live"
      by (simp_all add: arithmetic_conversions_def no_conversions_def rhs_is_live_def)
    then show ?thesis using x y k
      by (auto simp: binary_operator_def has_value_def is_truth_def binary_value_def Let_def)
  qed
  then show ?thesis using apply_operator_ok by metis
qed

section \<open>The grammar\<close>

text \<open>
  The token sequences of an expression. The level is the precedence of the operator that may stand at the
  root; level 15 are the unary expressions, and level 3 is what parentheses may hold.
\<close>

definition punct :: "tok_kind \<Rightarrow> token \<Rightarrow> bool" where
  "punct k t \<longleftrightarrow> getKind t = k \<and> getIdentifierInfo t = None"

definition pp_identifier :: "identifier_info \<Rightarrow> token \<Rightarrow> bool" where
  "pp_identifier II t \<longleftrightarrow> getIdentifierInfo t = Some II \<and> getKind t \<noteq> tok_comment \<and> getKind t \<noteq> tok_l_paren"

inductive derives :: "'a pp_env \<Rightarrow> int \<Rightarrow> token list \<Rightarrow> pp_expr \<Rightarrow> bool" for E where
  number: "getKind t = tok_numeric_constant \<Longrightarrow> number_value (getIntMaxTWidth E) (env_LO E) t = Some (u, n) \<Longrightarrow>
    derives E 15 [t] (Number u n)"
| name: "pp_identifier II t \<Longrightarrow> getPPKeywordID (getName II) \<noteq> pp_defined \<Longrightarrow> derives E 15 [t] (Name II)"
| defined_name: "pp_identifier D t \<Longrightarrow> getPPKeywordID (getName D) = pp_defined \<Longrightarrow> pp_identifier II x \<Longrightarrow>
    derives E 15 [t, x] (DefinedX II)"
| defined_paren: "pp_identifier D t \<Longrightarrow> getPPKeywordID (getName D) = pp_defined \<Longrightarrow> pp_identifier II x \<Longrightarrow>
    punct tok_l_paren lp \<Longrightarrow> punct tok_r_paren rp \<Longrightarrow> derives E 15 [t, lp, x, rp] (DefinedX II)"
| paren: "punct tok_l_paren lp \<Longrightarrow> punct tok_r_paren rp \<Longrightarrow> derives E 3 ts e \<Longrightarrow> derives E 15 (lp # ts @ [rp]) e"
| unary: "punct k t \<Longrightarrow> k \<in> {tok_plus, tok_minus, tok_tilde, tok_exclaim} \<Longrightarrow> derives E 15 ts e \<Longrightarrow>
    derives E 15 (t # ts) (UnaryOp k e)"
| binary: "getKind t = k \<Longrightarrow> getPrecedence k = p \<Longrightarrow> 3 \<le> p \<Longrightarrow> p \<le> 14 \<Longrightarrow> k \<noteq> tok_question \<Longrightarrow>
    derives E p ls l \<Longrightarrow> derives E (p + 1) rs r \<Longrightarrow> derives E p (ls @ t # rs) (BinaryOp k l r)"
| conditional: "getKind q = tok_question \<Longrightarrow> getKind d = tok_colon \<Longrightarrow>
    derives E 5 cs c \<Longrightarrow> derives E 3 as a \<Longrightarrow> derives E 4 bs b \<Longrightarrow>
    derives E 4 (cs @ q # as @ d # bs) (Conditional c a b)"
| level: "derives E q ts e \<Longrightarrow> 3 \<le> p \<Longrightarrow> p \<le> q \<Longrightarrow> derives E p ts e"

section \<open>The evaluator parses the grammar\<close>

definition conv :: "(nat \<Rightarrow> 'v parsed) \<Rightarrow> (pp_state + 'v \<times> pp_state) \<Rightarrow> bool" where
  "conv F r \<longleftrightarrow> (\<exists>N. \<forall>n \<ge> N. F n = Some r)"

lemma conv_Suc: "conv (\<lambda>n. F (Suc n)) r \<Longrightarrow> conv F r"
  unfolding conv_def by (metis Suc_le_D Suc_le_mono)

lemma conv_const [simp]: "conv (\<lambda>n. Some r) r" "conv (\<lambda>n. parsed_ok v s) (Inr (v, s))"
  by (simp_all add: conv_def parsed_ok_def)

lemma conv_unique: "conv F r \<Longrightarrow> conv F r' \<Longrightarrow> r = r'"
  unfolding conv_def by (metis nle_le option.inject)

lemma conv_and_then: "conv F (Inr (v, s)) \<Longrightarrow> conv (\<lambda>n. G n v s) r \<Longrightarrow> conv (\<lambda>n. and_then (F n) (G n)) r"
proof -
  assume "conv F (Inr (v, s))" "conv (\<lambda>n. G n v s) r"
  then obtain N M where "\<forall>n \<ge> N. F n = Some (Inr (v, s))" "\<forall>n \<ge> M. G n v s = Some r" by (auto simp: conv_def)
  then show ?thesis unfolding conv_def by (intro exI [of _ "max N M"]) simp
qed

lemma loop_exit: "getPrecedence (peek_kind s) < m \<Longrightarrow> conv (\<lambda>n. sub_expr_loop n E m live (getPrecedence (peek_kind s)) v s) (Inr (v, s))"
  by (rule conv_Suc) simp

lemma sub_expr_conv:
  assumes "conv (\<lambda>n. sub_expr_loop n E m live (getPrecedence (peek_kind s)) v s) r" "getPrecedence (peek_kind s) \<noteq> not_an_operator"
  shows "conv (\<lambda>n. EvaluateDirectiveSubExpr n E m live v s) r"
  by (rule conv_Suc) (use assms in simp)

lemma loop_round_conv:
  assumes "conv (\<lambda>n. loop_round E (\<lambda>live. EvaluateValue n E live) (\<lambda>MinPrec live. EvaluateDirectiveSubExpr n E MinPrec live)
      live (getPrecedence (peek_kind s)) v s) (Inr (v1, s1))"
    "m \<le> getPrecedence (peek_kind s)" "conv (\<lambda>n. sub_expr_loop n E m live (getPrecedence (peek_kind s1)) v1 s1) r"
  shows "conv (\<lambda>n. sub_expr_loop n E m live (getPrecedence (peek_kind s)) v s) r"
  by (rule conv_Suc)
    (use conv_and_then [where G = "\<lambda>n Res s1. sub_expr_loop n E m live (getPrecedence (peek_kind s1)) Res s1", OF assms(1,3)]
      assms(2) in simp)

text \<open>A state in front of the tokens \<open>ts\<close>.\<close>

definition stream :: "pp_state \<Rightarrow> token list \<Rightarrow> pp_item list \<Rightarrow> bool" where
  "stream s ts tail \<longleftrightarrow> ts \<noteq> [] \<and> PeekTok s = hd ts \<and> pp_items s = map Plain (tl ts) @ tail"

lemma stream_Diag [simp]: "stream (PP_Diag loc ds s) ts tail = stream s ts tail"
  by (simp add: stream_def)

lemma stream_same: "stream s ts tail \<Longrightarrow> PeekTok s' = PeekTok s \<Longrightarrow> pp_items s' = pp_items s \<Longrightarrow> stream s' ts tail"
  by (simp add: stream_def)

lemma lex_stream:
  assumes "stream s (t # u # ts) tail"
  shows "getKind u \<noteq> tok_comment \<Longrightarrow> \<exists>s'. LexNonComment s = Some s' \<and> stream s' (u # ts) tail"
    "\<exists>s'. LexUnexpandedToken s = Some s' \<and> stream s' (u # ts) tail"
  using assms by (auto simp: LexNonComment_def LexUnexpandedToken_def read_token_def stream_def lex_non_comment.simps)

definition follow :: "int \<Rightarrow> tok_kind \<Rightarrow> bool" where
  "follow p k \<longleftrightarrow> getPrecedence k \<noteq> not_an_operator \<and> (if p = 4 then getPrecedence k < 4 else getPrecedence k \<le> p)"

lemma operator_not_comment: "getPrecedence k \<noteq> not_an_operator \<Longrightarrow> k \<noteq> tok_comment"
  by (auto simp: getPrecedence_def)

definition parses :: "'a pp_env \<Rightarrow> ('a \<Rightarrow> aps_view) \<Rightarrow> int \<Rightarrow> token list \<Rightarrow> pp_expr \<Rightarrow> bool" where
  "parses E view p ts e \<longleftrightarrow> (\<forall>live m s f fs tail. m \<le> p \<longrightarrow> stream s (ts @ f # fs) tail \<longrightarrow> follow p (getKind f) \<longrightarrow>
     (live \<longrightarrow> expr_value (getIntMaxTWidth E) e \<noteq> None) \<longrightarrow>
     (\<exists>v0 DT s0 v s'. conv (\<lambda>n. EvaluateValue n E live s) (Inr ((v0, DT), s0)) \<and>
        getPrecedence (peek_kind s0) \<noteq> not_an_operator \<and> stream s' (f # fs) tail \<and> has_value E view live e v \<and>
        (\<forall>r. conv (\<lambda>n. sub_expr_loop n E m live (getPrecedence (peek_kind s')) v s') r \<longrightarrow>
             conv (\<lambda>n. sub_expr_loop n E m live (getPrecedence (peek_kind s0)) v0 s0) r)))"

lemma parses_primary:
  assumes "\<And>live s f fs tail. stream s (ts @ f # fs) tail \<Longrightarrow> getKind f \<noteq> tok_comment \<Longrightarrow>
      getPrecedence (getKind f) \<noteq> not_an_operator \<Longrightarrow> (live \<Longrightarrow> expr_value (getIntMaxTWidth E) e \<noteq> None) \<Longrightarrow>
      \<exists>v DT s'. conv (\<lambda>n. EvaluateValue n E live s) (Inr ((v, DT), s')) \<and> stream s' (f # fs) tail \<and> has_value E view live e v"
  shows "parses E view 15 ts e"
  unfolding parses_def
proof (intro allI impI, goal_cases)
  case (1 live m s f fs tail)
  then have "getKind f \<noteq> tok_comment" "getPrecedence (getKind f) \<noteq> not_an_operator"
    using operator_not_comment by (auto simp: follow_def)
  moreover obtain v DT s' where "conv (\<lambda>n. EvaluateValue n E live s) (Inr ((v, DT), s'))" "stream s' (f # fs) tail"
    "has_value E view live e v" using assms [of s f fs tail live] 1 calculation by blast
  ultimately show ?case by (intro exI [of _ v] exI [of _ DT] exI [of _ s'] conjI) (auto simp: stream_def)
qed

lemma value_conv_const:
  assumes "\<And>n. value_body E (\<lambda>live. EvaluateValue n E live) (\<lambda>MinPrec live. EvaluateDirectiveSubExpr n E MinPrec live) live s = Some r"
  shows "conv (\<lambda>n. EvaluateValue n E live s) r"
  by (rule conv_Suc) (simp add: assms)

lemma wrap_to_take_bit: "0 < w \<Longrightarrow> wrap_to u w (take_bit w z) = wrap_to u w z"
  by (cases w) (simp_all add: wrap_to_def signed_take_bit_take_bit)

lemma wrap_to_cong: "0 < w \<Longrightarrow> take_bit w a = take_bit w b \<Longrightarrow> wrap_to u w a = wrap_to u w b"
  by (metis wrap_to_take_bit)

lemma wrap_to_signed:
  assumes "0 < w"
  shows "wrap_to False w z = (if take_bit w z \<le> max_value False w then take_bit w z else take_bit w z - 2 ^ w)"
proof -
  have t: "0 \<le> take_bit w z" "take_bit w z < 2 ^ w" by simp_all
  have m: "min_value False w \<le> 0" by (simp add: min_value_def)
  have p: "(2 :: int) ^ w = 2 ^ (w - 1) + 2 ^ (w - 1)" using assms by (cases w) simp_all
  show ?thesis
  proof (cases "take_bit w z \<le> max_value False w")
    case True
    then have "wrap_to False w (take_bit w z) = take_bit w z" using t(1) m by (intro wrap_to_id) linarith+
    then show ?thesis using True wrap_to_take_bit [OF assms] by simp
  next
    case False
    then have "min_value False w \<le> take_bit w z - 2 ^ w" "take_bit w z - 2 ^ w \<le> max_value False w"
      using t(2) unfolding min_value_def max_value_def if_False p by linarith+
    then have "wrap_to False w (take_bit w z - 2 ^ w) = take_bit w z - 2 ^ w" by (rule wrap_to_id)
    moreover have "take_bit w (take_bit w z - 2 ^ w) = take_bit w z" by (simp add: take_bit_eq_mod)
    ultimately show ?thesis using False wrap_to_cong [OF assms, of "take_bit w z - 2 ^ w" z False] by simp
  qed
qed

lemma numeric_value_number:
  assumes "env_ok E view" "NumericLiteralParser LO tok e = Some P" "\<not> hadError P" "isIntegerLiteral P"
  shows "\<exists>v ds. numeric_value E live P = Some (v, ds) \<and> view v = (getIntMaxTWidth E,
    isUnsigned P \<or> max_value False (getIntMaxTWidth E) < int (digits_value (radix P) 0 (literal_digits P)),
    int (digits_value (radix P) 0 (literal_digits P)) mod 2 ^ getIntMaxTWidth E)"
proof -
  let ?w = "getIntMaxTWidth E" and ?N = "digits_value (radix P) 0 (literal_digits P)"
  have S: "apsint (env_S E) view" and w: "0 < ?w" using assms(1) by (auto simp: env_ok_def)
  obtain v where v: "GetIntegerValue (aps_int (env_S E)) (new_value E) P = Some (v, 2 ^ ?w \<le> ?N)"
    "fst (view v) = ?w" "view_bits (view v) = ?N mod 2 ^ ?w" using GetIntegerValue_new [OF assms] by blast
  obtain u x where x: "view v = (?w, u, x)" using v(2) by (cases "view v") auto
  have bits: "take_bit ?w x = int ?N mod 2 ^ ?w"
  proof -
    have "nat (take_bit ?w x) = ?N mod 2 ^ ?w" using v(3) x by (simp add: view_bits_def)
    then have "take_bit ?w x = int (?N mod 2 ^ ?w)" by (metis nat_0_le take_bit_nonnegative)
    then show ?thesis by (simp add: zmod_int)
  qed
  have set: "view (aps_setIsUnsigned (env_S E) True y) = (?w, True, int ?N mod 2 ^ ?w)" if "view y = (?w, u', z)" "take_bit ?w z = take_bit ?w x" for y u' z
    using apsint.aps_setIsUnsigned [OF S that(1), of True] that(2) bits by (simp add: wrap_to_def)
  let ?v1 = "aps_setIsUnsigned (env_S E) (isUnsigned P) v"
  have v1: "view ?v1 = (?w, isUnsigned P, wrap_to (isUnsigned P) ?w x)" by (rule apsint.aps_setIsUnsigned [OF S x])
  have neg: "aps_isNegative (env_S E) ?v1 \<longleftrightarrow> max_value False ?w < int ?N" if "\<not> isUnsigned P" "?N < 2 ^ ?w"
  proof -
    have N: "int ?N mod 2 ^ ?w = int ?N" using that(2) by (simp add: zmod_int [symmetric])
    have "aps_isNegative (env_S E) ?v1 \<longleftrightarrow> wrap_to False ?w x < 0"
      using apsint.aps_isNegative [OF S v1] that(1) by simp
    moreover have "int ?N < 2 ^ ?w" using that(2) by (metis of_nat_less_iff of_nat_numeral of_nat_power)
    ultimately show ?thesis unfolding wrap_to_signed [OF w] bits N by (cases "int ?N \<le> max_value False ?w") auto
  qed
  have small: "view ?v1 = (?w, False, int ?N mod 2 ^ ?w)" if "\<not> isUnsigned P" "?N < 2 ^ ?w" "\<not> max_value False ?w < int ?N"
    using v1 that bits wrap_to_signed [OF w, of x] by (simp add: zmod_int [symmetric])
  have big: "max_value False ?w < int ?N" if "2 ^ ?w \<le> ?N"
  proof -
    have "2 ^ ?w = 2 * (2 :: int) ^ (?w - 1)" using w by (cases ?w) simp_all
    moreover have "0 < (2 :: int) ^ (?w - 1)" by simp
    ultimately have "max_value False ?w < 2 ^ ?w" unfolding max_value_def if_False by linarith
    also have "\<dots> \<le> int ?N" using that by (metis of_nat_le_iff of_nat_numeral of_nat_power)
    finally show ?thesis .
  qed
  consider (overflow) "2 ^ ?w \<le> ?N" | (unsigned) "?N < 2 ^ ?w" "isUnsigned P"
    | (negative) "?N < 2 ^ ?w" "\<not> isUnsigned P" "max_value False ?w < int ?N"
    | (signed) "?N < 2 ^ ?w" "\<not> isUnsigned P" "\<not> max_value False ?w < int ?N" by linarith
  then show ?thesis
  proof cases
    case overflow
    then show ?thesis using v(1) big set [OF x refl] by (simp add: numeric_value_def)
  next
    case unsigned
    then show ?thesis using v(1) set [OF x refl] by (simp add: numeric_value_def)
  next
    case negative
    then show ?thesis using v(1) neg set [OF v1] by (simp add: numeric_value_def Let_def)
  next
    case signed
    then show ?thesis using v(1) neg small by (simp add: numeric_value_def Let_def)
  qed
qed

lemma parses_number:
  assumes "env_ok E view" "getKind t = tok_numeric_constant" "number_value (getIntMaxTWidth E) (env_LO E) t = Some (u, n)"
  shows "parses E view 15 [t] (Number u n)"
proof (rule parses_primary)
  fix live s f fs tail assume s: "stream s ([t] @ f # fs) tail" "getKind f \<noteq> tok_comment"
  let ?w = "getIntMaxTWidth E"
  obtain P where P: "NumericLiteralParser (env_LO E) (tokSpelling t) (tokNext t) = Some P" "\<not> hadError P" "isIntegerLiteral P"
    "\<not> isImaginary P" "u = (isUnsigned P \<or> max_value False ?w < int (digits_value (radix P) 0 (literal_digits P)))"
    "n = int (digits_value (radix P) 0 (literal_digits P)) mod 2 ^ ?w"
    using assms(3) by (auto simp: number_value_def Let_def split: option.splits if_splits)
  have "\<exists>v ds. numeric_value E live P = Some (v, ds) \<and> view v = (?w, u, n)" 
    using numeric_value_number [OF assms(1) P(1-3)] P(5,6) by simp
  then obtain v ds where v: "numeric_value E live P = Some (v, ds)" "view v = (?w, u, n)" by blast
  have pk: "PeekTok s = t" using s(1) by (simp add: stream_def)
  have "getIdentifierInfo t = None" using assms(2) by (simp add: getIdentifierInfo_def isLiteral_def)
  moreover have "\<exists>s'. eval_numeric E live s = Some (Inr ((v, Unknown), s')) \<and> stream s' (f # fs) tail"
  proof -
    let ?s0 = "s\<lparr>pp_diagnostics := pp_diagnostics s @ map (\<lambda>(d, n). (literal_diag d, peek_loc s + n)) (num_diags P)\<rparr>"
    let ?s1 = "PP_Diag (peek_loc s) ds
      (if \<not> env_C99 E \<and> \<not> env_CPlusPlus0x E \<and> isLongLong P then PP_Diag (peek_loc s) [ext_longlong] ?s0 else ?s0)"
    have s1: "stream ?s1 (t # f # fs) tail" using s(1) by (simp add: stream_def)
    have "eval_numeric E live s = LexNonComment ?s1 \<bind> parsed_ok (v, Unknown)"
      using P(1-4) v(1) pk by (simp add: eval_numeric_def Let_def isIntegerLiteral_def isFloatingLiteral_def)
    then show ?thesis using lex_stream(1) [OF s1 s(2)] by (auto simp: parsed_ok_def)
  qed
  ultimately show "\<exists>v DT s'. conv (\<lambda>n. EvaluateValue n E live s) (Inr ((v, DT), s')) \<and> stream s' (f # fs) tail \<and>
      has_value E view live (Number u n) v"
    using v(2) pk assms(2) by (auto simp: value_body_def has_value_def intro!: exI [of _ v] exI [of _ Unknown] value_conv_const)
qed

lemma parses_name:
  assumes "env_ok E view" "pp_identifier II t" "getPPKeywordID (getName II) \<noteq> pp_defined"
  shows "parses E view 15 [t] (Name II)"
proof (rule parses_primary)
  fix live s f fs tail assume s: "stream s ([t] @ f # fs) tail" "getKind f \<noteq> tok_comment"
  have pk: "getIdentifierInfo (PeekTok s) = Some II" using s(1) assms(2) by (simp add: stream_def pp_identifier_def)
  let ?s1 = "if live then PP_Diag (peek_loc s) [warn_pp_undef_identifier (getName II)] s else s"
  have "stream ?s1 (t # f # fs) tail" using s(1) by simp
  then obtain s' where s': "LexNonComment ?s1 = Some s'" "stream s' (f # fs) tail" using lex_stream(1) s(2) by blast
  let ?v = "set_bool E (getTokenID II = tok_kw ''true'') (new_value E)"
  have "conv (\<lambda>n. EvaluateValue n E live s) (Inr ((?v, Unknown), s'))"
    using s' assms(3) by (intro value_conv_const) (simp add: value_body_def pk eval_identifier_def parsed_ok_def)
  moreover have "has_value E view live (Name II) ?v"
    using set_bool_view [OF assms(1) new_value_view [OF assms(1)]] by (simp add: has_value_def)
  ultimately show "\<exists>v DT s'. conv (\<lambda>n. EvaluateValue n E live s) (Inr ((v, DT), s')) \<and> stream s' (f # fs) tail \<and>
      has_value E view live (Name II) v" using s'(2) by blast
qed

lemma defined_operand_plain:
  assumes "env_ok E view" "stream s (x # f # fs) tail" "getKind f \<noteq> tok_comment"
  shows "\<exists>v s'. defined_operand E live False loc II s = Some (Inr ((v, DefinedMacro (getName II)), s')) \<and> stream s' (f # fs) tail \<and>
    has_value E view live (DefinedX II) v"
proof -
  let ?v = "set_bool E (hasMacroDefinition II) (new_value E)"
  let ?s1 = "if aps_nonzero (env_S E) ?v \<and> live then s\<lparr>pp_used := pp_used s @ [getName II]\<rparr> else s"
  have "stream ?s1 (x # f # fs) tail" using assms(2) by (simp add: stream_def)
  then obtain s' where s': "LexNonComment ?s1 = Some s'" "stream s' (f # fs) tail" using lex_stream(1) assms(3) by blast
  then show ?thesis using set_bool_view [OF assms(1) new_value_view [OF assms(1)]]
    by (auto simp: defined_operand_def Let_def parsed_ok_def has_value_def)
qed

lemma defined_operand_paren:
  assumes "env_ok E view" "stream s (x # rp # f # fs) tail" "punct tok_r_paren rp" "getKind f \<noteq> tok_comment"
  shows "\<exists>v s'. defined_operand E live True loc II s = Some (Inr ((v, DefinedMacro (getName II)), s')) \<and> stream s' (f # fs) tail \<and>
    has_value E view live (DefinedX II) v"
proof -
  let ?v = "set_bool E (hasMacroDefinition II) (new_value E)"
  let ?s1 = "if aps_nonzero (env_S E) ?v \<and> live then s\<lparr>pp_used := pp_used s @ [getName II]\<rparr> else s"
  have "stream ?s1 (x # rp # f # fs) tail" "getKind rp \<noteq> tok_comment" using assms(2,3) by (simp_all add: stream_def punct_def)
  then obtain s2 where s2: "LexNonComment ?s1 = Some s2" "stream s2 (rp # f # fs) tail" using lex_stream(1) by blast
  obtain s3 where s3: "LexNonComment s2 = Some s3" "stream s3 (f # fs) tail" using lex_stream(1) [OF s2(2) assms(4)] by blast
  have "peek_kind s2 = tok_r_paren" using s2(2) assms(3) by (simp add: stream_def punct_def)
  then show ?thesis using s2(1) s3 set_bool_view [OF assms(1) new_value_view [OF assms(1)]]
    by (auto simp: defined_operand_def Let_def parsed_ok_def has_value_def)
qed

lemma parses_defined:
  assumes "env_ok E view" "pp_identifier D t" "getPPKeywordID (getName D) = pp_defined" "pp_identifier II x"
  shows "parses E view 15 [t, x] (DefinedX II)"
proof (rule parses_primary)
  fix live s f fs tail assume s: "stream s ([t, x] @ f # fs) tail" "getKind f \<noteq> tok_comment"
  have pk: "getIdentifierInfo (PeekTok s) = Some D" using s(1) assms(2) by (simp add: stream_def pp_identifier_def)
  obtain s1 where s1: "LexUnexpandedToken s = Some s1" "stream s1 (x # f # fs) tail"
    using lex_stream(2) [of s t x "f # fs"] s(1) by auto
  have pk1: "getIdentifierInfo (PeekTok s1) = Some II" "peek_kind s1 \<noteq> tok_l_paren"
    using s1(2) assms(4) by (simp_all add: stream_def pp_identifier_def)
  obtain v s' where v: "defined_operand E live False 0 II s1 = Some (Inr ((v, DefinedMacro (getName II)), s'))"
    "stream s' (f # fs) tail" "has_value E view live (DefinedX II) v"
    using defined_operand_plain [OF assms(1) s1(2) s(2)] by blast
  have "conv (\<lambda>n. EvaluateValue n E live s) (Inr ((v, DefinedMacro (getName II)), s'))"
    using v(1) assms(3) by (intro value_conv_const) (simp add: value_body_def pk eval_defined_def s1(1) pk1 defined_name_def)
  then show "\<exists>v DT s'. conv (\<lambda>n. EvaluateValue n E live s) (Inr ((v, DT), s')) \<and> stream s' (f # fs) tail \<and>
      has_value E view live (DefinedX II) v" using v by blast
qed

lemma parses_defined_paren:
  assumes "env_ok E view" "pp_identifier D t" "getPPKeywordID (getName D) = pp_defined" "pp_identifier II x"
    "punct tok_l_paren lp" "punct tok_r_paren rp"
  shows "parses E view 15 [t, lp, x, rp] (DefinedX II)"
proof (rule parses_primary)
  fix live s f fs tail assume s: "stream s ([t, lp, x, rp] @ f # fs) tail" "getKind f \<noteq> tok_comment"
  have pk: "getIdentifierInfo (PeekTok s) = Some D" using s(1) assms(2) by (simp add: stream_def pp_identifier_def)
  obtain s1 where s1: "LexUnexpandedToken s = Some s1" "stream s1 (lp # x # rp # f # fs) tail"
    using lex_stream(2) [of s t lp "x # rp # f # fs"] s(1) by auto
  obtain s2 where s2: "LexUnexpandedToken s1 = Some s2" "stream s2 (x # rp # f # fs) tail"
    using lex_stream(2) [OF s1(2)] by auto
  have pk1: "peek_kind s1 = tok_l_paren" "getIdentifierInfo (PeekTok s2) = Some II"
    using s1(2) s2(2) assms(4,5) by (simp_all add: stream_def pp_identifier_def punct_def)
  obtain v s' where v: "defined_operand E live True (peek_loc s1) II s2 = Some (Inr ((v, DefinedMacro (getName II)), s'))"
    "stream s' (f # fs) tail" "has_value E view live (DefinedX II) v"
    using defined_operand_paren [OF assms(1) s2(2) assms(6) s(2)] by blast
  have "conv (\<lambda>n. EvaluateValue n E live s) (Inr ((v, DefinedMacro (getName II)), s'))"
    using v(1) assms(3) by (intro value_conv_const) (simp add: value_body_def pk eval_defined_def s1(1) s2(1) pk1 defined_name_def)
  then show "\<exists>v DT s'. conv (\<lambda>n. EvaluateValue n E live s) (Inr ((v, DT), s')) \<and> stream s' (f # fs) tail \<and>
      has_value E view live (DefinedX II) v" using v by blast
qed

section \<open>Operands inside an expression\<close>

text \<open>An operand parsed as the code does: a value, and the operators of precedence \<open>m\<close> and up behind it.\<close>

definition operand_conv :: "'a pp_env \<Rightarrow> int \<Rightarrow> bool \<Rightarrow> pp_state \<Rightarrow> 'a \<Rightarrow> tracker \<Rightarrow> pp_state \<Rightarrow> 'a \<Rightarrow> pp_state \<Rightarrow> bool" where
  "operand_conv E m live s v0 DT s0 v s' \<longleftrightarrow> conv (\<lambda>n. EvaluateValue n E live s) (Inr ((v0, DT), s0)) \<and>
     getPrecedence (peek_kind s0) \<noteq> not_an_operator \<and>
     conv (\<lambda>n. EvaluateDirectiveSubExpr n E m live v0 s0) (Inr (v, s')) \<and>
     (getPrecedence (peek_kind s0) < m \<longrightarrow> v = v0 \<and> s' = s0)"

lemma parses_operand:
  assumes "parses E view p ts e" "m \<le> p" "stream s (ts @ f # fs) tail" "follow p (getKind f)" "getPrecedence (getKind f) < m"
    "live \<Longrightarrow> expr_value (getIntMaxTWidth E) e \<noteq> None"
  shows "\<exists>v0 DT s0 v s'. operand_conv E m live s v0 DT s0 v s' \<and> stream s' (f # fs) tail \<and> has_value E view live e v"
proof -
  obtain v0 DT s0 v s' where v: "conv (\<lambda>n. EvaluateValue n E live s) (Inr ((v0, DT), s0))"
    "getPrecedence (peek_kind s0) \<noteq> not_an_operator" "stream s' (f # fs) tail" "has_value E view live e v"
    and l: "\<And>r. conv (\<lambda>n. sub_expr_loop n E m live (getPrecedence (peek_kind s')) v s') r \<Longrightarrow>
             conv (\<lambda>n. sub_expr_loop n E m live (getPrecedence (peek_kind s0)) v0 s0) r"
    using assms(1-4,6) unfolding parses_def by metis
  have "getPrecedence (peek_kind s') < m" using v(3) assms(5) by (simp add: stream_def)
  then have loop: "conv (\<lambda>n. sub_expr_loop n E m live (getPrecedence (peek_kind s0)) v0 s0) (Inr (v, s'))"
    by (intro l loop_exit)
  have "v = v0 \<and> s' = s0" if "getPrecedence (peek_kind s0) < m"
    using conv_unique [OF loop loop_exit [OF that]] by simp
  then show ?thesis using v sub_expr_conv [OF loop v(2)] unfolding operand_conv_def by blast
qed

lemma follow_15 [simp]: "getKind f \<noteq> tok_comment \<Longrightarrow> follow 15 (getKind f) \<longleftrightarrow> getPrecedence (getKind f) \<noteq> not_an_operator"
  using getPrecedence_range [of "getKind f"] by (auto simp: follow_def)

lemma derives_head: "derives E p ts e \<Longrightarrow> ts \<noteq> [] \<and> getKind (hd ts) \<noteq> tok_comment"
  by (induction rule: derives.induct) (auto simp: pp_identifier_def punct_def)

text \<open>A read in front of an expression.\<close>

lemma lex_derives:
  assumes "stream s (t # ts @ fs) tail" "derives E p ts e"
  shows "\<exists>s'. LexNonComment s = Some s' \<and> stream s' (ts @ fs) tail"
proof -
  obtain u us where ts: "ts = u # us" "getKind u \<noteq> tok_comment" using derives_head [OF assms(2)] by (cases ts) auto
  then show ?thesis using lex_stream(1) [of s t u "us @ fs"] assms(1) by simp
qed

lemma parses_paren:
  assumes "parses E view 3 ts e" "derives E 3 ts e" "punct tok_l_paren lp" "punct tok_r_paren rp"
  shows "parses E view 15 (lp # ts @ [rp]) e"
proof (rule parses_primary)
  fix live s f fs tail assume s: "stream s ((lp # ts @ [rp]) @ f # fs) tail" "getKind f \<noteq> tok_comment"
    and defd: "live \<Longrightarrow> expr_value (getIntMaxTWidth E) e \<noteq> None"
  have rp: "getKind rp = tok_r_paren" "follow 3 (getKind rp)" using assms(4) by (simp_all add: punct_def follow_def not_an_operator_def)
  obtain s1 where s1: "LexNonComment s = Some s1" "stream s1 (ts @ rp # f # fs) tail"
    using lex_derives [OF _ assms(2), of s lp "rp # f # fs" tail] s(1) by auto
  obtain v0 DT s0 v s2 where v: "operand_conv E 1 live s1 v0 DT s0 v s2" "stream s2 (rp # f # fs) tail" "has_value E view live e v"
    using parses_operand [OF assms(1) _ s1(2) rp(2), of 1 live] rp(1) defd by auto
  obtain s3 where s3: "LexNonComment s2 = Some s3" "stream s3 (f # fs) tail" using lex_stream(1) [OF v(2) s(2)] by blast
  have k2: "peek_kind s2 = tok_r_paren" using v(2) rp(1) by (simp add: stream_def)
  let ?close = "\<lambda>v1 s3. if peek_kind s3 \<noteq> tok_r_paren
      then Some (Inl (PP_Diag (peek_loc s) [note_matching ''(''] (PP_Diag (peek_loc s3) [err_pp_expected_rparen] s3)))
      else parsed_ok (v1, Unknown) s3"
  let ?tail = "\<lambda>r s3. LexNonComment s3 \<bind> parsed_ok r"
  have "\<exists>DT'. conv (\<lambda>n. and_then (if peek_kind s0 = tok_r_paren then parsed_ok (v0, DT) s0
      else and_then (EvaluateDirectiveSubExpr n E 1 live v0 s0) ?close) ?tail) (Inr ((v, DT'), s3))"
  proof (cases "peek_kind s0 = tok_r_paren")
    case True
    then have "v = v0" "s2 = s0" using v(1) by (auto simp: operand_conv_def)
    then show ?thesis using True s3(1) by (auto intro!: exI [of _ DT])
  next
    case False
    have "conv (\<lambda>n. EvaluateDirectiveSubExpr n E 1 live v0 s0) (Inr (v, s2))" using v(1) by (simp add: operand_conv_def)
    then have "conv (\<lambda>n. and_then (EvaluateDirectiveSubExpr n E 1 live v0 s0) ?close) (Inr ((v, Unknown), s2))"
      by (rule conv_and_then) (simp add: k2)
    then have "conv (\<lambda>n. and_then (and_then (EvaluateDirectiveSubExpr n E 1 live v0 s0) ?close) ?tail) (Inr ((v, Unknown), s3))"
      by (rule conv_and_then) (simp add: s3(1))
    then show ?thesis using False by auto
  qed
  then obtain DT' where rest: "conv (\<lambda>n. and_then (if peek_kind s0 = tok_r_paren then parsed_ok (v0, DT) s0
      else and_then (EvaluateDirectiveSubExpr n E 1 live v0 s0) ?close) ?tail) (Inr ((v, DT'), s3))" by blast
  have pk: "PeekTok s = lp" using s(1) by (simp add: stream_def)
  have val: "conv (\<lambda>n. EvaluateValue n E live s1) (Inr ((v0, DT), s0))" using v(1) by (simp add: operand_conv_def)
  have "conv (\<lambda>n. eval_paren (\<lambda>live. EvaluateValue n E live) (\<lambda>MinPrec live. EvaluateDirectiveSubExpr n E MinPrec live) live s)
      (Inr ((v, DT'), s3))"
    unfolding eval_paren_def Let_def s1(1) bind.simps option.simps
    by (rule conv_and_then [OF val]) (use rest in simp)
  then have "conv (\<lambda>n. EvaluateValue n E live s) (Inr ((v, DT'), s3))"
    using assms(3) pk by (intro conv_Suc [where F = "\<lambda>n. EvaluateValue n E live s"]) (simp add: value_body_def punct_def)
  then show "\<exists>v DT s'. conv (\<lambda>n. EvaluateValue n E live s) (Inr ((v, DT), s')) \<and> stream s' (f # fs) tail \<and> has_value E view live e v"
    using s3(2) v(3) by blast
qed

lemma unary_conv:
  assumes "conv (\<lambda>n. EvaluateValue n E live s1) (Inr (r, s0))" "LexNonComment s = Some s1" "f r s0 = Some (Inr (r', s'))"
  shows "conv (\<lambda>n. eval_unary (\<lambda>live. EvaluateValue n E live) live f s) (Inr (r', s'))"
  unfolding eval_unary_def assms(2) using conv_and_then [OF assms(1), of "\<lambda>n. f"] assms(3) by simp

lemma unary_value_has_value:
  assumes "env_ok E view" "has_value E view live e v"
  shows "has_value E view live (UnaryOp tok_plus e) v"
    "has_value E view live (UnaryOp tok_minus e) (aps_neg (env_S E) v)"
    "has_value E view live (UnaryOp tok_tilde e) (aps_not (env_S E) v)"
    "has_value E view live (UnaryOp tok_exclaim e) (set_bool E (\<not> aps_nonzero (env_S E) v) v)"
proof -
  obtain x where x: "view v = (getIntMaxTWidth E, expr_unsigned e, x)" "live \<longrightarrow> expr_value (getIntMaxTWidth E) e = Some x"
    using assms(2) by (auto simp: has_value_def)
  show "has_value E view live (UnaryOp tok_plus e) v"
    "has_value E view live (UnaryOp tok_minus e) (aps_neg (env_S E) v)"
    "has_value E view live (UnaryOp tok_tilde e) (aps_not (env_S E) v)"
    "has_value E view live (UnaryOp tok_exclaim e) (set_bool E (\<not> aps_nonzero (env_S E) v) v)"
    using x env_ops(5,6,7) [OF assms(1) x(1)] set_bool_view [OF assms(1) x(1), of "x = 0"]
    by (simp_all add: has_value_def unary_value_def)
qed

lemma parses_unary:
  assumes "env_ok E view" "parses E view 15 ts e" "derives E 15 ts e" "punct k t" "k \<in> {tok_plus, tok_minus, tok_tilde, tok_exclaim}"
  shows "parses E view 15 (t # ts) (UnaryOp k e)"
proof (rule parses_primary)
  fix live s f fs tail assume s: "stream s ((t # ts) @ f # fs) tail" "getKind f \<noteq> tok_comment" "getPrecedence (getKind f) \<noteq> not_an_operator"
    and defd: "live \<Longrightarrow> expr_value (getIntMaxTWidth E) (UnaryOp k e) \<noteq> None"
  have f: "follow 15 (getKind f)" "getPrecedence (getKind f) < 15"
    using s(2,3) getPrecedence_range [of "getKind f"] by auto
  obtain s1 where s1: "LexNonComment s = Some s1" "stream s1 (ts @ f # fs) tail"
    using lex_derives [OF _ assms(3), of s t "f # fs" tail] s(1) by auto
  obtain v0 DT s0 v s' where v: "operand_conv E 15 live s1 v0 DT s0 v s'" "stream s' (f # fs) tail" "has_value E view live e v"
    using parses_operand [OF assms(2) _ s1(2) f, of live] defd by auto
  have "getPrecedence (peek_kind s0) < 15" using v(1) getPrecedence_range [of "peek_kind s0"] by (auto simp: operand_conv_def)
  then have val: "conv (\<lambda>n. EvaluateValue n E live s1) (Inr ((v, DT), s'))" using v(1) by (simp add: operand_conv_def)
  have pk: "getKind (PeekTok s) = k" "getIdentifierInfo (PeekTok s) = None" using s(1) assms(4) by (simp_all add: stream_def punct_def)
  note unary = conv_Suc [where F = "\<lambda>n. EvaluateValue n E live s"]
  note conv1 = unary_conv [OF val s1(1)]
  note V = unary_value_has_value [OF assms(1) v(3)]
  from assms(5) show "\<exists>v DT s'. conv (\<lambda>n. EvaluateValue n E live s) (Inr ((v, DT), s')) \<and> stream s' (f # fs) tail \<and>
      has_value E view live (UnaryOp k e) v"
  proof (elim insertE emptyE)
    assume k: "k = tok_plus"
    have "conv (\<lambda>n. EvaluateValue n E live s) (Inr ((v, DT), s'))"
      by (rule unary) (use pk k conv1 [of parsed_ok "(v, DT)" s'] in \<open>simp add: value_body_def parsed_ok_def\<close>)
    then show ?thesis using v(2) V(1) k by blast
  next
    assume k: "k = tok_minus"
    let ?v = "aps_neg (env_S E) v"
    let ?s = "if (\<not> aps_isUnsigned (env_S E) ?v \<and> aps_isMinSignedValue (env_S E) ?v) \<and> live
      then PP_Diag (peek_loc s) [warn_pp_expr_overflow] s' else s'"
    have "conv (\<lambda>n. EvaluateValue n E live s) (Inr ((?v, Unknown), ?s))"
      by (rule unary) (use pk k conv1 [of "\<lambda>(v, DT). unary_minus E live (peek_loc s) v" "(?v, Unknown)" ?s] in
        \<open>simp add: value_body_def unary_minus_def Let_def parsed_ok_def\<close>)
    moreover have "stream ?s (f # fs) tail" using v(2) by simp
    ultimately show ?thesis using V(2) k by blast
  next
    assume k: "k = tok_tilde"
    let ?v = "aps_not (env_S E) v"
    have "conv (\<lambda>n. EvaluateValue n E live s) (Inr ((?v, Unknown), s'))"
      by (rule unary) (use pk k conv1 [of "\<lambda>(v, DT). parsed_ok (aps_not (env_S E) v, Unknown)" "(?v, Unknown)" s'] in
        \<open>simp add: value_body_def parsed_ok_def\<close>)
    then show ?thesis using v(2) V(3) k by blast
  next
    assume k: "k = tok_exclaim"
    let ?v = "set_bool E (\<not> aps_nonzero (env_S E) v) v"
    have "conv (\<lambda>n. EvaluateValue n E live s) (Inr ((?v, negate_tracker DT), s'))"
      by (rule unary) (use pk k conv1 [of "\<lambda>(v, DT). unary_not E v DT" "(?v, negate_tracker DT)" s'] in
        \<open>simp add: value_body_def unary_not_def parsed_ok_def\<close>)
    then show ?thesis using v(2) V(4) k by blast
  qed
qed

lemma round_conv:
  assumes "operand_conv E (if peek_kind s = tok_question then getPrecedence tok_comma else getPrecedence (peek_kind s) + 1)
      (rhs_is_live E (peek_kind s) live v) s1 r0 DT s0 r s2"
    "LexNonComment s = Some s1" "getPrecedence (peek_kind s2) \<le> getPrecedence (peek_kind s)"
    "conv (\<lambda>n. if peek_kind s = tok_question
       then eval_conditional E (\<lambda>live. EvaluateValue n E live) (\<lambda>MinPrec live. EvaluateDirectiveSubExpr n E MinPrec live)
         (getPrecedence (peek_kind s)) live (peek_loc s) v r s2
       else apply_operator E (peek_kind s) live (peek_loc s) v r s2) (Inr (v', s'))"
  shows "conv (\<lambda>n. loop_round E (\<lambda>live. EvaluateValue n E live) (\<lambda>MinPrec live. EvaluateDirectiveSubExpr n E MinPrec live)
      live (getPrecedence (peek_kind s)) v s) (Inr (v', s'))"
proof -
  let ?RHSPrec = "if peek_kind s = tok_question then getPrecedence tok_comma else getPrecedence (peek_kind s) + 1"
  let ?live = "rhs_is_live E (peek_kind s) live v"
  let ?finish = "\<lambda>n R s3. if \<not> getPrecedence (peek_kind s3) \<le> getPrecedence (peek_kind s) then None
    else if peek_kind s = tok_question
      then eval_conditional E (\<lambda>live. EvaluateValue n E live) (\<lambda>MinPrec live. EvaluateDirectiveSubExpr n E MinPrec live)
        (getPrecedence (peek_kind s)) live (peek_loc s) v R s3
      else apply_operator E (peek_kind s) live (peek_loc s) v R s3"
  have "conv (\<lambda>n. if ?RHSPrec \<le> getPrecedence (peek_kind s0) then EvaluateDirectiveSubExpr n E ?RHSPrec ?live r0 s0
      else parsed_ok r0 s0) (Inr (r, s2))"
    using assms(1) by (cases "?RHSPrec \<le> getPrecedence (peek_kind s0)") (simp_all add: operand_conv_def del: getPrecedence_simps)
  then have "conv (\<lambda>n. and_then (if ?RHSPrec \<le> getPrecedence (peek_kind s0) then EvaluateDirectiveSubExpr n E ?RHSPrec ?live r0 s0
      else parsed_ok r0 s0) (?finish n)) (Inr (v', s'))"
    by (rule conv_and_then [where G = ?finish]) (use assms(3,4) in simp)
  then show ?thesis
    unfolding loop_round_def Let_def assms(2) bind.simps
    by (intro conv_and_then [where v = "(r0, DT)" and s = s0]) (use assms(1) in \<open>simp_all add: operand_conv_def del: getPrecedence_simps\<close>)
qed

lemma rhs_is_live_defined:
  assumes "env_ok E view" "has_value E view live l v" "live \<Longrightarrow> expr_value (getIntMaxTWidth E) (BinaryOp k l r) \<noteq> None"
    "rhs_is_live E k live v" "k \<noteq> tok_question"
  shows "expr_value (getIntMaxTWidth E) r \<noteq> None"
proof -
  obtain x where x: "view v = (getIntMaxTWidth E, expr_unsigned l, x)" "live \<longrightarrow> expr_value (getIntMaxTWidth E) l = Some x"
    using assms(2) by (auto simp: has_value_def)
  show ?thesis using assms(3-5) x(2) env_ops(7) [OF assms(1) x(1)]
    by (auto simp: rhs_is_live_def split: if_splits option.splits)
qed

lemma precedence_4: "getPrecedence k = 4 \<longleftrightarrow> k = tok_question"
  by (cases k) (simp_all add: getPrecedence_def not_an_operator_def)

lemma parses_binary:
  assumes "env_ok E view" "getIntMaxTWidth E < 2 ^ 31" "getKind t = k" "getPrecedence k = p" "3 \<le> p" "p \<le> 14" "k \<noteq> tok_question"
    "parses E view p ls l" "parses E view (p + 1) rs r" "derives E (p + 1) rs r"
  shows "parses E view p (ls @ t # rs) (BinaryOp k l r)"
  unfolding parses_def
proof (intro allI impI)
  fix live m s f fs tail
  assume m: "m \<le> p" and s: "stream s ((ls @ t # rs) @ f # fs) tail" and f: "follow p (getKind f)"
    and defd: "live \<longrightarrow> expr_value (getIntMaxTWidth E) (BinaryOp k l r) \<noteq> None"
  have p: "p \<noteq> 4" "k \<noteq> tok_colon" "getPrecedence k \<noteq> not_an_operator" "1 \<le> getPrecedence k"
    using assms(4-7) precedence_4 [of k] by (auto simp: not_an_operator_def)
  have fk: "follow p (getKind t)" using p assms(3,4) by (simp add: follow_def)
  have fp: "getPrecedence (getKind f) \<le> p" "follow (p + 1) (getKind f)" using f p(1) by (auto simp: follow_def)
  have ldef: "live \<longrightarrow> expr_value (getIntMaxTWidth E) l \<noteq> None" using defd by (auto split: option.splits)
  obtain v0 DT s0 v1 s1 where v1: "conv (\<lambda>n. EvaluateValue n E live s) (Inr ((v0, DT), s0))"
      "getPrecedence (peek_kind s0) \<noteq> not_an_operator" "stream s1 (t # rs @ f # fs) tail" "has_value E view live l v1"
    and l: "\<And>r. conv (\<lambda>n. sub_expr_loop n E m live (getPrecedence (peek_kind s1)) v1 s1) r \<Longrightarrow>
             conv (\<lambda>n. sub_expr_loop n E m live (getPrecedence (peek_kind s0)) v0 s0) r"
    using assms(8) [unfolded parses_def, rule_format, OF m _ fk, of s "rs @ f # fs" tail live] s ldef by auto
  obtain s2 where s2: "LexNonComment s1 = Some s2" "stream s2 (rs @ f # fs) tail"
    using lex_derives [OF _ assms(10), of s1 t "f # fs" tail] v1(3) by auto
  let ?live = "rhs_is_live E k live v1"
  obtain w0 DTr s0r v2 s3 where v2: "operand_conv E (p + 1) ?live s2 w0 DTr s0r v2 s3" "stream s3 (f # fs) tail" "has_value E view ?live r v2"
    using parses_operand [OF assms(9) order_refl s2(2) fp(2), of ?live] fp(1)
      rhs_is_live_defined [OF assms(1) v1(4) _ _ assms(7), of r] defd by auto
  obtain v s4 where v: "apply_operator E k live (peek_loc s1) v1 v2 s3 = Some (Inr (v, s4))" "has_value E view live (BinaryOp k l r) v"
    "PeekTok s4 = PeekTok s3" "pp_items s4 = pp_items s3"
    using apply_operator_value [OF assms(1,2) v1(4) v2(3) _ p(4,3) assms(7) p(2)] defd by blast
  have k1: "peek_kind s1 = k" "getPrecedence (peek_kind s3) \<le> p" using v1(3) v2(2) assms(3) fp(1) by (simp_all add: stream_def)
  have round: "conv (\<lambda>n. loop_round E (\<lambda>live. EvaluateValue n E live) (\<lambda>MinPrec live. EvaluateDirectiveSubExpr n E MinPrec live)
      live (getPrecedence (peek_kind s1)) v1 s1) (Inr (v, s4))"
    by (rule round_conv [of E s1 live v1 s2 w0 DTr s0r v2 s3]) (use v2(1) s2(1) k1 assms(4,7) v(1) in simp_all)
  have "conv (\<lambda>n. sub_expr_loop n E m live (getPrecedence (peek_kind s0)) v0 s0) x"
    if "conv (\<lambda>n. sub_expr_loop n E m live (getPrecedence (peek_kind s4)) v s4) x" for x
    by (rule l, rule loop_round_conv [OF round _ that]) (use k1(1) m assms(4) in simp)
  then show "\<exists>v0 DT s0 v s'. conv (\<lambda>n. EvaluateValue n E live s) (Inr ((v0, DT), s0)) \<and>
        getPrecedence (peek_kind s0) \<noteq> not_an_operator \<and> stream s' (f # fs) tail \<and> has_value E view live (BinaryOp k l r) v \<and>
        (\<forall>r. conv (\<lambda>n. sub_expr_loop n E m live (getPrecedence (peek_kind s')) v s') r \<longrightarrow>
             conv (\<lambda>n. sub_expr_loop n E m live (getPrecedence (peek_kind s0)) v0 s0) r)"
    using v1(1,2) v(2) stream_same [OF v2(2) v(3,4)] by blast
qed

lemma conditional_has_value:
  assumes "env_ok E view" "has_value E view live c C" "has_value E view (rhs_is_live E tok_question live C) a A"
    "has_value E view (live \<and> \<not> aps_nonzero (env_S E) C) b B"
  shows "has_value E view live (Conditional c a b) (conditional_value E C A B)"
proof -
  let ?w = "getIntMaxTWidth E"
  obtain x where x: "view C = (?w, expr_unsigned c, x)" "live \<longrightarrow> expr_value ?w c = Some x"
    using assms(2) by (auto simp: has_value_def)
  note nz = env_ops(7) [OF assms(1) x(1)]
  obtain y where y: "view A = (?w, expr_unsigned a, y)" "live \<longrightarrow> x \<noteq> 0 \<longrightarrow> expr_value ?w a = Some y"
    using assms(3) nz by (auto simp: has_value_def rhs_is_live_def split: if_splits)
  obtain z where z: "view B = (?w, expr_unsigned b, z)" "live \<longrightarrow> x = 0 \<longrightarrow> expr_value ?w b = Some z"
    using assms(4) nz by (auto simp: has_value_def)
  note u = env_ops(2) [OF assms(1) y(1)] env_ops(2) [OF assms(1) z(1)]
  note set = env_ops(4) [OF assms(1) y(1), of "expr_unsigned a \<or> expr_unsigned b"]
    env_ops(4) [OF assms(1) z(1), of "expr_unsigned a \<or> expr_unsigned b"]
  show ?thesis using x y z nz u set by (auto simp: has_value_def conditional_value_def Let_def)
qed

lemma eval_conditional_conv:
  assumes "operand_conv E p (live \<and> \<not> aps_nonzero (env_S E) C) s1 b0 DT s0 B s2" "LexNonComment s = Some s1"
    "peek_kind s = tok_colon"
  shows "conv (\<lambda>n. eval_conditional E (\<lambda>live. EvaluateValue n E live) (\<lambda>MinPrec live. EvaluateDirectiveSubExpr n E MinPrec live)
    p live loc C A s) (Inr (conditional_value E C A B, s2))"
proof -
  let ?live = "live \<and> \<not> aps_nonzero (env_S E) C"
  let ?finish = "\<lambda>n v1 s3. parsed_ok (conditional_value E C A v1) s3"
  have "conv (\<lambda>n. and_then (EvaluateDirectiveSubExpr n E p ?live b0 s0) (?finish n)) (Inr (conditional_value E C A B, s2))"
    by (rule conv_and_then [where G = ?finish and v = B and s = s2]) (use assms(1) in \<open>simp_all add: operand_conv_def\<close>)
  then show ?thesis unfolding eval_conditional_def Let_def assms(2) bind.simps
    using assms(1,3) by (simp add: operand_conv_def) (rule conv_and_then [where v = "(b0, DT)" and s = s0], auto)
qed

lemma parses_conditional:
  assumes E: "env_ok E view" and q: "getKind q = tok_question" and d: "getKind d = tok_colon"
    and c: "parses E view 5 cs c" and a: "parses E view 3 as a" "derives E 3 as a" and b: "parses E view 4 bs b" "derives E 4 bs b"
  shows "parses E view 4 (cs @ q # as @ d # bs) (Conditional c a b)"
  unfolding parses_def
proof (intro allI impI)
  fix live and m :: int and s f fs tail
  assume m: "m \<le> 4" and s: "stream s ((cs @ q # as @ d # bs) @ f # fs) tail" and f: "follow 4 (getKind f)"
    and defd: "live \<longrightarrow> expr_value (getIntMaxTWidth E) (Conditional c a b) \<noteq> None"
  let ?w = "getIntMaxTWidth E"
  have fol: "follow 5 (getKind q)" "follow 3 (getKind d)" "getPrecedence (getKind d) < 3" "getPrecedence (getKind f) < 4"
    using q d f by (simp_all add: follow_def not_an_operator_def)
  have cdef: "live \<longrightarrow> expr_value ?w c \<noteq> None" using defd by (auto split: option.splits)
  obtain v0 DT s0 C s1 where C: "conv (\<lambda>n. EvaluateValue n E live s) (Inr ((v0, DT), s0))"
      "getPrecedence (peek_kind s0) \<noteq> not_an_operator" "stream s1 (q # as @ d # bs @ f # fs) tail" "has_value E view live c C"
    and l: "\<And>r. conv (\<lambda>n. sub_expr_loop n E m live (getPrecedence (peek_kind s1)) C s1) r \<Longrightarrow>
             conv (\<lambda>n. sub_expr_loop n E m live (getPrecedence (peek_kind s0)) v0 s0) r"
    using c [unfolded parses_def, rule_format, OF _ _ fol(1), of m s "as @ d # bs @ f # fs" tail live] m s cdef by auto
  have defs: "rhs_is_live E tok_question live C \<Longrightarrow> expr_value ?w a \<noteq> None"
    "live \<and> \<not> aps_nonzero (env_S E) C \<Longrightarrow> expr_value ?w b \<noteq> None"
  proof -
    obtain x where x: "view C = (?w, expr_unsigned c, x)" "live \<longrightarrow> expr_value ?w c = Some x"
      using C(4) by (auto simp: has_value_def)
    note nz = env_ops(7) [OF E x(1)]
    show "expr_value ?w a \<noteq> None" if "rhs_is_live E tok_question live C"
      using that nz x(2) defd by (auto simp: rhs_is_live_def split: if_splits)
    show "expr_value ?w b \<noteq> None" if "live \<and> \<not> aps_nonzero (env_S E) C" using that nz x(2) defd by auto
  qed
  obtain s2 where s2: "LexNonComment s1 = Some s2" "stream s2 (as @ d # bs @ f # fs) tail"
    using lex_derives [OF _ a(2), of s1 q "d # bs @ f # fs" tail] C(3) by auto
  obtain a0 DTa s0a A s3 where A: "operand_conv E 3 (rhs_is_live E tok_question live C) s2 a0 DTa s0a A s3"
    "stream s3 (d # bs @ f # fs) tail" "has_value E view (rhs_is_live E tok_question live C) a A"
    using parses_operand [OF a(1) order_refl s2(2) fol(2,3)] defs(1) by blast
  obtain s4 where s4: "LexNonComment s3 = Some s4" "stream s4 (bs @ f # fs) tail"
    using lex_derives [OF _ b(2), of s3 d "f # fs" tail] A(2) by auto
  obtain b0 DTb s0b B s5 where B: "operand_conv E 4 (live \<and> \<not> aps_nonzero (env_S E) C) s4 b0 DTb s0b B s5"
    "stream s5 (f # fs) tail" "has_value E view (live \<and> \<not> aps_nonzero (env_S E) C) b B"
    using parses_operand [OF b(1) order_refl s4(2) f fol(4), of "live \<and> \<not> aps_nonzero (env_S E) C", OF defs(2)] by auto
  have k: "peek_kind s1 = tok_question" "peek_kind s3 = tok_colon" using C(3) A(2) q d by (simp_all add: stream_def)
  have round: "conv (\<lambda>n. loop_round E (\<lambda>live. EvaluateValue n E live) (\<lambda>MinPrec live. EvaluateDirectiveSubExpr n E MinPrec live)
      live (getPrecedence (peek_kind s1)) C s1) (Inr (conditional_value E C A B, s5))"
    by (rule round_conv [of E s1 live C s2 a0 DTa s0a A s3])
      (use A(1) s2(1) k eval_conditional_conv [OF B(1) s4(1) k(2)] in simp_all)
  have "conv (\<lambda>n. sub_expr_loop n E m live (getPrecedence (peek_kind s0)) v0 s0) x"
    if "conv (\<lambda>n. sub_expr_loop n E m live (getPrecedence (peek_kind s5)) (conditional_value E C A B) s5) x" for x
    by (rule l, rule loop_round_conv [OF round _ that]) (use k(1) m in simp)
  then show "\<exists>v0 DT s0 v s'. conv (\<lambda>n. EvaluateValue n E live s) (Inr ((v0, DT), s0)) \<and>
        getPrecedence (peek_kind s0) \<noteq> not_an_operator \<and> stream s' (f # fs) tail \<and> has_value E view live (Conditional c a b) v \<and>
        (\<forall>r. conv (\<lambda>n. sub_expr_loop n E m live (getPrecedence (peek_kind s')) v s') r \<longrightarrow>
             conv (\<lambda>n. sub_expr_loop n E m live (getPrecedence (peek_kind s0)) v0 s0) r)"
    using C(1,2) B(2) conditional_has_value [OF E C(4) A(3) B(3)] by blast
qed

lemma parses_level:
  assumes "parses E view q ts e" "p \<le> q"
  shows "parses E view p ts e"
proof -
  have "follow q k" if "follow p k" for k using that assms(2) by (auto simp: follow_def split: if_splits)
  then show ?thesis using assms(1) order_trans [OF _ assms(2)] unfolding parses_def by (elim all_forward imp_forward) assumption+
qed

lemma derives_parses:
  assumes "env_ok E view" "getIntMaxTWidth E < 2 ^ 31" "derives E p ts e"
  shows "parses E view p ts e"
  using assms(3)
proof (induction rule: derives.induct)
  case (number t u n)
  then show ?case by (rule parses_number [OF assms(1)])
next
  case (name II t)
  then show ?case by (rule parses_name [OF assms(1)])
next
  case (defined_name D t II x)
  then show ?case by (rule parses_defined [OF assms(1)])
next
  case (defined_paren D t II x lp rp)
  then show ?case by (rule parses_defined_paren [OF assms(1)])
next
  case (paren lp rp ts e)
  then show ?case by (intro parses_paren)
next
  case (unary k t ts e)
  then show ?case by (intro parses_unary [OF assms(1)])
next
  case (binary t k p ls l rs r)
  then show ?case by (intro parses_binary [OF assms(1,2)])
next
  case (conditional q d cs c as a bs b)
  show ?case by (rule parses_conditional [OF assms(1) conditional.hyps(1,2) conditional.IH(1) conditional.IH(2) conditional.hyps(4)
    conditional.IH(3) conditional.hyps(5)])
next
  case (level q ts e p)
  show ?case by (rule parses_level [OF level.IH level.hyps(3)])
qed

lemma EvaluateDirectiveExpression_reads:
  assumes "env_ok E view" "getIntMaxTWidth E < 2 ^ 31" "derives E 4 ts e"
    "pp_items s = map Plain (ts @ [t]) @ rest" "is_eom t" "expr_value (getIntMaxTWidth E) e = Some x"
  shows "\<exists>N0 ifn s'. (\<forall>N \<ge> N0. EvaluateDirectiveExpression N E s = Some (x \<noteq> 0, ifn, s')) \<and> pp_items s' = rest"
proof -
  obtain u us where ts: "ts = u # us" using derives_head [OF assms(3)] by (cases ts) auto
  let ?s1 = "s\<lparr>pp_items := map Plain (us @ [t]) @ rest, PeekTok := u\<rparr>"
  have lex: "PP_Lex s = Some ?s1" using assms(4) ts by (simp add: PP_Lex_def read_token_def)
  have s1: "stream ?s1 (ts @ t # []) rest" using ts by (simp add: stream_def)
  have t: "getKind t = tok_eom" "follow 4 (getKind t)" "getPrecedence (getKind t) < 4"
    using assms(5) by (simp_all add: is_eom_def follow_def not_an_operator_def)
  obtain v0 DT s0 v s' where v: "operand_conv E 4 True ?s1 v0 DT s0 v s'" "stream s' (t # []) rest" "has_value E view True e v"
    using parses_operand [OF derives_parses [OF assms(1-3)] order_refl s1 t(2,3)] assms(6) by blast
  have nz: "aps_nonzero (env_S E) v \<longleftrightarrow> x \<noteq> 0"
    using v(3) assms(6) env_ops(7) [OF assms(1)] by (auto simp: has_value_def)
  have pk: "peek_kind s' = tok_eom" "pp_items s' = rest" using v(2) t(1) by (simp_all add: stream_def)
  obtain M N where M: "\<And>n. M \<le> n \<Longrightarrow> EvaluateValue n E True ?s1 = Some (Inr ((v0, DT), s0))"
    and N: "\<And>n. N \<le> n \<Longrightarrow> EvaluateDirectiveSubExpr n E 4 True v0 s0 = Some (Inr (v, s'))"
    using v(1) by (auto simp: operand_conv_def conv_def)
  show ?thesis
  proof (cases "peek_kind s0 = tok_eom")
    case True
    then have "v = v0" "s' = s0" using v(1) by (auto simp: operand_conv_def)
    then show ?thesis using True M pk nz
      by (intro exI [of _ M] exI [of _ "case DT of NotDefinedMacro X \<Rightarrow> Some X | _ \<Rightarrow> None"] exI [of _ s'])
        (simp add: EvaluateDirectiveExpression_def lex)
  next
    case False
    have "EvaluateDirectiveExpression n E s = Some (x \<noteq> 0, None, s')" if "max M N \<le> n" for n
      using that M [of n] N [of n] False pk nz by (simp add: EvaluateDirectiveExpression_def lex)
    then show ?thesis using pk by blast
  qed
qed

end
