(* ===== verification/PPExpressionsBehaviour.thy ===== *)
theory PPExpressionsBehaviour
  imports PPExpressionsCorrect
begin

text \<open>
  Theorems on \<^verbatim>\<open>PPExpressions.cpp\<close>: its value and that it returns, its overflow flags, the macro it
  reports for an include guard, its silence on operands that are not evaluated, and the shift amounts and
  character constants it truncates. The witnesses run it with \<open>view_apsint\<close> for \<^verbatim>\<open>APSInt\<close>.
\<close>

section \<open>Overflow\<close>

text \<open>
  The flags of \<^verbatim>\<open>EvaluateDirectiveSubExpr\<close> are exact: an operator overflows when its result
  in the integers is not a number of the width and signedness of the operands.
\<close>

lemma wrap_to_congruent:
  assumes "0 < w"
  obtains k where "wrap_to u w z = z + k * 2 ^ w"
proof -
  have "(wrap_to u w z) mod 2 ^ w = z mod 2 ^ w" using take_bit_wrap_to [of w u z] by (simp add: take_bit_eq_mod)
  then have "2 ^ w dvd wrap_to u w z - z" by (simp add: mod_eq_dvd_iff)
  then obtain k where "wrap_to u w z - z = 2 ^ w * k" by (auto elim: dvdE)
  then show ?thesis by (intro that [of k]) (simp add: mult.commute)
qed

lemma width_range:
  assumes "0 < w"
  shows "max_value u w = min_value u w + 2 ^ w - 1" "- (2 ^ w) \<le> 2 * min_value u w" "min_value u w \<le> 0"
    "min_value True w = 0" "2 * min_value False w = - (2 ^ w)"
  using assms by (cases w; simp add: min_value_def max_value_def)+

text \<open>Within one period of the width, a number wraps at most once.\<close>

lemma wrapped_near:
  assumes "0 < w" "min_value u w - 2 ^ w \<le> z" "z \<le> max_value u w + 2 ^ w"
  shows "wrap_to u w z = (if z < min_value u w then z + 2 ^ w else if max_value u w < z then z - 2 ^ w else z)"
proof -
  note m = width_range(1) [OF assms(1), of u]
  have c: "wrap_to u w (z + 2 ^ w) = wrap_to u w z" "wrap_to u w (z - 2 ^ w) = wrap_to u w z"
    by (rule wrap_to_cong [OF assms(1)]; simp add: take_bit_eq_mod)+
  consider "z < min_value u w" | "\<not> z < min_value u w" "max_value u w < z" | "min_value u w \<le> z" "z \<le> max_value u w" by linarith
  then show ?thesis
  proof cases
    case 1
    then have "wrap_to u w (z + 2 ^ w) = z + 2 ^ w" using assms m by (intro wrap_to_id) linarith+
    then show ?thesis using 1 c by simp
  next
    case 2
    then have "wrap_to u w (z - 2 ^ w) = z - 2 ^ w" using assms m by (intro wrap_to_id) linarith+
    then show ?thesis using 2 c by simp
  next
    case 3
    then show ?thesis using wrap_to_id [OF 3] by simp
  qed
qed

lemma wraps_iff: "wrap_to u w z \<noteq> z \<longleftrightarrow> z < min_value u w \<or> max_value u w < z"
  using wrap_to_eq_iff [of u w z] by linarith

lemma view_ult:
  assumes "apsint S view" "view x = (w, True, a)" "view y = (w, True, b)"
  shows "ap_ult (aps_int S) x y \<longleftrightarrow> a < b"
proof -
  have r: "take_bit w a = a" "take_bit w b = b"
    using apsint.aps_range [OF assms(1,2)] apsint.aps_range [OF assms(1,3)] by (simp_all add: wrap_to_def)
  have "0 \<le> a" "0 \<le> b" by (subst r [symmetric], simp)+
  moreover have "ap_ult (aps_int S) x y \<longleftrightarrow> view_bits (view x) < view_bits (view y)"
    by (rule apint.ult [OF apsint.axioms(1) [OF assms(1)]]) (simp add: assms)
  ultimately show ?thesis by (auto simp: assms(2,3) view_bits_def r)
qed

lemma addition_flag:
  assumes "env_ok E view" "0 < w" "view L = (w, u, a)" "view R = (w, u, b)"
  shows "addition E L R = OpValue (aps_add (env_S E) L R) (wrap_to u w (a + b) \<noteq> a + b)"
proof -
  have S: "apsint (env_S E) view" by (rule env_ok_apsint [OF assms(1)])
  note r = apsint.aps_range [OF S assms(3)] apsint.aps_range [OF S assms(4)]
  note v = apsint.aps_add [OF S assms(3,4)]
  note W = width_range [OF assms(2)]
  have rng: "min_value u w \<le> a" "a \<le> max_value u w" "min_value u w \<le> b" "b \<le> max_value u w"
    using r by (simp_all add: wrap_to_eq_iff)
  have near: "wrap_to u w (a + b) = (if a + b < min_value u w then a + b + 2 ^ w
      else if max_value u w < a + b then a + b - 2 ^ w else a + b)"
    by (rule wrapped_near [OF assms(2)]) (use rng W(1-3) [of u] in linarith)+
  have u: "aps_isUnsigned (env_S E) L = u" by (rule apsint.aps_isUnsigned [OF S assms(3)])
  have neg: "aps_isNegative (env_S E) L \<longleftrightarrow> a < 0" "aps_isNegative (env_S E) R \<longleftrightarrow> b < 0"
    "aps_isNegative (env_S E) (aps_add (env_S E) L R) \<longleftrightarrow> wrap_to False w (a + b) < 0" if "\<not> u"
    using apsint.aps_isNegative [OF S] assms(3,4) v r that by auto
  show ?thesis
  proof (cases u)
    case True
    have "ap_ult (aps_int (env_S E)) (aps_add (env_S E) L R) L \<longleftrightarrow> wrap_to True w (a + b) < a"
      by (rule view_ult [OF S]) (use v assms(3) True in simp_all)
    then show ?thesis unfolding addition_def Let_def u wraps_iff using near rng W(1) [of u] W(4) True by auto
  next
    case False
    show ?thesis unfolding addition_def Let_def u wraps_iff neg [OF False] using near rng W(1) [of u] W(5) False by auto
  qed
qed

lemma subtraction_flag:
  assumes "env_ok E view" "0 < w" "view L = (w, u, a)" "view R = (w, u, b)"
  shows "subtraction E L R = OpValue (aps_sub (env_S E) L R) (wrap_to u w (a - b) \<noteq> a - b)"
proof -
  have S: "apsint (env_S E) view" by (rule env_ok_apsint [OF assms(1)])
  note r = apsint.aps_range [OF S assms(3)] apsint.aps_range [OF S assms(4)]
  note v = apsint.aps_sub [OF S assms(3,4)]
  note W = width_range [OF assms(2)]
  have rng: "min_value u w \<le> a" "a \<le> max_value u w" "min_value u w \<le> b" "b \<le> max_value u w"
    using r by (simp_all add: wrap_to_eq_iff)
  have near: "wrap_to u w (a - b) = (if a - b < min_value u w then a - b + 2 ^ w
      else if max_value u w < a - b then a - b - 2 ^ w else a - b)"
    by (rule wrapped_near [OF assms(2)]) (use rng W(1-3) [of u] in linarith)+
  have u: "aps_isUnsigned (env_S E) L = u" by (rule apsint.aps_isUnsigned [OF S assms(3)])
  have neg: "aps_isNegative (env_S E) L \<longleftrightarrow> a < 0" "aps_isNegative (env_S E) R \<longleftrightarrow> b < 0"
    "aps_isNegative (env_S E) (aps_sub (env_S E) L R) \<longleftrightarrow> wrap_to False w (a - b) < 0" if "\<not> u"
    using apsint.aps_isNegative [OF S] assms(3,4) v r that by auto
  show ?thesis
  proof (cases u)
    case True
    have "ap_ult (aps_int (env_S E)) L (aps_sub (env_S E) L R) \<longleftrightarrow> a < wrap_to True w (a - b)"
      by (rule view_ult [OF S]) (use v assms(3) True in simp_all)
    then show ?thesis unfolding subtraction_def Let_def u wraps_iff using near rng W(1) [of u] W(4) True by auto
  next
    case False
    show ?thesis unfolding subtraction_def Let_def u wraps_iff neg [OF False] using near rng W(1) [of u] W(5) False by auto
  qed
qed

lemma sdiv_near:
  fixes p :: int
  assumes "b \<noteq> 0" "p sdiv b = a"
  shows "\<bar>p - a * b\<bar> < \<bar>b\<bar>"
proof -
  have "p - a * b = p smod b" using minus_sdiv_mult_eq_smod [of p b] assms(2) by simp
  also have "\<bar>\<dots>\<bar> < \<bar>b\<bar>" using assms(1) by (simp add: smod_int_alt_def abs_mult)
  finally show ?thesis .
qed

lemma sdiv_mult_self: "b \<noteq> 0 \<Longrightarrow> (a * b) sdiv b = (a :: int)"
proof -
  assume "b \<noteq> 0"
  then have "(a * b) smod b = 0" by (simp add: smod_int_alt_def abs_mult)
  then show ?thesis using minus_sdiv_mult_eq_smod [of "a * b" b] \<open>b \<noteq> 0\<close> by simp
qed

text \<open>A quotient is of the width, but for the least number divided by \<open>- 1\<close>.\<close>

lemma wrap_to_sdiv:
  assumes "0 < w" "wrap_to u w p = p" "wrap_to u w b = b" "\<not> (\<not> u \<and> p = min_value u w \<and> b = - 1)"
  shows "wrap_to u w (p sdiv b) = p sdiv b"
proof (cases u)
  case True
  then have p: "0 \<le> p" "p \<le> max_value u w" "0 \<le> b" using assms(2,3) by (auto simp: wrap_to_eq_iff min_value_def)
  have "p sdiv b = p div b" using p by (cases "p = 0"; cases "b = 0") (auto simp: signed_divide_int_def)
  moreover have "0 \<le> p div b" using p by (cases "b = 0") (simp_all add: div_int_pos_iff)
  moreover have "p sdiv b \<le> p" using sdiv_int_range [of p b] p(1) by auto
  ultimately show ?thesis using p True by (intro wrap_to_id) (auto simp: min_value_def)
next
  case False
  define h :: int where "h = 2 ^ (w - 1)"
  have h: "min_value u w = - h" "max_value u w = h - 1" "0 < h" using False by (simp_all add: min_value_def max_value_def h_def)
  have r: "\<bar>p sdiv b\<bar> \<le> \<bar>p\<bar>" "- h \<le> p" "p < h"
    using sdiv_int_range [of p b] assms(2) by (auto simp: wrap_to_eq_iff h)
  have "p sdiv b \<noteq> h" if "p = - h"
    using int_sdiv_negated_is_minus1 [of p b] that assms(4) False h(1,3) by auto
  then have "p sdiv b < h" "- h \<le> p sdiv b" using r by linarith+
  then show ?thesis by (simp add: wrap_to_eq_iff h)
qed

lemma quotient_fits:
  assumes "2 \<le> w" "wrap_to u w a = a" "wrap_to u w b = b" "b \<noteq> 0" "\<not> (\<not> u \<and> b = - 1)"
    "wrap_to u w (wrap_to u w (a * b) sdiv b) = a"
  shows "wrap_to u w (a * b) = a * b"
proof (rule ccontr)
  assume n: "wrap_to u w (a * b) \<noteq> a * b"
  have w: "0 < w" using assms(1) by simp
  obtain k where k: "wrap_to u w (a * b) = a * b + k * 2 ^ w" by (rule wrap_to_congruent [OF w])
  have "k \<noteq> 0" using n k by auto
  then have "2 ^ w \<le> \<bar>k * 2 ^ w\<bar>" by (simp add: abs_mult mult_le_cancel_right1)
  moreover have "wrap_to u w (a * b) sdiv b = a"
    using wrap_to_sdiv [OF w wrap_to_idem assms(3)] assms(5,6) by simp
  then have "\<bar>wrap_to u w (a * b) - a * b\<bar> < \<bar>b\<bar>" by (rule sdiv_near [OF assms(4)])
  moreover have "\<bar>b\<bar> \<le> 2 ^ w"
    using assms(3) width_range(1-3) [OF w, of u] unfolding wrap_to_eq_iff by auto
  ultimately show False using k by simp
qed

lemma multiplication_flag:
  assumes "env_ok E view" "2 \<le> w" "view L = (w, u, a)" "view R = (w, u, b)"
  shows "multiplication E L R = OpValue (aps_mul (env_S E) L R) (wrap_to u w (a * b) \<noteq> a * b)"
proof -
  have S: "apsint (env_S E) view" by (rule env_ok_apsint [OF assms(1)])
  have w: "0 < w" using assms(2) by simp
  note r = apsint.aps_range [OF S assms(3)] apsint.aps_range [OF S assms(4)]
  note v = apsint.aps_mul [OF S assms(3,4)]
  let ?p = "wrap_to u w (a * b)"
  have q: "aps_eq (env_S E) (aps_div (env_S E) (aps_mul (env_S E) L R) R) L \<longleftrightarrow> wrap_to u w (?p sdiv b) = a" if "b \<noteq> 0"
    using apsint.aps_eq [OF S apsint.aps_div [OF S v assms(4) that] assms(3)] .
  have q': "aps_eq (env_S E) (aps_div (env_S E) (aps_mul (env_S E) L R) L) R \<longleftrightarrow> wrap_to u w (?p sdiv a) = b" if "a \<noteq> 0"
    using apsint.aps_eq [OF S apsint.aps_div [OF S v assms(3) that] assms(4)] .
  note nz = apsint.aps_nonzero [OF S assms(3)] apsint.aps_nonzero [OF S assms(4)]
  have "(a \<noteq> 0 \<and> b \<noteq> 0 \<and> (wrap_to u w (?p sdiv b) \<noteq> a \<or> wrap_to u w (?p sdiv a) \<noteq> b)) \<longleftrightarrow> ?p \<noteq> a * b"
  proof
    assume "a \<noteq> 0 \<and> b \<noteq> 0 \<and> (wrap_to u w (?p sdiv b) \<noteq> a \<or> wrap_to u w (?p sdiv a) \<noteq> b)"
    then show "?p \<noteq> a * b" using r sdiv_mult_self [of b a] sdiv_mult_self [of a b] by (auto simp: mult.commute)
  next
    assume n: "?p \<noteq> a * b"
    then have z: "a \<noteq> 0" "b \<noteq> 0" by auto
    moreover have "False" if "wrap_to u w (?p sdiv b) = a" "wrap_to u w (?p sdiv a) = b"
    proof (cases "\<not> u \<and> b = - 1")
      case False
      then show ?thesis using quotient_fits [OF assms(2) r z(2)] that(1) n by simp
    next
      case True
      have f: "\<not> (\<not> u \<and> a = - 1)"
      proof
        assume "\<not> u \<and> a = - 1"
        then show False using n True wrap_to_one [OF assms(2), of u] by simp
      qed
      show ?thesis using quotient_fits [OF assms(2) r(2,1) z(1) f] that(2) n by (simp add: mult.commute)
    qed
    ultimately show "a \<noteq> 0 \<and> b \<noteq> 0 \<and> (wrap_to u w (?p sdiv b) \<noteq> a \<or> wrap_to u w (?p sdiv a) \<noteq> b)" by blast
  qed
  then show ?thesis unfolding multiplication_def Let_def using q q' nz by (cases "a = 0"; cases "b = 0") auto
qed

lemma division_flag:
  assumes "env_ok E view" "2 \<le> w" "view L = (w, u, a)" "view R = (w, u, b)" "b \<noteq> 0"
  shows "division E live Res L R = OpValue (aps_div (env_S E) L R) (wrap_to u w (a sdiv b) \<noteq> a sdiv b)"
proof -
  have S: "apsint (env_S E) view" by (rule env_ok_apsint [OF assms(1)])
  have w: "0 < w" using assms(2) by simp
  note r = apsint.aps_range [OF S assms(3)] apsint.aps_range [OF S assms(4)]
  note f = apsint.aps_isUnsigned [OF S assms(3)] apsint.aps_isMinSignedValue [OF S assms(3)]
    apsint.aps_isAllOnesValue [OF S assms(4)] apsint.aps_nonzero [OF S assms(4)]
  have "(\<not> u \<and> a = min_value u w \<and> b = - 1) \<longleftrightarrow> wrap_to u w (a sdiv b) \<noteq> a sdiv b"
  proof
    assume "\<not> u \<and> a = min_value u w \<and> b = - 1"
    then show "wrap_to u w (a sdiv b) \<noteq> a sdiv b"
      by (simp add: wrap_to_eq_iff) (simp add: min_value_def max_value_def)
  qed (use wrap_to_sdiv [OF w r] in blast)
  then show ?thesis unfolding division_def Let_def f using assms(5) r by (cases u) auto
qed

lemma leading_zeros_less: "n < 2 ^ w \<Longrightarrow> s \<le> w \<Longrightarrow> leading_zeros w n < s \<longleftrightarrow> 2 ^ (w - s) \<le> n"
proof (induction w n arbitrary: s rule: leading_zeros.induct)
  case (2 w b)
  show ?case
  proof (cases s)
    case (Suc s')
    have "(2 :: nat) ^ (w - s') \<le> 2 ^ w" by (rule power_increasing) simp_all
    then have "2 ^ (w - s') \<le> b" if "\<not> b < 2 ^ w" using that by linarith
    then show ?thesis using 2 Suc by auto
  qed (use "2.prems" in auto)
qed simp

lemma leading_zeros_shift:
  assumes "0 \<le> a" "a < 2 ^ w" "s \<le> w"
  shows "leading_zeros w (nat a) < s \<longleftrightarrow> (2 :: int) ^ w \<le> a * 2 ^ s"
proof -
  have "nat a < 2 ^ w" using assms by (simp add: nat_less_iff)
  then have "leading_zeros w (nat a) < s \<longleftrightarrow> 2 ^ (w - s) \<le> nat a" by (rule leading_zeros_less [OF _ assms(3)])
  also have "\<dots> \<longleftrightarrow> (2 :: int) ^ (w - s) \<le> a" using assms(1) by (simp add: le_nat_iff)
  also have "\<dots> \<longleftrightarrow> 2 ^ (w - s) * 2 ^ s \<le> a * (2 :: int) ^ s" by simp
  also have "(2 :: int) ^ (w - s) * 2 ^ s = 2 ^ w" using assms(3) by (simp add: power_add [symmetric])
  finally show ?thesis .
qed

lemma shift_left_flag:
  assumes "env_ok E view" "view L = (w, u, a)" "shift_amount E R < w"
  shows "shift_left E L R = OpValue (aps_shl (env_S E) L (shift_amount E R))
    (wrap_to u w (a * 2 ^ shift_amount E R) \<noteq> a * 2 ^ shift_amount E R)"
proof -
  let ?n = "shift_amount E R"
  have S: "apsint (env_S E) view" by (rule env_ok_apsint [OF assms(1)])
  have w: "0 < w" using assms(3) by simp
  note r = apsint.aps_range [OF S assms(2)]
  note f = apsint.aps_width [OF S assms(2)] apsint.aps_isUnsigned [OF S assms(2)] apsint.aps_isNegative [OF S assms(2)]
    apsint.aps_countLeadingZeros [OF S assms(2)] apsint.aps_countLeadingOnes [OF S assms(2)]
  note W = width_range [OF w]
  show ?thesis
  proof (cases u)
    case True
    then have t: "take_bit w a = a" using r by (simp add: wrap_to_def)
    then have a: "0 \<le> a" "a < 2 ^ w" "take_bit w a = a" using take_bit_nonnegative [of w a] take_bit_int_less_exp [of w a] by simp_all
    have "0 \<le> a * 2 ^ ?n" using a(1) by simp
    then show ?thesis using leading_zeros_shift [OF a(1,2) less_imp_le [OF assms(3)]] True W(1) [of True] W(4)
      unfolding shift_left_def Let_def f wraps_iff a(3) using assms(3) by auto
  next
    case False
    have p: "(2 :: int) ^ w = 2 * 2 ^ (w - 1)" using w by (cases w) simp_all
    have s: "(2 :: int) * (z * 2 ^ ?n) = z * 2 ^ Suc ?n" for z by simp
    have a: "- (2 ^ w) \<le> 2 * a" "2 * a < 2 ^ w" using r False p by (auto simp: wrap_to_eq_iff min_value_def max_value_def)
    have lz: "leading_zeros w (nat (take_bit w z)) \<le> ?n \<longleftrightarrow> 2 ^ (w - 1) \<le> z * 2 ^ ?n" if "0 \<le> z" "z < 2 ^ w" for z
      using leading_zeros_shift [OF that, of "Suc ?n"] that assms(3) s [of z] p by (simp add: take_bit_int_eq_self less_Suc_eq_le)
    have n: "NOT a = - a - 1" by (simp add: not_int_def)
    have m: "min_value u w = - (2 ^ (w - 1))" "max_value u w = 2 ^ (w - 1) - 1" using False by (simp_all add: min_value_def max_value_def)
    have h: "(0 :: int) < 2 ^ (w - 1)" and nw: "\<not> w \<le> ?n" using assms(3) by simp_all
    show ?thesis
    proof (cases "0 \<le> a")
      case True
      have "0 \<le> a * 2 ^ ?n" using True by simp
      then have "leading_zeros w (nat (take_bit w a)) \<le> ?n \<longleftrightarrow> a * 2 ^ ?n < min_value u w \<or> max_value u w < a * 2 ^ ?n"
        using lz [of a] True a h unfolding m by linarith
      then show ?thesis using True False r nw unfolding shift_left_def Let_def f wraps_iff by simp
    next
      case neg: False
      have "a * 2 ^ ?n \<le> 0" using neg by (simp add: mult_le_0_iff)
      moreover have "2 ^ (w - 1) \<le> (- a - 1) * 2 ^ ?n \<longleftrightarrow> a * 2 ^ ?n < - (2 ^ (w - 1))"
      proof -
        have e: "(2 :: int) ^ (w - 1) = 2 ^ (w - 1 - ?n) * 2 ^ ?n" using assms(3) by (simp add: power_add [symmetric])
        have "2 ^ (w - 1) \<le> (- a - 1) * 2 ^ ?n \<longleftrightarrow> 2 ^ (w - 1 - ?n) \<le> - a - 1" unfolding e by simp
        also have "\<dots> \<longleftrightarrow> a < - (2 ^ (w - 1 - ?n))" by linarith
        also have "\<dots> \<longleftrightarrow> a * 2 ^ ?n < - (2 ^ (w - 1 - ?n)) * 2 ^ ?n"
          by (subst mult_less_cancel_right_pos) simp_all
        finally show ?thesis unfolding e by simp
      qed
      ultimately have "leading_zeros w (nat (take_bit w (NOT a))) \<le> ?n \<longleftrightarrow> a * 2 ^ ?n < min_value u w \<or> max_value u w < a * 2 ^ ?n"
        using lz [of "- a - 1"] neg a h unfolding m n by linarith
      then show ?thesis using neg False r nw unfolding shift_left_def Let_def f wraps_iff by simp
    qed
  qed
qed

section \<open>The macro of an include guard\<close>

text \<open>\<open>P\<close> of every token of the items, those of arguments and replacements included.\<close>

fun item_all :: "(token \<Rightarrow> bool) \<Rightarrow> pp_item \<Rightarrow> bool" where
  "item_all P (Plain t) = P t"
| "item_all P (Invocation name args body) = (P name \<and> (\<forall>i \<in> set args. item_all P i) \<and> (\<forall>i \<in> set body. item_all P i))"

definition items_all :: "(token \<Rightarrow> bool) \<Rightarrow> pp_item list \<Rightarrow> bool" where
  "items_all P items \<longleftrightarrow> (\<forall>i \<in> set items. item_all P i)"

lemma items_all_simps [simp]: "items_all P []" "items_all P (Plain t # r) \<longleftrightarrow> P t \<and> items_all P r"
  "items_all P (Invocation name args body # r) \<longleftrightarrow> P name \<and> items_all P args \<and> items_all P body \<and> items_all P r"
  "items_all P (xs @ ys) \<longleftrightarrow> items_all P xs \<and> items_all P ys"
  by (auto simp: items_all_def)

lemma lex_items_all: "lex_items items = Some (t, r) \<Longrightarrow> items_all P items \<Longrightarrow> P t \<and> items_all P r"
  by (induction items rule: lex_items.induct) auto

lemma lex_unexpanded_all: "lex_unexpanded items = Some (t, r) \<Longrightarrow> items_all P items \<Longrightarrow> P t \<and> items_all P r"
  by (cases items rule: lex_unexpanded.cases) auto

lemma lex_non_comment_all: "lex_non_comment items = Some (t, r) \<Longrightarrow> items_all P items \<Longrightarrow> P t \<and> items_all P r"
proof (induction items rule: lex_non_comment.induct)
  case (1 items)
  obtain u r' where u: "lex_items items = Some (u, r')" using 1(2) by (subst (asm) lex_non_comment.simps) (auto split: option.splits)
  then show ?case using 1 lex_items_all [OF u 1(3)] by (subst (asm) (2) lex_non_comment.simps) (auto split: if_splits)
qed

definition state_all :: "(token \<Rightarrow> bool) \<Rightarrow> pp_state \<Rightarrow> bool" where
  "state_all P s \<longleftrightarrow> P (PeekTok s) \<and> items_all P (pp_items s)"

lemma state_all_updates [simp]: "state_all P (PP_Diag loc ds s) = state_all P s"
  "state_all P (s\<lparr>pp_used := us\<rparr>) = state_all P s" "state_all P (s\<lparr>pp_diagnostics := ds'\<rparr>) = state_all P s"
  by (simp_all add: state_all_def)

lemma lex_state_all:
  "LexNonComment s = Some s' \<Longrightarrow> state_all P s \<Longrightarrow> state_all P s'"
  "LexUnexpandedToken s = Some s' \<Longrightarrow> state_all P s \<Longrightarrow> state_all P s'"
  using lex_non_comment_all [of "pp_items s" _ _ P] lex_unexpanded_all [of "pp_items s" _ _ P]
  by (auto simp: LexNonComment_def LexUnexpandedToken_def read_token_def state_all_def)

text \<open>The identifiers of the tokens know which macros are defined.\<close>

definition macros_known :: "string set \<Rightarrow> token \<Rightarrow> bool" where
  "macros_known M t \<longleftrightarrow> (\<forall>II. getIdentifierInfo t = Some II \<longrightarrow> (hasMacroDefinition II \<longleftrightarrow> getName II \<in> M))"

fun tracks :: "'a pp_env \<Rightarrow> ('a \<Rightarrow> aps_view) \<Rightarrow> string set \<Rightarrow> tracker \<Rightarrow> 'a \<Rightarrow> bool" where
  "tracks E view M (DefinedMacro X) v = (view v = (getIntMaxTWidth E, False, of_bool (X \<in> M)))"
| "tracks E view M (NotDefinedMacro X) v = (view v = (getIntMaxTWidth E, False, of_bool (X \<notin> M)))"
| "tracks E view M Unknown v = True"

lemma tracks_not:
  assumes "env_ok E view" "tracks E view M DT v"
  shows "tracks E view M (negate_tracker DT) (set_bool E (\<not> aps_nonzero (env_S E) v) v)"
proof (cases DT)
  case (DefinedMacro X)
  then have v: "view v = (getIntMaxTWidth E, False, of_bool (X \<in> M))" using assms(2) by simp
  show ?thesis using set_bool_view [OF assms(1) v, of "X \<notin> M"] env_ops(7) [OF assms(1) v] DefinedMacro by (simp add: negate_tracker_def)
next
  case (NotDefinedMacro X)
  then have v: "view v = (getIntMaxTWidth E, False, of_bool (X \<notin> M))" using assms(2) by simp
  show ?thesis using set_bool_view [OF assms(1) v, of "X \<in> M"] env_ops(7) [OF assms(1) v] NotDefinedMacro by (simp add: negate_tracker_def)
qed (simp add: negate_tracker_def)

lemma defined_name_tracks:
  assumes "env_ok E view" "state_all (macros_known M) s" "defined_name E live paren loc s = Some (Inr ((v, DT), s'))"
  shows "tracks E view M DT v"
proof -
  obtain II where II: "getIdentifierInfo (PeekTok s) = Some II" "defined_operand E live paren loc II s = Some (Inr ((v, DT), s'))"
    using assms(3) by (auto simp: defined_name_def failed_def split: option.splits)
  then have "v = set_bool E (hasMacroDefinition II) (new_value E) \<and> DT = DefinedMacro (getName II)"
    by (auto simp: defined_operand_def Let_def parsed_ok_def split: if_splits elim!: bind_SomeE)
  moreover have "hasMacroDefinition II \<longleftrightarrow> getName II \<in> M" using assms(2) II(1) by (simp add: state_all_def macros_known_def)
  ultimately show ?thesis using set_bool_view [OF assms(1) new_value_view [OF assms(1)]] by simp
qed

lemma eval_paren_tracker:
  assumes "eval_paren value sub live s = Some (Inr ((v, DT), s'))"
  obtains "DT = Unknown" | s1 s2 where "LexNonComment s = Some s1" "value live s1 = Some (Inr ((v, DT), s2))"
proof -
  obtain s1 v0 DT0 s2 where s1: "LexNonComment s = Some s1" "value live s1 = Some (Inr ((v0, DT0), s2))"
    using assms by (auto simp: eval_paren_def Let_def elim!: bind_SomeE dest!: and_then_Inr)
  show thesis
  proof (cases "peek_kind s2 = tok_r_paren")
    case True
    then have "v = v0 \<and> DT = DT0" using assms s1 by (auto simp: eval_paren_def Let_def parsed_ok_def elim!: bind_SomeE)
    then show ?thesis using that(2) s1 by blast
  next
    case False
    then have "DT = Unknown" using assms s1
      by (auto simp: eval_paren_def Let_def parsed_ok_def split: if_splits elim!: bind_SomeE dest!: and_then_Inr)
    then show ?thesis by (rule that(1))
  qed
qed

lemma eval_unary_Inr:
  assumes "eval_unary value live f s = Some (Inr (r, s'))"
  obtains s1 v DT s2 where "LexNonComment s = Some s1" "value live s1 = Some (Inr ((v, DT), s2))" "f (v, DT) s2 = Some (Inr (r, s'))"
  using assms by (auto simp: eval_unary_def elim!: bind_SomeE dest!: and_then_Inr)

text \<open>Only a value of the form \<open>defined(X)\<close>, with \<open>!\<close>, \<open>+\<close> and parentheses around it, is tracked.\<close>

lemma EvaluateValue_tracks:
  assumes "env_ok E view"
  shows "state_all (macros_known M) s \<Longrightarrow> EvaluateValue N E live s = Some (Inr ((v, DT), s')) \<Longrightarrow> tracks E view M DT v"
proof (induction N arbitrary: live s v DT s')
  case (Suc N)
  let ?val = "\<lambda>live. EvaluateValue N E live" and ?sub = "\<lambda>MinPrec live. EvaluateDirectiveSubExpr N E MinPrec live"
  have body: "value_body E ?val ?sub live s = Some (Inr ((v, DT), s'))" using Suc.prems(2) by simp
  have inner: "tracks E view M DT1 v1" if "LexNonComment s = Some s1" "EvaluateValue N E live s1 = Some (Inr ((v1, DT1), s2))" for s1 v1 DT1 s2
    using Suc.IH [OF lex_state_all(1) [OF that(1) Suc.prems(1)] that(2)] .
  show ?case
  proof (cases "getIdentifierInfo (PeekTok s)")
    case (Some II)
    show ?thesis
    proof (cases "getPPKeywordID (getName II) = pp_defined")
      case True
      then have "eval_defined E live s = Some (Inr ((v, DT), s'))" using body Some by (simp add: value_body_def)
      then show ?thesis using Suc.prems(1) defined_name_tracks [OF assms]
        by (auto simp: eval_defined_def elim!: bind_SomeE split: if_splits dest!: lex_state_all(2))
    next
      case False
      then have "DT = Unknown" using body Some
        by (auto simp: value_body_def eval_identifier_def Let_def parsed_ok_def elim!: bind_SomeE)
      then show ?thesis by simp
    qed
  next
    case None
    consider (unknown) "DT = Unknown" | (paren) "eval_paren ?val ?sub live s = Some (Inr ((v, DT), s'))"
      | (plus) "eval_unary ?val live parsed_ok s = Some (Inr ((v, DT), s'))"
      | (negation) "eval_unary ?val live (\<lambda>(v, DT). unary_not E v DT) s = Some (Inr ((v, DT), s'))"
      using body None unfolding value_body_def Let_def
      by (auto simp: failed_def eval_numeric_def eval_char_def parsed_ok_def unary_minus_def Let_def
        split: if_splits elim!: bind_SomeE eval_unary_Inr)
    then show ?thesis
    proof cases
      case paren
      then show ?thesis by (rule eval_paren_tracker) (use inner in auto)
    next
      case plus
      then show ?thesis by (rule eval_unary_Inr) (use inner in \<open>auto simp: parsed_ok_def\<close>)
    next
      case negation
      then show ?thesis
        by (rule eval_unary_Inr) (use inner tracks_not [OF assms] in \<open>auto simp: parsed_ok_def unary_not_def\<close>)
    qed simp
  qed
qed simp

lemma IfNDefMacro_value:
  assumes "env_ok E view" "items_all (macros_known M) (pp_items s)"
    "EvaluateDirectiveExpression N E s = Some (b, Some X, s')"
  shows "b \<longleftrightarrow> X \<notin> M"
proof -
  obtain s1 v DT s2 where s1: "PP_Lex s = Some s1" "EvaluateValue N E True s1 = Some (Inr ((v, DT), s2))"
      "b = aps_nonzero (env_S E) v" "DT = NotDefinedMacro X"
    using assms(3) unfolding EvaluateDirectiveExpression_def
    by (auto simp del: getPrecedence_simps split: sum.splits if_splits tracker.splits elim!: bind_SomeE)
  have "state_all (macros_known M) s1"
    using s1(1) assms(2) lex_items_all [of "pp_items s" _ _ "macros_known M"]
    by (auto simp: PP_Lex_def read_token_def state_all_def)
  then have v: "view v = (getIntMaxTWidth E, False, of_bool (X \<notin> M))"
    using EvaluateValue_tracks [OF assms(1) _ s1(2), of M] s1(4) by simp
  show ?thesis using env_ops(7) [OF assms(1) v] s1(3) by simp
qed

section \<open>Dead operands\<close>

text \<open>The diagnostics of evaluation, which an operand that is not evaluated must not give.\<close>

definition evaluation_diag :: "pp_diag \<Rightarrow> bool" where
  "evaluation_diag d \<longleftrightarrow> (\<exists>X. d = warn_pp_undef_identifier X) \<or> d \<in> {warn_integer_too_large, warn_integer_too_large_for_signed,
     warn_pp_expr_overflow, warn_pp_convert_lhs_to_positive, warn_pp_convert_rhs_to_positive,
     err_pp_remainder_by_zero, err_pp_division_by_zero}"

text \<open>From \<open>s\<close> to \<open>s'\<close> no macro was marked as used and no diagnostic of evaluation given.\<close>

definition quiet :: "pp_state \<Rightarrow> pp_state \<Rightarrow> bool" where
  "quiet s s' \<longleftrightarrow> pp_used s' = pp_used s \<and>
     (\<exists>ds. pp_diagnostics s' = pp_diagnostics s @ ds \<and> (\<forall>d \<in> set ds. \<not> evaluation_diag (fst d)))"

definition stays_quiet :: "pp_state \<Rightarrow> 'v parsed \<Rightarrow> bool" where
  "stays_quiet s p = (case p of None \<Rightarrow> True | Some (Inl s') \<Rightarrow> quiet s s' | Some (Inr (v, s')) \<Rightarrow> quiet s s')"

lemma quiet_refl [simp]: "quiet s s"
  by (simp add: quiet_def)

lemma quiet_trans [trans]: "quiet s t \<Longrightarrow> quiet t u \<Longrightarrow> quiet s u"
  by (auto simp: quiet_def)

lemma quiet_Diag [simp]: "\<forall>d \<in> set ds. \<not> evaluation_diag d \<Longrightarrow> quiet s t \<Longrightarrow> quiet s (PP_Diag loc ds t)"
  by (auto simp: quiet_def PP_Diag_def)

lemma quiet_lex:
  "LexNonComment s = Some t \<Longrightarrow> quiet s t" "LexUnexpandedToken s = Some t \<Longrightarrow> quiet s t"
  by (auto simp: LexNonComment_def LexUnexpandedToken_def read_token_def quiet_def)

lemma stays_quiet_simps [simp]: "stays_quiet s (parsed_ok v t) = quiet s t" "stays_quiet s (Some (Inl t)) = quiet s t"
  "stays_quiet s (failed loc d t) = quiet s (PP_Diag loc [d] t)" "stays_quiet s None"
  by (simp_all add: stays_quiet_def parsed_ok_def failed_def)

lemma stays_quiet_from: "stays_quiet t p \<Longrightarrow> quiet s t \<Longrightarrow> stays_quiet s p"
  by (auto simp: stays_quiet_def split: option.splits sum.splits dest: quiet_trans)

lemma stays_quiet_and_then:
  "stays_quiet s p \<Longrightarrow> (\<And>v t. stays_quiet t (f v t)) \<Longrightarrow> stays_quiet s (and_then p f)"
  by (auto simp: stays_quiet_def [of s p] and_then_def split: option.splits sum.splits dest: stays_quiet_from)

lemma stays_quiet_lex:
  assumes "\<And>t. stays_quiet t (g t)"
  shows "stays_quiet s (Option.bind (LexNonComment s) g)" "stays_quiet s (Option.bind (LexUnexpandedToken s) g)"
  using assms quiet_lex [of s] by (cases "LexNonComment s"; cases "LexUnexpandedToken s"; auto intro: stays_quiet_from)+

lemma numeric_value_dead: "numeric_value E False P = Some (v, ds) \<Longrightarrow> ds = []"
  by (auto simp: numeric_value_def Let_def split: if_splits)

lemma eval_numeric_dead: "stays_quiet s (eval_numeric E False s)"
proof (cases "NumericLiteralParser (env_LO E) (tokSpelling (PeekTok s)) (tokNext (PeekTok s))")
  case (Some P)
  define s1 where "s1 = s\<lparr>pp_diagnostics := pp_diagnostics s @ map (\<lambda>(d, n). (literal_diag d, peek_loc s + n)) (num_diags P)\<rparr>"
  have s1: "quiet s s1" by (auto simp: quiet_def evaluation_diag_def s1_def)
  have read: "stays_quiet s (LexNonComment (PP_Diag loc [] t) \<bind> parsed_ok (v, Unknown))" if "quiet s t" for loc t v
    by (rule stays_quiet_from [OF stays_quiet_lex(1)]) (use that in simp_all)
  have "stays_quiet s (numeric_value E False P \<bind> (\<lambda>(v, ds). LexNonComment (PP_Diag loc ds t) \<bind> parsed_ok (v, Unknown)))"
    if "quiet s t" for t loc
    using read [OF that] numeric_value_dead [of E P] by (cases "numeric_value E False P") auto
  then show ?thesis unfolding eval_numeric_def Let_def Some bind.simps s1_def [symmetric] using s1
    by (simp add: evaluation_diag_def)
qed (simp add: eval_numeric_def)

lemma eval_char_quiet: "stays_quiet s (eval_char E s)"
proof (cases "CharLiteralParser (env_LO E) (env_TI E) (tokNext (PeekTok s)) (tokSpelling (PeekTok s))")
  case (Some L)
  let ?s1 = "PP_Diag (peek_loc s) (map char_diag (char_diags L)) s"
  have s1: "quiet s ?s1" by (auto simp: evaluation_diag_def)
  have "stays_quiet ?s1 (LexNonComment ?s1 \<bind> parsed_ok (v, Unknown))" for v by (rule stays_quiet_lex) simp
  then show ?thesis unfolding eval_char_def Let_def Some bind.simps using s1
    by (cases "char_value E L") (auto intro!: stays_quiet_from [OF _ s1])
qed (simp add: eval_char_def)

lemma eval_defined_dead: "stays_quiet s (eval_defined E False s)"
proof -
  have operand: "stays_quiet t (defined_operand E False paren loc II t)" for paren loc II t
    unfolding defined_operand_def Let_def by (auto intro!: stays_quiet_lex simp: evaluation_diag_def)
  have "stays_quiet t (defined_name E False paren loc t)" for paren loc t
    using operand by (auto simp: defined_name_def evaluation_diag_def split: option.split)
  then show ?thesis unfolding eval_defined_def by (auto intro!: stays_quiet_lex)
qed

definition dead_calls_quiet :: "'a value_call \<Rightarrow> 'a sub_call \<Rightarrow> bool" where
  "dead_calls_quiet value sub \<longleftrightarrow> (\<forall>t. stays_quiet t (value False t)) \<and> (\<forall>m v t. stays_quiet t (sub m False v t))"

lemma value_body_dead:
  assumes "dead_calls_quiet value sub"
  shows "stays_quiet s (value_body E value sub False s)"
proof -
  have unary: "stays_quiet s (eval_unary value False f s)" if "\<And>v DT t. stays_quiet t (f (v, DT) t)" for f
    using assms that by (auto simp: eval_unary_def dead_calls_quiet_def intro!: stays_quiet_lex stays_quiet_and_then)
  have "stays_quiet s (eval_paren value sub False s)"
    using assms unfolding eval_paren_def Let_def
    by (auto simp: dead_calls_quiet_def evaluation_diag_def intro!: stays_quiet_lex stays_quiet_and_then)
  moreover have "stays_quiet s (eval_identifier E False II s)" for II
    by (auto simp: eval_identifier_def intro!: stays_quiet_lex)
  ultimately show ?thesis using eval_numeric_dead eval_char_quiet eval_defined_dead unfolding value_body_def Let_def
    by (auto simp: evaluation_diag_def unary_minus_def unary_not_def Let_def intro!: unary split: option.split)
qed

lemma apply_operator_dead: "stays_quiet s (apply_operator E op False loc L R s)"
proof -
  obtain Res L' R' ds where c: "arithmetic_conversions E op False L R = (Res, L', R', ds)"
    by (cases "arithmetic_conversions E op False L R")
  have ds: "ds = []" using c by (auto simp: arithmetic_conversions_def Let_def split: if_splits)
  have "d \<notin> {err_pp_remainder_by_zero, err_pp_division_by_zero}" if "binary_operator E op False Res L' R' = Some (OpError d)" for d
    using that by (cases op) (auto simp: binary_operator_def remainder_def division_def Let_def multiplication_def addition_def
      subtraction_def shift_left_def shift_right_def split: if_splits)
  moreover have "d = err_pp_colon_without_question" if "binary_operator E op False Res L' R' = Some (OpError d)" for d
    using that by (cases op) (auto simp: binary_operator_def remainder_def division_def Let_def multiplication_def addition_def
      subtraction_def shift_left_def shift_right_def split: if_splits)
  ultimately show ?thesis unfolding apply_operator_def c using ds
    by (auto simp: Let_def evaluation_diag_def split: option.split op_result.split)
qed

lemma loop_round_dead:
  assumes "dead_calls_quiet value sub"
  shows "stays_quiet s (loop_round E value sub False p L s)"
proof -
  have d: "rhs_is_live E op False L = False" for op by (simp add: rhs_is_live_def)
  have "stays_quiet t (eval_conditional E value sub p False loc L R t)" for loc R t
    using assms unfolding eval_conditional_def Let_def
    by (auto simp: dead_calls_quiet_def evaluation_diag_def intro!: stays_quiet_lex stays_quiet_and_then)
  then show ?thesis using assms apply_operator_dead unfolding loop_round_def Let_def d
    by (auto simp: dead_calls_quiet_def evaluation_diag_def intro!: stays_quiet_lex stays_quiet_and_then)
qed

lemma dead_operands_quiet:
  "stays_quiet s (EvaluateValue N E False s)" "stays_quiet s (EvaluateDirectiveSubExpr N E m False v s)"
  "stays_quiet s (sub_expr_loop N E m False p v s)"
proof (induction N arbitrary: s m v p)
  case (Suc N)
  have calls: "dead_calls_quiet (\<lambda>live. EvaluateValue N E live) (\<lambda>MinPrec live. EvaluateDirectiveSubExpr N E MinPrec live)"
    using Suc.IH(1,2) by (simp add: dead_calls_quiet_def)
  {
    case 1
    show ?case using value_body_dead [OF calls] by simp
  next
    case 2
    show ?case using Suc.IH(3) by (simp add: Let_def evaluation_diag_def)
  next
    case 3
    show ?case using loop_round_dead [OF calls] Suc.IH(3) by (auto intro!: stays_quiet_and_then)
  }
qed simp_all


section \<open>A preprocessor to run\<close>

definition sample_env :: "aps_view pp_env" where
  "sample_env = \<lparr>env_S = view_apsint, env_LO = \<lparr>Microsoft = False, NoExtensions = False, HexFloats = True, PascalStrings = False\<rparr>,
     env_C99 = True, env_CPlusPlus0x = False, env_TI = \<lparr>WCharWidth = 32, IntWidth = 32, isCharSigned = True\<rparr>,
     getIntMaxTWidth = 64\<rparr>"

definition sample_token :: "tok_kind \<Rightarrow> string \<Rightarrow> token" where
  "sample_token k sp = \<lparr>getKind = k, getLocation = 0, PtrIdentifier = None, needsCleaning = False,
     characterData = sp, tokLength = length sp, tokSpelling = sp, tokNext = CHR '' ''\<rparr>"

definition sample_name :: "string \<Rightarrow> bool \<Rightarrow> token" where
  "sample_name X b = (sample_token tok_identifier X)\<lparr>PtrIdentifier :=
     Some \<lparr>getName = X, getTokenID = tok_identifier, hasMacroDefinition = b\<rparr>\<rparr>"

definition sample_state :: "token list \<Rightarrow> pp_state" where
  "sample_state ts = \<lparr>pp_items = map Plain ts, PeekTok = sample_token tok_unknown [],
     pp_diagnostics = [], pp_used = []\<rparr>"

lemma sample_env_ok: "env_ok sample_env view_of"
  using view_apsint.apsint_axioms by (simp add: env_ok_def sample_env_def)

lemma sample_env_simps [simp]: "env_S sample_env = view_apsint" "getIntMaxTWidth sample_env = 64"
  "env_LO sample_env = \<lparr>Microsoft = False, NoExtensions = False, HexFloats = True, PascalStrings = False\<rparr>"
  by (simp_all add: sample_env_def)

section \<open>Properties\<close>

text \<open>
  C17: on a line that is an expression of the grammar (parenthesised, unary, binary by precedence and to the
  left, conditional, \<open>defined\<close>, identifiers and integer literals), the evaluator returns, without fuel
  running out, the truth of the value C99 gives the expression, and the line is consumed; what is not
  evaluated may hold a division by zero or a shift by too much.
\<close>

theorem EvaluateDirectiveExpression_correct:
  assumes "env_ok E view" "getIntMaxTWidth E < 2 ^ 31" "derives E 4 ts e"
    "pp_items s = map Plain (ts @ [t]) @ rest" "is_eom t" "expr_value (getIntMaxTWidth E) e = Some x"
  shows "\<exists>N0 ifn s'. (\<forall>N \<ge> N0. EvaluateDirectiveExpression N E s = Some (x \<noteq> 0, ifn, s')) \<and> pp_items s' = rest"
  by (rule EvaluateDirectiveExpression_reads [OF assms])

lemma sample_number: "number_value 64 \<lparr>Microsoft = False, NoExtensions = False, HexFloats = True, PascalStrings = False\<rparr>
    (sample_token tok_numeric_constant ''1'') = Some (False, 1)"
  "number_value 64 \<lparr>Microsoft = False, NoExtensions = False, HexFloats = True, PascalStrings = False\<rparr>
    (sample_token tok_numeric_constant ''0'') = Some (False, 0)"
  by code_simp+

theorem EvaluateDirectiveExpression_correct_witness:
  "\<exists>N0 ifn s'. (\<forall>N \<ge> N0. EvaluateDirectiveExpression N sample_env
     (sample_state [sample_name ''FOO'' False, sample_token tok_ampamp ''&&'', sample_token tok_numeric_constant ''1'',
        sample_token tok_slash ''/'', sample_token tok_numeric_constant ''0'', sample_token tok_eom []]) = Some (False, ifn, s')) \<and>
     pp_items s' = []"
proof -
  let ?II = "\<lparr>getName = ''FOO'', getTokenID = tok_identifier, hasMacroDefinition = False\<rparr>"
  let ?one = "sample_token tok_numeric_constant ''1''" and ?zero = "sample_token tok_numeric_constant ''0''"
  let ?and = "sample_token tok_ampamp ''&&''" and ?div = "sample_token tok_slash ''/''"
  have "derives sample_env 15 [sample_name ''FOO'' False] (Name ?II)"
  proof (rule derives.name)
    show "getPPKeywordID (getName ?II) \<noteq> pp_defined" by code_simp
  qed (simp add: pp_identifier_def sample_name_def sample_token_def getIdentifierInfo_def isLiteral_def)
  then have l: "derives sample_env 6 [sample_name ''FOO'' False] (Name ?II)" by (rule derives.level) simp_all
  have one: "derives sample_env 15 [?one] (Number False 1)"
    by (rule derives.number) (use sample_number in \<open>simp_all add: sample_token_def\<close>)
  have zero: "derives sample_env 15 [?zero] (Number False 0)"
    by (rule derives.number) (use sample_number in \<open>simp_all add: sample_token_def\<close>)
  have "derives sample_env 14 ([?one] @ ?div # [?zero]) (BinaryOp tok_slash (Number False 1) (Number False 0))"
    by (intro derives.binary derives.level [OF one] derives.level [OF zero]) (simp_all add: sample_token_def getPrecedence_def)
  then have "derives sample_env 7 ([?one] @ ?div # [?zero]) (BinaryOp tok_slash (Number False 1) (Number False 0))"
    by (rule derives.level) simp_all
  then have "derives sample_env 6 ([sample_name ''FOO'' False] @ ?and # [?one] @ ?div # [?zero])
      (BinaryOp tok_ampamp (Name ?II) (BinaryOp tok_slash (Number False 1) (Number False 0)))"
    by (intro derives.binary [OF _ _ _ _ _ l]) (simp_all add: sample_token_def getPrecedence_def)
  then have d: "derives sample_env 4 [sample_name ''FOO'' False, ?and, ?one, ?div, ?zero]
      (BinaryOp tok_ampamp (Name ?II) (BinaryOp tok_slash (Number False 1) (Number False 0)))"
    by (auto intro: derives.level)
  show ?thesis
    using EvaluateDirectiveExpression_correct [OF sample_env_ok _ d, of
        "sample_state [sample_name ''FOO'' False, ?and, ?one, ?div, ?zero, sample_token tok_eom []]" "sample_token tok_eom []" "[]" 0]
    by (simp add: sample_state_def is_eom_def sample_token_def)
qed

text \<open>
  C18: on every line whose literals are as the lexer makes them, ended by its end-of-directive token, the
  evaluator returns with fuel twice the line's size and two, whatever the tokens are, and leaves exactly what is
  behind the line: errors, too, consume the rest of it, and nothing behind it is read.
\<close>

theorem EvaluateDirectiveExpression_consumes_line:
  assumes "env_ok E view" "line_ahead lexed_token rest n (pp_items s)" "2 * n + 1 < N"
  shows "\<exists>b ifn s'. EvaluateDirectiveExpression N E s = Some (b, ifn, s') \<and> pp_items s' = rest"
  by (rule EvaluateDirectiveExpression_total [OF assms])

theorem EvaluateDirectiveExpression_consumes_line_witness:
  "\<exists>b ifn s'. EvaluateDirectiveExpression 100 sample_env
     (sample_state [sample_token tok_l_paren ''('', sample_token tok_plus ''+'', sample_token tok_eom []]) = Some (b, ifn, s') \<and>
     pp_items s' = []"
proof (rule EvaluateDirectiveExpression_consumes_line [OF sample_env_ok])
  let ?xs = "[Plain (sample_token tok_l_paren ''(''), Plain (sample_token tok_plus ''+'')]"
  show "line_ahead lexed_token [] (items_size ?xs)
     (pp_items (sample_state [sample_token tok_l_paren ''('', sample_token tok_plus ''+'', sample_token tok_eom []]))"
    unfolding line_ahead_def
    by (intro exI [of _ ?xs] exI [of _ "sample_token tok_eom []"])
      (simp add: sample_state_def sample_token_def lexed_token_def is_eom_def)
  show "2 * items_size ?xs + 1 < 100" by simp
qed

text \<open>
  C19: the macro the evaluator reports for an include guard is sound: when every identifier of the line
  agrees with one macro table, and a macro \<open>X\<close> is reported, the condition is true exactly when \<open>X\<close> is
  not in the table. So skipping a file whose guard is defined skips nothing that would be compiled.
\<close>

theorem IfNDefMacro_sound:
  assumes "env_ok E view" "items_all (macros_known M) (pp_items s)" "EvaluateDirectiveExpression N E s = Some (b, Some X, s')"
  shows "b \<longleftrightarrow> X \<notin> M"
  by (rule IfNDefMacro_value [OF assms])

theorem IfNDefMacro_sound_witness:
  "\<exists>b s'. EvaluateDirectiveExpression 2 sample_env (sample_state [sample_token tok_exclaim ''!'', sample_name ''defined'' False,
     sample_name ''GUARD'' False, sample_token tok_eom []]) = Some (b, Some ''GUARD'', s') \<and> (b \<longleftrightarrow> ''GUARD'' \<notin> {''OTHER''})"
proof -
  let ?s = "sample_state [sample_token tok_exclaim ''!'', sample_name ''defined'' False, sample_name ''GUARD'' False, sample_token tok_eom []]"
  have "map_option (\<lambda>(b, X, s). (b, X)) (EvaluateDirectiveExpression 2 sample_env ?s) = Some (True, Some ''GUARD'')" by code_simp
  then obtain s' where run: "EvaluateDirectiveExpression 2 sample_env ?s = Some (True, Some ''GUARD'', s')" by auto
  have "items_all (macros_known {''OTHER''}) (pp_items ?s)"
    by (simp add: sample_state_def macros_known_def sample_name_def sample_token_def getIdentifierInfo_def)
  then show ?thesis using run IfNDefMacro_sound [OF sample_env_ok _ run] by blast
qed

text \<open>
  C21: an operand that is not evaluated is silent: parsing it marks no macro as used and gives none of the
  diagnostics of evaluation, neither a warning on overflow, conversion, an undefined identifier or a literal
  too large, nor the error on a division by zero. This holds for values, for whole operands with their operators, and
  whether the parse succeeds or fails.
\<close>

theorem dead_operands_silent:
  "stays_quiet s (EvaluateValue N E False s) \<and> stays_quiet s (EvaluateDirectiveSubExpr N E m False v s)"
  by (simp add: dead_operands_quiet)

text \<open>
  C20: the overflow flags are exact. For operands of one width and signedness, \<open>+\<close>, \<open>-\<close>, \<open>*\<close> and
  \<open>/\<close> give the result modulo the width, flagged exactly when the result in the integers is not a number of
  that width and signedness; so does \<open><<\<close> by an amount below the width.
\<close>

theorem overflow_flags_exact:
  assumes "env_ok E view" "view L = (w, u, a)" "view R = (w, u, b)" "2 \<le> w" "w < 2 ^ 31" "w = getIntMaxTWidth E"
    "(k, z) \<in> {(tok_plus, a + b), (tok_minus, a - b), (tok_star, a * b), (tok_slash, a sdiv b), (tok_lessless, a * 2 ^ nat b)}"
    "k = tok_slash \<Longrightarrow> b \<noteq> 0" "k = tok_lessless \<Longrightarrow> 0 \<le> b \<and> b < int w"
  shows "\<exists>v. binary_operator E k live Res L R = Some (OpValue v (z < min_value u w \<or> max_value u w < z)) \<and>
    view v = (w, u, wrap_to u w z)"
proof -
  have S: "apsint (env_S E) view" and w: "0 < w" using env_ok_apsint [OF assms(1)] assms(4) by simp_all
  have sh: "shift_amount E R = nat b \<and> nat b < w" if "k = tok_lessless"
    using shift_amount_ok [OF assms(1), of R u b] assms(3,5,6) assms(9) [OF that] by auto
  note flags = addition_flag [OF assms(1) w assms(2,3)] subtraction_flag [OF assms(1) w assms(2,3)]
    multiplication_flag [OF assms(1,4,2,3)]
  note ops = env_binary_ops(1-3) [OF assms(1-3)]
  from assms(7) show ?thesis
  proof (elim insertE emptyE)
    assume "(k, z) = (tok_slash, a sdiv b)"
    then show ?thesis using division_flag [OF assms(1,4,2,3)] assms(8) apsint.aps_div [OF S assms(2,3)]
      by (simp add: binary_operator_def Let_def wraps_iff)
  next
    assume "(k, z) = (tok_lessless, a * 2 ^ nat b)"
    then show ?thesis using shift_left_flag [OF assms(1,2), of R] sh apsint.aps_shl [OF S assms(2), of "nat b"]
      by (simp add: binary_operator_def Let_def wraps_iff push_bit_eq_mult)
  qed (use flags ops in \<open>simp_all add: binary_operator_def Let_def wraps_iff\<close>)
qed

theorem overflow_flags_exact_witness:
  "\<exists>v. binary_operator sample_env tok_star True (64, False, 0) (64, False, - (2 ^ 63)) (64, False, - 1) =
     Some (OpValue v (2 ^ 63 < min_value False 64 \<or> max_value False 64 < 2 ^ 63)) \<and> view_of v = (64, False, wrap_to False 64 (2 ^ 63))"
proof (rule overflow_flags_exact [OF sample_env_ok, of _ 64 False "- (2 ^ 63)" _ "- 1"])
  show "view_of (64, False, - (2 ^ 63)) = (64, False, - (2 ^ 63))" by code_simp
  show "view_of (64, False, - 1) = (64, False, - 1)" by code_simp
qed simp_all

text \<open>
  A shift amount is cut to the 32 bits of \<^verbatim>\<open>unsigned\<close> before it is compared with the width,
  so a shift by a multiple of \<open>2 ^ 32\<close> is a shift by zero, and no overflow is reported.
\<close>

theorem shift_amount_truncated:
  assumes "env_ok E view" "view L = (64, u, a)" "view R = (64, u', 2 ^ 32 * r)" "0 \<le> r" "r < 2 ^ 31"
  shows "\<exists>v. shift_left E L R = OpValue v False \<and> view v = (64, u, a)"
proof -
  have S: "apsint (env_S E) view" by (rule env_ok_apsint [OF assms(1)])
  define z where "z = 2 ^ 32 * r"
  have z: "take_bit 64 z = z" "take_bit 32 z = 0" "z < 2 ^ 64"
    using assms(4,5) by (simp_all add: z_def take_bit_int_eq_self take_bit_eq_mod)
  then have "aps_getLimitedValue (env_S E) R = word_of_int z"
    using apsint.aps_getLimitedValue [OF S assms(3)] unfolding z_def [symmetric] by simp
  moreover have "uint (ucast x :: u32) = take_bit 32 (uint x)" for x :: "64 word" by (simp add: unsigned_ucast_eq)
  then have "uint (ucast (word_of_int z :: 64 word) :: u32) = 0" by (simp only: uint_word_of_int_eq z) (simp add: z)
  ultimately have n: "shift_amount E R = 0" unfolding shift_amount_def unat_eq_nat_uint by simp
  show ?thesis
    using shift_left_flag [OF assms(1,2), of R] apsint.aps_shl [OF S assms(2), of 0] apsint.aps_range [OF S assms(2)] n by simp
qed

theorem shift_amount_truncated_witness:
  "\<exists>v. shift_left sample_env (64, False, 1) (64, False, 2 ^ 32 * 1) = OpValue v False \<and> view_of v = (64, False, 1)"
proof (rule shift_amount_truncated [OF sample_env_ok])
  show "view_of (64, False, 1) = (64, False, 1)" by code_simp
  show "view_of (64, False, 2 ^ 32 * 1) = (64, False, 2 ^ 32 * 1)" by code_simp
qed simp_all

text \<open>
  A character constant has the value of its low bits: those of \<^verbatim>\<open>char\<close>, or of
  \<^verbatim>\<open>wchar_t\<close> for a wide one, read with the signedness of \<^verbatim>\<open>char\<close>. The further
  characters of a constant such as \<open>'ab'\<close> are lost, and where \<^verbatim>\<open>char\<close> is unsigned the constant is
  unsigned.
\<close>

theorem char_constant_value:
  assumes "env_ok E view" "c = getCharWidth (env_TI E) (char_IsWide L)" "u = (\<not> isCharSigned (env_TI E))"
  shows "\<exists>v. char_value E L = Some v \<and> view v = (getIntMaxTWidth E, u, wrap_to u c (uint (char_Value L)))"
proof -
  have S: "apsint (env_S E) view" by (rule env_ok_apsint [OF assms(1)])
  have c: "0 < c" "c \<le> getIntMaxTWidth E" using assms(1,2) by (auto simp: env_ok_def getCharWidth_def)
  have ext: "uint (ucast x :: 64 word) = uint x" for x :: u32
  proof -
    have "0 \<le> uint x" "uint x < 2 ^ 32" using unsigned_less [of x, where ?'a = int] by simp_all
    then have "take_bit 64 (uint x) = uint x" by (intro take_bit_int_eq_self) simp_all
    then show ?thesis by (simp add: unsigned_ucast_eq)
  qed
  let ?a = "ap_assign (aps_int (env_S E)) (aps_new (env_S E) c) (ucast (char_Value L))"
  have "view ?a = (c, True, wrap_to True c (uint (ucast (char_Value L) :: 64 word)))"
    by (rule apsint.aps_assign [OF S apsint.aps_new [OF S c(1)]])
  from apsint.aps_setIsUnsigned [OF S this, of u]
  have v: "view (aps_setIsUnsigned (env_S E) u ?a) = (c, u, wrap_to u c (uint (char_Value L)))"
    using wrap_to_take_bit [OF c(1)] ext [of "char_Value L"] by (simp add: wrap_to_def [of True])
  note e = apsint.aps_extend [OF S v c(2)]
  have cv: "char_value E L = (if c < getIntMaxTWidth E then Some (aps_extend (env_S E) (getIntMaxTWidth E) (aps_setIsUnsigned (env_S E) u ?a))
      else if getIntMaxTWidth E = c then Some (aps_setIsUnsigned (env_S E) u ?a) else None)"
    unfolding char_value_def Let_def assms(2,3) ..
  show ?thesis
  proof (cases "c < getIntMaxTWidth E")
    case True
    then show ?thesis unfolding cv using e by (simp only: if_True) blast
  next
    case False
    then have "getIntMaxTWidth E = c" using c(2) by linarith
    then show ?thesis unfolding cv using v by auto
  qed
qed

theorem char_constant_value_witness:
  "\<exists>v. char_value sample_env \<lparr>char_Value = 24930, char_IsWide = False, char_HadError = False, char_diags = []\<rparr> =
     Some v \<and> view_of v = (64, False, 98)"
proof -
  let ?L = "\<lparr>char_Value = 24930, char_IsWide = False, char_HadError = False, char_diags = []\<rparr>"
  have "wrap_to False 8 (uint (24930 :: 32 word)) = 98" by code_simp
  then show ?thesis using char_constant_value [OF sample_env_ok refl refl, of ?L]
    by (simp add: sample_env_def getCharWidth_def)
qed

end
