(* ===== verification/RangeSets.thy ===== *)
theory RangeSets
  imports APSInt
begin

text \<open>
  The range sets of the analyzer (\<^verbatim>\<open>RangeSet\<close> of \<^verbatim>\<open>lib/Analysis/RangeConstraintManager.cpp\<close>).
  LLVM's \<^verbatim>\<open>ImmutableSet\<close> and \<^verbatim>\<open>APSInt\<close> are arguments: their operations are records, and their documented
  behaviour the locales \<open>immutable_set\<close> and \<open>value_factory\<close>. A \<^verbatim>\<open>BasicValueFactory\<close> makes one copy of every
  value, so the pointers it gives are the values themselves.
\<close>

section \<open>Values\<close>

record 'a value_ops =
  vo_S :: "'a apsint_ops"
  vo_inc :: "'a \<Rightarrow> 'a"
  vo_dec :: "'a \<Rightarrow> 'a"
  vo_getMinValue :: "nat \<Rightarrow> bool \<Rightarrow> 'a"
  vo_getMaxValue :: "nat \<Rightarrow> bool \<Rightarrow> 'a"
  vo_of :: "nat \<Rightarrow> bool \<Rightarrow> 64 word \<Rightarrow> 'a"

definition Add1 :: "'a value_ops \<Rightarrow> 'a \<Rightarrow> 'a" where
  "Add1 B V = vo_inc B V"

definition Sub1 :: "'a value_ops \<Rightarrow> 'a \<Rightarrow> 'a" where
  "Sub1 B V = vo_dec B V"

locale value_factory = apsint "vo_S B" view
  for B :: "'a value_ops" and view :: "'a \<Rightarrow> aps_view" +
  assumes vo_inc: "view x = (w, u, v) \<Longrightarrow> view (vo_inc B x) = (w, u, wrap_to u w (v + 1))"
    and vo_dec: "view x = (w, u, v) \<Longrightarrow> view (vo_dec B x) = (w, u, wrap_to u w (v - 1))"
    and vo_getMinValue: "0 < w \<Longrightarrow> view (vo_getMinValue B w u) = (w, u, min_value u w)"
    and vo_getMaxValue: "0 < w \<Longrightarrow> view (vo_getMaxValue B w u) = (w, u, max_value u w)"
    and vo_of: "0 < w \<Longrightarrow> view (vo_of B w u N) = (w, u, wrap_to u w (uint N))"

text \<open>The number a value stands for.\<close>

definition num :: "('a \<Rightarrow> aps_view) \<Rightarrow> 'a \<Rightarrow> int" where
  "num view x = snd (snd (view x))"

text \<open>The values of one width and signedness.\<close>

definition of_type :: "('a \<Rightarrow> aps_view) \<Rightarrow> nat \<times> bool \<Rightarrow> 'a \<Rightarrow> bool" where
  "of_type view T x \<longleftrightarrow> (fst (view x), fst (snd (view x))) = T"

context value_factory begin

lemma of_type_view: "of_type view (w, u) x \<longleftrightarrow> view x = (w, u, num view x)"
  by (cases "view x") (auto simp: of_type_def num_def)

lemma num_range: "of_type view (w, u) x \<Longrightarrow> min_value u w \<le> num view x \<and> num view x \<le> max_value u w"
  using aps_range [of x] by (auto simp: of_type_view wrap_to_eq_iff)

lemma compare:
  assumes "of_type view T x" "of_type view T y"
  shows "aps_lt (vo_S B) x y \<longleftrightarrow> num view x < num view y" "aps_le (vo_S B) x y \<longleftrightarrow> num view x \<le> num view y"
    "aps_eq (vo_S B) x y \<longleftrightarrow> num view x = num view y"
  using assms aps_lt aps_le aps_eq by (cases T; simp add: of_type_view)+

lemma Add1_num:
  assumes "of_type view T x" "of_type view T y" "num view x < num view y"
  shows "of_type view T (Add1 B x)" "num view (Add1 B x) = num view x + 1"
proof -
  obtain w u where T: "T = (w, u)" by (cases T)
  have "view (Add1 B x) = (w, u, wrap_to u w (num view x + 1))" using assms(1) vo_inc by (simp add: Add1_def T of_type_view)
  moreover have "wrap_to u w (num view x + 1) = num view x + 1"
    using num_range assms by (intro wrap_to_id) (fastforce simp: T)+
  ultimately show "of_type view T (Add1 B x)" "num view (Add1 B x) = num view x + 1" by (simp_all add: T of_type_def num_def)
qed

lemma Sub1_num:
  assumes "of_type view T x" "of_type view T y" "num view y < num view x"
  shows "of_type view T (Sub1 B x)" "num view (Sub1 B x) = num view x - 1"
proof -
  obtain w u where T: "T = (w, u)" by (cases T)
  have "view (Sub1 B x) = (w, u, wrap_to u w (num view x - 1))" using assms(1) vo_dec by (simp add: Sub1_def T of_type_view)
  moreover have "wrap_to u w (num view x - 1) = num view x - 1"
    using num_range assms by (intro wrap_to_id) (fastforce simp: T)+
  ultimately show "of_type view T (Sub1 B x)" "num view (Sub1 B x) = num view x - 1" by (simp_all add: T of_type_def num_def)
qed

end

text \<open>An instance, over the views.\<close>

definition view_values :: "aps_view value_ops" where
  "view_values = \<lparr>vo_S = view_apsint,
     vo_inc = (\<lambda>(w, u, v). (w, u, wrap_to u w v + 1)),
     vo_dec = (\<lambda>(w, u, v). (w, u, wrap_to u w v - 1)),
     vo_getMinValue = (\<lambda>w u. (w, u, min_value u w)),
     vo_getMaxValue = (\<lambda>w u. (w, u, max_value u w)),
     vo_of = (\<lambda>w u N. (w, u, uint N))\<rparr>"

lemma wrap_to_bounds: "wrap_to u w (min_value u w) = min_value u w" "wrap_to u w (max_value u w) = max_value u w"
proof -
  have "min_value u w \<le> max_value u w" by (simp add: min_value_def max_value_def)
  then show "wrap_to u w (min_value u w) = min_value u w" "wrap_to u w (max_value u w) = max_value u w"
    by (simp_all add: wrap_to_id)
qed

interpretation view_values: value_factory view_values view_of
proof (intro value_factory.intro, goal_cases)
  case 1
  then show ?case using view_apsint.apsint_axioms by (simp add: view_values_def)
next
  case 2
  then show ?case by unfold_locales (auto simp: view_values_def view_of_def wrap_to_bounds)
qed

section \<open>Ranges\<close>

record 'a crange =
  From :: 'a
  To :: 'a

text \<open>The constructor asserts that the range is not empty.\<close>

definition Range_ok :: "'a value_ops \<Rightarrow> 'a crange \<Rightarrow> bool" where
  "Range_ok B r = aps_le (vo_S B) (From r) (To r)"

abbreviation crange :: "'a \<Rightarrow> 'a \<Rightarrow> 'a crange" where
  "crange a b \<equiv> \<lparr>From = a, To = b\<rparr>"

definition Includes :: "'a value_ops \<Rightarrow> 'a crange \<Rightarrow> 'a \<Rightarrow> bool" where
  "Includes B r v = (aps_le (vo_S B) (From r) v \<and> aps_le (vo_S B) v (To r))"

definition range_getConcreteValue :: "'a crange \<Rightarrow> 'a option" where
  "range_getConcreteValue r = (if From r = To r then Some (From r) else None)"

definition isLess :: "'a value_ops \<Rightarrow> 'a crange \<Rightarrow> 'a crange \<Rightarrow> bool" where
  "isLess B l r = (aps_lt (vo_S B) (From l) (From r) \<or>
     (\<not> aps_lt (vo_S B) (From r) (From l) \<and> aps_lt (vo_S B) (To l) (To r)))"

section \<open>Immutable sets\<close>

record ('s, 'k) iset_ops =
  set_GetEmptySet :: 's
  set_Add :: "'s \<Rightarrow> 'k \<Rightarrow> 's"
  set_Remove :: "'s \<Rightarrow> 'k \<Rightarrow> 's"
  set_isEmpty :: "'s \<Rightarrow> bool"
  set_isSingleton :: "'s \<Rightarrow> bool"
  set_iter :: "'s \<Rightarrow> 'k list"

text \<open>
  The documented behaviour: a set is iterated in the order of its elements; an element that compares equal
  to a new one is replaced, and one that compares equal to a removed one is removed. It is stated for elements that
  the comparison orders (\<open>ok\<close>), and for the sets that are built from the empty one.
\<close>

locale immutable_set =
  fixes I :: "('s, 'k) iset_ops" and lt :: "'k \<Rightarrow> 'k \<Rightarrow> bool" and ok :: "'k \<Rightarrow> bool" and built :: "'s \<Rightarrow> bool"
  assumes built_empty: "built (set_GetEmptySet I)"
    and iter_empty: "set_iter I (set_GetEmptySet I) = []"
    and built_ok: "built s \<Longrightarrow> x \<in> set (set_iter I s) \<Longrightarrow> ok x"
    and built_sorted: "built s \<Longrightarrow> sorted_wrt lt (set_iter I s)"
    and built_add: "built s \<Longrightarrow> ok k \<Longrightarrow> built (set_Add I s k)"
    and iter_add: "built s \<Longrightarrow> ok k \<Longrightarrow>
      set (set_iter I (set_Add I s k)) = insert k {x \<in> set (set_iter I s). lt x k \<or> lt k x}"
    and built_remove: "built s \<Longrightarrow> ok k \<Longrightarrow> built (set_Remove I s k)"
    and iter_remove: "built s \<Longrightarrow> ok k \<Longrightarrow>
      set (set_iter I (set_Remove I s k)) = {x \<in> set (set_iter I s). lt x k \<or> lt k x}"
    and isEmpty_iter: "built s \<Longrightarrow> set_isEmpty I s \<longleftrightarrow> set_iter I s = []"
    and isSingleton_iter: "built s \<Longrightarrow> set_isSingleton I s \<longleftrightarrow> length (set_iter I s) = 1"

text \<open>An instance: sorted lists.\<close>

fun insert_wrt :: "('k \<Rightarrow> 'k \<Rightarrow> bool) \<Rightarrow> 'k list \<Rightarrow> 'k \<Rightarrow> 'k list" where
  "insert_wrt lt [] k = [k]"
| "insert_wrt lt (x # xs) k =
     (if lt k x then k # x # xs else if lt x k then x # insert_wrt lt xs k else k # xs)"

definition list_iset :: "('k \<Rightarrow> 'k \<Rightarrow> bool) \<Rightarrow> ('k list, 'k) iset_ops" where
  "list_iset lt = \<lparr>set_GetEmptySet = [], set_Add = insert_wrt lt,
     set_Remove = (\<lambda>xs k. filter (\<lambda>x. lt x k \<or> lt k x) xs), set_isEmpty = (\<lambda>xs. xs = []),
     set_isSingleton = (\<lambda>xs. length xs = 1), set_iter = (\<lambda>xs. xs)\<rparr>"

text \<open>A comparison by a key in two parts, as that of ranges.\<close>

definition pair_lt :: "('k \<Rightarrow> int) \<Rightarrow> ('k \<Rightarrow> int) \<Rightarrow> 'k \<Rightarrow> 'k \<Rightarrow> bool" where
  "pair_lt f g x y \<longleftrightarrow> f x < f y \<or> \<not> f y < f x \<and> g x < g y"

lemma insert_wrt_ok:
  assumes lt: "\<And>x y. ok x \<Longrightarrow> ok y \<Longrightarrow> lt x y \<longleftrightarrow> pair_lt f g x y" and k: "ok k"
  shows "\<forall>x \<in> set xs. ok x \<Longrightarrow> sorted_wrt lt xs \<Longrightarrow>
    set (insert_wrt lt xs k) = insert k {x \<in> set xs. lt x k \<or> lt k x} \<and> sorted_wrt lt (insert_wrt lt xs k)"
proof (induction xs)
  case (Cons x xs)
  then have IH: "set (insert_wrt lt xs k) = insert k {x \<in> set xs. lt x k \<or> lt k x}" "sorted_wrt lt (insert_wrt lt xs k)"
    and x: "ok x" "\<And>y. y \<in> set xs \<Longrightarrow> ok y \<and> lt x y" by auto
  consider "lt k x" | "\<not> lt k x" "lt x k" | "\<not> lt k x" "\<not> lt x k" by blast
  then show ?case
  proof cases
    case 1
    then have "lt k y" if "y \<in> set xs" for y
      using x(2) [OF that] lt [OF k x(1)] lt [OF x(1), of y] lt [OF k, of y] by (auto simp: pair_lt_def)
    then show ?thesis using 1 Cons.prems by auto
  next
    case 2
    then show ?thesis using IH x by auto
  next
    case 3
    then have "lt k y" if "y \<in> set xs" for y
      using x(2) [OF that] lt [OF k x(1)] lt [OF x(1) k] lt [OF x(1), of y] lt [OF k, of y] by (auto simp: pair_lt_def)
    then show ?thesis using 3 Cons.prems by auto
  qed
qed simp

lemma list_iset_immutable:
  assumes "\<And>x y. ok x \<Longrightarrow> ok y \<Longrightarrow> lt x y \<longleftrightarrow> pair_lt f g x y"
  shows "immutable_set (list_iset lt) lt ok (\<lambda>xs. sorted_wrt lt xs \<and> (\<forall>x \<in> set xs. ok x))"
  using insert_wrt_ok [of ok lt f g, OF assms]
  by unfold_locales (auto simp: list_iset_def sorted_wrt_filter length_Suc_conv)

section \<open>Range sets\<close>

text \<open>The set operations come with the values they hold: a range set needs both.\<close>

type_synonym ('s, 'a) range_iset = "('s, 'a crange) iset_ops"

definition RangeSet_of :: "('s, 'a) range_iset \<Rightarrow> 'a \<Rightarrow> 'a \<Rightarrow> 's" where
  "RangeSet_of I from' to' = set_Add I (set_GetEmptySet I) (crange from' to')"

definition RangeSet_getConcreteValue :: "('s, 'a) range_iset \<Rightarrow> 's \<Rightarrow> 'a option" where
  "RangeSet_getConcreteValue I ranges =
     (if set_isSingleton I ranges then range_getConcreteValue (hd (set_iter I ranges)) else None)"

definition AddEQ :: "'a value_ops \<Rightarrow> ('s, 'a) range_iset \<Rightarrow> 's \<Rightarrow> 'a \<Rightarrow> 's" where
  "AddEQ B I ranges V =
     (if list_ex (\<lambda>i. Includes B i V) (set_iter I ranges) then RangeSet_of I V V else set_GetEmptySet I)"

text \<open>The loop of \<open>AddNE\<close> stops at the range that includes \<open>V\<close>, and splits it.\<close>

definition split_range :: "'a value_ops \<Rightarrow> ('s, 'a) range_iset \<Rightarrow> 'a \<Rightarrow> 'a crange \<Rightarrow> 's \<Rightarrow> 's" where
  "split_range B I V i newRanges =
     (let r1 = set_Remove I newRanges i;
          r2 = (if \<not> aps_eq (vo_S B) V (From i) then set_Add I r1 (crange (From i) (Sub1 B V)) else r1)
      in if \<not> aps_eq (vo_S B) V (To i) then set_Add I r2 (crange (Add1 B V) (To i)) else r2)"

definition AddNE :: "'a value_ops \<Rightarrow> ('s, 'a) range_iset \<Rightarrow> 's \<Rightarrow> 'a \<Rightarrow> 's" where
  "AddNE B I ranges V =
     (case find (\<lambda>i. Includes B i V) (set_iter I ranges) of None \<Rightarrow> ranges | Some i \<Rightarrow> split_range B I V i ranges)"

text \<open>The loops of the other four collect, in order, what is left of each range.\<close>

definition collect_ranges :: "('s, 'a) range_iset \<Rightarrow> ('a crange \<Rightarrow> 'a crange option) \<Rightarrow> 's \<Rightarrow> 's" where
  "collect_ranges I f ranges =
     foldl (\<lambda>newRanges i. case f i of None \<Rightarrow> newRanges | Some r \<Rightarrow> set_Add I newRanges r) (set_GetEmptySet I) (set_iter I ranges)"

definition AddLT :: "'a value_ops \<Rightarrow> ('s, 'a) range_iset \<Rightarrow> 's \<Rightarrow> 'a \<Rightarrow> 's" where
  "AddLT B I ranges V = collect_ranges I (\<lambda>i.
     if Includes B i V \<and> aps_lt (vo_S B) (From i) V then Some (crange (From i) (Sub1 B V))
     else if aps_lt (vo_S B) (To i) V then Some i else None) ranges"

definition AddLE :: "'a value_ops \<Rightarrow> ('s, 'a) range_iset \<Rightarrow> 's \<Rightarrow> 'a \<Rightarrow> 's" where
  "AddLE B I ranges V = collect_ranges I (\<lambda>i.
     if Includes B i V then Some (crange (From i) V)
     else if aps_le (vo_S B) (To i) V then Some i else None) ranges"

definition AddGT :: "'a value_ops \<Rightarrow> ('s, 'a) range_iset \<Rightarrow> 's \<Rightarrow> 'a \<Rightarrow> 's" where
  "AddGT B I ranges V = collect_ranges I (\<lambda>i.
     if Includes B i V \<and> aps_lt (vo_S B) V (To i) then Some (crange (Add1 B V) (To i))
     else if aps_lt (vo_S B) V (From i) then Some i else None) ranges"

definition AddGE :: "'a value_ops \<Rightarrow> ('s, 'a) range_iset \<Rightarrow> 's \<Rightarrow> 'a \<Rightarrow> 's" where
  "AddGE B I ranges V = collect_ranges I (\<lambda>i.
     if Includes B i V then Some (crange V (To i))
     else if aps_le (vo_S B) V (From i) then Some i else None) ranges"

section \<open>The values of a range set\<close>

definition range_values :: "('a \<Rightarrow> aps_view) \<Rightarrow> 'a crange \<Rightarrow> int set" where
  "range_values view r = {num view (From r) .. num view (To r)}"

definition range_type :: "('a \<Rightarrow> aps_view) \<Rightarrow> nat \<times> bool \<Rightarrow> 'a crange \<Rightarrow> bool" where
  "range_type view T r \<longleftrightarrow> of_type view T (From r) \<and> of_type view T (To r)"

text \<open>Ranges that hold values, no two of them a common one.\<close>

definition apart :: "('a \<Rightarrow> aps_view) \<Rightarrow> 'a crange set \<Rightarrow> bool" where
  "apart view R \<longleftrightarrow> (\<forall>r \<in> R. num view (From r) \<le> num view (To r)) \<and>
     (\<forall>r \<in> R. \<forall>q \<in> R. r = q \<or> num view (To r) < num view (From q) \<or> num view (To q) < num view (From r))"

definition set_values :: "('s, 'a) range_iset \<Rightarrow> ('a \<Rightarrow> aps_view) \<Rightarrow> 's \<Rightarrow> int set" where
  "set_values I view s = (\<Union>r \<in> set (set_iter I s). range_values view r)"

definition range_set_ok :: "('s, 'a) range_iset \<Rightarrow> ('a \<Rightarrow> aps_view) \<Rightarrow> ('s \<Rightarrow> bool) \<Rightarrow> 's \<Rightarrow> bool" where
  "range_set_ok I view built s \<longleftrightarrow> built s \<and> apart view (set (set_iter I s))"

text \<open>What the range sets rest on: values, and sets of ranges of one type.\<close>

locale range_sets = value_factory B view + immutable_set I "isLess B" "range_type view T" built
  for B :: "'a value_ops" and view :: "'a \<Rightarrow> aps_view" and I :: "('s, 'a) range_iset" and T :: "nat \<times> bool" and built :: "'s \<Rightarrow> bool"
begin

abbreviation N :: "'a \<Rightarrow> int" where
  "N \<equiv> num view"

lemma isLess_num:
  "range_type view T a \<Longrightarrow> range_type view T b \<Longrightarrow> isLess B a b \<longleftrightarrow> pair_lt (\<lambda>r. N (From r)) (\<lambda>r. N (To r)) a b"
  by (simp add: isLess_def pair_lt_def range_type_def compare [where T = T])

lemma less_or_greater:
  assumes "range_type view T a" "range_type view T b" "N (To a) < N (From b) \<or> N (To b) < N (From a)"
    "N (From a) \<le> N (To a)" "N (From b) \<le> N (To b)"
  shows "isLess B a b \<or> isLess B b a"
  using assms(3-5) isLess_num [OF assms(1,2)] isLess_num [OF assms(2,1)] by (auto simp: pair_lt_def)

lemma not_less_self: "range_type view T a \<Longrightarrow> \<not> isLess B a a"
  using isLess_num by (auto simp: pair_lt_def)

text \<open>Adding a range apart from the others adds its values.\<close>

lemma add_apart:
  assumes "range_set_ok I view built s" "range_type view T r" "apart view (insert r (set (set_iter I s)))" "r \<notin> set (set_iter I s)"
  shows "range_set_ok I view built (set_Add I s r)" "set (set_iter I (set_Add I s r)) = insert r (set (set_iter I s))"
proof -
  have b: "built s" using assms(1) by (simp add: range_set_ok_def)
  have "isLess B x r \<or> isLess B r x" if "x \<in> set (set_iter I s)" for x
    using assms(3,4) that built_ok [OF b that] assms(2) by (intro less_or_greater) (auto simp: apart_def)
  then show *: "set (set_iter I (set_Add I s r)) = insert r (set (set_iter I s))" using iter_add [OF b assms(2)] by blast
  show "range_set_ok I view built (set_Add I s r)" using built_add [OF b assms(2)] assms(3) unfolding range_set_ok_def * by simp
qed

lemma remove_member:
  assumes "range_set_ok I view built s" "r \<in> set (set_iter I s)"
  shows "range_set_ok I view built (set_Remove I s r)" "set (set_iter I (set_Remove I s r)) = set (set_iter I s) - {r}"
proof -
  have b: "built s" and r: "range_type view T r" using assms built_ok by (auto simp: range_set_ok_def)
  have "isLess B x r \<or> isLess B r x" if "x \<in> set (set_iter I s)" "x \<noteq> r" for x
    using assms that built_ok [OF b that(1)] r by (intro less_or_greater) (auto simp: apart_def range_set_ok_def)
  then show *: "set (set_iter I (set_Remove I s r)) = set (set_iter I s) - {r}"
    using iter_remove [OF b r] not_less_self [OF r] by blast
  show "range_set_ok I view built (set_Remove I s r)" using built_remove [OF b r] assms(1)
    unfolding range_set_ok_def * by (auto simp: apart_def)
qed

text \<open>The loops that keep a part of each range.\<close>

lemma distinct_iter: "built s \<Longrightarrow> distinct (set_iter I s)"
proof -
  assume b: "built s"
  have "sorted_wrt (isLess B) xs \<Longrightarrow> \<forall>x \<in> set xs. range_type view T x \<Longrightarrow> distinct xs" for xs
    by (induction xs) (auto dest: not_less_self)
  then show ?thesis using built_sorted [OF b] built_ok [OF b] by blast
qed

lemma collect_list:
  assumes "apart view (set xs)" "distinct xs"
    "\<And>i r. i \<in> set xs \<Longrightarrow> f i = Some r \<Longrightarrow> range_type view T r \<and> N (From i) \<le> N (From r) \<and> N (From r) \<le> N (To r) \<and> N (To r) \<le> N (To i)"
  shows "range_set_ok I view built (foldl (\<lambda>n i. case f i of None \<Rightarrow> n | Some r \<Rightarrow> set_Add I n r) (set_GetEmptySet I) xs) \<and>
    set (set_iter I (foldl (\<lambda>n i. case f i of None \<Rightarrow> n | Some r \<Rightarrow> set_Add I n r) (set_GetEmptySet I) xs)) =
      {r. \<exists>i \<in> set xs. f i = Some r}"
  using assms
proof (induction xs rule: rev_induct)
  case Nil
  then show ?case by (simp add: range_set_ok_def built_empty iter_empty apart_def)
next
  case (snoc i xs)
  let ?n = "foldl (\<lambda>n i. case f i of None \<Rightarrow> n | Some r \<Rightarrow> set_Add I n r) (set_GetEmptySet I) xs"
  have n: "range_set_ok I view built ?n" "set (set_iter I ?n) = {r. \<exists>i \<in> set xs. f i = Some r}"
    using snoc by (auto simp: apart_def)
  show ?case
  proof (cases "f i")
    case None
    then show ?thesis using n by auto
  next
    case (Some r)
    have r: "range_type view T r" "N (From i) \<le> N (From r)" "N (From r) \<le> N (To r)" "N (To r) \<le> N (To i)"
      using snoc.prems(3) [of i r] Some by auto
    have sep: "N (To r) < N (From q) \<or> N (To q) < N (From r)" if q: "q \<in> set (set_iter I ?n)" for q
    proof -
      obtain j where j: "j \<in> set xs" "f j = Some q" using q n(2) by auto
      have "j \<noteq> i" using j(1) snoc.prems(2) by auto
      then have "N (To i) < N (From j) \<or> N (To j) < N (From i)" using snoc.prems(1) j(1) by (auto simp: apart_def)
      moreover have "N (From j) \<le> N (From q)" "N (To q) \<le> N (To j)" using snoc.prems(3) [of j q] j by auto
      ultimately show ?thesis using r by linarith
    qed
    have "apart view (insert r (set (set_iter I ?n)))" using n(1) sep r(3) unfolding range_set_ok_def apart_def by blast
    moreover have "r \<notin> set (set_iter I ?n)" using sep r(3) by fastforce
    ultimately show ?thesis using add_apart [OF n(1) r(1)] n(2) Some by auto
  qed
qed

lemma collect_ranges_ok:
  assumes "range_set_ok I view built s"
    "\<And>i r. i \<in> set (set_iter I s) \<Longrightarrow> f i = Some r \<Longrightarrow>
      range_type view T r \<and> N (From i) \<le> N (From r) \<and> N (From r) \<le> N (To r) \<and> N (To r) \<le> N (To i)"
  shows "range_set_ok I view built (collect_ranges I f s)"
    "set_values I view (collect_ranges I f s) = (\<Union>i \<in> set (set_iter I s). case f i of None \<Rightarrow> {} | Some r \<Rightarrow> range_values view r)"
proof -
  have s: "apart view (set (set_iter I s))" "distinct (set_iter I s)"
    using assms(1) distinct_iter by (auto simp: range_set_ok_def)
  note c = collect_list [OF s assms(2), folded collect_ranges_def]
  show "range_set_ok I view built (collect_ranges I f s)" using c by blast
  have "set_values I view (collect_ranges I f s) = (\<Union>r \<in> {r. \<exists>i \<in> set (set_iter I s). f i = Some r}. range_values view r)"
    by (simp only: set_values_def conjunct2 [OF c])
  also have "\<dots> = (\<Union>i \<in> set (set_iter I s). case f i of None \<Rightarrow> {} | Some r \<Rightarrow> range_values view r)"
    by (force split: option.splits)
  finally show "set_values I view (collect_ranges I f s) = (\<Union>i \<in> set (set_iter I s). case f i of None \<Rightarrow> {} | Some r \<Rightarrow> range_values view r)" .
qed

lemma member_facts:
  assumes "range_set_ok I view built s" "i \<in> set (set_iter I s)"
  shows "of_type view T (From i)" "of_type view T (To i)" "N (From i) \<le> N (To i)"
  using assms built_ok by (auto simp: range_set_ok_def range_type_def apart_def)

lemma Includes_num:
  "range_type view T i \<Longrightarrow> of_type view T V \<Longrightarrow> Includes B i V \<longleftrightarrow> N (From i) \<le> N V \<and> N V \<le> N (To i)"
  by (simp add: Includes_def range_type_def compare [where T = T])

lemma range_type_From_To:
  assumes "range_set_ok I view built s" "i \<in> set (set_iter I s)"
  shows "range_type view T i" "N (From i) \<le> N (To i)"
  using member_facts [OF assms] by (simp_all add: range_type_def)

text \<open>What a loop keeps of a range, when it keeps the values that satisfy \<open>P\<close>.\<close>

definition keeps :: "(int \<Rightarrow> bool) \<Rightarrow> 'a crange \<Rightarrow> 'a crange option \<Rightarrow> bool" where
  "keeps P i p = (case p of None \<Rightarrow> \<forall>z \<in> range_values view i. \<not> P z
     | Some r \<Rightarrow> range_type view T r \<and> N (From r) \<le> N (To r) \<and> range_values view r = {z \<in> range_values view i. P z})"

lemma collect_exact:
  assumes "range_set_ok I view built s"
    "\<And>i. range_type view T i \<Longrightarrow> N (From i) \<le> N (To i) \<Longrightarrow> keeps P i (f i)"
  shows "range_set_ok I view built (collect_ranges I f s) \<and> set_values I view (collect_ranges I f s) = {z \<in> set_values I view s. P z}"
proof -
  have k: "keeps P i (f i)" if "i \<in> set (set_iter I s)" for i
    using range_type_From_To [OF assms(1) that] by (rule assms(2))
  have inside: "range_type view T r \<and> N (From i) \<le> N (From r) \<and> N (From r) \<le> N (To r) \<and> N (To r) \<le> N (To i)"
    if "i \<in> set (set_iter I s)" "f i = Some r" for i r
  proof -
    have r: "range_type view T r" "N (From r) \<le> N (To r)" "range_values view r \<subseteq> range_values view i"
      using k [OF that(1)] that(2) by (auto simp: keeps_def)
    then show ?thesis by (auto simp: range_values_def)
  qed
  have "(case f i of None \<Rightarrow> {} | Some r \<Rightarrow> range_values view r) = {z \<in> range_values view i. P z}" if "i \<in> set (set_iter I s)" for i
    using k [OF that] by (auto simp: keeps_def split: option.splits)
  then have "(\<Union>i \<in> set (set_iter I s). case f i of None \<Rightarrow> {} | Some r \<Rightarrow> range_values view r) = {z \<in> set_values I view s. P z}"
    by (auto simp: set_values_def)
  moreover have "set_values I view (collect_ranges I f s) =
      (\<Union>i \<in> set (set_iter I s). case f i of None \<Rightarrow> {} | Some r \<Rightarrow> range_values view r)"
    by (rule collect_ranges_ok(2) [OF assms(1) inside])
  ultimately have "set_values I view (collect_ranges I f s) = {z \<in> set_values I view s. P z}" by simp
  then show ?thesis using collect_ranges_ok(1) [OF assms(1) inside] by blast
qed

lemma order_exact:
  assumes "range_set_ok I view built s" "of_type view T V"
  shows "range_set_ok I view built (AddLT B I s V) \<and> set_values I view (AddLT B I s V) = {z \<in> set_values I view s. z < N V}"
    "range_set_ok I view built (AddLE B I s V) \<and> set_values I view (AddLE B I s V) = {z \<in> set_values I view s. z \<le> N V}"
    "range_set_ok I view built (AddGT B I s V) \<and> set_values I view (AddGT B I s V) = {z \<in> set_values I view s. N V < z}"
    "range_set_ok I view built (AddGE B I s V) \<and> set_values I view (AddGE B I s V) = {z \<in> set_values I view s. N V \<le> z}"
proof -
  note cmp = compare [where T = T, OF _ assms(2)] compare [where T = T, OF assms(2)]
  note sub = Sub1_num [OF assms(2)] and add = Add1_num [OF assms(2)]
  show "range_set_ok I view built (AddLT B I s V) \<and> set_values I view (AddLT B I s V) = {z \<in> set_values I view s. z < N V}"
    unfolding AddLT_def
  proof (rule collect_exact [OF assms(1)])
    fix i assume i: "range_type view T i" "N (From i) \<le> N (To i)"
    show "keeps (\<lambda>z. z < N V) i (if Includes B i V \<and> aps_lt (vo_S B) (From i) V then Some (crange (From i) (Sub1 B V))
      else if aps_lt (vo_S B) (To i) V then Some i else None)"
      using i sub [of "From i"] Includes_num [OF i(1) assms(2)]
      by (auto simp: keeps_def range_type_def cmp range_values_def)
  qed
  show "range_set_ok I view built (AddLE B I s V) \<and> set_values I view (AddLE B I s V) = {z \<in> set_values I view s. z \<le> N V}"
    unfolding AddLE_def
  proof (rule collect_exact [OF assms(1)])
    fix i assume i: "range_type view T i" "N (From i) \<le> N (To i)"
    show "keeps (\<lambda>z. z \<le> N V) i (if Includes B i V then Some (crange (From i) V) else if aps_le (vo_S B) (To i) V then Some i else None)"
      using i assms(2) Includes_num [OF i(1) assms(2)] by (auto simp: keeps_def range_type_def cmp range_values_def)
  qed
  show "range_set_ok I view built (AddGT B I s V) \<and> set_values I view (AddGT B I s V) = {z \<in> set_values I view s. N V < z}"
    unfolding AddGT_def
  proof (rule collect_exact [OF assms(1)])
    fix i assume i: "range_type view T i" "N (From i) \<le> N (To i)"
    show "keeps (\<lambda>z. N V < z) i (if Includes B i V \<and> aps_lt (vo_S B) V (To i) then Some (crange (Add1 B V) (To i))
      else if aps_lt (vo_S B) V (From i) then Some i else None)"
      using i add [of "To i"] Includes_num [OF i(1) assms(2)]
      by (auto simp: keeps_def range_type_def cmp range_values_def)
  qed
  show "range_set_ok I view built (AddGE B I s V) \<and> set_values I view (AddGE B I s V) = {z \<in> set_values I view s. N V \<le> z}"
    unfolding AddGE_def
  proof (rule collect_exact [OF assms(1)])
    fix i assume i: "range_type view T i" "N (From i) \<le> N (To i)"
    show "keeps (\<lambda>z. N V \<le> z) i (if Includes B i V then Some (crange V (To i)) else if aps_le (vo_S B) V (From i) then Some i else None)"
      using i assms(2) Includes_num [OF i(1) assms(2)] by (auto simp: keeps_def range_type_def cmp range_values_def)
  qed
qed

lemma RangeSet_of_ok:
  assumes "of_type view T a" "of_type view T b" "N a \<le> N b"
  shows "range_set_ok I view built (RangeSet_of I a b)" "set_values I view (RangeSet_of I a b) = {N a .. N b}"
  using iter_add [OF built_empty, of "crange a b"] built_add [OF built_empty, of "crange a b"] assms
  by (auto simp: RangeSet_of_def range_set_ok_def set_values_def range_values_def iter_empty apart_def range_type_def)

lemma empty_ok: "range_set_ok I view built (set_GetEmptySet I)" "set_values I view (set_GetEmptySet I) = {}"
  by (simp_all add: range_set_ok_def built_empty iter_empty apart_def set_values_def)

lemma AddEQ_exact:
  assumes "range_set_ok I view built s" "of_type view T V"
  shows "range_set_ok I view built (AddEQ B I s V) \<and> set_values I view (AddEQ B I s V) = {z \<in> set_values I view s. z = N V}"
proof -
  have "list_ex (\<lambda>i. Includes B i V) (set_iter I s) \<longleftrightarrow> N V \<in> set_values I view s"
    using Includes_num [OF range_type_From_To(1) [OF assms(1)] assms(2)]
    by (auto simp: list_ex_iff set_values_def range_values_def)
  then show ?thesis using RangeSet_of_ok [OF assms(2) assms(2) order_refl] empty_ok by (auto simp: AddEQ_def)
qed

lemma split_range_exact:
  assumes "range_set_ok I view built s" "of_type view T V" "i \<in> set (set_iter I s)" "Includes B i V"
  shows "range_set_ok I view built (split_range B I V i s) \<and> set_values I view (split_range B I V i s) = {z \<in> set_values I view s. z \<noteq> N V}"
proof -
  let ?r = "set_Remove I s i" and ?l = "crange (From i) (Sub1 B V)" and ?h = "crange (Add1 B V) (To i)"
  note i = range_type_From_To [OF assms(1,3)]
  have inc: "N (From i) \<le> N V" "N V \<le> N (To i)" using Includes_num [OF i(1) assms(2)] assms(4) by auto
  have cmp: "aps_eq (vo_S B) V (From i) \<longleftrightarrow> N V = N (From i)" "aps_eq (vo_S B) V (To i) \<longleftrightarrow> N V = N (To i)"
    using compare(3) [OF assms(2)] i(1) by (simp_all add: range_type_def)
  note rem = remove_member [OF assms(1,3)]
  have sep: "N (To i) < N (From q) \<or> N (To q) < N (From i)" "N (From q) \<le> N (To q)" if "q \<in> set (set_iter I ?r)" for q
    using assms(1,3) that rem(2) unfolding range_set_ok_def apart_def by blast+
  have l: "range_type view T ?l" "N (To ?l) = N V - 1" if "N V \<noteq> N (From i)"
    using Sub1_num [OF assms(2), of "From i"] i(1) inc(1) that by (auto simp: range_type_def)
  have h: "range_type view T ?h" "N (From ?h) = N V + 1" if "N V \<noteq> N (To i)"
    using Add1_num [OF assms(2), of "To i"] i(1) inc(2) that by (auto simp: range_type_def)
  define r2 where "r2 = (if N V \<noteq> N (From i) then set_Add I ?r ?l else ?r)"
  define S2 where "S2 = (if N V \<noteq> N (From i) then insert ?l (set (set_iter I ?r)) else set (set_iter I ?r))"
  have r2: "range_set_ok I view built r2 \<and> set (set_iter I r2) = S2"
  proof (cases "N V = N (From i)")
    case False
    have "apart view (insert ?l (set (set_iter I ?r)))" "?l \<notin> set (set_iter I ?r)"
      using rem(1) sep l [OF False] inc False unfolding range_set_ok_def apart_def by fastforce+
    then show ?thesis using add_apart [OF rem(1) l(1) [OF False]] False by (simp add: r2_def S2_def)
  qed (use rem in \<open>simp add: r2_def S2_def\<close>)
  have sep2: "N (To i) < N (From q) \<or> N (To q) < N V" "N (From q) \<le> N (To q)" if "q \<in> S2" for q
    using that sep [of q] l inc by (auto simp: S2_def split: if_splits)
  define r3 where "r3 = (if N V \<noteq> N (To i) then set_Add I r2 ?h else r2)"
  have r3: "range_set_ok I view built r3 \<and> set (set_iter I r3) = (if N V \<noteq> N (To i) then insert ?h S2 else S2)"
  proof (cases "N V = N (To i)")
    case False
    have "apart view (insert ?h (set (set_iter I r2)))" "?h \<notin> set (set_iter I r2)"
      using r2 sep2 h [OF False] inc False unfolding range_set_ok_def apart_def by fastforce+
    then show ?thesis using add_apart [OF conjunct1 [OF r2] h(1) [OF False]] False r2 by (simp add: r3_def)
  qed (use r2 in \<open>simp add: r3_def\<close>)
  have "split_range B I V i s = r3" by (simp add: split_range_def Let_def cmp r3_def r2_def)
  moreover have "set_values I view r3 = {z \<in> set_values I view s. z \<noteq> N V}"
  proof -
    have rest: "{z \<in> range_values view q. z \<noteq> N V} = range_values view q" if "q \<in> set (set_iter I ?r)" for q
      using sep [OF that] inc by (auto simp: range_values_def)
    have cut: "(if N V \<noteq> N (From i) then range_values view ?l else {}) \<union> (if N V \<noteq> N (To i) then range_values view ?h else {}) =
        {z \<in> range_values view i. z \<noteq> N V}"
      using l h inc by (auto simp: range_values_def)
    have s: "set (set_iter I s) = insert i (set (set_iter I ?r))" using rem(2) assms(3) by auto
    have "{z \<in> set_values I view s. z \<noteq> N V} = {z \<in> range_values view i. z \<noteq> N V} \<union> (\<Union>q \<in> set (set_iter I ?r). range_values view q)"
      using rest unfolding set_values_def s by auto
    then show ?thesis unfolding set_values_def conjunct2 [OF r3] S2_def cut [symmetric] by auto
  qed
  ultimately show ?thesis using r3 by simp
qed

lemma AddNE_exact:
  assumes "range_set_ok I view built s" "of_type view T V"
  shows "range_set_ok I view built (AddNE B I s V) \<and> set_values I view (AddNE B I s V) = {z \<in> set_values I view s. z \<noteq> N V}"
proof (cases "find (\<lambda>i. Includes B i V) (set_iter I s)")
  case None
  then have "N V \<notin> set_values I view s"
    using Includes_num [OF range_type_From_To(1) [OF assms(1)] assms(2)]
    by (auto simp: find_None_iff set_values_def range_values_def)
  then show ?thesis using None assms(1) by (auto simp: AddNE_def)
next
  case (Some i)
  then have "i \<in> set (set_iter I s)" "Includes B i V" by (auto simp: find_Some_iff)
  then show ?thesis using split_range_exact [OF assms] Some by (simp add: AddNE_def)
qed

lemma isEmpty_values: "range_set_ok I view built s \<Longrightarrow> set_isEmpty I s \<longleftrightarrow> set_values I view s = {}"
  by (auto simp: isEmpty_iter range_set_ok_def apart_def set_values_def range_values_def)

lemma getConcreteValue_values:
  assumes "range_set_ok I view built s" "RangeSet_getConcreteValue I s = Some v"
  shows "of_type view T v" "set_values I view s = {N v}"
proof -
  have "set_isSingleton I s" using assms(2) by (auto simp: RangeSet_getConcreteValue_def split: if_splits)
  then obtain i where i: "set_iter I s = [i]" using assms(1) isSingleton_iter by (auto simp: range_set_ok_def length_Suc_conv)
  then have v: "From i = v" "To i = v" using assms(2) \<open>set_isSingleton I s\<close>
    by (auto simp: RangeSet_getConcreteValue_def range_getConcreteValue_def split: if_splits)
  show "of_type view T v" using range_type_From_To(1) [OF assms(1), of i] i v by (simp add: range_type_def)
  show "set_values I view s = {N v}" using i v by (simp add: set_values_def range_values_def)
qed

end

section \<open>The constraints together\<close>

datatype comparison = CmpEQ | CmpNE | CmpLT | CmpGT | CmpLE | CmpGE

fun compares :: "comparison \<Rightarrow> int \<Rightarrow> int \<Rightarrow> bool" where
  "compares CmpEQ a b = (a = b)"
| "compares CmpNE a b = (a \<noteq> b)"
| "compares CmpLT a b = (a < b)"
| "compares CmpGT a b = (b < a)"
| "compares CmpLE a b = (a \<le> b)"
| "compares CmpGE a b = (b \<le> a)"

fun RangeSet_Add :: "comparison \<Rightarrow> 'a value_ops \<Rightarrow> ('s, 'a) range_iset \<Rightarrow> 's \<Rightarrow> 'a \<Rightarrow> 's" where
  "RangeSet_Add CmpEQ = AddEQ"
| "RangeSet_Add CmpNE = AddNE"
| "RangeSet_Add CmpLT = AddLT"
| "RangeSet_Add CmpGT = AddGT"
| "RangeSet_Add CmpLE = AddLE"
| "RangeSet_Add CmpGE = AddGE"

context range_sets begin

lemma Add_exact:
  assumes "range_set_ok I view built s" "of_type view T V"
  shows "range_set_ok I view built (RangeSet_Add c B I s V) \<and>
    set_values I view (RangeSet_Add c B I s V) = {z \<in> set_values I view s. compares c z (N V)}"
  using AddEQ_exact [OF assms] AddNE_exact [OF assms] order_exact [OF assms] by (cases c) simp_all

end

text \<open>The model's instance, at every type of at least one bit.\<close>

interpretation view_range_sets: range_sets view_values view_of "list_iset (isLess view_values)" T
    "\<lambda>xs. sorted_wrt (isLess view_values) xs \<and> (\<forall>x \<in> set xs. range_type view_of T x)" for T
proof -
  have lt: "isLess view_values a b \<longleftrightarrow> pair_lt (\<lambda>r. num view_of (From r)) (\<lambda>r. num view_of (To r)) a b"
    if "range_type view_of T a" "range_type view_of T b" for a b
    using that by (simp add: isLess_def pair_lt_def range_type_def view_values.compare [where T = T])
  show "range_sets view_values view_of (list_iset (isLess view_values)) T
    (\<lambda>xs. sorted_wrt (isLess view_values) xs \<and> (\<forall>x \<in> set xs. range_type view_of T x))"
    by (rule range_sets.intro [OF view_values.value_factory_axioms list_iset_immutable [OF lt]])
qed

section \<open>Properties\<close>

text \<open>
  C23: the six constraints of a range set are exact and keep its invariant. On a set of ranges that are not
  empty and have no value in common, adding a constraint gives such a set again, of exactly those values that
  satisfy the constraint, whatever the width and signedness; the set is empty exactly when no value is left, and
  its concrete value, when it has one, is its only value.
\<close>

theorem RangeSet_Add_exact:
  assumes "range_sets B view I T built" "range_set_ok I view built s" "of_type view T V"
  shows "range_set_ok I view built (RangeSet_Add c B I s V) \<and>
    set_values I view (RangeSet_Add c B I s V) = {z \<in> set_values I view s. compares c z (num view V)} \<and>
    (set_isEmpty I (RangeSet_Add c B I s V) \<longleftrightarrow> {z \<in> set_values I view s. compares c z (num view V)} = {}) \<and>
    (\<forall>v. RangeSet_getConcreteValue I (RangeSet_Add c B I s V) = Some v \<longrightarrow>
      {z \<in> set_values I view s. compares c z (num view V)} = {num view v})"
proof -
  note A = range_sets.Add_exact [OF assms, of c]
  show ?thesis using A range_sets.isEmpty_values [OF assms(1) conjunct1 [OF A]]
      range_sets.getConcreteValue_values(2) [OF assms(1) conjunct1 [OF A]] by auto
qed

text \<open>The witness splits \<open>[-128, 127]\<close> at 5.\<close>

theorem RangeSet_Add_exact_witness:
  "set_values (list_iset (isLess view_values)) view_of
     (RangeSet_Add CmpNE view_values (list_iset (isLess view_values)) [crange (8, False, - 128) (8, False, 127)] (8, False, 5)) =
     {z \<in> {- 128 .. 127}. z \<noteq> 5}"
proof -
  let ?s = "[crange (8, False, - 128) (8, False, 127)] :: aps_view crange list"
  have n: "view_of (8, False, - 128) = (8, False, - 128)" "view_of (8, False, 127) = (8, False, 127)" "view_of (8, False, 5) = (8, False, 5)"
    by code_simp+
  have s: "range_set_ok (list_iset (isLess view_values)) view_of
      (\<lambda>xs. sorted_wrt (isLess view_values) xs \<and> (\<forall>x \<in> set xs. range_type view_of (8, False) x)) ?s"
    by (simp add: range_set_ok_def list_iset_def range_type_def of_type_def apart_def num_def n)
  have v: "set_values (list_iset (isLess view_values)) view_of ?s = {- 128 .. 127}"
    by (simp add: set_values_def list_iset_def range_values_def num_def n)
  show ?thesis
    using RangeSet_Add_exact [OF view_range_sets.range_sets_axioms s, of "(8, False, 5)" CmpNE]
    by (simp add: v of_type_def num_def n)
qed

end
