(* ===== verification/ConstraintManagers.thy ===== *)
theory ConstraintManagers
  imports RangeSets
begin

text \<open>
  The constraint managers of the analyzer (\<^verbatim>\<open>lib/Analysis/SimpleConstraintManager.cpp\<close>,
  \<^verbatim>\<open>RangeConstraintManager.cpp\<close>, \<^verbatim>\<open>BasicConstraintManager.cpp\<close>). \<^verbatim>\<open>SimpleConstraintManager\<close> reduces an
  assumption on a value to assumptions on a symbol, which are virtual functions: the locale
  \<open>simple_constraints\<close> states what it wants of them, and \<open>exact_constraints\<close> that no state allows more than the
  assumption. Both managers interpret the first, the range manager also the second. A null pointer to a state is \<open>None\<close>, and a
  failing assertion or cast is \<open>None\<close> outside the pair of a state and \<^verbatim>\<open>isFeasible\<close>.
\<close>

section \<open>Values\<close>

type_synonym symbol = nat

datatype opcode = BO_PtrMemD | BO_PtrMemI | BO_Mul | BO_Div | BO_Rem | BO_Add | BO_Sub | BO_Shl | BO_Shr
  | BO_LT | BO_GT | BO_LE | BO_GE | BO_EQ | BO_NE | BO_And | BO_Xor | BO_Or | BO_LAnd | BO_LOr
  | BO_Assign | BO_MulAssign | BO_DivAssign | BO_RemAssign | BO_AddAssign | BO_SubAssign | BO_ShlAssign | BO_ShrAssign
  | BO_AndAssign | BO_XorAssign | BO_OrAssign | BO_Comma

datatype 'a sym_expr =
  SymbolData symbol
| SymIntExpr "'a sym_expr" opcode 'a
| SymSymExpr "'a sym_expr" opcode "'a sym_expr"

text \<open>A region: a memory space, a symbolic region, or another region inside one.\<close>

datatype mem_region =
  MemSpaceRegion
| SymbolicRegion symbol mem_region
| SubRegion mem_region

datatype 'a loc =
  GotoLabel
| MemRegionVal mem_region
| FuncVal
| LocConcreteInt 'a

datatype 'a nonloc =
  ConcreteInt 'a
| SymbolVal symbol
| SymExprVal "'a sym_expr"
| LocAsInteger "'a loc"
| CompoundVal

datatype 'a sval =
  UndefinedVal
| UnknownVal
| LocVal "'a loc"
| NonLocVal "'a nonloc"

section \<open>The simple constraint manager\<close>

text \<open>The value factory, the width of pointers, and the width and signedness of the type of every symbol.\<close>

record 'a analyzer_env =
  an_B :: "'a value_ops"
  an_ptr :: nat
  an_type :: "symbol \<Rightarrow> nat \<times> bool"

definition getValue :: "'a analyzer_env \<Rightarrow> 64 word \<Rightarrow> nat \<times> bool \<Rightarrow> 'a" where
  "getValue E X T = vo_of (an_B E) (fst T) (snd T) X"

definition getZeroWithPtrWidth :: "'a analyzer_env \<Rightarrow> bool \<Rightarrow> 'a" where
  "getZeroWithPtrWidth E u = getValue E 0 (an_ptr E, u)"

type_synonym ('st, 'a) assume_sym = "'st \<Rightarrow> symbol \<Rightarrow> 'a \<Rightarrow> 'st option \<times> bool"

text \<open>The virtual functions of a manager, and the hook of the checkers.\<close>

record ('st, 'a) manager =
  AssumeSymNE :: "('st, 'a) assume_sym"
  AssumeSymEQ :: "('st, 'a) assume_sym"
  AssumeSymLT :: "('st, 'a) assume_sym"
  AssumeSymGT :: "('st, 'a) assume_sym"
  AssumeSymLE :: "('st, 'a) assume_sym"
  AssumeSymGE :: "('st, 'a) assume_sym"
  EvalAssume :: "'st option \<Rightarrow> 'a sval \<Rightarrow> bool \<Rightarrow> bool \<Rightarrow> 'st option \<times> bool"

definition opcode_reasoned :: "opcode \<Rightarrow> bool" where
  "opcode_reasoned op \<longleftrightarrow> op \<notin> {BO_And, BO_Or, BO_Xor, BO_Mul, BO_Div, BO_Rem, BO_Add, BO_Sub, BO_Shl, BO_Shr}"

fun canReasonAbout :: "'a sval \<Rightarrow> bool" where
  "canReasonAbout (NonLocVal (SymExprVal (SymbolData s))) = True"
| "canReasonAbout (NonLocVal (SymExprVal (SymIntExpr e op v))) = opcode_reasoned op"
| "canReasonAbout (NonLocVal (SymExprVal (SymSymExpr e op e'))) = False"
| "canReasonAbout X = True"

text \<open>The first symbolic region on the way up from a region.\<close>

fun first_symbol :: "mem_region \<Rightarrow> symbol option" where
  "first_symbol MemSpaceRegion = None"
| "first_symbol (SymbolicRegion s r) = Some s"
| "first_symbol (SubRegion r) = first_symbol r"

definition concrete_feasible :: "'a analyzer_env \<Rightarrow> 'a \<Rightarrow> bool \<Rightarrow> bool" where
  "concrete_feasible E v Assumption = (if aps_nonzero (vo_S (an_B E)) v then Assumption else \<not> Assumption)"

fun AssumeAux_Loc :: "'a analyzer_env \<Rightarrow> ('st, 'a) manager \<Rightarrow> 'st \<Rightarrow> 'a loc \<Rightarrow> bool \<Rightarrow> 'st option \<times> bool" where
  "AssumeAux_Loc E M St (MemRegionVal R) Assumption =
     (case first_symbol R of
        Some Sym \<Rightarrow> if Assumption then AssumeSymNE M St Sym (getZeroWithPtrWidth E True)
                    else AssumeSymEQ M St Sym (getZeroWithPtrWidth E True)
      | None \<Rightarrow> (Some St, Assumption))"
| "AssumeAux_Loc E M St FuncVal Assumption = (Some St, Assumption)"
| "AssumeAux_Loc E M St GotoLabel Assumption = (Some St, Assumption)"
| "AssumeAux_Loc E M St (LocConcreteInt v) Assumption = (Some St, concrete_feasible E v Assumption)"

fun AssumeSymInt :: "('st, 'a) manager \<Rightarrow> 'st \<Rightarrow> bool \<Rightarrow> 'a sym_expr \<Rightarrow> opcode \<Rightarrow> 'a \<Rightarrow> ('st option \<times> bool) option" where
  "AssumeSymInt M St Assumption (SymbolData Sym) op V = Some (
     case op of
       BO_EQ \<Rightarrow> if Assumption then AssumeSymEQ M St Sym V else AssumeSymNE M St Sym V
     | BO_NE \<Rightarrow> if Assumption then AssumeSymNE M St Sym V else AssumeSymEQ M St Sym V
     | BO_GT \<Rightarrow> if Assumption then AssumeSymGT M St Sym V else AssumeSymLE M St Sym V
     | BO_GE \<Rightarrow> if Assumption then AssumeSymGE M St Sym V else AssumeSymLT M St Sym V
     | BO_LT \<Rightarrow> if Assumption then AssumeSymLT M St Sym V else AssumeSymGE M St Sym V
     | BO_LE \<Rightarrow> if Assumption then AssumeSymLE M St Sym V else AssumeSymGT M St Sym V
     | _ \<Rightarrow> (Some St, True))"
| "AssumeSymInt M St Assumption e op V = None"

fun AssumeAux_NonLoc :: "'a analyzer_env \<Rightarrow> ('st, 'a) manager \<Rightarrow> 'st \<Rightarrow> 'a nonloc \<Rightarrow> bool \<Rightarrow> ('st option \<times> bool) option" where
  "AssumeAux_NonLoc E M St Cond Assumption =
     (if \<not> canReasonAbout (NonLocVal Cond) then Some (Some St, True)
      else case Cond of
        SymbolVal Sym \<Rightarrow> Some (
          if Assumption then AssumeSymNE M St Sym (getValue E 0 (an_type E Sym))
          else AssumeSymEQ M St Sym (getValue E 0 (an_type E Sym)))
      | SymExprVal se \<Rightarrow>
          (case se of SymIntExpr e op v \<Rightarrow> AssumeSymInt M St Assumption e op v | _ \<Rightarrow> Some (Some St, True))
      | ConcreteInt v \<Rightarrow> Some (Some St, concrete_feasible E v Assumption)
      | LocAsInteger l \<Rightarrow> Some (AssumeAux_Loc E M St l Assumption)
      | CompoundVal \<Rightarrow> None)"

definition eval_assumption :: "('st, 'a) manager \<Rightarrow> 'a sval \<Rightarrow> bool \<Rightarrow> 'st option \<times> bool \<Rightarrow> 'st option \<times> bool" where
  "eval_assumption M Cond Assumption = (\<lambda>(St, isFeasible). if \<not> isFeasible then (St, isFeasible) else EvalAssume M St Cond Assumption isFeasible)"

fun Assume :: "'a analyzer_env \<Rightarrow> ('st, 'a) manager \<Rightarrow> 'st \<Rightarrow> 'a sval \<Rightarrow> bool \<Rightarrow> ('st option \<times> bool) option" where
  "Assume E M St UnknownVal Assumption = Some (Some St, True)"
| "Assume E M St (NonLocVal Cond) Assumption =
     map_option (eval_assumption M (NonLocVal Cond) Assumption) (AssumeAux_NonLoc E M St Cond Assumption)"
| "Assume E M St (LocVal Cond) Assumption =
     Some (eval_assumption M (LocVal Cond) Assumption (AssumeAux_Loc E M St Cond Assumption))"
| "Assume E M St UndefinedVal Assumption = None"

definition AssumeInBound :: "'a analyzer_env \<Rightarrow> 'st \<Rightarrow> 'a sval \<Rightarrow> 'a sval \<Rightarrow> bool \<Rightarrow> 'st option \<times> bool" where
  "AssumeInBound E St Idx UpperBound Assumption =
     (case (Idx, UpperBound) of
        (NonLocVal (ConcreteInt i), NonLocVal (ConcreteInt b)) \<Rightarrow>
          let S = vo_S (an_B E); Zero = getZeroWithPtrWidth E False;
              IdxV = (if aps_width S i < aps_width S Zero then aps_extend S (aps_width S Zero) i else i);
              UBV = (if aps_width S b < aps_width S Zero then aps_extend S (aps_width S Zero) b else b);
              InBound = (aps_le S Zero IdxV \<and> aps_lt S IdxV UBV)
          in (Some St, if Assumption then InBound else \<not> InBound)
      | _ \<Rightarrow> (Some St, True))"

text \<open>The hook of a transfer function that does not override it.\<close>

definition default_EvalAssume :: "'st option \<Rightarrow> 'a sval \<Rightarrow> bool \<Rightarrow> bool \<Rightarrow> 'st option \<times> bool" where
  "default_EvalAssume St Cond Assumption isFeasible = (St, isFeasible)"

section \<open>The range constraint manager\<close>

type_synonym 's range_state = "symbol \<rightharpoonup> 's"

definition GetRange :: "'a analyzer_env \<Rightarrow> ('s, 'a) range_iset \<Rightarrow> 's range_state \<Rightarrow> symbol \<Rightarrow> 's" where
  "GetRange E I state Sym =
     (case state Sym of
        Some V \<Rightarrow> V
      | None \<Rightarrow> (case an_type E Sym of (w, u) \<Rightarrow>
          RangeSet_of I (vo_getMinValue (an_B E) w u) (vo_getMaxValue (an_B E) w u)))"

text \<open>The macro \<^verbatim>\<open>AssumeX\<close>, over the operation of the range set.\<close>

definition AssumeX :: "('a value_ops \<Rightarrow> ('s, 'a) range_iset \<Rightarrow> 's \<Rightarrow> 'a \<Rightarrow> 's) \<Rightarrow> 'a analyzer_env \<Rightarrow> ('s, 'a) range_iset \<Rightarrow>
    ('s range_state, 'a) assume_sym" where
  "AssumeX AddOP E I St Sym V =
     (let R = AddOP (an_B E) I (GetRange E I St Sym) V; isFeasible = (\<not> set_isEmpty I R)
      in (if isFeasible then Some (St(Sym \<mapsto> R)) else None, isFeasible))"

definition RangeConstraintManager :: "'a analyzer_env \<Rightarrow> ('s, 'a) range_iset \<Rightarrow> ('s range_state, 'a) manager" where
  "RangeConstraintManager E I = \<lparr>AssumeSymNE = AssumeX AddNE E I, AssumeSymEQ = AssumeX AddEQ E I, AssumeSymLT = AssumeX AddLT E I,
     AssumeSymGT = AssumeX AddGT E I, AssumeSymLE = AssumeX AddLE E I, AssumeSymGE = AssumeX AddGE E I,
     EvalAssume = default_EvalAssume\<rparr>"

definition range_getSymVal :: "('s, 'a) range_iset \<Rightarrow> 's range_state \<Rightarrow> symbol \<Rightarrow> 'a option" where
  "range_getSymVal I St Sym = (case St Sym of None \<Rightarrow> None | Some T \<Rightarrow> RangeSet_getConcreteValue I T)"

definition range_isEqual :: "'a analyzer_env \<Rightarrow> ('s, 'a) range_iset \<Rightarrow> 's range_state \<Rightarrow> symbol \<Rightarrow> 'a \<Rightarrow> bool" where
  "range_isEqual E I St Sym V = (case range_getSymVal I St Sym of Some i \<Rightarrow> aps_eq (vo_S (an_B E)) i V | None \<Rightarrow> False)"

definition range_RemoveDeadBindings :: "'s range_state \<Rightarrow> (symbol \<Rightarrow> bool) \<Rightarrow> 's range_state" where
  "range_RemoveDeadBindings CR maybeDead = (\<lambda>Sym. if maybeDead Sym then None else CR Sym)"

section \<open>The basic constraint manager\<close>

record 'a basic_state =
  ConstEq :: "symbol \<rightharpoonup> 'a"
  ConstNotEq :: "symbol \<rightharpoonup> 'a set"

definition basic_getSymVal :: "'a basic_state \<Rightarrow> symbol \<Rightarrow> 'a option" where
  "basic_getSymVal St Sym = ConstEq St Sym"

definition isNotEqual :: "'a basic_state \<Rightarrow> symbol \<Rightarrow> 'a \<Rightarrow> bool" where
  "isNotEqual St Sym V = (case ConstNotEq St Sym of Some T \<Rightarrow> V \<in> T | None \<Rightarrow> False)"

definition basic_isEqual :: "'a analyzer_env \<Rightarrow> 'a basic_state \<Rightarrow> symbol \<Rightarrow> 'a \<Rightarrow> bool" where
  "basic_isEqual E St Sym V = (case ConstEq St Sym of Some T \<Rightarrow> aps_eq (vo_S (an_B E)) T V | None \<Rightarrow> False)"

definition basic_AddEQ :: "'a basic_state \<Rightarrow> symbol \<Rightarrow> 'a \<Rightarrow> 'a basic_state" where
  "basic_AddEQ St Sym V = St\<lparr>ConstEq := (ConstEq St)(Sym \<mapsto> V)\<rparr>"

definition basic_AddNE :: "'a basic_state \<Rightarrow> symbol \<Rightarrow> 'a \<Rightarrow> 'a basic_state" where
  "basic_AddNE St Sym V =
     (let S = (case ConstNotEq St Sym of Some T \<Rightarrow> T | None \<Rightarrow> {})
      in St\<lparr>ConstNotEq := (ConstNotEq St)(Sym \<mapsto> insert V S)\<rparr>)"

definition basic_AssumeSymNE :: "'a analyzer_env \<Rightarrow> ('a basic_state, 'a) assume_sym" where
  "basic_AssumeSymNE E St Sym V =
     (case basic_getSymVal St Sym of
        Some X \<Rightarrow> (Some St, \<not> aps_eq (vo_S (an_B E)) X V)
      | None \<Rightarrow> if isNotEqual St Sym V then (Some St, True) else (Some (basic_AddNE St Sym V), True))"

definition basic_AssumeSymEQ :: "'a analyzer_env \<Rightarrow> ('a basic_state, 'a) assume_sym" where
  "basic_AssumeSymEQ E St Sym V =
     (case basic_getSymVal St Sym of
        Some X \<Rightarrow> (Some St, aps_eq (vo_S (an_B E)) X V)
      | None \<Rightarrow> if isNotEqual St Sym V then (Some St, False) else (Some (basic_AddEQ St Sym V), True))"

text \<open>\<open>V\<close> is the smallest, or the largest, value of its width and signedness.\<close>

definition is_min :: "'a analyzer_env \<Rightarrow> 'a \<Rightarrow> bool" where
  "is_min E V = (let S = vo_S (an_B E) in aps_eq S V (vo_getMinValue (an_B E) (aps_width S V) (aps_isUnsigned S V)))"

definition is_max :: "'a analyzer_env \<Rightarrow> 'a \<Rightarrow> bool" where
  "is_max E V = (let S = vo_S (an_B E) in aps_eq S V (vo_getMaxValue (an_B E) (aps_width S V) (aps_isUnsigned S V)))"

definition basic_AssumeSymLT :: "'a analyzer_env \<Rightarrow> ('a basic_state, 'a) assume_sym" where
  "basic_AssumeSymLT E St Sym V = (if is_min E V then (Some St, False) else basic_AssumeSymNE E St Sym V)"

definition basic_AssumeSymGT :: "'a analyzer_env \<Rightarrow> ('a basic_state, 'a) assume_sym" where
  "basic_AssumeSymGT E St Sym V = (if is_max E V then (Some St, False) else basic_AssumeSymNE E St Sym V)"

definition basic_AssumeSymGE :: "'a analyzer_env \<Rightarrow> ('a basic_state, 'a) assume_sym" where
  "basic_AssumeSymGE E St Sym V =
     (case basic_getSymVal St Sym of
        Some X \<Rightarrow> (Some St, aps_le (vo_S (an_B E)) V X)
      | None \<Rightarrow>
          if is_max E V
          then (if isNotEqual St Sym V then (Some St, False) else (Some (basic_AddEQ St Sym V), True))
          else (Some St, True))"

definition basic_AssumeSymLE :: "'a analyzer_env \<Rightarrow> ('a basic_state, 'a) assume_sym" where
  "basic_AssumeSymLE E St Sym V =
     (case basic_getSymVal St Sym of
        Some X \<Rightarrow> (Some St, aps_le (vo_S (an_B E)) X V)
      | None \<Rightarrow>
          if is_min E V
          then (if isNotEqual St Sym V then (Some St, False) else (Some (basic_AddEQ St Sym V), True))
          else (Some St, True))"

definition BasicConstraintManager :: "'a analyzer_env \<Rightarrow> ('a basic_state, 'a) manager" where
  "BasicConstraintManager E = \<lparr>AssumeSymNE = basic_AssumeSymNE E, AssumeSymEQ = basic_AssumeSymEQ E,
     AssumeSymLT = basic_AssumeSymLT E, AssumeSymGT = basic_AssumeSymGT E, AssumeSymLE = basic_AssumeSymLE E,
     AssumeSymGE = basic_AssumeSymGE E, EvalAssume = default_EvalAssume\<rparr>"

definition basic_RemoveDeadBindings :: "'a basic_state \<Rightarrow> (symbol \<Rightarrow> bool) \<Rightarrow> 'a basic_state" where
  "basic_RemoveDeadBindings St maybeDead =
     (let St1 = St\<lparr>ConstEq := (\<lambda>Sym. if maybeDead Sym then None else ConstEq St Sym)\<rparr>
      in St1\<lparr>ConstNotEq := (\<lambda>Sym. if maybeDead Sym then None else ConstNotEq St Sym)\<rparr>)"

section \<open>What an assumption means\<close>

text \<open>Under values of the symbols, a condition is true, false, or unknown.\<close>

type_synonym valuation = "symbol \<Rightarrow> int"

fun loc_truth :: "('a \<Rightarrow> aps_view) \<Rightarrow> valuation \<Rightarrow> 'a loc \<Rightarrow> bool" where
  "loc_truth view \<sigma> (MemRegionVal R) = (case first_symbol R of Some s \<Rightarrow> \<sigma> s \<noteq> 0 | None \<Rightarrow> True)"
| "loc_truth view \<sigma> (LocConcreteInt v) = (num view v \<noteq> 0)"
| "loc_truth view \<sigma> l = True"

definition relates :: "opcode \<Rightarrow> int \<Rightarrow> int \<Rightarrow> bool option" where
  "relates op a b = (case op of BO_EQ \<Rightarrow> Some (a = b) | BO_NE \<Rightarrow> Some (a \<noteq> b) | BO_LT \<Rightarrow> Some (a < b) | BO_GT \<Rightarrow> Some (b < a)
     | BO_LE \<Rightarrow> Some (a \<le> b) | BO_GE \<Rightarrow> Some (b \<le> a) | _ \<Rightarrow> None)"

fun truth :: "('a \<Rightarrow> aps_view) \<Rightarrow> valuation \<Rightarrow> 'a sval \<Rightarrow> bool option" where
  "truth view \<sigma> (LocVal l) = Some (loc_truth view \<sigma> l)"
| "truth view \<sigma> (NonLocVal (ConcreteInt v)) = Some (num view v \<noteq> 0)"
| "truth view \<sigma> (NonLocVal (SymbolVal s)) = Some (\<sigma> s \<noteq> 0)"
| "truth view \<sigma> (NonLocVal (LocAsInteger l)) = Some (loc_truth view \<sigma> l)"
| "truth view \<sigma> (NonLocVal (SymExprVal (SymIntExpr (SymbolData s) op v))) = relates op (\<sigma> s) (num view v)"
| "truth view \<sigma> X = None"

text \<open>The condition may have the truth value \<open>b\<close>.\<close>

definition may :: "('a \<Rightarrow> aps_view) \<Rightarrow> 'a sval \<Rightarrow> bool \<Rightarrow> valuation \<Rightarrow> bool" where
  "may view Cond b \<sigma> \<longleftrightarrow> truth view \<sigma> Cond \<noteq> Some (\<not> b)"

text \<open>
  The conditions the analyzer assumes: integers are compared with values of the type of the symbol, pointers
  are unsigned and as wide as any other, and there is no assumption on an undefined or compound value.
\<close>

fun loc_ok :: "'a analyzer_env \<Rightarrow> 'a loc \<Rightarrow> bool" where
  "loc_ok E (MemRegionVal R) = (\<forall>s. first_symbol R = Some s \<longrightarrow> an_type E s = (an_ptr E, True))"
| "loc_ok E l = True"

fun cond_ok :: "'a analyzer_env \<Rightarrow> ('a \<Rightarrow> aps_view) \<Rightarrow> 'a sval \<Rightarrow> bool" where
  "cond_ok E view UndefinedVal = False"
| "cond_ok E view UnknownVal = True"
| "cond_ok E view (LocVal l) = loc_ok E l"
| "cond_ok E view (NonLocVal (LocAsInteger l)) = loc_ok E l"
| "cond_ok E view (NonLocVal CompoundVal) = False"
| "cond_ok E view (NonLocVal (SymExprVal (SymIntExpr e op v))) =
     (opcode_reasoned op \<longrightarrow> (case e of SymbolData s \<Rightarrow> of_type view (an_type E s) v | _ \<Rightarrow> False))"
| "cond_ok E view (NonLocVal c) = True"

section \<open>The interface of the managers\<close>

fun assume_sym :: "('st, 'a) manager \<Rightarrow> comparison \<Rightarrow> ('st, 'a) assume_sym" where
  "assume_sym M CmpEQ = AssumeSymEQ M"
| "assume_sym M CmpNE = AssumeSymNE M"
| "assume_sym M CmpLT = AssumeSymLT M"
| "assume_sym M CmpGT = AssumeSymGT M"
| "assume_sym M CmpLE = AssumeSymLE M"
| "assume_sym M CmpGE = AssumeSymGE M"

definition env_types :: "'a analyzer_env \<Rightarrow> bool" where
  "env_types E \<longleftrightarrow> 0 < an_ptr E \<and> (\<forall>s. 0 < fst (an_type E s))"

text \<open>
  \<open>models St\<close> are the values of the symbols the state allows. An assumption on a symbol keeps all of them
  for which it holds, and is infeasible only when there are none.
\<close>

definition keeps_models :: "('st \<Rightarrow> bool) \<Rightarrow> ('st \<Rightarrow> valuation set) \<Rightarrow> 'st \<Rightarrow> (valuation \<Rightarrow> bool) \<Rightarrow> 'st option \<times> bool \<Rightarrow> bool" where
  "keeps_models ok models St P r \<longleftrightarrow>
     (if snd r then \<exists>St'. fst r = Some St' \<and> ok St' \<and> models St' \<subseteq> models St \<and> {\<sigma> \<in> models St. P \<sigma>} \<subseteq> models St'
      else {\<sigma> \<in> models St. P \<sigma>} = {})"

definition only_models :: "('st \<Rightarrow> valuation set) \<Rightarrow> (valuation \<Rightarrow> bool) \<Rightarrow> 'st option \<times> bool \<Rightarrow> bool" where
  "only_models models P r \<longleftrightarrow> (\<forall>St'. r = (Some St', True) \<longrightarrow> (\<forall>\<sigma> \<in> models St'. P \<sigma>))"

locale simple_constraints = value_factory "an_B E" view
  for E :: "'a analyzer_env" and view :: "'a \<Rightarrow> aps_view" +
  fixes M :: "('st, 'a) manager" and ok :: "'st \<Rightarrow> bool" and models :: "'st \<Rightarrow> valuation set"
  assumes types: "env_types E"
    and sound: "ok St \<Longrightarrow> of_type view (an_type E s) V \<Longrightarrow>
      keeps_models ok models St (\<lambda>\<sigma>. compares c (\<sigma> s) (num view V)) (assume_sym M c St s V)"
    and hook: "ok St \<Longrightarrow> EvalAssume M (Some St) Cond b True = (Some St, True)"

locale exact_constraints = simple_constraints E view M ok models
  for E :: "'a analyzer_env" and view :: "'a \<Rightarrow> aps_view" and M :: "('st, 'a) manager" and ok and models +
  assumes exact: "ok St \<Longrightarrow> of_type view (an_type E s) V \<Longrightarrow>
      only_models models (\<lambda>\<sigma>. compares c (\<sigma> s) (num view V)) (assume_sym M c St s V)"

context simple_constraints begin

lemma zero_ptr: "of_type view (an_ptr E, u) (getZeroWithPtrWidth E u)" "num view (getZeroWithPtrWidth E u) = 0"
  using vo_of [of "an_ptr E" u 0] types by (simp_all add: getZeroWithPtrWidth_def getValue_def of_type_def num_def env_types_def)

lemma zero_type: "of_type view (an_type E s) (getValue E 0 (an_type E s))" "num view (getValue E 0 (an_type E s)) = 0"
  using vo_of [of "fst (an_type E s)" "snd (an_type E s)" 0] types
  by (simp_all add: getValue_def of_type_def num_def env_types_def)

lemma keep_all: "ok St \<Longrightarrow> keeps_models ok models St P (Some St, True)"
  by (auto simp: keeps_models_def)

lemma keeps_cong: "keeps_models ok models St P r \<Longrightarrow> (\<And>\<sigma>. Q \<sigma> \<Longrightarrow> P \<sigma>) \<Longrightarrow> keeps_models ok models St Q r"
  by (auto simp: keeps_models_def split: if_splits)

lemma concrete: "concrete_feasible E v b \<longleftrightarrow> (num view v \<noteq> 0) = b"
  using aps_nonzero [of v] by (cases "view v") (auto simp: concrete_feasible_def num_def)

lemma keep_if: "ok St \<Longrightarrow> keeps_models ok models St (\<lambda>\<sigma>. x = b) (Some St, x = b)"
  by (auto simp: keeps_models_def)

lemma AssumeAux_Loc_sound:
  assumes "ok St" "loc_ok E l"
  shows "keeps_models ok models St (\<lambda>\<sigma>. loc_truth view \<sigma> l = b) (AssumeAux_Loc E M St l b)"
proof (cases l)
  case (MemRegionVal R)
  show ?thesis
  proof (cases "first_symbol R")
    case None
    then show ?thesis using keep_if [OF assms(1), of True b] MemRegionVal by simp
  next
    case (Some s)
    then have z: "of_type view (an_type E s) (getZeroWithPtrWidth E True)" using assms(2) MemRegionVal zero_ptr(1) by simp
    show ?thesis using sound [OF assms(1) z, of CmpNE] sound [OF assms(1) z, of CmpEQ] zero_ptr(2) Some MemRegionVal by (cases b) simp_all
  qed
next
  case (LocConcreteInt v)
  then show ?thesis using keep_if [OF assms(1), of "num view v \<noteq> 0" b] by (simp add: concrete)
qed (use keep_if [OF assms(1), of True b] in simp_all)

lemma AssumeSymInt_sound:
  assumes "ok St" "of_type view (an_type E s) V"
  shows "\<exists>r. AssumeSymInt M St b (SymbolData s) op V = Some r \<and>
    keeps_models ok models St (\<lambda>\<sigma>. relates op (\<sigma> s) (num view V) \<noteq> Some (\<not> b)) r"
proof -
  note S = sound [OF assms, of CmpEQ] sound [OF assms, of CmpNE] sound [OF assms, of CmpLT] sound [OF assms, of CmpGT]
    sound [OF assms, of CmpLE] sound [OF assms, of CmpGE]
  show ?thesis using S keep_all [OF assms(1), of "\<lambda>_. True"]
    by (cases op; cases b; simp add: relates_def not_less not_le)
qed

text \<open>An assumption on a value keeps the models in which the value may have the assumed truth.\<close>

lemma AssumeAux_NonLoc_sound:
  assumes "ok St" "cond_ok E view (NonLocVal n)"
  shows "\<exists>r. AssumeAux_NonLoc E M St n b = Some r \<and> keeps_models ok models St (may view (NonLocVal n) b) r"
proof (cases n)
  case (ConcreteInt v)
  then show ?thesis using keep_if [OF assms(1), of "num view v \<noteq> 0" b] by (auto simp: concrete may_def elim: keeps_cong)
next
  case (SymbolVal s)
  show ?thesis
    using sound [OF assms(1) zero_type(1), of CmpNE s] sound [OF assms(1) zero_type(1), of CmpEQ s] SymbolVal
    by (cases b) (simp_all add: zero_type(2) may_def [abs_def])
next
  case (SymExprVal e)
  show ?thesis
  proof (cases e)
    case (SymIntExpr l op v)
    show ?thesis
    proof (cases "opcode_reasoned op")
      case True
      then obtain s where s: "l = SymbolData s" "of_type view (an_type E s) v"
        using assms(2) SymExprVal SymIntExpr by (auto split: sym_expr.splits)
      then show ?thesis using AssumeSymInt_sound [OF assms(1) s(2), of b op] SymExprVal SymIntExpr True
        by (simp add: may_def [abs_def])
    qed (use SymExprVal SymIntExpr keep_all [OF assms(1)] in simp)
  qed (use SymExprVal keep_all [OF assms(1)] in simp_all)
next
  case (LocAsInteger l)
  then show ?thesis using AssumeAux_Loc_sound [OF assms(1), of l b] assms(2)
    by (auto simp: may_def elim: keeps_cong)
qed (use assms(2) in simp)

lemma eval_assumption_keeps:
  "keeps_models ok models St P r \<Longrightarrow> eval_assumption M Cond b r = r"
  using hook by (cases r) (auto simp: eval_assumption_def keeps_models_def split: if_splits)

lemma Assume_sound:
  assumes "ok St" "cond_ok E view Cond"
  shows "\<exists>r. Assume E M St Cond b = Some r \<and> keeps_models ok models St (may view Cond b) r"
proof (cases Cond)
  case (LocVal l)
  then have "keeps_models ok models St (may view Cond b) (AssumeAux_Loc E M St l b)"
    using AssumeAux_Loc_sound [OF assms(1), of l b] assms(2) by (auto simp: may_def elim: keeps_cong)
  then show ?thesis using eval_assumption_keeps LocVal by auto
next
  case (NonLocVal n)
  then show ?thesis using AssumeAux_NonLoc_sound [OF assms(1), of n b] assms(2) eval_assumption_keeps by fastforce
qed (use assms keep_all in auto)

end

context exact_constraints begin

lemma only_if: "only_models models (\<lambda>\<sigma>. x = b) (Some St, x = b)"
  by (auto simp: only_models_def)

lemma only_cong: "only_models models P r \<Longrightarrow> (\<And>\<sigma>. P \<sigma> \<Longrightarrow> Q \<sigma>) \<Longrightarrow> only_models models Q r"
  by (auto simp: only_models_def)

lemma AssumeAux_Loc_exact:
  assumes "ok St" "loc_ok E l"
  shows "only_models models (\<lambda>\<sigma>. loc_truth view \<sigma> l = b) (AssumeAux_Loc E M St l b)"
proof (cases l)
  case (MemRegionVal R)
  show ?thesis
  proof (cases "first_symbol R")
    case None
    then show ?thesis using only_if [of True b] MemRegionVal by simp
  next
    case (Some s)
    then have z: "of_type view (an_type E s) (getZeroWithPtrWidth E True)" using assms(2) MemRegionVal zero_ptr(1) by simp
    show ?thesis using exact [OF assms(1) z, of CmpNE] exact [OF assms(1) z, of CmpEQ] zero_ptr(2) Some MemRegionVal by (cases b) simp_all
  qed
next
  case (LocConcreteInt v)
  then show ?thesis using only_if [of "num view v \<noteq> 0" b] by (simp add: concrete)
qed (use only_if [of True b] in simp_all)

lemma AssumeSymInt_exact:
  assumes "ok St" "of_type view (an_type E s) V" "AssumeSymInt M St b (SymbolData s) op V = Some r"
  shows "only_models models (\<lambda>\<sigma>. relates op (\<sigma> s) (num view V) \<noteq> Some (\<not> b)) r"
proof -
  note S = exact [OF assms(1,2), of CmpEQ] exact [OF assms(1,2), of CmpNE] exact [OF assms(1,2), of CmpLT]
    exact [OF assms(1,2), of CmpGT] exact [OF assms(1,2), of CmpLE] exact [OF assms(1,2), of CmpGE]
  have "only_models models (\<lambda>_. True) r" by (simp add: only_models_def)
  then show ?thesis using S assms(3) by (cases op; cases b; auto simp: relates_def not_less not_le)
qed

lemma AssumeAux_NonLoc_exact:
  assumes "ok St" "cond_ok E view (NonLocVal n)" "AssumeAux_NonLoc E M St n b = Some r"
  shows "only_models models (may view (NonLocVal n) b) r"
proof (cases n)
  case (ConcreteInt v)
  then show ?thesis using assms(3) by (auto simp: concrete may_def only_models_def)
next
  case (SymbolVal s)
  show ?thesis
    using exact [OF assms(1) zero_type(1), of CmpNE s] exact [OF assms(1) zero_type(1), of CmpEQ s] SymbolVal assms(3)
    by (cases b) (auto simp: zero_type(2) may_def [abs_def])
next
  case (SymExprVal e)
  show ?thesis
  proof (cases e)
    case (SymIntExpr l op v)
    show ?thesis
    proof (cases "opcode_reasoned op")
      case True
      then obtain s where s: "l = SymbolData s" "of_type view (an_type E s) v"
        using assms(2) SymExprVal SymIntExpr by (auto split: sym_expr.splits)
      then show ?thesis using AssumeSymInt_exact [OF assms(1) s(2), of b op r] SymExprVal SymIntExpr True assms(3)
        by (simp add: may_def [abs_def])
    next
      case False
      then have "truth view \<sigma> (NonLocVal n) = None" for \<sigma>
        using SymExprVal SymIntExpr by (cases l) (auto simp: opcode_reasoned_def relates_def)
      then show ?thesis by (simp add: only_models_def may_def)
    qed
  qed (use SymExprVal in \<open>simp_all add: only_models_def may_def\<close>)
next
  case (LocAsInteger l)
  then show ?thesis using AssumeAux_Loc_exact [OF assms(1), of l b] assms(2,3)
    by (auto simp: may_def elim: only_cong)
qed (use assms(3) in simp)

text \<open>Feasible assumptions give exactly the models in which the value may have the assumed truth.\<close>

lemma Assume_exact:
  assumes "ok St" "cond_ok E view Cond" "Assume E M St Cond b = Some (Some St', True)"
  shows "models St' = {\<sigma> \<in> models St. may view Cond b \<sigma>}"
proof -
  have k: "keeps_models ok models St (may view Cond b) (Some St', True)" using Assume_sound [OF assms(1,2), of b] assms(3) by auto
  have "only_models models (may view Cond b) (Some St', True)"
  proof (cases Cond)
    case (LocVal l)
    then have a: "AssumeAux_Loc E M St l b = (Some St', True)"
      using assms AssumeAux_Loc_sound [OF assms(1), of l b] eval_assumption_keeps by auto
    show ?thesis using AssumeAux_Loc_exact [OF assms(1), of l b] assms(2) LocVal a
      by (auto simp: may_def elim: only_cong)
  next
    case (NonLocVal n)
    then obtain r where r: "AssumeAux_NonLoc E M St n b = Some r" "keeps_models ok models St (may view Cond b) r"
      using AssumeAux_NonLoc_sound [OF assms(1), of n b] assms(2) by auto
    then have "r = (Some St', True)" using assms(3) NonLocVal eval_assumption_keeps by auto
    then show ?thesis using AssumeAux_NonLoc_exact [OF assms(1), of n b r] assms(2) NonLocVal r(1) by simp
  qed (use assms in \<open>auto simp: only_models_def may_def\<close>)
  then show ?thesis using k by (auto simp: keeps_models_def only_models_def)
qed

end

section \<open>The range manager is exact\<close>

text \<open>The values a type has, and the models of a state of the range manager.\<close>

definition type_values :: "nat \<times> bool \<Rightarrow> int set" where
  "type_values T = {min_value (snd T) (fst T) .. max_value (snd T) (fst T)}"

definition range_models :: "'a analyzer_env \<Rightarrow> ('s, 'a) range_iset \<Rightarrow> ('a \<Rightarrow> aps_view) \<Rightarrow> 's range_state \<Rightarrow> valuation set" where
  "range_models E I view St =
     {\<sigma>. \<forall>s. \<sigma> s \<in> (case St s of None \<Rightarrow> type_values (an_type E s) | Some R \<Rightarrow> set_values I view R)}"

definition range_state_ok :: "'a analyzer_env \<Rightarrow> ('s, 'a) range_iset \<Rightarrow> ('a \<Rightarrow> aps_view) \<Rightarrow> (nat \<times> bool \<Rightarrow> 's \<Rightarrow> bool) \<Rightarrow> 's range_state \<Rightarrow> bool" where
  "range_state_ok E I view built St \<longleftrightarrow>
     (\<forall>s R. St s = Some R \<longrightarrow> range_set_ok I view (built (an_type E s)) R \<and> set_values I view R \<noteq> {})"

definition range_env_ok :: "'a analyzer_env \<Rightarrow> ('s, 'a) range_iset \<Rightarrow> ('a \<Rightarrow> aps_view) \<Rightarrow> (nat \<times> bool \<Rightarrow> 's \<Rightarrow> bool) \<Rightarrow> bool" where
  "range_env_ok E I view built \<longleftrightarrow> env_types E \<and> (\<forall>T. range_sets (an_B E) view I T (built T))"

lemma range_assume_sym: "assume_sym (RangeConstraintManager E I) c = AssumeX (RangeSet_Add c) E I"
  by (cases c) (simp_all add: RangeConstraintManager_def)

lemma GetRange_ok:
  assumes "range_env_ok E I view built" "range_state_ok E I view built St"
  shows "range_set_ok I view (built (an_type E s)) (GetRange E I St s)"
    "set_values I view (GetRange E I St s) = (case St s of None \<Rightarrow> type_values (an_type E s) | Some R \<Rightarrow> set_values I view R)"
proof -
  obtain w u where T: "an_type E s = (w, u)" by (cases "an_type E s")
  have w: "0 < w" using assms(1) T by (auto simp: range_env_ok_def env_types_def dest: spec [of _ s])
  have R: "range_sets (an_B E) view I (w, u) (built (w, u))" using assms(1) unfolding range_env_ok_def by blast
  then have F: "value_factory (an_B E) view" by (simp add: range_sets_def)
  have m: "of_type view (w, u) (vo_getMinValue (an_B E) w u)" "num view (vo_getMinValue (an_B E) w u) = min_value u w"
    "of_type view (w, u) (vo_getMaxValue (an_B E) w u)" "num view (vo_getMaxValue (an_B E) w u) = max_value u w"
    using value_factory.vo_getMinValue [OF F w, of u] value_factory.vo_getMaxValue [OF F w, of u] by (simp_all add: of_type_def num_def)
  have "min_value u w \<le> max_value u w" by (simp add: min_value_def max_value_def)
  then show "range_set_ok I view (built (an_type E s)) (GetRange E I St s)"
    "set_values I view (GetRange E I St s) = (case St s of None \<Rightarrow> type_values (an_type E s) | Some R \<Rightarrow> set_values I view R)"
    using range_sets.RangeSet_of_ok [OF R m(1,3)] m(2,4) assms(2) [unfolded range_state_ok_def, rule_format, of s] T
    by (cases "St s"; simp add: GetRange_def type_values_def)+
qed

lemma range_AssumeX:
  assumes "range_env_ok E I view built" "range_state_ok E I view built St" "of_type view (an_type E s) V"
  shows "keeps_models (range_state_ok E I view built) (range_models E I view) St (\<lambda>\<sigma>. compares c (\<sigma> s) (num view V))
      (AssumeX (RangeSet_Add c) E I St s V) \<and>
    only_models (range_models E I view) (\<lambda>\<sigma>. compares c (\<sigma> s) (num view V)) (AssumeX (RangeSet_Add c) E I St s V)"
proof -
  let ?G = "GetRange E I St s" and ?R = "RangeSet_Add c (an_B E) I (GetRange E I St s) V"
  have S: "range_sets (an_B E) view I (an_type E s) (built (an_type E s))"
    using assms(1) unfolding range_env_ok_def by blast
  note G = GetRange_ok [OF assms(1,2), of s]
  note R = range_sets.Add_exact [OF S G(1) assms(3), of c]
  have e: "set_isEmpty I ?R \<longleftrightarrow> set_values I view ?R = {}" by (rule range_sets.isEmpty_values [OF S conjunct1 [OF R]])
  have in_G: "\<sigma> s \<in> set_values I view ?G" if "\<sigma> \<in> range_models E I view St" for \<sigma>
    using that unfolding G(2) range_models_def by blast
  show ?thesis
  proof (cases "set_values I view ?R = {}")
    case True
    then show ?thesis using in_G R e by (auto simp: AssumeX_def Let_def keeps_models_def only_models_def)
  next
    case False
    have ok: "range_state_ok E I view built (St(s \<mapsto> ?R))" using assms(2) R False by (auto simp: range_state_ok_def)
    have m: "range_models E I view (St(s \<mapsto> ?R)) = {\<sigma> \<in> range_models E I view St. compares c (\<sigma> s) (num view V)}"
    proof (intro set_eqI iffI)
      fix \<sigma> assume \<sigma>: "\<sigma> \<in> range_models E I view (St(s \<mapsto> ?R))"
      then have "\<sigma> s \<in> set_values I view ?R" by (auto simp: range_models_def dest: spec [of _ s])
      then have a: "\<sigma> s \<in> set_values I view ?G" "compares c (\<sigma> s) (num view V)" using R by auto
      have b: "\<sigma> t \<in> (case St t of None \<Rightarrow> type_values (an_type E t) | Some R \<Rightarrow> set_values I view R)" if "t \<noteq> s" for t
        using \<sigma> that by (auto simp: range_models_def dest: spec [of _ t])
      have "\<sigma> t \<in> (case St t of None \<Rightarrow> type_values (an_type E t) | Some R \<Rightarrow> set_values I view R)" for t
        using a(1) [unfolded G(2)] b [of t] by (cases "t = s") auto
      then show "\<sigma> \<in> {\<sigma> \<in> range_models E I view St. compares c (\<sigma> s) (num view V)}"
        using a(2) by (simp add: range_models_def)
    next
      fix \<sigma> assume "\<sigma> \<in> {\<sigma> \<in> range_models E I view St. compares c (\<sigma> s) (num view V)}"
      then show "\<sigma> \<in> range_models E I view (St(s \<mapsto> ?R))" using in_G [of \<sigma>] R by (auto simp: range_models_def)
    qed
    show ?thesis using False e ok m by (auto simp: AssumeX_def Let_def keeps_models_def only_models_def)
  qed
qed

lemma range_exact:
  assumes "range_env_ok E I view built"
  shows "exact_constraints E view (RangeConstraintManager E I) (range_state_ok E I view built) (range_models E I view)"
proof -
  have "value_factory (an_B E) view" "env_types E" using assms by (auto simp: range_env_ok_def range_sets_def)
  then show ?thesis
    by (intro exact_constraints.intro simple_constraints.intro simple_constraints_axioms.intro exact_constraints_axioms.intro)
      (use range_AssumeX [OF assms] in \<open>simp_all add: range_assume_sym\<close>,
        simp add: RangeConstraintManager_def default_EvalAssume_def)
qed

section \<open>The basic manager is sound\<close>

definition basic_models :: "'a analyzer_env \<Rightarrow> ('a \<Rightarrow> aps_view) \<Rightarrow> 'a basic_state \<Rightarrow> valuation set" where
  "basic_models E view St = {\<sigma>. \<forall>s. \<sigma> s \<in> type_values (an_type E s) \<and> (\<forall>v. ConstEq St s = Some v \<longrightarrow> \<sigma> s = num view v) \<and>
     (\<forall>T. ConstNotEq St s = Some T \<longrightarrow> (\<forall>v \<in> T. \<sigma> s \<noteq> num view v))}"

definition basic_state_ok :: "'a analyzer_env \<Rightarrow> ('a \<Rightarrow> aps_view) \<Rightarrow> 'a basic_state \<Rightarrow> bool" where
  "basic_state_ok E view St \<longleftrightarrow> (\<forall>s v. ConstEq St s = Some v \<longrightarrow> of_type view (an_type E s) v)"

lemma basic_modelsD:
  assumes "\<sigma> \<in> basic_models E view St"
  shows "ConstEq St s = Some v \<Longrightarrow> \<sigma> s = num view v" "isNotEqual St s v \<Longrightarrow> \<sigma> s \<noteq> num view v"
    "min_value (snd (an_type E s)) (fst (an_type E s)) \<le> \<sigma> s" "\<sigma> s \<le> max_value (snd (an_type E s)) (fst (an_type E s))"
  using assms by (auto simp: basic_models_def isNotEqual_def type_values_def split: option.splits)

lemma basic_AddEQ_models:
  assumes "basic_state_ok E view St" "of_type view (an_type E s) V"
  shows "basic_state_ok E view (basic_AddEQ St s V)" "ConstEq St s = None \<Longrightarrow>
    basic_models E view (basic_AddEQ St s V) = {\<sigma> \<in> basic_models E view St. \<sigma> s = num view V}"
proof -
  show "basic_state_ok E view (basic_AddEQ St s V)" using assms by (simp add: basic_state_ok_def basic_AddEQ_def)
  assume n: "ConstEq St s = None"
  have "(\<forall>v. ConstEq (basic_AddEQ St s V) t = Some v \<longrightarrow> \<sigma> t = num view v) \<longleftrightarrow>
      (\<forall>v. ConstEq St t = Some v \<longrightarrow> \<sigma> t = num view v) \<and> (t = s \<longrightarrow> \<sigma> t = num view V)" for \<sigma> t
    using n by (auto simp: basic_AddEQ_def)
  moreover have "ConstNotEq (basic_AddEQ St s V) = ConstNotEq St" by (simp add: basic_AddEQ_def)
  ultimately show "basic_models E view (basic_AddEQ St s V) = {\<sigma> \<in> basic_models E view St. \<sigma> s = num view V}"
    unfolding basic_models_def by auto
qed

lemma basic_AddNE_models:
  assumes "basic_state_ok E view St"
  shows "basic_state_ok E view (basic_AddNE St s V)"
    "basic_models E view (basic_AddNE St s V) = {\<sigma> \<in> basic_models E view St. \<sigma> s \<noteq> num view V}"
proof -
  show "basic_state_ok E view (basic_AddNE St s V)" using assms by (simp add: basic_state_ok_def basic_AddNE_def Let_def)
  have "(\<forall>T. ConstNotEq (basic_AddNE St s V) t = Some T \<longrightarrow> (\<forall>v \<in> T. \<sigma> t \<noteq> num view v)) \<longleftrightarrow>
      (\<forall>T. ConstNotEq St t = Some T \<longrightarrow> (\<forall>v \<in> T. \<sigma> t \<noteq> num view v)) \<and> (t = s \<longrightarrow> \<sigma> t \<noteq> num view V)" for \<sigma> t
    by (cases "ConstNotEq St s") (auto simp: basic_AddNE_def Let_def)
  moreover have "ConstEq (basic_AddNE St s V) = ConstEq St" by (simp add: basic_AddNE_def Let_def)
  ultimately show "basic_models E view (basic_AddNE St s V) = {\<sigma> \<in> basic_models E view St. \<sigma> s \<noteq> num view V}"
    unfolding basic_models_def by auto
qed

lemma is_extreme:
  assumes "value_factory (an_B E) view" "env_types E" "of_type view (an_type E s) V"
  shows "is_min E V \<longleftrightarrow> num view V = min_value (snd (an_type E s)) (fst (an_type E s))"
    "is_max E V \<longleftrightarrow> num view V = max_value (snd (an_type E s)) (fst (an_type E s))"
proof -
  obtain w u where T: "an_type E s = (w, u)" by (cases "an_type E s")
  have w: "0 < w" using assms(2) T by (auto simp: env_types_def dest: spec [of _ s])
  have S: "apsint (vo_S (an_B E)) view" using assms(1) by (simp add: value_factory_def)
  have V: "view V = (w, u, num view V)" using assms(3) value_factory.of_type_view [OF assms(1)] T by simp
  show "is_min E V \<longleftrightarrow> num view V = min_value (snd (an_type E s)) (fst (an_type E s))"
    "is_max E V \<longleftrightarrow> num view V = max_value (snd (an_type E s)) (fst (an_type E s))"
    using apsint.aps_width [OF S V] apsint.aps_isUnsigned [OF S V] apsint.aps_eq [OF S V value_factory.vo_getMinValue [OF assms(1) w]]
      apsint.aps_eq [OF S V value_factory.vo_getMaxValue [OF assms(1) w]] T
    by (simp_all add: is_min_def is_max_def Let_def)
qed

lemma basic_compare:
  assumes "value_factory (an_B E) view" "basic_state_ok E view St" "of_type view (an_type E s) V" "ConstEq St s = Some X"
  shows "aps_eq (vo_S (an_B E)) X V \<longleftrightarrow> num view X = num view V" "aps_le (vo_S (an_B E)) X V \<longleftrightarrow> num view X \<le> num view V"
    "aps_le (vo_S (an_B E)) V X \<longleftrightarrow> num view V \<le> num view X"
proof -
  have X: "of_type view (an_type E s) X" using assms(2,4) by (simp add: basic_state_ok_def)
  show "aps_eq (vo_S (an_B E)) X V \<longleftrightarrow> num view X = num view V" "aps_le (vo_S (an_B E)) X V \<longleftrightarrow> num view X \<le> num view V"
    "aps_le (vo_S (an_B E)) V X \<longleftrightarrow> num view V \<le> num view X"
    by (simp_all add: value_factory.compare [OF assms(1) X assms(3)] value_factory.compare [OF assms(1) assms(3) X])
qed

lemma basic_assume_NE:
  assumes "value_factory (an_B E) view" "basic_state_ok E view St" "of_type view (an_type E s) V" "\<And>\<sigma>. P \<sigma> \<Longrightarrow> \<sigma> s \<noteq> num view V"
  shows "keeps_models (basic_state_ok E view) (basic_models E view) St P (basic_AssumeSymNE E St s V)"
proof (cases "ConstEq St s")
  case None
  then show ?thesis using assms(2,4) basic_AddNE_models [OF assms(2), of s V]
    by (auto simp: basic_AssumeSymNE_def basic_getSymVal_def keeps_models_def)
next
  case (Some X)
  have "num view X \<noteq> num view V" if "\<sigma> \<in> basic_models E view St" "P \<sigma>" for \<sigma>
    using basic_modelsD(1) [OF that(1) Some] assms(4) [OF that(2)] by simp
  then show ?thesis using Some assms(2) basic_compare(1) [OF assms(1-3) Some]
    by (auto simp: basic_AssumeSymNE_def basic_getSymVal_def keeps_models_def)
qed

lemma basic_add_equal:
  assumes "basic_state_ok E view St" "of_type view (an_type E s) V" "ConstEq St s = None" "\<And>\<sigma>. \<sigma> \<in> basic_models E view St \<Longrightarrow> P \<sigma> \<Longrightarrow> \<sigma> s = num view V"
  shows "keeps_models (basic_state_ok E view) (basic_models E view) St P
    (if isNotEqual St s V then (Some St, False) else (Some (basic_AddEQ St s V), True))"
proof (cases "isNotEqual St s V")
  case True
  have "\<not> P \<sigma>" if "\<sigma> \<in> basic_models E view St" for \<sigma> using assms(4) [OF that] basic_modelsD(2) [OF that True] by blast
  then show ?thesis using True by (auto simp: keeps_models_def)
next
  case False
  then show ?thesis using assms(4) basic_AddEQ_models(1) [OF assms(1,2)] basic_AddEQ_models(2) [OF assms(1-3)]
    by (auto simp: keeps_models_def)
qed

lemma basic_known:
  assumes "value_factory (an_B E) view" "basic_state_ok E view St" "of_type view (an_type E s) V" "ConstEq St s = Some X"
    "\<And>\<sigma>. P \<sigma> \<Longrightarrow> \<sigma> s = num view X \<Longrightarrow> b"
  shows "keeps_models (basic_state_ok E view) (basic_models E view) St P (Some St, b)"
proof -
  have b if "\<sigma> \<in> basic_models E view St" "P \<sigma>" for \<sigma> using assms(5) [OF that(2) basic_modelsD(1) [OF that(1) assms(4)]] .
  then show ?thesis using assms(2) by (auto simp: keeps_models_def)
qed

lemma basic_assume_sound:
  assumes "value_factory (an_B E) view" "env_types E" "basic_state_ok E view St" "of_type view (an_type E s) V"
  shows "keeps_models (basic_state_ok E view) (basic_models E view) St (\<lambda>\<sigma>. compares c (\<sigma> s) (num view V))
    (assume_sym (BasicConstraintManager E) c St s V)"
proof -
  note ext = is_extreme [OF assms(1,2,4)]
  note NE = basic_assume_NE [OF assms(1,3,4)] and known = basic_known [OF assms(1,3,4)]
  note cmp = basic_compare [OF assms(1,3,4)]
  have bounds: "min_value (snd (an_type E s)) (fst (an_type E s)) \<le> \<sigma> s" "\<sigma> s \<le> max_value (snd (an_type E s)) (fst (an_type E s))"
    if "\<sigma> \<in> basic_models E view St" for \<sigma> using basic_modelsD(3,4) [OF that] by auto
  show ?thesis
  proof (cases c)
    case CmpNE
    have "keeps_models (basic_state_ok E view) (basic_models E view) St (\<lambda>\<sigma>. \<sigma> s \<noteq> num view V) (basic_AssumeSymNE E St s V)"
      by (rule NE)
    then show ?thesis using CmpNE by (simp add: BasicConstraintManager_def)
  next
    case CmpEQ
    then show ?thesis
    proof (cases "ConstEq St s")
      case None
      then show ?thesis using basic_add_equal [OF assms(3,4) None, of "\<lambda>\<sigma>. \<sigma> s = num view V"] CmpEQ
        by (simp add: BasicConstraintManager_def basic_AssumeSymEQ_def basic_getSymVal_def)
    next
      case (Some X)
      have "keeps_models (basic_state_ok E view) (basic_models E view) St (\<lambda>\<sigma>. compares CmpEQ (\<sigma> s) (num view V))
        (Some St, compares CmpEQ (num view X) (num view V))" by (rule known [OF Some]) simp
      then show ?thesis using Some cmp [OF Some] CmpEQ
        by (simp add: BasicConstraintManager_def basic_AssumeSymEQ_def basic_getSymVal_def)
    qed
  next
    case CmpLT
    show ?thesis
    proof (cases "is_min E V")
      case True
      then have "{\<sigma> \<in> basic_models E view St. compares c (\<sigma> s) (num view V)} = {}" using ext bounds CmpLT by fastforce
      then show ?thesis using True CmpLT by (simp add: BasicConstraintManager_def basic_AssumeSymLT_def keeps_models_def)
    next
      case False
      have "keeps_models (basic_state_ok E view) (basic_models E view) St (\<lambda>\<sigma>. \<sigma> s < num view V) (basic_AssumeSymNE E St s V)"
        by (rule NE) simp
      then show ?thesis using False CmpLT by (simp add: BasicConstraintManager_def basic_AssumeSymLT_def)
    qed
  next
    case CmpGT
    show ?thesis
    proof (cases "is_max E V")
      case True
      then have "{\<sigma> \<in> basic_models E view St. compares c (\<sigma> s) (num view V)} = {}" using ext bounds CmpGT by fastforce
      then show ?thesis using True CmpGT by (simp add: BasicConstraintManager_def basic_AssumeSymGT_def keeps_models_def)
    next
      case False
      have "keeps_models (basic_state_ok E view) (basic_models E view) St (\<lambda>\<sigma>. num view V < \<sigma> s) (basic_AssumeSymNE E St s V)"
        by (rule NE) simp
      then show ?thesis using False CmpGT by (simp add: BasicConstraintManager_def basic_AssumeSymGT_def)
    qed
  next
    case CmpLE
    show ?thesis
    proof (cases "ConstEq St s")
      case None
      have "\<sigma> s = num view V" if "\<sigma> \<in> basic_models E view St" "\<sigma> s \<le> num view V" "is_min E V" for \<sigma>
        using bounds(1) [OF that(1)] that(2,3) ext(1) by simp
      then show ?thesis
        using None CmpLE assms(3) basic_add_equal [OF assms(3,4) None, of "\<lambda>\<sigma>. \<sigma> s \<le> num view V"]
        by (cases "is_min E V")
          (simp_all add: BasicConstraintManager_def basic_AssumeSymLE_def basic_getSymVal_def, simp add: keeps_models_def)
    next
      case (Some X)
      have "keeps_models (basic_state_ok E view) (basic_models E view) St (\<lambda>\<sigma>. compares CmpLE (\<sigma> s) (num view V))
        (Some St, compares CmpLE (num view X) (num view V))" by (rule known [OF Some]) simp
      then show ?thesis using Some cmp [OF Some] CmpLE
        by (simp add: BasicConstraintManager_def basic_AssumeSymLE_def basic_getSymVal_def)
    qed
  next
    case CmpGE
    show ?thesis
    proof (cases "ConstEq St s")
      case None
      have "\<sigma> s = num view V" if "\<sigma> \<in> basic_models E view St" "num view V \<le> \<sigma> s" "is_max E V" for \<sigma>
        using bounds(2) [OF that(1)] that(2,3) ext(2) by simp
      then show ?thesis
        using None CmpGE assms(3) basic_add_equal [OF assms(3,4) None, of "\<lambda>\<sigma>. num view V \<le> \<sigma> s"]
        by (cases "is_max E V")
          (simp_all add: BasicConstraintManager_def basic_AssumeSymGE_def basic_getSymVal_def, simp add: keeps_models_def)
    next
      case (Some X)
      have "keeps_models (basic_state_ok E view) (basic_models E view) St (\<lambda>\<sigma>. compares CmpGE (\<sigma> s) (num view V))
        (Some St, compares CmpGE (num view X) (num view V))" by (rule known [OF Some]) simp
      then show ?thesis using Some cmp [OF Some] CmpGE
        by (simp add: BasicConstraintManager_def basic_AssumeSymGE_def basic_getSymVal_def)
    qed
  qed
qed

lemma basic_sound:
  assumes "value_factory (an_B E) view" "env_types E"
  shows "simple_constraints E view (BasicConstraintManager E) (basic_state_ok E view) (basic_models E view)"
  by (intro simple_constraints.intro simple_constraints_axioms.intro)
    (use assms basic_assume_sound [OF assms] in \<open>simp_all add: BasicConstraintManager_def default_EvalAssume_def\<close>)

section \<open>Queries, dead symbols and bounds\<close>

lemma range_models_nonempty:
  assumes "env_types E" "range_state_ok E I view built St"
  shows "range_models E I view St \<noteq> {}"
proof -
  have "\<exists>z. z \<in> (case St s of None \<Rightarrow> type_values (an_type E s) | Some R \<Rightarrow> set_values I view R)" for s
  proof (cases "St s")
    case None
    have "min_value (snd (an_type E s)) (fst (an_type E s)) \<in> type_values (an_type E s)"
      by (simp add: type_values_def min_value_def max_value_def)
    then show ?thesis using None by auto
  qed (use assms(2) in \<open>auto simp: range_state_ok_def\<close>)
  then obtain \<sigma> where "\<forall>s. \<sigma> s \<in> (case St s of None \<Rightarrow> type_values (an_type E s) | Some R \<Rightarrow> set_values I view R)" by metis
  then show ?thesis by (auto simp: range_models_def)
qed

lemma range_getSymVal_models:
  assumes "range_env_ok E I view built" "range_state_ok E I view built St" "range_getSymVal I St s = Some v" "\<sigma> \<in> range_models E I view St"
  shows "\<sigma> s = num view v"
proof -
  obtain R where R: "St s = Some R" "RangeSet_getConcreteValue I R = Some v"
    using assms(3) by (auto simp: range_getSymVal_def split: option.splits)
  have S: "range_sets (an_B E) view I (an_type E s) (built (an_type E s))" using assms(1) unfolding range_env_ok_def by blast
  have "set_values I view R = {num view v}"
    using range_sets.getConcreteValue_values(2) [OF S] R assms(2) by (auto simp: range_state_ok_def)
  moreover have "\<sigma> s \<in> set_values I view R" using assms(4) R(1) by (auto simp: range_models_def dest: spec [of _ s])
  ultimately show ?thesis by simp
qed

lemma basic_getSymVal_models:
  "basic_getSymVal St s = Some v \<Longrightarrow> \<sigma> \<in> basic_models E view St \<Longrightarrow> \<sigma> s = num view v"
  using basic_modelsD(1) by (fastforce simp: basic_getSymVal_def)

text \<open>Forgetting dead symbols forgets nothing of the others.\<close>

lemma range_RemoveDeadBindings_models:
  assumes "range_state_ok E I view built St"
  shows "range_state_ok E I view built (range_RemoveDeadBindings St dead)"
    "range_models E I view (range_RemoveDeadBindings St dead) =
      {\<sigma>. \<forall>s. \<sigma> s \<in> (if dead s then type_values (an_type E s)
        else case St s of None \<Rightarrow> type_values (an_type E s) | Some R \<Rightarrow> set_values I view R)}"
  using assms by (auto simp: range_RemoveDeadBindings_def range_state_ok_def range_models_def split: if_splits)

lemma basic_RemoveDeadBindings_models:
  assumes "basic_state_ok E view St"
  shows "basic_state_ok E view (basic_RemoveDeadBindings St dead)"
    "basic_models E view St \<subseteq> basic_models E view (basic_RemoveDeadBindings St dead)"
  using assms by (auto simp: basic_RemoveDeadBindings_def basic_state_ok_def basic_models_def Let_def split: if_splits)

lemma AssumeInBound_correct:
  assumes "value_factory (an_B E) view" "0 < an_ptr E" "view i = (w, False, a)" "view b = (w', False, c)" "w \<le> an_ptr E" "w' \<le> an_ptr E"
  shows "AssumeInBound E St (NonLocVal (ConcreteInt i)) (NonLocVal (ConcreteInt b)) Assumption =
    (Some St, (0 \<le> a \<and> a < c) = Assumption)"
proof -
  have S: "apsint (vo_S (an_B E)) view" using assms(1) by (simp add: value_factory_def)
  let ?z = "getZeroWithPtrWidth E False" and ?p = "an_ptr E"
  have z: "view ?z = (?p, False, 0)" using value_factory.vo_of [OF assms(1,2), of False 0] by (simp add: getZeroWithPtrWidth_def getValue_def)
  define x where "x = (if aps_width (vo_S (an_B E)) i < aps_width (vo_S (an_B E)) ?z then aps_extend (vo_S (an_B E)) (aps_width (vo_S (an_B E)) ?z) i else i)"
  define y where "y = (if aps_width (vo_S (an_B E)) b < aps_width (vo_S (an_B E)) ?z then aps_extend (vo_S (an_B E)) (aps_width (vo_S (an_B E)) ?z) b else b)"
  note width = apsint.aps_width [OF S assms(3)] apsint.aps_width [OF S assms(4)] apsint.aps_width [OF S z]
  have x: "view x = (?p, False, a)" using apsint.aps_extend [OF S assms(3,5)] assms(3,5) by (auto simp: x_def width)
  have y: "view y = (?p, False, c)" using apsint.aps_extend [OF S assms(4,6)] assms(4,6) by (auto simp: y_def width)
  show ?thesis
    unfolding AssumeInBound_def Let_def prod.case sval.case nonloc.case x_def [symmetric] y_def [symmetric]
    using apsint.aps_le [OF S z x] apsint.aps_lt [OF S x y] by auto
qed

section \<open>The managers on the model's values\<close>

definition view_env :: "aps_view analyzer_env" where
  "view_env = \<lparr>an_B = view_values, an_ptr = 64, an_type = (\<lambda>s. if even s then (32, False) else (64, True))\<rparr>"

abbreviation view_iset :: "(aps_view crange list, aps_view) range_iset" where
  "view_iset \<equiv> list_iset (isLess view_values)"

definition view_built :: "nat \<times> bool \<Rightarrow> aps_view crange list \<Rightarrow> bool" where
  "view_built T xs \<longleftrightarrow> sorted_wrt (isLess view_values) xs \<and> (\<forall>x \<in> set xs. range_type view_of T x)"

lemma view_env_ok: "range_env_ok view_env view_iset view_of view_built" "env_types view_env" "value_factory (an_B view_env) view_of"
  using view_range_sets.range_sets_axioms view_values.value_factory_axioms
  by (auto simp: range_env_ok_def env_types_def view_env_def view_built_def [abs_def])

interpretation view_range_manager: exact_constraints view_env view_of "RangeConstraintManager view_env view_iset"
    "range_state_ok view_env view_iset view_of view_built" "range_models view_env view_iset view_of"
  by (rule range_exact [OF view_env_ok(1)])

interpretation view_basic_manager: simple_constraints view_env view_of "BasicConstraintManager view_env"
    "basic_state_ok view_env view_of" "basic_models view_env view_of"
  by (rule basic_sound [OF view_env_ok(3,2)])

section \<open>Properties\<close>

text \<open>
  C24: the range manager is exact on every condition the analyzer assumes. The assumption is feasible exactly
  when some values the state allows for its symbols may give the condition the assumed truth; the new state then
  satisfies the invariant and allows exactly those values: nothing is lost and nothing impossible is kept. When
  the manager knows a concrete value for a symbol, every allowed valuation gives it that value.
\<close>

theorem RangeConstraintManager_exact:
  assumes "range_env_ok E I view built" "range_state_ok E I view built St" "cond_ok E view Cond"
  shows "\<exists>St' isFeasible. Assume E (RangeConstraintManager E I) St Cond b = Some (St', isFeasible) \<and>
    (isFeasible \<longleftrightarrow> (\<exists>\<sigma> \<in> range_models E I view St. may view Cond b \<sigma>)) \<and>
    (isFeasible \<longrightarrow> (\<exists>St1. St' = Some St1 \<and> range_state_ok E I view built St1 \<and>
      range_models E I view St1 = {\<sigma> \<in> range_models E I view St. may view Cond b \<sigma>} \<and>
      (\<forall>s v. range_getSymVal I St1 s = Some v \<longrightarrow> (\<forall>\<sigma> \<in> range_models E I view St1. \<sigma> s = num view v))))"
proof -
  note M = range_exact [OF assms(1)]
  have types: "env_types E" using assms(1) by (simp add: range_env_ok_def)
  obtain St' feas where r: "Assume E (RangeConstraintManager E I) St Cond b = Some (St', feas)"
    "keeps_models (range_state_ok E I view built) (range_models E I view) St (may view Cond b) (St', feas)"
    using simple_constraints.Assume_sound [OF exact_constraints.axioms(1) [OF M], OF assms(2,3), of b] by auto
  show ?thesis
  proof (cases feas)
    case False
    then show ?thesis using r by (auto simp: keeps_models_def)
  next
    case True
    then obtain St1 where St1: "St' = Some St1" "range_state_ok E I view built St1" using r(2) by (auto simp: keeps_models_def)
    then have "range_models E I view St1 = {\<sigma> \<in> range_models E I view St. may view Cond b \<sigma>}"
      using exact_constraints.Assume_exact [OF M, OF assms(2,3), of b St1] r(1) True by simp
    then show ?thesis
      using True r(1) St1 range_models_nonempty [OF types St1(2)] range_getSymVal_models [OF assms(1) St1(2)] by blast
  qed
qed

text \<open>The witness assumes \<open>$0 > 5\<close> in the empty state.\<close>

theorem RangeConstraintManager_exact_witness:
  "\<exists>St1. Assume view_env (RangeConstraintManager view_env view_iset) Map.empty
      (NonLocVal (SymExprVal (SymIntExpr (SymbolData 0) BO_GT (32, False, 5)))) True = Some (Some St1, True) \<and>
    (\<forall>\<sigma> \<in> range_models view_env view_iset view_of St1. 5 < \<sigma> 0)"
proof -
  let ?Cond = "NonLocVal (SymExprVal (SymIntExpr (SymbolData 0) BO_GT (32, False, 5))) :: aps_view sval"
  have n: "view_of (32, False, 5) = (32, False, 5)" by code_simp
  have ok: "range_state_ok view_env view_iset view_of view_built Map.empty" by (simp add: range_state_ok_def)
  have cond: "cond_ok view_env view_of ?Cond" by (simp add: view_env_def of_type_def n)
  have m: "may view_of ?Cond True \<sigma> \<longleftrightarrow> 5 < \<sigma> 0" for \<sigma> by (simp add: may_def relates_def num_def n)
  have "(\<lambda>s. if s = 0 then 6 else 0) \<in> range_models view_env view_iset view_of Map.empty"
    by (simp add: range_models_def type_values_def view_env_def min_value_def max_value_def)
  then have "\<exists>\<sigma> \<in> range_models view_env view_iset view_of Map.empty. may view_of ?Cond True \<sigma>" unfolding m by force
  then show ?thesis using RangeConstraintManager_exact [OF view_env_ok(1) ok cond, of True] unfolding m
    by (auto simp del: Assume.simps)
qed

text \<open>
  C25: the basic manager never loses a value: every valuation a state allows, and for which the condition may have
  the assumed truth, is allowed by the new state; when the assumption is infeasible there is none. A symbol it
  reports as equal to a constant has that value in every allowed valuation.
\<close>

theorem BasicConstraintManager_sound:
  assumes "value_factory (an_B E) view" "env_types E" "basic_state_ok E view St" "cond_ok E view Cond"
    "\<sigma> \<in> basic_models E view St" "may view Cond b \<sigma>"
  shows "\<exists>St1. Assume E (BasicConstraintManager E) St Cond b = Some (Some St1, True) \<and> basic_state_ok E view St1 \<and>
    \<sigma> \<in> basic_models E view St1 \<and> (\<forall>s v. basic_getSymVal St1 s = Some v \<longrightarrow> \<sigma> s = num view v)"
proof -
  obtain St' feas where r: "Assume E (BasicConstraintManager E) St Cond b = Some (St', feas)"
    "keeps_models (basic_state_ok E view) (basic_models E view) St (may view Cond b) (St', feas)"
    using simple_constraints.Assume_sound [OF basic_sound [OF assms(1,2)], OF assms(3,4), of b] by auto
  then have feas using assms(5,6) by (auto simp: keeps_models_def split: if_splits)
  then obtain St1 where "St' = Some St1" "basic_state_ok E view St1" "\<sigma> \<in> basic_models E view St1"
    using r(2) assms(5,6) by (auto simp: keeps_models_def)
  moreover from this(3) have "\<forall>s v. basic_getSymVal St1 s = Some v \<longrightarrow> \<sigma> s = num view v" by (simp add: basic_getSymVal_models)
  ultimately show ?thesis using r(1) \<open>feas\<close> by simp
qed

text \<open>The witness assumes that the pointer \<open>$1\<close> is not null, of a valuation in which it is 8.\<close>

theorem BasicConstraintManager_sound_witness:
  "\<exists>St1. Assume view_env (BasicConstraintManager view_env) \<lparr>ConstEq = Map.empty, ConstNotEq = Map.empty\<rparr>
      (LocVal (MemRegionVal (SubRegion (SymbolicRegion 1 MemSpaceRegion)))) True = Some (Some St1, True) \<and>
    (\<lambda>s. 8) \<in> basic_models view_env view_of St1"
proof -
  let ?St = "\<lparr>ConstEq = Map.empty, ConstNotEq = Map.empty\<rparr> :: aps_view basic_state"
  let ?Cond = "LocVal (MemRegionVal (SubRegion (SymbolicRegion 1 MemSpaceRegion))) :: aps_view sval"
  have "basic_state_ok view_env view_of ?St" by (simp add: basic_state_ok_def)
  moreover have "cond_ok view_env view_of ?Cond" by (simp add: view_env_def)
  moreover have "(\<lambda>s. 8) \<in> basic_models view_env view_of ?St"
    by (simp add: basic_models_def type_values_def view_env_def min_value_def max_value_def)
  moreover have "may view_of ?Cond True (\<lambda>s. 8)" by (simp add: may_def)
  ultimately show ?thesis using BasicConstraintManager_sound [OF view_env_ok(3,2)] by blast
qed

end
