(* ===== verification/LexerCharacters.thy ===== *)
theory LexerCharacters
  imports Tokens
begin

text \<open>
  How the lexer reads characters (\<^verbatim>\<open>lib/Lex/Lexer.cpp\<close>, \<^verbatim>\<open>include/clang/Lex/Lexer.h\<close>): the
  character tables, trigraphs and escaped newlines, and the functions that peek at, read and consume one decoded
  character. A position in a file is its offset; behind the last character there is a null character, and reading
  anything behind that is \<open>None\<close>.
\<close>

section \<open>Options\<close>

record lexer_options = lang_options +
  Trigraphs :: bool
  BCPLComment :: bool
  DollarIdents :: bool
  AsmPreprocessor :: bool
  Digraphs :: bool
  CPlusPlus :: bool
  ObjC1 :: bool

section \<open>Character information\<close>

definition CHAR_HORZ_WS :: "8 word" where "CHAR_HORZ_WS = 0x01"
definition CHAR_VERT_WS :: "8 word" where "CHAR_VERT_WS = 0x02"
definition CHAR_LETTER :: "8 word" where "CHAR_LETTER = 0x04"
definition CHAR_NUMBER :: "8 word" where "CHAR_NUMBER = 0x08"
definition CHAR_UNDER :: "8 word" where "CHAR_UNDER = 0x10"
definition CHAR_PERIOD :: "8 word" where "CHAR_PERIOD = 0x20"

lemmas char_flags = CHAR_HORZ_WS_def CHAR_VERT_WS_def CHAR_LETTER_def CHAR_NUMBER_def CHAR_UNDER_def CHAR_PERIOD_def

text \<open>The table as \<^verbatim>\<open>InitCharacterInfo\<close> fills it.\<close>

definition CharInfo :: "char \<Rightarrow> 8 word" where
  "CharInfo c =
     (if c = CHR '' '' \<or> c = CHR 0x09 \<or> c = CHR 0x0C \<or> c = CHR 0x0B then CHAR_HORZ_WS
      else if c = CHR 0x0A \<or> c = CHR 0x0D then CHAR_VERT_WS
      else if c = CHR ''_'' then CHAR_UNDER
      else if c = CHR ''.'' then CHAR_PERIOD
      else if 97 \<le> code_of c \<and> code_of c \<le> 122 \<or> 65 \<le> code_of c \<and> code_of c \<le> 90 then CHAR_LETTER
      else if 48 \<le> code_of c \<and> code_of c \<le> 57 then CHAR_NUMBER
      else 0)"

definition isIdentifierBody :: "char \<Rightarrow> bool" where
  "isIdentifierBody c \<longleftrightarrow> and (CharInfo c) (or CHAR_LETTER (or CHAR_NUMBER CHAR_UNDER)) \<noteq> 0"

definition isHorizontalWhitespace :: "char \<Rightarrow> bool" where
  "isHorizontalWhitespace c \<longleftrightarrow> and (CharInfo c) CHAR_HORZ_WS \<noteq> 0"

definition isWhitespace :: "char \<Rightarrow> bool" where
  "isWhitespace c \<longleftrightarrow> and (CharInfo c) (or CHAR_HORZ_WS CHAR_VERT_WS) \<noteq> 0"

definition isNumberBody :: "char \<Rightarrow> bool" where
  "isNumberBody c \<longleftrightarrow> and (CharInfo c) (or CHAR_LETTER (or CHAR_NUMBER (or CHAR_UNDER CHAR_PERIOD))) \<noteq> 0"

abbreviation newline :: "char \<Rightarrow> bool" where
  "newline c \<equiv> c = CHR 0x0A \<or> c = CHR 0x0D"

abbreviation NUL :: char where
  "NUL \<equiv> CHR 0x00"

text \<open>What the tests on the table mean.\<close>

lemma isIdentifierBody_iff: "isIdentifierBody c \<longleftrightarrow> isalnum c \<or> c = CHR ''_''"
  by (auto simp: isIdentifierBody_def CharInfo_def char_flags isalnum_def isdigit_def)

lemma isHorizontalWhitespace_iff:
  "isHorizontalWhitespace c \<longleftrightarrow> c = CHR '' '' \<or> c = CHR 0x09 \<or> c = CHR 0x0C \<or> c = CHR 0x0B"
  by (auto simp: isHorizontalWhitespace_def CharInfo_def char_flags)

lemma isWhitespace_iff: "isWhitespace c \<longleftrightarrow> isHorizontalWhitespace c \<or> newline c"
  by (auto simp: isWhitespace_def isHorizontalWhitespace_def CharInfo_def char_flags)

lemma isNumberBody_iff: "isNumberBody c \<longleftrightarrow> isIdentifierBody c \<or> c = CHR ''.''"
  by (auto simp: isNumberBody_def isIdentifierBody_def CharInfo_def char_flags)

lemma NUL_class [simp]:
  "\<not> isIdentifierBody NUL" "\<not> isHorizontalWhitespace NUL" "\<not> isWhitespace NUL" "\<not> isNumberBody NUL"
  by code_simp+

section \<open>Trigraphs and escaped newlines\<close>

definition GetTrigraphCharForLetter :: "char \<Rightarrow> char" where
  "GetTrigraphCharForLetter Letter =
     (if Letter = CHR ''='' then CHR ''#''
      else if Letter = CHR '')'' then CHR '']''
      else if Letter = CHR ''('' then CHR ''[''
      else if Letter = CHR ''!'' then CHR ''|''
      else if Letter = CHR 0x27 then CHR 0x5E
      else if Letter = CHR ''>'' then CHR ''}''
      else if Letter = CHR ''/'' then CHR 0x5C
      else if Letter = CHR ''<'' then CHR ''{''
      else if Letter = CHR ''-'' then CHR ''~''
      else NUL)"

text \<open>The diagnostics of the lexer, without their arguments but for the decoded trigraph.\<close>

datatype (plugins only: code size) lex_diag =
  trigraph_ignored | trigraph_converted char | trigraph_ignored_block_comment | trigraph_ends_block_comment
  | backslash_newline_space | escaped_newline_block_comment_end | ext_dollar_in_identifier
  | err_unterminated_string | err_unterminated_angled_string | err_unterminated_char | err_empty_character
  | null_in_string | null_in_char | null_in_file | ext_bcpl_comment | ext_multi_line_bcpl_comment
  | err_unterminated_block_comment | warn_nested_block_comment | err_pp_unterminated_conditional
  | ext_no_newline_eof | charize_microsoft_ext

text \<open>
  \<open>DecodeTrigraphChar\<close> at \<open>Letter\<close>, two characters behind the offset \<open>p\<close>. Without a lexer it
  neither looks at the options nor warns.
\<close>

definition DecodeTrigraphChar :: "lexer_options \<Rightarrow> bool \<Rightarrow> bool \<Rightarrow> nat \<Rightarrow> char \<Rightarrow> char \<times> (lex_diag \<times> nat) list" where
  "DecodeTrigraphChar F raw with_lexer p Letter =
     (let Res = GetTrigraphCharForLetter Letter
      in if Res = NUL \<or> \<not> with_lexer then (Res, [])
         else if \<not> Trigraphs F then (NUL, if raw then [] else [(trigraph_ignored, p)])
         else (Res, if raw then [] else [(trigraph_converted Res, p)]))"

text \<open>
  The size of an escaped newline, of the characters \<open>s\<close> behind the backslash: whitespace up to a newline, and
  the second half of a two-character newline. \<open>None\<close> if there is none.
\<close>

fun escaped_newline :: "string \<Rightarrow> nat option" where
  "escaped_newline [] = None"
| "escaped_newline (c # s) =
     (if newline c then Some (if newline (peek NUL s) \<and> peek NUL s \<noteq> c then 2 else 1)
      else if isWhitespace c then map_option Suc (escaped_newline s)
      else None)"

lemma escaped_newline_le: "escaped_newline s = Some k \<Longrightarrow> 0 < k \<and> k \<le> length s"
  by (induction s arbitrary: k rule: escaped_newline.induct) (auto simp: peek_def split: if_splits list.splits)

text \<open>A read: the character, its size, whether the token needs cleaning because of it, and the diagnostics.\<close>

type_synonym char_read = "char \<times> nat \<times> bool \<times> (lex_diag \<times> nat) list"

text \<open>
  \<open>getCharAndSizeSlow\<close> on the characters \<open>s\<close> from the offset \<open>p\<close> on; \<open>tok\<close>
  tells whether a token is given.
\<close>

definition at_trigraph :: "string \<Rightarrow> bool" where
  "at_trigraph s \<longleftrightarrow> take 2 s = ''??''"

function getCharAndSizeSlow :: "lexer_options \<Rightarrow> bool \<Rightarrow> bool \<Rightarrow> nat \<Rightarrow> string \<Rightarrow> char_read" where
  "getCharAndSizeSlow F raw tok p s =
     (let (C, ds) = (if at_trigraph s then DecodeTrigraphChar F raw tok p (peek NUL (drop 2 s)) else (NUL, []))
      in if peek NUL s = CHR 0x5C \<or> C = CHR 0x5C
         then let n = (if peek NUL s = CHR 0x5C then 1 else 3); cl = (tok \<and> n = 3)
              in case escaped_newline (drop n s) of
                   None \<Rightarrow> (CHR 0x5C, n, cl, ds)
                 | Some k \<Rightarrow>
                     let sp = (if \<not> newline (peek NUL (drop n s)) \<and> tok \<and> \<not> raw then [(backslash_newline_space, p + n)] else []);
                         (C', m, cl', ds') = getCharAndSizeSlow F raw tok (p + n + k) (drop (n + k) s)
                     in (C', n + k + m, tok \<or> cl', ds @ sp @ ds')
         else if C \<noteq> NUL then (C, 3, tok, ds)
         else (peek NUL s, 1, False, ds))"
  by pat_completeness auto
termination
  by (relation "measure (\<lambda>(F, raw, tok, p, s). length s)") (auto dest!: escaped_newline_le)

declare getCharAndSizeSlow.simps [simp del]

function getCharAndSizeSlowNoWarn :: "lexer_options \<Rightarrow> string \<Rightarrow> char \<times> nat" where
  "getCharAndSizeSlowNoWarn F s =
     (let C = (if Trigraphs F \<and> at_trigraph s then GetTrigraphCharForLetter (peek NUL (drop 2 s)) else NUL)
      in if peek NUL s = CHR 0x5C \<or> C = CHR 0x5C
         then let n = (if peek NUL s = CHR 0x5C then 1 else 3)
              in case escaped_newline (drop n s) of
                   None \<Rightarrow> (CHR 0x5C, n)
                 | Some k \<Rightarrow> let (C', m) = getCharAndSizeSlowNoWarn F (drop (n + k) s) in (C', n + k + m)
         else if C \<noteq> NUL then (C, 3)
         else (peek NUL s, 1))"
  by pat_completeness auto
termination
  by (relation "measure (\<lambda>(F, s). length s)") (auto dest!: escaped_newline_le)

declare getCharAndSizeSlowNoWarn.simps [simp del]

definition isObviouslySimpleCharacter :: "char \<Rightarrow> bool" where
  "isObviouslySimpleCharacter C \<longleftrightarrow> C \<noteq> CHR ''?'' \<and> C \<noteq> CHR 0x5C"

definition getCharAndSizeNoWarn :: "lexer_options \<Rightarrow> string \<Rightarrow> char \<times> nat" where
  "getCharAndSizeNoWarn F s =
     (if isObviouslySimpleCharacter (peek NUL s) then (peek NUL s, 1) else getCharAndSizeSlowNoWarn F s)"

section \<open>Facts about reads\<close>

text \<open>
  The text has no trigraph, or trigraphs are enabled: then peeking, reading and spelling decode the same.
\<close>

fun no_trigraph :: "string \<Rightarrow> bool" where
  "no_trigraph [] = True"
| "no_trigraph (c # s) =
     (\<not> (at_trigraph (c # s) \<and> GetTrigraphCharForLetter (peek NUL (tl s)) \<noteq> NUL) \<and> no_trigraph s)"

definition trigraphs_ok :: "lexer_options \<Rightarrow> string \<Rightarrow> bool" where
  "trigraphs_ok F s \<longleftrightarrow> Trigraphs F \<or> no_trigraph s"

lemma no_trigraph_drop: "no_trigraph s \<Longrightarrow> no_trigraph (drop n s)"
proof (induction n arbitrary: s)
  case (Suc n)
  then show ?case by (cases s) auto
qed simp

lemma trigraphs_ok_drop: "trigraphs_ok F s \<Longrightarrow> trigraphs_ok F (drop n s)"
  using no_trigraph_drop by (auto simp: trigraphs_ok_def)

lemma at_trigraph_Cons: "at_trigraph s \<Longrightarrow> \<exists>r. s = CHR ''?'' # CHR ''?'' # r"
  by (cases s; cases "tl s") (auto simp: at_trigraph_def)

lemma no_trigraph_here: "no_trigraph s \<Longrightarrow> at_trigraph s \<Longrightarrow> GetTrigraphCharForLetter (peek NUL (drop 2 s)) = NUL"
  by (drule at_trigraph_Cons) (auto simp: at_trigraph_def)

text \<open>Reading with a token decodes what \<open>getCharAndSizeSlowNoWarn\<close> does; peeking only on such text.\<close>

lemma slow_NoWarn:
  assumes "tok \<or> trigraphs_ok F s"
  shows "\<exists>cl ds. getCharAndSizeSlow F raw tok p s = (fst (getCharAndSizeSlowNoWarn F s), snd (getCharAndSizeSlowNoWarn F s), cl, ds)"
  using assms
proof (induction F raw tok p s rule: getCharAndSizeSlow.induct)
  case (1 F raw tok p s)
  let ?T = "if at_trigraph s then DecodeTrigraphChar F raw tok p (peek NUL (drop 2 s)) else (NUL, [])"
  let ?C = "if Trigraphs F \<and> at_trigraph s then GetTrigraphCharForLetter (peek NUL (drop 2 s)) else NUL"
  have "fst ?T = ?C" using 1(2) no_trigraph_here [of s] by (auto simp: DecodeTrigraphChar_def Let_def trigraphs_ok_def)
  then obtain ds where T: "?T = (?C, ds)" by (cases ?T) auto
  have rec: "\<exists>cl ds. getCharAndSizeSlow F raw tok (p + n + k) (drop (n + k) s) =
      (fst (getCharAndSizeSlowNoWarn F (drop (n + k) s)), snd (getCharAndSizeSlowNoWarn F (drop (n + k) s)), cl, ds)"
    if "peek NUL s = CHR 0x5C \<or> ?C = CHR 0x5C" "n = (if peek NUL s = CHR 0x5C then 1 else 3)"
      "escaped_newline (drop n s) = Some k" for n k
    using 1(1) [OF refl T [symmetric] that(1,2) refl that(3) refl] 1(2) trigraphs_ok_drop by (auto simp: add.assoc)
  define n where "n = (if peek NUL s = CHR 0x5C then 1 else 3 :: nat)"
  note eqs = getCharAndSizeSlow.simps [of F raw tok p s, unfolded T, folded n_def] getCharAndSizeSlowNoWarn.simps [of F s, folded n_def]
  show ?case
  proof (cases "peek NUL s = CHR 0x5C \<or> ?C = CHR 0x5C")
    case False
    then show ?thesis unfolding eqs by (auto simp: Let_def)
  next
    case True
    show ?thesis
    proof (cases "escaped_newline (drop n s)")
      case None
      then show ?thesis using True unfolding eqs by (auto simp: Let_def)
    next
      case (Some k)
      then show ?thesis using True rec [OF True n_def Some] unfolding eqs
        by (cases "getCharAndSizeSlowNoWarn F (drop (n + k) s)") (auto simp: Let_def)
    qed
  qed
qed

end
