(* ===== verification/LexerState.thy ===== *)
theory LexerState
  imports LexerCharacters
begin

text \<open>
  The state of the lexer (\<^verbatim>\<open>include/clang/Lex/Lexer.h\<close>) and the functions that read a character in it. The state
  holds the fields of \<^verbatim>\<open>Lexer\<close> and \<^verbatim>\<open>PreprocessorLexer\<close>, the comment retention of the preprocessor, the
  diagnostics so far and the token under construction. A read behind the null character at the end of the buffer, and
  a failed assertion, are \<open>None\<close>.
\<close>

declare Option.bind_cong [fundef_cong]

section \<open>State\<close>

record lex_token =
  lt_Kind :: tok_kind
  lt_Loc :: nat
  lt_Length :: nat
  lt_StartOfLine :: bool
  lt_LeadingSpace :: bool
  lt_NeedsCleaning :: bool
  lt_LiteralData :: "nat option"
  lt_Scratch :: "string option"

text \<open>
  The last fields but two tell how block comments are scanned: whether the host has a vector unit, and the address of the
  buffer.
\<close>

record lexer =
  lx_Buffer :: string
  Features :: lexer_options
  Is_PragmaLexer :: bool
  ExtendedTokenMode :: nat
  BufferPtr :: nat
  IsAtStartOfLine :: bool
  ParsingPreprocessorDirective :: bool
  ParsingFilename :: bool
  LexingRawMode :: bool
  ConditionalStack :: "nat list"
  CommentRetention :: bool
  lx_VectorUnit :: bool
  lx_Address :: nat
  lx_Diags :: "(lex_diag \<times> nat) list"
  lx_Result :: lex_token

abbreviation BufferEnd :: "lexer \<Rightarrow> nat" where
  "BufferEnd L \<equiv> length (lx_Buffer L)"

text \<open>The characters from an offset on, and the character at an offset; the null character at the end may be read.\<close>

definition chars_at :: "lexer \<Rightarrow> nat \<Rightarrow> string option" where
  "chars_at L p = (if p \<le> BufferEnd L then Some (drop p (lx_Buffer L)) else None)"

definition char_at :: "lexer \<Rightarrow> nat \<Rightarrow> char option" where
  "char_at L p = map_option (peek NUL) (chars_at L p)"

definition set_token :: "(lex_token \<Rightarrow> lex_token) \<Rightarrow> lexer \<Rightarrow> lexer" where
  "set_token f L = L\<lparr>lx_Result := f (lx_Result L)\<rparr>"

definition emit_diags :: "(lex_diag \<times> nat) list \<Rightarrow> lexer \<Rightarrow> lexer" where
  "emit_diags ds L = L\<lparr>lx_Diags := lx_Diags L @ ds\<rparr>"

text \<open>A diagnostic that raw mode suppresses.\<close>

definition Diag :: "lex_diag \<Rightarrow> nat \<Rightarrow> lexer \<Rightarrow> lexer" where
  "Diag d p L = (if LexingRawMode L then L else emit_diags [(d, p)] L)"

definition startToken :: "lex_token \<Rightarrow> lex_token" where
  "startToken T = T\<lparr>lt_Kind := tok_unknown, lt_Loc := 0, lt_StartOfLine := False, lt_LeadingSpace := False,
     lt_NeedsCleaning := False, lt_LiteralData := None, lt_Scratch := None\<rparr>"

definition isKeepWhitespaceMode :: "lexer \<Rightarrow> bool" where
  "isKeepWhitespaceMode L \<longleftrightarrow> ExtendedTokenMode L > 1"

definition inKeepCommentMode :: "lexer \<Rightarrow> bool" where
  "inKeepCommentMode L \<longleftrightarrow> ExtendedTokenMode L > 0"

definition SetKeepWhitespaceMode :: "bool \<Rightarrow> lexer \<Rightarrow> lexer option" where
  "SetKeepWhitespaceMode Val L = do {
     asserting (\<not> Val \<or> LexingRawMode L);
     Some (L\<lparr>ExtendedTokenMode := if Val then 2 else 0\<rparr>) }"

definition SetCommentRetentionState :: "bool \<Rightarrow> lexer \<Rightarrow> lexer option" where
  "SetCommentRetentionState Mode L = do {
     asserting (\<not> isKeepWhitespaceMode L);
     Some (L\<lparr>ExtendedTokenMode := if Mode then 1 else 0\<rparr>) }"

definition FormTokenWithChars :: "nat \<Rightarrow> tok_kind \<Rightarrow> lexer \<Rightarrow> lexer" where
  "FormTokenWithChars TokEnd Kind L =
     (set_token (\<lambda>T. T\<lparr>lt_Length := TokEnd - BufferPtr L, lt_Loc := BufferPtr L, lt_Kind := Kind\<rparr>) L)
       \<lparr>BufferPtr := TokEnd\<rparr>"

text \<open>Forming a literal also records where it starts.\<close>

definition form_literal :: "nat \<Rightarrow> tok_kind \<Rightarrow> lexer \<Rightarrow> lexer" where
  "form_literal TokEnd Kind L =
     set_token (\<lambda>T. T\<lparr>lt_LiteralData := Some (BufferPtr L)\<rparr>) (FormTokenWithChars TokEnd Kind L)"

text \<open>The constructor for raw lexing of the characters from \<open>BufPtr\<close> on.\<close>

definition empty_token :: lex_token where
  "empty_token = \<lparr>lt_Kind = tok_unknown, lt_Loc = 0, lt_Length = 0, lt_StartOfLine = False, lt_LeadingSpace = False,
     lt_NeedsCleaning = False, lt_LiteralData = None, lt_Scratch = None\<rparr>"

definition RawLexer :: "lexer_options \<Rightarrow> string \<Rightarrow> nat \<Rightarrow> lexer" where
  "RawLexer F buf p = \<lparr>lx_Buffer = buf, Features = F, Is_PragmaLexer = False, ExtendedTokenMode = 0, BufferPtr = p,
     IsAtStartOfLine = True, ParsingPreprocessorDirective = False, ParsingFilename = False, LexingRawMode = True,
     ConditionalStack = [], CommentRetention = False, lx_VectorUnit = True, lx_Address = 0, lx_Diags = [], lx_Result = empty_token\<rparr>"

section \<open>Reading characters\<close>

text \<open>What a read does to the token and the diagnostics.\<close>

definition note_read :: "bool \<Rightarrow> (lex_diag \<times> nat) list \<Rightarrow> lexer \<Rightarrow> lexer" where
  "note_read cl ds L = emit_diags ds (set_token (\<lambda>T. T\<lparr>lt_NeedsCleaning := lt_NeedsCleaning T \<or> cl\<rparr>) L)"

definition getAndAdvanceChar :: "nat \<Rightarrow> lexer \<Rightarrow> (char \<times> nat \<times> lexer) option" where
  "getAndAdvanceChar Ptr L = do {
     s \<leftarrow> chars_at L Ptr;
     if isObviouslySimpleCharacter (peek NUL s) then Some (peek NUL s, Ptr + 1, L)
     else let (C, Size, cl, ds) = getCharAndSizeSlow (Features L) (LexingRawMode L) True Ptr s
          in Some (C, Ptr + Size, note_read cl ds L) }"

definition getCharAndSize :: "lexer \<Rightarrow> nat \<Rightarrow> (char \<times> nat) option" where
  "getCharAndSize L Ptr = do {
     s \<leftarrow> chars_at L Ptr;
     if isObviouslySimpleCharacter (peek NUL s) then Some (peek NUL s, 1)
     else let (C, Size, cl, ds) = getCharAndSizeSlow (Features L) (LexingRawMode L) False Ptr s
          in Some (C, Size) }"

definition ConsumeChar :: "nat \<Rightarrow> nat \<Rightarrow> lexer \<Rightarrow> (nat \<times> lexer) option" where
  "ConsumeChar Ptr Size L =
     (if Size = 1 then Some (Ptr + 1, L)
      else do {
        s \<leftarrow> chars_at L Ptr;
        let (C, Size', cl, ds) = getCharAndSizeSlow (Features L) (LexingRawMode L) True Ptr s
        in Some (Ptr + Size', note_read cl ds L) })"

text \<open>The offset behind the characters that satisfy \<open>P\<close>.\<close>

definition skip_chars :: "(char \<Rightarrow> bool) \<Rightarrow> lexer \<Rightarrow> nat \<Rightarrow> nat option" where
  "skip_chars P L Ptr = do { s \<leftarrow> chars_at L Ptr; Some (Ptr + length (takeWhile P s)) }"

text \<open>The character in front of an offset.\<close>

definition char_before :: "lexer \<Rightarrow> nat \<Rightarrow> char option" where
  "char_before L p = (if p = 0 then None else char_at L (p - 1))"

section \<open>Facts about reads\<close>

lemma chars_at_eq_Some: "chars_at L p = Some s \<longleftrightarrow> p \<le> BufferEnd L \<and> s = drop p (lx_Buffer L)"
  by (auto simp: chars_at_def)

text \<open>A slow read does not go behind the null character.\<close>

lemma slow_size:
  "getCharAndSizeSlow F raw tok p s = (C, n, cl, ds) \<Longrightarrow> 0 < n \<and> n \<le> Suc (length s) \<and> (C \<noteq> NUL \<longrightarrow> n \<le> length s)"
proof (induction F raw tok p s arbitrary: C n cl ds rule: getCharAndSizeSlow.induct)
  case (1 F raw tok p s)
  let ?T = "if at_trigraph s then DecodeTrigraphChar F raw tok p (peek NUL (drop 2 s)) else (NUL, [])"
  obtain C0 ds0 where T: "?T = (C0, ds0)" by (cases ?T)
  define m where "m = (if peek NUL s = CHR 0x5C then 1 else 3 :: nat)"
  note eq = getCharAndSizeSlow.simps [of F raw tok p s, unfolded T, folded m_def]
  have C0: "C0 \<noteq> NUL \<Longrightarrow> 3 \<le> length s"
  proof -
    assume "C0 \<noteq> NUL"
    then have "at_trigraph s" "peek NUL (drop 2 s) \<noteq> NUL"
      using T by (auto simp: DecodeTrigraphChar_def Let_def GetTrigraphCharForLetter_def split: if_splits)
    then show "3 \<le> length s" by (cases s; cases "tl s"; cases "tl (tl s)") (auto simp: at_trigraph_def)
  qed
  show ?case
  proof (cases "peek NUL s = CHR 0x5C \<or> C0 = CHR 0x5C")
    case True
    then have m: "0 < m" "m \<le> length s" using C0 by (cases s; auto simp: m_def)+
    show ?thesis
    proof (cases "escaped_newline (drop m s)")
      case None
      then show ?thesis using "1.prems" True m unfolding eq by (auto simp: Let_def)
    next
      case (Some k)
      obtain C' n' cl' ds' where r: "getCharAndSizeSlow F raw tok (p + m + k) (drop (m + k) s) = (C', n', cl', ds')"
        by (cases "getCharAndSizeSlow F raw tok (p + m + k) (drop (m + k) s)") auto
      have "0 < n' \<and> n' \<le> Suc (length (drop (m + k) s)) \<and> (C' \<noteq> NUL \<longrightarrow> n' \<le> length (drop (m + k) s))"
        using "1.IH" [OF refl T [symmetric] True m_def refl Some refl r] .
      then show ?thesis using "1.prems" True m r Some escaped_newline_le [OF Some] unfolding eq
        by (auto simp: Let_def)
    qed
  next
    case False
    then show ?thesis using "1.prems" C0 unfolding eq by (cases s) (auto simp: Let_def split: if_splits)
  qed
qed

lemma NoWarn_size: "getCharAndSizeNoWarn F s = (C, n) \<Longrightarrow> 0 < n \<and> n \<le> Suc (length s)"
  using slow_NoWarn [of True F s True 0] slow_size [of F True True 0 s]
  by (auto simp: getCharAndSizeNoWarn_def split: if_splits)

text \<open>A newline is read in one step only where it is written.\<close>

lemma slow_newline_size:
  assumes "getCharAndSizeSlow F raw tok p s = (C, 1, cl, ds)" "newline C"
  shows "newline (peek NUL s)"
proof -
  let ?T = "if at_trigraph s then DecodeTrigraphChar F raw tok p (peek NUL (drop 2 s)) else (NUL, [])"
  obtain C0 ds0 where T: "?T = (C0, ds0)" by (cases ?T)
  show ?thesis using assms slow_size [of F raw tok]
    by (subst (asm) getCharAndSizeSlow.simps, unfold T)
       (auto simp: Let_def split: if_splits option.splits prod.splits; fastforce)
qed

text \<open>What the reads leave alone: everything but the token and the diagnostics.\<close>

definition same_lexer :: "lexer \<Rightarrow> lexer \<Rightarrow> bool" where
  "same_lexer L L' \<longleftrightarrow> (\<exists>T ds. L' = L\<lparr>lx_Result := T, lx_Diags := ds\<rparr>)"

lemma same_lexer_fields:
  "same_lexer L L' \<longleftrightarrow> L' = L\<lparr>lx_Result := lx_Result L', lx_Diags := lx_Diags L'\<rparr>"
  by (auto simp: same_lexer_def)

lemma same_lexer_refl [simp]: "same_lexer L L"
  by (auto simp: same_lexer_fields)

lemma same_lexer_trans [trans]: "same_lexer L L' \<Longrightarrow> same_lexer L' L'' \<Longrightarrow> same_lexer L L''"
  unfolding same_lexer_def by (elim exE, rule exI, rule exI) simp

lemma same_lexer_sym: "same_lexer L L' \<Longrightarrow> same_lexer L' L"
  unfolding same_lexer_def by (elim exE, rule exI [of _ "lx_Result L"], rule exI [of _ "lx_Diags L"]) simp

lemma same_lexer_updates [simp]:
  "same_lexer L (set_token f K) \<longleftrightarrow> same_lexer L K" "same_lexer L (emit_diags ds K) \<longleftrightarrow> same_lexer L K"
  "same_lexer L (note_read cl ds K) \<longleftrightarrow> same_lexer L K" "same_lexer L (Diag d p K) \<longleftrightarrow> same_lexer L K"
proof -
  have "same_lexer K (set_token f K)" "same_lexer K (emit_diags ds K)" "same_lexer K (note_read cl ds K)" "same_lexer K (Diag d p K)"
    by (auto simp: same_lexer_fields set_token_def emit_diags_def note_read_def Diag_def)
  then show "same_lexer L (set_token f K) \<longleftrightarrow> same_lexer L K" "same_lexer L (emit_diags ds K) \<longleftrightarrow> same_lexer L K"
    "same_lexer L (note_read cl ds K) \<longleftrightarrow> same_lexer L K" "same_lexer L (Diag d p K) \<longleftrightarrow> same_lexer L K"
    using same_lexer_trans same_lexer_sym by blast+
qed

lemma same_lexerD:
  assumes "same_lexer L L'"
  shows "lx_Buffer L' = lx_Buffer L" "Features L' = Features L" "ExtendedTokenMode L' = ExtendedTokenMode L"
    "BufferPtr L' = BufferPtr L" "IsAtStartOfLine L' = IsAtStartOfLine L" "LexingRawMode L' = LexingRawMode L"
    "ParsingPreprocessorDirective L' = ParsingPreprocessorDirective L" "ParsingFilename L' = ParsingFilename L"
    "CommentRetention L' = CommentRetention L" "lx_VectorUnit L' = lx_VectorUnit L" "lx_Address L' = lx_Address L" "ConditionalStack L' = ConditionalStack L"
    "chars_at L' = chars_at L" "char_at L' = char_at L"
  using assms by (auto simp: same_lexer_def chars_at_def char_at_def fun_eq_iff)

lemma peek_size: "peek NUL s \<noteq> NUL \<Longrightarrow> 0 < length s"
  by (cases s) auto

lemma getAndAdvanceChar_read:
  assumes "getAndAdvanceChar p L = Some (C, q, L')"
  shows "p < q" "q \<le> Suc (BufferEnd L)" "same_lexer L L'" "C \<noteq> NUL \<Longrightarrow> q \<le> BufferEnd L" "p \<le> BufferEnd L"
  using assms peek_size [of "drop p (lx_Buffer L)"]
  by (auto simp: getAndAdvanceChar_def chars_at_eq_Some bind_eq_Some_conv split: if_splits prod.splits dest!: slow_size)

lemma getCharAndSize_read:
  assumes "getCharAndSize L p = Some (C, n)"
  shows "0 < n" "p + n \<le> Suc (BufferEnd L)" "p \<le> BufferEnd L" "C \<noteq> NUL \<Longrightarrow> p + n \<le> BufferEnd L"
  using assms peek_size [of "drop p (lx_Buffer L)"]
  by (auto simp: getCharAndSize_def chars_at_eq_Some bind_eq_Some_conv split: if_splits prod.splits dest!: slow_size)

lemma ConsumeChar_read:
  assumes "ConsumeChar p n L = Some (q, L')" "p \<le> BufferEnd L"
  shows "p < q" "q \<le> Suc (BufferEnd L)" "same_lexer L L'"
  using assms
  by (auto simp: ConsumeChar_def chars_at_eq_Some bind_eq_Some_conv split: if_splits prod.splits dest!: slow_size)

lemma skip_chars_le: "skip_chars P L p = Some q \<Longrightarrow> p \<le> q \<and> q \<le> BufferEnd L"
  using length_takeWhile_le [of P "drop p (lx_Buffer L)"]
  by (auto simp: skip_chars_def chars_at_eq_Some bind_eq_Some_conv)

lemma char_at_NUL: "char_at L p = Some C \<Longrightarrow> C \<noteq> NUL \<Longrightarrow> p < BufferEnd L"
  by (cases "p < BufferEnd L") (auto simp: char_at_def chars_at_eq_Some)

text \<open>What is left of the buffer gets shorter; loops terminate by this.\<close>

lemma Diag_buffer [simp]: "lx_Buffer (Diag d p L) = lx_Buffer L"
  by (simp add: Diag_def emit_diags_def)

lemma consume_smaller:
  assumes "getCharAndSize L p = Some (C, n)" "ConsumeChar p n K = Some (q, L')" "lx_Buffer K = lx_Buffer L"
  shows "Suc (BufferEnd L') - q < Suc (BufferEnd L) - p"
  using getCharAndSize_read [OF assms(1)] ConsumeChar_read [OF assms(2)] same_lexerD(1) [of K L'] assms(3) by auto

lemmas consume_smaller_diag = consume_smaller [where K = "Diag d r L" for d r L, OF _ _ Diag_buffer]

lemma advance_smaller:
  assumes "getAndAdvanceChar p L = Some (C, q, L')"
  shows "Suc (BufferEnd L') + 1 - q < Suc (BufferEnd L) + 1 - p"
  using getAndAdvanceChar_read [OF assms] same_lexerD(1) [of L L'] by auto

end
