(* ===== verification/Lexer.thy ===== *)
theory Lexer
  imports LexerState
begin

text \<open>
  The lexer (\<^verbatim>\<open>lib/Lex/Lexer.cpp\<close>): literals and identifiers, whitespace and comments, punctuators, the end of
  the file, and \<open>LexTokenInternal\<close>, which composes them. Where the code calls into the preprocessor (to look an
  identifier up, to handle a directive, to leave the file) a run ends with an outcome that names the call; what the
  preprocessor does then starts another run.
\<close>

datatype lex_outcome =
  Lexed lexer \<comment> \<open>the token is formed\<close>
| LexedIdentifier lexer \<comment> \<open>an identifier is formed: the preprocessor looks it up and handles it\<close>
| LexedDirective lexer \<comment> \<open>a hash at the start of a line is formed: the preprocessor handles the directive\<close>
| LexedEndOfFile lexer \<comment> \<open>the preprocessor handles the end of the file\<close>
| LexNextToken lexer \<comment> \<open>go on with the next token\<close>
| SkipIgnoredUnits lexer \<comment> \<open>go on, behind whitespace or a comment\<close>

section \<open>Identifiers and literals\<close>

definition FinishIdentifier :: "nat \<Rightarrow> lexer \<Rightarrow> lex_outcome" where
  "FinishIdentifier CurPtr L =
     (let L' = FormTokenWithChars CurPtr tok_identifier L
      in if LexingRawMode L then Lexed L' else LexedIdentifier L')"

text \<open>The slower path, for identifiers with a dollar sign, a backslash or a question mark in them.\<close>

function identifier_slow :: "nat \<Rightarrow> lexer \<Rightarrow> (nat \<times> lexer) option" where
  "identifier_slow CurPtr L = do {
     (C, Size) \<leftarrow> getCharAndSize L CurPtr;
     if C = CHR ''$'' then
       (if \<not> DollarIdents (Features L) then Some (CurPtr, L)
        else do {
          (p, L') \<leftarrow> ConsumeChar CurPtr Size (Diag ext_dollar_in_identifier CurPtr L);
          identifier_slow p L' })
     else if \<not> isIdentifierBody C then Some (CurPtr, L)
     else do {
       (p, L') \<leftarrow> ConsumeChar CurPtr Size L;
       identifier_slow p L' } }"
  by pat_completeness auto

termination
  by (relation "measure (\<lambda>(p, L). Suc (BufferEnd L) - p)") (auto dest: consume_smaller [OF _ _ refl] consume_smaller_diag)

declare identifier_slow.simps [simp del]

definition LexIdentifier :: "nat \<Rightarrow> lexer \<Rightarrow> lex_outcome option" where
  "LexIdentifier CurPtr L = do {
     p \<leftarrow> skip_chars isIdentifierBody L CurPtr;
     C \<leftarrow> char_at L p;
     if C \<noteq> CHR 0x5C \<and> C \<noteq> CHR ''?'' \<and> (C \<noteq> CHR ''$'' \<or> \<not> DollarIdents (Features L)) then Some (FinishIdentifier p L)
     else do { (q, L') \<leftarrow> identifier_slow p L; Some (FinishIdentifier q L') } }"

text \<open>The digits of a number, and a sign behind an exponent, where the loop starts again without a previous character.\<close>

function numeric_loop :: "char \<Rightarrow> nat \<Rightarrow> lexer \<Rightarrow> (nat \<times> lexer) option" where
  "numeric_loop PrevCh CurPtr L = do {
     (C, Size) \<leftarrow> getCharAndSize L CurPtr;
     if isNumberBody C then do {
       (p, L') \<leftarrow> ConsumeChar CurPtr Size L;
       numeric_loop C p L' }
     else if (C = CHR ''-'' \<or> C = CHR ''+'') \<and> (PrevCh = CHR ''E'' \<or> PrevCh = CHR ''e'') then do {
       (p, L') \<leftarrow> ConsumeChar CurPtr Size L;
       numeric_loop NUL p L' }
     else if (C = CHR ''-'' \<or> C = CHR ''+'') \<and> (PrevCh = CHR ''P'' \<or> PrevCh = CHR ''p'') \<and>
         (HexFloats (Features L) \<or> \<not> NoExtensions (Features L)) then do {
       (p, L') \<leftarrow> ConsumeChar CurPtr Size L;
       numeric_loop NUL p L' }
     else Some (CurPtr, L) }"
  by pat_completeness auto

termination
  by (relation "measure (\<lambda>(c, p, L). Suc (BufferEnd L) - p)") (auto dest: consume_smaller [OF _ _ refl] consume_smaller_diag)

declare numeric_loop.simps [simp del]

definition LexNumericConstant :: "nat \<Rightarrow> lexer \<Rightarrow> lex_outcome option" where
  "LexNumericConstant CurPtr L = do {
     (p, L') \<leftarrow> numeric_loop NUL CurPtr L;
     Some (Lexed (form_literal p tok_numeric_constant L')) }"

text \<open>
  The loop over the characters of a literal up to the closing \<open>Quote\<close>; \<open>C\<close> is the character read last. With
  \<open>tested = False\<close> it is a \<^verbatim>\<open>do\<close> loop, which does not test the first one. The result tells whether the quote was found,
  the last null character, and the offset behind the last character.
\<close>

function quoted_loop :: "char \<Rightarrow> bool \<Rightarrow> char \<Rightarrow> nat option \<Rightarrow> nat \<Rightarrow> lexer \<Rightarrow> (bool \<times> nat option \<times> nat \<times> lexer) option" where
  "quoted_loop Quote tested C NulCharacter CurPtr L =
     (if tested \<and> C = Quote then Some (True, NulCharacter, CurPtr, L)
      else if C = CHR 0x5C then do {
        (C1, p1, L1) \<leftarrow> getAndAdvanceChar CurPtr L;
        (C2, p2, L2) \<leftarrow> getAndAdvanceChar p1 L1;
        quoted_loop Quote True C2 NulCharacter p2 L2 }
      else if newline C \<or> C = NUL \<and> CurPtr - 1 = BufferEnd L then Some (False, NulCharacter, CurPtr, L)
      else do {
        (C1, p1, L1) \<leftarrow> getAndAdvanceChar CurPtr L;
        quoted_loop Quote True C1 (if C = NUL then Some (CurPtr - 1) else NulCharacter) p1 L1 })"
  by pat_completeness auto
termination
  by (relation "measure (\<lambda>(q, t, c, n, p, L). Suc (BufferEnd L) + 1 - p)") (auto dest!: advance_smaller)

declare quoted_loop.simps [simp del]

text \<open>A diagnostic that raw mode and the assembler mode suppress.\<close>

definition literal_diag :: "lex_diag \<Rightarrow> lexer \<Rightarrow> lexer" where
  "literal_diag d L = (if AsmPreprocessor (Features L) then L else Diag d (BufferPtr L) L)"

definition finish_literal :: "lex_diag \<Rightarrow> lex_diag \<Rightarrow> tok_kind \<Rightarrow> bool \<times> nat option \<times> nat \<times> lexer \<Rightarrow> lex_outcome" where
  "finish_literal unterminated null Kind = (\<lambda>(terminated, NulCharacter, CurPtr, L).
     if \<not> terminated then Lexed (FormTokenWithChars (CurPtr - 1) tok_unknown (literal_diag unterminated L))
     else let L' = (case NulCharacter of None \<Rightarrow> L | Some n \<Rightarrow> Diag null n L)
          in Lexed (form_literal CurPtr Kind L'))"

definition LexStringLiteral :: "bool \<Rightarrow> nat \<Rightarrow> lexer \<Rightarrow> lex_outcome option" where
  "LexStringLiteral Wide CurPtr L = do {
     (C, p, L1) \<leftarrow> getAndAdvanceChar CurPtr L;
     r \<leftarrow> quoted_loop (CHR 0x22) True C None p L1;
     Some (finish_literal err_unterminated_string null_in_string (if Wide then tok_wide_string_literal else tok_string_literal) r) }"

definition LexAngledStringLiteral :: "nat \<Rightarrow> lexer \<Rightarrow> lex_outcome option" where
  "LexAngledStringLiteral CurPtr L = do {
     (C, p, L1) \<leftarrow> getAndAdvanceChar CurPtr L;
     r \<leftarrow> quoted_loop (CHR ''>'') True C None p L1;
     Some (finish_literal err_unterminated_angled_string null_in_string tok_angle_string_literal r) }"

definition LexCharConstant :: "nat \<Rightarrow> lexer \<Rightarrow> lex_outcome option" where
  "LexCharConstant CurPtr L = do {
     (C, p, L1) \<leftarrow> getAndAdvanceChar CurPtr L;
     if C = CHR 0x27 then Some (Lexed (FormTokenWithChars p tok_unknown (literal_diag err_empty_character L1)))
     else do {
       (C1, p1, L2) \<leftarrow> (if C = CHR 0x5C then getAndAdvanceChar p L1 else Some (C, p, L1));
       common \<leftarrow> (if C1 \<noteq> NUL \<and> \<not> newline C1 then map_option (\<lambda>c. c = CHR 0x27) (char_at L2 p1) else Some False);
       r \<leftarrow> (if common then Some (True, None, p1 + 1, L2) else quoted_loop (CHR 0x27) False C1 None p1 L2);
       Some (finish_literal err_unterminated_char null_in_char tok_char_constant r) } }"

section \<open>Whitespace\<close>

text \<open>The result of the functions that skip tells whether a token was formed.\<close>

function SkipWhitespace :: "nat \<Rightarrow> lexer \<Rightarrow> (bool \<times> lexer) option" where
  "SkipWhitespace CurPtr L = do {
     p \<leftarrow> skip_chars isHorizontalWhitespace L CurPtr;
     Ch \<leftarrow> char_at L p;
     if newline Ch then
       (if ParsingPreprocessorDirective L then Some (False, L\<lparr>BufferPtr := p\<rparr>)
        else SkipWhitespace (p + 1) (set_token (\<lambda>T. T\<lparr>lt_StartOfLine := True, lt_LeadingSpace := False\<rparr>) L))
     else do {
       PrevChar \<leftarrow> char_before L p;
       let L' = (if \<not> newline PrevChar then set_token (\<lambda>T. T\<lparr>lt_LeadingSpace := True\<rparr>) L else L)
       in if isKeepWhitespaceMode L' then Some (True, FormTokenWithChars p tok_unknown L')
          else Some (False, L'\<lparr>BufferPtr := p\<rparr>) } }"
  by pat_completeness auto

termination
proof (relation "measure (\<lambda>(p, L). Suc (BufferEnd L) - p)", goal_cases)
  case (2 CurPtr L p Ch)
  then have "p < BufferEnd L" "CurPtr \<le> p" using char_at_NUL skip_chars_le by fastforce+
  then show ?case by (simp add: set_token_def)
qed simp

declare SkipWhitespace.simps [simp del]

section \<open>Spelling\<close>

text \<open>
  \<^verbatim>\<open>Preprocessor::getSpelling\<close> on a token that has no identifier information. The loop runs to the end of the token exactly, so a
  character that straddles it sends the loop on through the memory behind: \<open>None\<close>.
\<close>

function clean_chars :: "lexer \<Rightarrow> nat \<Rightarrow> nat \<Rightarrow> string option" where
  "clean_chars L Ptr End =
     (if Ptr = End then Some []
      else do {
        s \<leftarrow> chars_at L Ptr;
        let (C, CharSize) = getCharAndSizeNoWarn (Features L) s
        in map_option (Cons C) (clean_chars L (Ptr + CharSize) End) })"
  by pat_completeness auto
termination
  by (relation "measure (\<lambda>(L, p, e). Suc (BufferEnd L) - p)")
     (auto simp: chars_at_eq_Some dest!: sym [of "(_, _)"] NoWarn_size)

declare clean_chars.simps [simp del]

definition getSpelling :: "lexer \<Rightarrow> string option" where
  "getSpelling L =
     (let Tok = lx_Result L
      in if \<not> lt_NeedsCleaning Tok
         then Some (take (lt_Length Tok) (drop (lt_Loc Tok) (lx_Buffer L)))
         else do {
           s \<leftarrow> clean_chars L (lt_Loc Tok) (lt_Loc Tok + lt_Length Tok);
           asserting (length s \<noteq> lt_Length Tok);
           Some s })"

section \<open>Comments\<close>

definition SaveBCPLComment :: "nat \<Rightarrow> lexer \<Rightarrow> (bool \<times> lexer) option" where
  "SaveBCPLComment CurPtr L =
     (let L1 = FormTokenWithChars CurPtr tok_comment L
      in if \<not> ParsingPreprocessorDirective L1 then Some (True, L1)
         else do {
           Spelling \<leftarrow> getSpelling L1;
           asserting (take 2 Spelling = ''//'');
           let S = Spelling[1 := CHR ''*''] @ ''*/''
           in Some (True, set_token (\<lambda>T. T\<lparr>lt_Kind := tok_comment, lt_Length := length S, lt_Scratch := Some S\<rparr>) L1) })"

text \<open>\<^verbatim>\<open>isspace\<close> of the C library, in the C locale.\<close>

definition isspace :: "char \<Rightarrow> bool" where
  "isspace c \<longleftrightarrow> c = CHR '' '' \<or> 9 \<le> code_of c \<and> code_of c \<le> 13"

text \<open>
  The warning about an escaped newline between \<open>OldPtr\<close> and \<open>CurPtr\<close>, unless behind whitespace there is
  another comment.
\<close>

definition multi_line_comment :: "nat \<Rightarrow> nat \<Rightarrow> char \<Rightarrow> lexer \<Rightarrow> lexer option" where
  "multi_line_comment OldPtr CurPtr C L =
     (case find (\<lambda>i. newline (lx_Buffer L ! i)) [OldPtr ..< min CurPtr (BufferEnd L)] of
        None \<Rightarrow> Some L
      | Some i \<Rightarrow> do {
          continued \<leftarrow> (if isspace C
            then do { f \<leftarrow> skip_chars isspace L CurPtr; s \<leftarrow> chars_at L f; Some (take 2 s = ''//'') }
            else Some False);
          Some (if continued then L else Diag ext_multi_line_bcpl_comment (i - 1) L) })"

definition bcpl_plain :: "char \<Rightarrow> bool" where
  "bcpl_plain C \<longleftrightarrow> C \<noteq> NUL \<and> C \<noteq> CHR 0x5C \<and> C \<noteq> CHR ''?'' \<and> \<not> newline C"

text \<open>The character of the hard case, read in raw mode.\<close>

definition bcpl_hard_char :: "nat \<Rightarrow> lexer \<Rightarrow> (char \<times> nat \<times> lexer) option" where
  "bcpl_hard_char CurPtr L = do {
     (C, p, L') \<leftarrow> getAndAdvanceChar CurPtr (L\<lparr>LexingRawMode := True\<rparr>);
     let (C', p') = (if newline C then (CHR ''x'', p - 1) else (C, p))
     in Some (C', p', L'\<lparr>LexingRawMode := LexingRawMode L\<rparr>) }"

text \<open>If several characters were read, the warning about a newline among them, unless a slash follows.\<close>

definition bcpl_escaped_newline :: "nat \<Rightarrow> nat \<Rightarrow> char \<Rightarrow> lexer \<Rightarrow> lexer option" where
  "bcpl_escaped_newline OldPtr CurPtr C L =
     (if CurPtr \<noteq> OldPtr + 1 \<and> C \<noteq> CHR ''/'' then do {
        c \<leftarrow> char_at L CurPtr;
        if c \<noteq> CHR ''/'' then multi_line_comment OldPtr CurPtr C L else Some L }
      else Some L)"

lemma multi_line_comment_same: "multi_line_comment q p C L = Some L' \<Longrightarrow> same_lexer L L'"
  by (auto simp: multi_line_comment_def bind_eq_Some_conv split: option.splits if_splits)

lemma bcpl_escaped_newline_same: "bcpl_escaped_newline q p C L = Some L' \<Longrightarrow> same_lexer L L'"
  by (auto simp: bcpl_escaped_newline_def bind_eq_Some_conv multi_line_comment_same split: if_splits)

lemma bcpl_hard_char_read:
  assumes "bcpl_hard_char p L = Some (C, q, L')" "char_at L p = Some c" "\<not> newline c"
  shows "p < q" "q \<le> Suc (BufferEnd L)" "same_lexer L L'"
proof -
  obtain C0 q0 K where r1: "getAndAdvanceChar p (L\<lparr>LexingRawMode := True\<rparr>) = Some (C0, q0, K)"
    using assms(1) by (auto simp: bcpl_hard_char_def bind_eq_Some_conv)
  have r2: "L' = K\<lparr>LexingRawMode := LexingRawMode L\<rparr>" "(C, q) = (if newline C0 then (CHR ''x'', q0 - 1) else (C0, q0))"
    using assms(1) r1 unfolding bcpl_hard_char_def by (auto split: if_splits)
  note r = r1 r2
  from getAndAdvanceChar_read [OF r(1)] obtain T ds where K: "K = L\<lparr>LexingRawMode := True, lx_Result := T, lx_Diags := ds\<rparr>"
    by (auto simp: same_lexer_def)
  show "same_lexer L L'" unfolding same_lexer_def r(2) K by (intro exI [of _ T] exI [of _ ds]) simp
  have two: "newline C0 \<Longrightarrow> q0 \<noteq> Suc p"
    using r(1) assms(2,3) slow_newline_size [of "Features L" True True p "drop p (lx_Buffer L)"]
    by (auto simp: getAndAdvanceChar_def bind_eq_Some_conv char_at_def chars_at_eq_Some isObviouslySimpleCharacter_def chars_at_def
        split: if_splits prod.splits)
  show "p < q" "q \<le> Suc (BufferEnd L)" using getAndAdvanceChar_read [OF r(1)] r(3) two by (auto split: if_splits)
qed

function bcpl_loop :: "nat \<Rightarrow> lexer \<Rightarrow> (nat \<times> lexer) option" where
  "bcpl_loop CurPtr L = do {
     OldPtr \<leftarrow> skip_chars bcpl_plain L CurPtr;
     C0 \<leftarrow> char_at L OldPtr;
     if newline C0 then Some (OldPtr, L)
     else do {
       (C, p, L1) \<leftarrow> bcpl_hard_char OldPtr L;
       L2 \<leftarrow> bcpl_escaped_newline OldPtr p C L1;
       if p = BufferEnd L2 + 1 then Some (p - 1, L2)
       else if newline C then Some (p, L2)
       else bcpl_loop p L2 } }"
  by pat_completeness auto
termination
proof (relation "measure (\<lambda>(p, L). Suc (BufferEnd L) - p)", goal_cases)
  case (2 CurPtr L OldPtr C0 x C xa p L1 L2)
  have "same_lexer L L1" using 2 bcpl_hard_char_read(3) [of OldPtr L C p L1 C0] by auto
  moreover have "same_lexer L1 L2" using 2 bcpl_escaped_newline_same by auto
  ultimately have "same_lexer L L2" by (rule same_lexer_trans)
  then have "BufferEnd L2 = BufferEnd L" by (simp add: same_lexerD)
  moreover have "OldPtr < p" "p \<le> Suc (BufferEnd L)" using 2 bcpl_hard_char_read(1,2) [of OldPtr L C p L1 C0] by auto
  moreover have "CurPtr \<le> OldPtr" using 2(1) skip_chars_le by blast
  ultimately show ?case by simp
qed simp

declare bcpl_loop.simps [simp del]

definition SkipBCPLComment :: "nat \<Rightarrow> lexer \<Rightarrow> (bool \<times> lexer) option" where
  "SkipBCPLComment CurPtr L0 = do {
     let L = (if \<not> BCPLComment (Features L0) \<and> \<not> LexingRawMode L0
              then (Diag ext_bcpl_comment (BufferPtr L0) L0)\<lparr>Features := (Features L0)\<lparr>BCPLComment := True\<rparr>\<rparr> else L0);
     (p, L1) \<leftarrow> bcpl_loop CurPtr L;
     if inKeepCommentMode L1 then SaveBCPLComment p L1
     else if ParsingPreprocessorDirective L1 \<or> p = BufferEnd L1 then Some (False, L1\<lparr>BufferPtr := p\<rparr>)
     else Some (False, (set_token (\<lambda>T. T\<lparr>lt_StartOfLine := True, lt_LeadingSpace := False\<rparr>) L1)\<lparr>BufferPtr := p + 1\<rparr>) }"

subsection \<open>Block comments\<close>

definition retreat :: "nat \<Rightarrow> nat option" where
  "retreat p = (if p = 0 then None else Some (p - 1))"

function skip_back :: "lexer \<Rightarrow> nat \<Rightarrow> nat option" where
  "skip_back L p = do {
     c \<leftarrow> char_at L p;
     if isHorizontalWhitespace c \<or> c = NUL then do { q \<leftarrow> retreat p; skip_back L q } else Some p }"
  by pat_completeness auto
termination
  by (relation "measure snd") (auto simp: retreat_def split: if_splits)

declare skip_back.simps [simp del]

text \<open>An escaped newline between the star and the slash ends the comment; \<open>CurPtr\<close> is at the newline.\<close>

definition end_with_escape :: "nat \<Rightarrow> bool \<Rightarrow> lexer \<Rightarrow> bool \<times> lexer" where
  "end_with_escape CurPtr HasSpace L =
     (let L1 = Diag escaped_newline_block_comment_end CurPtr L
      in (True, if HasSpace then Diag backslash_newline_space CurPtr L1 else L1))"

definition isEndOfBlockCommentWithEscapedNewLine :: "nat \<Rightarrow> lexer \<Rightarrow> (bool \<times> lexer) option" where
  "isEndOfBlockCommentWithEscapedNewLine CurPtr L = do {
     c \<leftarrow> char_at L CurPtr;
     asserting (newline c);
     p1 \<leftarrow> retreat CurPtr;
     c1 \<leftarrow> char_at L p1;
     if newline c1 \<and> c1 = c then Some (False, L)
     else do {
       p2 \<leftarrow> (if newline c1 then retreat p1 else Some p1);
       p \<leftarrow> skip_back L p2;
       let HasSpace = (p \<noteq> p2);
       c2 \<leftarrow> char_at L p;
       if c2 = CHR 0x5C then do {
         b \<leftarrow> char_before L p;
         Some (if b \<noteq> CHR ''*'' then (False, L) else end_with_escape p HasSpace L) }
       else if c2 \<noteq> CHR ''/'' then Some (False, L)
       else do {
         b1 \<leftarrow> char_before L p;
         if b1 \<noteq> CHR ''?'' then Some (False, L)
         else do {
           b2 \<leftarrow> char_before L (p - 1);
           if b2 \<noteq> CHR ''?'' then Some (False, L)
           else do {
             b3 \<leftarrow> char_before L (p - 2);
             Some (if b3 \<noteq> CHR ''*'' then (False, L)
                   else if \<not> Trigraphs (Features L) then (False, Diag trigraph_ignored_block_comment (p - 2) L)
                   else end_with_escape (p - 2) HasSpace (Diag trigraph_ends_block_comment (p - 2) L)) } } } } }"

text \<open>
  The search for the next slash: up to a 16-byte boundary, then in steps of 16 bytes with the vector unit, else of
  four, which are read before the bound is tested; \<open>C\<close> is the character read last. Near the end of the buffer, and behind the
  fast part, it goes character by character up to a slash or a null character.
\<close>

function align_scan :: "char \<Rightarrow> nat \<Rightarrow> lexer \<Rightarrow> (char \<times> nat) option" where
  "align_scan C CurPtr L =
     (if C \<noteq> CHR ''/'' \<and> (lx_Address L + CurPtr) mod 16 \<noteq> 0
      then do { c \<leftarrow> char_at L CurPtr; align_scan c (CurPtr + 1) L }
      else Some (C, CurPtr))"
  by pat_completeness auto
termination
  by (relation "measure (\<lambda>(C, p, L). Suc (BufferEnd L) - p)") (auto simp: char_at_def chars_at_def split: if_splits)

function vector_scan :: "nat \<Rightarrow> lexer \<Rightarrow> nat" where
  "vector_scan CurPtr L =
     (if CurPtr + 16 \<le> BufferEnd L \<and> CHR ''/'' \<notin> set (take 16 (drop CurPtr (lx_Buffer L)))
      then vector_scan (CurPtr + 16) L else CurPtr)"
  by pat_completeness auto
termination
  by (relation "measure (\<lambda>(p, L). Suc (BufferEnd L) - p)") auto

function unrolled_scan :: "nat \<Rightarrow> lexer \<Rightarrow> nat option" where
  "unrolled_scan CurPtr L = do {
     c0 \<leftarrow> char_at L CurPtr;
     if c0 = CHR ''/'' then Some CurPtr
     else do {
       c1 \<leftarrow> char_at L (CurPtr + 1);
       if c1 = CHR ''/'' then Some CurPtr
       else do {
         c2 \<leftarrow> char_at L (CurPtr + 2);
         if c2 = CHR ''/'' then Some CurPtr
         else do {
           c3 \<leftarrow> char_at L (CurPtr + 3);
           if c3 = CHR ''/'' \<or> \<not> CurPtr + 4 < BufferEnd L then Some CurPtr else unrolled_scan (CurPtr + 4) L } } } }"
  by pat_completeness auto
termination
  by (relation "measure (\<lambda>(p, L). Suc (BufferEnd L) - p)") auto

function slow_scan :: "char \<Rightarrow> nat \<Rightarrow> lexer \<Rightarrow> (char \<times> nat) option" where
  "slow_scan C CurPtr L =
     (if C \<noteq> CHR ''/'' \<and> C \<noteq> NUL then do { c \<leftarrow> char_at L CurPtr; slow_scan c (CurPtr + 1) L }
      else Some (C, CurPtr))"
  by pat_completeness auto
termination
  by (relation "measure (\<lambda>(C, p, L). Suc (BufferEnd L) - p)") (auto simp: char_at_def chars_at_def split: if_splits)

declare align_scan.simps [simp del] vector_scan.simps [simp del] unrolled_scan.simps [simp del] slow_scan.simps [simp del]

definition fast_scan :: "char \<Rightarrow> nat \<Rightarrow> lexer \<Rightarrow> (char \<times> nat) option" where
  "fast_scan C CurPtr L =
     (if CurPtr + 24 < BufferEnd L then do {
        (C1, p) \<leftarrow> align_scan C CurPtr L;
        if C1 = CHR ''/'' then Some (C1, p)
        else do {
          q \<leftarrow> (if lx_VectorUnit L then Some (vector_scan p L) else unrolled_scan p L);
          c \<leftarrow> char_at L q;
          Some (c, q + 1) } }
      else Some (C, CurPtr))"

lemma char_at_le: "char_at L p = Some c \<Longrightarrow> p \<le> BufferEnd L"
  by (auto simp: char_at_def chars_at_eq_Some)

lemma align_scan_le: "align_scan C p L = Some (C', q) \<Longrightarrow> p \<le> q"
  by (induction C p L rule: align_scan.induct)
     (subst (asm) (2) align_scan.simps, auto simp: bind_eq_Some_conv split: if_splits)

lemma vector_scan_le: "p \<le> vector_scan p L"
  by (induction p L rule: vector_scan.induct) (subst vector_scan.simps, auto)

lemma unrolled_scan_le: "unrolled_scan p L = Some q \<Longrightarrow> p \<le> q"
  by (induction p L rule: unrolled_scan.induct)
     (subst (asm) (2) unrolled_scan.simps, auto simp: bind_eq_Some_conv split: if_splits intro: add_leD1 [of _ 4])

lemma slow_scan_le: "slow_scan C p L = Some (C', q) \<Longrightarrow> p \<le> q"
  by (induction C p L rule: slow_scan.induct)
     (subst (asm) (2) slow_scan.simps, auto simp: bind_eq_Some_conv split: if_splits)

lemma fast_scan_le: "fast_scan C p L = Some (C', q) \<Longrightarrow> p \<le> q"
proof (cases "p + 24 < BufferEnd L")
  case True
  assume r: "fast_scan C p L = Some (C', q)"
  then obtain C1 p1 where 1: "align_scan C p L = Some (C1, p1)" using True by (auto simp: fast_scan_def bind_eq_Some_conv)
  show ?thesis using r 1 True align_scan_le [OF 1] vector_scan_le [of p1 L] unrolled_scan_le [of p1 L]
    by (auto simp: fast_scan_def bind_eq_Some_conv split: if_splits)
qed (simp add: fast_scan_def)

text \<open>The loop of the comment; the result tells whether its end was found.\<close>

definition nested_comment :: "nat \<Rightarrow> lexer \<Rightarrow> lexer option" where
  "nested_comment CurPtr L = do {
     c \<leftarrow> char_at L CurPtr;
     nested \<leftarrow> (if c = CHR ''*'' then map_option (\<lambda>d. d \<noteq> CHR ''/'') (char_at L (CurPtr + 1)) else Some False);
     Some (if nested then Diag warn_nested_block_comment (CurPtr - 1) L else L) }"

definition ends_at_slash :: "nat \<Rightarrow> lexer \<Rightarrow> (bool \<times> lexer) option" where
  "ends_at_slash CurPtr L = do {
     c \<leftarrow> char_before L (CurPtr - 1);
     if c = CHR ''*'' then Some (True, L)
     else do {
       (ended, L1) \<leftarrow> (if newline c then isEndOfBlockCommentWithEscapedNewLine (CurPtr - 2) L else Some (False, L));
       if ended then Some (True, L1) else map_option (Pair False) (nested_comment CurPtr L1) } }"

lemma isEndOfBlockComment_same: "isEndOfBlockCommentWithEscapedNewLine p L = Some (b, L') \<Longrightarrow> same_lexer L L'"
  unfolding isEndOfBlockCommentWithEscapedNewLine_def end_with_escape_def Let_def
  by (elim bind_SomeE) (auto split: if_splits elim!: bind_SomeE)

lemma nested_comment_same: "nested_comment p L = Some L' \<Longrightarrow> same_lexer L L'"
  by (auto simp: nested_comment_def bind_eq_Some_conv split: if_splits)

lemma ends_at_slash_same: "ends_at_slash p L = Some (b, L') \<Longrightarrow> same_lexer L L'"
  by (auto simp: ends_at_slash_def bind_eq_Some_conv split: if_splits
      dest!: isEndOfBlockComment_same nested_comment_same intro: same_lexer_trans)

lemma scans_le: "fast_scan C p L = Some (C', p') \<Longrightarrow> slow_scan C' p' L = Some (C'', q) \<Longrightarrow> p \<le> q"
  using fast_scan_le slow_scan_le order_trans by blast

function block_loop :: "char \<Rightarrow> nat \<Rightarrow> lexer \<Rightarrow> (bool \<times> nat \<times> lexer) option" where
  "block_loop C0 p0 L = do {
     (C1, p1) \<leftarrow> fast_scan C0 p0 L;
     (C, CurPtr) \<leftarrow> slow_scan C1 p1 L;
     if C = CHR ''/'' then do {
       (ended, L1) \<leftarrow> ends_at_slash CurPtr L;
       if ended then Some (True, CurPtr, L1)
       else do { c \<leftarrow> char_at L1 CurPtr; block_loop c (CurPtr + 1) L1 } }
     else if C = NUL \<and> CurPtr = BufferEnd L + 1 then Some (False, CurPtr, L)
     else do { c \<leftarrow> char_at L CurPtr; block_loop c (CurPtr + 1) L } }"
  by pat_completeness auto
termination
proof (relation "measure (\<lambda>(c, p, L). Suc (BufferEnd L) + 1 - p)", goal_cases)
  case (2 C0 p0 L x C1 p1 y C CurPtr z ended L1 c)
  then have "p0 \<le> CurPtr" "CurPtr \<le> BufferEnd L1" using scans_le char_at_le by auto
  moreover have "BufferEnd L1 = BufferEnd L" using 2 ends_at_slash_same [THEN same_lexerD(1)] by auto
  ultimately show ?case by simp
next
  case (3 C0 p0 L x C1 p1 y C CurPtr c)
  then have "p0 \<le> CurPtr" "CurPtr \<le> BufferEnd L" using scans_le char_at_le by auto
  then show ?case by simp
qed simp

declare block_loop.simps [simp del]

definition unterminated_comment :: "nat \<Rightarrow> lexer \<Rightarrow> bool \<times> lexer" where
  "unterminated_comment CurPtr L =
     (let L1 = Diag err_unterminated_block_comment (BufferPtr L) L
      in if isKeepWhitespaceMode L1 then (True, FormTokenWithChars (CurPtr - 1) tok_unknown L1)
         else (False, L1\<lparr>BufferPtr := CurPtr - 1\<rparr>))"

definition finish_block_comment :: "bool \<times> nat \<times> lexer \<Rightarrow> (bool \<times> lexer) option" where
  "finish_block_comment = (\<lambda>(ended, CurPtr, L).
     if \<not> ended then Some (unterminated_comment CurPtr L)
     else if inKeepCommentMode L then Some (True, FormTokenWithChars CurPtr tok_comment L)
     else do {
       c \<leftarrow> char_at L CurPtr;
       let L1 = set_token (\<lambda>T. T\<lparr>lt_LeadingSpace := True\<rparr>) L;
       if isHorizontalWhitespace c then do { (_, L2) \<leftarrow> SkipWhitespace (CurPtr + 1) L1; Some (False, L2) }
       else Some (False, L1\<lparr>BufferPtr := CurPtr\<rparr>) })"

definition SkipBlockComment :: "nat \<Rightarrow> lexer \<Rightarrow> (bool \<times> lexer) option" where
  "SkipBlockComment CurPtr L = do {
     (C, CharSize) \<leftarrow> getCharAndSize L CurPtr;
     let p = CurPtr + CharSize;
     if C = NUL \<and> p = BufferEnd L + 1 then Some (unterminated_comment p L)
     else do {
       (C1, p1) \<leftarrow> (if C = CHR ''/'' then map_option (\<lambda>c. (c, p + 1)) (char_at L p) else Some (C, p));
       r \<leftarrow> block_loop C1 p1 L;
       finish_block_comment r } }"

section \<open>The end of the file\<close>

definition LexEndOfFile :: "nat \<Rightarrow> lexer \<Rightarrow> lex_outcome option" where
  "LexEndOfFile CurPtr L =
     (if ParsingPreprocessorDirective L then
        map_option Lexed (SetCommentRetentionState (CommentRetention L)
          (FormTokenWithChars CurPtr tok_eom (L\<lparr>ParsingPreprocessorDirective := False\<rparr>)))
      else if LexingRawMode L then
        Some (Lexed (FormTokenWithChars (BufferEnd L) tok_eof ((set_token startToken L)\<lparr>BufferPtr := BufferEnd L\<rparr>)))
      else do {
        let L1 = (emit_diags (map (Pair err_pp_unterminated_conditional) (ConditionalStack L)) L)\<lparr>ConditionalStack := []\<rparr>;
        no_newline \<leftarrow> (if CurPtr = 0 then Some False else map_option (\<lambda>c. \<not> newline c) (char_before L1 CurPtr));
        let L2 = (if no_newline then Diag ext_no_newline_eof (BufferEnd L1) L1 else L1);
        Some (LexedEndOfFile (L2\<lparr>BufferPtr := CurPtr\<rparr>)) })"

section \<open>Punctuators\<close>

text \<open>A punctuator: its kind, and the offset and state behind it.\<close>

type_synonym punctuator = "(tok_kind \<times> nat \<times> lexer) option"

definition consume_as :: "tok_kind \<Rightarrow> nat \<Rightarrow> nat \<Rightarrow> lexer \<Rightarrow> punctuator" where
  "consume_as Kind CurPtr Size L = map_option (Pair Kind) (ConsumeChar CurPtr Size L)"

definition consume2_as :: "tok_kind \<Rightarrow> nat \<Rightarrow> nat \<Rightarrow> nat \<Rightarrow> lexer \<Rightarrow> punctuator" where
  "consume2_as Kind CurPtr Size Size2 L = do {
     (p, L1) \<leftarrow> ConsumeChar CurPtr Size L;
     map_option (Pair Kind) (ConsumeChar p Size2 L1) }"

text \<open>A punctuator that a following \<open>=\<close> turns into another.\<close>

definition or_equal :: "tok_kind \<Rightarrow> tok_kind \<Rightarrow> nat \<Rightarrow> lexer \<Rightarrow> punctuator" where
  "or_equal EqualKind Kind CurPtr L = do {
     (Ch, SizeTmp) \<leftarrow> getCharAndSize L CurPtr;
     if Ch = CHR ''='' then consume_as EqualKind CurPtr SizeTmp L else Some (Kind, CurPtr, L) }"

text \<open>One that itself or \<open>=\<close> behind it turns into others.\<close>

definition twice_or_equal :: "char \<Rightarrow> tok_kind \<Rightarrow> tok_kind \<Rightarrow> tok_kind \<Rightarrow> nat \<Rightarrow> lexer \<Rightarrow> punctuator" where
  "twice_or_equal c TwiceKind EqualKind Kind CurPtr L = do {
     (Ch, SizeTmp) \<leftarrow> getCharAndSize L CurPtr;
     if Ch = c then consume_as TwiceKind CurPtr SizeTmp L
     else if Ch = CHR ''='' then consume_as EqualKind CurPtr SizeTmp L
     else Some (Kind, CurPtr, L) }"

definition lex_minus :: "nat \<Rightarrow> lexer \<Rightarrow> punctuator" where
  "lex_minus CurPtr L = do {
     (Ch, SizeTmp) \<leftarrow> getCharAndSize L CurPtr;
     if Ch = CHR ''-'' then consume_as tok_minusminus CurPtr SizeTmp L
     else do {
       star \<leftarrow> (if Ch = CHR ''>'' \<and> CPlusPlus (Features L)
                then map_option (\<lambda>(C, n). if C = CHR ''*'' then Some n else None) (getCharAndSize L (CurPtr + SizeTmp))
                else Some None);
       case star of
         Some SizeTmp2 \<Rightarrow> consume2_as tok_arrowstar CurPtr SizeTmp SizeTmp2 L
       | None \<Rightarrow>
           if Ch = CHR ''>'' then consume_as tok_arrow CurPtr SizeTmp L
           else if Ch = CHR ''='' then consume_as tok_minusequal CurPtr SizeTmp L
           else Some (tok_minus, CurPtr, L) } }"

definition lex_less :: "nat \<Rightarrow> lexer \<Rightarrow> punctuator" where
  "lex_less CurPtr L = do {
     (Ch, SizeTmp) \<leftarrow> getCharAndSize L CurPtr;
     eq \<leftarrow> (if Ch = CHR ''<''
            then map_option (\<lambda>(C, n). if C = CHR ''='' then Some n else None) (getCharAndSize L (CurPtr + SizeTmp))
            else Some None);
     case eq of
       Some SizeTmp2 \<Rightarrow> consume2_as tok_lesslessequal CurPtr SizeTmp SizeTmp2 L
     | None \<Rightarrow>
         if Ch = CHR ''<'' then consume_as tok_lessless CurPtr SizeTmp L
         else if Ch = CHR ''='' then consume_as tok_lessequal CurPtr SizeTmp L
         else if Digraphs (Features L) \<and> Ch = CHR '':'' then consume_as tok_l_square CurPtr SizeTmp L
         else if Digraphs (Features L) \<and> Ch = CHR ''%'' then consume_as tok_l_brace CurPtr SizeTmp L
         else Some (tok_less, CurPtr, L) }"

definition lex_greater :: "nat \<Rightarrow> lexer \<Rightarrow> punctuator" where
  "lex_greater CurPtr L = do {
     (Ch, SizeTmp) \<leftarrow> getCharAndSize L CurPtr;
     if Ch = CHR ''='' then consume_as tok_greaterequal CurPtr SizeTmp L
     else do {
       eq \<leftarrow> (if Ch = CHR ''>''
              then map_option (\<lambda>(C, n). if C = CHR ''='' then Some n else None) (getCharAndSize L (CurPtr + SizeTmp))
              else Some None);
       case eq of
         Some SizeTmp2 \<Rightarrow> consume2_as tok_greatergreaterequal CurPtr SizeTmp SizeTmp2 L
       | None \<Rightarrow>
           if Ch = CHR ''>'' then consume_as tok_greatergreater CurPtr SizeTmp L
           else Some (tok_greater, CurPtr, L) } }"

definition lex_colon :: "nat \<Rightarrow> lexer \<Rightarrow> punctuator" where
  "lex_colon CurPtr L = do {
     (Ch, SizeTmp) \<leftarrow> getCharAndSize L CurPtr;
     if Digraphs (Features L) \<and> Ch = CHR ''>'' then consume_as tok_r_square CurPtr SizeTmp L
     else if CPlusPlus (Features L) \<and> Ch = CHR '':'' then consume_as tok_coloncolon CurPtr SizeTmp L
     else Some (tok_colon, CurPtr, L) }"

text \<open>The punctuators of which the rest of the switch has nothing but the kind to decide.\<close>

definition simple_punctuators :: "(char \<times> tok_kind) list" where
  "simple_punctuators =
     [(CHR ''?'', tok_question), (CHR ''['', tok_l_square), (CHR '']'', tok_r_square), (CHR ''('', tok_l_paren),
      (CHR '')'', tok_r_paren), (CHR ''{'', tok_l_brace), (CHR ''}'', tok_r_brace), (CHR ''~'', tok_tilde),
      (CHR '';'', tok_semi), (CHR '','', tok_comma)]"

definition lex_punctuator :: "char \<Rightarrow> nat \<Rightarrow> lexer \<Rightarrow> punctuator" where
  "lex_punctuator Ch CurPtr L =
     (case map_of simple_punctuators Ch of
        Some Kind \<Rightarrow> Some (Kind, CurPtr, L)
      | None \<Rightarrow>
          if Ch = CHR ''&'' then twice_or_equal (CHR ''&'') tok_ampamp tok_ampequal tok_amp CurPtr L
          else if Ch = CHR ''*'' then or_equal tok_starequal tok_star CurPtr L
          else if Ch = CHR ''+'' then twice_or_equal (CHR ''+'') tok_plusplus tok_plusequal tok_plus CurPtr L
          else if Ch = CHR ''-'' then lex_minus CurPtr L
          else if Ch = CHR ''!'' then or_equal tok_exclaimequal tok_exclaim CurPtr L
          else if Ch = CHR ''<'' then lex_less CurPtr L
          else if Ch = CHR ''>'' then lex_greater CurPtr L
          else if Ch = CHR 0x5E then or_equal tok_caretequal tok_caret CurPtr L
          else if Ch = CHR ''|'' then twice_or_equal (CHR ''|'') tok_pipepipe tok_pipeequal tok_pipe CurPtr L
          else if Ch = CHR '':'' then lex_colon CurPtr L
          else if Ch = CHR ''='' then or_equal tok_equalequal tok_equal CurPtr L
          else if Ch = CHR ''@'' then do {
            c \<leftarrow> char_before L CurPtr;
            Some (if c = CHR ''@'' \<and> ObjC1 (Features L) then tok_at else tok_unknown, CurPtr, L) }
          else Some (tok_unknown, CurPtr, L))"

text \<open>
  The punctuators of which a dot, a percent sign or a hash is the first character. A hash at the start of a line,
  outside raw mode, is a directive.
\<close>

definition FormToken :: "punctuator \<Rightarrow> lex_outcome option" where
  "FormToken r = map_option (\<lambda>(Kind, CurPtr, L). Lexed (FormTokenWithChars CurPtr Kind L)) r"

definition hash_token :: "nat \<Rightarrow> lexer \<Rightarrow> lex_outcome option" where
  "hash_token CurPtr L =
     (if lt_StartOfLine (lx_Result L) \<and> \<not> LexingRawMode L then Some (LexedDirective (FormTokenWithChars CurPtr tok_hash L))
      else FormToken (Some (tok_hash, CurPtr, L)))"

definition lex_hash :: "nat \<Rightarrow> lexer \<Rightarrow> lex_outcome option" where
  "lex_hash CurPtr L = do {
     (Ch, SizeTmp) \<leftarrow> getCharAndSize L CurPtr;
     if Ch = CHR ''#'' then FormToken (consume_as tok_hashhash CurPtr SizeTmp L)
     else if Ch = CHR ''@'' \<and> Microsoft (Features L) then
       FormToken (consume_as tok_hashat CurPtr SizeTmp (Diag charize_microsoft_ext (BufferPtr L) L))
     else hash_token CurPtr L }"

definition lex_percent :: "nat \<Rightarrow> lexer \<Rightarrow> lex_outcome option" where
  "lex_percent CurPtr L = do {
     (Ch, SizeTmp) \<leftarrow> getCharAndSize L CurPtr;
     if Ch = CHR ''='' then FormToken (consume_as tok_percentequal CurPtr SizeTmp L)
     else if Digraphs (Features L) \<and> Ch = CHR ''>'' then FormToken (consume_as tok_r_brace CurPtr SizeTmp L)
     else if Digraphs (Features L) \<and> Ch = CHR '':'' then do {
       (p, L1) \<leftarrow> ConsumeChar CurPtr SizeTmp L;
       (Ch1, Size1) \<leftarrow> getCharAndSize L1 p;
       colon \<leftarrow> (if Ch1 = CHR ''%''
                 then map_option (\<lambda>(C, n). if C = CHR '':'' then Some n else None) (getCharAndSize L1 (p + Size1))
                 else Some None);
       case colon of
         Some Size2 \<Rightarrow> FormToken (consume2_as tok_hashhash p Size1 Size2 L1)
       | None \<Rightarrow>
           if Ch1 = CHR ''@'' \<and> Microsoft (Features L1) then
             do { (q, L2) \<leftarrow> ConsumeChar p Size1 L1;
                  FormToken (Some (tok_hashat, q, Diag charize_microsoft_ext (BufferPtr L2) L2)) }
           else hash_token p L1 }
     else FormToken (Some (tok_percent, CurPtr, L)) }"

definition lex_period :: "nat \<Rightarrow> lexer \<Rightarrow> lex_outcome option" where
  "lex_period CurPtr L = do {
     (Ch, SizeTmp) \<leftarrow> getCharAndSize L CurPtr;
     if isdigit Ch then do { (p, L1) \<leftarrow> ConsumeChar CurPtr SizeTmp L; LexNumericConstant p L1 }
     else if CPlusPlus (Features L) \<and> Ch = CHR ''*'' then FormToken (Some (tok_periodstar, CurPtr + SizeTmp, L))
     else do {
       dots \<leftarrow> (if Ch = CHR ''.''
                then map_option (\<lambda>(C, n). if C = CHR ''.'' then Some n else None) (getCharAndSize L (CurPtr + SizeTmp))
                else Some None);
       case dots of
         Some SizeTmp2 \<Rightarrow> FormToken (consume2_as tok_ellipsis CurPtr SizeTmp SizeTmp2 L)
       | None \<Rightarrow> FormToken (Some (tok_period, CurPtr, L)) } }"

section \<open>The switch\<close>

text \<open>The result of skipping: a formed token is returned.\<close>

definition after_skip :: "(lexer \<Rightarrow> lex_outcome) \<Rightarrow> (bool \<times> lexer) option \<Rightarrow> lex_outcome option" where
  "after_skip next r = map_option (\<lambda>(formed, L). if formed then Lexed L else next L) r"

definition lex_slash :: "nat \<Rightarrow> lexer \<Rightarrow> lex_outcome option" where
  "lex_slash CurPtr L = do {
     (Ch, SizeTmp) \<leftarrow> getCharAndSize L CurPtr;
     comment \<leftarrow> (if Ch = CHR ''/'' then
                   (if BCPLComment (Features L) then Some True
                    else map_option (\<lambda>(C, n). C \<noteq> CHR ''*'') (getCharAndSize L (CurPtr + SizeTmp)))
                 else Some False);
     if comment then do {
       (p, L1) \<leftarrow> ConsumeChar CurPtr SizeTmp L;
       after_skip SkipIgnoredUnits (SkipBCPLComment p L1) }
     else if Ch = CHR ''*'' then do {
       (p, L1) \<leftarrow> ConsumeChar CurPtr SizeTmp L;
       after_skip LexNextToken (SkipBlockComment p L1) }
     else if Ch = CHR ''='' then FormToken (consume_as tok_slashequal CurPtr SizeTmp L)
     else FormToken (Some (tok_slash, CurPtr, L)) }"

definition lex_L :: "nat \<Rightarrow> lexer \<Rightarrow> lex_outcome option" where
  "lex_L CurPtr L = do {
     (Ch, SizeTmp) \<leftarrow> getCharAndSize L CurPtr;
     if Ch = CHR 0x22 then do { (p, L1) \<leftarrow> ConsumeChar CurPtr SizeTmp L; LexStringLiteral True p L1 }
     else if Ch = CHR 0x27 then do { (p, L1) \<leftarrow> ConsumeChar CurPtr SizeTmp L; LexCharConstant p L1 }
     else LexIdentifier CurPtr L }"

definition lex_NUL :: "nat \<Rightarrow> lexer \<Rightarrow> lex_outcome option" where
  "lex_NUL CurPtr L =
     (if CurPtr - 1 = BufferEnd L then LexEndOfFile (CurPtr - 1) L
      else after_skip LexNextToken
        (SkipWhitespace CurPtr (set_token (\<lambda>T. T\<lparr>lt_LeadingSpace := True\<rparr>) (Diag null_in_file (CurPtr - 1) L))))"

definition lex_newline :: "nat \<Rightarrow> lexer \<Rightarrow> lex_outcome option" where
  "lex_newline CurPtr L =
     (if ParsingPreprocessorDirective L then do {
        L1 \<leftarrow> SetCommentRetentionState (CommentRetention L) (L\<lparr>ParsingPreprocessorDirective := False\<rparr>);
        FormToken (Some (tok_eom, CurPtr, L1\<lparr>IsAtStartOfLine := True\<rparr>)) }
      else after_skip LexNextToken
        (SkipWhitespace CurPtr (set_token (\<lambda>T. T\<lparr>lt_StartOfLine := True, lt_LeadingSpace := False\<rparr>) L)))"

text \<open>\<open>CurPtr\<close> is behind the first character of the token, \<open>Ch\<close>.\<close>

definition lex_switch :: "char \<Rightarrow> nat \<Rightarrow> lexer \<Rightarrow> lex_outcome option" where
  "lex_switch Ch CurPtr L =
     (if Ch = NUL then lex_NUL CurPtr L
      else if newline Ch then lex_newline CurPtr L
      else if isHorizontalWhitespace Ch then
        after_skip SkipIgnoredUnits (SkipWhitespace CurPtr (set_token (\<lambda>T. T\<lparr>lt_LeadingSpace := True\<rparr>) L))
      else if isdigit Ch then LexNumericConstant CurPtr L
      else if Ch = CHR ''L'' then lex_L CurPtr L
      else if isalnum Ch \<or> Ch = CHR ''_'' then LexIdentifier CurPtr L
      else if Ch = CHR ''$'' \<and> DollarIdents (Features L) then
        LexIdentifier CurPtr (Diag ext_dollar_in_identifier (CurPtr - 1) L)
      else if Ch = CHR 0x27 then LexCharConstant CurPtr L
      else if Ch = CHR 0x22 then LexStringLiteral False CurPtr L
      else if Ch = CHR ''.'' then lex_period CurPtr L
      else if Ch = CHR ''/'' then lex_slash CurPtr L
      else if Ch = CHR ''%'' then lex_percent CurPtr L
      else if Ch = CHR ''#'' then lex_hash CurPtr L
      else if Ch = CHR ''<'' \<and> ParsingFilename L then do {
        (_, SizeTmp) \<leftarrow> getCharAndSize L CurPtr;
        LexAngledStringLiteral (CurPtr + SizeTmp) L }
      else FormToken (lex_punctuator Ch CurPtr L))"

text \<open>One token from \<open>LexNextToken\<close> on.\<close>

definition lex_next :: "lexer \<Rightarrow> lex_outcome option" where
  "lex_next L0 = do {
     let L = set_token (\<lambda>T. T\<lparr>lt_NeedsCleaning := False, lt_LiteralData := None\<rparr>) L0;
     p \<leftarrow> skip_chars (\<lambda>c. c = CHR '' '' \<or> c = CHR 0x09) L (BufferPtr L);
     if p \<noteq> BufferPtr L \<and> isKeepWhitespaceMode L then Some (Lexed (FormTokenWithChars p tok_unknown L))
     else do {
       let L1 = (if p \<noteq> BufferPtr L then set_token (\<lambda>T. T\<lparr>lt_LeadingSpace := True\<rparr>) (L\<lparr>BufferPtr := p\<rparr>) else L);
       (Ch, CurPtr, L2) \<leftarrow> getAndAdvanceChar p L1;
       lex_switch Ch CurPtr L2 } }"

section \<open>Progress\<close>

text \<open>The lexer has moved to \<open>p\<close> or beyond, in the same buffer.\<close>

definition onward :: "nat \<Rightarrow> lexer \<Rightarrow> lexer \<Rightarrow> bool" where
  "onward p L L' \<longleftrightarrow> lx_Buffer L' = lx_Buffer L \<and> p \<le> BufferPtr L'"

lemma onward_mono: "onward q K L' \<Longrightarrow> p \<le> q \<Longrightarrow> lx_Buffer K = lx_Buffer L \<Longrightarrow> onward p L L'"
  by (simp add: onward_def)

lemma token_updates [simp]:
  "lx_Buffer (set_token f L) = lx_Buffer L" "BufferPtr (set_token f L) = BufferPtr L"
  "lx_Buffer (emit_diags ds L) = lx_Buffer L" "BufferPtr (emit_diags ds L) = BufferPtr L"
  "BufferPtr (Diag d p L) = BufferPtr L"
  "lx_Buffer (FormTokenWithChars p k L) = lx_Buffer L" "BufferPtr (FormTokenWithChars p k L) = p"
  by (simp_all add: set_token_def emit_diags_def Diag_def FormTokenWithChars_def)

lemma SkipWhitespace_onward: "SkipWhitespace p L = Some (b, L') \<Longrightarrow> onward p L L'"
proof (induction p L rule: SkipWhitespace.induct)
  case (1 p L)
  obtain q where q: "skip_chars isHorizontalWhitespace L p = Some q" "p \<le> q"
    using "1.prems" skip_chars_le by (subst (asm) SkipWhitespace.simps) (auto simp: bind_eq_Some_conv)
  obtain c where c: "char_at L q = Some c"
    using "1.prems" q by (subst (asm) SkipWhitespace.simps) (auto simp: bind_eq_Some_conv)
  show ?case
  proof (cases "newline c \<and> \<not> ParsingPreprocessorDirective L")
    case True
    then have "onward (q + 1) (set_token (\<lambda>T. T\<lparr>lt_StartOfLine := True, lt_LeadingSpace := False\<rparr>) L) L'"
      using "1.prems" "1.IH" q c by (subst (asm) SkipWhitespace.simps) auto
    then show ?thesis using q by (auto intro: onward_mono)
  next
    case False
    then show ?thesis using "1.prems" q c
      by (subst (asm) SkipWhitespace.simps) (auto simp: onward_def bind_eq_Some_conv Let_def split: if_splits)
  qed
qed

lemma bcpl_loop_onward: "bcpl_loop p L = Some (q, L') \<Longrightarrow> p \<le> q \<and> q \<le> BufferEnd L \<and> same_lexer L L'"
proof (induction p L rule: bcpl_loop.induct)
  case (1 p L)
  obtain o' c where o: "skip_chars bcpl_plain L p = Some o'" "p \<le> o'" "o' \<le> BufferEnd L" and c: "char_at L o' = Some c"
    using "1.prems" skip_chars_le by (subst (asm) bcpl_loop.simps) (auto simp: bind_eq_Some_conv)
  show ?case
  proof (cases "newline c")
    case True
    then show ?thesis using "1.prems" o c by (subst (asm) bcpl_loop.simps) auto
  next
    case False
    then obtain C r L1 where r: "bcpl_hard_char o' L = Some (C, r, L1)" 
      using "1.prems" o c by (subst (asm) bcpl_loop.simps) (auto simp: bind_eq_Some_conv)
    note R = bcpl_hard_char_read [OF r c False]
    obtain L2 where L2: "bcpl_escaped_newline o' r C L1 = Some L2"
      using "1.prems" o c False r by (subst (asm) bcpl_loop.simps) (auto simp: bind_eq_Some_conv)
    have same: "same_lexer L L2" using R(3) bcpl_escaped_newline_same [OF L2] by (rule same_lexer_trans)
    have step: "bcpl_loop p L = (if r = BufferEnd L2 + 1 then Some (r - 1, L2) else if newline C then Some (r, L2) else bcpl_loop r L2)"
      by (subst bcpl_loop.simps) (simp add: o c False r L2)
    show ?thesis
    proof (cases "r = BufferEnd L2 + 1 \<or> newline C")
      case True
      then show ?thesis using "1.prems" step R o same same_lexerD(1) [OF same] by (auto split: if_splits)
    next
      case False
      then have rec: "bcpl_loop r L2 = Some (q, L')" using "1.prems" step by simp
      have "r \<le> q \<and> q \<le> BufferEnd L2 \<and> same_lexer L2 L'"
        using "1.IH" [OF o(1) c \<open>\<not> newline c\<close> r refl refl L2] False rec by simp
      then show ?thesis using R o same same_lexerD(1) [OF same] same_lexer_trans by auto
    qed
  qed
qed

lemma SkipBCPLComment_onward: "SkipBCPLComment p L = Some (b, L') \<Longrightarrow> onward p L L'"
  by (auto simp: SkipBCPLComment_def SaveBCPLComment_def onward_def bind_eq_Some_conv Let_def same_lexerD split: if_splits
      dest!: bcpl_loop_onward)

lemma block_loop_onward: "block_loop C p L = Some (b, q, L') \<Longrightarrow> p \<le> q \<and> same_lexer L L'"
proof (induction C p L rule: block_loop.induct)
  case (1 C0 p0 L)
  obtain C1 p1 C r where s: "fast_scan C0 p0 L = Some (C1, p1)" "slow_scan C1 p1 L = Some (C, r)"
    using "1.prems" by (subst (asm) block_loop.simps) (auto simp: bind_eq_Some_conv)
  have le: "p0 \<le> r" using scans_le s by blast
  show ?case
  proof (cases "C = CHR ''/''")
    case True
    then obtain ended L1 where e: "ends_at_slash r L = Some (ended, L1)"
      using "1.prems" s by (subst (asm) block_loop.simps) (auto simp: bind_eq_Some_conv)
    note same = ends_at_slash_same [OF e]
    show ?thesis
    proof (cases ended)
      case True
      then show ?thesis using "1.prems" s e same le \<open>C = CHR ''/''\<close> by (subst (asm) block_loop.simps) auto
    next
      case False
      then obtain c where c: "char_at L1 r = Some c" "block_loop c (r + 1) L1 = Some (b, q, L')"
        using "1.prems" s e True by (subst (asm) block_loop.simps) (auto simp: bind_eq_Some_conv)
      then show ?thesis using "1.IH"(1) [OF s(1) refl s(2) refl True e refl False c] le same same_lexer_trans by auto
    qed
  next
    case False
    then show ?thesis using "1.prems" [unfolded block_loop.simps [of C0 p0 L]] s "1.IH"(2) [OF s(1) refl s(2) refl False] le
      by (auto simp: bind_eq_Some_conv split: if_splits)
  qed
qed

lemma unterminated_comment_onward: "unterminated_comment q L = (b, L') \<Longrightarrow> p < q \<Longrightarrow> onward p L L'"
  by (auto simp: unterminated_comment_def onward_def Let_def split: if_splits)

lemma finish_block_comment_onward: "finish_block_comment (e, q, L) = Some (b, L') \<Longrightarrow> p < q \<Longrightarrow> onward p L L'"
  using unterminated_comment_onward SkipWhitespace_onward
  by (fastforce simp: finish_block_comment_def onward_def bind_eq_Some_conv Let_def split: if_splits)

lemma SkipBlockComment_onward:
  assumes "SkipBlockComment p L = Some (b, L')"
  shows "onward p L L'"
proof -
  obtain C n where C: "getCharAndSize L p = Some (C, n)" using assms by (auto simp: SkipBlockComment_def bind_eq_Some_conv)
  note n = getCharAndSize_read(1) [OF C]
  show ?thesis
  proof (cases "C = NUL \<and> p + n = BufferEnd L + 1")
    case True
    then show ?thesis using assms C unterminated_comment_onward [of "p + n" L b L' p] n by (simp add: SkipBlockComment_def)
  next
    case False
    then obtain C1 p1 e q L1 where r: "block_loop C1 p1 L = Some (e, q, L1)" "finish_block_comment (e, q, L1) = Some (b, L')" "p < p1"
      using assms C n by (auto simp: SkipBlockComment_def bind_eq_Some_conv Let_def split: if_splits)
    show ?thesis using block_loop_onward [OF r(1)] finish_block_comment_onward [OF r(2), of p] r(3)
      by (auto simp: onward_def same_lexerD)
  qed
qed

section \<open>Tokens\<close>

lemma skip_chars_step:
  assumes "chars_at L p = Some s" "P (peek NUL s)" "peek NUL s \<noteq> NUL"
  shows "skip_chars P L p = skip_chars P L (p + 1)"
proof -
  obtain c r where s: "s = c # r" using assms(3) by (cases s) auto
  then have d: "drop p (lx_Buffer L) = c # r" using assms(1) by (simp add: chars_at_eq_Some)
  then have "p < BufferEnd L" by (cases "p < BufferEnd L") auto
  moreover have "drop (p + 1) (lx_Buffer L) = r" using d by (metis add.commute drop_drop drop_Suc_Cons drop0 One_nat_def plus_1_eq_Suc)
  ultimately show ?thesis using assms s by (simp add: skip_chars_def chars_at_def)
qed

lemma SkipWhitespace_step:
  assumes "chars_at L p = Some s" "isHorizontalWhitespace (peek NUL s)"
  shows "SkipWhitespace p L = SkipWhitespace (p + 1) L"
proof -
  have "peek NUL s \<noteq> NUL" using assms(2) by (auto simp: isHorizontalWhitespace_iff)
  then show ?thesis using skip_chars_step [where P = isHorizontalWhitespace, OF assms] by (subst (1 2) SkipWhitespace.simps) simp
qed

text \<open>\<open>SkipIgnoredUnits\<close>: comments and whitespace that may be skipped without the switch.\<close>

lemma chars_at_token [simp]:
  "chars_at (set_token f L) = chars_at L" "chars_at (emit_diags ds L) = chars_at L" "chars_at (Diag d p L) = chars_at L"
  by (simp_all add: chars_at_def fun_eq_iff)

lemma SkipWhitespace_here:
  assumes "SkipWhitespace p (set_token f L) = Some (b, L')" "chars_at L p = Some s" "isHorizontalWhitespace (peek NUL s)"
  shows "onward (p + 1) L L'"
  using SkipWhitespace_onward [of "p + 1" "set_token f L" b L'] SkipWhitespace_step [of "set_token f L" p s] assms
  by (simp add: onward_def)

function ignored_units :: "lexer \<Rightarrow> lex_outcome option" where
  "ignored_units L = do {
     s \<leftarrow> chars_at L (BufferPtr L);
     if take 2 s = ''//'' \<and> \<not> inKeepCommentMode L \<and> BCPLComment (Features L) then
       do { (_, L') \<leftarrow> SkipBCPLComment (BufferPtr L + 2) L; ignored_units L' }
     else if take 2 s = ''/*'' \<and> \<not> inKeepCommentMode L then
       do { (_, L') \<leftarrow> SkipBlockComment (BufferPtr L + 2) L; ignored_units L' }
     else if isHorizontalWhitespace (peek NUL s) then do {
       (formed, L') \<leftarrow> SkipWhitespace (BufferPtr L) (set_token (\<lambda>T. T\<lparr>lt_LeadingSpace := True\<rparr>) L);
       if formed then Some (Lexed L') else ignored_units L' }
     else Some (LexNextToken L) }"
  by pat_completeness auto
termination
proof -
  have less: "Suc (BufferEnd K) - BufferPtr K < Suc (BufferEnd L) - BufferPtr L"
    if "onward q L K" "BufferPtr L < q" "BufferPtr L \<le> BufferEnd L" for K L q
    using that by (auto simp: onward_def)
  show ?thesis
  proof (relation "measure (\<lambda>L. Suc (BufferEnd L) - BufferPtr L)", goal_cases)
    case (2 L s x b L')
    then show ?case using less [OF SkipBCPLComment_onward] by (auto simp: chars_at_eq_Some)
  next
    case (3 L s x b L')
    then show ?case using less [OF SkipBlockComment_onward] by (auto simp: chars_at_eq_Some)
  next
    case (4 L s x formed L')
    then show ?case using less [OF SkipWhitespace_here] by (auto simp: chars_at_eq_Some)
  qed simp
qed

declare ignored_units.simps [simp del]

text \<open>A round: a token, or what is skipped in front of the next one.\<close>

definition lex_round :: "lexer \<Rightarrow> lex_outcome option" where
  "lex_round L = do {
     r \<leftarrow> lex_next L;
     case r of SkipIgnoredUnits L' \<Rightarrow> ignored_units L' | _ \<Rightarrow> Some r }"

fun outcome_state :: "lex_outcome \<Rightarrow> lexer" where
  "outcome_state (Lexed L) = L"
| "outcome_state (LexedIdentifier L) = L"
| "outcome_state (LexedDirective L) = L"
| "outcome_state (LexedEndOfFile L) = L"
| "outcome_state (LexNextToken L) = L"
| "outcome_state (SkipIgnoredUnits L) = L"

text \<open>The outcomes after which lexing goes on.\<close>

fun goes_on :: "lex_outcome \<Rightarrow> bool" where
  "goes_on (LexNextToken L) = True"
| "goes_on (SkipIgnoredUnits L) = True"
| "goes_on _ = False"

lemma FormToken_stops: "FormToken r = Some out \<Longrightarrow> \<not> goes_on out"
  by (auto simp: FormToken_def)

lemma literals_stop:
  "LexIdentifier p L = Some out \<Longrightarrow> \<not> goes_on out"
  "LexNumericConstant p L = Some out \<Longrightarrow> \<not> goes_on out"
  "LexStringLiteral w p L = Some out \<Longrightarrow> \<not> goes_on out"
  "LexAngledStringLiteral p L = Some out \<Longrightarrow> \<not> goes_on out"
  "LexCharConstant p L = Some out \<Longrightarrow> \<not> goes_on out"
  "LexEndOfFile p L = Some out \<Longrightarrow> \<not> goes_on out"
  by (auto simp: LexIdentifier_def LexNumericConstant_def LexStringLiteral_def LexAngledStringLiteral_def LexCharConstant_def
      LexEndOfFile_def FinishIdentifier_def finish_literal_def bind_eq_Some_conv Let_def split: if_splits)

lemma hash_token_stops: "hash_token p L = Some out \<Longrightarrow> \<not> goes_on out"
  by (auto simp: hash_token_def dest!: FormToken_stops split: if_splits)

lemma punctuators_stop:
  "lex_hash p L = Some out \<Longrightarrow> \<not> goes_on out"
  "lex_percent p L = Some out \<Longrightarrow> \<not> goes_on out"
  "lex_period p L = Some out \<Longrightarrow> \<not> goes_on out"
  "lex_L p L = Some out \<Longrightarrow> \<not> goes_on out"
  unfolding lex_hash_def lex_percent_def lex_period_def lex_L_def
  by (auto elim!: bind_SomeE dest!: FormToken_stops hash_token_stops literals_stop split: if_splits option.splits)

lemma after_skip_onward:
  assumes "after_skip next r = Some out" "goes_on out" "next = LexNextToken \<or> next = SkipIgnoredUnits"
    "\<And>b L'. r = Some (b, L') \<Longrightarrow> onward p L L'"
  shows "onward p L (outcome_state out)"
  using assms by (auto simp: after_skip_def split: if_splits)

lemma lex_slash_onward:
  assumes "lex_slash p L = Some out" "goes_on out"
  shows "onward p L (outcome_state out)"
proof -
  obtain C n where C: "getCharAndSize L p = Some (C, n)" using assms(1) by (auto simp: lex_slash_def bind_eq_Some_conv)
  have *: "onward p L L'" if "ConsumeChar p n L = Some (q, K)" "onward q K L'" for q K L'
    using ConsumeChar_read [OF that(1) getCharAndSize_read(3) [OF C]] that(2) by (auto intro: onward_mono simp: same_lexerD)
  have line: "onward p L (outcome_state out)"
    if "ConsumeChar p n L = Some (q, K)" "after_skip SkipIgnoredUnits (SkipBCPLComment q K) = Some out" for q K
    using after_skip_onward [OF that(2) assms(2)] * [OF that(1)] SkipBCPLComment_onward by blast
  have block: "onward p L (outcome_state out)"
    if "ConsumeChar p n L = Some (q, K)" "after_skip LexNextToken (SkipBlockComment q K) = Some out" for q K
    using after_skip_onward [OF that(2) assms(2)] * [OF that(1)] SkipBlockComment_onward by blast
  show ?thesis using assms C unfolding lex_slash_def
    by (auto elim!: bind_SomeE split: if_splits dest!: FormToken_stops intro: line block)
qed

lemma lex_switch_onward:
  assumes "lex_switch Ch p L = Some out" "goes_on out"
  shows "onward p L (outcome_state out)"
proof -
  have ws: "onward p L L'" if "SkipWhitespace p (set_token f K) = Some (b, L')" "lx_Buffer K = lx_Buffer L" for f K b L'
    using SkipWhitespace_onward [OF that(1)] that(2) by (simp add: onward_def)
  have "onward p L (outcome_state out)" if "lex_NUL p L = Some out"
    using that assms(2) literals_stop(6) unfolding lex_NUL_def
    by (auto split: if_splits intro!: after_skip_onward [of _ _ out p L] intro: ws)
  moreover have "onward p L (outcome_state out)" if "lex_newline p L = Some out"
    using that assms(2) FormToken_stops unfolding lex_newline_def
    by (auto split: if_splits elim!: bind_SomeE intro!: after_skip_onward [of _ _ out p L] intro: ws)
  moreover have "onward p L (outcome_state out)"
    if "after_skip SkipIgnoredUnits (SkipWhitespace p (set_token (\<lambda>T. T\<lparr>lt_LeadingSpace := True\<rparr>) L)) = Some out"
    using that assms(2) by (auto intro!: after_skip_onward [of _ _ out p L] intro: ws)
  moreover note lex_slash_onward [OF _ assms(2), of p L]
  ultimately show ?thesis using assms
    unfolding lex_switch_def by (auto elim!: bind_SomeE dest!: FormToken_stops literals_stop punctuators_stop split: if_splits)
qed

lemma lex_next_onward:
  assumes "lex_next L = Some out" "goes_on out"
  shows "onward (BufferPtr L + 1) L (outcome_state out) \<and> BufferPtr L \<le> BufferEnd L"
proof -
  define K where "K = set_token (\<lambda>T. T\<lparr>lt_NeedsCleaning := False, lt_LiteralData := None\<rparr>) L"
  obtain p where p: "skip_chars (\<lambda>c. c = CHR '' '' \<or> c = CHR 0x09) K (BufferPtr K) = Some p"
    using assms(1) by (auto simp: lex_next_def K_def bind_eq_Some_conv Let_def)
  define L1 where "L1 = (if p \<noteq> BufferPtr K then set_token (\<lambda>T. T\<lparr>lt_LeadingSpace := True\<rparr>) (K\<lparr>BufferPtr := p\<rparr>) else K)"
  have buf: "lx_Buffer L1 = lx_Buffer L" "BufferPtr K = BufferPtr L" "lx_Buffer K = lx_Buffer L" by (simp_all add: L1_def K_def)
  obtain C q L2 where r: "getAndAdvanceChar p L1 = Some (C, q, L2)" "lex_switch C q L2 = Some out"
    using assms p by (auto simp: lex_next_def K_def [symmetric] L1_def [symmetric] bind_eq_Some_conv Let_def split: if_splits)
  note R = getAndAdvanceChar_read [OF r(1)]
  have "lx_Buffer L2 = lx_Buffer L" using same_lexerD(1) [OF R(3)] buf by simp
  moreover have "BufferPtr L \<le> p" "p \<le> BufferEnd L" using skip_chars_le [OF p] buf by auto
  ultimately show ?thesis using lex_switch_onward [OF r(2) assms(2)] R(1) by (auto simp: onward_def)
qed

lemma ignored_units_onward:
  "ignored_units L = Some out \<Longrightarrow> goes_on out \<Longrightarrow> onward (BufferPtr L) L (outcome_state out)"
proof (induction L rule: ignored_units.induct)
  case (1 L)
  obtain s where s: "chars_at L (BufferPtr L) = Some s"
    using "1.prems" by (subst (asm) ignored_units.simps) (auto simp: bind_eq_Some_conv)
  have step: "onward (BufferPtr L) L (outcome_state out)"
    if "onward q L K" "BufferPtr L \<le> q" "onward (BufferPtr K) K (outcome_state out)" for q K
    using that by (auto simp: onward_def)
  show ?case
    using "1.prems" [unfolded ignored_units.simps [of L]] s "1.IH"(1) [OF s] "1.IH"(2) [OF s] "1.IH"(3) [OF s]
      step [OF SkipBCPLComment_onward] step [OF SkipBlockComment_onward] step [OF SkipWhitespace_here [OF _ s]]
    by (auto simp: onward_def bind_eq_Some_conv split: if_splits)
qed

lemma lex_round_onward:
  assumes "lex_round L = Some (LexNextToken L')"
  shows "BufferPtr L < BufferPtr L' \<and> lx_Buffer L' = lx_Buffer L \<and> BufferPtr L \<le> BufferEnd L"
proof -
  obtain r where r: "lex_next L = Some r" using assms by (auto simp: lex_round_def bind_eq_Some_conv)
  show ?thesis using assms r lex_next_onward [OF r]
    by (cases r) (auto simp: lex_round_def onward_def dest!: ignored_units_onward)
qed

function LexTokenInternal :: "lexer \<Rightarrow> lex_outcome option" where
  "LexTokenInternal L = do {
     r \<leftarrow> lex_round L;
     case r of LexNextToken L' \<Rightarrow> LexTokenInternal L' | _ \<Rightarrow> Some r }"
  by pat_completeness auto
termination
  by (relation "measure (\<lambda>L. Suc (BufferEnd L) - BufferPtr L)") (auto dest!: lex_round_onward)

declare LexTokenInternal.simps [simp del]

section \<open>Entry points\<close>

definition Lex :: "lexer \<Rightarrow> lex_outcome option" where
  "Lex L =
     (let L1 = set_token startToken L
      in LexTokenInternal
           (if IsAtStartOfLine L1 then (set_token (\<lambda>T. T\<lparr>lt_StartOfLine := True\<rparr>) L1)\<lparr>IsAtStartOfLine := False\<rparr> else L1))"

definition LexFromRawLexer :: "lexer \<Rightarrow> (bool \<times> lexer) option" where
  "LexFromRawLexer L = do {
     asserting (LexingRawMode L);
     r \<leftarrow> Lex L;
     case r of Lexed L' \<Rightarrow> Some (BufferPtr L' = BufferEnd L', L') | _ \<Rightarrow> None }"

definition lexer_MeasureTokenLength :: "lexer_options \<Rightarrow> string \<Rightarrow> nat \<Rightarrow> nat option" where
  "lexer_MeasureTokenLength F buf Loc = do {
     (_, L) \<leftarrow> LexFromRawLexer (RawLexer F buf Loc);
     Some (lt_Length (lx_Result L)) }"

text \<open>1 if the next token is a left parenthesis, 0 if it is another, 2 if there is none.\<close>

definition isNextPPTokenLParen :: "lexer \<Rightarrow> (nat \<times> lexer) option" where
  "isNextPPTokenLParen L = do {
     asserting (\<not> LexingRawMode L);
     r \<leftarrow> LexTokenInternal (set_token startToken (L\<lparr>LexingRawMode := True\<rparr>));
     let L' = (outcome_state r)\<lparr>BufferPtr := BufferPtr L, LexingRawMode := False\<rparr>;
         Kind = lt_Kind (lx_Result L')
     in Some (if Kind = tok_eof then 2 else if Kind = tok_l_paren then 1 else 0, L'\<lparr>lx_Result := lx_Result L\<rparr>) }"

text \<open>\<^verbatim>\<open>Stringify\<close>: a backslash in front of every backslash and quote.\<close>

definition Stringify :: "bool \<Rightarrow> string \<Rightarrow> string" where
  "Stringify Charify Str =
     (let Quote = (if Charify then CHR 0x27 else CHR 0x22)
      in concat (map (\<lambda>c. if c = CHR 0x5C \<or> c = Quote then [CHR 0x5C, c] else [c]) Str))"

function read_line :: "nat \<Rightarrow> lexer \<Rightarrow> (string \<times> nat \<times> lexer) option" where
  "read_line CurPtr L = do {
     (Ch, p, L1) \<leftarrow> getAndAdvanceChar CurPtr L;
     if newline Ch \<or> Ch = NUL \<and> p - 1 = BufferEnd L1 then do {
       c \<leftarrow> char_before L1 p;
       asserting (c = Ch);
       Some ([], p - 1, L1) }
     else do {
       (Line, q, L2) \<leftarrow> read_line p L1;
       Some (Ch # Line, q, L2) } }"
  by pat_completeness auto
termination
  by (relation "measure (\<lambda>(p, L). Suc (BufferEnd L) + 1 - p)") (auto dest!: advance_smaller)

declare read_line.simps [simp del]

definition ReadToEndOfLine :: "lexer \<Rightarrow> (string \<times> lexer) option" where
  "ReadToEndOfLine L = do {
     asserting (ParsingPreprocessorDirective L \<and> \<not> ParsingFilename L);
     (Line, p, L1) \<leftarrow> read_line (BufferPtr L) L;
     r \<leftarrow> Lex (L1\<lparr>BufferPtr := p\<rparr>);
     let L2 = outcome_state r;
     asserting (lt_Kind (lx_Result L2) = tok_eom);
     Some (Line, L2\<lparr>lx_Result := lx_Result L\<rparr>) }"

end
