(* ===== verification/LexerReads.thy ===== *)
theory LexerReads
  imports Lexer
begin

text \<open>
  What the lexer reads, over the decoded text: the characters with trigraphs replaced and escaped newlines gone.
  Where peeking and reading decode alike (\<open>trigraphs_ok\<close>), every read is a step over this text, a token needs
  cleaning exactly when one of its characters is longer than one byte, and its spelling is its part of the
  decoded text.
\<close>

section \<open>Decoding\<close>

abbreviation decode :: "lexer_options \<Rightarrow> string \<Rightarrow> char \<times> nat" where
  "decode \<equiv> getCharAndSizeNoWarn"

lemma decode_slow: "getCharAndSizeSlowNoWarn F s = decode F s"
proof (cases "isObviouslySimpleCharacter (peek NUL s)")
  case True
  then show ?thesis
    by (subst getCharAndSizeSlowNoWarn.simps)
       (auto simp: getCharAndSizeNoWarn_def isObviouslySimpleCharacter_def Let_def dest!: at_trigraph_Cons)
qed (simp add: getCharAndSizeNoWarn_def)

text \<open>Reading with a token also tells whether the character is longer than a byte.\<close>

lemma slow_cleaning: "getCharAndSizeSlow F raw True p s = (C, n, cl, ds) \<Longrightarrow> cl \<longleftrightarrow> n \<noteq> 1"
proof -
  assume r: "getCharAndSizeSlow F raw True p s = (C, n, cl, ds)"
  let ?T = "if at_trigraph s then DecodeTrigraphChar F raw True p (peek NUL (drop 2 s)) else (NUL, [])"
  obtain C0 ds0 where T: "?T = (C0, ds0)" by (cases ?T)
  define m where "m = (if peek NUL s = CHR 0x5C then 1 else 3 :: nat)"
  have m: "m = 1 \<or> m = 3" by (simp add: m_def)
  note eq = r [unfolded getCharAndSizeSlow.simps [of F raw True p s] T, folded m_def]
  show ?thesis
  proof (cases "peek NUL s = CHR 0x5C \<or> C0 = CHR 0x5C")
    case False
    then show ?thesis using eq by (auto simp: Let_def split: if_splits)
  next
    case True
    show ?thesis
    proof (cases "escaped_newline (drop m s)")
      case None
      then show ?thesis using eq True m by (auto simp: Let_def)
    next
      case (Some k)
      then have "1 < n" "cl" using eq True m escaped_newline_le [OF Some] by (auto simp: Let_def split: prod.splits)
      then show ?thesis by simp
    qed
  qed
qed

text \<open>A text in which no backslash, and no trigraph for one, has nothing but whitespace behind it.\<close>

definition blank :: "string \<Rightarrow> bool" where
  "blank s \<longleftrightarrow> list_all isWhitespace s"

fun well_ended :: "lexer_options \<Rightarrow> string \<Rightarrow> bool" where
  "well_ended F [] = True"
| "well_ended F (c # s) =
     (\<not> (c = CHR 0x5C \<and> blank s) \<and> \<not> (Trigraphs F \<and> take 3 (c # s) = ''??/'' \<and> blank (drop 2 s)) \<and> well_ended F s)"

lemma well_ended_drop: "well_ended F s \<Longrightarrow> well_ended F (drop n s)"
proof (induction n arbitrary: s)
  case (Suc n)
  then show ?case by (cases s) auto
qed simp

lemma escaped_newline_blank: "escaped_newline s = Some k \<Longrightarrow> drop k s = [] \<Longrightarrow> blank s"
proof (induction s arbitrary: k rule: escaped_newline.induct)
  case (2 c s)
  then show ?case
    by (cases s) (auto simp: blank_def isWhitespace_iff peek_def split: if_splits)
qed simp

text \<open>On such a text no character but the last null reaches the end, and behind a backslash there is another.\<close>

lemma decode_inside:
  assumes "well_ended F s" "s \<noteq> []"
  shows "snd (decode F s) \<le> length s \<and> (fst (decode F s) = CHR 0x5C \<longrightarrow> snd (decode F s) < length s)"
  unfolding decode_slow [symmetric] using assms
proof (induction F s rule: getCharAndSizeSlowNoWarn.induct)
  case (1 F s)
  let ?C = "if Trigraphs F \<and> at_trigraph s then GetTrigraphCharForLetter (peek NUL (drop 2 s)) else NUL"
  define n where "n = (if peek NUL s = CHR 0x5C then 1 else 3 :: nat)"
  note eq = getCharAndSizeSlowNoWarn.simps [of F s, folded n_def]
  have C: "?C \<noteq> NUL \<Longrightarrow> 3 \<le> length s"
    by (cases s; cases "tl s"; cases "tl (tl s)") (auto simp: at_trigraph_def GetTrigraphCharForLetter_def split: if_splits)
  show ?case
  proof (cases "peek NUL s = CHR 0x5C \<or> ?C = CHR 0x5C")
    case False
    then show ?thesis using C 1(3) unfolding eq by (cases s) (auto simp: Let_def)
  next
    case True
    then have n: "n \<le> length s" using C 1(3) by (cases s) (auto simp: n_def)
    have "\<not> blank (drop n s)"
    proof (cases "peek NUL s = CHR 0x5C")
      case True
      then show ?thesis using 1(2,3) by (cases s) (auto simp: n_def)
    next
      case False
      then have "Trigraphs F" "at_trigraph s" "GetTrigraphCharForLetter (peek NUL (drop 2 s)) = CHR 0x5C"
        using True by (auto split: if_splits)
      then obtain r where "s = CHR ''?'' # CHR ''?'' # CHR ''/'' # r"
        by (cases s; cases "tl s"; cases "tl (tl s)") (auto simp: at_trigraph_def GetTrigraphCharForLetter_def split: if_splits)
      then show ?thesis using 1(2) False \<open>Trigraphs F\<close> by (auto simp: n_def)
    qed
    show ?thesis
    proof (cases "escaped_newline (drop n s)")
      case None
      moreover have "drop n s \<noteq> []" using \<open>\<not> blank (drop n s)\<close> by (auto simp: blank_def)
      ultimately show ?thesis using True unfolding eq by (simp add: Let_def)
    next
      case (Some k)
      have ne: "drop (n + k) s \<noteq> []" using escaped_newline_blank [OF Some] \<open>\<not> blank (drop n s)\<close> by (auto simp: add.commute)
      have "snd (getCharAndSizeSlowNoWarn F (drop (n + k) s)) \<le> length (drop (n + k) s) \<and>
          (fst (getCharAndSizeSlowNoWarn F (drop (n + k) s)) = CHR 0x5C \<longrightarrow>
           snd (getCharAndSizeSlowNoWarn F (drop (n + k) s)) < length (drop (n + k) s))"
        using 1(1) [OF refl True n_def Some] well_ended_drop [OF 1(2)] ne by blast
      then show ?thesis using True Some ne unfolding eq by (auto simp: Let_def split: prod.splits)
    qed
  qed
qed

section \<open>Reads\<close>

text \<open>The state after reads: the diagnostics may be more, and the token may need cleaning.\<close>

definition reads :: "bool \<Rightarrow> lexer \<Rightarrow> lexer \<Rightarrow> bool" where
  "reads cl L L' \<longleftrightarrow> (\<exists>ds. L' = note_read cl ds L)"

lemma note_read_nothing [simp]: "note_read False [] L = L"
  by (simp add: note_read_def emit_diags_def set_token_def)

lemma reads_refl [simp]: "reads False L L"
  unfolding reads_def by (rule exI [of _ "[]"]) simp

lemma reads_trans: "reads c L L' \<Longrightarrow> reads d L' L'' \<Longrightarrow> reads (c \<or> d) L L''"
  unfolding reads_def by (auto simp: note_read_def emit_diags_def set_token_def disj_assoc)

lemma reads_Diag: "reads c L L' \<Longrightarrow> reads c L (Diag d p L')"
  unfolding reads_def by (auto simp: note_read_def emit_diags_def set_token_def Diag_def)

lemma reads_same: "reads c L L' \<Longrightarrow> same_lexer L L'"
  by (auto simp: reads_def)

lemma reads_token: "reads c L L' \<Longrightarrow> lx_Result L' = (lx_Result L)\<lparr>lt_NeedsCleaning := lt_NeedsCleaning (lx_Result L) \<or> c\<rparr>"
  by (auto simp: reads_def note_read_def emit_diags_def set_token_def)

text \<open>The lexers on whose text peeking and reading decode alike.\<close>

abbreviation exact :: "lexer \<Rightarrow> bool" where
  "exact L \<equiv> trigraphs_ok (Features L) (lx_Buffer L)"

abbreviation decode_at :: "lexer \<Rightarrow> nat \<Rightarrow> char \<times> nat" where
  "decode_at L p \<equiv> decode (Features L) (drop p (lx_Buffer L))"

lemma getCharAndSize_decode:
  assumes "exact L" "p \<le> BufferEnd L"
  shows "getCharAndSize L p = Some (decode_at L p)"
  using assms slow_NoWarn [of False "Features L" "drop p (lx_Buffer L)" "LexingRawMode L" p] trigraphs_ok_drop
  by (auto simp: getCharAndSize_def chars_at_def getCharAndSizeNoWarn_def)

lemma getAndAdvanceChar_decode:
  assumes "p \<le> BufferEnd L"
  shows "\<exists>L'. getAndAdvanceChar p L = Some (fst (decode_at L p), p + snd (decode_at L p), L') \<and> reads (snd (decode_at L p) \<noteq> 1) L L'"
proof (cases "isObviouslySimpleCharacter (peek NUL (drop p (lx_Buffer L)))")
  case True
  then show ?thesis using assms by (auto simp: getAndAdvanceChar_def chars_at_def getCharAndSizeNoWarn_def)
next
  case False
  let ?s = "drop p (lx_Buffer L)"
  obtain cl ds where r: "getCharAndSizeSlow (Features L) (LexingRawMode L) True p ?s = (fst (decode_at L p), snd (decode_at L p), cl, ds)"
    using slow_NoWarn [of True "Features L" ?s "LexingRawMode L" p] by (auto simp: decode_slow)
  then show ?thesis using assms False slow_cleaning [OF r]
    by (auto simp: getAndAdvanceChar_def chars_at_def reads_def)
qed

lemma ConsumeChar_decode:
  assumes "p \<le> BufferEnd L"
  shows "\<exists>L'. ConsumeChar p (snd (decode_at L p)) L = Some (p + snd (decode_at L p), L') \<and> reads (snd (decode_at L p) \<noteq> 1) L L'"
proof (cases "snd (decode_at L p) = 1")
  case True
  then show ?thesis by (auto simp: ConsumeChar_def)
next
  case False
  let ?s = "drop p (lx_Buffer L)"
  obtain cl ds where r: "getCharAndSizeSlow (Features L) (LexingRawMode L) True p ?s = (fst (decode_at L p), snd (decode_at L p), cl, ds)"
    using slow_NoWarn [of True "Features L" ?s "LexingRawMode L" p] by (auto simp: decode_slow)
  then show ?thesis using assms False slow_cleaning [OF r] by (auto simp: ConsumeChar_def chars_at_def reads_def)
qed

section \<open>The decoded text\<close>

function phase2 :: "lexer_options \<Rightarrow> string \<Rightarrow> string" where
  "phase2 F s = (if snd (decode F s) \<le> length s then fst (decode F s) # phase2 F (drop (snd (decode F s)) s) else [])"
  by pat_completeness auto
termination
proof (relation "measure (\<lambda>(F, s). length s)", goal_cases)
  case (2 F s)
  then show ?case using NoWarn_size [of F s "fst (decode F s)" "snd (decode F s)"] by simp
qed simp

declare phase2.simps [simp del]

lemma decode_pos: "0 < snd (decode F s)"
  using NoWarn_size [of F s "fst (decode F s)" "snd (decode F s)"] by simp

lemma decode_real: "fst (decode F s) \<noteq> NUL \<Longrightarrow> snd (decode F s) \<le> length s"
proof -
  assume "fst (decode F s) \<noteq> NUL"
  then show ?thesis
    using slow_NoWarn [of True F s True 0] slow_size [of F True True 0 s] peek_size [of s]
    by (auto simp: decode_slow)
qed

lemma decode_byte: "snd (decode F s) = 1 \<Longrightarrow> fst (decode F s) = peek NUL s"
proof -
  assume "snd (decode F s) = 1"
  then have r: "snd (getCharAndSizeSlowNoWarn F s) = 1" by (simp add: decode_slow)
  define m where "m = (if peek NUL s = CHR 0x5C then 1 else 3 :: nat)"
  have "fst (getCharAndSizeSlowNoWarn F s) = peek NUL s"
    using r unfolding getCharAndSizeSlowNoWarn.simps [of F s, folded m_def] 
    by (auto simp: Let_def m_def split: if_splits option.splits prod.splits dest!: escaped_newline_le)
  then show ?thesis by (simp add: decode_slow)
qed

text \<open>The decoded text from a position on starts with the character there, unless it is the end.\<close>

lemma phase2_at:
  assumes "fst (decode F s) \<noteq> NUL"
  shows "phase2 F s = fst (decode F s) # phase2 F (drop (snd (decode F s)) s)"
  using decode_real [OF assms] by (subst phase2.simps) simp

lemma phase2_stop: "\<not> Q (fst (decode F s)) \<Longrightarrow> takeWhile Q (phase2 F s) = []"
  by (subst phase2.simps) simp

section \<open>Spelling\<close>

lemma clean_chars_cong:
  "lx_Buffer L' = lx_Buffer L \<Longrightarrow> Features L' = Features L \<Longrightarrow> clean_chars L' p e = clean_chars L p e"
proof (induction L p e rule: clean_chars.induct)
  case (1 L p e)
  have s: "chars_at L' p = chars_at L p" using "1.prems" by (simp add: chars_at_def)
  show ?case
  proof (cases "p = e \<or> chars_at L p = None")
    case False
    then obtain s where "chars_at L p = Some s" by auto
    then show ?thesis using False s 1 by (subst (1 2) clean_chars.simps) (auto split: prod.splits)
  qed (subst (1 2) clean_chars.simps; auto simp: s)
qed

lemma clean_chars_same: "same_lexer L L' \<Longrightarrow> clean_chars L' p e = clean_chars L p e"
  by (rule clean_chars_cong) (simp_all add: same_lexerD)

text \<open>
  From \<open>p\<close> to \<open>q\<close> the lexer has read the characters \<open>cs\<close>, and its token needs cleaning if they are fewer than
  the bytes.
\<close>

definition scanned :: "lexer \<Rightarrow> nat \<Rightarrow> nat \<Rightarrow> lexer \<Rightarrow> string \<Rightarrow> bool" where
  "scanned L p q L' cs \<longleftrightarrow> p \<le> q \<and> q \<le> BufferEnd L \<and> length cs \<le> q - p \<and> clean_chars L p q = Some cs \<and>
     (length cs = q - p \<longrightarrow> cs = take (q - p) (drop p (lx_Buffer L))) \<and> reads (length cs \<noteq> q - p) L L'"

lemma scanned_refl: "p \<le> BufferEnd L \<Longrightarrow> scanned L p p L []"
  by (simp add: scanned_def clean_chars.simps)

lemma scanned_same: "scanned L p q L' cs \<Longrightarrow> same_lexer L L'"
  by (auto simp: scanned_def dest: reads_same)

lemma scanned_step:
  assumes "p \<le> BufferEnd L" "reads (snd (decode_at L p) \<noteq> 1) L L1" "scanned L1 (p + snd (decode_at L p)) q L2 cs"
  shows "scanned L p q L2 (fst (decode_at L p) # cs)"
proof -
  let ?n = "snd (decode_at L p)"
  have n: "0 < ?n" by (rule decode_pos)
  note same = reads_same [OF assms(2)]
  have s: "p + ?n \<le> q" "q \<le> BufferEnd L" "length cs \<le> q - (p + ?n)" "clean_chars L (p + ?n) q = Some cs"
    "length cs = q - (p + ?n) \<longrightarrow> cs = take (q - (p + ?n)) (drop (p + ?n) (lx_Buffer L))"
    "reads (length cs \<noteq> q - (p + ?n)) L1 L2"
    using assms(3) clean_chars_same [OF same] by (auto simp: scanned_def same_lexerD [OF same])
  have "clean_chars L p q = Some (fst (decode_at L p) # cs)"
    using s(1,4) n assms(1) by (subst clean_chars.simps) (auto simp: chars_at_def split: prod.splits)
  moreover have "(length (fst (decode_at L p) # cs) = q - p) = (?n = 1 \<and> length cs = q - (p + ?n))"
    using s(1,3) n by auto
  moreover have "fst (decode_at L p) # cs = take (q - p) (drop p (lx_Buffer L))" if "?n = 1" "length cs = q - (p + ?n)"
  proof -
    have "drop p (lx_Buffer L) = lx_Buffer L ! p # drop (Suc p) (lx_Buffer L)" using s(1,2) n by (intro Cons_nth_drop_Suc [symmetric]) simp
    moreover have "q - p = Suc (q - Suc p)" using s(1) n by simp
    ultimately show ?thesis using decode_byte [OF that(1)] s(5) that by simp
  qed
  moreover have "length (fst (decode_at L p) # cs) \<le> q - p" "p \<le> q" using s(1,3) n by auto
  ultimately show ?thesis using s(2) reads_trans [OF assms(2) s(6)] unfolding scanned_def by auto
qed

text \<open>The spelling of a token formed from what was scanned since its start.\<close>

lemma getSpelling_scanned:
  assumes "scanned L (BufferPtr L) q L' cs" "\<not> lt_NeedsCleaning (lx_Result L)"
  shows "getSpelling (FormTokenWithChars q Kind L') = Some cs"
proof -
  let ?L = "FormTokenWithChars q Kind L'"
  have r: "reads (length cs \<noteq> q - BufferPtr L) L L'" using assms(1) by (simp add: scanned_def)
  note same = reads_same [OF r]
  have f: "lt_Loc (lx_Result ?L) = BufferPtr L" "lt_Length (lx_Result ?L) = q - BufferPtr L" "lx_Buffer ?L = lx_Buffer L"
    "lt_NeedsCleaning (lx_Result ?L) \<longleftrightarrow> length cs \<noteq> q - BufferPtr L"
    using reads_token [OF r] assms(2) by (simp_all add: FormTokenWithChars_def set_token_def same_lexerD [OF same])
  have c: "clean_chars ?L p e = clean_chars L p e" for p e
    by (rule clean_chars_cong) (simp_all add: FormTokenWithChars_def set_token_def same_lexerD [OF same])
  show ?thesis using assms(1) f c by (auto simp: getSpelling_def scanned_def)
qed

end
