(* ===== verification/LexerTokens.thy ===== *)
theory LexerTokens
  imports LexerReads NumericLiteral
begin

text \<open>
  Identifiers and numbers are munched maximally: their spelling is the longest part of the decoded text, from the start of
  the token, that is an identifier, or a preprocessing number. Both languages grow by one character at a time, from
  a start, by a condition on the last character and the next.
\<close>

section \<open>Languages that grow by a character\<close>








section \<open>Identifiers\<close>

definition id_char :: "lexer_options \<Rightarrow> char \<Rightarrow> bool" where
  "id_char F c \<longleftrightarrow> isIdentifierBody c \<or> c = CHR ''$'' \<and> DollarIdents F"









lemma id_char_NUL [simp]: "\<not> id_char F NUL"
  by (simp add: id_char_def)







section \<open>Numbers\<close>

text \<open>The letters behind which a number goes on with a sign.\<close>

definition exponent_letter :: "lexer_options \<Rightarrow> char \<Rightarrow> bool" where
  "exponent_letter F c \<longleftrightarrow> is_e c \<or> is_p c \<and> (HexFloats F \<or> \<not> NoExtensions F)"

definition number_goes_on :: "lexer_options \<Rightarrow> char \<Rightarrow> char \<Rightarrow> bool" where
  "number_goes_on F l c \<longleftrightarrow> isNumberBody c \<or> (c = CHR ''+'' \<or> c = CHR ''-'') \<and> exponent_letter F l"




lemma number_goes_on_NUL [simp]: "\<not> number_goes_on F l NUL"
  by (simp add: number_goes_on_def)



section \<open>The start of a token\<close>

















section \<open>Maximal munch\<close>





end
