(* ===== verification/LexerInside.thy ===== *)
theory LexerInside
  imports LexerReads
begin

text \<open>
  On a text that does not end in a backslash, or in one and blanks, reads stay inside the buffer, and the functions that lex
  identifiers, numbers and literals return and deliver a token inside it.
\<close>

section \<open>Reads inside the buffer\<close>

definition tidy :: "lexer \<Rightarrow> bool" where
  "tidy L \<longleftrightarrow> exact L \<and> well_ended (Features L) (lx_Buffer L)"

text \<open>The fields a run goes by, which it keeps unless it ends a directive.\<close>

definition similar :: "lexer \<Rightarrow> lexer \<Rightarrow> bool" where
  "similar L L' \<longleftrightarrow> lx_Buffer L' = lx_Buffer L \<and> Trigraphs (Features L') = Trigraphs (Features L) \<and>
     ParsingFilename L' = ParsingFilename L \<and> LexingRawMode L' = LexingRawMode L \<and>
     ParsingPreprocessorDirective L' = ParsingPreprocessorDirective L \<and> ExtendedTokenMode L' = ExtendedTokenMode L \<and>
     lx_VectorUnit L' = lx_VectorUnit L"

lemma well_ended_options: "Trigraphs G = Trigraphs F \<Longrightarrow> well_ended G s = well_ended F s"
  by (induction s) (simp_all only: well_ended.simps)

lemma similar_tidy: "similar L L' \<Longrightarrow> tidy L' = tidy L"
  using well_ended_options [of "Features L'" "Features L"] by (simp add: similar_def tidy_def trigraphs_ok_def)

lemma similar_refl [simp]: "similar L L"
  by (simp add: similar_def)

lemma similar_trans [trans]: "similar L L' \<Longrightarrow> similar L' L'' \<Longrightarrow> similar L L''"
  by (simp add: similar_def)

lemma same_similar: "same_lexer L L' \<Longrightarrow> similar L L'"
  by (simp add: similar_def same_lexerD)

lemma similar_updates [simp]:
  "similar L (set_token f K) \<longleftrightarrow> similar L K" "similar L (emit_diags ds K) \<longleftrightarrow> similar L K"
  "similar L (Diag d p K) \<longleftrightarrow> similar L K" "similar L (K\<lparr>BufferPtr := q\<rparr>) \<longleftrightarrow> similar L K"
  by (simp_all add: similar_def set_token_def emit_diags_def Diag_def)

text \<open>A character inside the buffer ends inside it, and there is another one behind a backslash.\<close>

definition inside :: "lexer \<Rightarrow> nat \<Rightarrow> char \<Rightarrow> nat \<Rightarrow> bool" where
  "inside L p C q \<longleftrightarrow> p < q \<and> (q \<le> BufferEnd L \<and> p < BufferEnd L \<or> p = BufferEnd L \<and> q = p + 1 \<and> C = NUL) \<and>
     (C = CHR 0x5C \<longrightarrow> q < BufferEnd L)"

lemma decode_at_inside:
  assumes "tidy L" "p \<le> BufferEnd L" "decode_at L p = (C, n)"
  shows "inside L p C (p + n)"
proof (cases "p = BufferEnd L")
  case True
  then have "decode_at L p = (NUL, 1)" by (simp add: getCharAndSizeNoWarn_def isObviouslySimpleCharacter_def)
  then show ?thesis using assms True by (auto simp: inside_def)
next
  case False
  moreover have "n \<le> BufferEnd L - p" "C = CHR 0x5C \<Longrightarrow> n < BufferEnd L - p"
    using decode_inside [of "Features L" "drop p (lx_Buffer L)"] well_ended_drop assms False by (auto simp: tidy_def)
  moreover have "0 < n" using decode_pos [of "Features L" "drop p (lx_Buffer L)"] assms(3) by simp
  ultimately show ?thesis using assms(2) by (auto simp: inside_def)
qed

lemma advance_inside:
  assumes "tidy L" "p \<le> BufferEnd L"
  obtains C q L' where "getAndAdvanceChar p L = Some (C, q, L')" "same_lexer L L'" "inside L p C q" "tidy L'"
proof -
  obtain C n where D: "decode_at L p = (C, n)" by (cases "decode_at L p")
  obtain L' where L': "getAndAdvanceChar p L = Some (C, p + n, L')" "reads (n \<noteq> 1) L L'"
    using getAndAdvanceChar_decode [OF assms(2)] D by auto
  note same = reads_same [OF L'(2)]
  show thesis using that [OF L'(1) same decode_at_inside [OF assms D]] similar_tidy [OF same_similar [OF same]] assms(1) by simp
qed

lemma size_inside:
  assumes "tidy L" "p \<le> BufferEnd L"
  obtains C n where "getCharAndSize L p = Some (C, n)" "inside L p C (p + n)" "decode_at L p = (C, n)"
proof -
  obtain C n where D: "decode_at L p = (C, n)" by (cases "decode_at L p")
  have "getCharAndSize L p = Some (C, n)" using getCharAndSize_decode [of L p] assms D by (simp add: tidy_def)
  then show thesis using that decode_at_inside [OF assms D] D by blast
qed

lemma consume_inside:
  assumes "decode_at L p = (C, n)" "p \<le> BufferEnd L" "same_lexer L K"
  obtains L' where "ConsumeChar p n K = Some (p + n, L')" "same_lexer L L'"
proof -
  obtain L' where L': "ConsumeChar p n K = Some (p + n, L')" "reads (n \<noteq> 1) K L'"
    using ConsumeChar_decode [of p K] same_lexerD(1,2) [OF assms(3)] assms(1,2) by auto
  show thesis using that [OF L'(1) same_lexer_trans [OF assms(3) reads_same [OF L'(2)]]] .
qed

lemma inside_real: "inside L p C q \<Longrightarrow> C \<noteq> NUL \<Longrightarrow> q \<le> BufferEnd L \<and> p < q"
  by (auto simp: inside_def)

lemma same_tidy: "same_lexer L L' \<Longrightarrow> tidy L' = tidy L"
  by (rule similar_tidy [OF same_similar])

lemma inside_cong: "lx_Buffer L' = lx_Buffer L \<Longrightarrow> inside L' = inside L"
  by (simp add: inside_def fun_eq_iff)

text \<open>A character that no trigraph stands for is the last byte of what it is read from.\<close>

definition no_trigraph_value :: "char \<Rightarrow> bool" where
  "no_trigraph_value C \<longleftrightarrow> C \<notin> {CHR ''#'', CHR '']'', CHR ''['', CHR ''|'', CHR 0x5E, CHR ''}'', CHR 0x5C, CHR ''{'', CHR ''~'', NUL}"

lemma decode_last_byte:
  assumes "decode F s = (C, n)" "no_trigraph_value C"
  shows "n \<le> length s \<and> s ! (n - 1) = C"
proof -
  have T: "GetTrigraphCharForLetter l = C \<longleftrightarrow> False" for l
    using assms(2) by (auto simp: GetTrigraphCharForLetter_def no_trigraph_value_def)
  have "n \<le> length s \<and> s ! (n - 1) = C" if "getCharAndSizeSlowNoWarn F s = (C, n)" for n
    using that
  proof (induction F s arbitrary: n rule: getCharAndSizeSlowNoWarn.induct)
    case (1 F s)
    let ?C = "if Trigraphs F \<and> at_trigraph s then GetTrigraphCharForLetter (peek NUL (drop 2 s)) else NUL"
    define m where "m = (if peek NUL s = CHR 0x5C then 1 else 3 :: nat)"
    note eq = getCharAndSizeSlowNoWarn.simps [of F s, folded m_def]
    have C: "C \<noteq> CHR 0x5C" "C \<noteq> NUL" using assms(2) by (auto simp: no_trigraph_value_def)
    show ?case
    proof (cases "peek NUL s = CHR 0x5C \<or> ?C = CHR 0x5C")
      case False
      then show ?thesis using 1(2) T C unfolding eq by (cases s) (auto simp: Let_def split: if_splits)
    next
      case True
      then obtain k where k: "escaped_newline (drop m s) = Some k" using 1(2) C unfolding eq by (auto simp: Let_def split: option.splits)
      obtain D j where r: "getCharAndSizeSlowNoWarn F (drop (m + k) s) = (D, j)" by (cases "getCharAndSizeSlowNoWarn F (drop (m + k) s)")
      have n: "D = C" "n = m + k + j" using 1(2) True k r unfolding eq by (auto simp: Let_def)
      have "j \<le> length (drop (m + k) s) \<and> drop (m + k) s ! (j - 1) = C"
        using 1(1) [OF refl True m_def k] r n by simp
      moreover have "0 < j" using r decode_pos [of F "drop (m + k) s"] by (simp add: decode_slow)
      ultimately show ?thesis using n C by (cases "m + k \<le> length s") (auto simp: add.assoc Nat.add_diff_assoc)
    qed
  qed
  then show ?thesis using assms(1) by (simp add: decode_slow)
qed

lemma decode_at_last:
  assumes "decode_at L p = (C, n)" "no_trigraph_value C" "p \<le> BufferEnd L"
  shows "p + n \<le> BufferEnd L \<and> 0 < n \<and> lx_Buffer L ! (p + n - 1) = C"
  using decode_last_byte [OF assms(1,2)] decode_pos [of "Features L" "drop p (lx_Buffer L)"] assms(1,3)
  by (auto simp: Nat.add_diff_assoc)

section \<open>Delivered tokens\<close>

text \<open>The token fills what the lexer has moved over, the modes are as they were, and only the end of the buffer is the token that says so.\<close>

definition formed :: "lexer \<Rightarrow> lexer \<Rightarrow> bool" where
  "formed L L' \<longleftrightarrow> lt_Loc (lx_Result L') = BufferPtr L \<and> lt_Length (lx_Result L') = BufferPtr L' - BufferPtr L \<and> similar L L' \<and>
     (lt_Kind (lx_Result L') = tok_eof \<longrightarrow> BufferPtr L = BufferEnd L)"

definition delivered :: "nat \<Rightarrow> lexer \<Rightarrow> lex_outcome option \<Rightarrow> bool" where
  "delivered q L r \<longleftrightarrow> (\<exists>out. r = Some out \<and> lx_Buffer (outcome_state out) = lx_Buffer L \<and> q \<le> BufferPtr (outcome_state out) \<and>
     BufferPtr (outcome_state out) \<le> BufferEnd L \<and> (goes_on out \<longrightarrow> similar L (outcome_state out)) \<and>
     (isKeepWhitespaceMode L \<longrightarrow> (\<exists>L'. out = Lexed L' \<and> formed L L')))"

text \<open>What the modes exclude.\<close>

definition ready :: "lexer \<Rightarrow> bool" where
  "ready L \<longleftrightarrow> tidy L \<and> lx_VectorUnit L \<and> (isKeepWhitespaceMode L \<longrightarrow> LexingRawMode L) \<and>
     (inKeepCommentMode L \<longrightarrow> \<not> ParsingPreprocessorDirective L) \<and>
     (ParsingFilename L \<longrightarrow> lx_Buffer L = [] \<or> last (lx_Buffer L) \<noteq> CHR ''<'')"

lemma ready_tidy: "ready L \<Longrightarrow> tidy L"
  by (simp add: ready_def)

lemma similar_ready: "similar L L' \<Longrightarrow> ready L' = ready L"
proof -
  assume s: "similar L L'"
  show ?thesis using similar_tidy [OF s] s by (simp add: ready_def similar_def isKeepWhitespaceMode_def inKeepCommentMode_def)
qed

lemma same_ready: "same_lexer L L' \<Longrightarrow> ready L' = ready L"
  by (rule similar_ready [OF same_similar])

lemma form_formed [simp]:
  "same_lexer L K \<Longrightarrow> k \<noteq> tok_eof \<Longrightarrow> formed L (FormTokenWithChars p k K)" "same_lexer L K \<Longrightarrow> k \<noteq> tok_eof \<Longrightarrow> formed L (form_literal p k K)"
  "BufferPtr (form_literal p k K) = p" "lx_Buffer (form_literal p k K) = lx_Buffer K"
  by (simp_all add: formed_def form_literal_def FormTokenWithChars_def set_token_def same_lexerD similar_def)

lemma delivered_form:
  assumes "same_lexer L K" "q \<le> p" "p \<le> BufferEnd L" "k \<noteq> tok_eof"
  shows "delivered q L (Some (Lexed (FormTokenWithChars p k K)))" "delivered q L (Some (Lexed (form_literal p k K)))"
  using assms by (simp_all add: delivered_def same_lexerD)

lemma delivered_same: "same_lexer L K \<Longrightarrow> delivered q K r \<Longrightarrow> delivered q L r"
  unfolding delivered_def formed_def
  by (auto simp: same_lexerD isKeepWhitespaceMode_def intro: similar_trans [OF same_similar])

lemma delivered_mono: "delivered q L r \<Longrightarrow> p \<le> q \<Longrightarrow> delivered p L r"
  by (fastforce simp: delivered_def)

lemma Diag_same [simp]: "same_lexer L (Diag d p L)" "same_lexer L (literal_diag d L)"
  by (simp_all add: literal_diag_def)

lemma skip_chars_some: "p \<le> BufferEnd L \<Longrightarrow> \<exists>q. skip_chars P L p = Some q \<and> p \<le> q \<and> q \<le> BufferEnd L"
  using length_takeWhile_le [of P "drop p (lx_Buffer L)"] by (simp add: skip_chars_def chars_at_def)

lemma char_at_some: "p \<le> BufferEnd L \<Longrightarrow> char_at L p = Some (if p < BufferEnd L then lx_Buffer L ! p else NUL)"
  by (simp add: char_at_def chars_at_def peek_def Cons_nth_drop_Suc [symmetric] split: list.splits)

section \<open>Identifiers and literals\<close>

lemma LexIdentifier_delivered:
  assumes "tidy L" "p \<le> BufferEnd L" "isKeepWhitespaceMode L \<longrightarrow> LexingRawMode L"
  shows "delivered p L (LexIdentifier p L)"
proof -
  have slow: "\<exists>q L'. identifier_slow p L = Some (q, L') \<and> p \<le> q \<and> q \<le> BufferEnd L \<and> same_lexer L L'"
    if "tidy L" "p \<le> BufferEnd L" for p L
    using that
  proof (induction p L rule: identifier_slow.induct)
    case (1 p L)
    obtain C n where g: "getCharAndSize L p = Some (C, n)" "inside L p C (p + n)" "decode_at L p = (C, n)"
      using size_inside [OF "1.prems"] by blast
    define K where "K = (if C = CHR ''$'' then Diag ext_dollar_in_identifier p L else L)"
    have "same_lexer L K" by (simp add: K_def)
    then obtain L' where L': "ConsumeChar p n K = Some (p + n, L')" "same_lexer L L'"
      using consume_inside [OF g(3) "1.prems"(2)] by blast
    show ?case
    proof (cases "isIdentifierBody C \<or> C = CHR ''$'' \<and> DollarIdents (Features L)")
      case False
      then have "identifier_slow p L = Some (p, L)" by (subst identifier_slow.simps) (auto simp: g)
      then show ?thesis using "1.prems" by simp
    next
      case True
      have no: "\<not> isIdentifierBody CHR ''$''" by code_simp
      have "C \<noteq> NUL" using True by auto
      note le = inside_real [OF g(2) this]
      have "identifier_slow p L = identifier_slow (p + n) L'"
        using True no L' by (subst identifier_slow.simps) (auto simp: g K_def)
      moreover have "\<exists>q L''. identifier_slow (p + n) L' = Some (q, L'') \<and> p + n \<le> q \<and> q \<le> BufferEnd L' \<and> same_lexer L' L''"
      proof (cases "C = CHR ''$''")
        case True
        then show ?thesis using "1.IH"(1) [OF g(1) refl True _ L'(1) [unfolded K_def if_P [OF True]] refl] "1.prems"(1) le L'(2) same_tidy
            \<open>isIdentifierBody C \<or> C = CHR ''$'' \<and> DollarIdents (Features L)\<close> no by (auto simp: same_lexerD)
      next
        case False
        then show ?thesis using "1.IH"(2) [OF g(1) refl False _ L'(1) [unfolded K_def if_not_P [OF False]] refl] "1.prems"(1) le L'(2) same_tidy
            \<open>isIdentifierBody C \<or> C = CHR ''$'' \<and> DollarIdents (Features L)\<close> by (auto simp: same_lexerD)
      qed
      ultimately show ?thesis using le same_lexer_trans [OF L'(2)] same_lexerD(1) [OF L'(2)] by fastforce
    qed
  qed
  have finish: "delivered p L (Some (FinishIdentifier q L'))" if "p \<le> q" "q \<le> BufferEnd L" "same_lexer L L'" for q L'
    using that assms(3) delivered_form(1) [OF that(3,1,2)] by (auto simp: FinishIdentifier_def delivered_def Let_def same_lexerD)
  obtain q where q: "skip_chars isIdentifierBody L p = Some q" "p \<le> q" "q \<le> BufferEnd L" using skip_chars_some assms(2) by blast
  obtain r L' where s: "identifier_slow q L = Some (r, L')" "q \<le> r" "r \<le> BufferEnd L" "same_lexer L L'" using slow [OF assms(1) q(3)] by blast
  then show ?thesis using q(1) char_at_some [OF q(3)] finish [OF q(2,3) same_lexer_refl] finish [OF _ s(3,4)] q(2)
    by (simp add: LexIdentifier_def)
qed

lemma LexNumericConstant_delivered:
  assumes "tidy L" "p \<le> BufferEnd L"
  shows "delivered p L (LexNumericConstant p L)"
proof -
  have "\<exists>q L'. numeric_loop c p L = Some (q, L') \<and> p \<le> q \<and> q \<le> BufferEnd L \<and> same_lexer L L'"
    if "tidy L" "p \<le> BufferEnd L" for c p L
    using that
  proof (induction "Suc (BufferEnd L) - p" arbitrary: c p L rule: less_induct)
    case less
    obtain C n where g: "getCharAndSize L p = Some (C, n)" "inside L p C (p + n)" "decode_at L p = (C, n)"
      using size_inside [OF less.prems] by blast
    obtain L' where L': "ConsumeChar p n L = Some (p + n, L')" "same_lexer L L'"
      using consume_inside [OF g(3) less.prems(2) same_lexer_refl] by blast
    have "numeric_loop c p L = Some (p, L) \<or> C \<noteq> NUL \<and> (\<exists>c'. numeric_loop c p L = numeric_loop c' (p + n) L')"
      using L'(1) by (subst (1 2) numeric_loop.simps) (auto simp: g)
    then show ?case
    proof
      assume "C \<noteq> NUL \<and> (\<exists>c'. numeric_loop c p L = numeric_loop c' (p + n) L')"
      then obtain c' where c': "C \<noteq> NUL" "numeric_loop c p L = numeric_loop c' (p + n) L'" by blast
      note le = inside_real [OF g(2) c'(1)]
      have "\<exists>q L''. numeric_loop c' (p + n) L' = Some (q, L'') \<and> p + n \<le> q \<and> q \<le> BufferEnd L' \<and> same_lexer L' L''"
        using le same_lexerD(1) [OF L'(2)] same_tidy [OF L'(2)] less.prems by (intro less.hyps) auto
      then show ?thesis using c'(2) le same_lexer_trans [OF L'(2)] same_lexerD(1) [OF L'(2)] by fastforce
    qed (use less.prems in simp)
  qed
  from this [OF assms, of NUL] show ?thesis using delivered_form(2) [of L _ p] by (auto simp: LexNumericConstant_def)
qed

text \<open>The loops over literals: \<open>C\<close> was read in front of \<open>p\<close>.\<close>

lemma quoted_loop_inside:
  assumes "tidy L" "p \<le> BufferEnd L \<and> (C = CHR 0x5C \<longrightarrow> p < BufferEnd L) \<or> p = Suc (BufferEnd L) \<and> C = NUL" "Quote \<noteq> NUL"
  shows "\<exists>b n q L'. quoted_loop Quote t C N p L = Some (b, n, q, L') \<and> same_lexer L L' \<and> p \<le> q \<and>
    (if b then q \<le> BufferEnd L else q \<le> Suc (BufferEnd L))"
  using assms(1,2)
proof (induction "Suc (BufferEnd L) + 1 - p" arbitrary: t C N p L rule: less_induct)
  case less
  note eq = quoted_loop.simps [of Quote t C N p L]
  have step: ?case
    if h: "quoted_loop Quote t C N p L = quoted_loop Quote True D M q K" "same_lexer L K" "inside L r D q" "r \<le> BufferEnd L" "p \<le> r" for D M q K r
  proof -
    have B: "BufferEnd K = BufferEnd L" using same_lexerD(1) [OF h(2)] by simp
    have q: "p < q" "q \<le> BufferEnd K \<and> (D = CHR 0x5C \<longrightarrow> q < BufferEnd K) \<or> q = Suc (BufferEnd K) \<and> D = NUL"
      using h(3-5) unfolding inside_def B by auto
    have m: "Suc (BufferEnd K) + 1 - q < Suc (BufferEnd L) + 1 - p" using q B by auto
    obtain b n e L' where "quoted_loop Quote True D M q K = Some (b, n, e, L')" "same_lexer K L'" "q \<le> e"
        "if b then e \<le> BufferEnd K else e \<le> Suc (BufferEnd K)"
      using less.hyps [OF m _ q(2), of True M] less.prems same_tidy [OF h(2)] by blast
    then show ?thesis using q(1) h(1) same_lexer_trans [OF h(2)] unfolding B by fastforce
  qed
  consider "t \<and> C = Quote" | "\<not> (t \<and> C = Quote)" "C = CHR 0x5C"
    | "\<not> (t \<and> C = Quote)" "C \<noteq> CHR 0x5C" "newline C \<or> C = NUL \<and> p - 1 = BufferEnd L"
    | "\<not> (t \<and> C = Quote)" "C \<noteq> CHR 0x5C" "\<not> (newline C \<or> C = NUL \<and> p - 1 = BufferEnd L)" by blast
  then show ?case
  proof cases
    case 1
    then have "quoted_loop Quote t C N p L = Some (True, N, p, L)" by (subst eq) auto
    then show ?thesis using 1 less.prems(2) assms(3) by auto
  next
    case 2
    then have p: "p < BufferEnd L" using less.prems(2) by auto
    obtain C1 p1 L1 where 1: "getAndAdvanceChar p L = Some (C1, p1, L1)" "same_lexer L L1" "inside L p C1 p1" "tidy L1"
      using advance_inside less.prems(1) p by (metis less_imp_le)
    have p1: "p1 \<le> BufferEnd L1" "p < p1" using 1(2,3) p by (auto simp: inside_def same_lexerD)
    obtain C2 p2 L2 where 2: "getAndAdvanceChar p1 L1 = Some (C2, p2, L2)" "same_lexer L1 L2" "inside L1 p1 C2 p2"
      using advance_inside 1(4) p1 by metis
    have "quoted_loop Quote t C N p L = quoted_loop Quote True C2 N p2 L2"
      using \<open>\<not> (t \<and> C = Quote)\<close> \<open>C = CHR 0x5C\<close> 1(1) 2(1) by (subst eq) auto
    then show ?thesis using step [of C2 N p2 L2 p1] same_lexer_trans [OF 1(2) 2(2)] 2(3) p1
      unfolding inside_cong [OF same_lexerD(1) [OF 1(2)]] same_lexerD(1) [OF 1(2)] by simp
  next
    case 3
    then have "quoted_loop Quote t C N p L = Some (False, N, p, L)"
      unfolding eq by (simp only: if_False if_True simp_thms)
    moreover have "p \<le> Suc (BufferEnd L)" using less.prems(2) by linarith
    ultimately show ?thesis by (intro exI [of _ False]) simp
  next
    case 4
    then have p: "p \<le> BufferEnd L" using less.prems(2) by (metis diff_Suc_1)
    obtain C1 p1 L1 where 1: "getAndAdvanceChar p L = Some (C1, p1, L1)" "same_lexer L L1" "inside L p C1 p1"
      using advance_inside less.prems(1) p by metis
    have "quoted_loop Quote t C N p L = quoted_loop Quote True C1 (if C = NUL then Some (p - 1) else N) p1 L1"
      using 4 1(1) by (subst eq) auto
    then show ?thesis using step 1(2,3) p by blast
  qed
qed

lemma finish_literal_delivered:
  assumes "same_lexer L K" "q < p" "if b then p \<le> BufferEnd L else p \<le> Suc (BufferEnd L)" "k \<noteq> tok_eof"
  shows "delivered q L (Some (finish_literal d d' k (b, n, p, K)))"
proof (cases b)
  case True
  have "same_lexer L (case n of None \<Rightarrow> K | Some m \<Rightarrow> Diag d' m K)" using assms(1) by (cases n) simp_all
  then show ?thesis using True delivered_form(2) assms by (simp add: finish_literal_def Let_def)
next
  case False
  have "same_lexer L (literal_diag d K)" using assms(1) by (simp add: literal_diag_def)
  then show ?thesis using False delivered_form(1) assms by (auto simp: finish_literal_def)
qed

lemma quoted_delivered:
  assumes "tidy L" "p \<le> BufferEnd L" "Quote \<noteq> NUL" "k \<noteq> tok_eof"
  shows "delivered p L (do { (C, q, L1) \<leftarrow> getAndAdvanceChar p L; r \<leftarrow> quoted_loop Quote True C None q L1; Some (finish_literal d d' k r) })"
proof -
  obtain C q L1 where 1: "getAndAdvanceChar p L = Some (C, q, L1)" "same_lexer L L1" "inside L p C q" "tidy L1"
    using advance_inside assms(1,2) by metis
  have "q \<le> BufferEnd L1 \<and> (C = CHR 0x5C \<longrightarrow> q < BufferEnd L1) \<or> q = Suc (BufferEnd L1) \<and> C = NUL"
    using 1(2,3) by (auto simp: inside_def same_lexerD)
  note B = same_lexerD(1) [OF 1(2)]
  from quoted_loop_inside [OF 1(4) \<open>q \<le> BufferEnd L1 \<and> _ \<or> _\<close> assms(3)]
  obtain b n e L' where r: "quoted_loop Quote True C None q L1 = Some (b, n, e, L')" "same_lexer L1 L'" "q \<le> e"
    "if b then e \<le> BufferEnd L1 else e \<le> Suc (BufferEnd L1)" by blast
  have "delivered p L (Some (finish_literal d d' k (b, n, e, L')))"
    using r(3,4) 1(3) by (intro finish_literal_delivered same_lexer_trans [OF 1(2) r(2)] assms(4)) (auto simp: inside_def B)
  then show ?thesis using 1(1) r(1) by simp
qed

lemma LexStringLiteral_delivered: "tidy L \<Longrightarrow> p \<le> BufferEnd L \<Longrightarrow> delivered p L (LexStringLiteral w p L)"
  unfolding LexStringLiteral_def by (rule quoted_delivered) auto

lemma LexAngledStringLiteral_delivered: "tidy L \<Longrightarrow> p \<le> BufferEnd L \<Longrightarrow> delivered p L (LexAngledStringLiteral p L)"
  unfolding LexAngledStringLiteral_def by (rule quoted_delivered) auto

lemma LexCharConstant_delivered:
  assumes "tidy L" "p \<le> BufferEnd L"
  shows "delivered p L (LexCharConstant p L)"
proof -
  obtain C q L1 where 1: "getAndAdvanceChar p L = Some (C, q, L1)" "same_lexer L L1" "inside L p C q" "tidy L1"
    using advance_inside assms by metis
  show ?thesis
  proof (cases "C = CHR 0x27")
    case True
    have "same_lexer L (literal_diag err_empty_character L1)" using 1(2) by (simp add: literal_diag_def)
    then show ?thesis using True 1(1) inside_real [OF 1(3)] delivered_form(1) by (simp add: LexCharConstant_def)
  next
    case False
    obtain C1 p1 L2 where 2: "(if C = CHR 0x5C then getAndAdvanceChar q L1 else Some (C, q, L1)) = Some (C1, p1, L2)" "same_lexer L L2"
      "p < p1" "tidy L2" "p1 \<le> BufferEnd L2 \<and> (C1 = CHR 0x5C \<longrightarrow> p1 < BufferEnd L2) \<or> p1 = Suc (BufferEnd L2) \<and> C1 = NUL"
    proof (cases "C = CHR 0x5C")
      case True
      then have q: "q \<le> BufferEnd L1" "p < q" using 1(2,3) by (auto simp: inside_def same_lexerD)
      obtain C1 p1 L2 where 2: "getAndAdvanceChar q L1 = Some (C1, p1, L2)" "same_lexer L1 L2" "inside L1 q C1 p1" "tidy L2"
        using advance_inside 1(4) q(1) by metis
      show thesis using that [of C1 p1 L2] True 2 q same_lexer_trans [OF 1(2) 2(2)] by (auto simp: inside_def same_lexerD)
    next
      case False
      then show thesis using that [of C q L1] 1 by (auto simp: inside_def same_lexerD)
    qed
    define common where "common = (C1 \<noteq> NUL \<and> \<not> newline C1 \<and> char_at L2 p1 = Some (CHR 0x27))"
    have c: "(if C1 \<noteq> NUL \<and> \<not> newline C1 then map_option (\<lambda>c. c = CHR 0x27) (char_at L2 p1) else Some False) = Some common"
      using 2(5) char_at_some [of p1 L2] by (auto simp: common_def)
    have eq: "LexCharConstant p L = Option.bind (if common then Some (True, None, p1 + 1, L2) else quoted_loop (CHR 0x27) False C1 None p1 L2)
        (\<lambda>r. Some (finish_literal err_unterminated_char null_in_char tok_char_constant r))"
      unfolding LexCharConstant_def 1(1) using False 2(1) c by simp
    show ?thesis
    proof (cases common)
      case True
      then have "p1 < BufferEnd L" using char_at_NUL [of L2 p1 "CHR 0x27"] 2(2) by (simp add: common_def same_lexerD)
      then show ?thesis using eq True finish_literal_delivered [OF 2(2), of p "p1 + 1" True] 2(3) by simp
    next
      case False
      obtain b n e L' where r: "quoted_loop (CHR 0x27) False C1 None p1 L2 = Some (b, n, e, L')" "same_lexer L2 L'" "p1 \<le> e"
        "if b then e \<le> BufferEnd L2 else e \<le> Suc (BufferEnd L2)" using quoted_loop_inside [OF 2(4,5), of "CHR 0x27" False None] by auto
      have "delivered p L (Some (finish_literal err_unterminated_char null_in_char tok_char_constant (b, n, e, L')))"
        using r(3,4) 2(3) by (intro finish_literal_delivered same_lexer_trans [OF 2(2) r(2)]) (auto simp: same_lexerD(1) [OF 2(2)])
      then show ?thesis using eq False r(1) by simp
    qed
  qed
qed

end
