(* ===== verification/LexerComments.thy ===== *)
theory LexerComments
  imports LexerInside
begin

text \<open>
  On a text that does not end in a backslash, or in one and blanks, the functions that skip whitespace and comments, and
  those that lex punctuators, return and stay inside the buffer.
\<close>

section \<open>Whitespace\<close>

text \<open>The results of the functions that skip.\<close>

definition skipped :: "nat \<Rightarrow> lexer \<Rightarrow> (bool \<times> lexer) option \<Rightarrow> bool" where
  "skipped q L r \<longleftrightarrow> (\<exists>b L'. r = Some (b, L') \<and> similar L L' \<and> q \<le> BufferPtr L' \<and> BufferPtr L' \<le> BufferEnd L \<and>
     (b \<longrightarrow> formed L L') \<and> (isKeepWhitespaceMode L \<longrightarrow> b))"

lemma similar_form [simp]: "similar L (FormTokenWithChars p k K) \<longleftrightarrow> similar L K"
  by (simp add: FormTokenWithChars_def)

lemma skipped_cong: "similar L K \<Longrightarrow> BufferPtr K = BufferPtr L \<Longrightarrow> skipped q K r \<Longrightarrow> skipped q L r"
  unfolding skipped_def formed_def isKeepWhitespaceMode_def similar_def by auto

lemma skipped_same: "same_lexer L K \<Longrightarrow> skipped q K r \<Longrightarrow> skipped q L r"
  using skipped_cong [OF same_similar] by (simp add: same_lexerD)

lemma skipped_mono: "skipped q L r \<Longrightarrow> p \<le> q \<Longrightarrow> skipped p L r"
  by (fastforce simp: skipped_def)

lemma after_skip_delivered:
  assumes "skipped q L r" "next = LexNextToken \<or> next = SkipIgnoredUnits"
  shows "delivered q L (after_skip next r)"
proof -
  obtain b L' where L': "r = Some (b, L')" "similar L L'" "q \<le> BufferPtr L'" "BufferPtr L' \<le> BufferEnd L"
    "b \<longrightarrow> formed L L'" "isKeepWhitespaceMode L \<longrightarrow> b" using assms(1) unfolding skipped_def by blast
  have "lx_Buffer L' = lx_Buffer L" using L'(2) by (simp add: similar_def)
  then show ?thesis using L' assms(2) by (cases b) (auto simp: after_skip_def delivered_def)
qed

lemma ready_modes: "ready L \<Longrightarrow> isKeepWhitespaceMode L \<Longrightarrow> \<not> ParsingPreprocessorDirective L"
  by (simp add: ready_def isKeepWhitespaceMode_def inKeepCommentMode_def)

lemma SkipWhitespace_skipped:
  assumes "p \<le> BufferEnd L" "0 < p" "isKeepWhitespaceMode L \<Longrightarrow> \<not> ParsingPreprocessorDirective L"
  shows "skipped p L (SkipWhitespace p L)"
  using assms
proof (induction p L rule: SkipWhitespace.induct)
  case (1 p L)
  obtain q where q: "skip_chars isHorizontalWhitespace L p = Some q" "p \<le> q" "q \<le> BufferEnd L"
    using skip_chars_some "1.prems"(1) by blast
  obtain c where c: "char_at L q = Some c" using char_at_some [OF q(3)] by blast
  note eq = SkipWhitespace.simps [of p L, unfolded q(1) c bind.simps]
  show ?case
  proof (cases "newline c")
    case True
    then have lt: "q < BufferEnd L" using char_at_NUL [OF c] by auto
    show ?thesis
    proof (cases "ParsingPreprocessorDirective L")
      case True
      then have "SkipWhitespace p L = Some (False, L\<lparr>BufferPtr := q\<rparr>)" using eq \<open>newline c\<close> by auto
      then show ?thesis using q "1.prems"(3) True by (auto simp: skipped_def)
    next
      case False
      let ?K = "set_token (\<lambda>T. T\<lparr>lt_StartOfLine := True, lt_LeadingSpace := False\<rparr>) L"
      have "ParsingPreprocessorDirective ?K = ParsingPreprocessorDirective L" by (simp add: set_token_def)
      then have "skipped (q + 1) ?K (SkipWhitespace (q + 1) ?K)"
        using "1.IH" [OF q(1) c True False] lt False by simp
      then have "skipped p L (SkipWhitespace (q + 1) ?K)" using q(2) skipped_mono skipped_same [of L ?K] by fastforce
      moreover have "SkipWhitespace p L = SkipWhitespace (q + 1) ?K" using eq True False by auto
      ultimately show ?thesis by simp
    qed
  next
    case False
    have "\<exists>d. char_before L q = Some d" using q "1.prems"(2) char_at_some [of "q - 1" L] by (auto simp: char_before_def)
    then obtain d where d: "char_before L q = Some d" ..
    define K where "K = (if \<not> newline d then set_token (\<lambda>T. T\<lparr>lt_LeadingSpace := True\<rparr>) L else L)"
    have K: "same_lexer L K" by (simp add: K_def)
    have "SkipWhitespace p L = (if isKeepWhitespaceMode K then Some (True, FormTokenWithChars q tok_unknown K) else Some (False, K\<lparr>BufferPtr := q\<rparr>))"
      using eq False by (auto simp: d K_def Let_def)
    moreover have "isKeepWhitespaceMode K = isKeepWhitespaceMode L" using same_lexerD(3) [OF K] by (simp add: isKeepWhitespaceMode_def)
    ultimately show ?thesis using q(2,3) form_formed(1) [OF K, of tok_unknown q] same_similar [OF K]
      by (cases "isKeepWhitespaceMode L") (auto simp: skipped_def)
  qed
qed

section \<open>Line comments\<close>

lemma bcpl_hard_char_some:
  assumes "tidy L" "p \<le> BufferEnd L"
  shows "\<exists>C q L'. bcpl_hard_char p L = Some (C, q, L') \<and> q \<le> Suc (BufferEnd L) \<and> (p < BufferEnd L \<longrightarrow> q \<le> BufferEnd L) \<and> p + 1 \<le> q + 1"
proof -
  have "tidy (L\<lparr>LexingRawMode := True\<rparr>)" "p \<le> BufferEnd (L\<lparr>LexingRawMode := True\<rparr>)" using assms by (simp_all add: tidy_def)
  then obtain C q L' where "getAndAdvanceChar p (L\<lparr>LexingRawMode := True\<rparr>) = Some (C, q, L')" "inside (L\<lparr>LexingRawMode := True\<rparr>) p C q"
    using advance_inside by blast
  then show ?thesis by (auto simp: bcpl_hard_char_def inside_def)
qed

lemma bcpl_escaped_newline_some: "p \<le> BufferEnd L \<Longrightarrow> \<exists>L'. bcpl_escaped_newline q p C L = Some L'"
  using char_at_some [of p L] skip_chars_some [of p L isspace]
  by (auto simp: bcpl_escaped_newline_def multi_line_comment_def chars_at_def split: option.splits)

lemma bcpl_loop_some: "tidy L \<Longrightarrow> p \<le> BufferEnd L \<Longrightarrow> \<exists>q L'. bcpl_loop p L = Some (q, L')"
proof (induction p L rule: bcpl_loop.induct)
  case (1 p L)
  obtain o' where o: "skip_chars bcpl_plain L p = Some o'" "p \<le> o'" "o' \<le> BufferEnd L" using skip_chars_some "1.prems"(2) by blast
  obtain c where c: "char_at L o' = Some c" using char_at_some [OF o(3)] by blast
  note eq = bcpl_loop.simps [of p L, unfolded o(1) c bind.simps]
  show ?case
  proof (cases "newline c")
    case True
    then show ?thesis by (subst eq) simp
  next
    case False
    obtain C r L1 where r: "bcpl_hard_char o' L = Some (C, r, L1)" "o' < BufferEnd L \<longrightarrow> r \<le> BufferEnd L"
      using bcpl_hard_char_some [OF "1.prems"(1) o(3)] by blast
    note R = bcpl_hard_char_read [OF r(1) c False]
    have "\<exists>L2. bcpl_escaped_newline o' r C L1 = Some L2"
    proof (cases "o' < BufferEnd L")
      case True
      then show ?thesis using r(2) R(3) by (intro bcpl_escaped_newline_some) (simp add: same_lexerD)
    next
      case False
      then have "r = o' + 1" using R(1,2) o(3) by simp
      then show ?thesis by (simp add: bcpl_escaped_newline_def)
    qed
    then obtain L2 where L2: "bcpl_escaped_newline o' r C L1 = Some L2" ..
    have same: "same_lexer L L2" using R(3) bcpl_escaped_newline_same [OF L2] by (rule same_lexer_trans)
    have step: "bcpl_loop p L = (if r = BufferEnd L2 + 1 then Some (r - 1, L2) else if newline C then Some (r, L2) else bcpl_loop r L2)"
      by (subst bcpl_loop.simps) (simp add: o c False r(1) L2)
    show ?thesis
    proof (cases "r = BufferEnd L2 + 1 \<or> newline C")
      case False
      have "\<exists>q L'. bcpl_loop r L2 = Some (q, L')"
        using "1.IH" [OF o(1) c \<open>\<not> newline c\<close> r(1) refl refl L2] False same_tidy [OF same] "1.prems"(1) R(2)
          same_lexerD(1) [OF same] by auto
      then show ?thesis using step False by simp
    qed (use step in auto)
  qed
qed

lemma SkipBCPLComment_skipped:
  assumes "ready L" "p \<le> BufferEnd L"
  shows "skipped p L (SkipBCPLComment p L)"
proof -
  define K where "K = (if \<not> BCPLComment (Features L) \<and> \<not> LexingRawMode L
    then (Diag ext_bcpl_comment (BufferPtr L) L)\<lparr>Features := (Features L)\<lparr>BCPLComment := True\<rparr>\<rparr> else L)"
  have K: "similar L K" "BufferPtr K = BufferPtr L" by (simp_all add: K_def similar_def Diag_def emit_diags_def)
  have rK: "ready K" "BufferEnd K = BufferEnd L" using similar_ready [OF K(1)] assms(1) K(1) by (auto simp: similar_def)
  obtain q L1 where q: "bcpl_loop p K = Some (q, L1)" using bcpl_loop_some [of K p] ready_tidy [OF rK(1)] assms(2) rK(2) by auto
  note o = bcpl_loop_onward [OF q]
  note f = same_lexerD [of K L1]
  have eq: "SkipBCPLComment p L = (if inKeepCommentMode L1 then SaveBCPLComment q L1
     else if ParsingPreprocessorDirective L1 \<or> q = BufferEnd L1 then Some (False, L1\<lparr>BufferPtr := q\<rparr>)
     else Some (False, (set_token (\<lambda>T. T\<lparr>lt_StartOfLine := True, lt_LeadingSpace := False\<rparr>) L1)\<lparr>BufferPtr := q + 1\<rparr>))"
    unfolding SkipBCPLComment_def by (simp add: K_def [symmetric] q)
  have r1: "ready L1" using same_ready [of K L1] o rK(1) by simp
  have sK: "skipped p K (SkipBCPLComment p L)"
  proof (cases "inKeepCommentMode L1")
    case True
    then have "SkipBCPLComment p L = Some (True, FormTokenWithChars q tok_comment L1)"
      unfolding eq using r1 by (simp add: SaveBCPLComment_def ready_def Let_def FormTokenWithChars_def set_token_def)
    then show ?thesis using o form_formed(1) [of K L1] same_similar [of K L1] by (auto simp: skipped_def)
  next
    case False
    then have "\<not> isKeepWhitespaceMode K" using o f(3) by (simp add: inKeepCommentMode_def isKeepWhitespaceMode_def)
    then show ?thesis unfolding eq using False o same_similar [of K L1] f(1) by (auto simp: skipped_def)
  qed
  show ?thesis by (rule skipped_cong [OF K sK])
qed

section \<open>Block comments\<close>

text \<open>
  The star that opened the comment, at \<open>s\<close>, stops every walk back. A position \<open>p\<close> behind a character \<open>C\<close> that was
  just read is in the buffer, unless that was the end.
\<close>

definition star_at :: "lexer \<Rightarrow> nat \<Rightarrow> bool" where
  "star_at L s \<longleftrightarrow> 0 < s \<and> s < BufferEnd L \<and> lx_Buffer L ! s = CHR ''*''"

definition behind_read :: "lexer \<Rightarrow> char \<Rightarrow> nat \<Rightarrow> bool" where
  "behind_read L C p \<longleftrightarrow> p \<le> BufferEnd L \<or> p = Suc (BufferEnd L) \<and> C = NUL"

lemma char_at_star: "star_at L s \<Longrightarrow> char_at L s = Some (CHR ''*'')"
  by (simp add: star_at_def char_at_some)

lemma behind_read_char: "p \<le> BufferEnd L \<Longrightarrow> \<exists>c. char_at L p = Some c \<and> behind_read L c (p + 1)"
  by (auto simp: char_at_some behind_read_def)

lemma skip_back_some:
  assumes "star_at L s" "s \<le> p" "p \<le> BufferEnd L"
  shows "\<exists>q. skip_back L p = Some q \<and> s \<le> q \<and> q \<le> p"
  using assms(2,3)
proof (induction p)
  case 0
  then show ?case using assms(1) by (simp add: star_at_def)
next
  case (Suc p)
  obtain c where c: "char_at L (Suc p) = Some c" using char_at_some [OF Suc.prems(2)] by blast
  show ?case
  proof (cases "isHorizontalWhitespace c \<or> c = NUL")
    case True
    then have "s \<noteq> Suc p" using char_at_star [OF assms(1)] c by (auto simp: isHorizontalWhitespace_iff)
    then have "\<exists>q. skip_back L p = Some q \<and> s \<le> q \<and> q \<le> p" using Suc by simp
    moreover have "skip_back L (Suc p) = skip_back L p" using True c by (subst skip_back.simps) (simp add: retreat_def)
    ultimately show ?thesis using le_SucI by auto
  next
    case False
    then have "skip_back L (Suc p) = Some (Suc p)" using c by (subst skip_back.simps) simp
    then show ?thesis using Suc.prems by simp
  qed
qed

text \<open>In front of a character other than the star there is another one.\<close>

lemma char_before_star:
  assumes "star_at L s" "char_at L p = Some c" "c \<noteq> CHR ''*''" "s \<le> p" "p \<le> BufferEnd L"
  shows "\<exists>d. char_before L p = Some d \<and> char_at L (p - 1) = Some d \<and> s \<le> p - 1 \<and> p - 1 \<le> BufferEnd L \<and> 0 < p"
proof -
  have "p \<noteq> s" using assms char_at_star by auto
  then show ?thesis using assms char_at_some [of "p - 1" L] by (auto simp: char_before_def)
qed

lemma isEndOfBlockComment_some:
  assumes "star_at L s" "char_at L p = Some c" "newline c" "s \<le> p" "p \<le> BufferEnd L"
  shows "\<exists>b L'. isEndOfBlockCommentWithEscapedNewLine p L = Some (b, L')"
proof -
  obtain c1 where c1: "char_at L (p - 1) = Some c1" "s \<le> p - 1" "p - 1 \<le> BufferEnd L" "0 < p"
    using char_before_star [OF assms(1,2) _ assms(4,5)] assms(3) by auto
  have r1: "retreat p = Some (p - 1)" using c1(4) by (simp add: retreat_def)
  show ?thesis
  proof (cases "newline c1 \<and> c1 = c")
    case True
    then show ?thesis using assms(2,3) c1(1) r1 by (auto simp: isEndOfBlockCommentWithEscapedNewLine_def)
  next
    case False
    obtain p2 where p2: "(if newline c1 then retreat (p - 1) else Some (p - 1)) = Some p2" "s \<le> p2" "p2 \<le> BufferEnd L"
    proof (cases "newline c1")
      case True
      then show thesis using char_before_star [OF assms(1) c1(1) _ c1(2,3)] that [of "p - 1 - 1"] c1 by (auto simp: retreat_def)
    qed (use that c1 in simp)
    obtain q where q: "skip_back L p2 = Some q" "s \<le> q" "q \<le> p2" using skip_back_some [OF assms(1) p2(2,3)] by blast
    then have qe: "q \<le> BufferEnd L" using p2(3) by simp
    obtain c2 where c2: "char_at L q = Some c2" using char_at_some [OF qe] by blast
    note eq = isEndOfBlockCommentWithEscapedNewLine_def [of p L, unfolded assms(2) bind.simps r1 c1(1) p2(1) q(1) c2 Let_def]
    consider "c2 = CHR 0x5C" | "c2 = CHR ''/''" | "c2 \<noteq> CHR 0x5C" "c2 \<noteq> CHR ''/''" by blast
    then show ?thesis
    proof cases
      case 1
      then show ?thesis using eq assms(3) False char_before_star [OF assms(1) c2 _ q(2) qe] by (auto simp: end_with_escape_def)
    next
      case 3
      then show ?thesis using eq assms(3) False by auto
    next
      case 2
      obtain b1 where b1: "char_before L q = Some b1" "char_at L (q - 1) = Some b1" "s \<le> q - 1" "q - 1 \<le> BufferEnd L"
        using char_before_star [OF assms(1) c2 _ q(2) qe] 2 by auto
      show ?thesis
      proof (cases "b1 = CHR ''?''")
        case False
        then show ?thesis using eq assms(3) 2 \<open>\<not> (newline c1 \<and> c1 = c)\<close> b1(1) by auto
      next
        case True
        obtain b2 where b2: "char_before L (q - 1) = Some b2" "char_at L (q - 2) = Some b2" "s \<le> q - 2" "q - 2 \<le> BufferEnd L"
          using char_before_star [OF assms(1) b1(2) _ b1(3,4)] True by (auto simp: numeral_2_eq_2)
        show ?thesis
        proof (cases "b2 = CHR ''?''")
          case False
          then show ?thesis using eq assms(3) 2 True \<open>\<not> (newline c1 \<and> c1 = c)\<close> b1(1) b2(1) by auto
        next
          case b2': True
          obtain b3 where b3: "char_before L (q - 2) = Some b3"
            using char_before_star [OF assms(1) b2(2) _ b2(3,4)] b2' by auto
          show ?thesis unfolding eq using assms(3) False 2 b1(1) b2(1) b3 True b2' by (auto simp: end_with_escape_def Let_def)
        qed
      qed
    qed
  qed
qed

text \<open>The distance to the next 16-byte boundary.\<close>

definition boundary :: "nat \<Rightarrow> nat" where
  "boundary x = (16 - x mod 16) mod 16"

lemma boundary_step:
  assumes "x mod 16 \<noteq> 0"
  shows "boundary x = Suc (boundary (Suc x))"
proof (cases "Suc (x mod 16) = 16")
  case False
  moreover have "x mod 16 < 16" by simp
  ultimately have "x mod 16 < 15" by presburger
  then show ?thesis using assms by (simp add: boundary_def mod_Suc)
qed (simp add: boundary_def mod_Suc)

lemma align_scan_some:
  assumes "p + boundary (lx_Address L + p) \<le> BufferEnd L" "p \<le> BufferEnd L"
  shows "\<exists>C' q. align_scan C p L = Some (C', q) \<and> q \<le> BufferEnd L"
  using assms
proof (induction C p L rule: align_scan.induct)
  case (1 C p L)
  show ?case
  proof (cases "C \<noteq> CHR ''/'' \<and> (lx_Address L + p) mod 16 \<noteq> 0")
    case True
    then have "boundary (lx_Address L + p) = Suc (boundary (lx_Address L + (p + 1)))"
      using boundary_step [of "lx_Address L + p"] by simp
    then have "\<exists>C' q. align_scan c (p + 1) L = Some (C', q) \<and> q \<le> BufferEnd L" if "char_at L p = Some c" for c
      using "1.IH" [OF True that] "1.prems" by simp
    then show ?thesis using True char_at_some [OF "1.prems"(2)] by (subst align_scan.simps) auto
  next
    case False
    then show ?thesis using "1.prems"(2) by (subst align_scan.simps) auto
  qed
qed

lemma vector_scan_end: "p \<le> BufferEnd L \<Longrightarrow> vector_scan p L \<le> BufferEnd L"
proof (induction p L rule: vector_scan.induct)
  case (1 p L)
  then show ?case
    by (cases "p + 16 \<le> BufferEnd L \<and> CHR ''/'' \<notin> set (take 16 (drop p (lx_Buffer L)))") (simp_all only: vector_scan.simps [of p L] if_True if_False simp_thms)
qed

lemma fast_scan_some:
  assumes "lx_VectorUnit L" "behind_read L C p"
  shows "\<exists>C' q. fast_scan C p L = Some (C', q) \<and> behind_read L C' q"
proof (cases "p + 24 < BufferEnd L")
  case True
  have "boundary (lx_Address L + p) < 16" by (simp add: boundary_def)
  then obtain C1 q where q: "align_scan C p L = Some (C1, q)" "q \<le> BufferEnd L"
    using align_scan_some [of p L C] True by fastforce
  have "\<exists>c. char_at L (vector_scan q L) = Some c \<and> behind_read L c (vector_scan q L + 1)"
    using behind_read_char [OF vector_scan_end [OF q(2)]] .
  then show ?thesis using True assms(1) q by (auto simp: fast_scan_def behind_read_def)
next
  case False
  then show ?thesis using assms(2) by (simp add: fast_scan_def)
qed

lemma slow_scan_some:
  assumes "behind_read L C p"
  shows "\<exists>C' q. slow_scan C p L = Some (C', q) \<and> behind_read L C' q \<and> (C' = CHR ''/'' \<or> C' = NUL)"
  using assms
proof (induction C p L rule: slow_scan.induct)
  case (1 C p L)
  show ?case
  proof (cases "C \<noteq> CHR ''/'' \<and> C \<noteq> NUL")
    case True
    then have "p \<le> BufferEnd L" using "1.prems" by (auto simp: behind_read_def)
    then obtain c where "char_at L p = Some c" "behind_read L c (p + 1)" using behind_read_char by blast
    then show ?thesis using "1.IH" [OF True] True by (subst slow_scan.simps) simp
  next
    case False
    then show ?thesis using "1.prems" by (subst slow_scan.simps) auto
  qed
qed

lemma ends_at_slash_some:
  assumes "star_at L s" "s + 1 < p" "p \<le> BufferEnd L"
  shows "\<exists>b L'. ends_at_slash p L = Some (b, L')"
proof -
  have le: "p - 2 \<le> BufferEnd L" "s \<le> p - 2" "p - 1 - 1 = p - 2" using assms by auto
  obtain c where c: "char_before L (p - 1) = Some c" "char_at L (p - 2) = Some c"
    using char_at_some [OF le(1)] assms(2) le(3) by (simp add: char_before_def)
  have nested: "\<exists>K'. nested_comment p K = Some K'" if "same_lexer L K" for K
    using char_at_some [of p K] char_at_some [of "p + 1" K] char_at_NUL [of K p "CHR ''*''"] assms(3)
    by (auto simp: nested_comment_def same_lexerD(1) [OF that])
  obtain e K where e: "(if newline c then isEndOfBlockCommentWithEscapedNewLine (p - 2) L else Some (False, L)) = Some (e, K)"
    using isEndOfBlockComment_some [OF assms(1) c(2) _ le(2,1)] by (cases "newline c") auto
  have "same_lexer L K" using e isEndOfBlockComment_same by (auto split: if_splits)
  then obtain K' where "nested_comment p K = Some K'" using nested by blast
  then show ?thesis using c(1) e by (auto simp: ends_at_slash_def)
qed

lemma block_loop_some:
  assumes "lx_VectorUnit L" "star_at L s" "s + 1 < p" "behind_read L C p"
  shows "\<exists>e q L'. block_loop C p L = Some (e, q, L') \<and> q \<le> (if e then BufferEnd L else Suc (BufferEnd L))"
  using assms
proof (induction C p L rule: block_loop.induct)
  case (1 C0 p0 L)
  obtain C1 p1 where f: "fast_scan C0 p0 L = Some (C1, p1)" "behind_read L C1 p1" using fast_scan_some "1.prems"(1,4) by blast
  obtain C p where s: "slow_scan C1 p1 L = Some (C, p)" "behind_read L C p" "C = CHR ''/'' \<or> C = NUL"
    using slow_scan_some [OF f(2)] by blast
  have le: "s + 1 < p" using scans_le [OF f(1) s(1)] "1.prems"(3) by simp
  show ?case
  proof (cases "C = CHR ''/''")
    case True
    then have pe: "p \<le> BufferEnd L" using s(2) by (simp add: behind_read_def)
    obtain e L1 where e: "ends_at_slash p L = Some (e, L1)" using ends_at_slash_some [OF "1.prems"(2) le pe] by blast
    note same = ends_at_slash_same [OF e]
    show ?thesis
    proof (cases e)
      case True
      then show ?thesis using f(1) s(1) e \<open>C = CHR ''/''\<close> pe by (subst block_loop.simps) auto
    next
      case False
      obtain c where c: "char_at L1 p = Some c" "behind_read L1 c (p + 1)"
        using behind_read_char [of p L1] pe same_lexerD(1) [OF same] by auto
      have "star_at L1 s" "lx_VectorUnit L1" using "1.prems"(1,2) same_lexerD(1,10) [OF same] by (simp_all add: star_at_def)
      then have "\<exists>e q L'. block_loop c (p + 1) L1 = Some (e, q, L') \<and> q \<le> (if e then BufferEnd L1 else Suc (BufferEnd L1))"
        using "1.IH"(1) [OF f(1) refl s(1) refl True e refl False c(1)] le c(2) by simp
      moreover have "block_loop C0 p0 L = block_loop c (p + 1) L1" using f(1) s(1) e True False c(1) by (subst block_loop.simps) simp
      ultimately show ?thesis by (simp only: same_lexerD(1) [OF same])
    qed
  next
    case False
    show ?thesis
    proof (cases "C = NUL \<and> p = BufferEnd L + 1")
      case True
      then show ?thesis using f(1) s(1) by (subst block_loop.simps) (auto intro: exI [of _ False])
    next
      case False': False
      then have pe: "p \<le> BufferEnd L" using s(2,3) False by (auto simp: behind_read_def)
      obtain c where c: "char_at L p = Some c" "behind_read L c (p + 1)" using behind_read_char [OF pe] by blast
      then show ?thesis using "1.IH"(2) [OF f(1) refl s(1) refl False False' c(1)] "1.prems"(1,2) le f(1) s(1) False False'
        unfolding block_loop.simps [of C0 p0 L] by auto
    qed
  qed
qed

lemma SkipBlockComment_skipped:
  assumes "ready L" "p \<le> BufferEnd L" "star_at L s" "p = s + 1"
  shows "skipped p L (SkipBlockComment p L)"
proof -
  obtain C n where g: "getCharAndSize L p = Some (C, n)" "inside L p C (p + n)" using size_inside [OF ready_tidy [OF assms(1)] assms(2)] by blast
  have unterm: "skipped p L (Some (unterminated_comment q K))" if "same_lexer L K" "p < q" "q \<le> Suc (BufferEnd L)" for q K
  proof -
    let ?D = "Diag err_unterminated_block_comment (BufferPtr K) K"
    have D: "same_lexer L ?D" using that(1) by simp
    have "isKeepWhitespaceMode ?D = isKeepWhitespaceMode L" using same_lexerD(3) [OF D] by (simp add: isKeepWhitespaceMode_def)
    then show ?thesis using that(2,3) same_similar [OF D] form_formed(1) [OF D, of tok_unknown "q - 1"]
      unfolding skipped_def unterminated_comment_def Let_def
      by (intro exI [of _ "isKeepWhitespaceMode L"]) auto
  qed
  show ?thesis
  proof (cases "C = NUL \<and> p + n = BufferEnd L + 1")
    case True
    have "p < p + n" "p + n \<le> Suc (BufferEnd L)" using g(2) by (auto simp: inside_def)
    then have "skipped p L (Some (unterminated_comment (p + n) L))" by (intro unterm same_lexer_refl)
    moreover have "SkipBlockComment p L = Some (unterminated_comment (p + n) L)"
      unfolding SkipBlockComment_def g(1) bind.simps prod.case Let_def using True by (simp only: if_True simp_thms)
    ultimately show ?thesis by simp
  next
    case False
    then have n: "p < p + n" "p + n \<le> BufferEnd L" using g(2) by (auto simp: inside_def)
    obtain C1 p1 where r: "(if C = CHR ''/'' then map_option (\<lambda>c. (c, p + n + 1)) (char_at L (p + n)) else Some (C, p + n)) = Some (C1, p1)"
      "p < p1" "behind_read L C1 p1"
      using behind_read_char [OF n(2)] n by (cases "C = CHR ''/''") (auto simp: behind_read_def)
    obtain e q K where k: "block_loop C1 p1 L = Some (e, q, K)" "q \<le> (if e then BufferEnd L else Suc (BufferEnd L))"
      using block_loop_some [OF _ assms(3) _ r(3)] assms(1,4) r(2) by (auto simp: ready_def)
    have same: "same_lexer L K" and q: "p < q" using block_loop_onward [OF k(1)] r(2) by auto
    have "skipped p L (finish_block_comment (e, q, K))"
    proof (cases "\<not> e \<or> inKeepCommentMode K")
      case True
      then show ?thesis using unterm [OF same q] k(2) q form_formed(1) [OF same, of tok_comment q] same_similar [OF same]
        by (cases e) (auto simp: finish_block_comment_def skipped_def)
    next
      case False
      let ?K = "set_token (\<lambda>T. T\<lparr>lt_LeadingSpace := True\<rparr>) K"
      have K: "same_lexer L ?K" "\<not> isKeepWhitespaceMode L" using same False same_lexerD(3) [OF same]
        by (simp_all add: isKeepWhitespaceMode_def inKeepCommentMode_def)
      have qe: "q \<le> BufferEnd K" using k(2) False same_lexerD(1) [OF same] by simp
      obtain c where c: "char_at K q = Some c" "behind_read K c (q + 1)" using behind_read_char [OF qe] by blast
      show ?thesis
      proof (cases "isHorizontalWhitespace c")
        case True
        then have "q + 1 \<le> BufferEnd ?K" using char_at_NUL [OF c(1)] by (cases "c = NUL") auto
        moreover have "\<not> isKeepWhitespaceMode ?K" using K same_lexerD(3) [OF K(1)] by (simp add: isKeepWhitespaceMode_def)
        ultimately have "skipped (q + 1) ?K (SkipWhitespace (q + 1) ?K)" by (intro SkipWhitespace_skipped) auto
        then have "skipped p L (SkipWhitespace (q + 1) ?K)" using skipped_mono [OF skipped_same [OF K(1)]] q by simp
        then show ?thesis using False True c(1) K(2) by (auto simp: finish_block_comment_def skipped_def Let_def)
      next
        case False'': False
        then show ?thesis using False c(1) K q qe same_similar [OF same] same_lexerD(1) [OF same]
          by (auto simp: finish_block_comment_def skipped_def Let_def)
      qed
    qed
    then show ?thesis unfolding SkipBlockComment_def g(1) bind.simps prod.case Let_def
      using False r(1) k(1) by (simp only: if_False bind.simps prod.case)
  qed
qed

section \<open>Punctuators\<close>

definition punct :: "nat \<Rightarrow> lexer \<Rightarrow> punctuator \<Rightarrow> bool" where
  "punct q L r \<longleftrightarrow> (\<exists>k p K. r = Some (k, p, K) \<and> k \<noteq> tok_eof \<and> same_lexer L K \<and> q \<le> p \<and> p \<le> BufferEnd L)"

lemma punct_here [simp]: "punct q L (Some (k, p, K)) \<longleftrightarrow> k \<noteq> tok_eof \<and> same_lexer L K \<and> q \<le> p \<and> p \<le> BufferEnd L"
  by (auto simp: punct_def)

lemma FormToken_delivered: "punct q L r \<Longrightarrow> delivered q L (FormToken r)"
  using delivered_form(1) by (auto simp: punct_def FormToken_def)

lemma punct_same: "same_lexer L K \<Longrightarrow> punct q K r \<Longrightarrow> punct q L r"
  using same_lexer_trans same_lexerD(1) unfolding punct_def by metis

lemma punct_mono: "punct q L r \<Longrightarrow> p \<le> q \<Longrightarrow> punct p L r"
  unfolding punct_def by fastforce

text \<open>A peek at the next character: its end, and what consuming it does, unless it is a null character.\<close>

lemma peek_inside:
  assumes "tidy L" "p \<le> BufferEnd L"
  obtains C n where "getCharAndSize L p = Some (C, n)"
    "C \<noteq> NUL \<Longrightarrow> p < p + n \<and> p + n \<le> BufferEnd L"
    "\<And>K. same_lexer L K \<Longrightarrow> \<exists>L'. ConsumeChar p n K = Some (p + n, L') \<and> same_lexer L L' \<and> tidy L'"
    "\<And>k. C \<noteq> NUL \<Longrightarrow> k \<noteq> tok_eof \<Longrightarrow> punct p L (consume_as k p n L)" "decode_at L p = (C, n)"
proof -
  obtain C n where g: "getCharAndSize L p = Some (C, n)" "inside L p C (p + n)" "decode_at L p = (C, n)"
    using size_inside [OF assms] by blast
  have c: "\<exists>L'. ConsumeChar p n K = Some (p + n, L') \<and> same_lexer L L' \<and> tidy L'" if K: "same_lexer L K" for K
  proof -
    obtain L' where "ConsumeChar p n K = Some (p + n, L')" "same_lexer L L'" using consume_inside [OF g(3) assms(2) K] by blast
    then show ?thesis using same_tidy assms(1) by blast
  qed
  have le: "C \<noteq> NUL \<Longrightarrow> p < p + n \<and> p + n \<le> BufferEnd L" using inside_real [OF g(2)] by blast
  have "C \<noteq> NUL \<Longrightarrow> k \<noteq> tok_eof \<Longrightarrow> punct p L (consume_as k p n L)" for k
    using c [OF same_lexer_refl] le by (auto simp: consume_as_def)
  then show thesis using that g(1,3) le c by blast
qed

lemma consume2_punct:
  assumes "tidy L" "p \<le> BufferEnd L" "getCharAndSize L p = Some (C, n)" "C \<noteq> NUL" "getCharAndSize L (p + n) = Some (D, m)" "D \<noteq> NUL" "k \<noteq> tok_eof"
  shows "punct p L (consume2_as k p n m L)"
proof -
  obtain C' n' where 1: "getCharAndSize L p = Some (C', n')" "C' \<noteq> NUL \<Longrightarrow> p < p + n' \<and> p + n' \<le> BufferEnd L"
      "\<And>K. same_lexer L K \<Longrightarrow> \<exists>L'. ConsumeChar p n' K = Some (p + n', L') \<and> same_lexer L L' \<and> tidy L'"
    using peek_inside [OF assms(1,2)] by metis
  have n: "p < p + n" "p + n \<le> BufferEnd L" using 1(1,2) assms(3,4) by auto
  obtain D' m' where 2: "getCharAndSize L (p + n) = Some (D', m')" "D' \<noteq> NUL \<Longrightarrow> p + n < p + n + m' \<and> p + n + m' \<le> BufferEnd L"
      "\<And>K. same_lexer L K \<Longrightarrow> \<exists>L'. ConsumeChar (p + n) m' K = Some (p + n + m', L') \<and> same_lexer L L' \<and> tidy L'"
    using peek_inside [OF assms(1) n(2)] by metis
  obtain L1 where L1: "ConsumeChar p n L = Some (p + n, L1)" "same_lexer L L1" using 1(1) 1(3) [OF same_lexer_refl] assms(3) by auto
  obtain L2 where L2: "ConsumeChar (p + n) m L1 = Some (p + n + m, L2)" "same_lexer L L2" using 2(1) 2(3) [OF L1(2)] assms(5) by auto
  have "p + n + m \<le> BufferEnd L" using 2(1,2) assms(5,6) by simp
  then show ?thesis using L1(1) L2 assms(7) by (simp add: consume2_as_def)
qed

lemma or_equal_punct: "tidy L \<Longrightarrow> p \<le> BufferEnd L \<Longrightarrow> k \<noteq> tok_eof \<Longrightarrow> k' \<noteq> tok_eof \<Longrightarrow> punct p L (or_equal k k' p L)"
  by (rule peek_inside [of L p]) (auto simp: or_equal_def)

lemma twice_or_equal_punct: "tidy L \<Longrightarrow> p \<le> BufferEnd L \<Longrightarrow> c \<noteq> NUL \<Longrightarrow> k \<noteq> tok_eof \<Longrightarrow> k' \<noteq> tok_eof \<Longrightarrow> k'' \<noteq> tok_eof \<Longrightarrow>
    punct p L (twice_or_equal c k k' k'' p L)"
  by (rule peek_inside [of L p]) (auto simp: twice_or_equal_def)

lemma lex_colon_punct: "tidy L \<Longrightarrow> p \<le> BufferEnd L \<Longrightarrow> punct p L (lex_colon p L)"
  by (rule peek_inside [of L p]) (auto simp: lex_colon_def)

text \<open>A third character, behind one that is not the null character.\<close>

lemma third_char:
  assumes "tidy L" "p \<le> BufferEnd L" "getCharAndSize L p = Some (C, n)" "C \<noteq> NUL" "D \<noteq> NUL"
  shows "\<exists>m. map_option (\<lambda>(C, n). if C = D then Some n else None) (getCharAndSize L (p + n)) = Some m \<and>
    (\<forall>j k. m = Some j \<longrightarrow> k \<noteq> tok_eof \<longrightarrow> punct p L (consume2_as k p n j L))"
proof -
  have n: "p + n \<le> BufferEnd L" using getCharAndSize_read(4) [OF assms(3,4)] .
  obtain E j where j: "getCharAndSize L (p + n) = Some (E, j)" using peek_inside [OF assms(1) n] by metis
  show ?thesis using j consume2_punct [OF assms(1-4) j] assms(5) by auto
qed

lemma lex_minus_punct:
  assumes "tidy L" "p \<le> BufferEnd L"
  shows "punct p L (lex_minus p L)"
proof -
  obtain C n where g: "getCharAndSize L p = Some (C, n)" "\<And>k. C \<noteq> NUL \<Longrightarrow> k \<noteq> tok_eof \<Longrightarrow> punct p L (consume_as k p n L)"
    using peek_inside [OF assms] by metis
  show ?thesis
  proof (cases "C = NUL")
    case False
    then obtain m where m: "map_option (\<lambda>(C, n). if C = CHR ''*'' then Some n else None) (getCharAndSize L (p + n)) = Some m"
      "\<And>j k. m = Some j \<Longrightarrow> k \<noteq> tok_eof \<Longrightarrow> punct p L (consume2_as k p n j L)"
      using third_char [OF assms g(1), of "CHR ''*''"] by blast
    have k: "k \<noteq> tok_eof \<Longrightarrow> punct p L (consume_as k p n L)" for k using g(2) False .
    show ?thesis using assms(2) by (cases m) (simp_all add: lex_minus_def g(1) k m)
  qed (use g assms(2) in \<open>simp add: lex_minus_def\<close>)
qed

lemma lex_less_punct:
  assumes "tidy L" "p \<le> BufferEnd L"
  shows "punct p L (lex_less p L)"
proof -
  obtain C n where g: "getCharAndSize L p = Some (C, n)" "\<And>k. C \<noteq> NUL \<Longrightarrow> k \<noteq> tok_eof \<Longrightarrow> punct p L (consume_as k p n L)"
    using peek_inside [OF assms] by metis
  show ?thesis
  proof (cases "C = NUL")
    case False
    then obtain m where m: "map_option (\<lambda>(C, n). if C = CHR ''='' then Some n else None) (getCharAndSize L (p + n)) = Some m"
      "\<And>j k. m = Some j \<Longrightarrow> k \<noteq> tok_eof \<Longrightarrow> punct p L (consume2_as k p n j L)"
      using third_char [OF assms g(1), of "CHR ''=''"] by blast
    have k: "k \<noteq> tok_eof \<Longrightarrow> punct p L (consume_as k p n L)" for k using g(2) False .
    show ?thesis using assms(2) by (cases m) (simp_all add: lex_less_def g(1) k m)
  qed (use g assms(2) in \<open>simp add: lex_less_def\<close>)
qed

lemma lex_greater_punct:
  assumes "tidy L" "p \<le> BufferEnd L"
  shows "punct p L (lex_greater p L)"
proof -
  obtain C n where g: "getCharAndSize L p = Some (C, n)" "\<And>k. C \<noteq> NUL \<Longrightarrow> k \<noteq> tok_eof \<Longrightarrow> punct p L (consume_as k p n L)"
    using peek_inside [OF assms] by metis
  show ?thesis
  proof (cases "C = NUL")
    case False
    then obtain m where m: "map_option (\<lambda>(C, n). if C = CHR ''='' then Some n else None) (getCharAndSize L (p + n)) = Some m"
      "\<And>j k. m = Some j \<Longrightarrow> k \<noteq> tok_eof \<Longrightarrow> punct p L (consume2_as k p n j L)"
      using third_char [OF assms g(1), of "CHR ''=''"] by blast
    have k: "k \<noteq> tok_eof \<Longrightarrow> punct p L (consume_as k p n L)" for k using g(2) False .
    show ?thesis using assms(2) by (cases m) (simp_all add: lex_greater_def g(1) k m)
  qed (use g assms(2) in \<open>simp add: lex_greater_def\<close>)
qed

lemma lex_punctuator_punct:
  assumes "tidy L" "p \<le> BufferEnd L" "0 < p"
  shows "punct p L (lex_punctuator Ch p L)"
proof -
  obtain c where c: "char_before L p = Some c" using char_at_some [of "p - 1" L] assms(2,3) by (auto simp: char_before_def)
  have branch: "(b \<Longrightarrow> punct p L x) \<Longrightarrow> (\<not> b \<Longrightarrow> punct p L y) \<Longrightarrow> punct p L (if b then x else y)" for b x y by simp
  note rules = branch or_equal_punct [OF assms(1,2)] twice_or_equal_punct [OF assms(1,2)] lex_colon_punct [OF assms(1,2)]
    lex_minus_punct [OF assms(1,2)] lex_less_punct [OF assms(1,2)] lex_greater_punct [OF assms(1,2)]
  show ?thesis
  proof (cases "map_of simple_punctuators Ch")
    case None
    show ?thesis unfolding lex_punctuator_def None option.case by (intro rules; simp add: c assms(2))
  next
    case (Some k)
    have "\<forall>x \<in> set simple_punctuators. snd x \<noteq> tok_eof" by (simp add: simple_punctuators_def)
    then have "k \<noteq> tok_eof" using map_of_SomeD [OF Some] by fastforce
    then show ?thesis using Some assms(2) by (simp add: lex_punctuator_def)
  qed
qed

end
