(* ===== verification/LexerTotal.thy ===== *)
theory LexerTotal
  imports LexerComments
begin

text \<open>
  The lexer is total: on a text that does not end in a backslash, or in one and blanks, every run returns, stays inside
  the buffer and moves on; in the mode that keeps whitespace the tokens leave no gap.
\<close>

section \<open>The cases of the switch\<close>

lemma hash_token_delivered:
  assumes "ready L" "same_lexer L K" "q \<le> p" "p \<le> BufferEnd L"
  shows "delivered q L (hash_token p K)"
proof (cases "lt_StartOfLine (lx_Result K) \<and> \<not> LexingRawMode K")
  case True
  then have "\<not> isKeepWhitespaceMode L" using assms(1) same_lexerD(6) [OF assms(2)] by (auto simp: ready_def)
  then show ?thesis using True assms(3,4) same_lexerD(1) [OF assms(2)] by (simp add: hash_token_def delivered_def)
next
  case False
  have "hash_token p K = FormToken (Some (tok_hash, p, K))" by (simp only: hash_token_def if_not_P [OF False])
  then show ?thesis using FormToken_delivered [of q L "Some (tok_hash, p, K)"] assms(2-4) by simp
qed

lemma lex_hash_delivered:
  assumes "ready L" "p \<le> BufferEnd L"
  shows "delivered p L (lex_hash p L)"
proof -
  note t = ready_tidy [OF assms(1)]
  obtain C n where g: "getCharAndSize L p = Some (C, n)" "\<And>k. C \<noteq> NUL \<Longrightarrow> k \<noteq> tok_eof \<Longrightarrow> punct p L (consume_as k p n L)"
    "C \<noteq> NUL \<Longrightarrow> p < p + n \<and> p + n \<le> BufferEnd L"
    "\<And>K. same_lexer L K \<Longrightarrow> \<exists>L'. ConsumeChar p n K = Some (p + n, L') \<and> same_lexer L L' \<and> tidy L'"
    using peek_inside [OF t assms(2)] by metis
  have at: "punct p L (consume_as tok_hashat p n (Diag d r L))" if "C \<noteq> NUL" for d r
    using g(3) [OF that] g(4) [of "Diag d r L"] by (auto simp: consume_as_def)
  show ?thesis
    unfolding lex_hash_def g(1) bind.simps prod.case
    using FormToken_delivered [OF g(2) [of tok_hashhash]] FormToken_delivered [OF at] hash_token_delivered [OF assms(1) same_lexer_refl _ assms(2)]
    by simp
qed

lemma lex_period_delivered:
  assumes "ready L" "p \<le> BufferEnd L"
  shows "delivered p L (lex_period p L)"
proof -
  note t = ready_tidy [OF assms(1)]
  obtain C n where g: "getCharAndSize L p = Some (C, n)" "C \<noteq> NUL \<Longrightarrow> p < p + n \<and> p + n \<le> BufferEnd L"
    "\<And>K. same_lexer L K \<Longrightarrow> \<exists>L'. ConsumeChar p n K = Some (p + n, L') \<and> same_lexer L L' \<and> tidy L'"
    using peek_inside [OF t assms(2)] by metis
  note eq = lex_period_def [of p L, unfolded g(1) bind.simps prod.case]
  have NUL: "\<not> isdigit NUL" by code_simp
  show ?thesis
  proof (cases "isdigit C")
    case True
    then have le: "p < p + n" "p + n \<le> BufferEnd L" using g(2) NUL by auto
    obtain L1 where L1: "ConsumeChar p n L = Some (p + n, L1)" "same_lexer L L1" "tidy L1" using g(3) [OF same_lexer_refl] by blast
    have "delivered (p + n) L1 (LexNumericConstant (p + n) L1)"
      using le(2) same_lexerD(1) [OF L1(2)] by (intro LexNumericConstant_delivered [OF L1(3)]) simp
    then have "delivered p L (LexNumericConstant (p + n) L1)" using delivered_mono [OF delivered_same [OF L1(2)]] by simp
    then show ?thesis using eq True L1(1) by simp
  next
    case dig: False
    show ?thesis
    proof (cases "CPlusPlus (Features L) \<and> C = CHR ''*''")
      case True
      then show ?thesis using eq dig g(2) FormToken_delivered [of p L "Some (tok_periodstar, p + n, L)"] by simp
    next
      case False
      have here: "delivered p L (FormToken (Some (tok_period, p, L)))" using FormToken_delivered assms(2) by simp
      show ?thesis
      proof (cases "C = CHR ''.''")
        case True
        then obtain m where m: "map_option (\<lambda>(C, n). if C = CHR ''.'' then Some n else None) (getCharAndSize L (p + n)) = Some m"
          "\<And>j k. m = Some j \<Longrightarrow> k \<noteq> tok_eof \<Longrightarrow> punct p L (consume2_as k p n j L)"
          using third_char [OF t assms(2) g(1), of "CHR ''.''"] True by blast
        have "lex_period p L = (case m of Some j \<Rightarrow> FormToken (consume2_as tok_ellipsis p n j L) | None \<Rightarrow> FormToken (Some (tok_period, p, L)))"
          by (simp only: eq if_not_P [OF dig] if_not_P [OF False] if_P [OF True] m(1) bind.simps)
        then show ?thesis using FormToken_delivered [OF m(2) [of _ tok_ellipsis]] here by (cases m) simp_all
      next
        case False
        then show ?thesis using eq dig \<open>\<not> (CPlusPlus (Features L) \<and> C = CHR ''*'')\<close> here by auto
      qed
    qed
  qed
qed

lemma lex_percent_delivered:
  assumes "ready L" "p \<le> BufferEnd L"
  shows "delivered p L (lex_percent p L)"
proof -
  note t = ready_tidy [OF assms(1)]
  obtain C n where g: "getCharAndSize L p = Some (C, n)" "\<And>k. C \<noteq> NUL \<Longrightarrow> k \<noteq> tok_eof \<Longrightarrow> punct p L (consume_as k p n L)"
    "C \<noteq> NUL \<Longrightarrow> p < p + n \<and> p + n \<le> BufferEnd L"
    "\<And>K. same_lexer L K \<Longrightarrow> \<exists>L'. ConsumeChar p n K = Some (p + n, L') \<and> same_lexer L L' \<and> tidy L'"
    using peek_inside [OF t assms(2)] by metis
  note eq = lex_percent_def [of p L, unfolded g(1) bind.simps prod.case]
  show ?thesis
  proof (cases "Digraphs (Features L) \<and> C = CHR '':''")
    case False
    then show ?thesis using eq FormToken_delivered [OF g(2) [of tok_percentequal]] FormToken_delivered [OF g(2) [of tok_r_brace]] FormToken_delivered [of p L "Some (tok_percent, p, L)"] assms(2) by auto
  next
    case True
    then have le: "p < p + n" "p + n \<le> BufferEnd L" using g(3) by auto
    obtain L1 where L1: "ConsumeChar p n L = Some (p + n, L1)" "same_lexer L L1" "tidy L1" using g(3,4) same_lexer_refl by blast
    have le1: "p + n \<le> BufferEnd L1" using le same_lexerD(1) [OF L1(2)] by simp
    obtain D m where h: "getCharAndSize L1 (p + n) = Some (D, m)" "D \<noteq> NUL \<Longrightarrow> p + n < p + n + m \<and> p + n + m \<le> BufferEnd L1"
      "\<And>K. same_lexer L1 K \<Longrightarrow> \<exists>L'. ConsumeChar (p + n) m K = Some (p + n + m, L') \<and> same_lexer L1 L' \<and> tidy L'"
      using peek_inside [OF L1(3) le1] by metis
    have up: "delivered p L r" if "delivered (p + n) L1 r" for r
      using delivered_mono [OF delivered_same [OF L1(2) that]] le by simp
    have r1: "ready L1" using same_ready [OF L1(2)] assms(1) by simp
    have here: "delivered p L (hash_token (p + n) L1)" using hash_token_delivered [OF r1 same_lexer_refl _ le1] up by simp
    have at: "delivered p L (FormToken (Some (tok_hashat, q, Diag charize_microsoft_ext (BufferPtr L2) L2)))"
      if "D \<noteq> NUL" "ConsumeChar (p + n) m L1 = Some (q, L2)" for q L2
      using h(2) [OF that(1)] h(3) [OF same_lexer_refl] that(2) by (intro up FormToken_delivered) auto
    have eq2: "lex_percent p L = (do {
       colon \<leftarrow> (if D = CHR ''%'' then map_option (\<lambda>(C, n). if C = CHR '':'' then Some n else None) (getCharAndSize L1 (p + n + m)) else Some None);
       case colon of
         Some Size2 \<Rightarrow> FormToken (consume2_as tok_hashhash (p + n) m Size2 L1)
       | None \<Rightarrow>
           if D = CHR ''@'' \<and> Microsoft (Features L1) then
             do { (q, L2) \<leftarrow> ConsumeChar (p + n) m L1;
                  FormToken (Some (tok_hashat, q, Diag charize_microsoft_ext (BufferPtr L2) L2)) }
           else hash_token (p + n) L1 })"
      using eq True L1(1) h(1) by simp
    show ?thesis
    proof (cases "D = CHR ''%''")
      case True
      then obtain c where c: "map_option (\<lambda>(C, n). if C = CHR '':'' then Some n else None) (getCharAndSize L1 (p + n + m)) = Some c"
        "\<And>j k. c = Some j \<Longrightarrow> k \<noteq> tok_eof \<Longrightarrow> punct (p + n) L1 (consume2_as k (p + n) m j L1)"
        using third_char [OF L1(3) le1 h(1), of "CHR '':''"] True by blast
      show ?thesis unfolding eq2 if_P [OF True] c(1) bind.simps
        using True here up [OF FormToken_delivered [OF c(2) [of _ tok_hashhash]]] by (cases c) simp_all
    next
      case False
      then show ?thesis using eq2 here at h(3) [OF same_lexer_refl] by auto
    qed
  qed
qed

lemma lex_L_delivered:
  assumes "ready L" "p \<le> BufferEnd L"
  shows "delivered p L (lex_L p L)"
proof -
  note t = ready_tidy [OF assms(1)]
  obtain C n where g: "getCharAndSize L p = Some (C, n)" "C \<noteq> NUL \<Longrightarrow> p < p + n \<and> p + n \<le> BufferEnd L"
    "\<And>K. same_lexer L K \<Longrightarrow> \<exists>L'. ConsumeChar p n K = Some (p + n, L') \<and> same_lexer L L' \<and> tidy L'"
    using peek_inside [OF t assms(2)] by metis
  obtain L1 where L1: "ConsumeChar p n L = Some (p + n, L1)" "same_lexer L L1" "tidy L1" using g(3) [OF same_lexer_refl] by blast
  have up: "delivered p L r" if "delivered (p + n) L1 r" for r using delivered_mono [OF delivered_same [OF L1(2) that]] by simp
  have "delivered p L (LexStringLiteral True (p + n) L1)" "delivered p L (LexCharConstant (p + n) L1)" if "C \<noteq> NUL"
    using up LexStringLiteral_delivered [OF L1(3)] LexCharConstant_delivered [OF L1(3)] g(2) [OF that] same_lexerD(1) [OF L1(2)] by auto
  moreover have "delivered p L (LexIdentifier p L)" using LexIdentifier_delivered [OF t assms(2)] assms(1) by (simp add: ready_def)
  ultimately show ?thesis using g(1) L1(1) by (simp add: lex_L_def)
qed

lemma lex_slash_delivered:
  assumes "ready L" "p \<le> BufferEnd L" "0 < p"
  shows "delivered p L (lex_slash p L)"
proof -
  note t = ready_tidy [OF assms(1)]
  obtain C n where g: "getCharAndSize L p = Some (C, n)" "C \<noteq> NUL \<Longrightarrow> p < p + n \<and> p + n \<le> BufferEnd L"
    "\<And>K. same_lexer L K \<Longrightarrow> \<exists>L'. ConsumeChar p n K = Some (p + n, L') \<and> same_lexer L L' \<and> tidy L'"
    "\<And>k. C \<noteq> NUL \<Longrightarrow> k \<noteq> tok_eof \<Longrightarrow> punct p L (consume_as k p n L)" "decode_at L p = (C, n)"
    using peek_inside [OF t assms(2)] by metis
  obtain L1 where L1: "ConsumeChar p n L = Some (p + n, L1)" "same_lexer L L1" using g(3) [OF same_lexer_refl] by blast
  have up: "delivered p L (after_skip next r)" if "skipped (p + n) L1 r" "next = LexNextToken \<or> next = SkipIgnoredUnits" for r "next"
    using delivered_mono [OF delivered_same [OF L1(2) after_skip_delivered [OF that]]] by simp
  have r1: "ready L1" using same_ready [OF L1(2)] assms(1) by simp
  have line: "delivered p L (after_skip SkipIgnoredUnits (SkipBCPLComment (p + n) L1))" if "C \<noteq> NUL"
    using g(2) [OF that] same_lexerD(1) [OF L1(2)] by (intro up SkipBCPLComment_skipped [OF r1]) auto
  have block: "delivered p L (after_skip LexNextToken (SkipBlockComment (p + n) L1))" if "C = CHR ''*''"
  proof -
    have s: "p + n \<le> BufferEnd L \<and> 0 < n \<and> lx_Buffer L ! (p + n - 1) = CHR ''*''"
      using decode_at_last [OF g(5) _ assms(2)] that by (simp add: no_trigraph_value_def)
    have "star_at L1 (p + n - 1)" "p + n \<le> BufferEnd L1" using s assms(3) same_lexerD(1) [OF L1(2)] by (auto simp: star_at_def)
    then show ?thesis using s by (intro up SkipBlockComment_skipped [OF r1]) auto
  qed
  have "\<exists>b. (if C = CHR ''/'' then (if BCPLComment (Features L) then Some True
      else map_option (\<lambda>(C, n). C \<noteq> CHR ''*'') (getCharAndSize L (p + n))) else Some False) = Some b \<and> (b \<longrightarrow> C = CHR ''/'')"
  proof (cases "C = CHR ''/''")
    case True
    then have "p + n \<le> BufferEnd L" using g(2) by simp
    then obtain D m where "getCharAndSize L (p + n) = Some (D, m)" using peek_inside [OF t] by metis
    then show ?thesis using True by auto
  qed auto
  then obtain b where b: "(if C = CHR ''/'' then (if BCPLComment (Features L) then Some True
      else map_option (\<lambda>(C, n). C \<noteq> CHR ''*'') (getCharAndSize L (p + n))) else Some False) = Some b" "b \<longrightarrow> C = CHR ''/''" by blast
  have here: "delivered p L (FormToken (Some (tok_slash, p, L)))" using FormToken_delivered assms(2) by simp
  show ?thesis
    unfolding lex_slash_def g(1) bind.simps prod.case b(1) L1(1)
    using b(2) line block FormToken_delivered [OF g(4) [of tok_slashequal]] here by simp
qed

section \<open>Runs\<close>

lemma LexEndOfFile_delivered:
  assumes "ready L" "isKeepWhitespaceMode L \<Longrightarrow> BufferPtr L = BufferEnd L"
  shows "delivered (BufferEnd L) L (LexEndOfFile (BufferEnd L) L)"
proof (cases "ParsingPreprocessorDirective L")
  case True
  then have "\<not> isKeepWhitespaceMode L" using ready_modes [OF assms(1)] by blast
  then show ?thesis using True
    by (simp add: LexEndOfFile_def delivered_def SetCommentRetentionState_def isKeepWhitespaceMode_def FormTokenWithChars_def set_token_def)
next
  case False
  show ?thesis
  proof (cases "LexingRawMode L")
    case True
    then show ?thesis using False assms(2)
      by (simp add: LexEndOfFile_def delivered_def formed_def FormTokenWithChars_def set_token_def similar_def)
  next
    case raw: False
    then have keep: "\<not> isKeepWhitespaceMode L" using assms(1) by (simp add: ready_def)
    define L1 where "L1 = (emit_diags (map (Pair err_pp_unterminated_conditional) (ConditionalStack L)) L)\<lparr>ConditionalStack := []\<rparr>"
    have L1: "lx_Buffer L1 = lx_Buffer L" by (simp add: L1_def)
    obtain b where b: "(if BufferEnd L = 0 then Some False else map_option (\<lambda>c. \<not> newline c) (char_before L1 (BufferEnd L))) = Some b"
      using char_at_some [of "BufferEnd L - 1" L1] L1 by (cases "BufferEnd L = 0") (auto simp: char_before_def)
    have "LexEndOfFile (BufferEnd L) L =
        Some (LexedEndOfFile ((if b then Diag ext_no_newline_eof (BufferEnd L1) L1 else L1)\<lparr>BufferPtr := BufferEnd L\<rparr>))"
      using False raw b by (simp add: LexEndOfFile_def L1_def [symmetric] Let_def)
    then show ?thesis using keep L1 by (simp add: delivered_def)
  qed
qed

lemma lex_newline_delivered:
  assumes "ready L" "q \<le> BufferEnd L" "0 < q"
  shows "delivered q L (lex_newline q L)"
proof (cases "ParsingPreprocessorDirective L")
  case True
  then have "\<not> isKeepWhitespaceMode L" using ready_modes [OF assms(1)] by blast
  then show ?thesis using True assms(2)
    by (simp add: lex_newline_def delivered_def SetCommentRetentionState_def isKeepWhitespaceMode_def FormToken_def FormTokenWithChars_def set_token_def)
next
  case False
  let ?K = "set_token (\<lambda>T. T\<lparr>lt_StartOfLine := True, lt_LeadingSpace := False\<rparr>) L"
  have "ready ?K" using same_ready [of L ?K] assms(1) by simp
  then have "skipped q ?K (SkipWhitespace q ?K)" using assms(2,3) ready_modes by (intro SkipWhitespace_skipped) auto
  then have "skipped q L (SkipWhitespace q ?K)" using skipped_same [of L ?K] by simp
  then show ?thesis using False after_skip_delivered by (simp add: lex_newline_def)
qed

lemma space_delivered:
  assumes "ready L" "same_lexer L K" "q \<le> BufferEnd L" "0 < q" "next = LexNextToken \<or> next = SkipIgnoredUnits"
  shows "delivered q L (after_skip next (SkipWhitespace q (set_token (\<lambda>T. T\<lparr>lt_LeadingSpace := True\<rparr>) K)))"
proof -
  let ?K = "set_token (\<lambda>T. T\<lparr>lt_LeadingSpace := True\<rparr>) K"
  have K: "same_lexer L ?K" using assms(2) by simp
  have "skipped q ?K (SkipWhitespace q ?K)"
    using assms(3,4) ready_modes same_ready [OF K] assms(1) same_lexerD(1) [OF K] by (intro SkipWhitespace_skipped) auto
  then show ?thesis using after_skip_delivered [OF skipped_same [OF K] assms(5)] by blast
qed

text \<open>\<open>q\<close> is behind the first character \<open>Ch\<close> of the token, which was read at \<open>p\<close>.\<close>

lemma lex_switch_delivered:
  assumes "ready L" "inside L p Ch q" "no_trigraph_value Ch \<Longrightarrow> lx_Buffer L ! (q - 1) = Ch" "isKeepWhitespaceMode L \<Longrightarrow> BufferPtr L = p"
  shows "delivered (min q (BufferEnd L)) L (lex_switch Ch q L)"
proof (cases "p = BufferEnd L")
  case True
  then have "q - 1 = BufferEnd L" "Ch = NUL" using assms(2) by (auto simp: inside_def)
  then show ?thesis using LexEndOfFile_delivered [OF assms(1)] assms(4) True delivered_mono [where p = "min q (BufferEnd L)"]
    by (simp add: lex_switch_def lex_NUL_def)
next
  case False
  then have q: "q \<le> BufferEnd L" "0 < q" "p < q" using assms(2) by (auto simp: inside_def)
  note t = ready_tidy [OF assms(1)]
  have keep: "isKeepWhitespaceMode L \<longrightarrow> LexingRawMode L" using assms(1) by (simp add: ready_def)
  have dollar: "delivered q L (LexIdentifier q (Diag d r L))" for d r
  proof -
    have D: "same_lexer L (Diag d r L)" by simp
    have "delivered q (Diag d r L) (LexIdentifier q (Diag d r L))"
      using t q(1) keep same_tidy [OF D] same_lexerD(1,3,6) [OF D] by (intro LexIdentifier_delivered) (auto simp: isKeepWhitespaceMode_def)
    then show ?thesis by (rule delivered_same [OF D])
  qed
  have angled: "delivered q L (do { (_, SizeTmp) \<leftarrow> getCharAndSize L q; LexAngledStringLiteral (q + SizeTmp) L })"
    if "Ch = CHR ''<''" "ParsingFilename L"
  proof -
    have "q \<noteq> BufferEnd L"
    proof
      assume "q = BufferEnd L"
      then have "last (lx_Buffer L) = CHR ''<''" "lx_Buffer L \<noteq> []"
        using assms(3) that(1) q(2) by (auto simp: no_trigraph_value_def last_conv_nth)
      then show False using assms(1) that(2) by (simp add: ready_def)
    qed
    moreover obtain C n where C: "getCharAndSize L q = Some (C, n)" "inside L q C (q + n)" using size_inside [OF t q(1)] by blast
    ultimately have "q + n \<le> BufferEnd L" by (auto simp: inside_def)
    then show ?thesis using LexAngledStringLiteral_delivered [OF t, of "q + n"] delivered_mono C(1) by fastforce
  qed
  have no: "q - 1 \<noteq> BufferEnd L" using q by auto
  have NUL: "delivered q L (lex_NUL q L)"
    using space_delivered [OF assms(1) _ q(1,2), of "Diag null_in_file (q - 1) L" LexNextToken]
    unfolding lex_NUL_def if_not_P [OF no] by simp
  have branch: "(b \<Longrightarrow> delivered q L x) \<Longrightarrow> (\<not> b \<Longrightarrow> delivered q L y) \<Longrightarrow> delivered q L (if b then x else y)" for b x y by simp
  have "delivered q L (lex_switch Ch q L)"
    unfolding lex_switch_def
    by (intro branch NUL lex_newline_delivered [OF assms(1) q(1,2)] space_delivered [OF assms(1) same_lexer_refl q(1,2)]
        LexNumericConstant_delivered [OF t q(1)] lex_L_delivered [OF assms(1) q(1)] LexIdentifier_delivered [OF t q(1) keep] dollar
        LexCharConstant_delivered [OF t q(1)] LexStringLiteral_delivered [OF t q(1)] lex_period_delivered [OF assms(1) q(1)]
        lex_slash_delivered [OF assms(1) q(1,2)] lex_percent_delivered [OF assms(1) q(1)] lex_hash_delivered [OF assms(1) q(1)] angled
        FormToken_delivered lex_punctuator_punct [OF t q(1,2)] disjI2 refl) simp_all
  then show ?thesis using q(1) by (simp add: min_absorb1)
qed

lemma delivered_start:
  assumes "similar L K" "isKeepWhitespaceMode L \<Longrightarrow> BufferPtr K = BufferPtr L" "delivered q K r"
  shows "delivered q L r"
proof -
  have "lx_Buffer K = lx_Buffer L" "isKeepWhitespaceMode K = isKeepWhitespaceMode L"
    using assms(1) by (auto simp: similar_def isKeepWhitespaceMode_def)
  then show ?thesis using assms(2,3) similar_trans [OF assms(1)] unfolding delivered_def formed_def by metis
qed

lemma lex_next_delivered:
  assumes "ready L" "BufferPtr L \<le> BufferEnd L"
  shows "delivered (min (BufferPtr L + 1) (BufferEnd L)) L (lex_next L)"
proof -
  define K where "K = set_token (\<lambda>T. T\<lparr>lt_NeedsCleaning := False, lt_LiteralData := None\<rparr>) L"
  have K: "same_lexer L K" by (simp add: K_def)
  have B: "lx_Buffer K = lx_Buffer L" "BufferPtr K = BufferPtr L" "isKeepWhitespaceMode K = isKeepWhitespaceMode L"
    using same_lexerD(1,3,4) [OF K] by (auto simp: isKeepWhitespaceMode_def)
  obtain p where p: "skip_chars (\<lambda>c. c = CHR '' '' \<or> c = CHR 0x09) K (BufferPtr K) = Some p" "BufferPtr L \<le> p" "p \<le> BufferEnd L"
    using skip_chars_some [of "BufferPtr K" K] assms(2) B by auto
  show ?thesis
  proof (cases "p \<noteq> BufferPtr K \<and> isKeepWhitespaceMode K")
    case True
    then have "lex_next L = Some (Lexed (FormTokenWithChars p tok_unknown K))" using p(1) by (simp add: lex_next_def K_def [symmetric])
    then show ?thesis using delivered_form(1) [OF K, of "min (BufferPtr L + 1) (BufferEnd L)" p] True p(2,3) B(2) by simp
  next
    case False
    define L1 where "L1 = (if p \<noteq> BufferPtr K then set_token (\<lambda>T. T\<lparr>lt_LeadingSpace := True\<rparr>) (K\<lparr>BufferPtr := p\<rparr>) else K)"
    have L1: "similar L L1" "BufferPtr L1 = p" using same_similar [OF K] by (auto simp: L1_def)
    have r1: "ready L1" "BufferEnd L1 = BufferEnd L" using similar_ready [OF L1(1)] assms(1) L1(1) by (auto simp: similar_def)
    have p1: "p \<le> BufferEnd L1" using p(3) r1(2) by simp
    obtain C n where D: "decode_at L1 p = (C, n)" by (cases "decode_at L1 p")
    obtain L2 where L2: "getAndAdvanceChar p L1 = Some (C, p + n, L2)" "reads (n \<noteq> 1) L1 L2"
      using getAndAdvanceChar_decode [OF p1] D by auto
    note same = reads_same [OF L2(2)]
    have i: "inside L2 p C (p + n)"
      using decode_at_inside [OF ready_tidy [OF r1(1)] p1 D] inside_cong [OF same_lexerD(1) [OF same]] by simp
    have last: "lx_Buffer L2 ! (p + n - 1) = C" if "no_trigraph_value C"
      using decode_at_last [OF D that p1] same_lexerD(1) [OF same] by simp
    have l12: "similar L L2" "BufferPtr L2 = p" using similar_trans [OF L1(1) same_similar [OF same]] same_lexerD(4) [OF same] L1(2) by simp_all
    have "delivered (min (p + n) (BufferEnd L2)) L2 (lex_switch C (p + n) L2)"
      using same_ready [OF same] r1(1) l12(2) by (intro lex_switch_delivered [OF _ i last]) auto
    moreover have "isKeepWhitespaceMode L \<Longrightarrow> p = BufferPtr L" using False B by auto
    ultimately have "delivered (min (p + n) (BufferEnd L2)) L (lex_switch C (p + n) L2)"
      using delivered_start [OF l12(1)] l12(2) by simp
    moreover have "lex_next L = lex_switch C (p + n) L2"
      using p(1) False L2(1) by (auto simp: lex_next_def K_def [symmetric] L1_def [symmetric] Let_def)
    moreover have "min (BufferPtr L + 1) (BufferEnd L) \<le> min (p + n) (BufferEnd L2)"
      using i p(2) l12(1) by (auto simp: inside_def similar_def)
    ultimately show ?thesis using delivered_mono by simp
  qed
qed

lemma ignored_units_delivered:
  "ready L \<Longrightarrow> BufferPtr L \<le> BufferEnd L \<Longrightarrow> \<not> isKeepWhitespaceMode L \<Longrightarrow> delivered (BufferPtr L) L (ignored_units L)"
proof (induction L rule: ignored_units.induct)
  case (1 L)
  let ?p = "BufferPtr L"
  let ?s = "drop ?p (lx_Buffer L)"
  have s: "chars_at L ?p = Some ?s" using "1.prems"(2) by (simp add: chars_at_def)
  note eq = ignored_units.simps [of L, unfolded s bind.simps]
  have two: "?p + 2 \<le> BufferEnd L" "take 2 ?s = [a, b] \<Longrightarrow> lx_Buffer L ! (?p + 1) = b" if "take 2 ?s = [a, b]" for a b
  proof -
    have "length (take 2 ?s) = 2" using that by simp
    then show le: "?p + 2 \<le> BufferEnd L" by simp
    have "take 2 ?s ! 1 = b" using that by simp
    then show "lx_Buffer L ! (?p + 1) = b" using le by simp
  qed
  have rec: "delivered ?p L (do { (b, L') \<leftarrow> r; f b L' })"
    if h: "skipped q L r" "?p \<le> q" "\<And>b L'. r = Some (b, L') \<Longrightarrow> ready L' \<Longrightarrow> BufferPtr L' \<le> BufferEnd L' \<Longrightarrow> \<not> isKeepWhitespaceMode L' \<Longrightarrow>
        delivered (BufferPtr L') L' (f b L')" for q r f
  proof -
    obtain b L' where L': "r = Some (b, L')" "similar L L'" "q \<le> BufferPtr L'" "BufferPtr L' \<le> BufferEnd L"
      using h(1) unfolding skipped_def by blast
    have k: "lx_Buffer L' = lx_Buffer L" "\<not> isKeepWhitespaceMode L'" "ready L'"
      using L'(2) "1.prems"(1,3) similar_ready [OF L'(2)] by (auto simp: similar_def isKeepWhitespaceMode_def)
    have "delivered (BufferPtr L') L' (f b L')" using h(3) [OF L'(1) k(3) _ k(2)] L'(4) k(1) by simp
    then have "delivered ?p L (f b L')" using delivered_mono [OF delivered_start [OF L'(2)]] "1.prems"(3) L'(3) h(2) by simp
    then show ?thesis using L'(1) by simp
  qed
  consider (line) "take 2 ?s = ''//'' \<and> \<not> inKeepCommentMode L \<and> BCPLComment (Features L)"
    | (block) "\<not> (take 2 ?s = ''//'' \<and> \<not> inKeepCommentMode L \<and> BCPLComment (Features L))" "take 2 ?s = ''/*'' \<and> \<not> inKeepCommentMode L"
    | (rest) "\<not> (take 2 ?s = ''//'' \<and> \<not> inKeepCommentMode L \<and> BCPLComment (Features L))" "\<not> (take 2 ?s = ''/*'' \<and> \<not> inKeepCommentMode L)"
    by blast
  then show ?case
  proof cases
    case line
    have sk: "skipped (?p + 2) L (SkipBCPLComment (?p + 2) L)" using two(1) line "1.prems"(1) by (intro SkipBCPLComment_skipped) auto
    have "ignored_units L = (do { (_, L') \<leftarrow> SkipBCPLComment (?p + 2) L; ignored_units L' })" using eq line by simp
    then show ?thesis using rec [OF sk, of "\<lambda>_. ignored_units"] "1.IH"(1) [OF s line _ refl] by simp
  next
    case block
    have "star_at L (?p + 1)" using two [of "CHR ''/''" "CHR ''*''"] block(2) by (auto simp: star_at_def)
    then have sk: "skipped (?p + 2) L (SkipBlockComment (?p + 2) L)" using two(1) block(2) "1.prems"(1) by (intro SkipBlockComment_skipped) auto
    have "ignored_units L = (do { (_, L') \<leftarrow> SkipBlockComment (?p + 2) L; ignored_units L' })"
      using eq block by (simp only: if_False if_True simp_thms)
    then show ?thesis using rec [OF sk, of "\<lambda>_. ignored_units"] "1.IH"(2) [OF s block _ refl] by simp
  next
    case rest
    show ?thesis
    proof (cases "isHorizontalWhitespace (peek NUL ?s)")
      case False
      then have "ignored_units L = Some (LexNextToken L)" using eq rest by (simp only: if_False)
      then show ?thesis using "1.prems" by (simp add: delivered_def)
    next
      case True
      let ?K = "set_token (\<lambda>T. T\<lparr>lt_LeadingSpace := True\<rparr>) L"
      have p1: "?p + 1 \<le> BufferEnd L" using True "1.prems"(2) by (cases "?p = BufferEnd L") auto
      have "skipped (?p + 1) ?K (SkipWhitespace (?p + 1) ?K)"
        using p1 "1.prems"(3) by (intro SkipWhitespace_skipped) (auto simp: isKeepWhitespaceMode_def set_token_def)
      moreover have "SkipWhitespace ?p ?K = SkipWhitespace (?p + 1) ?K"
        using SkipWhitespace_step [of ?K ?p ?s] s True by simp
      ultimately have sk: "skipped (?p + 1) L (SkipWhitespace ?p ?K)" using skipped_same [of L ?K] by simp
      have "ignored_units L = (do { (formed, L') \<leftarrow> SkipWhitespace ?p ?K; if formed then Some (Lexed L') else ignored_units L' })"
        using eq rest True by (simp only: if_False if_True simp_thms)
      moreover have "delivered (BufferPtr L') L' (if b then Some (Lexed L') else ignored_units L')"
        if "SkipWhitespace ?p ?K = Some (b, L')" "ready L'" "BufferPtr L' \<le> BufferEnd L'" "\<not> isKeepWhitespaceMode L'" for b L'
        using "1.IH"(3) [OF s rest True that(1) refl] that by (cases b) (simp_all add: delivered_def)
      ultimately show ?thesis using rec [OF sk, of "\<lambda>b L'. if b then Some (Lexed L') else ignored_units L'"] by simp
    qed
  qed
qed

lemma ignored_units_next: "ignored_units L \<noteq> Some (SkipIgnoredUnits L')"
proof (induction L rule: ignored_units.induct)
  case (1 L)
  show ?case
  proof
    assume r: "ignored_units L = Some (SkipIgnoredUnits L')"
    obtain s where s: "chars_at L (BufferPtr L) = Some s"
      using r [unfolded ignored_units.simps [of L]] by (auto simp: bind_eq_Some_conv)
    show False
      using r [unfolded ignored_units.simps [of L]] s "1.IH"(1) [OF s] "1.IH"(2) [OF s] "1.IH"(3) [OF s]
      by (auto simp: bind_eq_Some_conv split: if_splits)
  qed
qed

lemma lex_round_delivered:
  assumes "ready L" "BufferPtr L \<le> BufferEnd L"
  shows "delivered (min (BufferPtr L + 1) (BufferEnd L)) L (lex_round L)"
proof -
  note d = lex_next_delivered [OF assms]
  then obtain out where out: "lex_next L = Some out" by (auto simp: delivered_def)
  show ?thesis
  proof (cases out)
    case (SkipIgnoredUnits L')
    then have L': "similar L L'" "\<not> isKeepWhitespaceMode L" "BufferPtr L' \<le> BufferEnd L" "min (BufferPtr L + 1) (BufferEnd L) \<le> BufferPtr L'"
      using d out by (auto simp: delivered_def)
    have k: "BufferEnd L' = BufferEnd L" "\<not> isKeepWhitespaceMode L'" using L'(1,2) by (auto simp: similar_def isKeepWhitespaceMode_def)
    have "delivered (BufferPtr L') L' (ignored_units L')" using similar_ready [OF L'(1)] assms(1) L'(3) k by (intro ignored_units_delivered) auto
    then have "delivered (BufferPtr L') L (ignored_units L')" using delivered_start [OF L'(1)] L'(2) by blast
    then show ?thesis using delivered_mono [OF _ L'(4)] out SkipIgnoredUnits by (simp add: lex_round_def)
  qed (use d out in \<open>simp_all add: lex_round_def\<close>)
qed

lemma LexTokenInternal_delivered:
  "ready L \<Longrightarrow> BufferPtr L \<le> BufferEnd L \<Longrightarrow>
    delivered (min (BufferPtr L + 1) (BufferEnd L)) L (LexTokenInternal L) \<and> (\<forall>out. LexTokenInternal L = Some out \<longrightarrow> \<not> goes_on out)"
proof (induction L rule: LexTokenInternal.induct)
  case (1 L)
  note d = lex_round_delivered [OF "1.prems"]
  then obtain out where out: "lex_round L = Some out" by (auto simp: delivered_def)
  note eq = LexTokenInternal.simps [of L, unfolded out bind.simps]
  show ?case
  proof (cases out)
    case (LexNextToken L')
    then have L': "similar L L'" "\<not> isKeepWhitespaceMode L" "BufferPtr L' \<le> BufferEnd L" "min (BufferPtr L + 1) (BufferEnd L) \<le> BufferPtr L'"
      using d out by (auto simp: delivered_def)
    have B: "BufferEnd L' = BufferEnd L" using L'(1) by (auto simp: similar_def)
    have rec: "delivered (min (BufferPtr L' + 1) (BufferEnd L')) L' (LexTokenInternal L') \<and> (\<forall>out. LexTokenInternal L' = Some out \<longrightarrow> \<not> goes_on out)"
      using "1.IH" [OF out LexNextToken] similar_ready [OF L'(1)] "1.prems"(1) L'(3) B by simp
    then have "delivered (min (BufferPtr L + 1) (BufferEnd L)) L (LexTokenInternal L')"
      using delivered_mono [OF delivered_start [OF L'(1)]] L'(2,4) B by (metis le_SucI Suc_eq_plus1 min.boundedI min.cobounded2)
    then show ?thesis using rec eq LexNextToken by simp
  next
    case (SkipIgnoredUnits L')
    obtain r where r: "lex_next L = Some r" using out by (auto simp: lex_round_def bind_eq_Some_conv)
    then show ?thesis using out SkipIgnoredUnits ignored_units_next by (cases r) (auto simp: lex_round_def)
  qed (use d out eq in \<open>simp_all\<close>)
qed

section \<open>Totality\<close>

text \<open>
  C26: the lexer is total and stays in its buffer. On a text without disabled trigraphs that does not end in a backslash, or in one
  and blanks, a run returns a token or a call of the preprocessor, reads nothing behind the null character at the end, and
  moves on inside the buffer, strictly unless it is at the end. (With the modes that keep comments outside directives, the vector
  unit for block comments, and no filename that starts at the very end.)
\<close>

theorem LexTokenInternal_total:
  assumes "ready L" "BufferPtr L \<le> BufferEnd L"
  shows "\<exists>out. LexTokenInternal L = Some out \<and> \<not> goes_on out \<and> lx_Buffer (outcome_state out) = lx_Buffer L \<and>
    (BufferPtr L < BufferPtr (outcome_state out) \<or> BufferPtr (outcome_state out) = BufferEnd L) \<and>
    BufferPtr (outcome_state out) \<le> BufferEnd L"
proof -
  note d = LexTokenInternal_delivered [OF assms]
  then obtain out where out: "LexTokenInternal L = Some out" by (auto simp: delivered_def)
  then show ?thesis using d by (auto simp: delivered_def min_def split: if_splits)
qed

text \<open>A text with a nested comment, an escaped newline in it, a trigraph, an unterminated literal and an identifier.\<close>

definition total_options :: lexer_options where
  "total_options = \<lparr>Microsoft = False, NoExtensions = False, HexFloats = True, PascalStrings = False, Trigraphs = True,
     BCPLComment = True, DollarIdents = True, AsmPreprocessor = False, Digraphs = True, CPlusPlus = True, ObjC1 = False\<rparr>"

definition total_example :: string where
  "total_example = ''/* /* *'' @ [CHR 0x5C, CHR 0x0A] @ ''/ // ??/'' @ [CHR 0x0A] @ '' x'' @ [CHR 0x0A] @ [CHR 0x22] @ ''abc''"

theorem LexTokenInternal_total_witness:
  "ready (RawLexer total_options total_example 0) \<and> (\<exists>out. LexTokenInternal (RawLexer total_options total_example 0) = Some out)"
proof -
  have "ready (RawLexer total_options total_example 0)" "BufferPtr (RawLexer total_options total_example 0) \<le> BufferEnd (RawLexer total_options total_example 0)"
    by code_simp+
  then show ?thesis using LexTokenInternal_total by blast
qed

end
