(* ===== verification/SourceLocation.thy ===== *)
theory SourceLocation
  imports Prelude
begin

text \<open>
  Source locations (\<^verbatim>\<open>include/clang/Basic/SourceLocation.h\<close>) and the entries of the location table
  (\<^verbatim>\<open>include/clang/Basic/SourceManager.h\<close>), in their 32-bit encodings, with lemmas that read the encodings
  over the natural numbers.
\<close>

unbundle bit_operations_syntax

section \<open>Source locations\<close>

text \<open>An offset into the address space of all files and instantiations, and a bit that marks instantiations.\<close>

type_synonym source_location = u32

definition MacroIDBit :: u32 where
  "MacroIDBit = push_bit 31 1"

definition isFileID :: "source_location \<Rightarrow> bool" where
  "isFileID L \<longleftrightarrow> L AND MacroIDBit = 0"

definition getOffset :: "source_location \<Rightarrow> u32" where
  "getOffset L = L AND NOT MacroIDBit"

definition getFileLoc :: "u32 \<Rightarrow> source_location option" where
  "getFileLoc ID = do { asserting (ID AND MacroIDBit = 0); Some ID }"

definition getMacroLoc :: "u32 \<Rightarrow> source_location option" where
  "getMacroLoc ID = do { asserting (ID AND MacroIDBit = 0); Some (MacroIDBit OR ID) }"

definition getFileLocWithOffset :: "source_location \<Rightarrow> u32 \<Rightarrow> source_location option" where
  "getFileLocWithOffset L Offset = do { asserting ((getOffset L + Offset) AND MacroIDBit = 0); Some (L + Offset) }"

section \<open>Entries\<close>

datatype characteristic_kind = C_User | C_System | C_ExternCSystem

record file_info =
  IncludeLoc :: source_location
  FileContent :: nat
  FileCharacteristic :: characteristic_kind
  HasLineDirectives :: bool

record instantiation_info =
  SpellingLoc :: source_location
  InstantiationLocStart :: source_location
  InstantiationLocEnd :: source_location

text \<open>The low bit of the first word tells which member of the union is there.\<close>

record sloc_entry =
  entry_Offset :: u32
  entry_Data :: "file_info + instantiation_info"

definition entry_getOffset :: "sloc_entry \<Rightarrow> u32" where
  "entry_getOffset E = drop_bit 1 (entry_Offset E)"

definition isInstantiation :: "sloc_entry \<Rightarrow> bool" where
  "isInstantiation E \<longleftrightarrow> entry_Offset E AND 1 \<noteq> 0"

definition getFile :: "sloc_entry \<Rightarrow> file_info option" where
  "getFile E = do { asserting (\<not> isInstantiation E); case entry_Data E of Inl FI \<Rightarrow> Some FI | Inr II \<Rightarrow> None }"

definition getInstantiation :: "sloc_entry \<Rightarrow> instantiation_info option" where
  "getInstantiation E = do { asserting (isInstantiation E); case entry_Data E of Inl FI \<Rightarrow> None | Inr II \<Rightarrow> Some II }"

definition file_entry_at :: "u32 \<Rightarrow> file_info \<Rightarrow> sloc_entry" where
  "file_entry_at Offset FI = \<lparr>entry_Offset = push_bit 1 Offset, entry_Data = Inl FI\<rparr>"

definition instantiation_entry_at :: "u32 \<Rightarrow> instantiation_info \<Rightarrow> sloc_entry" where
  "instantiation_entry_at Offset II = \<lparr>entry_Offset = push_bit 1 Offset OR 1, entry_Data = Inr II\<rparr>"

section \<open>The encodings over the naturals\<close>

text \<open>The offsets that fit beside the marker bit.\<close>

abbreviation loc_limit :: nat where
  "loc_limit \<equiv> 2 ^ 31"

lemma word_less_limit: "unat (x :: u32) < 2 ^ 32"
  using unsigned_less [of x] by simp

lemma bit_MacroIDBit: "bit MacroIDBit n \<longleftrightarrow> n = 31"
  unfolding MacroIDBit_def by (simp only: bit_push_bit_iff bit_1_iff) auto

lemma getOffset_take_bit: "getOffset L = take_bit 31 L"
  by (rule bit_word_eqI) (auto simp: getOffset_def bit_MacroIDBit bit_simps)

lemma unat_getOffset: "unat (getOffset L) = unat L mod loc_limit"
  unfolding getOffset_take_bit unsigned_take_bit_eq by (rule take_bit_eq_mod)

lemma getOffset_less: "unat (getOffset L) < loc_limit"
  by (simp add: unat_getOffset)

lemma and_MacroIDBit: "x AND MacroIDBit = 0 \<longleftrightarrow> \<not> bit x 31"
proof
  assume "x AND MacroIDBit = 0"
  then have "\<not> bit (x AND MacroIDBit) 31" by simp
  then show "\<not> bit x 31" by (simp add: bit_and_iff bit_MacroIDBit)
next
  assume "\<not> bit x 31"
  then show "x AND MacroIDBit = 0" by (intro bit_word_eqI) (auto simp: bit_and_iff bit_MacroIDBit)
qed

lemma bit_31: "bit (x :: u32) 31 \<longleftrightarrow> loc_limit \<le> unat x"
proof -
  have "bit x 31 \<longleftrightarrow> bit (unat x) 31" by (simp add: bit_unsigned_iff)
  also have "\<dots> \<longleftrightarrow> odd (unat x div loc_limit)" by (rule bit_iff_odd)
  also have "\<dots> \<longleftrightarrow> unat x div loc_limit = 1"
  proof -
    have "unat x div loc_limit < 2" using word_less_limit [of x] by (simp add: less_mult_imp_div_less)
    then show ?thesis by (cases "unat x div loc_limit = 0") (auto simp: less_2_cases_iff)
  qed
  also have "\<dots> \<longleftrightarrow> loc_limit \<le> unat x" using word_less_limit [of x] by (auto simp: div_nat_eqI dest: sym)
  finally show ?thesis .
qed

lemma fits_MacroIDBit: "x AND MacroIDBit = 0 \<longleftrightarrow> unat x < loc_limit"
  by (simp add: and_MacroIDBit bit_31 not_le)

lemma isFileID_iff: "isFileID L \<longleftrightarrow> unat L < loc_limit"
  by (simp add: isFileID_def fits_MacroIDBit)

text \<open>Locations as numbers: an offset, with the marker bit in front for instantiations.\<close>

lemma unat_split: "unat L = (if isFileID L then unat (getOffset L) else unat (getOffset L) + loc_limit)"
proof (cases "isFileID L")
  case False
  then have "loc_limit \<le> unat L" "unat L < 2 * loc_limit" using word_less_limit [of L] by (auto simp: isFileID_iff)
  then have "unat L mod loc_limit = unat L - loc_limit" by (simp add: le_mod_geq)
  then show ?thesis using False \<open>loc_limit \<le> unat L\<close> by (simp add: unat_getOffset)
qed (simp add: isFileID_iff unat_getOffset)

lemma location_eqI: "isFileID L = isFileID M \<Longrightarrow> getOffset L = getOffset M \<Longrightarrow> L = M"
  by (metis unat_split word_unat_eq_iff)

lemma unat_add_small: "unat x + unat y < 2 ^ 32 \<Longrightarrow> unat (x + y :: u32) = unat x + unat y"
  by (simp add: unat_word_ariths(1))

text \<open>Moving a location inside the address space.\<close>

lemma getFileLocWithOffset_Some:
  assumes "unat (getOffset L) + unat k < loc_limit"
  shows "getFileLocWithOffset L k = Some (L + k)" "getOffset (L + k) = getOffset L + k" "isFileID (L + k) = isFileID L"
    "unat (getOffset (L + k)) = unat (getOffset L) + unat k"
proof -
  have sum: "unat (getOffset L + k) = unat (getOffset L) + unat k" using assms by (intro unat_add_small) simp
  then show "getFileLocWithOffset L k = Some (L + k)" using assms by (simp add: getFileLocWithOffset_def fits_MacroIDBit)
  have "unat L + unat k < 2 ^ 32" using assms unat_split [of L] by (simp split: if_splits)
  then have L: "unat (L + k) = unat L + unat k" by (rule unat_add_small)
  show f: "isFileID (L + k) = isFileID L"
  proof (cases "isFileID L")
    case True
    then have "unat L = unat (getOffset L)" using unat_split [of L] by simp
    then show ?thesis using assms unfolding isFileID_iff L by linarith
  next
    case False
    then show ?thesis unfolding isFileID_iff L by linarith
  qed
  show u: "unat (getOffset (L + k)) = unat (getOffset L) + unat k" using L f unat_split [of L] unat_split [of "L + k"] by (auto split: if_splits)
  show "getOffset (L + k) = getOffset L + k" using u sum by (simp add: word_unat_eq_iff)
qed

lemma getFileLoc_Some:
  assumes "unat x < loc_limit"
  shows "getFileLoc x = Some x" "isFileID x" "getOffset x = x"
proof -
  show "getFileLoc x = Some x" unfolding getFileLoc_def fits_MacroIDBit using assms by simp
  show "isFileID x" unfolding isFileID_iff using assms .
  have "unat (getOffset x) = unat x" unfolding unat_getOffset using assms by (rule mod_less)
  then show "getOffset x = x" by (simp only: word_unat_eq_iff)
qed

lemma getMacroLoc_Some:
  assumes "unat x < loc_limit"
  shows "getMacroLoc x = Some (MacroIDBit OR x)" "\<not> isFileID (MacroIDBit OR x)" "getOffset (MacroIDBit OR x) = x"
proof -
  show "getMacroLoc x = Some (MacroIDBit OR x)" unfolding getMacroLoc_def fits_MacroIDBit using assms by simp
  show "\<not> isFileID (MacroIDBit OR x)" unfolding isFileID_def and_MacroIDBit by (simp add: bit_or_iff bit_MacroIDBit)
  have "\<not> bit x 31" using assms by (simp add: bit_31)
  then show "getOffset (MacroIDBit OR x) = x" by (intro bit_word_eqI) (auto simp: getOffset_def bit_MacroIDBit bit_simps)
qed

text \<open>Entries keep offsets that fit, and their kind.\<close>

lemma shifted_offset: "unat x < loc_limit \<Longrightarrow> drop_bit 1 (push_bit 1 x) = (x :: u32)"
proof (rule bit_word_eqI)
  fix n assume x: "unat x < loc_limit" and "n < LENGTH(32)"
  then have "n < 31 \<or> \<not> bit x n" using bit_31 [of x] by (cases "n = 31") auto
  then show "bit (drop_bit 1 (push_bit 1 x)) n = bit x n" using \<open>n < LENGTH(32)\<close>
    by (simp only: bit_drop_bit_eq bit_push_bit_iff comp_def) auto
qed

lemma entry_Data_simps [simp]: "entry_Data (file_entry_at x FI) = Inl FI" "entry_Data (instantiation_entry_at x II) = Inr II"
  by (simp_all add: file_entry_at_def instantiation_entry_at_def)

lemma entry_simps [simp]:
  "\<not> isInstantiation (file_entry_at x FI)" "isInstantiation (instantiation_entry_at x II)"
  "getFile (file_entry_at x FI) = Some FI" "getInstantiation (instantiation_entry_at x II) = Some II"
proof -
  have "push_bit 1 x AND 1 = 0" by (rule bit_word_eqI) (simp only: bit_and_iff bit_push_bit_iff bit_1_iff, simp)
  moreover have "(push_bit 1 x OR 1) AND 1 = (1 :: u32)"
    by (rule bit_word_eqI) (simp only: bit_and_iff bit_or_iff bit_push_bit_iff bit_1_iff, auto)
  ultimately show 1: "\<not> isInstantiation (file_entry_at x FI)" "isInstantiation (instantiation_entry_at x II)"
    by (simp_all add: isInstantiation_def file_entry_at_def instantiation_entry_at_def)
  show "getFile (file_entry_at x FI) = Some FI" "getInstantiation (instantiation_entry_at x II) = Some II"
    using 1 by (simp_all add: getFile_def getInstantiation_def)
qed

lemma entry_getOffset [simp]:
  assumes "unat x < loc_limit"
  shows "entry_getOffset (file_entry_at x FI) = x" "entry_getOffset (instantiation_entry_at x II) = x"
proof -
  show "entry_getOffset (file_entry_at x FI) = x" using shifted_offset [OF assms] by (simp add: entry_getOffset_def file_entry_at_def)
  have "drop_bit 1 (push_bit 1 x OR 1) = drop_bit 1 (push_bit 1 x)"
    by (rule bit_word_eqI) (simp only: bit_drop_bit_eq bit_or_iff bit_push_bit_iff bit_1_iff comp_def, auto)
  then show "entry_getOffset (instantiation_entry_at x II) = x" using shifted_offset [OF assms]
    by (simp add: entry_getOffset_def instantiation_entry_at_def)
qed

end
