(* ===== verification/LineTable.thy ===== *)
theory LineTable
  imports SourceLocation
begin

text \<open>
  The line table (\<^verbatim>\<open>include/clang/Basic/SourceManagerInternals.h\<close>, \<^verbatim>\<open>lib/Basic/SourceManager.cpp\<close>): what
  \<^verbatim>\<open>#line\<close> directives and GNU line markers note per file, and the lookup of the note nearest to an offset. A line marker that enters or
  leaves a file is a push or a pop on a virtual include stack, of which every note keeps the top only.
\<close>

section \<open>The table\<close>

text \<open>\<open>FilenameID\<close> is \<open>-1\<close> if it is not specified, \<open>IncludeOffset\<close> is 0 if there is no virtual includer.\<close>

record line_entry =
  FileOffset :: nat
  LineNo :: nat
  FilenameID :: int
  FileKind :: characteristic_kind
  IncludeOffset :: nat

text \<open>The entries of each file, and the names with their numbers.\<close>

record line_table_info =
  FilenameIDs :: "string \<rightharpoonup> nat"
  FilenamesByID :: "string list"
  LineEntries :: "nat \<Rightarrow> line_entry list"

definition LineTableInfo :: line_table_info where
  "LineTableInfo = \<lparr>FilenameIDs = Map.empty, FilenamesByID = [], LineEntries = (\<lambda>_. [])\<rparr>"

definition table_getLineTableFilenameID :: "string \<Rightarrow> line_table_info \<Rightarrow> nat \<times> line_table_info" where
  "table_getLineTableFilenameID Name T =
     (case FilenameIDs T Name of
        Some ID \<Rightarrow> (ID, T)
      | None \<Rightarrow>
          (length (FilenamesByID T),
           T\<lparr>FilenameIDs := (FilenameIDs T)(Name \<mapsto> length (FilenamesByID T)), FilenamesByID := FilenamesByID T @ [Name]\<rparr>))"

definition getFilename :: "nat \<Rightarrow> line_table_info \<Rightarrow> string option" where
  "getFilename ID T = do { asserting (ID < length (FilenamesByID T)); Some (FilenamesByID T ! ID) }"

definition add_entry :: "nat \<Rightarrow> line_entry \<Rightarrow> line_table_info \<Rightarrow> line_table_info" where
  "add_entry FID E T = T\<lparr>LineEntries := (LineEntries T)(FID := LineEntries T FID @ [E])\<rparr>"

definition table_AddLineNote :: "nat \<Rightarrow> nat \<Rightarrow> nat \<Rightarrow> int \<Rightarrow> line_table_info \<Rightarrow> line_table_info option" where
  "table_AddLineNote FID Offset Line Filename T = do {
     let Entries = LineEntries T FID;
     asserting (Entries = [] \<or> FileOffset (last Entries) < Offset);
     Some (if Entries = []
       then add_entry FID \<lparr>FileOffset = Offset, LineNo = Line, FilenameID = Filename, FileKind = C_User, IncludeOffset = 0\<rparr> T
       else add_entry FID \<lparr>FileOffset = Offset, LineNo = Line,
         FilenameID = (if Filename = -1 then FilenameID (last Entries) else Filename),
         FileKind = FileKind (last Entries), IncludeOffset = IncludeOffset (last Entries)\<rparr> T) }"

text \<open>\<^verbatim>\<open>std::upper_bound\<close> on a sorted range: the first position behind \<open>Offset\<close>.\<close>

definition upper_bound :: "nat \<Rightarrow> line_entry list \<Rightarrow> nat" where
  "upper_bound Offset Entries = length (takeWhile (\<lambda>E. \<not> Offset < FileOffset E) Entries)"

definition FindNearestLineEntry :: "nat \<Rightarrow> nat \<Rightarrow> line_table_info \<Rightarrow> line_entry option option" where
  "FindNearestLineEntry FID Offset T = do {
     let Entries = LineEntries T FID;
     asserting (Entries \<noteq> []);
     Some (if FileOffset (last Entries) \<le> Offset then Some (last Entries)
       else let I = upper_bound Offset Entries in if I = 0 then None else Some (Entries ! (I - 1))) }"

text \<open>\<open>EntryExit\<close> is 1 where a file is entered, 2 where one is left. Offsets are unsigned.\<close>

definition marker_IncludeOffset :: "nat \<Rightarrow> nat \<Rightarrow> nat \<Rightarrow> line_table_info \<Rightarrow> nat option" where
  "marker_IncludeOffset FID Offset EntryExit T = (let Entries = LineEntries T FID in
     if EntryExit = 0 then Some (if Entries = [] then 0 else IncludeOffset (last Entries))
     else if EntryExit = 1 then Some ((Offset + (2 ^ 32 - 1)) mod 2 ^ 32)
     else if EntryExit = 2 then do {
       asserting (Entries \<noteq> [] \<and> IncludeOffset (last Entries) \<noteq> 0);
       PrevEntry \<leftarrow> FindNearestLineEntry FID (IncludeOffset (last Entries)) T;
       Some (case PrevEntry of None \<Rightarrow> 0 | Some P \<Rightarrow> IncludeOffset P) }
     else Some 0)"

definition table_AddLineMarker ::
    "nat \<Rightarrow> nat \<Rightarrow> nat \<Rightarrow> int \<Rightarrow> nat \<Rightarrow> characteristic_kind \<Rightarrow> line_table_info \<Rightarrow> line_table_info option" where
  "table_AddLineMarker FID Offset Line Filename EntryExit Kind T = do {
     asserting (Filename \<noteq> -1);
     asserting (LineEntries T FID = [] \<or> FileOffset (last (LineEntries T FID)) < Offset);
     Inc \<leftarrow> marker_IncludeOffset FID Offset EntryExit T;
     Some (add_entry FID \<lparr>FileOffset = Offset, LineNo = Line, FilenameID = Filename, FileKind = Kind, IncludeOffset = Inc\<rparr> T) }"

definition AddEntry :: "nat \<Rightarrow> line_entry list \<Rightarrow> line_table_info \<Rightarrow> line_table_info" where
  "AddEntry FID Entries T = T\<lparr>LineEntries := (LineEntries T)(FID := Entries)\<rparr>"

section \<open>Lookup\<close>

abbreviation sorted_entries :: "line_entry list \<Rightarrow> bool" where
  "sorted_entries Es \<equiv> sorted_wrt (<) (map FileOffset Es)"

text \<open>The last entry that is not behind an offset.\<close>

definition nearest :: "nat \<Rightarrow> line_entry list \<Rightarrow> line_entry option" where
  "nearest Offset Es = (let Fs = filter (\<lambda>E. FileOffset E \<le> Offset) Es in if Fs = [] then None else Some (last Fs))"

lemma sorted_takeWhile_filter: "sorted_entries Es \<Longrightarrow> takeWhile (\<lambda>E. \<not> Offset < FileOffset E) Es = filter (\<lambda>E. FileOffset E \<le> Offset) Es"
proof (induction Es)
  case (Cons E Es)
  have "filter (\<lambda>E. FileOffset E \<le> Offset) Es = []" if "\<not> FileOffset E \<le> Offset"
    using Cons.prems that by (force simp: filter_empty_conv)
  then show ?case using Cons by (auto simp: not_less)
qed simp

lemma FindNearestLineEntry_nearest:
  assumes "sorted_entries (LineEntries T FID)" "LineEntries T FID \<noteq> []"
  shows "FindNearestLineEntry FID Offset T = Some (nearest Offset (LineEntries T FID))"
proof -
  let ?E = "LineEntries T FID"
  let ?F = "filter (\<lambda>E. FileOffset E \<le> Offset) ?E"
  show ?thesis
  proof (cases "FileOffset (last ?E) \<le> Offset")
    case True
    moreover obtain as b where "?E = as @ [b]" using assms(2) by (cases ?E rule: rev_cases) auto
    ultimately have "last ?F = last ?E" "?F \<noteq> []" by auto
    then show ?thesis using True assms(2) by (simp add: FindNearestLineEntry_def nearest_def Let_def)
  next
    case False
    have u: "upper_bound Offset ?E = length ?F" using sorted_takeWhile_filter [OF assms(1)] by (simp add: upper_bound_def)
    have t: "?F = take (length ?F) ?E" using sorted_takeWhile_filter [OF assms(1)] takeWhile_eq_take by metis
    have "?E ! (length ?F - 1) = last ?F" if "?F \<noteq> []"
      using that t by (metis diff_less last_conv_nth length_greater_0_conv less_numeral_extra(1) nth_take)
    then show ?thesis using False assms(2) u by (simp add: FindNearestLineEntry_def nearest_def Let_def)
  qed
qed

lemma nearest_snoc: "nearest Offset (Es @ [E]) = (if FileOffset E \<le> Offset then Some E else nearest Offset Es)"
  by (simp add: nearest_def)

section \<open>The virtual include stack\<close>

text \<open>The notes of one file, and the stack of the offsets they should leave.\<close>

datatype line_note =
  Line nat nat int \<comment> \<open>\<^verbatim>\<open>#line\<close>, or a marker without a name\<close>
| Marker nat nat int characteristic_kind \<comment> \<open>a marker that neither enters nor leaves\<close>
| Enter nat nat int characteristic_kind
| Leave nat nat int characteristic_kind

fun note_offset :: "line_note \<Rightarrow> nat" where
  "note_offset (Line p n f) = p"
| "note_offset (Marker p n f k) = p"
| "note_offset (Enter p n f k) = p"
| "note_offset (Leave p n f k) = p"

fun add_note :: "nat \<Rightarrow> line_note \<Rightarrow> line_table_info \<Rightarrow> line_table_info option" where
  "add_note FID (Line p n f) T = table_AddLineNote FID p n f T"
| "add_note FID (Marker p n f k) T = table_AddLineMarker FID p n f 0 k T"
| "add_note FID (Enter p n f k) T = table_AddLineMarker FID p n f 1 k T"
| "add_note FID (Leave p n f k) T = table_AddLineMarker FID p n f 2 k T"

fun add_notes :: "nat \<Rightarrow> line_note list \<Rightarrow> line_table_info \<Rightarrow> line_table_info option" where
  "add_notes FID [] T = Some T"
| "add_notes FID (N # Ns) T = do { T' \<leftarrow> add_note FID N T; add_notes FID Ns T' }"

fun stack_note :: "line_note \<Rightarrow> nat list \<Rightarrow> nat list" where
  "stack_note (Enter p n f k) st = (p - 1) # st"
| "stack_note (Leave p n f k) st = tl st"
| "stack_note N st = st"

definition top_of :: "nat list \<Rightarrow> nat" where
  "top_of st = (if st = [] then 0 else hd st)"

fun note_ok :: "line_note \<Rightarrow> nat list \<Rightarrow> bool" where
  "note_ok (Line p n f) st = True"
| "note_ok (Marker p n f k) st = (f \<noteq> -1)"
| "note_ok (Enter p n f k) st = (f \<noteq> -1 \<and> 2 \<le> p \<and> p < 2 ^ 32)"
| "note_ok (Leave p n f k) st = (f \<noteq> -1 \<and> st \<noteq> [])"

text \<open>Notes in the order of the file, which leave no file they have not entered.\<close>

fun notes_ok :: "nat \<Rightarrow> line_note list \<Rightarrow> nat list \<Rightarrow> bool" where
  "notes_ok p [] st = True"
| "notes_ok p (N # Ns) st = (p < note_offset N \<and> note_ok N st \<and> notes_ok (note_offset N) Ns (stack_note N st))"

text \<open>The table has the top of the stack, and behind every offset of the stack the rest of it.\<close>

definition represents :: "line_entry list \<Rightarrow> nat list \<Rightarrow> bool" where
  "represents Es st \<longleftrightarrow> sorted_entries Es \<and> 0 \<notin> set st \<and> (Es = [] \<longrightarrow> st = []) \<and>
     (Es \<noteq> [] \<longrightarrow> IncludeOffset (last Es) = top_of st) \<and>
     (\<forall>i < length st. st ! i < FileOffset (last Es) \<and>
        (case nearest (st ! i) Es of None \<Rightarrow> 0 | Some E \<Rightarrow> IncludeOffset E) = top_of (drop (Suc i) st))"

lemma represents_snoc:
  assumes "represents Es st" "Es = [] \<or> FileOffset (last Es) < FileOffset E" "IncludeOffset E = top_of st"
  shows "represents (Es @ [E]) st"
proof -
  have s: "sorted_entries (Es @ [E])"
  proof -
    have "FileOffset x < FileOffset E" if x: "x \<in> set Es" for x
    proof -
      obtain as b where Es: "Es = as @ [b]" using x by (cases Es rule: rev_cases) auto
      have "FileOffset x \<le> FileOffset b" using assms(1) x by (auto simp: represents_def Es sorted_wrt_append)
      then show ?thesis using assms(2) Es by auto
    qed
    then show ?thesis using assms(1) by (auto simp: represents_def sorted_wrt_append)
  qed
  have "nearest (st ! i) (Es @ [E]) = nearest (st ! i) Es" "st ! i < FileOffset E" if "i < length st" for i
    using that assms(1,2) by (auto simp: represents_def nearest_snoc)
  then show ?thesis using assms s by (auto simp: represents_def)
qed

lemma top_of_simps [simp]: "top_of [] = 0" "top_of (x # st) = x"
  by (simp_all add: top_of_def)

lemma represents_enter:
  assumes "represents Es st" "Es = [] \<or> FileOffset (last Es) < FileOffset E" "IncludeOffset E = p - 1" "FileOffset E = p" "2 \<le> p"
  shows "represents (Es @ [E]) ((p - 1) # st)"
proof -
  have s: "sorted_entries (Es @ [E])"
    using represents_snoc [OF assms(1), of "E\<lparr>IncludeOffset := top_of st\<rparr>"] assms(2) by (auto simp: represents_def)
  have n: "nearest (p - 1) (Es @ [E]) = (if Es = [] then None else Some (last Es))"
  proof (cases Es rule: rev_cases)
    case (snoc as b)
    then have "FileOffset (last Es) \<le> p - 1" using assms(2,4,5) by auto
    then show ?thesis using snoc assms(4,5) nearest_snoc [of "p - 1" Es E] nearest_snoc [of "p - 1" as b] by auto
  qed (use assms in \<open>simp add: nearest_def\<close>)
  have "(case nearest (((p - 1) # st) ! i) (Es @ [E]) of None \<Rightarrow> 0 | Some E \<Rightarrow> IncludeOffset E) = top_of (drop (Suc i) ((p - 1) # st)) \<and>
      ((p - 1) # st) ! i < p" if i: "i < length ((p - 1) # st)" for i
  proof (cases i)
    case 0
    then show ?thesis using n assms(1,5) by (auto simp: represents_def)
  next
    case (Suc j)
    then have j: "j < length st" "Es \<noteq> []" using i assms(1) by (auto simp: represents_def)
    then have "st ! j < FileOffset (last Es)" using assms(1) by (auto simp: represents_def)
    then have "nearest (st ! j) (Es @ [E]) = nearest (st ! j) Es" "st ! j < p" using assms(2,4) j by (auto simp: nearest_snoc)
    then show ?thesis using assms(1) j Suc by (auto simp: represents_def)
  qed
  then show ?thesis using s assms by (auto simp: represents_def)
qed

lemma represents_leave:
  assumes "represents Es st" "st \<noteq> []" "FileOffset (last Es) < FileOffset E" "IncludeOffset E = top_of (tl st)"
  shows "represents (Es @ [E]) (tl st)"
proof -
  have ne: "Es \<noteq> []" using assms(1,2) by (auto simp: represents_def)
  have s: "sorted_entries (Es @ [E])"
    using represents_snoc [OF assms(1), of "E\<lparr>IncludeOffset := top_of st\<rparr>"] assms(3) by (auto simp: represents_def)
  have "st ! Suc i < FileOffset (last Es)" "(case nearest (st ! Suc i) Es of None \<Rightarrow> 0 | Some E \<Rightarrow> IncludeOffset E) = top_of (drop (Suc (Suc i)) st)"
    if "i < length (tl st)" for i
    using assms(1) that by (auto simp: represents_def)
  then have "(tl st) ! i < FileOffset E \<and>
      (case nearest (tl st ! i) (Es @ [E]) of None \<Rightarrow> 0 | Some E \<Rightarrow> IncludeOffset E) = top_of (drop (Suc i) (tl st))" if "i < length (tl st)" for i
    using that assms(3) by (fastforce simp: nth_tl nearest_snoc drop_Suc)
  moreover have "0 \<notin> set (tl st)" using assms(1,2) by (auto simp: represents_def dest: list.set_sel(2))
  ultimately show ?thesis using assms(4) s by (auto simp: represents_def)
qed

lemma add_note_represents:
  assumes "represents (LineEntries T FID) st" "note_ok N st" "LineEntries T FID = [] \<or> FileOffset (last (LineEntries T FID)) < note_offset N"
  shows "\<exists>E. add_note FID N T = Some (add_entry FID E T) \<and> FileOffset E = note_offset N \<and> represents (LineEntries T FID @ [E]) (stack_note N st)"
proof -
  let ?E = "LineEntries T FID"
  note more = represents_snoc [OF assms(1)]
  have top: "?E \<noteq> [] \<Longrightarrow> IncludeOffset (last ?E) = top_of st" "?E = [] \<Longrightarrow> top_of st = 0"
    using assms(1) by (auto simp: represents_def top_of_def)
  show ?thesis
  proof (cases N)
    case (Line p n f)
    define E where "E = (if ?E = [] then \<lparr>FileOffset = p, LineNo = n, FilenameID = f, FileKind = C_User, IncludeOffset = 0\<rparr>
      else \<lparr>FileOffset = p, LineNo = n, FilenameID = (if f = -1 then FilenameID (last ?E) else f),
        FileKind = FileKind (last ?E), IncludeOffset = IncludeOffset (last ?E)\<rparr>)"
    have "add_note FID N T = Some (add_entry FID E T)" using assms(3) Line by (auto simp: table_AddLineNote_def E_def Let_def)
    moreover have "FileOffset E = p" "IncludeOffset E = top_of st" using top by (auto simp: E_def)
    ultimately show ?thesis using Line assms(3) more [of E] by auto
  next
    case (Marker p n f k)
    define E where "E = \<lparr>FileOffset = p, LineNo = n, FilenameID = f, FileKind = k, IncludeOffset = top_of st\<rparr>"
    have "marker_IncludeOffset FID p 0 T = Some (top_of st)" using top by (auto simp: marker_IncludeOffset_def Let_def)
    then have "add_note FID N T = Some (add_entry FID E T)" using assms(2,3) Marker by (auto simp: table_AddLineMarker_def E_def)
    moreover have "FileOffset E = p" "IncludeOffset E = top_of st" by (auto simp: E_def)
    ultimately show ?thesis using Marker assms(3) more [of E] by auto
  next
    case (Enter p n f k)
    then have p: "2 \<le> p" "f \<noteq> -1" "p < 2 ^ 32" using assms(2) by auto
    then have "(p + (2 ^ 32 - 1)) mod 2 ^ 32 = p - 1" by (simp add: le_mod_geq)
    moreover define E where "E = \<lparr>FileOffset = p, LineNo = n, FilenameID = f, FileKind = k, IncludeOffset = p - 1\<rparr>"
    ultimately have "add_note FID N T = Some (add_entry FID E T)"
      using Enter p assms(3) by (auto simp: table_AddLineMarker_def marker_IncludeOffset_def Let_def)
    moreover have "FileOffset E = p" "IncludeOffset E = p - 1" by (simp_all add: E_def)
    ultimately show ?thesis using Enter assms(3) p(1) represents_enter [OF assms(1), of E p] by auto
  next
    case (Leave p n f k)
    then have st: "st \<noteq> []" "f \<noteq> -1" using assms(2) by auto
    then have ne: "?E \<noteq> []" "hd st \<noteq> 0" "IncludeOffset (last ?E) = hd st" using assms(1) st(1) by (cases st; auto simp: represents_def)+
    have "0 < length st" using st by simp
    then have n: "(case nearest (hd st) ?E of None \<Rightarrow> 0 | Some E \<Rightarrow> IncludeOffset E) = top_of (tl st)"
      using assms(1) st(1) by (auto simp: represents_def hd_conv_nth drop_Suc)
    have "sorted_entries ?E" using assms(1) by (simp add: represents_def)
    then have "marker_IncludeOffset FID p 2 T = Some (top_of (tl st))"
      using FindNearestLineEntry_nearest [of T FID] ne n by (simp add: marker_IncludeOffset_def Let_def)
    moreover define E where "E = \<lparr>FileOffset = p, LineNo = n, FilenameID = f, FileKind = k, IncludeOffset = top_of (tl st)\<rparr>"
    ultimately have "add_note FID N T = Some (add_entry FID E T)" using Leave st assms(3) by (auto simp: table_AddLineMarker_def)
    moreover have "FileOffset E = p" "IncludeOffset E = top_of (tl st)" by (simp_all add: E_def)
    ultimately show ?thesis using Leave assms(3) st ne(1) represents_leave [OF assms(1), of E] by auto
  qed
qed

lemma add_notes_represents:
  assumes "represents (LineEntries T FID) st" "notes_ok p Ns st" "LineEntries T FID = [] \<or> FileOffset (last (LineEntries T FID)) \<le> p"
  shows "\<exists>T'. add_notes FID Ns T = Some T' \<and> represents (LineEntries T' FID) (fold stack_note Ns st) \<and>
    map FileOffset (LineEntries T' FID) = map FileOffset (LineEntries T FID) @ map note_offset Ns"
  using assms
proof (induction Ns arbitrary: T st p)
  case (Cons N Ns)
  obtain E where E: "add_note FID N T = Some (add_entry FID E T)" "FileOffset E = note_offset N"
    "represents (LineEntries T FID @ [E]) (stack_note N st)"
    using add_note_represents [of T FID st N] Cons.prems by fastforce
  have T': "LineEntries (add_entry FID E T) FID = LineEntries T FID @ [E]" by (simp add: add_entry_def)
  show ?case using Cons.IH [of "add_entry FID E T" "stack_note N st" "note_offset N"] Cons.prems(2) E T' by auto
qed simp

text \<open>
  C28: line markers are a stack. For any notes of a file that come in the order of its offsets, enter files from offset 2 on
  and leave no file they have not entered, every note is accepted, and the include offset of the last entry is the top of the
  stack of entered and not yet left files (each represented by the offset in front of its marker), or 0 if there is none; and
  every lookup finds the last entry that is not behind the offset.
\<close>

theorem line_markers_are_a_stack:
  assumes "notes_ok 0 Ns []" "Ns \<noteq> []"
  shows "\<exists>T. add_notes FID Ns LineTableInfo = Some T \<and> IncludeOffset (last (LineEntries T FID)) = top_of (fold stack_note Ns []) \<and>
    map FileOffset (LineEntries T FID) = map note_offset Ns \<and>
    (\<forall>Offset. FindNearestLineEntry FID Offset T = Some (nearest Offset (LineEntries T FID)))"
proof -
  have "represents (LineEntries LineTableInfo FID) []" by (simp add: represents_def LineTableInfo_def)
  from add_notes_represents [OF this assms(1)] obtain T where T: "add_notes FID Ns LineTableInfo = Some T"
    "represents (LineEntries T FID) (fold stack_note Ns [])" "map FileOffset (LineEntries T FID) = map note_offset Ns"
    by (auto simp: LineTableInfo_def)
  then have "LineEntries T FID \<noteq> []" using assms(2) by auto
  then show ?thesis using T FindNearestLineEntry_nearest [of T FID] by (auto simp: represents_def)
qed

theorem line_markers_are_a_stack_witness:
  "\<exists>T. add_notes 3 [Line 2 1 0, Enter 10 1 1 C_System, Enter 20 1 2 C_System, Line 25 7 (-1), Leave 30 5 1 C_System] LineTableInfo = Some T \<and>
     IncludeOffset (last (LineEntries T 3)) = 9"
proof -
  let ?N = "[Line 2 1 0, Enter 10 1 1 C_System, Enter 20 1 2 C_System, Line 25 7 (-1), Leave 30 5 1 C_System]"
  have ok: "notes_ok 0 ?N []" "?N \<noteq> []" by simp_all
  have top: "top_of (fold stack_note ?N []) = 9" by simp
  obtain T where "add_notes 3 ?N LineTableInfo = Some T" "IncludeOffset (last (LineEntries T 3)) = top_of (fold stack_note ?N [])"
    using line_markers_are_a_stack [OF ok, of 3] by blast
  then show ?thesis unfolding top by blast
qed

end
