(* ===== verification/SourceManager.thy ===== *)
theory SourceManager
  imports LineTable
begin

text \<open>
  The source manager (\<^verbatim>\<open>lib/Basic/SourceManager.cpp\<close>, \<^verbatim>\<open>include/clang/Basic/SourceManager.h\<close>): the files and buffers, the
  table of location entries, and the lookups that turn a location into a file and an offset. The lookups
  keep caches, so every one of them returns the state too. A failed assertion, a null pointer that is followed and an access outside
  the table are \<open>None\<close>. Reading a file is a parameter: it maps the name and the size asked for to the contents.
\<close>

section \<open>State\<close>

record file_entry =
  fe_UID :: nat
  fe_Name :: string
  fe_Size :: nat

text \<open>A content cache is named by its position in the list of all of them; \<open>cc_SourceLineCache\<close> holds the line offsets.\<close>

record content_cache =
  cc_Buffer :: "string option"
  cc_Identifier :: string
  cc_Entry :: "file_entry option"
  cc_SourceLineCache :: "nat list option"

record source_manager =
  Contents :: "content_cache list"
  FileInfos :: "file_entry \<rightharpoonup> nat"
  MemBufferInfos :: "nat list"
  SLocEntryTable :: "sloc_entry list"
  NextOffset :: u32
  LastFileIDLookup :: nat
  sm_LineTable :: "line_table_info option"
  LastLineNoFileIDQuery :: nat
  LastLineNoContentCache :: "nat option"
  LastLineNoFilePos :: nat
  LastLineNoResult :: nat
  MainFileID :: nat

type_synonym file_system = "string \<Rightarrow> nat \<Rightarrow> string option"

section \<open>Contents\<close>

definition cc_getSize :: "content_cache \<Rightarrow> nat option" where
  "cc_getSize C = (case cc_Entry C of Some E \<Rightarrow> Some (fe_Size E) | None \<Rightarrow> map_option length (cc_Buffer C))"

definition cc_getBuffer :: "file_system \<Rightarrow> content_cache \<Rightarrow> content_cache" where
  "cc_getBuffer FS C =
     (case (cc_Buffer C, cc_Entry C) of
        (None, Some E) \<Rightarrow> C\<lparr>cc_Buffer := FS (fe_Name E) (fe_Size E)\<rparr>
      | _ \<Rightarrow> C)"

definition getOrCreateContentCache :: "file_entry \<Rightarrow> source_manager \<Rightarrow> nat \<times> source_manager" where
  "getOrCreateContentCache FileEnt SM =
     (case FileInfos SM FileEnt of
        Some C \<Rightarrow> (C, SM)
      | None \<Rightarrow>
          (length (Contents SM),
           SM\<lparr>Contents := Contents SM @ [\<lparr>cc_Buffer = None, cc_Identifier = fe_Name FileEnt, cc_Entry = Some FileEnt, cc_SourceLineCache = None\<rparr>],
              FileInfos := (FileInfos SM)(FileEnt \<mapsto> length (Contents SM))\<rparr>))"

definition createMemBufferContentCache :: "string \<Rightarrow> string \<Rightarrow> source_manager \<Rightarrow> nat \<times> source_manager" where
  "createMemBufferContentCache Name Buf SM =
     (length (Contents SM),
      SM\<lparr>Contents := Contents SM @ [\<lparr>cc_Buffer = Some Buf, cc_Identifier = Name, cc_Entry = None, cc_SourceLineCache = None\<rparr>],
         MemBufferInfos := MemBufferInfos SM @ [length (Contents SM)]\<rparr>)"

section \<open>New files and instantiations\<close>

definition createInstantiationLoc ::
    "source_location \<Rightarrow> source_location \<Rightarrow> source_location \<Rightarrow> u32 \<Rightarrow> source_manager \<Rightarrow> (source_location \<times> source_manager) option" where
  "createInstantiationLoc Spelling ILocStart ILocEnd TokLength SM = do {
     let II = \<lparr>SpellingLoc = Spelling, InstantiationLocStart = ILocStart, InstantiationLocEnd = ILocEnd\<rparr>;
     asserting (NextOffset SM + TokLength + 1 > NextOffset SM);
     let Next = NextOffset SM + (TokLength + 1);
     Loc \<leftarrow> getMacroLoc (Next - (TokLength + 1));
     Some (Loc, SM\<lparr>SLocEntryTable := SLocEntryTable SM @ [instantiation_entry_at (NextOffset SM) II], NextOffset := Next\<rparr>) }"

definition createFileID_content ::
    "nat \<Rightarrow> source_location \<Rightarrow> characteristic_kind \<Rightarrow> source_manager \<Rightarrow> (nat \<times> source_manager) option" where
  "createFileID_content File IncludePos FileCharacter SM = do {
     let FI = \<lparr>IncludeLoc = IncludePos, FileContent = File, FileCharacteristic = FileCharacter, HasLineDirectives = False\<rparr>;
     asserting (File < length (Contents SM));
     Size \<leftarrow> cc_getSize (Contents SM ! File);
     let FileSize = (of_nat Size :: u32);
     asserting (NextOffset SM + FileSize + 1 > NextOffset SM);
     let FID = length (SLocEntryTable SM);
     Some (FID, SM\<lparr>SLocEntryTable := SLocEntryTable SM @ [file_entry_at (NextOffset SM) FI],
       NextOffset := NextOffset SM + (FileSize + 1), LastFileIDLookup := FID\<rparr>) }"

definition createFileID ::
    "file_entry \<Rightarrow> source_location \<Rightarrow> characteristic_kind \<Rightarrow> source_manager \<Rightarrow> (nat \<times> source_manager) option" where
  "createFileID SourceFile IncludePos FileCharacter SM =
     (let (IR, SM') = getOrCreateContentCache SourceFile SM in createFileID_content IR IncludePos FileCharacter SM')"

definition createFileIDForMemBuffer :: "string \<Rightarrow> string \<Rightarrow> source_manager \<Rightarrow> (nat \<times> source_manager) option" where
  "createFileIDForMemBuffer Name Buf SM =
     (let (C, SM') = createMemBufferContentCache Name Buf SM in createFileID_content C 0 C_User SM')"

definition createMainFileID :: "file_entry \<Rightarrow> source_location \<Rightarrow> source_manager \<Rightarrow> (nat \<times> source_manager) option" where
  "createMainFileID SourceFile IncludePos SM = do {
     asserting (MainFileID SM = 0);
     (FID, SM') \<leftarrow> createFileID SourceFile IncludePos C_User SM;
     Some (FID, SM'\<lparr>MainFileID := FID\<rparr>) }"

definition createMainFileIDForMemBuffer :: "string \<Rightarrow> string \<Rightarrow> source_manager \<Rightarrow> (nat \<times> source_manager) option" where
  "createMainFileIDForMemBuffer Name Buf SM = do {
     asserting (MainFileID SM = 0);
     (FID, SM') \<leftarrow> createFileIDForMemBuffer Name Buf SM;
     Some (FID, SM'\<lparr>MainFileID := FID\<rparr>) }"

text \<open>The constructor and \<^verbatim>\<open>clearIDTables\<close> use up the first entry as an invalid instantiation.\<close>

definition clearIDTables :: "source_manager \<Rightarrow> source_manager option" where
  "clearIDTables SM = map_option snd (createInstantiationLoc 0 0 0 1
     (SM\<lparr>MainFileID := 0, SLocEntryTable := [], LastLineNoFileIDQuery := 0, LastLineNoContentCache := None, LastFileIDLookup := 0,
        sm_LineTable := map_option (\<lambda>_. LineTableInfo) (sm_LineTable SM), NextOffset := 0\<rparr>))"

definition SourceManager_new :: "source_manager option" where
  "SourceManager_new = clearIDTables
     \<lparr>Contents = [], FileInfos = Map.empty, MemBufferInfos = [], SLocEntryTable = [], NextOffset = 0, LastFileIDLookup = 0,
      sm_LineTable = None, LastLineNoFileIDQuery = 0, LastLineNoContentCache = None, LastLineNoFilePos = 0, LastLineNoResult = 0, MainFileID = 0\<rparr>"

section \<open>Lookup\<close>

definition getSLocEntry :: "source_manager \<Rightarrow> nat \<Rightarrow> sloc_entry option" where
  "getSLocEntry SM FID = do { asserting (FID < length (SLocEntryTable SM)); Some (SLocEntryTable SM ! FID) }"

definition isOffsetInFileID :: "source_manager \<Rightarrow> nat \<Rightarrow> u32 \<Rightarrow> bool option" where
  "isOffsetInFileID SM FID SLocOffset = do {
     Entry \<leftarrow> getSLocEntry SM FID;
     Some (\<not> SLocOffset < entry_getOffset Entry \<and>
       (FID + 1 = length (SLocEntryTable SM) \<or> SLocOffset < entry_getOffset (SLocEntryTable SM ! (FID + 1)))) }"

text \<open>The linear search downwards from \<open>I\<close>: what it finds, or where it is after eight probes.\<close>

fun linear_search :: "sloc_entry list \<Rightarrow> u32 \<Rightarrow> nat \<Rightarrow> nat \<Rightarrow> (nat + nat) option" where
  "linear_search Table SLocOffset 0 NumProbes = None"
| "linear_search Table SLocOffset (Suc I) NumProbes =
     (if entry_getOffset (Table ! I) \<le> SLocOffset then Some (Inl I)
      else if NumProbes + 1 = 8 then Some (Inr I)
      else linear_search Table SLocOffset I (NumProbes + 1))"

partial_function (option) binary_search :: "source_manager \<Rightarrow> u32 \<Rightarrow> nat \<Rightarrow> nat \<Rightarrow> nat option" where
  "binary_search SM SLocOffset LessIndex GreaterIndex =
     (let MiddleIndex = (GreaterIndex - LessIndex) div 2 + LessIndex
      in Option.bind (getSLocEntry SM MiddleIndex) (\<lambda>E.
           if entry_getOffset E > SLocOffset then binary_search SM SLocOffset LessIndex MiddleIndex
           else Option.bind (isOffsetInFileID SM MiddleIndex SLocOffset) (\<lambda>found.
             if found then Some MiddleIndex else binary_search SM SLocOffset MiddleIndex GreaterIndex)))"

text \<open>Both searches store the result in the cache if the entry the linear search stopped at is no instantiation.\<close>

definition getFileIDSlow :: "source_manager \<Rightarrow> u32 \<Rightarrow> (nat \<times> source_manager) option" where
  "getFileIDSlow SM SLocOffset = do {
     asserting (SLocOffset \<noteq> 0);
     Last \<leftarrow> getSLocEntry SM (LastFileIDLookup SM);
     let I = (if entry_getOffset Last < SLocOffset then length (SLocEntryTable SM) else LastFileIDLookup SM);
     r \<leftarrow> linear_search (SLocEntryTable SM) SLocOffset I 0;
     case r of
       Inl J \<Rightarrow> Some (J, if isInstantiation (SLocEntryTable SM ! J) then SM else SM\<lparr>LastFileIDLookup := J\<rparr>)
     | Inr J \<Rightarrow> do {
         Res \<leftarrow> binary_search SM SLocOffset 0 J;
         Some (Res, if isInstantiation (SLocEntryTable SM ! J) then SM else SM\<lparr>LastFileIDLookup := Res\<rparr>) } }"

definition getFileID :: "source_manager \<Rightarrow> source_location \<Rightarrow> (nat \<times> source_manager) option" where
  "getFileID SM Loc = do {
     let SLocOffset = getOffset Loc;
     cached \<leftarrow> isOffsetInFileID SM (LastFileIDLookup SM) SLocOffset;
     if cached then Some (LastFileIDLookup SM, SM) else getFileIDSlow SM SLocOffset }"

definition getLocForStartOfFile :: "source_manager \<Rightarrow> nat \<Rightarrow> source_location option" where
  "getLocForStartOfFile SM FID = do {
     asserting (FID < length (SLocEntryTable SM) \<and> \<not> isInstantiation (SLocEntryTable SM ! FID));
     getFileLoc (entry_getOffset (SLocEntryTable SM ! FID)) }"

definition getDecomposedLoc :: "source_manager \<Rightarrow> source_location \<Rightarrow> (nat \<times> u32 \<times> source_manager) option" where
  "getDecomposedLoc SM Loc = do {
     (FID, SM') \<leftarrow> getFileID SM Loc;
     E \<leftarrow> getSLocEntry SM' FID;
     Some (FID, getOffset Loc - entry_getOffset E, SM') }"

section \<open>The table\<close>

text \<open>The invariant: entries are in the order of their offsets, the first at 0, and all addresses fit beside the marker bit.\<close>

definition offsets :: "source_manager \<Rightarrow> nat list" where
  "offsets SM = map (\<lambda>E. unat (entry_getOffset E)) (SLocEntryTable SM)"

definition table_ok :: "source_manager \<Rightarrow> bool" where
  "table_ok SM \<longleftrightarrow> offsets SM \<noteq> [] \<and> hd (offsets SM) = 0 \<and> sorted_wrt (<) (offsets SM @ [unat (NextOffset SM)]) \<and>
     unat (NextOffset SM) \<le> loc_limit \<and> LastFileIDLookup SM < length (SLocEntryTable SM)"

text \<open>The reference: the last entry that does not start behind an offset, of which the range goes up to the next.\<close>

definition file_of :: "source_manager \<Rightarrow> nat \<Rightarrow> nat" where
  "file_of SM x = length (filter (\<lambda>a. a \<le> x) (offsets SM)) - 1"

definition in_file :: "source_manager \<Rightarrow> nat \<Rightarrow> nat \<Rightarrow> bool" where
  "in_file SM x f \<longleftrightarrow> f < length (offsets SM) \<and> offsets SM ! f \<le> x \<and> (f + 1 < length (offsets SM) \<longrightarrow> x < offsets SM ! (f + 1))"

lemma length_offsets [simp]: "length (offsets SM) = length (SLocEntryTable SM)"
  by (simp add: offsets_def)

lemma nth_offsets: "f < length (SLocEntryTable SM) \<Longrightarrow> offsets SM ! f = unat (entry_getOffset (SLocEntryTable SM ! f))"
  by (simp add: offsets_def)

lemma table_offsets_less:
  assumes "table_ok SM" "f < g" "g < length (SLocEntryTable SM)"
  shows "offsets SM ! f < offsets SM ! g"
  using assms by (auto simp: table_ok_def sorted_wrt_append intro: sorted_wrt_nth_less)

lemma in_file_unique: "table_ok SM \<Longrightarrow> in_file SM x f \<Longrightarrow> in_file SM x g \<Longrightarrow> f = g"
proof -
  have no: "\<not> f < g" if "table_ok SM" "in_file SM x f" "in_file SM x g" for f g
  proof
    assume "f < g"
    then have "offsets SM ! (f + 1) \<le> offsets SM ! g"
      using that table_offsets_less [OF that(1), of "f + 1" g] by (cases "f + 1 = g") (auto simp: in_file_def)
    then show False using that \<open>f < g\<close> by (auto simp: in_file_def)
  qed
  assume "table_ok SM" "in_file SM x f" "in_file SM x g"
  then show "f = g" using no [of f g] no [of g f] by simp
qed

lemma sorted_filter_take: "sorted_wrt (<) xs \<Longrightarrow> filter (\<lambda>a. a \<le> (x :: nat)) xs = take (length (filter (\<lambda>a. a \<le> x) xs)) xs"
proof (induction xs)
  case (Cons a xs)
  have "filter (\<lambda>a. a \<le> x) xs = []" if "\<not> a \<le> x" using Cons.prems that by (force simp: filter_empty_conv)
  then show ?case using Cons by auto
qed simp

lemma in_file_of:
  assumes "table_ok SM"
  shows "in_file SM x (file_of SM x)"
proof -
  let ?o = "offsets SM" and ?n = "length (filter (\<lambda>a. a \<le> x) (offsets SM))"
  have s: "sorted_wrt (<) ?o" "?o \<noteq> []" "hd ?o = 0" using assms by (auto simp: table_ok_def sorted_wrt_append)
  have t: "filter (\<lambda>a. a \<le> x) ?o = take ?n ?o" using sorted_filter_take [OF s(1)] .
  have n: "0 < ?n" using s(2,3) by (cases ?o) auto
  have le: "?n \<le> length ?o" by (rule length_filter_le)
  have mem: "?o ! j \<in> set (take m ?o)" if "j < m" "m \<le> length ?o" for j m
    using that by (metis in_set_conv_nth length_take min.absorb2 nth_take)
  have "?o ! (?n - 1) \<in> set (filter (\<lambda>a. a \<le> x) ?o)" by (subst t, rule mem) (use n le in auto)
  then have "?o ! (?n - 1) \<le> x" by simp
  moreover have "x < ?o ! ?n" if lt: "?n < length ?o"
  proof (rule ccontr)
    assume "\<not> x < ?o ! ?n"
    then have "?o ! ?n \<in> set (filter (\<lambda>a. a \<le> x) ?o)" using lt by simp
    then have "?o ! ?n \<in> set (take ?n ?o)" by (subst (asm) t)
    then obtain j where "j < ?n" "?o ! j = ?o ! ?n" by (metis in_set_conv_nth length_take min.absorb2 le nth_take)
    then show False using sorted_wrt_nth_less [OF s(1), of j ?n] lt by simp
  qed
  moreover have "Suc (?n - 1) = ?n" "?n - 1 < length ?o" using n le by linarith+
  ultimately show ?thesis unfolding in_file_def file_of_def Suc_eq_plus1 [symmetric] by metis
qed

lemma isOffsetInFileID_iff:
  assumes "f < length (SLocEntryTable SM)"
  shows "isOffsetInFileID SM f x = Some (in_file SM (unat x) f)"
  using assms by (auto simp: isOffsetInFileID_def getSLocEntry_def in_file_def nth_offsets word_less_nat_alt not_less word_le_nat_alt)

lemma in_file_le:
  assumes "table_ok SM" "in_file SM x f" "g < length (SLocEntryTable SM)"
  shows "offsets SM ! g \<le> x \<longleftrightarrow> g \<le> f"
proof
  assume le: "offsets SM ! g \<le> x"
  show "g \<le> f"
  proof (rule ccontr)
    assume "\<not> g \<le> f"
    then have "offsets SM ! (f + 1) \<le> offsets SM ! g" "f + 1 < length (SLocEntryTable SM)"
      using table_offsets_less [OF assms(1), of "f + 1" g] assms(3) by (cases "f + 1 = g"; auto)+
    then show False using assms(2) le by (auto simp: in_file_def)
  qed
next
  assume "g \<le> f"
  then show "offsets SM ! g \<le> x" using table_offsets_less [OF assms(1), of g f] assms(2) by (cases "g = f") (auto simp: in_file_def)
qed

lemma linear_search_correct:
  assumes "table_ok SM" "in_file SM (unat x) f" "f < I" "I \<le> length (SLocEntryTable SM)" "n < 8"
  shows "linear_search (SLocEntryTable SM) x I n = Some (Inl f) \<or> (\<exists>J. linear_search (SLocEntryTable SM) x I n = Some (Inr J) \<and> f < J \<and> J < I)"
  using assms(3-5)
proof (induction I arbitrary: n)
  case (Suc I)
  have le: "entry_getOffset (SLocEntryTable SM ! I) \<le> x \<longleftrightarrow> I \<le> f"
    using in_file_le [OF assms(1,2), of I] Suc.prems(2) by (simp add: nth_offsets word_le_nat_alt)
  show ?case
  proof (cases "I \<le> f")
    case True
    then show ?thesis using le Suc.prems(1) by simp
  next
    case False
    then show ?thesis using le Suc.IH [of "n + 1"] Suc.prems by (cases "n + 1 = 8") auto
  qed
qed simp

lemma binary_search_correct:
  assumes "table_ok SM" "in_file SM (unat x) f" "l \<le> f" "f < g" "g \<le> length (SLocEntryTable SM)"
  shows "binary_search SM x l g = Some f"
  using assms(3-5)
proof (induction "g - l" arbitrary: l g rule: less_induct)
  case less
  define m where "m = (g - l) div 2 + l"
  have m: "l \<le> m" "m < g" "m < length (SLocEntryTable SM)" "m = l \<Longrightarrow> g = l + 1" using less.prems by (auto simp: m_def)
  have le: "entry_getOffset (SLocEntryTable SM ! m) > x \<longleftrightarrow> f < m"
    using in_file_le [OF assms(1,2) m(3)] m(3) by (auto simp: nth_offsets word_less_nat_alt not_le)
  have found: "isOffsetInFileID SM m x = Some (m = f)"
    unfolding isOffsetInFileID_iff [OF m(3)] option.inject using in_file_unique [OF assms(1)] assms(2) by blast
  have E: "getSLocEntry SM m = Some (SLocEntryTable SM ! m)" using m(3) by (simp add: getSLocEntry_def)
  have eq: "binary_search SM x l g =
     (if f < m then binary_search SM x l m else if m = f then Some m else binary_search SM x m g)"
    unfolding binary_search.simps [of SM x l g] Let_def m_def [symmetric] E bind.bind_lunit found le by (rule refl)
  consider "f < m" | "m = f" | "m < f" by linarith
  then show ?case
  proof cases
    case 1
    then show ?thesis unfolding eq if_P [OF 1] using less.hyps [of m l] less.prems m by linarith
  next
    case 2
    then show ?thesis unfolding eq by simp
  next
    case 3
    then have "l < m" using m less.prems by linarith
    then have "g - m < g - l" using m(2) by linarith
    then show ?thesis unfolding eq using 3 less.hyps [of g m] less.prems m by simp
  qed
qed

text \<open>The lookups change nothing but the cache; what holds of the table does not see it.\<close>

lemma cache_simps [simp]:
  "offsets (SM\<lparr>LastFileIDLookup := c\<rparr>) = offsets SM" "file_of (SM\<lparr>LastFileIDLookup := c\<rparr>) = file_of SM"
  "in_file (SM\<lparr>LastFileIDLookup := c\<rparr>) = in_file SM" "getSLocEntry (SM\<lparr>LastFileIDLookup := c\<rparr>) = getSLocEntry SM"
  "table_ok SM \<Longrightarrow> table_ok (SM\<lparr>LastFileIDLookup := c\<rparr>) \<longleftrightarrow> c < length (SLocEntryTable SM)"
  by (auto simp: offsets_def file_of_def in_file_def getSLocEntry_def table_ok_def fun_eq_iff)

lemma getFileID_finds:
  assumes "table_ok SM" "getOffset Loc \<noteq> 0"
  shows "\<exists>c < length (SLocEntryTable SM). getFileID SM Loc = Some (file_of SM (unat (getOffset Loc)), SM\<lparr>LastFileIDLookup := c\<rparr>)"
proof -
  let ?x = "getOffset Loc" and ?T = "SLocEntryTable SM" and ?L = "LastFileIDLookup SM"
  define f where "f = file_of SM (unat ?x)"
  have f: "in_file SM (unat ?x) f" using in_file_of [OF assms(1)] by (simp add: f_def)
  have fl: "f < length ?T" using f by (simp add: in_file_def)
  have L: "?L < length ?T" using assms(1) by (simp add: table_ok_def)
  have cached: "isOffsetInFileID SM ?L ?x = Some (?L = f)"
    unfolding isOffsetInFileID_iff [OF L] option.inject using in_file_unique [OF assms(1)] f by blast
  have same: "SM\<lparr>LastFileIDLookup := ?L\<rparr> = SM" by simp
  have "\<exists>c < length ?T. getFileID SM Loc = Some (f, SM\<lparr>LastFileIDLookup := c\<rparr>)"
  proof (cases "?L = f")
    case True
    then have "getFileID SM Loc = Some (f, SM\<lparr>LastFileIDLookup := f\<rparr>)" using cached same by (simp add: getFileID_def)
    then show ?thesis using fl by blast
  next
    case False
    define I where "I = (if entry_getOffset (?T ! ?L) < ?x then length ?T else ?L)"
    have I: "f < I" "I \<le> length ?T"
    proof -
      have "f < ?L" if "\<not> entry_getOffset (?T ! ?L) < ?x"
      proof -
        have "unat ?x \<le> offsets SM ! ?L" using that L by (simp add: nth_offsets word_less_nat_alt)
        then have "offsets SM ! f \<le> offsets SM ! ?L" using f by (simp add: in_file_def)
        then have "\<not> ?L < f" using table_offsets_less [OF assms(1) _ fl] by (meson not_less)
        then show ?thesis using False by simp
      qed
      then show "f < I" "I \<le> length ?T" using fl L by (auto simp: I_def)
    qed
    have slow: "getFileID SM Loc = getFileIDSlow SM ?x" using cached False by (simp add: getFileID_def Let_def)
    have E: "getSLocEntry SM ?L = Some (?T ! ?L)" using L by (simp add: getSLocEntry_def)
    have x: "asserting (?x \<noteq> 0) = Some ()" using assms(2) by simp
    note eq = getFileIDSlow_def [of SM ?x, unfolded Let_def E x bind.bind_lunit I_def [symmetric]]
    from linear_search_correct [OF assms(1) f I, of 0]
    consider "linear_search ?T ?x I 0 = Some (Inl f)" | J where "linear_search ?T ?x I 0 = Some (Inr J)" "f < J" "J < I" by auto
    then show ?thesis
    proof cases
      case 1
      then have "getFileID SM Loc = Some (f, SM\<lparr>LastFileIDLookup := if isInstantiation (?T ! f) then ?L else f\<rparr>)"
        unfolding slow eq 1 by (cases "isInstantiation (?T ! f)") (simp_all add: same)
      then show ?thesis using L fl by (metis (full_types))
    next
      case 2
      then have "binary_search SM ?x 0 J = Some f" using I(2) by (intro binary_search_correct [OF assms(1) f]) auto
      then have "getFileID SM Loc = Some (f, SM\<lparr>LastFileIDLookup := if isInstantiation (?T ! J) then ?L else f\<rparr>)"
        unfolding slow eq 2(1) by (cases "isInstantiation (?T ! J)") (simp_all add: same)
      then show ?thesis using L fl by (metis (full_types))
    qed
  qed
  then show ?thesis unfolding f_def .
qed

text \<open>
  A table to run things on: after the unused entry a buffer, a macro expansion in it, and an expansion inside that one.
\<close>

definition example_sm :: source_manager where
  "example_sm = \<lparr>Contents = [\<lparr>cc_Buffer = Some ''ab cd;x'', cc_Identifier = ''b'', cc_Entry = None, cc_SourceLineCache = None\<rparr>],
     FileInfos = Map.empty, MemBufferInfos = [0],
     SLocEntryTable =
       [instantiation_entry_at 0 \<lparr>SpellingLoc = 0, InstantiationLocStart = 0, InstantiationLocEnd = 0\<rparr>,
        file_entry_at 2 \<lparr>IncludeLoc = 0, FileContent = 0, FileCharacteristic = C_User, HasLineDirectives = False\<rparr>,
        instantiation_entry_at 10 \<lparr>SpellingLoc = 2, InstantiationLocStart = 5, InstantiationLocEnd = 6\<rparr>,
        instantiation_entry_at 13 \<lparr>SpellingLoc = MacroIDBit OR 11, InstantiationLocStart = MacroIDBit OR 10, InstantiationLocEnd = MacroIDBit OR 11\<rparr>],
     NextOffset = 15, LastFileIDLookup = 0,
     sm_LineTable = None, LastLineNoFileIDQuery = 0, LastLineNoContentCache = None, LastLineNoFilePos = 0, LastLineNoResult = 0, MainFileID = 0\<rparr>"

lemma example_offsets [simp]: "offsets example_sm = [0, 2, 10, 13]" "unat (NextOffset example_sm) = 15"
proof -
  have 0: "entry_getOffset (instantiation_entry_at 0 II) = 0" for II by (rule entry_getOffset(2)) simp
  then show "offsets example_sm = [0, 2, 10, 13]" "unat (NextOffset example_sm) = 15" by (simp_all add: offsets_def example_sm_def)
qed

lemma example_ok: "table_ok example_sm"
proof -
  have "length (SLocEntryTable example_sm) = 4" "LastFileIDLookup example_sm = 0" by (simp_all add: example_sm_def)
  then show ?thesis by (simp add: table_ok_def)
qed

text \<open>
  C29: the lookup finds the file of every location. Whatever the caches hold, for every location other than the invalid one the
  lookup, by its cache, its linear or its binary search, returns the last entry that does not start behind the location, of which the
  location is in the range; it ends, and it changes nothing but the cache, which keeps naming an entry.
\<close>

theorem getFileID_correct:
  assumes "table_ok SM" "getOffset Loc \<noteq> 0"
  shows "\<exists>c. getFileID SM Loc = Some (file_of SM (unat (getOffset Loc)), SM\<lparr>LastFileIDLookup := c\<rparr>) \<and>
    table_ok (SM\<lparr>LastFileIDLookup := c\<rparr>) \<and> in_file SM (unat (getOffset Loc)) (file_of SM (unat (getOffset Loc)))"
  using getFileID_finds [OF assms] in_file_of [OF assms(1)] assms(1) by fastforce

theorem getFileID_correct_witness:
  "\<exists>c. getFileID example_sm 5 = Some (1, example_sm\<lparr>LastFileIDLookup := c\<rparr>)"
proof -
  have "file_of example_sm 5 = 1" by (simp add: file_of_def)
  moreover have "getOffset 5 = 5" by (rule getFileLoc_Some(3)) simp
  ultimately show ?thesis using getFileID_correct [OF example_ok, of 5] by auto
qed

lemma getDecomposedLoc_finds:
  assumes "table_ok SM" "getOffset Loc \<noteq> 0"
  shows "\<exists>c < length (SLocEntryTable SM). getDecomposedLoc SM Loc =
    Some (file_of SM (unat (getOffset Loc)), getOffset Loc - entry_getOffset (SLocEntryTable SM ! file_of SM (unat (getOffset Loc))),
      SM\<lparr>LastFileIDLookup := c\<rparr>)"
proof -
  have "file_of SM (unat (getOffset Loc)) < length (SLocEntryTable SM)" using in_file_of [OF assms(1)] by (simp add: in_file_def)
  then show ?thesis using getFileID_finds [OF assms] by (auto simp: getDecomposedLoc_def getSLocEntry_def)
qed

section \<open>New entries\<close>

text \<open>The table with one more entry, which goes up to the new end.\<close>

definition pushed :: "source_manager \<Rightarrow> sloc_entry \<Rightarrow> u32 \<Rightarrow> nat \<Rightarrow> source_manager" where
  "pushed SM E Next c = SM\<lparr>SLocEntryTable := SLocEntryTable SM @ [E], NextOffset := Next, LastFileIDLookup := c\<rparr>"

lemma pushed_offsets: "offsets (pushed SM E Next c) = offsets SM @ [unat (entry_getOffset E)]"
  by (simp add: pushed_def offsets_def)

lemma pushed_ok:
  assumes "table_ok SM" "entry_getOffset E = NextOffset SM" "unat (NextOffset SM) < unat Next" "unat Next \<le> loc_limit"
    "c \<le> length (SLocEntryTable SM)"
  shows "table_ok (pushed SM E Next c)"
proof -
  have "\<forall>a \<in> set (offsets SM). a < unat (NextOffset SM)" using assms(1) by (auto simp: table_ok_def sorted_wrt_append)
  then have "\<forall>a \<in> set (offsets SM). a < unat Next" using assms(3) by fastforce
  then show ?thesis using assms unfolding table_ok_def pushed_offsets by (auto simp: pushed_def sorted_wrt_append)
qed

lemma pushed_old:
  assumes "table_ok SM" "entry_getOffset E = NextOffset SM" "x < unat (NextOffset SM)"
  shows "file_of (pushed SM E Next c) x = file_of SM x"
  using assms by (simp add: file_of_def pushed_offsets)

lemma pushed_new:
  assumes "table_ok (pushed SM E Next c)" "entry_getOffset E = NextOffset SM" "unat (NextOffset SM) \<le> x"
  shows "file_of (pushed SM E Next c) x = length (SLocEntryTable SM)"
proof (rule in_file_unique [OF assms(1) in_file_of [OF assms(1)]])
  show "in_file (pushed SM E Next c) x (length (SLocEntryTable SM))"
    unfolding in_file_def pushed_offsets using assms(2,3) by (simp add: nth_append)
qed

lemma next_offset_pos: "table_ok SM \<Longrightarrow> 0 < unat (NextOffset SM)"
proof -
  assume ok: "table_ok SM"
  then have "hd (offsets SM) \<in> set (offsets SM)" unfolding table_ok_def by (blast intro: list.set_sel(1))
  then show ?thesis using ok by (auto simp: table_ok_def sorted_wrt_append)
qed

lemma unat_small: "n < 2 ^ 32 \<Longrightarrow> unat (of_nat n :: u32) = n"
  by (simp add: unat_of_nat take_bit_nat_eq_self)

lemma next_offset:
  assumes "unat N + n + 1 \<le> loc_limit" "unat (m :: u32) = n"
  shows "N + m + 1 > N" "unat (N + (m + 1)) = unat N + n + 1"
proof -
  have 1: "unat (N + m) = unat N + n" using unat_add_small [of N m] assms by simp
  have 2: "unat (N + m + 1) = unat (N + m) + 1" using unat_add_small [of "N + m" 1] assms 1 by simp
  show "N + m + 1 > N" using 1 2 by (simp add: word_less_nat_alt)
  show "unat (N + (m + 1)) = unat N + n + 1" using 1 2 by (simp add: add.assoc)
qed

lemma createFileID_pushes:
  fixes Inc K
  assumes "table_ok SM" "File < length (Contents SM)" "cc_getSize (Contents SM ! File) = Some n" "unat (NextOffset SM) + n + 1 \<le> loc_limit"
  defines "SM' \<equiv> pushed SM (file_entry_at (NextOffset SM) \<lparr>IncludeLoc = Inc, FileContent = File, FileCharacteristic = K, HasLineDirectives = False\<rparr>)
    (NextOffset SM + (of_nat n + 1)) (length (SLocEntryTable SM))"
  shows "createFileID_content File Inc K SM = Some (length (SLocEntryTable SM), SM')" "table_ok SM'"
    "unat (NextOffset SM') = unat (NextOffset SM) + n + 1"
proof -
  have n: "unat (of_nat n :: u32) = n" using assms(4) by (intro unat_small) simp
  note N = next_offset [OF assms(4) n]
  show "createFileID_content File Inc K SM = Some (length (SLocEntryTable SM), SM')"
    using assms(2,3) N(1) by (simp add: createFileID_content_def SM'_def pushed_def Let_def)
  show "table_ok SM'" unfolding SM'_def using N(2) assms(4) by (intro pushed_ok [OF assms(1)]) auto
  show "unat (NextOffset SM') = unat (NextOffset SM) + n + 1" using N(2) by (simp add: SM'_def pushed_def)
qed

lemma createInstantiationLoc_pushes:
  fixes Sp St En
  assumes "table_ok SM" "unat (NextOffset SM) + unat n + 1 \<le> loc_limit"
  defines "SM' \<equiv> pushed SM (instantiation_entry_at (NextOffset SM)
    \<lparr>SpellingLoc = Sp, InstantiationLocStart = St, InstantiationLocEnd = En\<rparr>) (NextOffset SM + (n + 1)) (LastFileIDLookup SM)"
  shows "createInstantiationLoc Sp St En n SM = Some (MacroIDBit OR NextOffset SM, SM')" "table_ok SM'"
    "unat (NextOffset SM') = unat (NextOffset SM) + unat n + 1"
proof -
  note N = next_offset [OF assms(2) refl]
  have "NextOffset SM + (n + 1) - (n + 1) = NextOffset SM" by simp
  then show "createInstantiationLoc Sp St En n SM = Some (MacroIDBit OR NextOffset SM, SM')"
    using assms(2) N(1) getMacroLoc_Some(1) [of "NextOffset SM"] by (simp add: createInstantiationLoc_def SM'_def pushed_def)
  show "table_ok SM'" unfolding SM'_def using N(2) assms by (intro pushed_ok [OF assms(1)]) (auto simp: table_ok_def)
  show "unat (NextOffset SM') = unat (NextOffset SM) + unat n + 1" using N(2) by (simp add: SM'_def pushed_def)
qed

lemma createFileID_pushes_at:
  assumes "table_ok SM" "File < length (Contents SM)" "cc_getSize (Contents SM ! File) = Some n" "unat (NextOffset SM) + n + 1 \<le> loc_limit"
  obtains SM' where "createFileID_content File Inc K SM = Some (length (SLocEntryTable SM), SM')" "table_ok SM'"
    "unat (NextOffset SM') = unat (NextOffset SM) + n + 1" "length (SLocEntryTable SM') = Suc (length (SLocEntryTable SM))"
    "entry_getOffset (SLocEntryTable SM' ! length (SLocEntryTable SM)) = NextOffset SM"
    "\<not> isInstantiation (SLocEntryTable SM' ! length (SLocEntryTable SM))"
    "\<forall>f < length (SLocEntryTable SM). SLocEntryTable SM' ! f = SLocEntryTable SM ! f"
    "\<forall>x < unat (NextOffset SM). file_of SM' x = file_of SM x"
    "\<forall>x \<ge> unat (NextOffset SM). file_of SM' x = length (SLocEntryTable SM)"
proof -
  note P = createFileID_pushes [OF assms(1-4), where Inc = Inc and K = K]
  have off: "entry_getOffset (file_entry_at (NextOffset SM) FI) = NextOffset SM" for FI using assms(4) by simp
  show ?thesis
    by (rule that [OF P]) (use pushed_old [OF assms(1) off] pushed_new [OF P(2) off] off in \<open>auto simp: pushed_def nth_append\<close>)
qed

text \<open>
  C30: a new file gets addresses of its own. If the file fits into the rest of the address space, it is entered, the position of
  every byte of the file and of its end is a file location that the lookup takes back to the new file and that offset, and every
  location handed out before is decomposed as it was.
\<close>

theorem createFileID_roundtrip:
  assumes "table_ok SM" "File < length (Contents SM)" "cc_getSize (Contents SM ! File) = Some n" "unat (NextOffset SM) + n + 1 \<le> loc_limit"
  shows "\<exists>FID SM' S. createFileID_content File Inc K SM = Some (FID, SM') \<and> table_ok SM' \<and> getLocForStartOfFile SM' FID = Some S \<and>
    (\<forall>k \<le> n. \<exists>L c. getFileLocWithOffset S (of_nat k) = Some L \<and> isFileID L \<and>
       getDecomposedLoc SM' L = Some (FID, of_nat k, SM'\<lparr>LastFileIDLookup := c\<rparr>)) \<and>
    (\<forall>L. getOffset L \<noteq> 0 \<and> unat (getOffset L) < unat (NextOffset SM) \<longrightarrow>
       (\<exists>f k c c'. getDecomposedLoc SM L = Some (f, k, SM\<lparr>LastFileIDLookup := c\<rparr>) \<and>
          getDecomposedLoc SM' L = Some (f, k, SM'\<lparr>LastFileIDLookup := c'\<rparr>)))"
proof -
  let ?T = "SLocEntryTable SM" and ?N = "NextOffset SM"
  obtain SM' where C: "createFileID_content File Inc K SM = Some (length ?T, SM')" and ok: "table_ok SM'"
    and after: "unat (NextOffset SM') = unat ?N + n + 1" and len: "length (SLocEntryTable SM') = Suc (length ?T)" and E: "entry_getOffset (SLocEntryTable SM' ! length ?T) = ?N"
      "\<not> isInstantiation (SLocEntryTable SM' ! length ?T)"
    and same: "\<forall>f < length ?T. SLocEntryTable SM' ! f = ?T ! f"
    and old: "\<forall>x < unat ?N. file_of SM' x = file_of SM x" and new: "\<forall>x \<ge> unat ?N. file_of SM' x = length ?T"
    by (rule createFileID_pushes_at [OF assms(1-4), of Inc K])
  have N: "unat ?N < loc_limit" "0 < unat ?N" using assms(4) next_offset_pos [OF assms(1)] by simp_all
  have S: "getLocForStartOfFile SM' (length ?T) = Some ?N"
    using len E getFileLoc_Some(1) [OF N(1)] by (simp add: getLocForStartOfFile_def)
  have "\<exists>L c. getFileLocWithOffset ?N (of_nat k) = Some L \<and> isFileID L \<and>
      getDecomposedLoc SM' L = Some (length ?T, of_nat k, SM'\<lparr>LastFileIDLookup := c\<rparr>)" if k: "k \<le> n" for k
  proof -
    have uk: "unat (of_nat k :: u32) = k" using k assms(4) by (intro unat_small) simp
    have fits: "unat (getOffset ?N) + unat (of_nat k :: u32) < loc_limit" using k assms(4) uk getFileLoc_Some(3) [OF N(1)] by simp
    note L = getFileLocWithOffset_Some [OF fits]
    have off: "getOffset (?N + of_nat k) = ?N + of_nat k" "unat (getOffset (?N + of_nat k)) = unat ?N + k"
      using L(2,4) uk getFileLoc_Some(3) [OF N(1)] by simp_all
    then have "getOffset (?N + of_nat k) \<noteq> 0" using N(2) by (metis add_is_0 less_irrefl unat_0)
    from getDecomposedLoc_finds [OF ok this] show ?thesis using L(1,3) off new E(1) getFileLoc_Some(2) [OF N(1)] by auto
  qed
  moreover have "\<exists>f k c c'. getDecomposedLoc SM L = Some (f, k, SM\<lparr>LastFileIDLookup := c\<rparr>) \<and>
      getDecomposedLoc SM' L = Some (f, k, SM'\<lparr>LastFileIDLookup := c'\<rparr>)"
    if L: "getOffset L \<noteq> 0 \<and> unat (getOffset L) < unat ?N" for L
  proof -
    have "file_of SM (unat (getOffset L)) < length ?T" using in_file_of [OF assms(1)] by (simp add: in_file_def)
    then show ?thesis
      using getDecomposedLoc_finds [OF assms(1), of L] getDecomposedLoc_finds [OF ok, of L] L old same by auto
  qed
  ultimately show ?thesis using C ok S by blast
qed

theorem createFileID_roundtrip_witness:
  "\<exists>FID SM' S. createFileID_content 0 5 C_System example_sm = Some (FID, SM') \<and> table_ok SM' \<and> getLocForStartOfFile SM' FID = Some S \<and>
    (\<exists>L c. getFileLocWithOffset S 7 = Some L \<and> getDecomposedLoc SM' L = Some (FID, 7, SM'\<lparr>LastFileIDLookup := c\<rparr>))"
proof -
  have size: "0 < length (Contents example_sm)" "cc_getSize (Contents example_sm ! 0) = Some 7" by (simp_all add: example_sm_def cc_getSize_def)
  have room: "unat (NextOffset example_sm) + 7 + 1 \<le> loc_limit" by simp
  obtain FID SM' S where C: "createFileID_content 0 5 C_System example_sm = Some (FID, SM')" "table_ok SM'" "getLocForStartOfFile SM' FID = Some S"
    and all: "\<forall>k \<le> 7. \<exists>L c. getFileLocWithOffset S (of_nat k) = Some L \<and> isFileID L \<and>
       getDecomposedLoc SM' L = Some (FID, of_nat k, SM'\<lparr>LastFileIDLookup := c\<rparr>)"
    using createFileID_roundtrip [OF example_ok size room, of 5 C_System] by blast
  have "(7 :: nat) \<le> 7" "(of_nat 7 :: u32) = 7" by simp_all
  then show ?thesis using C all by metis
qed

text \<open>The constructor builds a good table, and so does \<^verbatim>\<open>clearIDTables\<close>.\<close>

lemma clearIDTables_ok:
  "\<exists>SM'. clearIDTables SM = Some SM' \<and> table_ok SM' \<and> unat (NextOffset SM') = 2" "\<exists>SM. SourceManager_new = Some SM \<and> table_ok SM"
proof -
  have m: "getMacroLoc 0 = Some MacroIDBit" using getMacroLoc_Some(1) [of 0] by simp
  have off: "entry_getOffset (instantiation_entry_at 0 II) = 0" for II by (rule entry_getOffset(2)) simp
  show ok: "\<exists>SM'. clearIDTables SM = Some SM' \<and> table_ok SM' \<and> unat (NextOffset SM') = 2" for SM using m off
    by (auto simp: clearIDTables_def createInstantiationLoc_def table_ok_def offsets_def)
  show "\<exists>SM. SourceManager_new = Some SM \<and> table_ok SM" using ok unfolding SourceManager_new_def by blast
qed

end
