(* ===== verification/SourceWalks.thy ===== *)
theory SourceWalks
  imports SourceManager
begin

text \<open>
  The walks of \<^verbatim>\<open>lib/Basic/SourceManager.cpp\<close> from a location in a macro expansion to the file: where the token is
  spelled, where the expansion is, and the range it covers. Each is a loop over expansions inside of expansions; it is written as the
  partial function it is, and proved to end for the locations of a table of which every entry refers to earlier ones.
\<close>

section \<open>The walks\<close>

partial_function (option) getInstantiationLocSlowCase ::
    "source_manager \<Rightarrow> source_location \<Rightarrow> (source_location \<times> source_manager) option" where
  "getInstantiationLocSlowCase SM Loc = do {
     (FID, Offset, SM') \<leftarrow> getDecomposedLoc SM Loc;
     E \<leftarrow> getSLocEntry SM' FID;
     II \<leftarrow> getInstantiation E;
     Loc' \<leftarrow> getFileLocWithOffset (InstantiationLocStart II) Offset;
     if isFileID Loc' then Some (Loc', SM') else getInstantiationLocSlowCase SM' Loc' }"

partial_function (option) getSpellingLocSlowCase ::
    "source_manager \<Rightarrow> source_location \<Rightarrow> (source_location \<times> source_manager) option" where
  "getSpellingLocSlowCase SM Loc = do {
     (FID, Offset, SM') \<leftarrow> getDecomposedLoc SM Loc;
     E \<leftarrow> getSLocEntry SM' FID;
     II \<leftarrow> getInstantiation E;
     Loc' \<leftarrow> getFileLocWithOffset (SpellingLoc II) Offset;
     if isFileID Loc' then Some (Loc', SM') else getSpellingLocSlowCase SM' Loc' }"

definition getInstantiationLoc :: "source_manager \<Rightarrow> source_location \<Rightarrow> (source_location \<times> source_manager) option" where
  "getInstantiationLoc SM Loc = (if isFileID Loc then Some (Loc, SM) else getInstantiationLocSlowCase SM Loc)"

definition getSpellingLoc :: "source_manager \<Rightarrow> source_location \<Rightarrow> (source_location \<times> source_manager) option" where
  "getSpellingLoc SM Loc = (if isFileID Loc then Some (Loc, SM) else getSpellingLocSlowCase SM Loc)"

partial_function (option) getDecomposedInstantiationLocSlowCase ::
    "source_manager \<Rightarrow> sloc_entry \<Rightarrow> u32 \<Rightarrow> (nat \<times> u32 \<times> source_manager) option" where
  "getDecomposedInstantiationLocSlowCase SM E Offset = do {
     II \<leftarrow> getInstantiation E;
     let Loc = InstantiationLocStart II;
     (FID, SM') \<leftarrow> getFileID SM Loc;
     E' \<leftarrow> getSLocEntry SM' FID;
     let Offset' = Offset + (getOffset Loc - entry_getOffset E');
     if isFileID Loc then Some (FID, Offset', SM') else getDecomposedInstantiationLocSlowCase SM' E' Offset' }"

partial_function (option) getDecomposedSpellingLocSlowCase ::
    "source_manager \<Rightarrow> sloc_entry \<Rightarrow> u32 \<Rightarrow> (nat \<times> u32 \<times> source_manager) option" where
  "getDecomposedSpellingLocSlowCase SM E Offset = do {
     II \<leftarrow> getInstantiation E;
     let Loc = SpellingLoc II;
     (FID, SM') \<leftarrow> getFileID SM Loc;
     E' \<leftarrow> getSLocEntry SM' FID;
     let Offset' = Offset + (getOffset Loc - entry_getOffset E');
     if isFileID Loc then Some (FID, Offset', SM') else getDecomposedSpellingLocSlowCase SM' E' Offset' }"

definition getDecomposedInstantiationLoc :: "source_manager \<Rightarrow> source_location \<Rightarrow> (nat \<times> u32 \<times> source_manager) option" where
  "getDecomposedInstantiationLoc SM Loc = do {
     (FID, SM') \<leftarrow> getFileID SM Loc;
     E \<leftarrow> getSLocEntry SM' FID;
     let Offset = getOffset Loc - entry_getOffset E;
     if isFileID Loc then Some (FID, Offset, SM') else getDecomposedInstantiationLocSlowCase SM' E Offset }"

definition getDecomposedSpellingLoc :: "source_manager \<Rightarrow> source_location \<Rightarrow> (nat \<times> u32 \<times> source_manager) option" where
  "getDecomposedSpellingLoc SM Loc = do {
     (FID, SM') \<leftarrow> getFileID SM Loc;
     E \<leftarrow> getSLocEntry SM' FID;
     let Offset = getOffset Loc - entry_getOffset E;
     if isFileID Loc then Some (FID, Offset, SM') else getDecomposedSpellingLocSlowCase SM' E Offset }"

definition getImmediateSpellingLoc :: "source_manager \<Rightarrow> source_location \<Rightarrow> (source_location \<times> source_manager) option" where
  "getImmediateSpellingLoc SM Loc =
     (if isFileID Loc then Some (Loc, SM)
      else do {
        (FID, Offset, SM') \<leftarrow> getDecomposedLoc SM Loc;
        E \<leftarrow> getSLocEntry SM' FID;
        II \<leftarrow> getInstantiation E;
        Loc' \<leftarrow> getFileLocWithOffset (SpellingLoc II) Offset;
        Some (Loc', SM') })"

definition getImmediateInstantiationRange ::
    "source_manager \<Rightarrow> source_location \<Rightarrow> (source_location \<times> source_location \<times> source_manager) option" where
  "getImmediateInstantiationRange SM Loc = do {
     asserting (\<not> isFileID Loc);
     (FID, SM') \<leftarrow> getFileID SM Loc;
     E \<leftarrow> getSLocEntry SM' FID;
     II \<leftarrow> getInstantiation E;
     Some (InstantiationLocStart II, InstantiationLocEnd II, SM') }"

text \<open>The two loops of \<^verbatim>\<open>getInstantiationRange\<close>.\<close>

partial_function (option) resolve_first :: "source_manager \<Rightarrow> source_location \<Rightarrow> (source_location \<times> source_manager) option" where
  "resolve_first SM Loc =
     (if isFileID Loc then Some (Loc, SM)
      else do { (S, E, SM') \<leftarrow> getImmediateInstantiationRange SM Loc; resolve_first SM' S })"

partial_function (option) resolve_second :: "source_manager \<Rightarrow> source_location \<Rightarrow> (source_location \<times> source_manager) option" where
  "resolve_second SM Loc =
     (if isFileID Loc then Some (Loc, SM)
      else do { (S, E, SM') \<leftarrow> getImmediateInstantiationRange SM Loc; resolve_second SM' E })"

definition getInstantiationRange ::
    "source_manager \<Rightarrow> source_location \<Rightarrow> (source_location \<times> source_location \<times> source_manager) option" where
  "getInstantiationRange SM Loc =
     (if isFileID Loc then Some (Loc, Loc, SM)
      else do {
        (S, E, SM1) \<leftarrow> getImmediateInstantiationRange SM Loc;
        (S', SM2) \<leftarrow> resolve_first SM1 S;
        (E', SM3) \<leftarrow> resolve_second SM2 E;
        Some (S', E', SM3) })"

section \<open>Tables that refer to earlier entries\<close>

definition entry_of :: "source_manager \<Rightarrow> source_location \<Rightarrow> sloc_entry" where
  "entry_of SM L = SLocEntryTable SM ! file_of SM (unat (getOffset L))"

definition in_entry :: "source_manager \<Rightarrow> source_location \<Rightarrow> nat" where
  "in_entry SM L = unat (getOffset L) - offsets SM ! file_of SM (unat (getOffset L))"

text \<open>A location in use: inside the table, not in the unused entry, and marked as what its entry is.\<close>

definition loc_ok :: "source_manager \<Rightarrow> source_location \<Rightarrow> bool" where
  "loc_ok SM L \<longleftrightarrow> unat (getOffset L) < unat (NextOffset SM) \<and> 0 < file_of SM (unat (getOffset L)) \<and>
     (isFileID L \<longleftrightarrow> \<not> isInstantiation (entry_of SM L))"

definition info_ok :: "source_manager \<Rightarrow> nat \<Rightarrow> instantiation_info \<Rightarrow> bool" where
  "info_ok SM x II \<longleftrightarrow> (\<forall>L \<in> {SpellingLoc II, InstantiationLocStart II, InstantiationLocEnd II}. loc_ok SM L \<and> unat (getOffset L) < x)"

definition entry_ok :: "source_manager \<Rightarrow> nat \<Rightarrow> sloc_entry \<Rightarrow> bool" where
  "entry_ok SM x E \<longleftrightarrow> (case entry_Data E of
     Inl FI \<Rightarrow> \<not> isInstantiation E \<and> FileContent FI < length (Contents SM)
   | Inr II \<Rightarrow> isInstantiation E \<and> info_ok SM x II)"

definition locs_ok :: "source_manager \<Rightarrow> bool" where
  "locs_ok SM \<longleftrightarrow> table_ok SM \<and> (\<forall>f. 0 < f \<and> f < length (SLocEntryTable SM) \<longrightarrow> entry_ok SM (offsets SM ! f) (SLocEntryTable SM ! f))"

text \<open>The reference: the file location that the chain of \<open>pick\<close> leads to, and the sum of the offsets inside the expansions on it.\<close>

inductive resolves :: "(instantiation_info \<Rightarrow> source_location) \<Rightarrow> source_manager \<Rightarrow> source_location \<Rightarrow> source_location \<Rightarrow> nat \<Rightarrow> bool"
  for pick SM where
  in_file: "isFileID L \<Longrightarrow> resolves pick SM L L 0"
| in_macro: "\<not> isFileID L \<Longrightarrow> getInstantiation (entry_of SM L) = Some II \<Longrightarrow> resolves pick SM (pick II) F n \<Longrightarrow>
    resolves pick SM L F (in_entry SM L + n)"

lemma loc_ok_offset: "table_ok SM \<Longrightarrow> loc_ok SM L \<Longrightarrow> getOffset L \<noteq> 0"
proof
  assume ok: "table_ok SM" "loc_ok SM L" "getOffset L = 0"
  then have "in_file SM 0 (file_of SM 0)" "0 < file_of SM 0" using in_file_of [OF ok(1), of 0] by (auto simp: loc_ok_def)
  then show False using table_offsets_less [OF ok(1), of 0 "file_of SM 0"] by (auto simp: in_file_def)
qed

lemma file_of_bound: "table_ok SM \<Longrightarrow> file_of SM x < length (SLocEntryTable SM)" "table_ok SM \<Longrightarrow> offsets SM ! file_of SM x \<le> x"
  using in_file_of [of SM x] by (auto simp: in_file_def)

lemma locs_okD: "locs_ok SM \<Longrightarrow> table_ok SM"
  by (simp add: locs_ok_def)

text \<open>In such a table every expansion has its record, which refers to locations in use that come earlier.\<close>

lemma macro_entry:
  assumes "locs_ok SM" "loc_ok SM L" "\<not> isFileID L"
  obtains II where "getInstantiation (entry_of SM L) = Some II" "info_ok SM (offsets SM ! file_of SM (unat (getOffset L))) II"
proof -
  let ?f = "file_of SM (unat (getOffset L))"
  have f: "0 < ?f" "?f < length (SLocEntryTable SM)" "isInstantiation (entry_of SM L)" "offsets SM ! ?f \<le> unat (getOffset L)"
    using assms file_of_bound [OF locs_okD [OF assms(1)]] by (auto simp: loc_ok_def)
  then have "entry_ok SM (offsets SM ! ?f) (entry_of SM L)" using assms(1) by (simp add: locs_ok_def entry_of_def)
  then obtain II where II: "entry_Data (entry_of SM L) = Inr II" "info_ok SM (offsets SM ! ?f) II"
    using f(3) by (auto simp: entry_ok_def split: sum.splits)
  then show ?thesis using that II(1) f(3) by (simp add: getInstantiation_def)
qed

lemma entry_offset:
  assumes "table_ok SM"
  shows "unat (getOffset L - entry_getOffset (entry_of SM L)) = in_entry SM L"
  using file_of_bound [OF assms, of "unat (getOffset L)"]
  by (simp add: in_entry_def entry_of_def nth_offsets unat_sub word_le_nat_alt)

lemma cached_refs [simp]:
  "entry_of (SM\<lparr>LastFileIDLookup := c\<rparr>) = entry_of SM" "in_entry (SM\<lparr>LastFileIDLookup := c\<rparr>) = in_entry SM"
  "loc_ok (SM\<lparr>LastFileIDLookup := c\<rparr>) = loc_ok SM"
  by (auto simp: entry_of_def in_entry_def loc_ok_def fun_eq_iff)

lemma cached_info_ok [simp]: "info_ok (SM\<lparr>LastFileIDLookup := c\<rparr>) = info_ok SM" "entry_ok (SM\<lparr>LastFileIDLookup := c\<rparr>) = entry_ok SM"
  by (auto simp: info_ok_def entry_ok_def fun_eq_iff split: sum.splits)

lemma cached_locs_ok: "locs_ok SM \<Longrightarrow> c < length (SLocEntryTable SM) \<Longrightarrow> locs_ok (SM\<lparr>LastFileIDLookup := c\<rparr>)"
  by (simp add: locs_ok_def)

lemma cached_resolves [simp]: "resolves pick (SM\<lparr>LastFileIDLookup := c\<rparr>) = resolves pick SM"
proof -
  have step: "resolves pick (SM\<lparr>LastFileIDLookup := c\<rparr>) L F n" if "resolves pick SM L F n" for SM c L F n
    using that by induction (auto intro: resolves.in_file resolves.in_macro [of L "SM\<lparr>LastFileIDLookup := c\<rparr>" for L, simplified])
  have "resolves pick SM L F n" if "resolves pick (SM\<lparr>LastFileIDLookup := c\<rparr>) L F n" for L F n
    using step [OF that, of "LastFileIDLookup SM"] by simp
  then show ?thesis using step by (auto simp: fun_eq_iff)
qed

lemma resolves_det: "resolves pick SM L F n \<Longrightarrow> resolves pick SM L F' n' \<Longrightarrow> F' = F \<and> n' = n"
proof (induction arbitrary: F' n' rule: resolves.induct)
  case (in_file L)
  then show ?case by (auto elim: resolves.cases)
next
  case (in_macro L II F n)
  from in_macro.prems in_macro.hyps(1,2) obtain m where "n' = in_entry SM L + m" "resolves pick SM (pick II) F' m"
    by (auto elim: resolves.cases)
  then show ?case using in_macro.IH by auto
qed

lemma find_entry:
  assumes "locs_ok SM" "loc_ok SM L"
  obtains c where "c < length (SLocEntryTable SM)" "getFileID SM L = Some (file_of SM (unat (getOffset L)), SM\<lparr>LastFileIDLookup := c\<rparr>)"
    "getSLocEntry SM (file_of SM (unat (getOffset L))) = Some (entry_of SM L)"
    "getOffset L - entry_getOffset (entry_of SM L) = of_nat (in_entry SM L)"
    "getDecomposedLoc SM L = Some (file_of SM (unat (getOffset L)), of_nat (in_entry SM L), SM\<lparr>LastFileIDLookup := c\<rparr>)"
proof -
  note ok = locs_okD [OF assms(1)]
  obtain c where c: "c < length (SLocEntryTable SM)" "getFileID SM L = Some (file_of SM (unat (getOffset L)), SM\<lparr>LastFileIDLookup := c\<rparr>)"
    using getFileID_finds [OF ok loc_ok_offset [OF ok assms(2)]] by blast
  have E: "getSLocEntry SM (file_of SM (unat (getOffset L))) = Some (entry_of SM L)"
    using file_of_bound(1) [OF ok] by (simp add: getSLocEntry_def entry_of_def)
  have O: "getOffset L - entry_getOffset (entry_of SM L) = of_nat (in_entry SM L)"
    using entry_offset [OF ok, of L] by (metis of_nat_unat ucast_id)
  show ?thesis by (rule that [OF c E O]) (simp add: getDecomposedLoc_def c(2) E O)
qed

text \<open>What every expansion picks goes on in its entry for as long as the expansion itself does.\<close>

definition fits :: "(instantiation_info \<Rightarrow> source_location) \<Rightarrow> source_manager \<Rightarrow> bool" where
  "fits pick SM \<longleftrightarrow> (\<forall>L II. loc_ok SM L \<and> \<not> isFileID L \<and> getInstantiation (entry_of SM L) = Some II \<longrightarrow>
     unat (getOffset (pick II)) + in_entry SM L < unat (NextOffset SM) \<and>
     file_of SM (unat (getOffset (pick II)) + in_entry SM L) = file_of SM (unat (getOffset (pick II))))"

text \<open>Moving a location inside its entry moves what it resolves to.\<close>

lemma moved:
  assumes "locs_ok SM" "loc_ok SM P" "unat (getOffset P) + k < unat (NextOffset SM)"
    "file_of SM (unat (getOffset P) + k) = file_of SM (unat (getOffset P))"
  shows "getFileLocWithOffset P (of_nat k) = Some (P + of_nat k)" "loc_ok SM (P + of_nat k)" "isFileID (P + of_nat k) = isFileID P"
    "entry_of SM (P + of_nat k) = entry_of SM P" "in_entry SM (P + of_nat k) = in_entry SM P + k"
    "unat (getOffset (P + of_nat k)) = unat (getOffset P) + k"
proof -
  have lim: "unat (NextOffset SM) \<le> loc_limit" using locs_okD [OF assms(1)] by (simp add: table_ok_def)
  then have k: "unat (of_nat k :: u32) = k" using assms(3) by (intro unat_small) simp
  then have "unat (getOffset P) + unat (of_nat k :: u32) < loc_limit" using assms(3) lim by linarith
  note P = getFileLocWithOffset_Some [OF this]
  show "getFileLocWithOffset P (of_nat k) = Some (P + of_nat k)" "isFileID (P + of_nat k) = isFileID P" by (rule P)+
  show off: "unat (getOffset (P + of_nat k)) = unat (getOffset P) + k" using P(4) k by simp
  show E: "entry_of SM (P + of_nat k) = entry_of SM P" unfolding entry_of_def off assms(4) ..
  show "loc_ok SM (P + of_nat k)" using assms(2,3) unfolding loc_ok_def off assms(4) E P(3) by simp
  show "in_entry SM (P + of_nat k) = in_entry SM P + k"
    unfolding in_entry_def off assms(4) using file_of_bound(2) [OF locs_okD [OF assms(1)], of "unat (getOffset P)"] by simp
qed

section \<open>All walks at once\<close>

text \<open>Spelling and expansion are walked by the same code but for the field that is followed.\<close>

locale walk =
  fixes pick :: "instantiation_info \<Rightarrow> source_location"
    and walk_loc :: "source_manager \<Rightarrow> source_location \<Rightarrow> (source_location \<times> source_manager) option"
    and walk_entry :: "source_manager \<Rightarrow> sloc_entry \<Rightarrow> u32 \<Rightarrow> (nat \<times> u32 \<times> source_manager) option"
  assumes pick: "pick = SpellingLoc \<or> pick = InstantiationLocStart"
    and walk_loc_step: "walk_loc SM Loc = do {
      (FID, Offset, SM') \<leftarrow> getDecomposedLoc SM Loc;
      E \<leftarrow> getSLocEntry SM' FID;
      II \<leftarrow> getInstantiation E;
      Loc' \<leftarrow> getFileLocWithOffset (pick II) Offset;
      if isFileID Loc' then Some (Loc', SM') else walk_loc SM' Loc' }"
    and walk_entry_step: "walk_entry SM E Offset = do {
      II \<leftarrow> getInstantiation E;
      (FID, SM') \<leftarrow> getFileID SM (pick II);
      E' \<leftarrow> getSLocEntry SM' FID;
      if isFileID (pick II) then Some (FID, Offset + (getOffset (pick II) - entry_getOffset E'), SM')
      else walk_entry SM' E' (Offset + (getOffset (pick II) - entry_getOffset E')) }"
begin

lemma picked_ok: "info_ok SM x II \<Longrightarrow> loc_ok SM (pick II)" "info_ok SM x II \<Longrightarrow> unat (getOffset (pick II)) < x"
  using pick by (auto simp: info_ok_def)

lemma walk_entry_resolves:
  assumes "locs_ok SM" "info_ok SM x II" "getInstantiation E = Some II"
  shows "\<exists>F n c. c < length (SLocEntryTable SM) \<and> resolves pick SM (pick II) F n \<and> isFileID F \<and> loc_ok SM F \<and>
    walk_entry SM E Off = Some (file_of SM (unat (getOffset F)), Off + of_nat (n + in_entry SM F), SM\<lparr>LastFileIDLookup := c\<rparr>)"
  using assms
proof (induction x arbitrary: SM II E Off rule: less_induct)
  case (less x)
  let ?L = "pick II"
  note L = picked_ok [OF less.prems(2)]
  obtain c where c: "c < length (SLocEntryTable SM)" "getFileID SM ?L = Some (file_of SM (unat (getOffset ?L)), SM\<lparr>LastFileIDLookup := c\<rparr>)"
    "getSLocEntry SM (file_of SM (unat (getOffset ?L))) = Some (entry_of SM ?L)"
    "getOffset ?L - entry_getOffset (entry_of SM ?L) = of_nat (in_entry SM ?L)"
    by (rule find_entry [OF less.prems(1) L(1)])
  have eq: "walk_entry SM E Off = (if isFileID ?L then Some (file_of SM (unat (getOffset ?L)), Off + of_nat (in_entry SM ?L), SM\<lparr>LastFileIDLookup := c\<rparr>)
      else walk_entry (SM\<lparr>LastFileIDLookup := c\<rparr>) (entry_of SM ?L) (Off + of_nat (in_entry SM ?L)))"
    unfolding walk_entry_step [of SM] using less.prems(3) c(2-4) by simp
  show ?case
  proof (cases "isFileID ?L")
    case True
    then show ?thesis using c(1) L(1) eq resolves.in_file [OF True, of pick SM] by fastforce
  next
    case False
    obtain II' where II': "getInstantiation (entry_of SM ?L) = Some II'" "info_ok SM (offsets SM ! file_of SM (unat (getOffset ?L))) II'"
      by (rule macro_entry [OF less.prems(1) L(1) False])
    have "offsets SM ! file_of SM (unat (getOffset ?L)) < x" using file_of_bound(2) [OF locs_okD [OF less.prems(1)], of "unat (getOffset ?L)"] L(2) by linarith
    from less.IH [OF this cached_locs_ok [OF less.prems(1) c(1)], of II' "entry_of SM ?L" "Off + of_nat (in_entry SM ?L)"] II'
    obtain F n c' where "c' < length (SLocEntryTable SM)" "resolves pick SM (pick II') F n" "isFileID F" "loc_ok SM F"
      "walk_entry (SM\<lparr>LastFileIDLookup := c\<rparr>) (entry_of SM ?L) (Off + of_nat (in_entry SM ?L)) =
         Some (file_of SM (unat (getOffset F)), Off + of_nat (in_entry SM ?L) + of_nat (n + in_entry SM F), SM\<lparr>LastFileIDLookup := c'\<rparr>)"
      by auto
    then show ?thesis using eq False resolves.in_macro [OF False II'(1)] by (fastforce simp: add.assoc)
  qed
qed

lemma walk_loc_resolves:
  assumes "locs_ok SM" "fits pick SM" "loc_ok SM L" "\<not> isFileID L"
  shows "\<exists>S F n c. c < length (SLocEntryTable SM) \<and> walk_loc SM L = Some (S, SM\<lparr>LastFileIDLookup := c\<rparr>) \<and> resolves pick SM L F n \<and> isFileID S \<and>
    loc_ok SM S \<and> file_of SM (unat (getOffset S)) = file_of SM (unat (getOffset F)) \<and> in_entry SM S = n + in_entry SM F"
  using assms
proof (induction "unat (getOffset L)" arbitrary: SM L rule: less_induct)
  case less
  let ?k = "in_entry SM L"
  obtain c where c: "c < length (SLocEntryTable SM)"
    "getSLocEntry SM (file_of SM (unat (getOffset L))) = Some (entry_of SM L)"
    "getDecomposedLoc SM L = Some (file_of SM (unat (getOffset L)), of_nat ?k, SM\<lparr>LastFileIDLookup := c\<rparr>)"
    by (rule find_entry [OF less.prems(1,3)])
  obtain II where II: "getInstantiation (entry_of SM L) = Some II" "info_ok SM (offsets SM ! file_of SM (unat (getOffset L))) II"
    by (rule macro_entry [OF less.prems(1,3,4)])
  let ?P = "pick II" and ?M = "pick II + of_nat (in_entry SM L)"
  note P = picked_ok [OF II(2)]
  have fit: "unat (getOffset ?P) + ?k < unat (NextOffset SM)" "file_of SM (unat (getOffset ?P) + ?k) = file_of SM (unat (getOffset ?P))"
    using less.prems(2-4) II(1) unfolding fits_def by blast+
  note M = moved [OF less.prems(1) P(1) fit]
  have "unat (getOffset ?M) < unat (getOffset L)"
    using P(2) M(6) file_of_bound(2) [OF locs_okD [OF less.prems(1)], of "unat (getOffset L)"] unfolding in_entry_def by linarith
  note IH = less.hyps [OF this cached_locs_ok [OF less.prems(1) c(1)]]
  have eq: "walk_loc SM L = (if isFileID ?P then Some (?M, SM\<lparr>LastFileIDLookup := c\<rparr>) else walk_loc (SM\<lparr>LastFileIDLookup := c\<rparr>) ?M)"
    unfolding walk_loc_step [of SM] using c(2,3) II(1) M(1,3) by simp
  show ?case
  proof (cases "isFileID ?P")
    case True
    have "resolves pick SM L ?P (?k + 0)" by (rule resolves.in_macro [where pick = pick, OF less.prems(4) II(1) resolves.in_file [OF True]])
    then show ?thesis using eq True c(1) M fit(2) by fastforce
  next
    case False
    have "fits pick (SM\<lparr>LastFileIDLookup := c\<rparr>)" using less.prems(2) by (simp add: fits_def)
    then obtain S F n c' where S: "c' < length (SLocEntryTable SM)" "walk_loc SM L = Some (S, SM\<lparr>LastFileIDLookup := c'\<rparr>)"
      "resolves pick SM ?M F n" "isFileID S" "loc_ok SM S" "file_of SM (unat (getOffset S)) = file_of SM (unat (getOffset F))"
      "in_entry SM S = n + in_entry SM F"
      using IH M(2,3) False eq by fastforce
    from S(3) obtain II' m where m: "getInstantiation (entry_of SM ?P) = Some II'" "resolves pick SM (pick II') F m" "n = in_entry SM ?P + ?k + m"
      using M(3-5) False by (auto elim: resolves.cases)
    have "resolves pick SM L F (?k + (in_entry SM ?P + m))"
      by (rule resolves.in_macro [where pick = pick, OF less.prems(4) II(1) resolves.in_macro [where pick = pick, OF False m(1,2)]])
    then have "resolves pick SM L F n" using m(3) by (simp add: ac_simps)
    then show ?thesis using S by blast
  qed
qed

lemma decomposed_resolves:
  assumes "locs_ok SM" "loc_ok SM L"
  shows "\<exists>F n c. c < length (SLocEntryTable SM) \<and> resolves pick SM L F n \<and> isFileID F \<and> loc_ok SM F \<and>
    do { (FID, SM') \<leftarrow> getFileID SM L; E \<leftarrow> getSLocEntry SM' FID; let Offset = getOffset L - entry_getOffset E;
         if isFileID L then Some (FID, Offset, SM') else walk_entry SM' E Offset } =
      Some (file_of SM (unat (getOffset F)), of_nat (n + in_entry SM F), SM\<lparr>LastFileIDLookup := c\<rparr>)"
proof -
  obtain c where c: "c < length (SLocEntryTable SM)" "getFileID SM L = Some (file_of SM (unat (getOffset L)), SM\<lparr>LastFileIDLookup := c\<rparr>)"
    "getSLocEntry SM (file_of SM (unat (getOffset L))) = Some (entry_of SM L)"
    "getOffset L - entry_getOffset (entry_of SM L) = of_nat (in_entry SM L)"
    by (rule find_entry [OF assms])
  show ?thesis
  proof (cases "isFileID L")
    case True
    then show ?thesis using c assms(2) resolves.in_file [OF True, of pick SM] by fastforce
  next
    case False
    obtain II where II: "getInstantiation (entry_of SM L) = Some II" "info_ok SM (offsets SM ! file_of SM (unat (getOffset L))) II"
      by (rule macro_entry [OF assms False])
    from walk_entry_resolves [OF cached_locs_ok [OF assms(1) c(1)], of "offsets SM ! file_of SM (unat (getOffset L))" II "entry_of SM L" "of_nat (in_entry SM L)"] II
    obtain F n c' where "c' < length (SLocEntryTable SM)" "resolves pick SM (pick II) F n" "isFileID F" "loc_ok SM F"
      "walk_entry (SM\<lparr>LastFileIDLookup := c\<rparr>) (entry_of SM L) (of_nat (in_entry SM L)) =
         Some (file_of SM (unat (getOffset F)), of_nat (in_entry SM L) + of_nat (n + in_entry SM F), SM\<lparr>LastFileIDLookup := c'\<rparr>)"
      by auto
    then show ?thesis using c False resolves.in_macro [where pick = pick, OF False II(1)] by (fastforce simp: add.assoc Let_def)
  qed
qed

end

text \<open>The loops of \<^verbatim>\<open>getInstantiationRange\<close> follow one end of the range each.\<close>

locale range_walk =
  fixes pick :: "instantiation_info \<Rightarrow> source_location"
    and resolve :: "source_manager \<Rightarrow> source_location \<Rightarrow> (source_location \<times> source_manager) option"
    and side :: "source_location \<Rightarrow> source_location \<Rightarrow> source_location"
  assumes pick_side: "pick II = side (InstantiationLocStart II) (InstantiationLocEnd II)" "side = (\<lambda>S E. S) \<or> side = (\<lambda>S E. E)"
    and resolve_step: "resolve SM Loc = (if isFileID Loc then Some (Loc, SM)
      else do { (S, E, SM') \<leftarrow> getImmediateInstantiationRange SM Loc; resolve SM' (side S E) })"
begin

lemma resolve_resolves:
  assumes "locs_ok SM" "loc_ok SM L"
  shows "\<exists>F n c. c < length (SLocEntryTable SM) \<and> resolves pick SM L F n \<and> isFileID F \<and> loc_ok SM F \<and>
    resolve SM L = Some (F, SM\<lparr>LastFileIDLookup := c\<rparr>)"
  using assms
proof (induction "unat (getOffset L)" arbitrary: SM L rule: less_induct)
  case less
  show ?case
  proof (cases "isFileID L")
    case True
    have "LastFileIDLookup SM < length (SLocEntryTable SM)" using locs_okD [OF less.prems(1)] by (simp add: table_ok_def)
    moreover have "resolve SM L = Some (L, SM\<lparr>LastFileIDLookup := LastFileIDLookup SM\<rparr>)" using resolve_step [of SM] True by simp
    ultimately show ?thesis using less.prems(2) resolves.in_file [OF True, of pick SM] True by blast
  next
    case False
    obtain c where c: "c < length (SLocEntryTable SM)" "getFileID SM L = Some (file_of SM (unat (getOffset L)), SM\<lparr>LastFileIDLookup := c\<rparr>)"
      "getSLocEntry SM (file_of SM (unat (getOffset L))) = Some (entry_of SM L)"
      by (rule find_entry [OF less.prems])
    obtain II where II: "getInstantiation (entry_of SM L) = Some II" "info_ok SM (offsets SM ! file_of SM (unat (getOffset L))) II"
      by (rule macro_entry [OF less.prems False])
    have "pick II = InstantiationLocStart II \<or> pick II = InstantiationLocEnd II" using pick_side by metis
    then have P: "loc_ok SM (pick II)" "unat (getOffset (pick II)) < offsets SM ! file_of SM (unat (getOffset L))"
      using II(2) by (auto simp: info_ok_def)
    then have "unat (getOffset (pick II)) < unat (getOffset L)"
      using file_of_bound(2) [OF locs_okD [OF less.prems(1)], of "unat (getOffset L)"] by linarith
    from less.hyps [OF this cached_locs_ok [OF less.prems(1) c(1)]] P(1) obtain F n c' where F: "c' < length (SLocEntryTable SM)"
      "resolves pick SM (pick II) F n" "isFileID F" "loc_ok SM F" "resolve (SM\<lparr>LastFileIDLookup := c\<rparr>) (pick II) = Some (F, SM\<lparr>LastFileIDLookup := c'\<rparr>)"
      by auto
    have "getImmediateInstantiationRange SM L = Some (InstantiationLocStart II, InstantiationLocEnd II, SM\<lparr>LastFileIDLookup := c\<rparr>)"
      using False c(2,3) II(1) by (simp add: getImmediateInstantiationRange_def)
    then have "resolve SM L = resolve (SM\<lparr>LastFileIDLookup := c\<rparr>) (pick II)"
      unfolding resolve_step [of SM L] pick_side(1) [of II] using False by simp
    then show ?thesis using F resolves.in_macro [where pick = pick, OF False II(1) F(2)] by auto
  qed
qed

end

interpretation spelling: walk SpellingLoc getSpellingLocSlowCase getDecomposedSpellingLocSlowCase
  by unfold_locales (simp_all add: getSpellingLocSlowCase.simps [symmetric] getDecomposedSpellingLocSlowCase.simps Let_def)

interpretation expansion: walk InstantiationLocStart getInstantiationLocSlowCase getDecomposedInstantiationLocSlowCase
  by unfold_locales (simp_all add: getInstantiationLocSlowCase.simps [symmetric] getDecomposedInstantiationLocSlowCase.simps Let_def)

interpretation range_start: range_walk InstantiationLocStart resolve_first "\<lambda>S E. S"
  by unfold_locales (simp_all add: resolve_first.simps [symmetric])

interpretation range_end: range_walk InstantiationLocEnd resolve_second "\<lambda>S E. E"
  by unfold_locales (simp_all add: resolve_second.simps [symmetric])

section \<open>What the walks find\<close>

lemma getDecomposedSpellingLoc_resolves:
  assumes "locs_ok SM" "loc_ok SM L"
  shows "\<exists>F n c. c < length (SLocEntryTable SM) \<and> resolves SpellingLoc SM L F n \<and> isFileID F \<and> loc_ok SM F \<and>
    getDecomposedSpellingLoc SM L = Some (file_of SM (unat (getOffset F)), of_nat (n + in_entry SM F), SM\<lparr>LastFileIDLookup := c\<rparr>)"
  using spelling.decomposed_resolves [OF assms] unfolding getDecomposedSpellingLoc_def .

lemma getDecomposedInstantiationLoc_resolves:
  assumes "locs_ok SM" "loc_ok SM L"
  shows "\<exists>F n c. c < length (SLocEntryTable SM) \<and> resolves InstantiationLocStart SM L F n \<and> isFileID F \<and> loc_ok SM F \<and>
    getDecomposedInstantiationLoc SM L = Some (file_of SM (unat (getOffset F)), of_nat (n + in_entry SM F), SM\<lparr>LastFileIDLookup := c\<rparr>)"
  using expansion.decomposed_resolves [OF assms] unfolding getDecomposedInstantiationLoc_def .

lemma getInstantiationRange_resolves:
  assumes "locs_ok SM" "loc_ok SM L"
  shows "\<exists>S E m n c. getInstantiationRange SM L = Some (S, E, SM\<lparr>LastFileIDLookup := c\<rparr>) \<and> isFileID S \<and> isFileID E \<and>
    resolves InstantiationLocStart SM L S m \<and> resolves InstantiationLocEnd SM L E n"
proof (cases "isFileID L")
  case True
  have "getInstantiationRange SM L = Some (L, L, SM\<lparr>LastFileIDLookup := LastFileIDLookup SM\<rparr>)" using True by (simp add: getInstantiationRange_def)
  then show ?thesis using True resolves.in_file [OF True] by blast
next
  case False
  obtain c where c: "c < length (SLocEntryTable SM)" "getFileID SM L = Some (file_of SM (unat (getOffset L)), SM\<lparr>LastFileIDLookup := c\<rparr>)"
    "getSLocEntry SM (file_of SM (unat (getOffset L))) = Some (entry_of SM L)"
    by (rule find_entry [OF assms])
  obtain II where II: "getInstantiation (entry_of SM L) = Some II" "info_ok SM (offsets SM ! file_of SM (unat (getOffset L))) II"
    by (rule macro_entry [OF assms False])
  then have P: "loc_ok SM (InstantiationLocStart II)" "loc_ok SM (InstantiationLocEnd II)" by (auto simp: info_ok_def)
  have R: "getImmediateInstantiationRange SM L = Some (InstantiationLocStart II, InstantiationLocEnd II, SM\<lparr>LastFileIDLookup := c\<rparr>)"
    using False c(2,3) II(1) by (simp add: getImmediateInstantiationRange_def)
  from range_start.resolve_resolves [OF cached_locs_ok [OF assms(1) c(1)], of "InstantiationLocStart II"] P(1) obtain S m c1
    where S: "c1 < length (SLocEntryTable SM)" "resolves InstantiationLocStart SM (InstantiationLocStart II) S m" "isFileID S"
      "resolve_first (SM\<lparr>LastFileIDLookup := c\<rparr>) (InstantiationLocStart II) = Some (S, SM\<lparr>LastFileIDLookup := c1\<rparr>)" by auto
  from range_end.resolve_resolves [OF cached_locs_ok [OF assms(1) S(1)], of "InstantiationLocEnd II"] P(2) obtain E n c2
    where E: "resolves InstantiationLocEnd SM (InstantiationLocEnd II) E n" "isFileID E"
      "resolve_second (SM\<lparr>LastFileIDLookup := c1\<rparr>) (InstantiationLocEnd II) = Some (E, SM\<lparr>LastFileIDLookup := c2\<rparr>)" by auto
  have "getInstantiationRange SM L = Some (S, E, SM\<lparr>LastFileIDLookup := c2\<rparr>)" using False R S(4) E(3) by (simp add: getInstantiationRange_def)
  then show ?thesis using S(3) E(2) resolves.in_macro [where pick = InstantiationLocStart, OF False II(1) S(2)]
      resolves.in_macro [where pick = InstantiationLocEnd, OF False II(1) E(1)] by blast
qed

lemma example_entries [simp]:
  "SLocEntryTable example_sm ! Suc 0 = file_entry_at 2 \<lparr>IncludeLoc = 0, FileContent = 0, FileCharacteristic = C_User, HasLineDirectives = False\<rparr>"
  "SLocEntryTable example_sm ! 2 = instantiation_entry_at 10 \<lparr>SpellingLoc = 2, InstantiationLocStart = 5, InstantiationLocEnd = 6\<rparr>"
  "SLocEntryTable example_sm ! 3 = instantiation_entry_at 13
     \<lparr>SpellingLoc = MacroIDBit OR 11, InstantiationLocStart = MacroIDBit OR 10, InstantiationLocEnd = MacroIDBit OR 11\<rparr>"
  "length (SLocEntryTable example_sm) = 4" "length (Contents example_sm) = 1"
  by (simp_all add: example_sm_def eval_nat_numeral)

lemma example_file_of: "x < 2 \<Longrightarrow> file_of example_sm x = 0" "2 \<le> x \<Longrightarrow> x < 10 \<Longrightarrow> file_of example_sm x = 1"
  "10 \<le> x \<Longrightarrow> x < 13 \<Longrightarrow> file_of example_sm x = 2" "13 \<le> x \<Longrightarrow> file_of example_sm x = 3"
  by (simp_all add: file_of_def)

lemma example_loc_ok: "2 \<le> x \<Longrightarrow> x < 10 \<Longrightarrow> loc_ok example_sm (of_nat x)" "10 \<le> x \<Longrightarrow> x < 15 \<Longrightarrow> loc_ok example_sm (MacroIDBit OR of_nat x)"
proof -
  have u: "unat (of_nat x :: u32) = x" if "x < 15" using that by (intro unat_small) simp
  show "loc_ok example_sm (of_nat x)" if "2 \<le> x" "x < 10"
  proof -
    have lim: "unat (of_nat x :: u32) < loc_limit" using u that by simp
    show ?thesis using getFileLoc_Some(2,3) [OF lim] u that by (simp add: loc_ok_def entry_of_def example_file_of)
  qed
  show "loc_ok example_sm (MacroIDBit OR of_nat x)" if "10 \<le> x" "x < 15"
  proof -
    have lim: "unat (of_nat x :: u32) < loc_limit" using u that by simp
    show ?thesis using getMacroLoc_Some(2,3) [OF lim] u that
      by (cases "x < 13") (simp_all add: loc_ok_def entry_of_def example_file_of)
  qed
qed

lemma example_locs_ok: "locs_ok example_sm"
  unfolding locs_ok_def
proof (intro conjI allI impI)
  have ok: "loc_ok example_sm 2" "loc_ok example_sm 5" "loc_ok example_sm 6" "loc_ok example_sm (MacroIDBit OR 10)" "loc_ok example_sm (MacroIDBit OR 11)"
    using example_loc_ok(1) [of 2] example_loc_ok(1) [of 5] example_loc_ok(1) [of 6] example_loc_ok(2) [of 10] example_loc_ok(2) [of 11] by simp_all
  have off: "getOffset 2 = 2" "getOffset 5 = 5" "getOffset 6 = 6" "getOffset (MacroIDBit OR 10) = 10" "getOffset (MacroIDBit OR 11) = 11"
    by (simp_all add: getFileLoc_Some(3) getMacroLoc_Some(3))
  fix f assume "0 < f \<and> f < length (SLocEntryTable example_sm)"
  then consider "f = 1" | "f = 2" | "f = 3" by fastforce
  then show "entry_ok example_sm (offsets example_sm ! f) (SLocEntryTable example_sm ! f)"
    by cases (simp_all add: entry_ok_def info_ok_def ok off)
qed (rule example_ok)

text \<open>
  C31: every walk ends, in a file. From any location in use of a table in which every expansion refers to earlier locations in use, the
  three walks return, and what they return is where the chain of the field they follow leads: the file of the location at
  its end, with the offsets inside the expansions on the way added up, and for the range both of its ends.
\<close>

theorem walks_end:
  assumes "locs_ok SM" "loc_ok SM L"
  shows "(\<exists>F n c. resolves SpellingLoc SM L F n \<and> isFileID F \<and> loc_ok SM F \<and>
      getDecomposedSpellingLoc SM L = Some (file_of SM (unat (getOffset F)), of_nat (n + in_entry SM F), SM\<lparr>LastFileIDLookup := c\<rparr>)) \<and>
    (\<exists>F n c. resolves InstantiationLocStart SM L F n \<and> isFileID F \<and> loc_ok SM F \<and>
      getDecomposedInstantiationLoc SM L = Some (file_of SM (unat (getOffset F)), of_nat (n + in_entry SM F), SM\<lparr>LastFileIDLookup := c\<rparr>)) \<and>
    (\<exists>S E m n c. getInstantiationRange SM L = Some (S, E, SM\<lparr>LastFileIDLookup := c\<rparr>) \<and> isFileID S \<and> isFileID E \<and>
      resolves InstantiationLocStart SM L S m \<and> resolves InstantiationLocEnd SM L E n)"
  using getDecomposedSpellingLoc_resolves [OF assms] getDecomposedInstantiationLoc_resolves [OF assms]
    getInstantiationRange_resolves [OF assms] by blast

lemma walk_agrees:
  assumes "locs_ok SM" "loc_ok SM S" "file_of SM (unat (getOffset S)) = file_of SM (unat (getOffset F))" "in_entry SM S = n + in_entry SM F"
  shows "\<exists>c. getDecomposedLoc SM S = Some (file_of SM (unat (getOffset F)), of_nat (n + in_entry SM F), SM\<lparr>LastFileIDLookup := c\<rparr>)"
  using find_entry [OF assms(1,2)] assms(3,4) by metis

text \<open>
  C32: the two ways to walk agree. Where what every expansion refers to goes on in its entry for as long as the expansion does,
  the walk that keeps a location returns a file location, and that location decomposes to the file and the offset that the walk which
  keeps a file and an offset returns; for the spelling and for the point of expansion.
\<close>

theorem walks_agree:
  assumes "locs_ok SM" "loc_ok SM L" "fits SpellingLoc SM" "fits InstantiationLocStart SM"
  shows "(\<exists>S c f k c1 c2. getSpellingLoc SM L = Some (S, SM\<lparr>LastFileIDLookup := c\<rparr>) \<and> isFileID S \<and>
      getDecomposedLoc SM S = Some (f, k, SM\<lparr>LastFileIDLookup := c1\<rparr>) \<and> getDecomposedSpellingLoc SM L = Some (f, k, SM\<lparr>LastFileIDLookup := c2\<rparr>)) \<and>
    (\<exists>S c f k c1 c2. getInstantiationLoc SM L = Some (S, SM\<lparr>LastFileIDLookup := c\<rparr>) \<and> isFileID S \<and>
      getDecomposedLoc SM S = Some (f, k, SM\<lparr>LastFileIDLookup := c1\<rparr>) \<and> getDecomposedInstantiationLoc SM L = Some (f, k, SM\<lparr>LastFileIDLookup := c2\<rparr>))"
    (is "?Spelling \<and> ?Expansion")
proof (cases "isFileID L")
  case True
  obtain c where "getDecomposedLoc SM L = Some (file_of SM (unat (getOffset L)), of_nat (in_entry SM L), SM\<lparr>LastFileIDLookup := c\<rparr>)"
    "getFileID SM L = Some (file_of SM (unat (getOffset L)), SM\<lparr>LastFileIDLookup := c\<rparr>)"
    "getSLocEntry SM (file_of SM (unat (getOffset L))) = Some (entry_of SM L)"
    "getOffset L - entry_getOffset (entry_of SM L) = of_nat (in_entry SM L)"
    by (rule find_entry [OF assms(1,2)])
  moreover have "SM\<lparr>LastFileIDLookup := LastFileIDLookup SM\<rparr> = SM" by simp
  ultimately show ?thesis using True
    by (auto simp: getSpellingLoc_def getInstantiationLoc_def getDecomposedSpellingLoc_def getDecomposedInstantiationLoc_def
      intro: exI [of _ "LastFileIDLookup SM"])
next
  case False
  have ?Spelling
  proof -
    obtain S F n c where S: "getSpellingLoc SM L = Some (S, SM\<lparr>LastFileIDLookup := c\<rparr>)" "resolves SpellingLoc SM L F n" "isFileID S" "loc_ok SM S"
      "file_of SM (unat (getOffset S)) = file_of SM (unat (getOffset F))" "in_entry SM S = n + in_entry SM F"
      using spelling.walk_loc_resolves [OF assms(1,3,2) False] False by (auto simp: getSpellingLoc_def)
    then show ?thesis using getDecomposedSpellingLoc_resolves [OF assms(1,2)] resolves_det [OF S(2)] walk_agrees [OF assms(1) S(4-6)] by blast
  qed
  moreover have ?Expansion
  proof -
    obtain S F n c where S: "getInstantiationLoc SM L = Some (S, SM\<lparr>LastFileIDLookup := c\<rparr>)" "resolves InstantiationLocStart SM L F n" "isFileID S" "loc_ok SM S"
      "file_of SM (unat (getOffset S)) = file_of SM (unat (getOffset F))" "in_entry SM S = n + in_entry SM F"
      using expansion.walk_loc_resolves [OF assms(1,4,2) False] False by (auto simp: getInstantiationLoc_def)
    then show ?thesis using getDecomposedInstantiationLoc_resolves [OF assms(1,2)] resolves_det [OF S(2)] walk_agrees [OF assms(1) S(4-6)] by blast
  qed
  ultimately show ?thesis by blast
qed

theorem walks_end_witness:
  "\<exists>F n c. resolves SpellingLoc example_sm (MacroIDBit OR 14) F n \<and>
     getDecomposedSpellingLoc example_sm (MacroIDBit OR 14) =
       Some (file_of example_sm (unat (getOffset F)), of_nat (n + in_entry example_sm F), example_sm\<lparr>LastFileIDLookup := c\<rparr>)"
proof -
  have "loc_ok example_sm (MacroIDBit OR 14)" using example_loc_ok(2) [of 14] by simp
  from walks_end [OF example_locs_ok this] show ?thesis by blast
qed

lemma example_fits: "fits SpellingLoc example_sm" "fits InstantiationLocStart example_sm"
proof -
  have "unat (getOffset (pick II)) + in_entry example_sm L < unat (NextOffset example_sm) \<and>
      file_of example_sm (unat (getOffset (pick II)) + in_entry example_sm L) = file_of example_sm (unat (getOffset (pick II)))"
    if L: "loc_ok example_sm L" "\<not> isFileID L" "getInstantiation (entry_of example_sm L) = Some II"
      and pick: "pick = SpellingLoc \<or> pick = InstantiationLocStart" for L II pick
  proof -
    have off: "getOffset 2 = 2" "getOffset 5 = 5" "getOffset (MacroIDBit OR 10) = 10" "getOffset (MacroIDBit OR 11) = 11"
      by (simp_all add: getFileLoc_Some(3) getMacroLoc_Some(3))
    let ?x = "unat (getOffset L)"
    have x: "?x < 15" "0 < file_of example_sm ?x" using L(1) by (simp_all add: loc_ok_def)
    consider "?x < 2" | "2 \<le> ?x" "?x < 10" | "10 \<le> ?x" "?x < 13" | "13 \<le> ?x" by linarith
    then show ?thesis
    proof cases
      case 3
      then have "in_entry example_sm L = ?x - 10" "II = \<lparr>SpellingLoc = 2, InstantiationLocStart = 5, InstantiationLocEnd = 6\<rparr>"
        using L(3) by (simp_all add: in_entry_def entry_of_def example_file_of)
      then show ?thesis using 3 pick off by (auto simp: example_file_of)
    next
      case 4
      then have "in_entry example_sm L = ?x - 13"
        "II = \<lparr>SpellingLoc = MacroIDBit OR 11, InstantiationLocStart = MacroIDBit OR 10, InstantiationLocEnd = MacroIDBit OR 11\<rparr>"
        using L(3) by (simp_all add: in_entry_def entry_of_def example_file_of)
      then show ?thesis using 4 x pick off by (auto simp: example_file_of)
    qed (use L x in \<open>auto simp: loc_ok_def entry_of_def example_file_of\<close>)
  qed
  then show "fits SpellingLoc example_sm" "fits InstantiationLocStart example_sm" unfolding fits_def by blast+
qed

theorem walks_agree_witness:
  "\<exists>S c f k c1 c2. getSpellingLoc example_sm (MacroIDBit OR 14) = Some (S, example_sm\<lparr>LastFileIDLookup := c\<rparr>) \<and> isFileID S \<and>
     getDecomposedLoc example_sm S = Some (f, k, example_sm\<lparr>LastFileIDLookup := c1\<rparr>) \<and>
     getDecomposedSpellingLoc example_sm (MacroIDBit OR 14) = Some (f, k, example_sm\<lparr>LastFileIDLookup := c2\<rparr>)"
proof -
  have "loc_ok example_sm (MacroIDBit OR 14)" using example_loc_ok(2) [of 14] by simp
  from walks_agree [OF example_locs_ok this example_fits] show ?thesis by blast
qed

section \<open>New entries keep the table in order\<close>

lemma pushed_loc_ok:
  assumes "table_ok SM" "entry_getOffset E = NextOffset SM" "unat (NextOffset SM) < unat Next" "loc_ok SM L"
  shows "loc_ok (pushed SM E Next c) L"
proof -
  have L: "unat (getOffset L) < unat (NextOffset SM)" using assms(4) by (simp add: loc_ok_def)
  note old = pushed_old [OF assms(1,2) L, of Next c]
  have "entry_of (pushed SM E Next c) L = entry_of SM L"
    unfolding entry_of_def old using file_of_bound(1) [OF assms(1)] by (simp add: pushed_def nth_append)
  moreover have "unat (NextOffset (pushed SM E Next c)) = unat Next" by (simp add: pushed_def)
  ultimately show ?thesis using assms(3,4) unfolding loc_ok_def old by simp
qed

lemma pushed_entry_ok:
  assumes "table_ok SM" "entry_getOffset E = NextOffset SM" "unat (NextOffset SM) < unat Next" "entry_ok SM x D"
  shows "entry_ok (pushed SM E Next c) x D"
  using assms(4) pushed_loc_ok [OF assms(1-3)] by (auto simp: entry_ok_def info_ok_def pushed_def split: sum.splits)

lemma pushed_locs_ok:
  assumes "locs_ok SM" "entry_getOffset E = NextOffset SM" "unat (NextOffset SM) < unat Next" "table_ok (pushed SM E Next c)"
    "entry_ok SM (unat (NextOffset SM)) E"
  shows "locs_ok (pushed SM E Next c)"
  unfolding locs_ok_def
proof (intro conjI allI impI)
  note ok = pushed_entry_ok [OF locs_okD [OF assms(1)] assms(2,3), of _ _ c]
  fix f assume f: "0 < f \<and> f < length (SLocEntryTable (pushed SM E Next c))"
  show "entry_ok (pushed SM E Next c) (offsets (pushed SM E Next c) ! f) (SLocEntryTable (pushed SM E Next c) ! f)"
  proof (cases "f < length (SLocEntryTable SM)")
    case True
    then have "entry_ok SM (offsets SM ! f) (SLocEntryTable SM ! f)" using assms(1) f by (simp add: locs_ok_def)
    from ok [OF this] show ?thesis using True unfolding pushed_offsets by (simp add: pushed_def nth_append)
  next
    case False
    then have "f = length (SLocEntryTable SM)" using f by (simp add: pushed_def)
    then show ?thesis using ok [OF assms(5)] assms(2) unfolding pushed_offsets by (simp add: pushed_def nth_append)
  qed
qed (rule assms(4))

text \<open>
  Creating files and expansions keeps the table in order. A new file, and a new expansion that refers to locations in use, are
  entered if they fit; all locations in use stay in use, the table keeps referring to earlier entries only, and every character of the new
  expansion is a macro location in use.
\<close>

theorem creation_keeps_order:
  assumes "locs_ok SM"
  shows "(\<forall>File Inc K n. File < length (Contents SM) \<and> cc_getSize (Contents SM ! File) = Some n \<and> unat (NextOffset SM) + n + 1 \<le> loc_limit \<longrightarrow>
      (\<exists>SM'. createFileID_content File Inc K SM = Some (length (SLocEntryTable SM), SM') \<and> locs_ok SM' \<and>
        (\<forall>M. loc_ok SM M \<longrightarrow> loc_ok SM' M))) \<and>
    (\<forall>Sp St En n. loc_ok SM Sp \<and> loc_ok SM St \<and> loc_ok SM En \<and> unat (NextOffset SM) + unat n + 1 \<le> loc_limit \<longrightarrow>
      (\<exists>L SM'. createInstantiationLoc Sp St En n SM = Some (L, SM') \<and> locs_ok SM' \<and> (\<forall>M. loc_ok SM M \<longrightarrow> loc_ok SM' M) \<and>
        (\<forall>k \<le> unat n. loc_ok SM' (L + of_nat k) \<and> \<not> isFileID (L + of_nat k))))"
    (is "?Files \<and> ?Expansions")
proof
  note ok = locs_okD [OF assms]
  show ?Files
  proof (intro allI impI)
    fix File Inc K n
    assume h: "File < length (Contents SM) \<and> cc_getSize (Contents SM ! File) = Some n \<and> unat (NextOffset SM) + n + 1 \<le> loc_limit"
    note P = createFileID_pushes [OF ok, of File n, where Inc = Inc and K = K]
    have off: "entry_getOffset (file_entry_at (NextOffset SM) FI) = NextOffset SM" for FI using h by simp
    have le: "unat (NextOffset SM) < unat (NextOffset SM + (of_nat n + 1))" using P(3) h by (simp add: pushed_def)
    have "entry_ok SM (unat (NextOffset SM)) (file_entry_at (NextOffset SM) \<lparr>IncludeLoc = Inc, FileContent = File, FileCharacteristic = K, HasLineDirectives = False\<rparr>)"
      using h by (simp add: entry_ok_def)
    then show "\<exists>SM'. createFileID_content File Inc K SM = Some (length (SLocEntryTable SM), SM') \<and> locs_ok SM' \<and>
        (\<forall>M. loc_ok SM M \<longrightarrow> loc_ok SM' M)"
      using P(1,2) h pushed_locs_ok [OF assms off le] pushed_loc_ok [OF ok off le] by blast
  qed
  show ?Expansions
  proof (intro allI impI)
    fix Sp St En and n :: u32
    assume h: "loc_ok SM Sp \<and> loc_ok SM St \<and> loc_ok SM En \<and> unat (NextOffset SM) + unat n + 1 \<le> loc_limit"
    let ?N = "NextOffset SM" and ?II = "\<lparr>SpellingLoc = Sp, InstantiationLocStart = St, InstantiationLocEnd = En\<rparr>"
    let ?E = "instantiation_entry_at ?N ?II" and ?L = "MacroIDBit OR ?N"
    let ?SM = "pushed SM ?E (?N + (n + 1)) (LastFileIDLookup SM)"
    have fit: "unat ?N + unat n + 1 \<le> loc_limit" using h by blast
    then have lim: "unat ?N < loc_limit" by linarith
    note P = createInstantiationLoc_pushes [OF ok fit, where Sp = Sp and St = St and En = En]
    have off: "entry_getOffset ?E = ?N" using lim by simp
    have after: "unat (NextOffset ?SM) = unat ?N + unat n + 1" by (rule P(3))
    then have le: "unat ?N < unat (?N + (n + 1))" by (simp add: pushed_def)
    have "info_ok SM (unat ?N) ?II" using h by (auto simp: info_ok_def loc_ok_def)
    then have "entry_ok SM (unat ?N) ?E" by (simp add: entry_ok_def)
    from pushed_locs_ok [OF assms off le P(2) this] have lo: "locs_ok ?SM" .
    have new: "loc_ok ?SM (?L + of_nat k) \<and> \<not> isFileID (?L + of_nat k)" if k: "k \<le> unat n" for k
    proof -
      have uk: "unat (of_nat k :: u32) = k" using k fit by (intro unat_small) simp
      have "unat (getOffset ?L) + unat (of_nat k :: u32) < loc_limit" using uk k fit getMacroLoc_Some(3) [OF lim] by simp
      note L = getFileLocWithOffset_Some [OF this]
      have o: "unat (getOffset (?L + of_nat k)) = unat ?N + k" using L(4) uk getMacroLoc_Some(3) [OF lim] by simp
      have f: "file_of ?SM (unat (getOffset (?L + of_nat k))) = length (SLocEntryTable SM)"
        unfolding o by (rule pushed_new [OF P(2) off]) simp
      have "entry_of ?SM (?L + of_nat k) = ?E" unfolding entry_of_def f by (simp add: pushed_def)
      moreover have "0 < length (SLocEntryTable SM)" using ok by (auto simp: table_ok_def)
      ultimately show ?thesis using L(3) getMacroLoc_Some(2) [OF lim] k after unfolding loc_ok_def o f [unfolded o] by simp
    qed
    show "\<exists>L SM'. createInstantiationLoc Sp St En n SM = Some (L, SM') \<and> locs_ok SM' \<and> (\<forall>M. loc_ok SM M \<longrightarrow> loc_ok SM' M) \<and>
        (\<forall>k \<le> unat n. loc_ok SM' (L + of_nat k) \<and> \<not> isFileID (L + of_nat k))"
      using P(1) lo pushed_loc_ok [OF ok off le] new by blast
  qed
qed

theorem creation_keeps_order_witness:
  "\<exists>L SM'. createInstantiationLoc (MacroIDBit OR 14) 4 5 1 example_sm = Some (L, SM') \<and> locs_ok SM' \<and> loc_ok SM' (L + of_nat 1)"
proof -
  have h: "loc_ok example_sm (MacroIDBit OR 14) \<and> loc_ok example_sm 4 \<and> loc_ok example_sm 5 \<and>
      unat (NextOffset example_sm) + unat (1 :: u32) + 1 \<le> loc_limit"
    using example_loc_ok(2) [of 14] example_loc_ok(1) [of 4] example_loc_ok(1) [of 5] by simp
  obtain L SM' where "createInstantiationLoc (MacroIDBit OR 14) 4 5 1 example_sm = Some (L, SM')" "locs_ok SM'"
    "\<forall>k \<le> unat (1 :: u32). loc_ok SM' (L + of_nat k)"
    using creation_keeps_order [OF example_locs_ok] h by metis
  moreover have "1 \<le> unat (1 :: u32)" by simp
  ultimately show ?thesis by blast
qed

end
