(* ===== verification/LineNumbers.thy ===== *)
theory LineNumbers
  imports SourceWalks
begin

text \<open>
  Lines and columns (\<^verbatim>\<open>lib/Basic/SourceManager.cpp\<close>): the buffers of files, the table of line offsets that is
  computed once for each of them, the search for the line of a position, which starts from the answer to the last query, and the
  locations that \<^verbatim>\<open>#line\<close> directives make presumed. \<open>FS\<close> reads files.
\<close>

section \<open>Buffers and columns\<close>

definition content_of :: "source_manager \<Rightarrow> nat \<Rightarrow> nat option" where
  "content_of SM FID = do {
     E \<leftarrow> getSLocEntry SM FID;
     FI \<leftarrow> getFile E;
     asserting (FileContent FI < length (Contents SM));
     Some (FileContent FI) }"

definition getBuffer :: "file_system \<Rightarrow> source_manager \<Rightarrow> nat \<Rightarrow> (string \<times> source_manager) option" where
  "getBuffer FS SM FID = do {
     C \<leftarrow> content_of SM FID;
     let CC = cc_getBuffer FS (Contents SM ! C);
     Buf \<leftarrow> cc_Buffer CC;
     Some (Buf, SM\<lparr>Contents := (Contents SM)[C := CC]\<rparr>) }"

definition getFileEntryForID :: "source_manager \<Rightarrow> nat \<Rightarrow> file_entry option option" where
  "getFileEntryForID SM FID = do { C \<leftarrow> content_of SM FID; Some (cc_Entry (Contents SM ! C)) }"

definition newline :: "char \<Rightarrow> bool" where
  "newline c \<longleftrightarrow> c = CHR 0x0A \<or> c = CHR 0x0D"

text \<open>Every buffer ends with a NUL character behind its last one.\<close>

fun column_start :: "string \<Rightarrow> nat \<Rightarrow> nat" where
  "column_start Buf 0 = 0"
| "column_start Buf (Suc LineStart) = (if newline ((Buf @ [CHR 0x00]) ! LineStart) then Suc LineStart else column_start Buf LineStart)"

definition getColumnNumber :: "file_system \<Rightarrow> source_manager \<Rightarrow> nat \<Rightarrow> nat \<Rightarrow> (nat \<times> source_manager) option" where
  "getColumnNumber FS SM FID FilePos = do {
     (Buf, SM') \<leftarrow> getBuffer FS SM FID;
     asserting (FilePos \<le> length Buf + 1);
     Some (wrap32 (FilePos - column_start Buf FilePos + 1), SM') }"

section \<open>Lines\<close>

text \<open>
  The line starts behind offset \<open>Offs\<close>, which is a 32-bit number; two different line ends in a row count as one.
\<close>

fun line_offsets :: "string \<Rightarrow> nat \<Rightarrow> nat list" where
  "line_offsets [] Offs = []"
| "line_offsets [c] Offs = (if newline c then [wrap32 (Offs + 1)] else [])"
| "line_offsets (c # d # cs) Offs =
     (if newline c
      then if newline d \<and> c \<noteq> d then wrap32 (Offs + 2) # line_offsets cs (wrap32 (Offs + 2))
           else wrap32 (Offs + 1) # line_offsets (d # cs) (wrap32 (Offs + 1))
      else line_offsets (d # cs) (wrap32 (Offs + 1)))"

definition line_table :: "string \<Rightarrow> nat list" where
  "line_table Buf = 0 # line_offsets Buf 0"

definition ComputeLineNumbers :: "file_system \<Rightarrow> content_cache \<Rightarrow> content_cache option" where
  "ComputeLineNumbers FS CC = do {
     let CC' = cc_getBuffer FS CC;
     Buf \<leftarrow> cc_Buffer CC';
     Some (CC'\<lparr>cc_SourceLineCache := Some (line_table Buf)\<rparr>) }"

text \<open>\<^verbatim>\<open>std::lower_bound\<close> on the part of a sorted array between two positions, which both have to be in it or at its end.\<close>

definition lower_bound :: "nat list \<Rightarrow> nat \<Rightarrow> nat \<Rightarrow> nat \<Rightarrow> nat option" where
  "lower_bound Table First Last x = do {
     asserting (First \<le> Last \<and> Last \<le> length Table);
     Some (First + length (takeWhile (\<lambda>a. a < x) (take (Last - First) (drop First Table)))) }"

text \<open>
  The part of the table to search, from the last query if it was for the same file. The number of lines is kept in 32 bits.
\<close>

definition line_range :: "source_manager \<Rightarrow> nat \<Rightarrow> nat list \<Rightarrow> nat \<Rightarrow> (nat \<times> nat) option" where
  "line_range SM FID Table QueriedFilePos =
     (if LastLineNoFileIDQuery SM = FID then
        if QueriedFilePos \<ge> LastLineNoFilePos SM then do {
          asserting (0 < LastLineNoResult SM);
          let First = LastLineNoResult SM - 1;
          let End = wrap32 (length Table);
          Some (First,
            if First + 5 < End then
              if Table ! (First + 5) > QueriedFilePos then First + 5
              else if First + 10 < End then
                if Table ! (First + 10) > QueriedFilePos then First + 10
                else if First + 20 < End then
                  if Table ! (First + 20) > QueriedFilePos then First + 20 else End
                else End
              else End
            else End) }
        else Some (0, LastLineNoResult SM + 1)
      else Some (0, wrap32 (length Table)))"

definition getLineNumber :: "file_system \<Rightarrow> source_manager \<Rightarrow> nat \<Rightarrow> nat \<Rightarrow> (nat \<times> source_manager) option" where
  "getLineNumber FS SM FID FilePos = do {
     C \<leftarrow> (if LastLineNoFileIDQuery SM = FID then LastLineNoContentCache SM else content_of SM FID);
     asserting (C < length (Contents SM));
     CC \<leftarrow> (if cc_SourceLineCache (Contents SM ! C) = None then ComputeLineNumbers FS (Contents SM ! C) else Some (Contents SM ! C));
     Table \<leftarrow> cc_SourceLineCache CC;
     let QueriedFilePos = (FilePos + 1) mod 2 ^ 32;
     (First, Last) \<leftarrow> line_range SM FID Table QueriedFilePos;
     Pos \<leftarrow> lower_bound Table First Last QueriedFilePos;
     let LineNo = wrap32 Pos;
     Some (LineNo, SM\<lparr>Contents := (Contents SM)[C := CC], LastLineNoFileIDQuery := FID, LastLineNoContentCache := Some C,
       LastLineNoFilePos := QueriedFilePos, LastLineNoResult := LineNo\<rparr>) }"

section \<open>Queries by location\<close>

definition getSpellingColumnNumber :: "file_system \<Rightarrow> source_manager \<Rightarrow> source_location \<Rightarrow> (nat \<times> source_manager) option" where
  "getSpellingColumnNumber FS SM Loc =
     (if Loc = 0 then Some (0, SM)
      else do { (FID, Offset, SM') \<leftarrow> getDecomposedSpellingLoc SM Loc; getColumnNumber FS SM' FID (unat Offset) })"

definition getInstantiationColumnNumber :: "file_system \<Rightarrow> source_manager \<Rightarrow> source_location \<Rightarrow> (nat \<times> source_manager) option" where
  "getInstantiationColumnNumber FS SM Loc =
     (if Loc = 0 then Some (0, SM)
      else do { (FID, Offset, SM') \<leftarrow> getDecomposedInstantiationLoc SM Loc; getColumnNumber FS SM' FID (unat Offset) })"

definition getSpellingLineNumber :: "file_system \<Rightarrow> source_manager \<Rightarrow> source_location \<Rightarrow> (nat \<times> source_manager) option" where
  "getSpellingLineNumber FS SM Loc =
     (if Loc = 0 then Some (0, SM)
      else do { (FID, Offset, SM') \<leftarrow> getDecomposedSpellingLoc SM Loc; getLineNumber FS SM' FID (unat Offset) })"

definition getInstantiationLineNumber :: "file_system \<Rightarrow> source_manager \<Rightarrow> source_location \<Rightarrow> (nat \<times> source_manager) option" where
  "getInstantiationLineNumber FS SM Loc =
     (if Loc = 0 then Some (0, SM)
      else do { (FID, Offset, SM') \<leftarrow> getDecomposedInstantiationLoc SM Loc; getLineNumber FS SM' FID (unat Offset) })"

text \<open>The characters at a location: the rest of the buffer of its spelling.\<close>

definition getCharacterData :: "file_system \<Rightarrow> source_manager \<Rightarrow> source_location \<Rightarrow> (string \<times> nat \<times> source_manager) option" where
  "getCharacterData FS SM SL = do {
     (FID, Offset, SM1) \<leftarrow> getDecomposedSpellingLoc SM SL;
     (Buf, SM2) \<leftarrow> getBuffer FS SM1 FID;
     Some (Buf, unat Offset, SM2) }"

definition getBufferName :: "file_system \<Rightarrow> source_manager \<Rightarrow> source_location \<Rightarrow> (string \<times> source_manager) option" where
  "getBufferName FS SM Loc =
     (if Loc = 0 then Some (''<invalid loc>'', SM)
      else do {
        (FID, SM1) \<leftarrow> getFileID SM Loc;
        C \<leftarrow> content_of SM1 FID;
        (Buf, SM2) \<leftarrow> getBuffer FS SM1 FID;
        Some (cc_Identifier (Contents SM2 ! C), SM2) })"

section \<open>Line directives\<close>

definition getLineTableFilenameID :: "string \<Rightarrow> source_manager \<Rightarrow> nat \<times> source_manager" where
  "getLineTableFilenameID Name SM =
     (let (ID, T) = table_getLineTableFilenameID Name (case sm_LineTable SM of None \<Rightarrow> LineTableInfo | Some T \<Rightarrow> T)
      in (ID, SM\<lparr>sm_LineTable := Some T\<rparr>))"

text \<open>Where a note goes, in a file that is marked as having some.\<close>

definition note_position :: "source_location \<Rightarrow> source_manager \<Rightarrow> (nat \<times> u32 \<times> line_table_info \<times> source_manager) option" where
  "note_position Loc SM = do {
     (FID, Offset, SM') \<leftarrow> getDecomposedInstantiationLoc SM Loc;
     E \<leftarrow> getSLocEntry SM' FID;
     FI \<leftarrow> getFile E;
     Some (FID, Offset, (case sm_LineTable SM' of None \<Rightarrow> LineTableInfo | Some T \<Rightarrow> T),
       SM'\<lparr>SLocEntryTable := (SLocEntryTable SM')[FID := E\<lparr>entry_Data := Inl (FI\<lparr>HasLineDirectives := True\<rparr>)\<rparr>]\<rparr>) }"

definition AddLineNote :: "source_location \<Rightarrow> nat \<Rightarrow> int \<Rightarrow> source_manager \<Rightarrow> source_manager option" where
  "AddLineNote Loc LineNum Filename SM = do {
     (FID, Offset, T, SM') \<leftarrow> note_position Loc SM;
     T' \<leftarrow> table_AddLineNote FID (unat Offset) LineNum Filename T;
     Some (SM'\<lparr>sm_LineTable := Some T'\<rparr>) }"

definition AddLineMarker ::
    "source_location \<Rightarrow> nat \<Rightarrow> int \<Rightarrow> bool \<Rightarrow> bool \<Rightarrow> bool \<Rightarrow> bool \<Rightarrow> source_manager \<Rightarrow> source_manager option" where
  "AddLineMarker Loc LineNum Filename IsFileEntry IsFileExit IsSystemHeader IsExternCHeader SM =
     (if Filename = -1 then do {
        asserting (\<not> IsFileEntry \<and> \<not> IsFileExit \<and> \<not> IsSystemHeader \<and> \<not> IsExternCHeader);
        AddLineNote Loc LineNum Filename SM }
      else do {
        (FID, Offset, T, SM') \<leftarrow> note_position Loc SM;
        let Kind = (if IsExternCHeader then C_ExternCSystem else if IsSystemHeader then C_System else C_User);
        let EntryExit = (if IsFileEntry then 1 else if IsFileExit then 2 else 0);
        T' \<leftarrow> table_AddLineMarker FID (unat Offset) LineNum Filename EntryExit Kind T;
        Some (SM'\<lparr>sm_LineTable := Some T'\<rparr>) })"

text \<open>The note before a position, in a file that has some.\<close>

definition note_before :: "source_manager \<Rightarrow> nat \<Rightarrow> u32 \<Rightarrow> file_info \<Rightarrow> line_entry option option" where
  "note_before SM FID Offset FI =
     (if HasLineDirectives FI then do { T \<leftarrow> sm_LineTable SM; FindNearestLineEntry FID (unat Offset) T } else Some None)"

definition getFileCharacteristic :: "source_manager \<Rightarrow> source_location \<Rightarrow> (characteristic_kind \<times> source_manager) option" where
  "getFileCharacteristic SM Loc = do {
     asserting (Loc \<noteq> 0);
     (FID, Offset, SM') \<leftarrow> getDecomposedInstantiationLoc SM Loc;
     E \<leftarrow> getSLocEntry SM' FID;
     FI \<leftarrow> getFile E;
     Entry \<leftarrow> note_before SM' FID Offset FI;
     Some (case Entry of None \<Rightarrow> FileCharacteristic FI | Some N \<Rightarrow> FileKind N, SM') }"

definition isInSystemHeader :: "source_manager \<Rightarrow> source_location \<Rightarrow> (bool \<times> source_manager) option" where
  "isInSystemHeader SM Loc = do { (K, SM') \<leftarrow> getFileCharacteristic SM Loc; Some (K \<noteq> C_User, SM') }"

record presumed_loc =
  pl_Filename :: string
  pl_Line :: u32
  pl_Col :: nat
  pl_IncludeLoc :: source_location

text \<open>The name, the line and the include location are overwritten by a note, of which the line may be many lines before.\<close>

definition getPresumedLoc :: "file_system \<Rightarrow> source_manager \<Rightarrow> source_location \<Rightarrow> (presumed_loc option \<times> source_manager) option" where
  "getPresumedLoc FS SM Loc =
     (if Loc = 0 then Some (None, SM)
      else do {
        (FID, Offset, SM1) \<leftarrow> getDecomposedInstantiationLoc SM Loc;
        E \<leftarrow> getSLocEntry SM1 FID;
        FI \<leftarrow> getFile E;
        C \<leftarrow> content_of SM1 FID;
        (Filename, SM2) \<leftarrow> (case cc_Entry (Contents SM1 ! C) of
            Some FE \<Rightarrow> Some (fe_Name FE, SM1)
          | None \<Rightarrow> do { (Buf, SM2) \<leftarrow> getBuffer FS SM1 FID; Some (cc_Identifier (Contents SM2 ! C), SM2) });
        (PhysLine, SM3) \<leftarrow> getLineNumber FS SM2 FID (unat Offset);
        (ColNo, SM4) \<leftarrow> getColumnNumber FS SM3 FID (unat Offset);
        Entry \<leftarrow> note_before SM4 FID Offset FI;
        case Entry of
          None \<Rightarrow> Some (Some \<lparr>pl_Filename = Filename, pl_Line = of_nat PhysLine, pl_Col = ColNo, pl_IncludeLoc = IncludeLoc FI\<rparr>, SM4)
        | Some N \<Rightarrow> do {
            T \<leftarrow> sm_LineTable SM4;
            Name \<leftarrow> (if FilenameID N = -1 then Some Filename else getFilename (nat (FilenameID N)) T);
            (MarkerLineNo, SM5) \<leftarrow> getLineNumber FS SM4 FID (FileOffset N);
            Include \<leftarrow> (if IncludeOffset N = 0 then Some (IncludeLoc FI)
              else do { Start \<leftarrow> getLocForStartOfFile SM5 FID; getFileLocWithOffset Start (of_nat (IncludeOffset N)) });
            Some (Some \<lparr>pl_Filename = Name, pl_Line = of_nat (LineNo N) + (of_nat PhysLine - of_nat MarkerLineNo - 1), pl_Col = ColNo,
              pl_IncludeLoc = Include\<rparr>, SM5) } })"

section \<open>The table of line starts\<close>

text \<open>Where the lines start, without a bound on the numbers. The table is this one for a buffer of less than 4 GB.\<close>

fun line_starts :: "string \<Rightarrow> nat \<Rightarrow> nat list" where
  "line_starts [] Offs = []"
| "line_starts [c] Offs = (if newline c then [Offs + 1] else [])"
| "line_starts (c # d # cs) Offs =
     (if newline c
      then if newline d \<and> c \<noteq> d then (Offs + 2) # line_starts cs (Offs + 2) else (Offs + 1) # line_starts (d # cs) (Offs + 1)
      else line_starts (d # cs) (Offs + 1))"

definition all_line_starts :: "string \<Rightarrow> nat list" where
  "all_line_starts Buf = 0 # line_starts Buf 0"

definition lines_fit :: "string \<Rightarrow> bool" where
  "lines_fit Buf \<longleftrightarrow> length Buf + 1 < 2 ^ 32"

lemma line_offsets_starts: "Offs + length s < 2 ^ 32 \<Longrightarrow> line_offsets s Offs = line_starts s Offs"
  by (induction s Offs rule: line_starts.induct) simp_all

lemma line_table_starts [simp]: "lines_fit Buf \<Longrightarrow> line_table Buf = all_line_starts Buf"
  by (simp add: line_table_def all_line_starts_def lines_fit_def line_offsets_starts)

lemma line_starts_greater: "a \<in> set (line_starts s Offs) \<Longrightarrow> Offs < a \<and> a \<le> Offs + length s"
  by (induction s Offs rule: line_starts.induct) (fastforce split: if_splits)+

lemma line_starts_sorted: "sorted_wrt (<) (line_starts s Offs)"
  by (induction s Offs rule: line_starts.induct) (auto dest: line_starts_greater)

lemma all_line_starts_sorted: "sorted_wrt (<) (all_line_starts Buf)"
  using line_starts_sorted [of Buf 0] line_starts_greater [of _ Buf 0] by (auto simp: all_line_starts_def)

lemma length_line_starts: "length (line_starts s Offs) \<le> length s"
  by (induction s Offs rule: line_starts.induct) auto

lemma lines_fit_length: "lines_fit Buf \<Longrightarrow> length (all_line_starts Buf) < 2 ^ 32"
  using length_line_starts [of Buf 0] by (simp add: lines_fit_def all_line_starts_def)

text \<open>The reference: the number of lines that start at or before a position.\<close>

definition line_of :: "string \<Rightarrow> nat \<Rightarrow> nat" where
  "line_of Buf FilePos = length (filter (\<lambda>a. a \<le> FilePos) (all_line_starts Buf))"

lemma line_of_pos: "0 < line_of Buf p"
  by (simp add: line_of_def all_line_starts_def)

lemma line_of_le: "line_of Buf p \<le> length (all_line_starts Buf)"
  by (simp add: line_of_def)

lemma line_of_mono: "p \<le> q \<Longrightarrow> line_of Buf p \<le> line_of Buf q"
proof -
  assume "p \<le> q"
  then have "filter (\<lambda>a. a \<le> p) (all_line_starts Buf) = filter (\<lambda>a. a \<le> p) (filter (\<lambda>a. a \<le> q) (all_line_starts Buf))"
    by (auto intro: filter_cong)
  then show ?thesis unfolding line_of_def by (metis length_filter_le)
qed

lemma sorted_prefix: "sorted_wrt (<) xs \<Longrightarrow> i < length xs \<Longrightarrow> xs ! i \<le> (x :: nat) \<longleftrightarrow> i < length (filter (\<lambda>a. a \<le> x) xs)"
proof (induction xs arbitrary: i)
  case (Cons a xs)
  have none: "filter (\<lambda>a. a \<le> x) xs = []" if "\<not> a \<le> x" using Cons.prems(1) that by (force simp: filter_empty_conv)
  have "\<not> a \<le> x \<Longrightarrow> \<not> (a # xs) ! i \<le> x" using Cons.prems by (cases i) (fastforce dest: nth_mem)+
  then show ?case using Cons none by (cases i) auto
qed simp

lemma all_line_starts_nth: "i < length (all_line_starts Buf) \<Longrightarrow> all_line_starts Buf ! i \<le> p \<longleftrightarrow> i < line_of Buf p"
  unfolding line_of_def by (rule sorted_prefix [OF all_line_starts_sorted])

lemma takeWhile_count:
  assumes "First \<le> k" "k \<le> Last" "Last \<le> length xs" "\<And>i. i < length xs \<Longrightarrow> xs ! i < x \<longleftrightarrow> i < k"
  shows "First + length (takeWhile (\<lambda>a. a < (x :: nat)) (take (Last - First) (drop First xs))) = k"
proof -
  let ?ys = "take (Last - First) (drop First xs)"
  have "takeWhile (\<lambda>a. a < x) ?ys = take (k - First) ?ys"
    by (rule takeWhile_eq_take_P_nth) (use assms in auto)
  then show ?thesis using assms(1-3) by simp
qed

text \<open>Any range that has the answer in it gives the answer.\<close>

lemma lower_bound_line:
  assumes "First \<le> line_of Buf p" "line_of Buf p \<le> Last" "Last \<le> length (all_line_starts Buf)"
  shows "lower_bound (all_line_starts Buf) First Last (Suc p) = Some (line_of Buf p)"
proof -
  have "First + length (takeWhile (\<lambda>a. a < Suc p) (take (Last - First) (drop First (all_line_starts Buf)))) = line_of Buf p"
    by (rule takeWhile_count [OF assms]) (simp add: less_Suc_eq_le all_line_starts_nth)
  then show ?thesis using assms by (simp add: lower_bound_def)
qed

lemma line_of_fits: "lines_fit Buf \<Longrightarrow> line_of Buf p < 2 ^ 32"
  using lines_fit_length [of Buf] line_of_le [of Buf p] by linarith

lemma line_range_has_line:
  assumes fits: "lines_fit Buf" and "LastLineNoFileIDQuery SM = FID \<Longrightarrow> \<exists>p. LastLineNoFilePos SM = Suc p \<and> LastLineNoResult SM = line_of Buf p"
    "LastLineNoFileIDQuery SM = FID \<Longrightarrow> Suc p < LastLineNoFilePos SM \<Longrightarrow> LastLineNoResult SM < length (all_line_starts Buf)"
  shows "\<exists>First Last. line_range SM FID (all_line_starts Buf) (Suc p) = Some (First, Last) \<and>
    First \<le> line_of Buf p \<and> line_of Buf p \<le> Last \<and> Last \<le> length (all_line_starts Buf)"
proof (cases "LastLineNoFileIDQuery SM = FID")
  case True
  then obtain p0 where p0: "LastLineNoFilePos SM = Suc p0" "LastLineNoResult SM = line_of Buf p0" using assms(2) by blast
  show ?thesis
  proof (cases "Suc p \<ge> LastLineNoFilePos SM")
    case after: True
    let ?F = "LastLineNoResult SM - 1" and ?n = "length (all_line_starts Buf)"
    have le: "?F \<le> line_of Buf p" using p0 after line_of_mono [of p0 p Buf] by simp
    have found: "line_of Buf p \<le> k" if "k < ?n" "all_line_starts Buf ! k > Suc p" for k
      using all_line_starts_nth [OF that(1), of p] that(2) by simp
    have "line_range SM FID (all_line_starts Buf) (Suc p) = Some (?F,
        if ?F + 5 < ?n then
          if all_line_starts Buf ! (?F + 5) > Suc p then ?F + 5
          else if ?F + 10 < ?n then
            if all_line_starts Buf ! (?F + 10) > Suc p then ?F + 10
            else if ?F + 20 < ?n then if all_line_starts Buf ! (?F + 20) > Suc p then ?F + 20 else ?n else ?n
          else ?n
        else ?n)"
      using True after p0(2) line_of_pos [of Buf p0] lines_fit_length [OF fits] by (simp add: line_range_def Let_def)
    then show ?thesis using le line_of_le [of Buf p] found by auto
  next
    case False
    then have "line_range SM FID (all_line_starts Buf) (Suc p) = Some (0, LastLineNoResult SM + 1)" using True by (simp add: line_range_def)
    moreover have "line_of Buf p \<le> LastLineNoResult SM + 1" using p0 False line_of_mono [of p p0 Buf] by simp
    moreover have "LastLineNoResult SM + 1 \<le> length (all_line_starts Buf)" using assms(3) True False by simp
    ultimately show ?thesis by simp
  qed
next
  case False
  then show ?thesis using line_of_le [of Buf p] lines_fit_length [OF fits] by (simp add: line_range_def)
qed

section \<open>The line of a position\<close>

text \<open>
  The invariant of the caches: every table of line offsets is that of its buffer, and what is kept of the last query is the answer
  to it, for the file it was for.
\<close>

definition lines_ok :: "source_manager \<Rightarrow> bool" where
  "lines_ok SM \<longleftrightarrow>
     (\<forall>C T. C < length (Contents SM) \<and> cc_SourceLineCache (Contents SM ! C) = Some T \<longrightarrow>
        (\<exists>Buf. cc_Buffer (Contents SM ! C) = Some Buf \<and> T = line_table Buf)) \<and>
     (LastLineNoFileIDQuery SM \<noteq> 0 \<longrightarrow>
        (\<exists>C Buf p. LastLineNoContentCache SM = Some C \<and> content_of SM (LastLineNoFileIDQuery SM) = Some C \<and>
           cc_Buffer (Contents SM ! C) = Some Buf \<and> cc_SourceLineCache (Contents SM ! C) = Some (line_table Buf) \<and>
           LastLineNoFilePos SM = Suc p \<and> LastLineNoResult SM = line_of Buf p))"

lemma content_of_bound: "content_of SM FID = Some C \<Longrightarrow> C < length (Contents SM)"
  unfolding content_of_def by (elim bind_SomeE) (simp add: asserting_def split: if_splits)

lemma cc_getBuffer_idem: "cc_Buffer CC = Some Buf \<Longrightarrow> cc_getBuffer FS CC = CC"
  by (simp add: cc_getBuffer_def)

lemma cc_getBuffer_cache [simp]: "cc_SourceLineCache (cc_getBuffer FS CC) = cc_SourceLineCache CC"
  by (simp add: cc_getBuffer_def split: option.splits)

lemma line_query:
  assumes "lines_ok SM" "FID \<noteq> 0" "content_of SM FID = Some C" "cc_Buffer (cc_getBuffer FS (Contents SM ! C)) = Some Buf" "FilePos + 1 < 2 ^ 32"
  defines "CC \<equiv> (cc_getBuffer FS (Contents SM ! C))\<lparr>cc_SourceLineCache := Some (line_table Buf)\<rparr>"
  shows "getLineNumber FS SM FID FilePos = do {
      (First, Last) \<leftarrow> line_range SM FID (line_table Buf) (Suc FilePos);
      Pos \<leftarrow> lower_bound (line_table Buf) First Last (Suc FilePos);
      Some (wrap32 Pos, SM\<lparr>Contents := (Contents SM)[C := CC], LastLineNoFileIDQuery := FID, LastLineNoContentCache := Some C,
        LastLineNoFilePos := Suc FilePos, LastLineNoResult := wrap32 Pos\<rparr>) }"
    "LastLineNoFileIDQuery SM = FID \<Longrightarrow> \<exists>p. LastLineNoFilePos SM = Suc p \<and> LastLineNoResult SM = line_of Buf p"
proof -
  have C: "C < length (Contents SM)" using content_of_bound [OF assms(3)] .
  have last: "LastLineNoContentCache SM = Some C \<and> (\<exists>p. LastLineNoFilePos SM = Suc p \<and> LastLineNoResult SM = line_of Buf p)"
    if h: "LastLineNoFileIDQuery SM = FID"
  proof -
    obtain C' Buf' p where q: "LastLineNoContentCache SM = Some C'" "content_of SM FID = Some C'" "cc_Buffer (Contents SM ! C') = Some Buf'"
      "LastLineNoFilePos SM = Suc p" "LastLineNoResult SM = line_of Buf' p"
      using assms(1,2) h unfolding lines_ok_def by blast
    then have "C' = C" "Buf' = Buf" using assms(3,4) cc_getBuffer_idem [OF q(3), of FS] by auto
    then show ?thesis using q by simp
  qed
  then show "LastLineNoFileIDQuery SM = FID \<Longrightarrow> \<exists>p. LastLineNoFilePos SM = Suc p \<and> LastLineNoResult SM = line_of Buf p" by blast
  have c: "(if LastLineNoFileIDQuery SM = FID then LastLineNoContentCache SM else content_of SM FID) = Some C" using last assms(3) by simp
  have cc: "(if cc_SourceLineCache (Contents SM ! C) = None then ComputeLineNumbers FS (Contents SM ! C) else Some (Contents SM ! C)) = Some CC"
  proof (cases "cc_SourceLineCache (Contents SM ! C)")
    case None
    then show ?thesis using assms(4) by (simp add: ComputeLineNumbers_def CC_def Let_def)
  next
    case (Some T)
    then obtain Buf' where B: "cc_Buffer (Contents SM ! C) = Some Buf'" "T = line_table Buf'" using assms(1) C unfolding lines_ok_def by blast
    then have "Buf' = Buf" using assms(4) cc_getBuffer_idem [OF B(1), of FS] by simp
    then have "CC = Contents SM ! C" using Some B cc_getBuffer_idem [OF B(1), of FS] by (simp add: CC_def)
    then show ?thesis using Some by simp
  qed
  have q: "(FilePos + 1) mod 2 ^ 32 = Suc FilePos" using assms(5) by (simp add: mod_less)
  show "getLineNumber FS SM FID FilePos = do {
      (First, Last) \<leftarrow> line_range SM FID (line_table Buf) (Suc FilePos);
      Pos \<leftarrow> lower_bound (line_table Buf) First Last (Suc FilePos);
      Some (wrap32 Pos, SM\<lparr>Contents := (Contents SM)[C := CC], LastLineNoFileIDQuery := FID, LastLineNoContentCache := Some C,
        LastLineNoFilePos := Suc FilePos, LastLineNoResult := wrap32 Pos\<rparr>) }"
    unfolding getLineNumber_def c cc q bind.bind_lunit Let_def using C by (simp add: CC_def)
qed

lemma queried_lines_ok:
  assumes "lines_ok SM" "content_of SM FID = Some C" "cc_Buffer (cc_getBuffer FS (Contents SM ! C)) = Some Buf"
  shows "lines_ok (SM\<lparr>Contents := (Contents SM)[C := (cc_getBuffer FS (Contents SM ! C))\<lparr>cc_SourceLineCache := Some (line_table Buf)\<rparr>],
    LastLineNoFileIDQuery := FID, LastLineNoContentCache := Some C, LastLineNoFilePos := Suc p, LastLineNoResult := line_of Buf p\<rparr>)"
proof -
  have C: "C < length (Contents SM)" using content_of_bound [OF assms(2)] .
  have same: "content_of (SM\<lparr>Contents := (Contents SM)[C := X], LastLineNoFileIDQuery := F, LastLineNoContentCache := Some C,
      LastLineNoFilePos := P, LastLineNoResult := R\<rparr>) = content_of SM" for X F P R
    by (simp add: content_of_def getSLocEntry_def fun_eq_iff)
  show ?thesis unfolding lines_ok_def same using assms C by (auto simp: lines_ok_def nth_list_update)
qed

text \<open>
  C33: the line number is the number of lines that start at or before the position, in a buffer of less than 4 GB, when the caches
  are in order: the search that starts from the answer to the last query finds the same line as a search of the whole table, and
  leaves the caches in order. Excluded is the one order of queries in which the code leaves the table, a query for a position of
  the same file before the last one, when the last one was on the last line (\<open>getLineNumber_past_table\<close>); queries of other files,
  of positions behind the last one, and of earlier positions when the last one was not on the last line, are all covered.
\<close>

theorem getLineNumber_correct:
  assumes "lines_ok SM" "FID \<noteq> 0" "content_of SM FID = Some C" "cc_Buffer (cc_getBuffer FS (Contents SM ! C)) = Some Buf" "FilePos + 1 < 2 ^ 32"
    "length Buf + 1 < 2 ^ 32"
    "LastLineNoFileIDQuery SM = FID \<Longrightarrow> FilePos + 1 < LastLineNoFilePos SM \<Longrightarrow> LastLineNoResult SM < length (line_table Buf)"
  shows "\<exists>SM'. getLineNumber FS SM FID FilePos = Some (line_of Buf FilePos, SM') \<and> lines_ok SM' \<and>
    SLocEntryTable SM' = SLocEntryTable SM \<and> LastLineNoFileIDQuery SM' = FID \<and> LastLineNoResult SM' = line_of Buf FilePos"
proof -
  have fits: "lines_fit Buf" using assms(6) by (simp add: lines_fit_def)
  have "LastLineNoFileIDQuery SM = FID \<Longrightarrow> Suc FilePos < LastLineNoFilePos SM \<Longrightarrow> LastLineNoResult SM < length (all_line_starts Buf)"
    using assms(7) fits by simp
  from line_range_has_line [OF fits line_query(2) [OF assms(1-5)] this] obtain First Last where
    r: "line_range SM FID (all_line_starts Buf) (Suc FilePos) = Some (First, Last)" and
    l: "First \<le> line_of Buf FilePos" "line_of Buf FilePos \<le> Last" "Last \<le> length (all_line_starts Buf)" by blast
  have w: "wrap32 (line_of Buf FilePos) = line_of Buf FilePos" using line_of_fits [OF fits] by (rule wrap32_id)
  show ?thesis
    unfolding line_query(1) [OF assms(1-5)] line_table_starts [OF fits] r
    using lower_bound_line [OF l] w fits queried_lines_ok [OF assms(1,3,4), of FilePos] by simp
qed

lemma example_content: "content_of example_sm 1 = Some 0" "cc_Buffer (cc_getBuffer FS (Contents example_sm ! 0)) = Some ''ab cd;x''"
proof -
  show "content_of example_sm 1 = Some 0" by (simp add: content_of_def getSLocEntry_def)
  show "cc_Buffer (cc_getBuffer FS (Contents example_sm ! 0)) = Some ''ab cd;x''" by (simp add: example_sm_def cc_getBuffer_def)
qed

lemma example_lines_ok: "lines_ok example_sm"
  by (simp add: lines_ok_def example_sm_def)

lemma example_line: "line_of ''ab cd;x'' p = 1" "length (line_table ''ab cd;x'') = 1"
  by (simp_all add: line_of_def all_line_starts_def line_table_def newline_def)

theorem getLineNumber_correct_witness:
  "\<exists>SM'. getLineNumber (\<lambda>_ _. None) example_sm 1 5 = Some (line_of ''ab cd;x'' 5, SM') \<and> lines_ok SM'"
proof -
  have h: "(1 :: nat) \<noteq> 0" "(5 :: nat) + 1 < 2 ^ 32" "length ''ab cd;x'' + 1 < 2 ^ 32"
    "LastLineNoFileIDQuery example_sm = 1 \<Longrightarrow> P" for P by (simp_all add: example_sm_def)
  from getLineNumber_correct [OF example_lines_ok h(1) example_content h(2-4)] show ?thesis by blast
qed

text \<open>
  A query for a position before the last one, which was on the last line of the same file, searches one element more than
  the table of line offsets has.
\<close>

theorem getLineNumber_past_table:
  assumes "lines_ok SM" "FID \<noteq> 0" "content_of SM FID = Some C" "cc_Buffer (cc_getBuffer FS (Contents SM ! C)) = Some Buf" "FilePos + 1 < 2 ^ 32"
    "LastLineNoFileIDQuery SM = FID" "FilePos + 1 < LastLineNoFilePos SM" "LastLineNoResult SM = length (line_table Buf)"
  shows "line_range SM FID (line_table Buf) (FilePos + 1) = Some (0, length (line_table Buf) + 1) \<and> getLineNumber FS SM FID FilePos = None"
proof -
  have r: "line_range SM FID (line_table Buf) (Suc FilePos) = Some (0, length (line_table Buf) + 1)"
    using assms(6-8) by (simp add: line_range_def)
  then show ?thesis unfolding line_query(1) [OF assms(1-5)] by (simp add: r lower_bound_def)
qed

theorem getLineNumber_past_table_witness:
  "\<exists>SM. lines_ok SM \<and> getLineNumber (\<lambda>_ _. None) SM 1 3 = None"
proof -
  define SM where "SM = example_sm\<lparr>Contents := [\<lparr>cc_Buffer = Some ''ab cd;x'', cc_Identifier = ''b'', cc_Entry = None,
      cc_SourceLineCache = Some (line_table ''ab cd;x'')\<rparr>],
    LastLineNoFileIDQuery := 1, LastLineNoContentCache := Some 0, LastLineNoFilePos := Suc 5, LastLineNoResult := line_of ''ab cd;x'' 5\<rparr>"
  have c: "content_of SM 1 = Some 0" using example_content(1) by (simp add: content_of_def getSLocEntry_def SM_def)
  have b: "cc_Buffer (cc_getBuffer (\<lambda>_ _. None) (Contents SM ! 0)) = Some ''ab cd;x''" by (simp add: SM_def cc_getBuffer_def)
  have ok: "lines_ok SM" unfolding lines_ok_def using c by (auto simp: SM_def)
  have h: "(1 :: nat) \<noteq> 0" "(3 :: nat) + 1 < 2 ^ 32" "LastLineNoFileIDQuery SM = 1" "3 + 1 < LastLineNoFilePos SM"
    "LastLineNoResult SM = length (line_table ''ab cd;x'')" by (simp_all add: SM_def example_line)
  from getLineNumber_past_table [OF ok h(1) c b h(2-5)] ok show ?thesis by blast
qed

section \<open>Lines and columns agree\<close>

definition inside_line_end :: "string \<Rightarrow> nat \<Rightarrow> bool" where
  "inside_line_end Buf p \<longleftrightarrow> 0 < p \<and> p < length Buf \<and> newline (Buf ! (p - 1)) \<and> newline (Buf ! p) \<and> Buf ! (p - 1) \<noteq> Buf ! p"

lemma column_start_Suc: "p < length Buf \<Longrightarrow> column_start Buf (Suc p) = (if newline (Buf ! p) then Suc p else column_start Buf p)"
  by (simp add: nth_append)

lemma last_line_start:
  assumes "column_start (pre @ s) (length pre) = L" "length pre \<le> p" "p \<le> length (pre @ s)" "\<not> inside_line_end (pre @ s) p"
  shows "last (L # filter (\<lambda>a. a \<le> p) (line_starts s (length pre))) = column_start (pre @ s) p"
  using assms
proof (induction s "length pre" arbitrary: pre L rule: line_starts.induct)
  case 1
  then show ?case by simp
next
  case (2 c)
  then have "p = length pre \<or> p = Suc (length pre)" by auto
  then show ?case using "2.prems"(1) by auto
next
  case (3 c d cs)
  have none: "filter (\<lambda>a. a \<le> p) (line_starts s Offs) = []" if "p \<le> Offs" for s Offs
    using that line_starts_greater [of _ s Offs] by (fastforce simp: filter_empty_conv)
  have one: "column_start (pre @ c # d # cs) (Suc (length pre)) = (if newline c then Suc (length pre) else L)"
    using column_start_Suc [of "length pre" "pre @ c # d # cs"] "3.prems"(1) by simp
  have two: "newline d \<Longrightarrow> column_start (pre @ c # d # cs) (Suc (Suc (length pre))) = Suc (Suc (length pre))"
    using column_start_Suc [of "Suc (length pre)" "pre @ c # d # cs"] by (simp add: nth_append)
  show ?case
  proof (cases "p = length pre")
    case True
    then show ?thesis using "3.prems"(1) none by simp
  next
    case False
    then have p: "Suc (length pre) \<le> p" using "3.prems"(2) by simp
    show ?thesis
    proof (cases "newline c \<and> newline d \<and> c \<noteq> d")
      case pair: True
      then have "p \<noteq> Suc (length pre)" using "3.prems"(4) by (auto simp: inside_line_end_def nth_append)
      then show ?thesis using "3.hyps"(1) [of "pre @ [c, d]" "Suc (Suc (length pre))"] "3.prems" p pair two by simp
    next
      case False
      show ?thesis
      proof (cases "newline c")
        case True
        then show ?thesis using "3.hyps"(2) [of "pre @ [c]" "Suc (length pre)"] "3.prems" p False one by auto
      next
        case no: False
        then show ?thesis using "3.hyps"(3) [of "pre @ [c]" L] "3.prems" p one by simp
      qed
    qed
  qed
qed

lemma line_start_column:
  assumes "p \<le> length Buf" "\<not> inside_line_end Buf p"
  shows "all_line_starts Buf ! (line_of Buf p - 1) = column_start Buf p"
proof -
  let ?xs = "filter (\<lambda>a. a \<le> p) (all_line_starts Buf)"
  have t: "?xs = take (line_of Buf p) (all_line_starts Buf)"
    unfolding line_of_def by (rule sorted_filter_take [OF all_line_starts_sorted])
  have "last ?xs = column_start Buf p" using last_line_start [of "[]" Buf 0 p] assms by (simp add: all_line_starts_def)
  moreover have "last ?xs = all_line_starts Buf ! (line_of Buf p - 1)"
    unfolding t using line_of_pos [of Buf p] line_of_le [of Buf p] by (subst last_conv_nth) auto
  ultimately show ?thesis by simp
qed

text \<open>
  The column, which is counted back to the last line end, is the distance from where the line that the line number names
  starts in the table of line offsets, for every position that is not between the two characters of a line end.
\<close>

theorem column_in_line:
  assumes "content_of SM FID = Some C" "cc_Buffer (cc_getBuffer FS (Contents SM ! C)) = Some Buf"
    "FilePos \<le> length Buf" "\<not> inside_line_end Buf FilePos" "length Buf + 1 < 2 ^ 32"
  shows "\<exists>SM'. getColumnNumber FS SM FID FilePos = Some (FilePos - line_table Buf ! (line_of Buf FilePos - 1) + 1, SM')"
  using assms line_start_column [OF assms(3,4)] by (simp add: getColumnNumber_def getBuffer_def lines_fit_def Let_def)

theorem column_in_line_witness:
  "\<exists>SM'. getColumnNumber (\<lambda>_ _. None) example_sm 1 5 = Some (5 - line_table ''ab cd;x'' ! (line_of ''ab cd;x'' 5 - 1) + 1, SM')"
  by (rule column_in_line [OF example_content]) (simp_all add: inside_line_end_def newline_def)

end
