(* ===== verification/ScratchBuffer.thy ===== *)
theory ScratchBuffer
  imports Interfaces LineNumbers
begin

text \<open>
  The scratch buffer (\<^verbatim>\<open>lib/Lex/ScratchBuffer.cpp\<close>): the texts of tokens that are in no file are written into buffers of
  the source manager, one behind the other, each on a line of its own. The buffers are those of the source manager's contents, which
  are written in place; \<open>NB\<close> is \<^verbatim>\<open>MemoryBuffer::getNewMemBuffer\<close>, the new buffer of a size.
\<close>

section \<open>Model\<close>

definition ScratchBufSize :: nat where
  "ScratchBufSize = 4060"

text \<open>The current buffer is named by its content cache.\<close>

record scratch_buffer =
  CurBuffer :: "nat option"
  BufferStartLoc :: source_location
  BytesUsed :: nat

definition ScratchBuffer_new :: scratch_buffer where
  "ScratchBuffer_new = \<lparr>CurBuffer = None, BufferStartLoc = 0, BytesUsed = ScratchBufSize\<rparr>"

text \<open>
  A write into a buffer in memory, which has a null character of its own behind its last one; that one may be written over only by
  itself, as a buffer has to end with it.
\<close>

definition store_bytes :: "nat \<Rightarrow> nat \<Rightarrow> string \<Rightarrow> source_manager \<Rightarrow> source_manager option" where
  "store_bytes C i s SM = do {
     asserting (C < length (Contents SM));
     Buf \<leftarrow> cc_Buffer (Contents SM ! C);
     let Mem = Buf @ [CHR 0x00];
     asserting (i + length s \<le> length Mem);
     let Mem' = take i Mem @ s @ drop (i + length s) Mem;
     asserting (last Mem' = CHR 0x00);
     Some (SM\<lparr>Contents := (Contents SM)[C := (Contents SM ! C)\<lparr>cc_Buffer := Some (butlast Mem')\<rparr>]\<rparr>) }"

definition AllocScratchBuffer ::
    "(nat \<Rightarrow> string) \<Rightarrow> nat \<Rightarrow> source_manager \<Rightarrow> (scratch_buffer \<times> source_manager) option" where
  "AllocScratchBuffer NB RequestLen SM = do {
     let Len = (if RequestLen < ScratchBufSize then ScratchBufSize else RequestLen);
     (FID, SM1) \<leftarrow> createFileIDForMemBuffer ''<scratch space>'' (NB Len) SM;
     Loc \<leftarrow> getLocForStartOfFile SM1 FID;
     C \<leftarrow> content_of SM1 FID;
     SM2 \<leftarrow> store_bytes C 0 ''0'' SM1;
     Some (\<lparr>CurBuffer = Some C, BufferStartLoc = Loc, BytesUsed = 1\<rparr>, SM2) }"

definition place_token :: "string \<Rightarrow> scratch_buffer \<Rightarrow> source_manager \<Rightarrow> (source_location \<times> nat \<times> scratch_buffer \<times> source_manager) option" where
  "place_token Buf SB SM = do {
     let Len = length Buf;
     C \<leftarrow> CurBuffer SB;
     SM1 \<leftarrow> store_bytes C (BytesUsed SB) [CHR 0x0A] SM;
     let Dest = BytesUsed SB + 1;
     SM2 \<leftarrow> store_bytes C Dest Buf SM1;
     let Used = Dest + (Len + 1);
     SM3 \<leftarrow> store_bytes C (Used - 1) [CHR 0x00] SM2;
     Loc \<leftarrow> getFileLocWithOffset (BufferStartLoc SB) (of_nat (Used - Len - 1));
     Some (Loc, Dest, SB\<lparr>BytesUsed := Used\<rparr>, SM3) }"

definition getToken ::
    "(nat \<Rightarrow> string) \<Rightarrow> string \<Rightarrow> scratch_buffer \<Rightarrow> source_manager \<Rightarrow> (source_location \<times> nat \<times> scratch_buffer \<times> source_manager) option" where
  "getToken NB Buf SB SM = do {
     (SB1, SM1) \<leftarrow> (if BytesUsed SB + length Buf + 2 > ScratchBufSize then AllocScratchBuffer NB (length Buf + 2) SM else Some (SB, SM));
     place_token Buf SB1 SM1 }"

text \<open>A run of requests.\<close>

definition getTokens ::
    "(nat \<Rightarrow> string) \<Rightarrow> string list \<Rightarrow> scratch_buffer \<Rightarrow> source_manager \<Rightarrow> (source_location list \<times> scratch_buffer \<times> source_manager) option" where
  "getTokens NB = place_all (getToken NB)"

section \<open>Writes\<close>

lemma contents_simps [simp]:
  "offsets (SM\<lparr>Contents := X\<rparr>) = offsets SM" "file_of (SM\<lparr>Contents := X\<rparr>) = file_of SM"
  "in_file (SM\<lparr>Contents := X\<rparr>) = in_file SM" "getSLocEntry (SM\<lparr>Contents := X\<rparr>) = getSLocEntry SM"
  "table_ok (SM\<lparr>Contents := X\<rparr>) = table_ok SM"
  "length X = length (Contents SM) \<Longrightarrow> content_of (SM\<lparr>Contents := X\<rparr>) = content_of SM"
  by (auto simp: offsets_def file_of_def in_file_def getSLocEntry_def table_ok_def content_of_def fun_eq_iff)

text \<open>Writing changes the bytes written and no others of the buffer.\<close>

definition with_buffer :: "source_manager \<Rightarrow> nat \<Rightarrow> string \<Rightarrow> source_manager" where
  "with_buffer SM C Buf = SM\<lparr>Contents := (Contents SM)[C := (Contents SM ! C)\<lparr>cc_Buffer := Some Buf\<rparr>]\<rparr>"

lemma with_buffer_simps [simp]:
  "offsets (with_buffer SM C Buf) = offsets SM" "file_of (with_buffer SM C Buf) = file_of SM"
  "in_file (with_buffer SM C Buf) = in_file SM" "table_ok (with_buffer SM C Buf) = table_ok SM"
  "content_of (with_buffer SM C Buf) = content_of SM" "NextOffset (with_buffer SM C Buf) = NextOffset SM"
  "SLocEntryTable (with_buffer SM C Buf) = SLocEntryTable SM" "length (Contents (with_buffer SM C Buf)) = length (Contents SM)"
  "D \<noteq> C \<Longrightarrow> Contents (with_buffer SM C Buf) ! D = Contents SM ! D"
  "C < length (Contents SM) \<Longrightarrow> cc_Buffer (Contents (with_buffer SM C Buf) ! C) = Some Buf"
  "with_buffer (with_buffer SM C Buf) C Buf' = with_buffer SM C Buf'"
  unfolding with_buffer_def by (cases "C < length (Contents SM)"; simp add: list_update_beyond not_less)+

lemma store_bytes_stores:
  assumes "C < length (Contents SM)" "cc_Buffer (Contents SM ! C) = Some Buf" "i + length s \<le> length Buf \<or> i \<le> length Buf \<and> s = [CHR 0x00]"
  shows "\<exists>Buf'. store_bytes C i s SM = Some (with_buffer SM C Buf') \<and> length Buf' = length Buf \<and>
    (\<forall>j < length Buf. Buf' ! j = (if i \<le> j \<and> j < i + length s then s ! (j - i) else Buf ! j))"
proof (cases "i + length s \<le> length Buf")
  case True
  let ?B = "take i Buf @ s @ drop (i + length s) Buf"
  have eq: "take i (Buf @ [CHR 0x00]) @ s @ drop (i + length s) (Buf @ [CHR 0x00]) = ?B @ [CHR 0x00]" using True by simp
  have "store_bytes C i s SM = Some (with_buffer SM C ?B)"
    unfolding store_bytes_def Let_def eq using assms(1,2) True by (simp add: with_buffer_def butlast_append)
  moreover have "\<forall>j < length Buf. ?B ! j = (if i \<le> j \<and> j < i + length s then s ! (j - i) else Buf ! j)"
    using True by (auto simp: nth_append)
  ultimately show ?thesis using True by (intro exI [of _ ?B]) simp
next
  case False
  then have s: "i = length Buf" "s = [CHR 0x00]" using assms(3) by auto
  then have "store_bytes C i s SM = Some (with_buffer SM C Buf)" using assms(1,2) by (simp add: store_bytes_def with_buffer_def Let_def)
  then show ?thesis using s by (intro exI [of _ Buf]) simp
qed

section \<open>Where tokens are\<close>

definition stands_at :: "source_manager \<Rightarrow> source_location \<Rightarrow> nat \<Rightarrow> nat \<Rightarrow> bool" where
  "stands_at SM L FID k \<longleftrightarrow> isFileID L \<and> 0 < FID \<and> FID < length (SLocEntryTable SM) \<and>
     unat (getOffset L) = offsets SM ! FID + k \<and> unat (getOffset L) < unat (NextOffset SM) \<and> in_file SM (unat (getOffset L)) FID"

definition spelled_at :: "string \<Rightarrow> nat \<Rightarrow> string \<Rightarrow> bool" where
  "spelled_at Buf k s \<longleftrightarrow> k + length s \<le> length Buf \<and> (\<forall>j < length s. Buf ! (k + j) = s ! j)"

lemma spelled_at_take: "spelled_at Buf k s \<Longrightarrow> take (length s) (drop k Buf) = s"
  by (rule nth_equalityI) (auto simp: spelled_at_def)

lemma getCharacterData_finds:
  assumes "table_ok SM" "stands_at SM L FID k" "content_of SM FID = Some C" "cc_Buffer (Contents SM ! C) = Some Buf"
  shows "\<exists>c. getCharacterData FS SM L = Some (Buf, k, SM\<lparr>LastFileIDLookup := c\<rparr>)"
proof -
  have L: "isFileID L" "unat (getOffset L) = offsets SM ! FID + k" "in_file SM (unat (getOffset L)) FID" "0 < FID" "FID < length (SLocEntryTable SM)"
    using assms(2) by (auto simp: stands_at_def)
  have "0 < offsets SM ! FID" using table_offsets_less [OF assms(1) L(4,5)] by simp
  then have nz: "getOffset L \<noteq> 0" using L(2) by (metis add_gr_0 less_irrefl unat_0)
  have f: "file_of SM (unat (getOffset L)) = FID" using in_file_unique [OF assms(1) in_file_of [OF assms(1)] L(3)] .
  obtain c where "c < length (SLocEntryTable SM)" "getFileID SM L = Some (FID, SM\<lparr>LastFileIDLookup := c\<rparr>)"
    using getFileID_finds [OF assms(1) nz] f by auto
  moreover have "unat (getOffset L - entry_getOffset (SLocEntryTable SM ! FID)) = k"
    using L(2) by (simp add: nth_offsets [OF L(5)] unat_sub word_le_nat_alt)
  moreover have "content_of (SM\<lparr>LastFileIDLookup := c\<rparr>) FID = Some C" for c using assms(3) by (simp add: content_of_def)
  moreover have "cc_getBuffer FS (Contents SM ! C) = Contents SM ! C" by (rule cc_getBuffer_idem [OF assms(4)])
  ultimately show ?thesis using L(1,5) assms(4)
    by (auto simp: getCharacterData_def getDecomposedSpellingLoc_def getBuffer_def getSLocEntry_def Let_def)
qed

lemma in_file_iff: "table_ok SM \<Longrightarrow> in_file SM x f \<longleftrightarrow> f = file_of SM x"
  using in_file_unique in_file_of by blast

lemma stands_atD:
  assumes "table_ok SM" "stands_at SM M G k"
  shows "file_of SM (unat (getOffset M)) = G" "unat (getOffset M) = offsets SM ! G + k" "unat (getOffset M) < unat (NextOffset SM)"
    "G < length (SLocEntryTable SM)" "isFileID M" "0 < G"
  using assms(2) unfolding stands_at_def in_file_iff [OF assms(1)] by metis+

lemma stands_at_unique: "table_ok SM \<Longrightarrow> stands_at SM M G k \<Longrightarrow> stands_at SM M H j \<Longrightarrow> G = H \<and> k = j"
  by (metis stands_atD(1,2) add_left_cancel)

text \<open>The state between requests, and a text that stands where nothing is written any more.\<close>

definition scratch_ok :: "scratch_buffer \<Rightarrow> source_manager \<Rightarrow> bool" where
  "scratch_ok SB SM \<longleftrightarrow> table_ok SM \<and>
     (case CurBuffer SB of
        None \<Rightarrow> BytesUsed SB = ScratchBufSize
      | Some C \<Rightarrow> 0 < BytesUsed SB \<and>
          (\<exists>FID Buf. content_of SM FID = Some C \<and> cc_Buffer (Contents SM ! C) = Some Buf \<and> ScratchBufSize \<le> length Buf \<and>
             isFileID (BufferStartLoc SB) \<and> 0 < FID \<and> FID < length (SLocEntryTable SM) \<and> unat (getOffset (BufferStartLoc SB)) = offsets SM ! FID \<and>
             offsets SM ! FID + length Buf < unat (NextOffset SM) \<and> (\<forall>k \<le> length Buf. file_of SM (offsets SM ! FID + k) = FID)))"

definition kept :: "scratch_buffer \<Rightarrow> source_manager \<Rightarrow> source_location \<Rightarrow> string \<Rightarrow> bool" where
  "kept SB SM L s \<longleftrightarrow> (\<exists>FID k C Buf. stands_at SM L FID k \<and> content_of SM FID = Some C \<and> cc_Buffer (Contents SM ! C) = Some Buf \<and>
     spelled_at Buf k s \<and> (CurBuffer SB = Some C \<longrightarrow> k + length s < BytesUsed SB))"

lemma store_token:
  assumes "C < length (Contents SM)" "cc_Buffer (Contents SM ! C) = Some Buf" "u + length s + 1 \<le> length Buf"
  shows "\<exists>Buf' SM1 SM2. store_bytes C u [CHR 0x0A] SM = Some SM1 \<and> store_bytes C (u + 1) s SM1 = Some SM2 \<and>
    store_bytes C (u + 1 + length s) [CHR 0x00] SM2 = Some (with_buffer SM C Buf') \<and> length Buf' = length Buf \<and>
    spelled_at Buf' (u + 1) s \<and> (\<forall>j < u. Buf' ! j = Buf ! j)"
proof -
  obtain B1 where 1: "store_bytes C u [CHR 0x0A] SM = Some (with_buffer SM C B1)" "length B1 = length Buf" "\<forall>j < u. B1 ! j = Buf ! j"
    using store_bytes_stores [OF assms(1,2), of u "[CHR 0x0A]"] assms(3) by fastforce
  obtain B2 where 2: "store_bytes C (u + 1) s (with_buffer SM C B1) = Some (with_buffer SM C B2)" "length B2 = length Buf"
    "\<forall>j < length Buf. B2 ! j = (if u + 1 \<le> j \<and> j < u + 1 + length s then s ! (j - (u + 1)) else B1 ! j)"
    using store_bytes_stores [of C "with_buffer SM C B1" B1 "u + 1" s] 1(2) assms(1,3) by fastforce
  obtain B3 where 3: "store_bytes C (u + 1 + length s) [CHR 0x00] (with_buffer SM C B2) = Some (with_buffer SM C B3)" "length B3 = length Buf"
    "\<forall>j < u + 1 + length s. j < length Buf \<longrightarrow> B3 ! j = B2 ! j"
    using store_bytes_stores [of C "with_buffer SM C B2" B2 "u + 1 + length s" "[CHR 0x00]"] 2(2) assms(1,3) by fastforce
  have "spelled_at B3 (u + 1) s" using 2(3) 3(2,3) assms(3) by (auto simp: spelled_at_def)
  moreover have "\<forall>j < u. B3 ! j = Buf ! j" using 1(3) 2(3) 3(3) assms(3) by auto
  ultimately show ?thesis using 1(1) 2(1) 3(1,2) by blast
qed

lemma place_token_places:
  assumes "scratch_ok SB SM" "CurBuffer SB = Some C" "cc_Buffer (Contents SM ! C) = Some Buf" "BytesUsed SB + length s + 1 \<le> length Buf"
  shows "\<exists>L SB' SM'. place_token s SB SM = Some (L, BytesUsed SB + 1, SB', SM') \<and> scratch_ok SB' SM' \<and> kept SB' SM' L s \<and>
    NextOffset SM' = NextOffset SM \<and> (\<forall>M t. kept SB SM M t \<longrightarrow> kept SB' SM' M t \<and> M \<noteq> L)"
proof -
  let ?u = "BytesUsed SB"
  obtain FID where F: "content_of SM FID = Some C" "ScratchBufSize \<le> length Buf" "isFileID (BufferStartLoc SB)" "FID < length (SLocEntryTable SM)"
    "unat (getOffset (BufferStartLoc SB)) = offsets SM ! FID" "offsets SM ! FID + length Buf < unat (NextOffset SM)"
    "\<forall>k \<le> length Buf. file_of SM (offsets SM ! FID + k) = FID" "0 < ?u" "table_ok SM" "0 < FID"
    using assms(1-3) by (auto simp: scratch_ok_def)
  have C: "C < length (Contents SM)" by (rule content_of_bound [OF F(1)])
  obtain Buf' SM1 SM2 where B: "store_bytes C ?u [CHR 0x0A] SM = Some SM1" "store_bytes C (?u + 1) s SM1 = Some SM2"
    "store_bytes C (?u + 1 + length s) [CHR 0x00] SM2 = Some (with_buffer SM C Buf')" "length Buf' = length Buf"
    "spelled_at Buf' (?u + 1) s" "\<forall>j < ?u. Buf' ! j = Buf ! j"
    using store_token [OF C assms(3,4)] by blast
  let ?SM = "with_buffer SM C Buf'" and ?SB = "SB\<lparr>BytesUsed := ?u + length s + 2\<rparr>" and ?L = "BufferStartLoc SB + of_nat (?u + 1)"
  have lim: "unat (NextOffset SM) \<le> loc_limit" using F(9) by (simp add: table_ok_def)
  then have u: "unat (of_nat (?u + 1) :: u32) = ?u + 1" using F(6) assms(4) by (intro unat_small) simp
  have "unat (getOffset (BufferStartLoc SB)) + unat (of_nat (?u + 1) :: u32) < loc_limit" unfolding u F(5) using F(6) assms(4) lim by linarith
  note L = getFileLocWithOffset_Some [OF this, unfolded u F(5)]
  have "place_token s SB SM = Some (?L, ?u + 1, ?SB, ?SM)"
    unfolding place_token_def Let_def using assms(2) B(1-3) L(1) by (simp add: add.commute add.left_commute)
  moreover have "scratch_ok ?SB ?SM"
    using assms(2) F B(4) C by (auto simp: scratch_ok_def intro!: exI [of _ FID])
  moreover have st: "stands_at ?SM ?L FID (?u + 1)"
  proof -
    have "file_of SM (offsets SM ! FID + (?u + 1)) = FID" using F(7) [rule_format, of "?u + 1"] assms(4) by linarith
    then show ?thesis unfolding stands_at_def with_buffer_simps L(3,4) in_file_iff [OF F(9)] using F(3,4,6,10) assms(4) by simp
  qed
  then have "kept ?SB ?SM ?L s" unfolding kept_def using F(1) C B(5) by (intro exI [of _ FID] exI [of _ "?u + 1"] exI [of _ C]) simp
  moreover have "kept ?SB ?SM M t \<and> M \<noteq> ?L" if old: "kept SB SM M t" for M t
  proof -
    obtain G k D Buf0 where G: "stands_at SM M G k" "content_of SM G = Some D" "cc_Buffer (Contents SM ! D) = Some Buf0"
      "spelled_at Buf0 k t" "CurBuffer SB = Some D \<Longrightarrow> k + length t < ?u" using old by (auto simp: kept_def)
    have st': "stands_at ?SM M G k" using G(1) unfolding stands_at_def with_buffer_simps .
    have kept: "kept ?SB ?SM M t"
    proof (cases "D = C")
      case True
      then have "spelled_at Buf' k t" using G(3-5) assms(2,3) B(4,6) by (auto simp: spelled_at_def)
      then show ?thesis unfolding kept_def using st' G(2,5) True assms(2) C
        by (intro exI [of _ G] exI [of _ k] exI [of _ C] exI [of _ Buf']) auto
    next
      case False
      then show ?thesis unfolding kept_def using st' G assms(2) by (intro exI [of _ G] exI [of _ k] exI [of _ D] exI [of _ Buf0]) auto
    qed
    have "M \<noteq> ?L"
    proof
      assume "M = ?L"
      then have "G = FID" "k = ?u + 1" using stands_at_unique [of ?SM M G k FID "?u + 1"] st' st F(9) by simp_all
      then show False using G(2,5) F(1) assms(2) by simp
    qed
    then show ?thesis using kept by blast
  qed
  ultimately show ?thesis by (metis with_buffer_simps(6))
qed

lemma AllocScratchBuffer_allocates:
  assumes "table_ok SM" "\<And>n. length (NB n) = n" "unat (NextOffset SM) + max n ScratchBufSize + 1 \<le> loc_limit"
  shows "\<exists>SB' SM' C Buf. AllocScratchBuffer NB n SM = Some (SB', SM') \<and> scratch_ok SB' SM' \<and> CurBuffer SB' = Some C \<and>
    cc_Buffer (Contents SM' ! C) = Some Buf \<and> length Buf = max n ScratchBufSize \<and> BytesUsed SB' = 1 \<and>
    unat (NextOffset SM') = unat (NextOffset SM) + max n ScratchBufSize + 1 \<and> (\<forall>SB M t. kept SB SM M t \<longrightarrow> kept SB' SM' M t)"
proof -
  let ?m = "max n ScratchBufSize" and ?C = "length (Contents SM)" and ?F = "length (SLocEntryTable SM)"
  let ?CC = "\<lparr>cc_Buffer = Some (NB ?m), cc_Identifier = ''<scratch space>'', cc_Entry = None, cc_SourceLineCache = None\<rparr>"
  define SM0 where "SM0 = SM\<lparr>Contents := Contents SM @ [?CC], MemBufferInfos := MemBufferInfos SM @ [?C]\<rparr>"
  have SM0: "offsets SM0 = offsets SM" "file_of SM0 = file_of SM" "SLocEntryTable SM0 = SLocEntryTable SM" "NextOffset SM0 = NextOffset SM"
    "LastFileIDLookup SM0 = LastFileIDLookup SM" by (auto simp: SM0_def offsets_def file_of_def fun_eq_iff)
  then have ok0: "table_ok SM0" using assms(1) by (simp add: table_ok_def)
  have C: "?C < length (Contents SM0)" "Contents SM0 ! ?C = ?CC" by (simp_all add: SM0_def)
  then have size: "cc_getSize (Contents SM0 ! ?C) = Some ?m" using assms(2) by (simp add: cc_getSize_def)
  have room: "unat (NextOffset SM0) + ?m + 1 \<le> loc_limit" using assms(3) SM0(4) by simp
  define FI where "FI = \<lparr>IncludeLoc = 0, FileContent = ?C, FileCharacteristic = C_User, HasLineDirectives = False\<rparr>"
  define SM1 where "SM1 = pushed SM0 (file_entry_at (NextOffset SM0) FI) (NextOffset SM0 + (of_nat ?m + 1)) (length (SLocEntryTable SM0))"
  note P = createFileID_pushes [OF ok0 C(1) size room, where Inc = 0 and K = C_User, folded FI_def, folded SM1_def]
  have lim: "unat (NextOffset SM) < loc_limit" using assms(3) by linarith
  have E: "entry_getOffset (file_entry_at (NextOffset SM0) FI) = NextOffset SM0" using lim SM0(4) by simp
  note new = pushed_new [OF P(2) [unfolded SM1_def] E, folded SM1_def]
  have T: "SLocEntryTable SM1 = SLocEntryTable SM @ [file_entry_at (NextOffset SM) FI]" "Contents SM1 = Contents SM @ [?CC]"
    using SM0 by (simp_all add: SM1_def pushed_def) (simp add: SM0_def)
  have off: "offsets SM1 = offsets SM @ [unat (NextOffset SM)]" unfolding SM1_def pushed_offsets E by (simp add: SM0)
  have loc: "getLocForStartOfFile SM1 ?F = Some (NextOffset SM)"
    using lim getFileLoc_Some(1) [OF lim] by (simp add: getLocForStartOfFile_def T)
  have cont: "content_of SM1 ?F = Some ?C" by (simp add: content_of_def getSLocEntry_def T FI_def)
  have "ScratchBufSize \<le> ?m" "0 < ScratchBufSize" by (simp_all add: ScratchBufSize_def)
  then obtain Buf where W: "store_bytes ?C 0 ''0'' SM1 = Some (with_buffer SM1 ?C Buf)" "length Buf = ?m"
    using store_bytes_stores [of ?C SM1 "NB ?m" 0 "''0''"] assms(2) by (fastforce simp: T)
  let ?SB = "\<lparr>CurBuffer = Some ?C, BufferStartLoc = NextOffset SM, BytesUsed = 1\<rparr>" and ?SM = "with_buffer SM1 ?C Buf"
  have made: "createFileIDForMemBuffer ''<scratch space>'' (NB ?m) SM = Some (?F, SM1)"
    using P(1) SM0(3) by (simp add: createFileIDForMemBuffer_def createMemBufferContentCache_def SM0_def)
  have "(if n < ScratchBufSize then ScratchBufSize else n) = ?m" by simp
  then have "AllocScratchBuffer NB n SM = Some (?SB, ?SM)"
    unfolding AllocScratchBuffer_def Let_def using made loc cont W(1) by simp
  moreover have next1: "unat (NextOffset ?SM) = unat (NextOffset SM) + ?m + 1" using P(3) SM0(4) by simp
  moreover have "scratch_ok ?SB ?SM"
  proof -
    have at: "offsets SM1 ! ?F = unat (NextOffset SM)" "?F < length (SLocEntryTable SM1)" unfolding off T(1)
      by (metis length_offsets nth_append_length) simp
    have F0: "0 < ?F" using assms(1) by (auto simp: table_ok_def)
    have files: "file_of SM1 (unat (NextOffset SM) + k) = ?F" for k using new SM0(3,4) by simp
    have buf: "cc_Buffer (Contents ?SM ! ?C) = Some Buf" by (rule with_buffer_simps(10)) (simp add: T)
    have loc: "isFileID (NextOffset SM)" "unat (getOffset (NextOffset SM)) = offsets SM1 ! ?F"
      using getFileLoc_Some(2,3) [OF lim] at(1) by simp_all
    have "offsets SM1 ! ?F + length Buf < unat (NextOffset SM1)" using at(1) next1 W(2) by simp
    moreover have "ScratchBufSize \<le> length Buf" using W(2) by simp
    moreover have "\<forall>k \<le> length Buf. file_of SM1 (offsets SM1 ! ?F + k) = ?F" unfolding at(1) using files by blast
    ultimately have "\<exists>FID Buf. content_of ?SM FID = Some ?C \<and> cc_Buffer (Contents ?SM ! ?C) = Some Buf \<and> ScratchBufSize \<le> length Buf \<and>
        isFileID (NextOffset SM) \<and> 0 < FID \<and> FID < length (SLocEntryTable ?SM) \<and> unat (getOffset (NextOffset SM)) = offsets ?SM ! FID \<and>
        offsets ?SM ! FID + length Buf < unat (NextOffset ?SM) \<and> (\<forall>k \<le> length Buf. file_of ?SM (offsets ?SM ! FID + k) = FID)"
      unfolding with_buffer_simps using cont buf loc at(2) F0 by blast
    moreover have "table_ok ?SM" using P(2) by simp
    ultimately show ?thesis unfolding scratch_ok_def by simp
  qed
  moreover have "kept ?SB ?SM M t" if old: "kept SB SM M t" for SB M t
  proof -
    obtain G k D Buf0 where G: "stands_at SM M G k" "content_of SM G = Some D" "cc_Buffer (Contents SM ! D) = Some Buf0" "spelled_at Buf0 k t"
      using old by (auto simp: kept_def)
    have D: "D < ?C" by (rule content_of_bound [OF G(2)])
    have M: "unat (getOffset M) < unat (NextOffset SM)" "G < ?F" "isFileID M" "0 < G" "unat (getOffset M) = offsets SM ! G + k"
      "file_of SM (unat (getOffset M)) = G" by (rule stands_atD [OF assms(1) G(1)])+
    have "file_of SM1 (unat (getOffset M)) = G"
      using pushed_old [OF ok0 E, of "unat (getOffset M)"] M(1,6) SM0(2,4) by (simp add: SM1_def)
    then have "in_file SM1 (unat (getOffset M)) G" by (simp add: in_file_iff [OF P(2)])
    then have "stands_at ?SM M G k"
      unfolding stands_at_def with_buffer_simps using M(1-5) next1 off T(1) by (simp add: nth_append)
    moreover have "content_of ?SM G = Some D" using G(2) M(2) D
      by (auto simp: content_of_def getSLocEntry_def T nth_append bind_eq_Some_conv)
    ultimately show ?thesis unfolding kept_def using D G(3,4)
      by (intro exI [of _ G] exI [of _ k] exI [of _ D] exI [of _ Buf0]) (simp add: T nth_append)
  qed
  ultimately show ?thesis using W(2) by (intro exI [of _ ?SB] exI [of _ ?SM] exI [of _ ?C] exI [of _ Buf]) (simp add: T)
qed

text \<open>The addresses a request may use up.\<close>

definition scratch_need :: "string \<Rightarrow> nat" where
  "scratch_need s = max (length s + 2) ScratchBufSize + 1"

lemma getToken_keeps:
  assumes "scratch_ok SB SM" "\<And>n. length (NB n) = n" "unat (NextOffset SM) + scratch_need s \<le> loc_limit"
  shows "\<exists>L Dest SB' SM'. getToken NB s SB SM = Some (L, Dest, SB', SM') \<and> scratch_ok SB' SM' \<and> kept SB' SM' L s \<and>
    unat (NextOffset SM') \<le> unat (NextOffset SM) + scratch_need s \<and> (\<forall>M t. kept SB SM M t \<longrightarrow> kept SB' SM' M t \<and> M \<noteq> L)"
proof (cases "BytesUsed SB + length s + 2 > ScratchBufSize")
  case True
  have ok: "table_ok SM" using assms(1) by (simp add: scratch_ok_def)
  obtain SB1 SM1 C Buf where A: "AllocScratchBuffer NB (length s + 2) SM = Some (SB1, SM1)" "scratch_ok SB1 SM1" "CurBuffer SB1 = Some C"
    "cc_Buffer (Contents SM1 ! C) = Some Buf" "length Buf = max (length s + 2) ScratchBufSize" "BytesUsed SB1 = 1"
    "unat (NextOffset SM1) = unat (NextOffset SM) + max (length s + 2) ScratchBufSize + 1" "\<forall>SB M t. kept SB SM M t \<longrightarrow> kept SB1 SM1 M t"
    using AllocScratchBuffer_allocates [OF ok assms(2), of "length s + 2"] assms(3) by (auto simp: scratch_need_def)
  have "BytesUsed SB1 + length s + 1 \<le> length Buf" using A(5,6) by simp
  from place_token_places [OF A(2-4) this] show ?thesis using True A(1,7,8) by (fastforce simp: getToken_def scratch_need_def)
next
  case False
  then obtain C Buf where C: "CurBuffer SB = Some C" "cc_Buffer (Contents SM ! C) = Some Buf" "ScratchBufSize \<le> length Buf"
    using assms(1) by (auto simp: scratch_ok_def split: option.splits)
  then have "BytesUsed SB + length s + 1 \<le> length Buf" using False by simp
  from place_token_places [OF assms(1) C(1,2) this] show ?thesis using False by (fastforce simp: getToken_def)
qed

text \<open>The provider of the interface: texts that stand in buffers, and the addresses that are left.\<close>

interpretation scratch: scratch_store "getToken NB" "\<lambda>SB SM. (\<forall>n. length (NB n) = n) \<and> scratch_ok SB SM" kept
    "\<lambda>SM n. unat (NextOffset SM) + n \<le> loc_limit" scratch_need for NB
proof (unfold_locales, elim conjE)
  fix SB SM s n
  assume ok: "\<forall>n. length (NB n) = n" "scratch_ok SB SM" and room: "unat (NextOffset SM) + (scratch_need s + n) \<le> loc_limit"
  from room have "unat (NextOffset SM) + scratch_need s \<le> loc_limit" by simp
  from getToken_keeps [where NB = NB, OF ok(2) _ this] ok(1) obtain L D SB' SM' where
    "getToken NB s SB SM = Some (L, D, SB', SM')" "scratch_ok SB' SM'" "kept SB' SM' L s"
    "unat (NextOffset SM') \<le> unat (NextOffset SM) + scratch_need s" "\<forall>M t. kept SB SM M t \<longrightarrow> kept SB' SM' M t \<and> M \<noteq> L" by blast
  then show "\<exists>L d SB' SM'. getToken NB s SB SM = Some (L, d, SB', SM') \<and> ((\<forall>n. length (NB n) = n) \<and> scratch_ok SB' SM') \<and>
      kept SB' SM' L s \<and> unat (NextOffset SM') + n \<le> loc_limit \<and> (\<forall>M t. kept SB SM M t \<longrightarrow> kept SB' SM' M t \<and> M \<noteq> L)"
    using ok(1) room by (intro exI [of _ L] exI [of _ D] exI [of _ SB'] exI [of _ SM']) auto
qed

text \<open>
  C36: scratch tokens stay. Any sequence of texts that fits into the rest of the address space is placed, each at a location of its own;
  at the end every one of them is read back at its location, and so is everything that stood in a file or buffer before.
  (New buffers have the size asked for.)
\<close>

theorem scratch_tokens_stay:
  assumes "table_ok SM" "\<And>n. length (NB n) = n" "unat (NextOffset SM) + (\<Sum>s \<leftarrow> ss. scratch_need s) \<le> loc_limit"
  shows "\<exists>Ls SB' SM'. getTokens NB ss ScratchBuffer_new SM = Some (Ls, SB', SM') \<and> length Ls = length ss \<and> distinct Ls \<and>
    (\<forall>i < length ss. \<exists>Buf k c. getCharacterData FS SM' (Ls ! i) = Some (Buf, k, SM'\<lparr>LastFileIDLookup := c\<rparr>) \<and>
       take (length (ss ! i)) (drop k Buf) = ss ! i) \<and>
    (\<forall>M t. kept ScratchBuffer_new SM M t \<longrightarrow> M \<notin> set Ls \<and>
       (\<exists>Buf k c. getCharacterData FS SM' M = Some (Buf, k, SM'\<lparr>LastFileIDLookup := c\<rparr>) \<and> take (length t) (drop k Buf) = t))"
proof -
  have new: "scratch_ok ScratchBuffer_new SM" using assms(1) by (simp add: scratch_ok_def ScratchBuffer_new_def)
  obtain Ls SB' SM' where G: "getTokens NB ss ScratchBuffer_new SM = Some (Ls, SB', SM')" "scratch_ok SB' SM'" "length Ls = length ss" "distinct Ls"
    "\<forall>i < length ss. kept SB' SM' (Ls ! i) (ss ! i)" "\<forall>M t. kept ScratchBuffer_new SM M t \<longrightarrow> kept SB' SM' M t \<and> M \<notin> set Ls"
    using scratch.all_placed [of NB, OF _ assms(3)] new assms(2) unfolding getTokens_def by blast
  have ok: "table_ok SM'" using G(2) by (simp add: scratch_ok_def)
  have "\<exists>Buf k c. getCharacterData FS SM' M = Some (Buf, k, SM'\<lparr>LastFileIDLookup := c\<rparr>) \<and> take (length t) (drop k Buf) = t"
    if "kept SB' SM' M t" for M t
    using that getCharacterData_finds [OF ok] spelled_at_take unfolding kept_def by metis
  then show ?thesis using G by (intro exI [of _ Ls] exI [of _ SB'] exI [of _ SM']) auto
qed

theorem scratch_tokens_stay_witness:
  "\<exists>Ls SB' SM'. getTokens (\<lambda>n. replicate n (CHR 0x00)) [''42'', [], replicate 5000 (CHR ''x'')] ScratchBuffer_new example_sm = Some (Ls, SB', SM') \<and>
     length Ls = 3 \<and> distinct Ls"
proof -
  have "unat (NextOffset example_sm) + (\<Sum>s \<leftarrow> [''42'', [], replicate 5000 (CHR ''x'')]. scratch_need s) \<le> loc_limit"
    by (simp add: scratch_need_def ScratchBufSize_def)
  from scratch_tokens_stay [OF example_ok _ this, of "\<lambda>n. replicate n (CHR 0x00)" "\<lambda>_ _. None"] show ?thesis by (simp only: length_replicate) auto
qed

end
