(* ===== verification/TokenRewriter.thy ===== *)
theory TokenRewriter
  imports ScratchBuffer LexerTotal
begin

text \<open>
  The token rewriter (\<^verbatim>\<open>lib/Rewrite/TokenRewriter.cpp\<close>): the raw tokens of a file, whitespace and comments included,
  in a list that tokens can be inserted into. It brings together the lexer, which delivers the tokens, the source manager, which gives
  them their locations, and the scratch buffer, which holds the texts of the inserted ones. Nodes of the list are named by numbers; an
  iterator is the name of a node, or \<open>None\<close> at the end.
\<close>

section \<open>Locations of tokens\<close>

text \<open>Tokens of a \<^verbatim>\<open>_Pragma\<close> are expanded where the pragma is and spelled in the text of its string.\<close>

definition GetMappedTokenLoc ::
    "source_manager \<Rightarrow> source_location \<Rightarrow> nat \<Rightarrow> u32 \<Rightarrow> (source_location \<times> source_manager) option" where
  "GetMappedTokenLoc SM FileLoc CharNo TokLen = do {
     asserting (\<not> isFileID FileLoc);
     (Spelling, SM1) \<leftarrow> getSpellingLoc SM FileLoc;
     Spelling' \<leftarrow> getFileLocWithOffset Spelling (of_nat CharNo);
     (ILStart, ILEnd, SM2) \<leftarrow> getImmediateInstantiationRange SM1 FileLoc;
     createInstantiationLoc Spelling' ILStart ILEnd TokLen SM2 }"

definition getSourceLocation ::
    "source_manager \<Rightarrow> source_location \<Rightarrow> lexer \<Rightarrow> nat \<Rightarrow> u32 \<Rightarrow> (source_location \<times> source_manager) option" where
  "getSourceLocation SM FileLoc L CharNo TokLen = do {
     asserting (CharNo \<le> BufferEnd L);
     if isFileID FileLoc then do { Loc \<leftarrow> getFileLocWithOffset FileLoc (of_nat CharNo); Some (Loc, SM) }
     else GetMappedTokenLoc SM FileLoc CharNo TokLen }"

section \<open>The list of tokens\<close>

record rw_token =
  rt_Loc :: source_location
  rt_Length :: nat
  rt_Kind :: tok_kind

record token_rewriter =
  TokenList :: "(nat \<times> rw_token) list"
  TokenAtLoc :: "source_location \<rightharpoonup> nat"
  NextNode :: nat
  ScratchBuf :: scratch_buffer

definition TokenRewriter_empty :: token_rewriter where
  "TokenRewriter_empty = \<lparr>TokenList = [], TokenAtLoc = Map.empty, NextNode = 0, ScratchBuf = ScratchBuffer_new\<rparr>"

text \<open>\<^verbatim>\<open>std::list::insert\<close> in front of a node.\<close>

fun insert_node :: "nat option \<Rightarrow> nat \<times> rw_token \<Rightarrow> (nat \<times> rw_token) list \<Rightarrow> (nat \<times> rw_token) list option" where
  "insert_node None N Ns = Some (Ns @ [N])"
| "insert_node (Some w) N [] = None"
| "insert_node (Some w) N (M # Ns) = (if fst M = w then Some (N # M # Ns) else map_option ((#) M) (insert_node (Some w) N Ns))"

definition RemapIterator :: "token_rewriter \<Rightarrow> nat option \<Rightarrow> nat option option" where
  "RemapIterator R I =
     (case I of
        None \<Rightarrow> Some None
      | Some w \<Rightarrow> do { T \<leftarrow> map_of (TokenList R) w; w' \<leftarrow> TokenAtLoc R (rt_Loc T); Some (Some w') })"

definition AddToken :: "rw_token \<Rightarrow> nat option \<Rightarrow> token_rewriter \<Rightarrow> (nat \<times> token_rewriter) option" where
  "AddToken T Where R = do {
     Ns \<leftarrow> insert_node Where (NextNode R, T) (TokenList R);
     asserting (TokenAtLoc R (rt_Loc T) = None);
     Some (NextNode R, R\<lparr>TokenList := Ns, TokenAtLoc := (TokenAtLoc R)(rt_Loc T \<mapsto> NextNode R), NextNode := Suc (NextNode R)\<rparr>) }"

text \<open>\<open>Val\<close> is what stands in front of the null character of the C string.\<close>

definition AddTokenBefore ::
    "(nat \<Rightarrow> string) \<Rightarrow> nat option \<Rightarrow> string \<Rightarrow> token_rewriter \<Rightarrow> source_manager \<Rightarrow> (nat \<times> token_rewriter \<times> source_manager) option" where
  "AddTokenBefore NB I Val R SM = do {
     (Loc, _, SB, SM') \<leftarrow> getToken NB Val (ScratchBuf R) SM;
     let R1 = R\<lparr>ScratchBuf := SB\<rparr>;
     Where \<leftarrow> RemapIterator R1 I;
     (n, R2) \<leftarrow> AddToken \<lparr>rt_Loc = Loc, rt_Length = length Val, rt_Kind = tok_unknown\<rparr> Where R1;
     Some (n, R2, SM') }"

fun next_node :: "nat \<Rightarrow> (nat \<times> rw_token) list \<Rightarrow> nat option option" where
  "next_node w [] = None"
| "next_node w (M # Ns) = (if fst M = w then Some (case Ns of [] \<Rightarrow> None | N # _ \<Rightarrow> Some (fst N)) else next_node w Ns)"

definition AddTokenAfter ::
    "(nat \<Rightarrow> string) \<Rightarrow> nat option \<Rightarrow> string \<Rightarrow> token_rewriter \<Rightarrow> source_manager \<Rightarrow> (nat \<times> token_rewriter \<times> source_manager) option" where
  "AddTokenAfter NB I Val R SM = do {
     w \<leftarrow> I;
     I' \<leftarrow> next_node w (TokenList R);
     AddTokenBefore NB I' Val R SM }"

section \<open>Reading a file\<close>

text \<open>The loop of the constructor: \<open>L\<close> is the raw lexer, with the token it has delivered last.\<close>

partial_function (option) add_raw_tokens ::
    "source_location \<Rightarrow> lexer \<Rightarrow> token_rewriter \<Rightarrow> source_manager \<Rightarrow> (token_rewriter \<times> source_manager) option" where
  "add_raw_tokens FileLoc L R SM =
     (if lt_Kind (lx_Result L) = tok_eof then Some (R, SM)
      else do {
        (Loc, SM1) \<leftarrow> getSourceLocation SM FileLoc L (lt_Loc (lx_Result L)) (of_nat (lt_Length (lx_Result L)));
        (_, R1) \<leftarrow> AddToken \<lparr>rt_Loc = Loc, rt_Length = lt_Length (lx_Result L), rt_Kind = lt_Kind (lx_Result L)\<rparr> None R;
        (_, L1) \<leftarrow> LexFromRawLexer L;
        add_raw_tokens FileLoc L1 R1 SM1 })"

definition TokenRewriter_new ::
    "file_system \<Rightarrow> lexer_options \<Rightarrow> nat \<Rightarrow> source_manager \<Rightarrow> (token_rewriter \<times> source_manager) option" where
  "TokenRewriter_new FS LangOpts FID SM = do {
     FileLoc \<leftarrow> getLocForStartOfFile SM FID;
     (Buf, SM1) \<leftarrow> getBuffer FS SM FID;
     RawLex \<leftarrow> SetKeepWhitespaceMode True (RawLexer LangOpts Buf 0);
     (_, L) \<leftarrow> LexFromRawLexer RawLex;
     add_raw_tokens FileLoc L TokenRewriter_empty SM1 }"

section \<open>Raw tokens leave no gap\<close>

definition raw_mode :: "lexer \<Rightarrow> bool" where
  "raw_mode L \<longleftrightarrow> ready L \<and> LexingRawMode L \<and> isKeepWhitespaceMode L \<and> BufferPtr L \<le> BufferEnd L"

lemma Lex_start:
  defines "start L \<equiv> (let L1 = set_token startToken L
     in if IsAtStartOfLine L1 then (set_token (\<lambda>T. T\<lparr>lt_StartOfLine := True\<rparr>) L1)\<lparr>IsAtStartOfLine := False\<rparr> else L1)"
  shows "Lex L = LexTokenInternal (start L)" "similar L (start L)" "BufferPtr (start L) = BufferPtr L" "lx_Buffer (start L) = lx_Buffer L"
  unfolding start_def by (auto simp: Lex_def Let_def similar_def set_token_def)

lemma raw_similar:
  assumes "similar L K" "raw_mode L" "BufferPtr K \<le> BufferEnd L"
  shows "raw_mode K"
  using assms similar_ready [OF assms(1)] by (auto simp: raw_mode_def similar_def isKeepWhitespaceMode_def)

lemma LexFromRawLexer_delivers:
  assumes "raw_mode L"
  shows "\<exists>b L'. LexFromRawLexer L = Some (b, L') \<and> raw_mode L' \<and> lx_Buffer L' = lx_Buffer L \<and> lt_Loc (lx_Result L') = BufferPtr L \<and>
    BufferPtr L' = BufferPtr L + lt_Length (lx_Result L') \<and> (lt_Kind (lx_Result L') = tok_eof \<longrightarrow> BufferPtr L = BufferEnd L) \<and>
    (BufferPtr L < BufferEnd L \<longrightarrow> 0 < lt_Length (lx_Result L'))"
proof -
  obtain K where K: "Lex L = LexTokenInternal K" "similar L K" "BufferPtr K = BufferPtr L" "lx_Buffer K = lx_Buffer L"
    using Lex_start by metis
  have r: "raw_mode K" using raw_similar [OF K(2) assms] assms K(3) by (simp add: raw_mode_def)
  then have d: "delivered (min (BufferPtr K + 1) (BufferEnd K)) K (LexTokenInternal K)" "isKeepWhitespaceMode K"
    using LexTokenInternal_delivered by (auto simp: raw_mode_def)
  then obtain L' where L': "LexTokenInternal K = Some (Lexed L')" "lx_Buffer L' = lx_Buffer K" "min (BufferPtr K + 1) (BufferEnd K) \<le> BufferPtr L'"
    "BufferPtr L' \<le> BufferEnd K" "formed K L'" unfolding delivered_def by (metis outcome_state.simps(1))
  have "raw_mode L'" using raw_similar [OF _ r L'(4)] L'(5) by (simp add: formed_def)
  moreover have "BufferPtr K \<le> BufferPtr L'" using L'(3) r by (auto simp: raw_mode_def)
  moreover have "LexingRawMode L" using assms by (simp add: raw_mode_def)
  ultimately show ?thesis using L' K by (auto simp: LexFromRawLexer_def formed_def)
qed

text \<open>At the end of the buffer the token is the one that says so.\<close>

lemma LexFromRawLexer_ends:
  assumes "raw_mode L" "BufferPtr L = BufferEnd L" "LexFromRawLexer L = Some (b, L')"
  shows "lt_Kind (lx_Result L') = tok_eof"
proof -
  obtain K where K: "Lex L = LexTokenInternal K" "similar L K" "BufferPtr K = BufferPtr L" "lx_Buffer K = lx_Buffer L"
    using Lex_start by metis
  have m: "LexingRawMode K" "\<not> ParsingPreprocessorDirective K"
    using assms(1) K(2) ready_modes [of L] by (auto simp: raw_mode_def similar_def)
  have simple: "isObviouslySimpleCharacter NUL" by code_simp
  have "\<exists>K'. lex_next K = Some (Lexed K') \<and> lt_Kind (lx_Result K') = tok_eof"
    using m K(3,4) assms(2) simple
    by (simp add: lex_next_def skip_chars_def chars_at_def set_token_def getAndAdvanceChar_def lex_switch_def lex_NUL_def LexEndOfFile_def
        FormTokenWithChars_def Let_def)
  then obtain K' where K': "LexTokenInternal K = Some (Lexed K')" "lt_Kind (lx_Result K') = tok_eof"
    by (auto simp: LexTokenInternal.simps [of K] lex_round_def)
  then show ?thesis using assms(3) K(1) by (auto simp: LexFromRawLexer_def bind_eq_Some_conv)
qed

section \<open>The file as a list of texts\<close>

text \<open>Tokens that lie next to each other between two offsets of a file that starts at \<open>S\<close>.\<close>

fun tiles :: "source_location \<Rightarrow> nat \<Rightarrow> rw_token list \<Rightarrow> nat \<Rightarrow> bool" where
  "tiles S q [] e \<longleftrightarrow> q = e"
| "tiles S q (T # Ts) e \<longleftrightarrow> rt_Loc T = S + of_nat q \<and> 0 < rt_Length T \<and> tiles S (q + rt_Length T) Ts e"

lemma tiles_snoc [simp]: "tiles S q (Ts @ [T]) e \<longleftrightarrow> (\<exists>m. tiles S q Ts m \<and> rt_Loc T = S + of_nat m \<and> 0 < rt_Length T \<and> e = m + rt_Length T)"
  by (induction Ts arbitrary: q) auto

lemma tiles_le: "tiles S q Ts e \<Longrightarrow> q \<le> e"
  by (induction Ts arbitrary: q) fastforce+

lemma tiles_loc: "tiles S q Ts e \<Longrightarrow> T \<in> set Ts \<Longrightarrow> \<exists>m. q \<le> m \<and> rt_Loc T = S + of_nat m \<and> 0 < rt_Length T \<and> m + rt_Length T \<le> e"
proof (induction Ts arbitrary: q)
  case (Cons U Ts)
  have U: "rt_Loc U = S + of_nat q" "0 < rt_Length U" "tiles S (q + rt_Length U) Ts e" using Cons.prems(1) by simp_all
  show ?case
  proof (cases "T = U")
    case True
    then show ?thesis using U(1,2) tiles_le [OF U(3)] by blast
  next
    case False
    then obtain m where "q + rt_Length U \<le> m" "rt_Loc T = S + of_nat m" "0 < rt_Length T" "m + rt_Length T \<le> e"
      using Cons.IH [OF U(3)] Cons.prems(2) by auto
    then show ?thesis by (meson add_leD1)
  qed
qed simp

lemma shifted_inj: "m < 2 ^ 32 \<Longrightarrow> n < 2 ^ 32 \<Longrightarrow> S + of_nat m = S + (of_nat n :: u32) \<longleftrightarrow> m = n"
  using unat_small [of m] unat_small [of n] by (metis add_left_cancel)

lemma tiles_distinct: "tiles S q Ts e \<Longrightarrow> e < 2 ^ 32 \<Longrightarrow> distinct (map rt_Loc Ts)"
proof (induction Ts arbitrary: q)
  case (Cons T Ts)
  have T: "rt_Loc T = S + of_nat q" "0 < rt_Length T" "tiles S (q + rt_Length T) Ts e" using Cons.prems(1) by simp_all
  have "rt_Loc T \<noteq> rt_Loc U" if h: "U \<in> set Ts" for U
  proof -
    obtain m where m: "q + rt_Length T \<le> m" "rt_Loc U = S + of_nat m" "m + rt_Length U \<le> e" 
      using tiles_loc [OF T(3) h] by blast
    then have "q \<noteq> m" "q < 2 ^ 32" "m < 2 ^ 32" using T(2) Cons.prems(2) by linarith+
    then show ?thesis using shifted_inj [of q m S] T(1) m(2) by metis
  qed
  then show ?case using Cons.IH [OF T(3) Cons.prems(2)] by auto
qed simp

text \<open>What a raw list is: the nodes in the order they were made, found by their locations.\<close>

definition raw_list :: "token_rewriter \<Rightarrow> source_location \<Rightarrow> nat \<Rightarrow> bool" where
  "raw_list R S q \<longleftrightarrow> tiles S 0 (map snd (TokenList R)) q \<and> map fst (TokenList R) = [0..<length (TokenList R)] \<and>
     NextNode R = length (TokenList R) \<and> TokenAtLoc R = map_of (map (\<lambda>(n, T). (rt_Loc T, n)) (TokenList R)) \<and> ScratchBuf R = ScratchBuffer_new"

lemma AddToken_raw:
  assumes "raw_list R S q" "0 < n" "q + n < 2 ^ 32"
  shows "\<exists>m R'. AddToken \<lparr>rt_Loc = S + of_nat q, rt_Length = n, rt_Kind = k\<rparr> None R = Some (m, R') \<and> raw_list R' S (q + n)"
proof -
  let ?T = "\<lparr>rt_Loc = S + of_nat q, rt_Length = n, rt_Kind = k\<rparr>"
  have no: "rt_Loc T \<noteq> S + of_nat q" if "T \<in> snd ` set (TokenList R)" for T
  proof -
    have "tiles S 0 (map snd (TokenList R)) q" "T \<in> set (map snd (TokenList R))" using assms(1) that by (auto simp: raw_list_def)
    from tiles_loc [OF this] obtain m where "rt_Loc T = S + of_nat m" "m < q" by auto
    then show ?thesis using shifted_inj [of m q S] assms(3) by auto
  qed
  then have fresh: "map_of (map (\<lambda>(n, T). (rt_Loc T, n)) (TokenList R)) (S + of_nat q) = None" by (force simp: map_of_eq_None_iff)
  let ?R = "R\<lparr>TokenList := TokenList R @ [(NextNode R, ?T)], TokenAtLoc := (TokenAtLoc R)(S + of_nat q \<mapsto> NextNode R), NextNode := Suc (NextNode R)\<rparr>"
  have "AddToken ?T None R = Some (NextNode R, ?R)" using assms(1) fresh by (simp add: AddToken_def raw_list_def)
  moreover have "(TokenAtLoc R)(S + of_nat q \<mapsto> NextNode R) = map_of (map (\<lambda>(n, T). (rt_Loc T, n)) (TokenList R @ [(NextNode R, ?T)]))"
    using assms(1) fresh by (auto simp: raw_list_def map_add_def fun_eq_iff split: option.splits)
  then have "raw_list ?R S (q + n)" using assms by (simp add: raw_list_def)
  ultimately show ?thesis by blast
qed

text \<open>What the constructor's loop goes by: the last token of the lexer starts where the list ends.\<close>

definition raw_step :: "lexer \<Rightarrow> nat \<Rightarrow> bool" where
  "raw_step L q \<longleftrightarrow> raw_mode L \<and> lt_Loc (lx_Result L) = q \<and> BufferPtr L = q + lt_Length (lx_Result L) \<and>
     (lt_Kind (lx_Result L) = tok_eof \<longleftrightarrow> q = BufferEnd L) \<and> (q < BufferEnd L \<longrightarrow> 0 < lt_Length (lx_Result L))"

lemma LexFromRawLexer_step:
  assumes "raw_mode L"
  shows "\<exists>b L'. LexFromRawLexer L = Some (b, L') \<and> raw_step L' (BufferPtr L) \<and> lx_Buffer L' = lx_Buffer L"
  using LexFromRawLexer_delivers [OF assms] LexFromRawLexer_ends [OF assms] by (fastforce simp: raw_step_def)

lemma add_raw_tokens_all:
  assumes "isFileID S" "unat (getOffset S) + BufferEnd L < loc_limit" "raw_step L q" "raw_list R S q"
  shows "\<exists>R'. add_raw_tokens S L R SM = Some (R', SM) \<and> raw_list R' S (BufferEnd L)"
  using assms(2-4)
proof (induction "BufferEnd L - q" arbitrary: L q R rule: less_induct)
  case less
  show ?case
  proof (cases "lt_Kind (lx_Result L) = tok_eof")
    case True
    then show ?thesis using less.prems by (subst add_raw_tokens.simps) (simp add: raw_step_def)
  next
    case False
    let ?n = "lt_Length (lx_Result L)"
    have q: "q < BufferEnd L" "0 < ?n" "q + ?n \<le> BufferEnd L" "lt_Loc (lx_Result L) = q" "BufferPtr L = q + ?n" "raw_mode L"
      using less.prems(2) False by (auto simp: raw_step_def raw_mode_def)
    have uq: "unat (of_nat q :: u32) = q" using q(1) less.prems(1) by (intro unat_small) simp
    have "unat (getOffset S) + unat (of_nat q :: u32) < loc_limit" using uq q(1) less.prems(1) by simp
    from getFileLocWithOffset_Some(1) [OF this] have loc: "getSourceLocation SM S L q (of_nat ?n) = Some (S + of_nat q, SM)"
      using assms(1) q(1) by (simp add: getSourceLocation_def)
    have "q + ?n < 2 ^ 32" using q(3) less.prems(1) by simp
    then obtain m R1 where R1: "AddToken \<lparr>rt_Loc = S + of_nat q, rt_Length = ?n, rt_Kind = lt_Kind (lx_Result L)\<rparr> None R = Some (m, R1)"
      "raw_list R1 S (q + ?n)" using AddToken_raw [OF less.prems(3) q(2)] by blast
    obtain b L1 where L1: "LexFromRawLexer L = Some (b, L1)" "raw_step L1 (q + ?n)" "lx_Buffer L1 = lx_Buffer L"
      using LexFromRawLexer_step [OF q(6)] q(5) by auto
    have "add_raw_tokens S L R SM = add_raw_tokens S L1 R1 SM"
      unfolding add_raw_tokens.simps [of S L R SM] using False loc R1(1) L1(1) q(4) by simp
    moreover have "BufferEnd L1 - (q + ?n) < BufferEnd L - q" using q(1,2) L1(3) by simp
    ultimately show ?thesis using less.hyps [of L1 "q + ?n" R1] less.prems(1) L1(2,3) R1(2) by simp
  qed
qed

section \<open>Rewriters and texts\<close>

text \<open>
  The abstraction: a rewriter is the list of the texts of its tokens, each of which stands at the location of its token in a buffer.
\<close>

definition has_texts :: "token_rewriter \<Rightarrow> source_manager \<Rightarrow> string list \<Rightarrow> bool" where
  "has_texts R SM ts \<longleftrightarrow> scratch_ok (ScratchBuf R) SM \<and> distinct (map fst (TokenList R)) \<and> distinct (map (\<lambda>N. rt_Loc (snd N)) (TokenList R)) \<and>
     (\<forall>N \<in> set (TokenList R). fst N < NextNode R) \<and> TokenAtLoc R = map_of (map (\<lambda>(n, T). (rt_Loc T, n)) (TokenList R)) \<and>
     list_all2 (\<lambda>N t. rt_Length (snd N) = length t \<and> kept (ScratchBuf R) SM (rt_Loc (snd N)) t) (TokenList R) ts"

text \<open>The file as it is when it is read: a file of the table that goes at least as far as its buffer, which is in memory.\<close>

definition loaded :: "source_manager \<Rightarrow> nat \<Rightarrow> string \<Rightarrow> bool" where
  "loaded SM FID Buf \<longleftrightarrow> table_ok SM \<and> 0 < FID \<and> FID < length (SLocEntryTable SM) \<and> \<not> isInstantiation (SLocEntryTable SM ! FID) \<and>
     (\<exists>C. content_of SM FID = Some C \<and> cc_Buffer (Contents SM ! C) = Some Buf) \<and>
     offsets SM ! FID + length Buf < unat (NextOffset SM) \<and> (\<forall>k \<le> length Buf. file_of SM (offsets SM ! FID + k) = FID)"

lemma loaded_buffer: "loaded SM FID Buf \<Longrightarrow> getBuffer FS SM FID = Some (Buf, SM)"
proof -
  assume "loaded SM FID Buf"
  then obtain C where C: "content_of SM FID = Some C" "cc_Buffer (Contents SM ! C) = Some Buf" by (auto simp: loaded_def)
  then show ?thesis using cc_getBuffer_idem [OF C(2), of FS] by (simp add: getBuffer_def)
qed

lemma loaded_start:
  assumes "loaded SM FID Buf"
  defines "S \<equiv> entry_getOffset (SLocEntryTable SM ! FID)"
  shows "getLocForStartOfFile SM FID = Some S" "isFileID S" "unat (getOffset S) = offsets SM ! FID" "unat (getOffset S) + length Buf < loc_limit"
proof -
  have off: "unat S = offsets SM ! FID" using assms by (simp add: loaded_def nth_offsets)
  have "unat (NextOffset SM) \<le> loc_limit" using assms(1) by (simp add: loaded_def table_ok_def)
  moreover have "offsets SM ! FID + length Buf < unat (NextOffset SM)" using assms(1) by (simp add: loaded_def)
  ultimately have lim: "unat S < loc_limit" "unat S + length Buf < loc_limit" using off by linarith+
  show "getLocForStartOfFile SM FID = Some S" using assms(1) getFileLoc_Some(1) [OF lim(1)] by (simp add: loaded_def getLocForStartOfFile_def S_def)
  show "isFileID S" "unat (getOffset S) = offsets SM ! FID" "unat (getOffset S) + length Buf < loc_limit"
    using getFileLoc_Some(2,3) [OF lim(1)] off lim(2) by simp_all
qed

text \<open>A piece of the file stands at its location.\<close>

lemma loaded_kept:
  assumes "loaded SM FID Buf" "m + length t \<le> length Buf" "t = take (length t) (drop m Buf)"
  shows "kept ScratchBuffer_new SM (entry_getOffset (SLocEntryTable SM ! FID) + of_nat m) t"
proof -
  let ?S = "entry_getOffset (SLocEntryTable SM ! FID)"
  note S = loaded_start [OF assms(1)]
  obtain C where C: "content_of SM FID = Some C" "cc_Buffer (Contents SM ! C) = Some Buf" using assms(1) by (auto simp: loaded_def)
  have um: "unat (of_nat m :: u32) = m" using assms(2) S(4) by (intro unat_small) simp
  have "unat (getOffset ?S) + unat (of_nat m :: u32) < loc_limit" using um assms(2) S(4) by simp
  note L = getFileLocWithOffset_Some [OF this, unfolded um S(3)]
  have f: "file_of SM (offsets SM ! FID + m) = FID" using assms(1,2) by (simp add: loaded_def)
  have "stands_at SM (?S + of_nat m) FID m"
    using assms(1,2) S(2) f unfolding stands_at_def L(3,4) in_file_iff [OF loaded_def [THEN iffD1, OF assms(1), THEN conjunct1]]
    by (simp add: loaded_def)
  moreover have "Buf ! (m + j) = t ! j" if "j < length t" for j
    using that assms(2) by (subst assms(3)) simp
  then have "spelled_at Buf m t" using assms(2) by (simp add: spelled_at_def)
  ultimately show ?thesis using C by (auto simp: kept_def ScratchBuffer_new_def)
qed

text \<open>The texts of tokens that lie next to each other.\<close>

fun cut :: "nat \<Rightarrow> rw_token list \<Rightarrow> string \<Rightarrow> string list" where
  "cut q [] Buf = []"
| "cut q (T # Ts) Buf = take (rt_Length T) (drop q Buf) # cut (q + rt_Length T) Ts Buf"

lemma cut_concat: "tiles S q Ts e \<Longrightarrow> e \<le> length Buf \<Longrightarrow> concat (cut q Ts Buf) = take (e - q) (drop q Buf)"
proof (induction Ts arbitrary: q)
  case (Cons T Ts)
  have T: "tiles S (q + rt_Length T) Ts e" using Cons.prems(1) by simp
  then have "q + rt_Length T \<le> e" by (rule tiles_le)
  then have "take (e - q) (drop q Buf) = take (rt_Length T) (drop q Buf) @ take (e - (q + rt_Length T)) (drop (q + rt_Length T) Buf)"
    using take_add [of "rt_Length T" "e - (q + rt_Length T)" "drop q Buf"] by (simp add: add.commute)
  then show ?case using Cons.IH [OF T Cons.prems(2)] by simp
qed simp

lemma cut_kept:
  assumes "loaded SM FID Buf"
  shows "tiles (entry_getOffset (SLocEntryTable SM ! FID)) q Ts e \<Longrightarrow> e \<le> length Buf \<Longrightarrow>
    list_all2 (\<lambda>T t. rt_Length T = length t \<and> kept ScratchBuffer_new SM (rt_Loc T) t) Ts (cut q Ts Buf)"
proof (induction Ts arbitrary: q)
  case (Cons T Ts)
  have T: "rt_Loc T = entry_getOffset (SLocEntryTable SM ! FID) + of_nat q" "tiles (entry_getOffset (SLocEntryTable SM ! FID)) (q + rt_Length T) Ts e"
    using Cons.prems(1) by simp_all
  let ?t = "take (rt_Length T) (drop q Buf)"
  have len: "length ?t = rt_Length T" using tiles_le [OF T(2)] Cons.prems(2) by simp
  have "kept ScratchBuffer_new SM (rt_Loc T) ?t"
    unfolding T(1) by (rule loaded_kept [OF assms]) (use len tiles_le [OF T(2)] Cons.prems(2) in simp_all)
  then show ?case using Cons.IH [OF T(2) Cons.prems(2)] len by simp
qed simp

lemma TokenRewriter_reads:
  assumes "loaded SM FID Buf" "ready (RawLexer LangOpts Buf 0\<lparr>ExtendedTokenMode := 2\<rparr>)"
  shows "\<exists>R ts. TokenRewriter_new FS LangOpts FID SM = Some (R, SM) \<and> has_texts R SM ts \<and> concat ts = Buf \<and> [] \<notin> set ts"
proof -
  let ?S = "entry_getOffset (SLocEntryTable SM ! FID)" and ?L = "RawLexer LangOpts Buf 0\<lparr>ExtendedTokenMode := 2\<rparr>"
  note S = loaded_start [OF assms(1)]
  have raw: "raw_mode ?L" "BufferPtr ?L = 0" "lx_Buffer ?L = Buf" using assms(2) by (simp_all add: raw_mode_def RawLexer_def isKeepWhitespaceMode_def)
  obtain b L where L: "LexFromRawLexer ?L = Some (b, L)" "raw_step L 0" "lx_Buffer L = Buf" using LexFromRawLexer_step [OF raw(1)] raw(2,3) by auto
  have keep: "SetKeepWhitespaceMode True (RawLexer LangOpts Buf 0) = Some ?L" by (simp add: SetKeepWhitespaceMode_def RawLexer_def)
  have "raw_list TokenRewriter_empty ?S 0" by (simp add: raw_list_def TokenRewriter_empty_def)
  then obtain R where R: "add_raw_tokens ?S L TokenRewriter_empty SM = Some (R, SM)" "raw_list R ?S (length Buf)"
    using add_raw_tokens_all [OF S(2) _ L(2)] S(4) L(3) by auto
  have new: "TokenRewriter_new FS LangOpts FID SM = Some (R, SM)"
    unfolding TokenRewriter_new_def S(1) loaded_buffer [OF assms(1)] using keep L(1) R(1) by simp
  let ?Ts = "map snd (TokenList R)"
  have t: "tiles ?S 0 ?Ts (length Buf)" using R(2) by (simp add: raw_list_def)
  have "\<forall>N \<in> set (TokenList R). fst N < NextNode R"
  proof
    fix N assume "N \<in> set (TokenList R)"
    then have "fst N \<in> set (map fst (TokenList R))" by simp
    moreover have "map fst (TokenList R) = [0..<length (TokenList R)]" "NextNode R = length (TokenList R)" using R(2) by (simp_all add: raw_list_def)
    ultimately show "fst N < NextNode R" by (metis atLeastLessThan_iff set_upt)
  qed
  moreover have "distinct (map fst (TokenList R))" using R(2) by (simp add: raw_list_def)
  moreover have "distinct (map (\<lambda>N. rt_Loc (snd N)) (TokenList R))" using tiles_distinct [OF t] S(4) by (simp add: comp_def)
  moreover have "list_all2 (\<lambda>N t. rt_Length (snd N) = length t \<and> kept ScratchBuffer_new SM (rt_Loc (snd N)) t) (TokenList R) (cut 0 ?Ts Buf)"
    using cut_kept [OF assms(1) t] by (simp add: list_all2_map1)
  moreover have "scratch_ok ScratchBuffer_new SM" using assms(1) by (simp add: scratch_ok_def ScratchBuffer_new_def loaded_def)
  ultimately have rw: "has_texts R SM (cut 0 ?Ts Buf)" using R(2) by (simp add: has_texts_def raw_list_def)
  have "t \<noteq> []" if h: "t \<in> set (cut 0 ?Ts Buf)" for t
  proof -
    note c = cut_kept [OF assms(1) t order_refl]
    obtain i where i: "i < length (cut 0 ?Ts Buf)" "cut 0 ?Ts Buf ! i = t" using h by (auto simp: in_set_conv_nth)
    then have "i < length ?Ts" using list_all2_lengthD [OF c] by simp
    then have T: "?Ts ! i \<in> set ?Ts" "rt_Length (?Ts ! i) = length t" using list_all2_nthD2 [OF c i(1)] i(2) by (metis nth_mem, metis)
    have "0 < rt_Length (?Ts ! i)" using tiles_loc [OF t T(1)] by blast
    then show ?thesis using T(2) by auto
  qed
  then show ?thesis using new rw cut_concat [OF t] by (intro exI [of _ R] exI [of _ "cut 0 ?Ts Buf"]) auto
qed

text \<open>
  C34: the token rewriter loses nothing. For a file in memory on whose text raw lexing is total, the constructor returns: no two
  tokens have the same location, every token is found by its location, its text stands there, and the texts of the tokens, one behind
  the other, are the file.
\<close>

theorem TokenRewriter_lossless:
  assumes "loaded SM FID Buf" "ready (RawLexer LangOpts Buf 0\<lparr>ExtendedTokenMode := 2\<rparr>)"
  shows "\<exists>R ts. TokenRewriter_new FS LangOpts FID SM = Some (R, SM) \<and> has_texts R SM ts \<and> concat ts = Buf \<and> [] \<notin> set ts"
  by (rule TokenRewriter_reads [OF assms])

text \<open>A text that raw lexing takes apart: an identifier, a blank, an operator and a literal.\<close>

lemma example_loaded: "loaded example_sm 1 ''ab cd;x''"
proof -
  have "content_of example_sm 1 = Some 0" "cc_Buffer (Contents example_sm ! 0) = Some ''ab cd;x''"
    by (rule example_content(1)) (simp add: example_sm_def)
  moreover have "file_of example_sm (2 + k) = 1" if "k \<le> 7" for k using that by (intro example_file_of(2)) simp_all
  ultimately show ?thesis using example_ok by (simp add: loaded_def)
qed

theorem TokenRewriter_lossless_witness:
  "\<exists>R ts. TokenRewriter_new (\<lambda>_ _. None) total_options 1 example_sm = Some (R, example_sm) \<and> has_texts R example_sm ts \<and> concat ts = ''ab cd;x''"
proof -
  have "ready (RawLexer total_options ''ab cd;x'' 0\<lparr>ExtendedTokenMode := 2\<rparr>)" by code_simp
  from TokenRewriter_lossless [OF example_loaded this] show ?thesis by blast
qed

section \<open>Inserting tokens\<close>

text \<open>The node an iterator names, by its position; the end is behind the last one.\<close>

definition iterator_at :: "(nat \<times> rw_token) list \<Rightarrow> nat \<Rightarrow> nat option" where
  "iterator_at Ns i = (if i < length Ns then Some (fst (Ns ! i)) else None)"

lemma insert_node_at:
  "distinct (map fst Ns) \<Longrightarrow> i \<le> length Ns \<Longrightarrow> insert_node (iterator_at Ns i) N Ns = Some (insert_at i N Ns)"
proof (induction Ns arbitrary: i)
  case Nil
  then show ?case by (simp add: iterator_at_def insert_at_def)
next
  case (Cons M Ns)
  show ?case
  proof (cases i)
    case 0
    then show ?thesis by (simp add: iterator_at_def insert_at_def)
  next
    case (Suc j)
    show ?thesis
    proof (cases "j < length Ns")
      case True
      then have "fst (Ns ! j) \<noteq> fst M" using Cons.prems(1) by (metis distinct.simps(2) length_map list.simps(9) nth_map nth_mem)
      then show ?thesis using Cons.IH [of j] Cons.prems Suc True by (auto simp: iterator_at_def insert_at_def)
    next
      case False
      then show ?thesis using Cons.prems(2) Suc by (simp add: iterator_at_def insert_at_def)
    qed
  qed
qed

lemma RemapIterator_at:
  assumes "has_texts R SM ts" "i \<le> length (TokenList R)"
  shows "RemapIterator (R\<lparr>ScratchBuf := SB\<rparr>) (iterator_at (TokenList R) i) = Some (iterator_at (TokenList R) i)"
proof (cases "i < length (TokenList R)")
  case True
  obtain n T where N: "TokenList R ! i = (n, T)" by (cases "TokenList R ! i")
  then have mem: "(n, T) \<in> set (TokenList R)" using True by (metis nth_mem)
  have "map_of (TokenList R) n = Some T" using assms(1) mem by (intro map_of_is_SomeI) (simp_all add: has_texts_def)
  moreover have "map_of (map (\<lambda>(n, T). (rt_Loc T, n)) (TokenList R)) (rt_Loc T) = Some n"
    using assms(1) mem by (intro map_of_is_SomeI) (force simp: has_texts_def comp_def case_prod_beta)+
  ultimately show ?thesis using assms(1) True N by (simp add: RemapIterator_def iterator_at_def has_texts_def)
qed (simp add: RemapIterator_def iterator_at_def)

lemma insert_at_map: "map f (insert_at i x xs) = insert_at i (f x) (map f xs)"
  by (simp add: insert_at_def take_map drop_map)

lemma distinct_insert_at: "distinct xs \<Longrightarrow> x \<notin> set xs \<Longrightarrow> distinct (insert_at i x xs)"
  using distinct_append [of "take i xs" "drop i xs"] by (auto simp: insert_at_def dest: in_set_takeD in_set_dropD)

lemma list_all2_insert_at: "list_all2 P xs ys \<Longrightarrow> P x y \<Longrightarrow> list_all2 P (insert_at i x xs) (insert_at i y ys)"
  by (simp add: insert_at_def list_all2_appendI)

lemma map_of_insert_at: "k \<notin> fst ` set xs \<Longrightarrow> map_of (insert_at i (k, v) xs) = (map_of xs)(k \<mapsto> v)"
proof -
  assume k: "k \<notin> fst ` set xs"
  have "map_of (take i xs) k = None" using k by (force simp: map_of_eq_None_iff dest: in_set_takeD)
  moreover have "map_of xs = map_of (drop i xs) ++ map_of (take i xs)" by (metis append_take_drop_id map_of_append)
  ultimately show ?thesis by (auto simp: insert_at_def map_add_def fun_eq_iff split: option.splits)
qed

lemma AddTokenBefore_inserts:
  assumes "has_texts R SM ts" "i \<le> length (TokenList R)" "\<And>n. length (NB n) = n" "unat (NextOffset SM) + scratch_need Val \<le> loc_limit"
  shows "\<exists>n R' SM'. AddTokenBefore NB (iterator_at (TokenList R) i) Val R SM = Some (n, R', SM') \<and> has_texts R' SM' (insert_at i Val ts) \<and>
    iterator_at (TokenList R') i = Some n"
proof -
  have ok: "scratch_ok (ScratchBuf R) SM" using assms(1) by (simp add: has_texts_def)
  obtain L D SB SM' where G: "getToken NB Val (ScratchBuf R) SM = Some (L, D, SB, SM')" "scratch_ok SB SM'" "kept SB SM' L Val"
    "\<And>M t. kept (ScratchBuf R) SM M t \<Longrightarrow> kept SB SM' M t" "\<And>t. \<not> kept (ScratchBuf R) SM L t"
    by (rule scratch.places_one [of NB, OF _ assms(4)]) (use ok assms(3) in blast)+
  let ?T = "\<lparr>rt_Loc = L, rt_Length = length Val, rt_Kind = tok_unknown\<rparr>" and ?Ns = "TokenList R"
  let ?R = "R\<lparr>ScratchBuf := SB, TokenList := insert_at i (NextNode R, ?T) ?Ns, TokenAtLoc := (TokenAtLoc R)(L \<mapsto> NextNode R), NextNode := Suc (NextNode R)\<rparr>"
  have all: "list_all2 (\<lambda>N t. rt_Length (snd N) = length t \<and> kept (ScratchBuf R) SM (rt_Loc (snd N)) t) ?Ns ts" using assms(1) by (simp add: has_texts_def)
  then have all': "list_all2 (\<lambda>N t. rt_Length (snd N) = length t \<and> kept SB SM' (rt_Loc (snd N)) t) ?Ns ts"
    by (rule list_all2_mono) (use G(4) in blast)
  have fresh: "rt_Loc (snd N) \<noteq> L" if h: "N \<in> set ?Ns" for N
  proof -
    obtain i where i: "i < length ?Ns" "N = ?Ns ! i" using h by (metis in_set_conv_nth)
    have "kept (ScratchBuf R) SM (rt_Loc (snd N)) (ts ! i)" using list_all2_nthD [OF all i(1)] i(2) by simp
    then show ?thesis using G(5) by blast
  qed
  then have free: "TokenAtLoc R L = None" using assms(1) by (force simp: has_texts_def map_of_eq_None_iff)
  have "insert_node (iterator_at ?Ns i) (NextNode R, ?T) ?Ns = Some (insert_at i (NextNode R, ?T) ?Ns)"
    using assms(1,2) by (intro insert_node_at) (simp_all add: has_texts_def)
  then have "AddTokenBefore NB (iterator_at ?Ns i) Val R SM = Some (NextNode R, ?R, SM')"
    using G(1) free by (simp add: AddTokenBefore_def RemapIterator_at [OF assms(1,2)] AddToken_def)
  moreover have "map_of (map (\<lambda>(n, T). (rt_Loc T, n)) (insert_at i (NextNode R, ?T) ?Ns)) = (TokenAtLoc R)(L \<mapsto> NextNode R)"
  proof -
    have "L \<notin> fst ` set (map (\<lambda>(n, T). (rt_Loc T, n)) ?Ns)" using fresh by force
    from map_of_insert_at [OF this] show ?thesis using assms(1) by (simp add: insert_at_map has_texts_def)
  qed
  moreover have "distinct (map fst (insert_at i (NextNode R, ?T) ?Ns))" "distinct (map (\<lambda>N. rt_Loc (snd N)) (insert_at i (NextNode R, ?T) ?Ns))"
  proof -
    have "\<forall>N \<in> set ?Ns. fst N < NextNode R" using assms(1) by (simp add: has_texts_def)
    then have "NextNode R \<notin> set (map fst ?Ns)" by force
    moreover have "L \<notin> set (map (\<lambda>N. rt_Loc (snd N)) ?Ns)" using fresh by force
    moreover have "distinct (map fst ?Ns)" "distinct (map (\<lambda>N. rt_Loc (snd N)) ?Ns)" using assms(1) by (simp_all add: has_texts_def)
    ultimately show "distinct (map fst (insert_at i (NextNode R, ?T) ?Ns))" "distinct (map (\<lambda>N. rt_Loc (snd N)) (insert_at i (NextNode R, ?T) ?Ns))"
      unfolding insert_at_map by (simp_all add: distinct_insert_at)
  qed
  moreover have "\<forall>N \<in> set (insert_at i (NextNode R, ?T) ?Ns). fst N < Suc (NextNode R)" using assms(1) by (auto simp: has_texts_def)
  moreover have "list_all2 (\<lambda>N t. rt_Length (snd N) = length t \<and> kept SB SM' (rt_Loc (snd N)) t) (insert_at i (NextNode R, ?T) ?Ns) (insert_at i Val ts)"
    using G(3) by (intro list_all2_insert_at [OF all']) simp
  ultimately have "has_texts ?R SM' (insert_at i Val ts)" using G(2) by (simp add: has_texts_def)
  moreover have "iterator_at (insert_at i (NextNode R, ?T) ?Ns) i = Some (NextNode R)"
    using assms(2) by (simp add: iterator_at_def insert_at_def nth_append)
  ultimately show ?thesis using \<open>AddTokenBefore NB (iterator_at ?Ns i) Val R SM = _\<close>
    by (intro exI [of _ "NextNode R"] exI [of _ ?R] exI [of _ SM']) simp
qed

lemma next_node_at: "distinct (map fst Ns) \<Longrightarrow> i < length Ns \<Longrightarrow> next_node (fst (Ns ! i)) Ns = Some (iterator_at Ns (Suc i))"
proof (induction Ns arbitrary: i)
  case (Cons M Ns)
  show ?case
  proof (cases i)
    case 0
    then show ?thesis by (auto simp: iterator_at_def split: list.splits)
  next
    case (Suc j)
    then have "fst (Ns ! j) \<noteq> fst M" using Cons.prems by (metis Suc_less_eq distinct.simps(2) length_Cons length_map list.simps(9) nth_map nth_mem)
    then show ?thesis using Cons.IH [of j] Cons.prems Suc by (simp add: iterator_at_def)
  qed
qed simp

text \<open>
  C35: inserting tokens inserts texts. On a rewriter that has some texts, a token inserted before a position, the end included, or
  behind a token gives a rewriter with the text inserted there, as long as it fits into the address space; no other text changes,
  the new token has a location of its own, and the iterator returned names it.
\<close>

theorem TokenRewriter_inserts:
  assumes "has_texts R SM ts" "\<And>n. length (NB n) = n" "unat (NextOffset SM) + scratch_need Val \<le> loc_limit"
  shows "(\<forall>i \<le> length (TokenList R). \<exists>n R' SM'. AddTokenBefore NB (iterator_at (TokenList R) i) Val R SM = Some (n, R', SM') \<and>
      has_texts R' SM' (take i ts @ Val # drop i ts) \<and> iterator_at (TokenList R') i = Some n) \<and>
    (\<forall>i < length (TokenList R). \<exists>n R' SM'. AddTokenAfter NB (iterator_at (TokenList R) i) Val R SM = Some (n, R', SM') \<and>
      has_texts R' SM' (take (Suc i) ts @ Val # drop (Suc i) ts) \<and> iterator_at (TokenList R') (Suc i) = Some n)"
proof -
  have before: "\<exists>n R' SM'. AddTokenBefore NB (iterator_at (TokenList R) i) Val R SM = Some (n, R', SM') \<and>
      has_texts R' SM' (take i ts @ Val # drop i ts) \<and> iterator_at (TokenList R') i = Some n" if "i \<le> length (TokenList R)" for i
    using AddTokenBefore_inserts [where NB = NB, OF assms(1) that assms(2,3)] by (auto simp: insert_at_def)
  have "AddTokenAfter NB (iterator_at (TokenList R) i) Val R SM = AddTokenBefore NB (iterator_at (TokenList R) (Suc i)) Val R SM"
    if "i < length (TokenList R)" for i
    using next_node_at [of "TokenList R" i] assms(1) that by (simp add: AddTokenAfter_def has_texts_def iterator_at_def)
  then show ?thesis using before by auto
qed

theorem TokenRewriter_inserts_witness:
  "\<exists>R ts n R' SM'. TokenRewriter_new (\<lambda>_ _. None) total_options 1 example_sm = Some (R, example_sm) \<and> concat ts = ''ab cd;x'' \<and>
     AddTokenBefore (\<lambda>n. replicate n (CHR 0x00)) (iterator_at (TokenList R) 0) ''new'' R example_sm = Some (n, R', SM') \<and> has_texts R' SM' (''new'' # ts)"
proof -
  have "ready (RawLexer total_options ''ab cd;x'' 0\<lparr>ExtendedTokenMode := 2\<rparr>)" by code_simp
  then obtain R ts where R: "TokenRewriter_new (\<lambda>_ _. None) total_options 1 example_sm = Some (R, example_sm)" "has_texts R example_sm ts" "concat ts = ''ab cd;x''"
    using TokenRewriter_reads [OF example_loaded] by blast
  have room: "unat (NextOffset example_sm) + scratch_need ''new'' \<le> loc_limit" by (simp add: scratch_need_def ScratchBufSize_def)
  have "length (replicate n (CHR 0x00)) = n" for n by simp
  from TokenRewriter_inserts [where NB = "\<lambda>n. replicate n (CHR 0x00)", OF R(2) this room, THEN conjunct1, rule_format, of 0]
  obtain n R' SM' where "AddTokenBefore (\<lambda>n. replicate n (CHR 0x00)) (iterator_at (TokenList R) 0) ''new'' R example_sm = Some (n, R', SM')"
    "has_texts R' SM' (''new'' # ts)" by auto
  then show ?thesis using R by blast
qed

end
