(* ===== verification/HeaderMap.thy ===== *)
theory HeaderMap
  imports Characters
begin

unbundle bit_operations_syntax

text \<open>
  Header maps (\<^verbatim>\<open>lib/Lex/HeaderMap.cpp\<close>, \<^verbatim>\<open>include/clang/Lex/HeaderMap.h\<close>): a file that holds a hash table from the names
  of headers to paths, in either byte order. It is verified against the table it was written from: \<open>hmap_image\<close> is the
  file format, \<open>hm_build\<close> a table filled by linear probing.

  The host reads words little-endian. Swapping bytes, reading a file into memory and the file manager are arguments.
  A bucket that is probed leads on, returns, or has no defined result, when a null pointer is taken for a string; a
  look-up that never returns is \<open>None\<close>.
\<close>

section \<open>The file\<close>

record 'f hmap_host =
  ByteSwap_32 :: "u32 \<Rightarrow> u32"
  ByteSwap_16 :: "16 word \<Rightarrow> 16 word"
  MemoryBuffer_getFile :: "string \<Rightarrow> nat \<Rightarrow> string option"
  FM_getFile :: "string \<Rightarrow> 'f option"

record hmap_bucket =
  Key :: u32
  Prefix :: u32
  Suffix :: u32

record hmap_header =
  Magic :: u32
  Version :: "16 word"
  Reserved :: "16 word"
  StringsOffset :: u32
  NumEntries :: u32
  NumBuckets :: u32
  MaxValueLength :: u32

record header_map =
  FileBuffer :: string
  BufferIdentifier :: string
  NeedsBSwap :: bool

definition HMAP_HeaderMagicNumber :: u32 where
  "HMAP_HeaderMagicNumber =
     push_bit 24 (of_char CHR ''h'') OR push_bit 16 (of_char CHR ''m'') OR push_bit 8 (of_char CHR ''a'') OR of_char CHR ''p''"

definition HMAP_HeaderVersion :: "16 word" where
  "HMAP_HeaderVersion = 1"

definition HMAP_EmptyBucketKey :: u32 where
  "HMAP_EmptyBucketKey = 0"

text \<open>An integer of \<open>n\<close> bytes at an offset. A header takes 24 bytes, a bucket 12.\<close>

definition load :: "nat \<Rightarrow> string \<Rightarrow> nat \<Rightarrow> nat" where
  "load n s i = horner_sum of_char 256 (take n (drop i s))"

definition header_at :: "string \<Rightarrow> hmap_header" where
  "header_at s = \<lparr>Magic = of_nat (load 4 s 0), Version = of_nat (load 2 s 4), Reserved = of_nat (load 2 s 6),
     StringsOffset = of_nat (load 4 s 8), NumEntries = of_nat (load 4 s 12), NumBuckets = of_nat (load 4 s 16),
     MaxValueLength = of_nat (load 4 s 20)\<rparr>"

definition bucket_at :: "string \<Rightarrow> nat \<Rightarrow> hmap_bucket" where
  "bucket_at s i = \<lparr>Key = of_nat (load 4 s i), Prefix = of_nat (load 4 s (i + 4)), Suffix = of_nat (load 4 s (i + 8))\<rparr>"

definition HeaderMap_Create :: "'f hmap_host \<Rightarrow> string \<Rightarrow> nat \<Rightarrow> header_map option option" where
  "HeaderMap_Create H FEName FESize =
     (let FileSize = of_nat FESize :: u32
      in if FileSize \<le> 24 then Some None
         else case MemoryBuffer_getFile H FEName FESize of
             None \<Rightarrow> Some None
           | Some Buf \<Rightarrow> do {
               asserting (24 \<le> length Buf);
               let Header = header_at Buf;
               let HM = (\<lambda>BSwap. if Reserved Header \<noteq> 0 then None
                          else Some \<lparr>FileBuffer = Buf, BufferIdentifier = FEName, NeedsBSwap = BSwap\<rparr>);
               Some (if Magic Header = HMAP_HeaderMagicNumber \<and> Version Header = HMAP_HeaderVersion then HM False
                     else if Magic Header = ByteSwap_32 H HMAP_HeaderMagicNumber \<and>
                             Version Header = ByteSwap_16 H HMAP_HeaderVersion then HM True
                     else None) })"

definition getFileName :: "header_map \<Rightarrow> string" where
  "getFileName HM = BufferIdentifier HM"

definition getEndianAdjustedWord :: "'f hmap_host \<Rightarrow> header_map \<Rightarrow> u32 \<Rightarrow> u32" where
  "getEndianAdjustedWord H HM X = (if \<not> NeedsBSwap HM then X else ByteSwap_32 H X)"

definition getHeader :: "header_map \<Rightarrow> hmap_header" where
  "getHeader HM = header_at (FileBuffer HM)"

definition getBucket :: "'f hmap_host \<Rightarrow> header_map \<Rightarrow> u32 \<Rightarrow> hmap_bucket" where
  "getBucket H HM BucketNo =
     (if 24 + 12 * (unat BucketNo + 1) > length (FileBuffer HM)
      then \<lparr>Key = HMAP_EmptyBucketKey, Prefix = 0, Suffix = 0\<rparr>
      else let B = bucket_at (FileBuffer HM) (24 + 12 * unat BucketNo)
           in \<lparr>Key = getEndianAdjustedWord H HM (Key B), Prefix = getEndianAdjustedWord H HM (Prefix B),
               Suffix = getEndianAdjustedWord H HM (Suffix B)\<rparr>)"

text \<open>The string from an index on, up to the null character that ends it; \<open>None\<close> is the null pointer.\<close>

definition getString :: "'f hmap_host \<Rightarrow> header_map \<Rightarrow> u32 \<Rightarrow> string option" where
  "getString H HM StrTabIdx =
     (let Idx = StrTabIdx + getEndianAdjustedWord H HM (StringsOffset (getHeader HM))
      in if unat Idx \<ge> length (FileBuffer HM) then None
         else Some (takeWhile (\<lambda>c. c \<noteq> CHR 0x00) (drop (unat Idx) (FileBuffer HM))))"

section \<open>Looking a file up\<close>

text \<open>\<^verbatim>\<open>tolower\<close> of the C library, in the C locale.\<close>

definition tolower :: "char \<Rightarrow> char" where
  "tolower c = (if 65 \<le> code_of c \<and> code_of c \<le> 90 then char_of (code_of c + 32) else c)"

definition HashHMapKey :: "string \<Rightarrow> u32" where
  "HashHMapKey S = fold (\<lambda>c Result. Result + char_unsigned (tolower c) * 13) S 0"

fun StringsEqualWithoutCase :: "string \<Rightarrow> string \<Rightarrow> nat \<Rightarrow> bool" where
  "StringsEqualWithoutCase (c1 # S1) (c2 # S2) (Suc Len) =
     (tolower c1 = tolower c2 \<and> StringsEqualWithoutCase S1 S2 Len)"
| "StringsEqualWithoutCase S1 S2 Len = True"

datatype 'f probed = Undefined | Returns "'f option" | Probe_on

definition probe_bucket :: "'f hmap_host \<Rightarrow> header_map \<Rightarrow> string \<Rightarrow> hmap_bucket \<Rightarrow> 'f probed" where
  "probe_bucket H HM Filename B =
     (if Key B = HMAP_EmptyBucketKey then Returns None
      else case getString H HM (Key B) of
          None \<Rightarrow> Undefined
        | Some S \<Rightarrow>
            (let BucketKeyLen = of_nat (length S) :: u32
             in if BucketKeyLen \<noteq> of_nat (length Filename) then Probe_on
                else if \<not> StringsEqualWithoutCase Filename S (unat BucketKeyLen) then Probe_on
                else case (getString H HM (Prefix B), getString H HM (Suffix B)) of
                    (Some P, Some X) \<Rightarrow> Returns (FM_getFile H (P @ X))
                  | _ \<Rightarrow> Undefined))"

partial_function (option) probe_from :: "'f hmap_host \<Rightarrow> header_map \<Rightarrow> u32 \<Rightarrow> string \<Rightarrow> u32 \<Rightarrow> 'f probed option" where
  "probe_from H HM NBuckets Filename Bucket =
     (case probe_bucket H HM Filename (getBucket H HM (Bucket AND (NBuckets - 1))) of
        Probe_on \<Rightarrow> probe_from H HM NBuckets Filename (Bucket + 1)
      | r \<Rightarrow> Some r)"

definition LookupFile :: "'f hmap_host \<Rightarrow> header_map \<Rightarrow> string \<Rightarrow> 'f probed option" where
  "LookupFile H HM Filename =
     (let NBuckets = getEndianAdjustedWord H HM (NumBuckets (getHeader HM))
      in if NBuckets AND (NBuckets - 1) \<noteq> 0 then Some (Returns None)
         else probe_from H HM NBuckets Filename (HashHMapKey Filename))"

section \<open>The file format\<close>

text \<open>
  The bytes of an integer, in either order, and a table as it is written to a file: each bucket is empty or has a key, a prefix and a
  suffix, which stand in this order in the pool of strings behind the buckets.
\<close>

definition store :: "nat \<Rightarrow> bool \<Rightarrow> nat \<Rightarrow> string" where
  "store n swap v = (if swap then rev else id) (map (\<lambda>j. char_of (v div 256 ^ j)) [0..<n])"

type_synonym hmap_entry = "string \<times> string \<times> string"

fun entry_strings :: "hmap_entry option \<Rightarrow> string" where
  "entry_strings None = []"
| "entry_strings (Some (k, p, s)) = k @ CHR 0x00 # p @ CHR 0x00 # s @ [CHR 0x00]"

definition pool :: "hmap_entry option list \<Rightarrow> string" where
  "pool t = CHR 0x00 # concat (map entry_strings t)"

fun bucket_image :: "bool \<Rightarrow> nat \<Rightarrow> hmap_entry option \<Rightarrow> string" where
  "bucket_image swap off None = store 4 swap 0 @ store 4 swap 0 @ store 4 swap 0"
| "bucket_image swap off (Some (k, p, s)) =
     store 4 swap off @ store 4 swap (off + length k + 1) @ store 4 swap (off + length k + length p + 2)"

definition buckets_image :: "bool \<Rightarrow> hmap_entry option list \<Rightarrow> string" where
  "buckets_image swap t = concat (map (\<lambda>i. bucket_image swap (length (pool (take i t))) (t ! i)) [0..<length t])"

definition value_length :: "hmap_entry option \<Rightarrow> nat" where
  "value_length e = (case e of None \<Rightarrow> 0 | Some (k, p, s) \<Rightarrow> length p + length s)"

definition header_image :: "bool \<Rightarrow> hmap_entry option list \<Rightarrow> string" where
  "header_image swap t = store 4 swap 0x686D6170 @ store 2 swap 1 @ store 2 swap 0 @ store 4 swap (24 + 12 * length t) @
     store 4 swap (length (filter (\<lambda>e. e \<noteq> None) t)) @ store 4 swap (length t) @ store 4 swap (Max (insert 0 (set (map value_length t))))"

definition hmap_image :: "bool \<Rightarrow> hmap_entry option list \<Rightarrow> string" where
  "hmap_image swap t = header_image swap t @ buckets_image swap t @ pool t"

text \<open>The documented behaviour of swapping bytes.\<close>

definition swaps_bytes :: "'f hmap_host \<Rightarrow> bool" where
  "swaps_bytes H \<longleftrightarrow> (\<forall>s. length s = 4 \<longrightarrow> ByteSwap_32 H (of_nat (load 4 s 0)) = of_nat (load 4 (rev s) 0)) \<and>
     (\<forall>s. length s = 2 \<longrightarrow> ByteSwap_16 H (of_nat (load 2 s 0)) = of_nat (load 2 (rev s) 0))"

section \<open>Reading a file back\<close>

lemma length_store [simp]: "length (store n swap v) = n"
  by (simp add: store_def)

lemma load_part: "s = a @ b @ c \<Longrightarrow> length a = i \<Longrightarrow> length b = n \<Longrightarrow> load n s i = load n b 0"
  by (simp add: load_def)

lemma store_Suc: "store (Suc n) False v = char_of v # store n False (v div 256)"
  by (simp add: store_def upt_conv_Cons map_Suc_upt [symmetric] o_def div_mult2_eq del: upt_Suc)

lemma load_store: "load n (store n False v) 0 = v mod 256 ^ n"
proof (induction n arbitrary: v)
  case (Suc n)
  have "load (Suc n) (store (Suc n) False v) 0 = v mod 256 + 256 * load n (store n False (v div 256)) 0"
    by (simp add: load_def store_Suc)
  then show ?case by (simp add: Suc.IH mod_mult2_eq)
qed (simp add: load_def)

lemma store_swap: "store n True v = rev (store n False v)"
  by (simp add: store_def)

lemma of_nat_low32: "(of_nat (v mod 4294967296) :: u32) = of_nat v"
  by (rule word_unat_eq_iff [THEN iffD2]) (simp add: unat_of_nat)

lemma adjusted:
  assumes "swaps_bytes H"
  shows "getEndianAdjustedWord H HM (of_nat (load 4 (store 4 (NeedsBSwap HM) v) 0)) = of_nat v"
proof (cases "NeedsBSwap HM")
  case True
  have "ByteSwap_32 H (of_nat (load 4 (rev (store 4 False v)) 0)) = of_nat (load 4 (rev (rev (store 4 False v))) 0)"
    using assms length_rev length_store unfolding swaps_bytes_def by metis
  then show ?thesis using True by (simp add: getEndianAdjustedWord_def store_swap load_store of_nat_low32)
next
  case False
  then show ?thesis by (simp add: getEndianAdjustedWord_def load_store of_nat_low32)
qed

lemma length_bucket_image [simp]: "length (bucket_image swap off e) = 12"
  by (cases "(swap, off, e)" rule: bucket_image.cases) simp_all

lemma length_buckets_image [simp]: "length (buckets_image swap t) = 12 * length t"
  by (simp add: buckets_image_def length_concat o_def sum_list_triv)

lemma length_header_image [simp]: "length (header_image swap t) = 24"
  by (simp add: header_image_def)

lemma concat_block:
  assumes "\<And>x. length (f x) = m" "i < length xs"
  shows "concat (map f xs) = concat (map f (take i xs)) @ f (xs ! i) @ concat (map f (drop (Suc i) xs))"
    "length (concat (map f (take i xs))) = m * i"
proof -
  show "concat (map f xs) = concat (map f (take i xs)) @ f (xs ! i) @ concat (map f (drop (Suc i) xs))"
    using arg_cong [OF id_take_nth_drop [OF assms(2)], of "\<lambda>xs. concat (map f xs)"] by simp
  show "length (concat (map f (take i xs))) = m * i"
    using assms by (simp add: length_concat o_def sum_list_triv)
qed

text \<open>The map that holds the image of a table.\<close>

abbreviation map_of_image :: "string \<Rightarrow> bool \<Rightarrow> hmap_entry option list \<Rightarrow> header_map" where
  "map_of_image name swap t \<equiv> \<lparr>FileBuffer = hmap_image swap t, BufferIdentifier = name, NeedsBSwap = swap\<rparr>"

lemma header_words:
  "load 4 (hmap_image swap t) 0 = load 4 (store 4 swap 0x686D6170) 0"
  "load 2 (hmap_image swap t) 4 = load 2 (store 2 swap 1) 0"
  "load 2 (hmap_image swap t) 6 = load 2 (store 2 swap 0) 0"
  "load 4 (hmap_image swap t) 8 = load 4 (store 4 swap (24 + 12 * length t)) 0"
  "load 4 (hmap_image swap t) 16 = load 4 (store 4 swap (length t)) 0"
proof -
  define a b c d e f g r where "a = store 4 swap 0x686D6170" and "b = store 2 swap 1" and "c = store 2 swap 0"
    and "d = store 4 swap (24 + 12 * length t)" and "e = store 4 swap (length (filter (\<lambda>e. e \<noteq> None) t))"
    and "f = store 4 swap (length t)" and "g = store 4 swap (Max (insert 0 (set (map value_length t))))"
    and "r = buckets_image swap t @ pool t"
  note defs = this
  have im: "hmap_image swap t = a @ b @ c @ d @ e @ f @ g @ r" by (simp add: hmap_image_def header_image_def defs)
  have len: "length a = 4" "length b = 2" "length c = 2" "length d = 4" "length e = 4" "length f = 4" by (simp_all add: defs)
  show "load 4 (hmap_image swap t) 0 = load 4 (store 4 swap 0x686D6170) 0" using load_part [of "hmap_image swap t" "[]" a] im len defs(1) by simp
  show "load 2 (hmap_image swap t) 4 = load 2 (store 2 swap 1) 0" using load_part [of "hmap_image swap t" a b] im len defs(2) by simp
  show "load 2 (hmap_image swap t) 6 = load 2 (store 2 swap 0) 0" using load_part [of "hmap_image swap t" "a @ b" c] im len defs(3) by simp
  show "load 4 (hmap_image swap t) 8 = load 4 (store 4 swap (24 + 12 * length t)) 0"
    using load_part [of "hmap_image swap t" "a @ b @ c" d] im len defs(4) by simp
  show "load 4 (hmap_image swap t) 16 = load 4 (store 4 swap (length t)) 0"
    using load_part [of "hmap_image swap t" "a @ b @ c @ d @ e" f] im len defs(6) by simp
qed

lemma magic_swapped:
  "load 4 (store 4 True 0x686D6170) 0 = 0x70616D68" "load 2 (store 2 True 1) 0 = 0x100" "load 2 (store 2 swap 0) 0 = 0"
proof -
  have "[0..<4] = [0, 1, 2, 3::nat]" "[0..<2] = [0, 1::nat]" by (simp_all add: upt_rec)
  then show "load 4 (store 4 True 0x686D6170) 0 = 0x70616D68" "load 2 (store 2 True 1) 0 = 0x100" "load 2 (store 2 swap 0) 0 = 0"
    by (simp_all add: load_def store_def)
qed

lemma magic_number: "HMAP_HeaderMagicNumber = 0x686D6170"
  by (simp add: HMAP_HeaderMagicNumber_def)

lemma HeaderMap_Create_image:
  assumes "swaps_bytes H" "MemoryBuffer_getFile H name (length (hmap_image swap t)) = Some (hmap_image swap t)"
    "length (hmap_image swap t) < 2 ^ 32"
  shows "HeaderMap_Create H name (length (hmap_image swap t)) = Some (Some (map_of_image name swap t))"
proof -
  have pos: "24 < length (hmap_image swap t)" by (simp add: hmap_image_def pool_def)
  have size: "\<not> (of_nat (length (hmap_image swap t)) :: u32) \<le> 24"
    using assms(3) pos by (simp add: word_le_nat_alt unat_of_nat)
  have M: "HMAP_HeaderMagicNumber = of_nat (load 4 (store 4 False 0x686D6170) 0)" by (simp add: magic_number load_store)
  have V: "HMAP_HeaderVersion = of_nat (load 2 (store 2 False 1) 0)" by (simp add: HMAP_HeaderVersion_def load_store)
  have "ByteSwap_32 H HMAP_HeaderMagicNumber = of_nat (load 4 (store 4 True 0x686D6170) 0)"
    "ByteSwap_16 H HMAP_HeaderVersion = of_nat (load 2 (store 2 True 1) 0)"
    using assms(1) by (simp_all add: M V swaps_bytes_def store_swap)
  moreover have "HMAP_HeaderMagicNumber \<noteq> of_nat (load 4 (store 4 True 0x686D6170) 0)" by (simp add: magic_number magic_swapped)
  ultimately show ?thesis using size pos assms(2)
    by (cases swap) (simp_all add: HeaderMap_Create_def header_at_def header_words M V magic_swapped Let_def)
qed

text \<open>What a table is, read through the header map.\<close>

definition decodes :: "'f hmap_host \<Rightarrow> header_map \<Rightarrow> hmap_bucket \<Rightarrow> hmap_entry option \<Rightarrow> bool" where
  "decodes H HM B e = (case e of None \<Rightarrow> Key B = 0 | Some (k, p, s) \<Rightarrow>
     Key B \<noteq> 0 \<and> getString H HM (Key B) = Some k \<and> getString H HM (Prefix B) = Some p \<and> getString H HM (Suffix B) = Some s)"

definition decoded :: "'f hmap_host \<Rightarrow> header_map \<Rightarrow> hmap_entry option list \<Rightarrow> bool" where
  "decoded H HM t \<longleftrightarrow> getEndianAdjustedWord H HM (NumBuckets (getHeader HM)) = of_nat (length t) \<and>
     (\<forall>i < length t. decodes H HM (getBucket H HM (of_nat i)) (t ! i))"

fun plain :: "hmap_entry \<Rightarrow> bool" where
  "plain (k, p, s) = (CHR 0x00 \<notin> set (k @ p @ s))"

lemma image_adjusted:
  "swaps_bytes H \<Longrightarrow> getEndianAdjustedWord H (map_of_image name swap t) (of_nat (load 4 (store 4 swap v) 0)) = of_nat v"
  using adjusted [of H "map_of_image name swap t"] by simp

lemma image_size: "24 + 12 * length t < length (hmap_image swap t)"
  by (simp add: hmap_image_def pool_def)

lemma image_buckets: "length (hmap_image swap t) < 2 ^ 32 \<Longrightarrow> length t < 2 ^ 32"
  using image_size [of t swap] by simp

lemma image_header:
  assumes "swaps_bytes H"
  shows "getEndianAdjustedWord H (map_of_image name swap t) (NumBuckets (getHeader (map_of_image name swap t))) = of_nat (length t)"
  "getEndianAdjustedWord H (map_of_image name swap t) (StringsOffset (getHeader (map_of_image name swap t))) = of_nat (24 + 12 * length t)"
  by (simp_all only: getHeader_def header_at_def hmap_header.simps header_map.simps header_words image_adjusted [OF assms])

lemma image_string:
  assumes H: "swaps_bytes H" "length (hmap_image swap t) < 2 ^ 32"
    and k: "pool t = a @ k @ CHR 0x00 # r" "CHR 0x00 \<notin> set k"
  shows "getString H (map_of_image name swap t) (of_nat (length a)) = Some k"
proof -
  let ?i = "24 + 12 * length t + length a"
  have i: "?i < length (hmap_image swap t)" by (simp add: hmap_image_def k(1))
  then have u: "unat (of_nat ?i :: u32) = ?i" using H(2) by (simp only: unat_of_nat) simp
  have sum: "(of_nat (length a) + of_nat (24 + 12 * length t) :: u32) = of_nat ?i" by simp
  have d: "drop ?i (hmap_image swap t) = k @ CHR 0x00 # r" by (simp add: hmap_image_def k(1))
  have w: "takeWhile (\<lambda>c. c \<noteq> CHR 0x00) (k @ CHR 0x00 # r) = k" using k(2) by (subst takeWhile_append2) auto
  show ?thesis unfolding getString_def image_header(2) [OF H(1)] Let_def sum u using i by (simp add: d w)
qed

lemma image_bucket:
  assumes H: "swaps_bytes H" "length (hmap_image swap t) < 2 ^ 32"
    and i: "i < length t"
  defines "off \<equiv> length (pool (take i t))"
  shows "getBucket H (map_of_image name swap t) (of_nat i) =
    (case t ! i of None \<Rightarrow> \<lparr>Key = 0, Prefix = 0, Suffix = 0\<rparr>
     | Some (k, p, s) \<Rightarrow> \<lparr>Key = of_nat off, Prefix = of_nat (off + length k + 1), Suffix = of_nat (off + length k + length p + 2)\<rparr>)"
proof -
  obtain x y z where B: "bucket_image swap off (t ! i) = store 4 swap x @ store 4 swap y @ store 4 swap z"
    and v: "(case t ! i of None \<Rightarrow> \<lparr>Key = 0, Prefix = 0, Suffix = 0\<rparr>
     | Some (k, p, s) \<Rightarrow> \<lparr>Key = of_nat off, Prefix = of_nat (off + length k + 1), Suffix = of_nat (off + length k + length p + 2)\<rparr>) =
     \<lparr>Key = of_nat x, Prefix = of_nat y, Suffix = of_nat z\<rparr>"
    by (cases "(swap, off, t ! i)" rule: bucket_image.cases) auto
  define f where "f = (\<lambda>i. bucket_image swap (length (pool (take i t))) (t ! i))"
  have f: "length (f j) = 12" for j by (simp add: f_def)
  define a where "a = header_image swap t @ concat (map f (take i [0..<length t]))"
  define c where "c = concat (map f (drop (Suc i) [0..<length t])) @ pool t"
  have im: "hmap_image swap t = a @ store 4 swap x @ store 4 swap y @ store 4 swap z @ c"
    using concat_block(1) [of f 12 i "[0..<length t]", OF f] i B
    by (simp add: hmap_image_def buckets_image_def a_def c_def f_def off_def)
  have a: "length a = 24 + 12 * i"
    using concat_block(2) [of f 12 i "[0..<length t]", OF f] i by (simp add: a_def)
  have "load 4 (hmap_image swap t) (24 + 12 * i) = load 4 (store 4 swap x) 0"
    "load 4 (hmap_image swap t) (24 + 12 * i + 4) = load 4 (store 4 swap y) 0"
    "load 4 (hmap_image swap t) (24 + 12 * i + 8) = load 4 (store 4 swap z) 0"
    using load_part [OF im, of "24 + 12 * i" 4] load_part [of _ "a @ store 4 swap x" "store 4 swap y" "store 4 swap z @ c"]
      load_part [of _ "a @ store 4 swap x @ store 4 swap y" "store 4 swap z" c] a im by simp_all
  note words = this
  have u: "unat (of_nat i :: u32) = i" using i image_buckets [OF H(2)] by (simp add: unat_of_nat)
  have "\<not> 24 + 12 * (i + 1) > length (hmap_image swap t)" using i image_size [of t swap] by simp
  then show ?thesis unfolding v getBucket_def u
    by (simp only: header_map.simps if_False Let_def bucket_at_def hmap_bucket.simps words image_adjusted [OF H(1)])
qed

lemma image_decoded:
  assumes H: "swaps_bytes H" "length (hmap_image swap t) < 2 ^ 32"
    and p: "\<And>e. Some e \<in> set t \<Longrightarrow> plain e"
  shows "decoded H (map_of_image name swap t) t"
  unfolding decoded_def
proof (intro conjI image_header [OF H(1)] allI impI)
  fix i assume i: "i < length t"
  show "decodes H (map_of_image name swap t) (getBucket H (map_of_image name swap t) (of_nat i)) (t ! i)"
  proof (cases "t ! i")
    case None
    then show ?thesis by (simp add: image_bucket [OF H i] decodes_def)
  next
    case (Some e)
    obtain k p s where e: "e = (k, p, s)" by (cases e)
    have pl: "CHR 0x00 \<notin> set k" "CHR 0x00 \<notin> set p" "CHR 0x00 \<notin> set s"
      using p [of e] Some i nth_mem [OF i] by (auto simp: e)
    define a r where "a = pool (take i t)" and "r = concat (map entry_strings (drop (Suc i) t))"
    have P: "pool t = a @ k @ CHR 0x00 # p @ CHR 0x00 # s @ CHR 0x00 # r"
      using arg_cong [OF id_take_nth_drop [OF i], of "\<lambda>xs. concat (map entry_strings xs)"]
      by (simp add: pool_def a_def r_def Some e)
    have "length a < 2 ^ 32" "0 < length a" using H(2) by (simp_all add: hmap_image_def P) (simp add: a_def pool_def)
    then have "(of_nat (length a) :: u32) \<noteq> 0" by (simp add: word_unat_eq_iff unat_of_nat)
    then show ?thesis
      using image_string [OF H, of a k] image_string [OF H, of "a @ k @ [CHR 0x00]" p]
        image_string [OF H, of "a @ k @ CHR 0x00 # p @ [CHR 0x00]" s] P pl
      by (simp add: image_bucket [OF H i] decodes_def Some e a_def [symmetric] add.commute add.left_commute)
  qed
qed

section \<open>Probing\<close>

definition slot :: "nat \<Rightarrow> u32 \<Rightarrow> nat \<Rightarrow> nat" where
  "slot n h d = (unat h + d) mod n"

lemma slot_less: "0 < n \<Longrightarrow> slot n h d < n"
  by (simp add: slot_def)

lemma slot_covers:
  assumes "i < n"
  obtains d where "d < n" "slot n h d = i"
proof
  let ?d = "(i + n - unat h mod n) mod n"
  show "?d < n" using assms by simp
  have "slot n h ?d = (unat h mod n + (i + n - unat h mod n)) mod n" by (simp add: slot_def mod_add_left_eq mod_add_right_eq)
  also have "\<dots> = i" using assms by (simp add: le_add_diff_inverse2 less_imp_le add.commute trans_le_add2)
  finally show "slot n h ?d = i" .
qed

lemma masked_slot:
  assumes "k < 32"
  shows "(h + of_nat d) AND (2 ^ k - 1) = (of_nat (slot (2 ^ k) h d) :: u32)"
proof -
  have "unat ((h + of_nat d) AND (2 ^ k - 1)) = unat (h + of_nat d :: u32) mod 2 ^ k"
    by (simp add: mask_eq_exp_minus_1 [symmetric] unsigned_take_bit_eq take_bit_eq_mod flip: take_bit_eq_mask)
      (simp add: unsigned_take_bit_eq flip: take_bit_eq_mod)
  also have "\<dots> = (unat h + d) mod 2 ^ k"
  proof -
    have "unat (h + of_nat d :: u32) = (unat h + d) mod 2 ^ 32" by (simp add: unat_word_ariths unat_of_nat mod_add_right_eq)
    moreover have "(2 :: nat) ^ k dvd 2 ^ 32" using assms by (intro le_imp_power_dvd) simp
    ultimately show ?thesis by (simp add: mod_mod_cancel)
  qed
  finally have "unat ((h + of_nat d) AND (2 ^ k - 1)) = slot (2 ^ k) h d" by (simp add: slot_def)
  from arg_cong [OF this, of "of_nat :: nat \<Rightarrow> u32"] show ?thesis by simp
qed

text \<open>The outcome of probing at a distance from the hash.\<close>

definition probed_at :: "'f hmap_host \<Rightarrow> header_map \<Rightarrow> string \<Rightarrow> nat \<Rightarrow> u32 \<Rightarrow> nat \<Rightarrow> 'f probed" where
  "probed_at H HM Filename n h d = probe_bucket H HM Filename (getBucket H HM (of_nat (slot n h d)))"

lemma probe_from_step:
  assumes "k < 32"
  shows "probe_from H HM (2 ^ k) Filename (h + of_nat d) =
    (case probed_at H HM Filename (2 ^ k) h d of Probe_on \<Rightarrow> probe_from H HM (2 ^ k) Filename (h + of_nat (Suc d)) | r \<Rightarrow> Some r)"
  by (subst probe_from.simps) (simp add: masked_slot [OF assms] probed_at_def add.assoc add.commute [of 1] cong: probed.case_cong)

lemma probe_from_returns:
  assumes "k < 32" "\<forall>d < m. probed_at H HM Filename (2 ^ k) h d = Probe_on" "probed_at H HM Filename (2 ^ k) h m \<noteq> Probe_on"
  shows "probe_from H HM (2 ^ k) Filename h = Some (probed_at H HM Filename (2 ^ k) h m)"
proof -
  have "d \<le> m \<Longrightarrow> probe_from H HM (2 ^ k) Filename (h + of_nat d) = Some (probed_at H HM Filename (2 ^ k) h m)" for d
  proof (induction "m - d" arbitrary: d)
    case 0
    then have "d = m" by simp
    then show ?case using assms(3) by (subst probe_from_step [OF assms(1)]) (simp split: probed.split)
  next
    case (Suc j)
    then have "d < m" "Suc d \<le> m" "j = m - Suc d" by simp_all
    then show ?case using Suc.hyps(1) [of "Suc d"] assms(2) by (subst probe_from_step [OF assms(1)]) simp
  qed
  from this [of 0] show ?thesis by simp
qed

lemma probe_from_loops:
  assumes "k < 32" "\<forall>i < 2 ^ k. probe_bucket H HM Filename (getBucket H HM (of_nat i)) = Probe_on"
  shows "probe_from H HM (2 ^ k) Filename h = None"
proof -
  have on: "probe_bucket H HM Filename (getBucket H HM (b AND (2 ^ k - 1))) = Probe_on" for b
    using assms(2) slot_less [of "2 ^ k" b 0] masked_slot [OF assms(1), of b 0] by simp
  have "H' = H \<longrightarrow> HM' = HM \<longrightarrow> b = 2 ^ k \<longrightarrow> F = Filename \<longrightarrow> False"
    if r: "probe_from H' HM' b F h = Some r" for H' HM' b F h r
    by (rule probe_from.raw_induct [OF _ r, where P = "\<lambda>H' HM' b F h r. H' = H \<longrightarrow> HM' = HM \<longrightarrow> b = 2 ^ k \<longrightarrow> F = Filename \<longrightarrow> False"])
      (use on in \<open>auto split: probed.splits\<close>)
  then show ?thesis by (metis option.exhaust)
qed

text \<open>Names are compared, and hashed, without case.\<close>

lemma StringsEqualWithoutCase_iff:
  "length S1 = length S2 \<Longrightarrow> StringsEqualWithoutCase S1 S2 (length S2) \<longleftrightarrow> map tolower S1 = map tolower S2"
  by (induction S1 S2 rule: list_induct2) auto

lemma HashHMapKey_cong: "map tolower S = map tolower T \<Longrightarrow> HashHMapKey S = HashHMapKey T"
proof -
  have "HashHMapKey S = fold (\<lambda>c Result. Result + char_unsigned c * 13) (map tolower S) 0" for S
    by (simp add: HashHMapKey_def fold_map o_def)
  then show "map tolower S = map tolower T \<Longrightarrow> HashHMapKey S = HashHMapKey T" by simp
qed

lemma unequal_lengths:
  assumes "m < 2 ^ 32" "n < 2 ^ 32"
  shows "(of_nat m :: u32) = of_nat n \<longleftrightarrow> m = n"
  using assms by (auto simp: word_unat_eq_iff unat_of_nat)

lemma length_string_at: "length (takeWhile P (drop i s)) \<le> length s"
  by (rule le_trans [OF length_takeWhile_le]) simp

lemma probe_bucket_on:
  assumes "length (FileBuffer HM) < 2 ^ 32" "length Filename < 2 ^ 32"
  shows "probe_bucket H HM Filename B = Probe_on \<longleftrightarrow>
    Key B \<noteq> HMAP_EmptyBucketKey \<and> (\<exists>S. getString H HM (Key B) = Some S \<and> map tolower S \<noteq> map tolower Filename)"
proof (cases "getString H HM (Key B)")
  case (Some S)
  then have "length S \<le> length (FileBuffer HM)"
    by (auto simp: getString_def Let_def length_string_at split: if_splits)
  then have u: "unat (of_nat (length S) :: u32) = length S" and l: "length S < 2 ^ 32" using assms(1) by (simp_all add: unat_of_nat)
  note eq = StringsEqualWithoutCase_iff [of Filename S] unequal_lengths [OF l assms(2)]
  show ?thesis
  proof (cases "length S = length Filename")
    case True
    then show ?thesis using eq Some u by (auto simp: probe_bucket_def Let_def split: option.splits)
  next
    case False
    moreover from this have "map tolower S \<noteq> map tolower Filename" by (metis length_map)
    ultimately show ?thesis using eq Some by (auto simp: probe_bucket_def Let_def)
  qed
qed (simp add: probe_bucket_def)

lemma probe_bucket_match:
  assumes "decodes H HM B (Some (k, p, s))" "map tolower k = map tolower Filename" "length Filename < 2 ^ 32"
  shows "probe_bucket H HM Filename B = Returns (FM_getFile H (p @ s))"
proof -
  have "length k = length Filename" using assms(2) by (metis length_map)
  then show ?thesis using assms StringsEqualWithoutCase_iff [of Filename k]
    by (simp add: probe_bucket_def decodes_def HMAP_EmptyBucketKey_def unat_of_nat)
qed

lemma first_distance:
  assumes "0 < n" "\<not> (\<forall>i < n. P i)"
  obtains d where "d < n" "\<not> P (slot n h d)" "\<forall>d' < d. P (slot n h d')"
proof -
  obtain i where "i < n" "\<not> P i" using assms(2) by blast
  then obtain d0 where d0: "d0 < n" "\<not> P (slot n h d0)" using slot_covers by metis
  define d where "d = (LEAST d. \<not> P (slot n h d))"
  have "\<not> P (slot n h d)" unfolding d_def by (rule LeastI [of _ d0]) (rule d0(2))
  moreover have "d \<le> d0" unfolding d_def by (rule Least_le) (rule d0(2))
  moreover have "\<forall>d' < d. P (slot n h d')" unfolding d_def using not_less_Least by blast
  ultimately show thesis using d0(1) by (intro that [of d]) auto
qed

text \<open>
  C38: on a table whose number of buckets is a power of two, looking a name up never returns if, and only if, every bucket is in
  use and holds a key that is a string of the file and differs from the name: the test that the number is a power of
  two, by which the code wants to avoid probing infinitely, does not avoid it.
\<close>

theorem LookupFile_loops_iff:
  assumes "getEndianAdjustedWord H HM (NumBuckets (getHeader HM)) = 2 ^ k" "k < 32"
    and "length (FileBuffer HM) < 2 ^ 32" "length Filename < 2 ^ 32"
  shows "LookupFile H HM Filename = None \<longleftrightarrow>
    (\<forall>i < 2 ^ k. let B = getBucket H HM (of_nat i)
       in Key B \<noteq> HMAP_EmptyBucketKey \<and> (\<exists>S. getString H HM (Key B) = Some S \<and> map tolower S \<noteq> map tolower Filename))"
proof -
  let ?on = "\<lambda>i. probe_bucket H HM Filename (getBucket H HM (of_nat i)) = Probe_on"
  have "(2 ^ k AND (2 ^ k - 1) :: u32) = 0"
    by (simp add: mask_eq_exp_minus_1 [symmetric] take_bit_eq_mask [symmetric] take_bit_eq_mod)
  then have L: "LookupFile H HM Filename = probe_from H HM (2 ^ k) Filename (HashHMapKey Filename)"
    using assms(1) by (simp add: LookupFile_def)
  have "LookupFile H HM Filename = None \<longleftrightarrow> (\<forall>i < 2 ^ k. ?on i)"
  proof (cases "\<forall>i < 2 ^ k. ?on i")
    case True
    then show ?thesis using probe_from_loops [OF assms(2)] by (simp add: L)
  next
    case False
    obtain d where "d < 2 ^ k" "\<not> ?on (slot (2 ^ k) (HashHMapKey Filename) d)"
      "\<forall>d' < d. ?on (slot (2 ^ k) (HashHMapKey Filename) d')"
      using first_distance [of "2 ^ k" ?on "HashHMapKey Filename"] False by auto
    then show ?thesis using probe_from_returns [OF assms(2), of d H HM Filename "HashHMapKey Filename"] False
      by (simp add: L probed_at_def)
  qed
  then show ?thesis unfolding Let_def probe_bucket_on [OF assms(3,4)] .
qed

section \<open>Tables filled by linear probing\<close>

definition hm_add :: "hmap_entry \<Rightarrow> hmap_entry option list \<Rightarrow> hmap_entry option list" where
  "hm_add e t =
     (case find (\<lambda>d. t ! slot (length t) (HashHMapKey (fst e)) d = None) [0..<length t] of
        None \<Rightarrow> t
      | Some d \<Rightarrow> t[slot (length t) (HashHMapKey (fst e)) d := Some e])"

definition hm_build :: "nat \<Rightarrow> hmap_entry list \<Rightarrow> hmap_entry option list" where
  "hm_build k es = fold hm_add es (replicate (2 ^ k) None)"

text \<open>Every entry is found from its hash on, without passing an empty bucket.\<close>

definition hashed :: "hmap_entry option list \<Rightarrow> bool" where
  "hashed t \<longleftrightarrow> (\<forall>e. \<forall>d < length t. t ! slot (length t) (HashHMapKey (fst e)) d = Some e \<longrightarrow>
     (\<forall>d' < d. t ! slot (length t) (HashHMapKey (fst e)) d' \<noteq> None))"

definition free_buckets :: "hmap_entry option list \<Rightarrow> nat set" where
  "free_buckets t = {i. i < length t \<and> t ! i = None}"

lemma finite_free [simp]: "finite (free_buckets t)"
  by (simp add: free_buckets_def)

lemma slot_inj: "inj_on (slot n h) {..<n}"
proof (rule eq_card_imp_inj_on)
  have "slot n h ` {..<n} = {..<n}" using slot_less [of n h] slot_covers [of _ n h] by (auto simp: image_iff) (metis lessThan_iff)
  then show "card (slot n h ` {..<n}) = card {..<n}" by simp
qed simp

lemma hm_add_at:
  assumes "free_buckets t \<noteq> {}"
  obtains d where "d < length t" "t ! slot (length t) (HashHMapKey (fst e)) d = None"
    "\<forall>d' < d. t ! slot (length t) (HashHMapKey (fst e)) d' \<noteq> None"
    "hm_add e t = t[slot (length t) (HashHMapKey (fst e)) d := Some e]"
proof -
  let ?h = "HashHMapKey (fst e)"
  obtain d where d: "d < length t" "t ! slot (length t) ?h d = None" "\<forall>d' < d. t ! slot (length t) ?h d' \<noteq> None"
  proof -
    obtain i where "i < length t" "t ! i = None" using assms unfolding free_buckets_def by blast
    then have "0 < length t" "\<not> (\<forall>i < length t. t ! i \<noteq> None)" by (linarith, blast)
    from first_distance [OF this, of ?h] show thesis using that by blast
  qed
  then have "find (\<lambda>d. t ! slot (length t) ?h d = None) [0..<length t] = Some d"
    by (auto simp: find_Some_iff intro!: exI [of _ d])
  then show thesis using d by (intro that [of d]) (simp_all add: hm_add_def)
qed

lemma hm_add_ok:
  assumes "hashed t" "free_buckets t \<noteq> {}"
  shows "hashed (hm_add e t)" "length (hm_add e t) = length t" "\<And>x. Some x \<in> set (hm_add e t) \<longleftrightarrow> x = e \<or> Some x \<in> set t"
    "card (free_buckets (hm_add e t)) = card (free_buckets t) - 1"
proof -
  let ?n = "length t" and ?h = "HashHMapKey (fst e)"
  obtain d where d: "d < ?n" "t ! slot ?n ?h d = None" "\<forall>d' < d. t ! slot ?n ?h d' \<noteq> None" "hm_add e t = t[slot ?n ?h d := Some e]"
    using hm_add_at [OF assms(2)] .
  have i: "slot ?n ?h d < ?n" using d(1) by (intro slot_less) linarith
  show "length (hm_add e t) = ?n" by (simp add: d(4))
  have "hm_add e t = take (slot ?n ?h d) t @ Some e # drop (Suc (slot ?n ?h d)) t" using i by (simp add: d(4) upd_conv_take_nth_drop)
  moreover have "set t = set (take (slot ?n ?h d) t) \<union> {None} \<union> set (drop (Suc (slot ?n ?h d)) t)"
    using arg_cong [OF id_take_nth_drop [OF i], of set] d(2) by auto
  ultimately show "Some x \<in> set (hm_add e t) \<longleftrightarrow> x = e \<or> Some x \<in> set t" for x by auto
  have "free_buckets (hm_add e t) = free_buckets t - {slot ?n ?h d}"
    using i by (auto simp: free_buckets_def d(4) nth_list_update simp del: not_None_eq split: if_splits)
  then show "card (free_buckets (hm_add e t)) = card (free_buckets t) - 1" using i d(2) by (simp add: free_buckets_def)
  show "hashed (hm_add e t)" unfolding hashed_def \<open>length (hm_add e t) = ?n\<close>
  proof (intro allI impI)
    fix x d1 d2 assume x: "d1 < ?n" "hm_add e t ! slot ?n (HashHMapKey (fst x)) d1 = Some x" "d2 < d1"
    have "t ! slot ?n (HashHMapKey (fst x)) d2 \<noteq> None"
    proof (cases "slot ?n (HashHMapKey (fst x)) d1 = slot ?n ?h d")
      case True
      then have "x = e" using x(2) i by (simp add: d(4))
      moreover from this have "d1 = d" using inj_onD [OF slot_inj, of ?n ?h d1 d] True x(1) d(1) by simp
      ultimately show ?thesis using d(3) x(3) by simp
    next
      case False
      then have "t ! slot ?n (HashHMapKey (fst x)) d1 = Some x" using x(2) by (simp add: d(4))
      then show ?thesis using assms(1) x(1,3) unfolding hashed_def by blast
    qed
    then show "hm_add e t ! slot ?n (HashHMapKey (fst x)) d2 \<noteq> None"
      using i by (simp add: d(4) nth_list_update del: not_None_eq)
  qed
qed

lemma hm_fold_ok:
  assumes "hashed t" "length es \<le> card (free_buckets t)"
  shows "hashed (fold hm_add es t) \<and> length (fold hm_add es t) = length t \<and>
    (\<forall>x. Some x \<in> set (fold hm_add es t) \<longleftrightarrow> x \<in> set es \<or> Some x \<in> set t) \<and>
    card (free_buckets (fold hm_add es t)) = card (free_buckets t) - length es"
  using assms
proof (induction es arbitrary: t)
  case (Cons e es)
  have free: "free_buckets t \<noteq> {}" using Cons.prems(2) by auto
  note add = hm_add_ok [OF Cons.prems(1) free, where e = e]
  show ?case using Cons.IH [of "hm_add e t"] add Cons.prems(2) by auto
qed simp

lemma hm_build_ok:
  assumes "length es < 2 ^ k"
  shows "hashed (hm_build k es)" "length (hm_build k es) = 2 ^ k" "Some x \<in> set (hm_build k es) \<longleftrightarrow> x \<in> set es"
    "\<exists>i < 2 ^ k. hm_build k es ! i = None"
proof -
  let ?t = "replicate (2 ^ k) None :: hmap_entry option list"
  have "free_buckets ?t = {..<2 ^ k}" by (auto simp: free_buckets_def)
  then have c: "card (free_buckets ?t) = 2 ^ k" by simp
  have "hashed ?t" by (simp add: hashed_def slot_less)
  note hm_fold_ok [OF this, of es, unfolded c, folded hm_build_def]
  then have b: "hashed (hm_build k es)" "length (hm_build k es) = 2 ^ k" "Some x \<in> set (hm_build k es) \<longleftrightarrow> x \<in> set es"
    "card (free_buckets (hm_build k es)) \<noteq> 0" using assms by (simp_all del: split_paired_All)
  show "hashed (hm_build k es)" "length (hm_build k es) = 2 ^ k" "Some x \<in> set (hm_build k es) \<longleftrightarrow> x \<in> set es"
    by (fact b)+
  have "free_buckets (hm_build k es) \<noteq> {}" using b(4) by auto
  then show "\<exists>i < 2 ^ k. hm_build k es ! i = None" unfolding free_buckets_def b(2) by blast
qed

lemma table_lookup:
  assumes t: "decoded H HM t" "length t = 2 ^ k" "k < 32" "hashed t" "\<exists>i < 2 ^ k. t ! i = None"
    and keys: "\<And>x y. Some x \<in> set t \<Longrightarrow> Some y \<in> set t \<Longrightarrow> map tolower (fst x) = map tolower (fst y) \<Longrightarrow> x = y"
    and len: "length (FileBuffer HM) < 2 ^ 32" "length Filename < 2 ^ 32"
  shows "Some (key, p, s) \<in> set t \<Longrightarrow> map tolower key = map tolower Filename \<Longrightarrow>
      LookupFile H HM Filename = Some (Returns (FM_getFile H (p @ s)))"
    and "(\<And>x. Some x \<in> set t \<Longrightarrow> map tolower (fst x) \<noteq> map tolower Filename) \<Longrightarrow> LookupFile H HM Filename = Some (Returns None)"
proof -
  let ?h = "HashHMapKey Filename" and ?n = "2 ^ k :: nat"
  let ?on = "\<lambda>i. \<exists>x. t ! i = Some x \<and> map tolower (fst x) \<noteq> map tolower Filename"
  have dec: "decodes H HM (getBucket H HM (of_nat (slot ?n ?h d))) (t ! slot ?n ?h d)" for d
    using t(1,2) slot_less [of ?n ?h d] by (simp add: decoded_def)
  have goes: "probed_at H HM Filename ?n ?h d = Probe_on" if on: "?on (slot ?n ?h d)" for d
    using on dec [of d] by (auto simp: probed_at_def probe_bucket_on [OF len] decodes_def HMAP_EmptyBucketKey_def)
  have stops: "probed_at H HM Filename ?n ?h d = Returns None" if "t ! slot ?n ?h d = None" for d
    using that dec [of d] by (simp add: probed_at_def probe_bucket_def decodes_def HMAP_EmptyBucketKey_def)
  have finds: "probed_at H HM Filename ?n ?h d = Returns (FM_getFile H (p @ s))"
    if "t ! slot ?n ?h d = Some (key, p, s)" "map tolower key = map tolower Filename" for d key p s
    using that dec [of d] probe_bucket_match [OF _ that(2) len(2)] by (simp add: probed_at_def)
  have "(2 ^ k AND (2 ^ k - 1) :: u32) = 0"
    by (simp add: mask_eq_exp_minus_1 [symmetric] take_bit_eq_mask [symmetric] take_bit_eq_mod)
  then have L: "LookupFile H HM Filename = probe_from H HM (2 ^ k) Filename ?h"
    using t(1,2) by (simp add: LookupFile_def decoded_def)
  have "\<not> (\<forall>i < ?n. ?on i)" using t(5) by force
  then obtain d where d: "d < ?n" "\<not> ?on (slot ?n ?h d)" "\<forall>d' < d. ?on (slot ?n ?h d')"
    using first_distance [of ?n ?on ?h] by auto
  have R: "LookupFile H HM Filename = Some (probed_at H HM Filename ?n ?h d)" if "probed_at H HM Filename ?n ?h d \<noteq> Probe_on"
    using probe_from_returns [OF t(3) _ that] goes d(3) by (simp add: L)
  show "LookupFile H HM Filename = Some (Returns (FM_getFile H (p @ s)))"
    if e: "Some (key, p, s) \<in> set t" "map tolower key = map tolower Filename" for key p s
  proof -
    obtain i where "i < ?n" "t ! i = Some (key, p, s)" using e(1) t(2) by (auto simp: in_set_conv_nth)
    then obtain d2 where d2: "d2 < ?n" "t ! slot ?n ?h d2 = Some (key, p, s)" using slot_covers by metis
    have "HashHMapKey key = ?h" by (rule HashHMapKey_cong) (rule e(2))
    then have "\<forall>d' < d2. t ! slot ?n ?h d' \<noteq> None" using t(2,4) d2 unfolding hashed_def by (metis fst_conv)
    moreover have "\<not> d2 < d" using d(3) d2(2) e(2) by force
    ultimately have "t ! slot ?n ?h d \<noteq> None" using d2(2) by (metis linorder_neqE_nat option.distinct(1))
    then obtain x where x: "t ! slot ?n ?h d = Some x" by blast
    then have "Some x \<in> set t" "map tolower (fst x) = map tolower Filename"
      using d(2) slot_less [of ?n ?h d] t(2) nth_mem [of "slot ?n ?h d" t] by auto
    then have "x = (key, p, s)" using keys [OF _ e(1)] e(2) by simp
    then show ?thesis using finds [of d key p s] x e(2) R by simp
  qed
  show "LookupFile H HM Filename = Some (Returns None)" if "\<And>x. Some x \<in> set t \<Longrightarrow> map tolower (fst x) \<noteq> map tolower Filename"
  proof -
    have "t ! slot ?n ?h d = None"
      using d(2) that slot_less [of ?n ?h d] t(2) nth_mem [of "slot ?n ?h d" t] by (metis not_None_eq zero_less_numeral zero_less_power)
    then show ?thesis using stops R by simp
  qed
qed

text \<open>
  C37: a header map acts like a directory of symbolic links: from a file that holds a table of fewer names than buckets,
  written in either byte order, a header map is created, and looking a name up in it returns the file the name was
  entered with, whatever the case of its letters, and nothing if it was not entered. Names differ in more than case.
\<close>

theorem HeaderMap_roundtrip:
  assumes H: "swaps_bytes H"
    and es: "length es < 2 ^ k" "k < 32" "distinct (map (map tolower \<circ> fst) es)" "\<forall>e \<in> set es. plain e"
    and small: "length (hmap_image swap (hm_build k es)) < 2 ^ 32"
    and read: "MemoryBuffer_getFile H name (length (hmap_image swap (hm_build k es))) = Some (hmap_image swap (hm_build k es))"
  shows "\<exists>HM. HeaderMap_Create H name (length (hmap_image swap (hm_build k es))) = Some (Some HM) \<and>
    (\<forall>Filename. length Filename < 2 ^ 32 \<longrightarrow> LookupFile H HM Filename = Some (Returns
       (case map_of (map (\<lambda>(key, p, s). (map tolower key, p @ s)) es) (map tolower Filename) of
          None \<Rightarrow> None
        | Some Path \<Rightarrow> FM_getFile H Path)))"
proof (intro exI conjI allI impI)
  let ?t = "hm_build k es"
  let ?HM = "map_of_image name swap ?t" and ?m = "map (\<lambda>(key, p, s). (map tolower key, p @ s)) es"
  note b = hm_build_ok [OF es(1)]
  show "HeaderMap_Create H name (length (hmap_image swap ?t)) = Some (Some ?HM)" by (rule HeaderMap_Create_image [OF H read small])
  fix Filename :: string assume len: "length Filename < 2 ^ 32"
  have keys: "x = y" if "Some x \<in> set ?t" "Some y \<in> set ?t" "map tolower (fst x) = map tolower (fst y)" for x y
    using that es(3) b(3) by (auto simp: distinct_map inj_on_def)
  note L = table_lookup [OF image_decoded [OF H small] b(2) es(2) b(1,4) keys _ len]
  have pl: "plain e" if "Some e \<in> set ?t" for e using that b(3) es(4) by blast
  have fsts: "map fst ?m = map (map tolower \<circ> fst) es" by auto
  show "LookupFile H ?HM Filename =
    Some (Returns (case map_of ?m (map tolower Filename) of None \<Rightarrow> None | Some Path \<Rightarrow> FM_getFile H Path))"
  proof (cases "map_of ?m (map tolower Filename)")
    case None
    then have none: "map tolower Filename \<notin> set (map fst ?m)" unfolding map_of_eq_None_iff set_map .
    have ne: "map tolower (fst x) \<noteq> map tolower Filename" if x: "Some x \<in> set ?t" for x
    proof
      assume "map tolower (fst x) = map tolower Filename"
      then have "map tolower Filename \<in> set (map fst ?m)" unfolding fsts set_map
        using x b(3) [of x] by (intro image_eqI [of _ _ x]) simp_all
      then show False using none by contradiction
    qed
    have "LookupFile H ?HM Filename = Some (Returns None)" by (rule L(2)) (erule pl ne | use small in simp)+
    then show ?thesis using None by simp
  next
    case (Some Path)
    then obtain key p s where e: "(key, p, s) \<in> set es" "map tolower key = map tolower Filename" "Path = p @ s"
      by (auto dest!: map_of_SomeD)
    have "LookupFile H ?HM Filename = Some (Returns (FM_getFile H (p @ s)))"
      by (rule L(1)) (erule pl | use small e b(3) in simp)+
    then show ?thesis using Some e(3) by simp
  qed
qed

section \<open>Examples\<close>

text \<open>A host that reverses the bytes of a word, where one file can be read, and the file manager knows every path.\<close>

definition example_host :: "string \<Rightarrow> string hmap_host" where
  "example_host Buf = \<lparr>ByteSwap_32 = (\<lambda>x. of_nat (load 4 (store 4 True (unat x)) 0)),
     ByteSwap_16 = (\<lambda>x. of_nat (load 2 (store 2 True (unat x)) 0)),
     MemoryBuffer_getFile = (\<lambda>_ _. Some Buf), FM_getFile = Some\<rparr>"

lemma load_less: "load n s 0 < 256 ^ n"
proof (induction n arbitrary: s)
  case (Suc n)
  show ?case
  proof (cases s)
    case (Cons c r)
    have "load n r 0 < 256 ^ n" "code_of c < 256" using Suc.IH by simp_all
    moreover have "load (Suc n) s 0 = code_of c + 256 * load n r 0" by (simp add: Cons load_def)
    ultimately show ?thesis unfolding power_Suc by linarith
  qed (simp add: load_def)
qed (simp add: load_def)

lemma store_load: "length s = n \<Longrightarrow> store n False (load n s 0) = s"
proof (induction n arbitrary: s)
  case (Suc n)
  then obtain c r where s: "s = c # r" "length r = n" by (cases s) auto
  have l: "load (Suc n) s 0 = code_of c + 256 * load n r 0" by (simp add: s(1) load_def)
  moreover have "char_of (load (Suc n) s 0) = char_of (take_bit 8 (load (Suc n) s 0))" by (simp add: char_of_take_bit_eq)
  moreover have "take_bit 8 (load (Suc n) s 0) = code_of c" by (simp add: l take_bit_eq_mod)
  ultimately have "char_of (load (Suc n) s 0) = c" by (metis char_of_char)
  moreover have "load (Suc n) s 0 div 256 = load n r 0" using l by simp
  ultimately show ?case using Suc.IH [OF s(2)] by (simp add: store_Suc s(1))
qed (simp add: store_def)

lemma example_swaps: "swaps_bytes (example_host Buf)"
proof -
  have "unat (of_nat (load 4 s 0) :: u32) = load 4 s 0" "unat (of_nat (load 2 s 0) :: 16 word) = load 2 s 0" for s
    using load_less [of 4 s] load_less [of 2 s] by (simp_all add: unat_of_nat)
  then show ?thesis by (simp add: swaps_bytes_def example_host_def store_swap store_load)
qed

definition example_entries :: "hmap_entry list" where
  "example_entries = [(''Foo.h'', ''/src/'', ''Foo.h''), (''bar.h'', ''/inc/'', ''b.h'')]"

lemma example_build: "hm_build 2 example_entries = [None, None, Some (''Foo.h'', ''/src/'', ''Foo.h''), Some (''bar.h'', ''/inc/'', ''b.h'')]"
proof -
  have h: "HashHMapKey ''Foo.h'' = 6162" "HashHMapKey ''bar.h'' = 5967"
    by (simp_all add: HashHMapKey_def char_unsigned_def tolower_def char_of_def bit_Suc_0_iff)
  have s: "slot 4 6162 0 = 2" "slot 4 5967 0 = 3" by (simp_all add: slot_def)
  have add: "hm_add e t = t[slot 4 (HashHMapKey (fst e)) 0 := Some e]"
    if "length t = 4" "t ! slot 4 (HashHMapKey (fst e)) 0 = None" for e t
    using that by (simp add: hm_add_def upt_rec)
  have "replicate 4 None = [None, None, None, None :: hmap_entry option]" by (simp add: numeral_eq_Suc)
  then show ?thesis by (simp add: hm_build_def example_entries_def add h s)
qed

lemma example_image: "length (hmap_image True (hm_build 2 example_entries)) = 107"
  by (simp add: example_build hmap_image_def pool_def)

theorem HeaderMap_roundtrip_witness:
  "let Buf = hmap_image True (hm_build 2 example_entries); H = example_host Buf
   in \<exists>HM. HeaderMap_Create H ''a.hmap'' 107 = Some (Some HM) \<and> LookupFile H HM ''foo.H'' = Some (Returns (Some ''/src/Foo.h'')) \<and>
      LookupFile H HM ''BAR.h'' = Some (Returns (Some ''/inc/b.h'')) \<and> LookupFile H HM ''baz.h'' = Some (Returns None)"
proof -
  define H where "H = example_host (hmap_image True (hm_build 2 example_entries))"
  have es: "length example_entries < 2 ^ 2" "distinct (map (map tolower \<circ> fst) example_entries)" "\<forall>e \<in> set example_entries. plain e"
    by (simp_all add: example_entries_def tolower_def)
  have "MemoryBuffer_getFile H ''a.hmap'' (length (hmap_image True (hm_build 2 example_entries))) = Some (hmap_image True (hm_build 2 example_entries))"
    by (simp add: H_def example_host_def)
  from HeaderMap_roundtrip [OF example_swaps [of "hmap_image True (hm_build 2 example_entries)", folded H_def] es(1) _ es(2,3) _ this]
  obtain HM where HM: "HeaderMap_Create H ''a.hmap'' 107 = Some (Some HM)"
    "\<And>F. length F < 2 ^ 32 \<Longrightarrow> LookupFile H HM F = Some (Returns (case map_of (map (\<lambda>(key, p, s). (map tolower key, p @ s)) example_entries) (map tolower F) of
        None \<Rightarrow> None | Some Path \<Rightarrow> FM_getFile H Path))"
    by (auto simp: example_image)
  have "FM_getFile H = Some" by (simp add: H_def example_host_def)
  then show ?thesis using HM(1) HM(2) [of "''foo.H''"] HM(2) [of "''BAR.h''"] HM(2) [of "''baz.h''"]
    by (simp only: H_def [symmetric] Let_def) (auto simp: example_entries_def tolower_def char_of_def bit_Suc_0_iff)
qed

text \<open>A table with one bucket, which is in use.\<close>

definition full_map :: header_map where
  "full_map = map_of_image ''a.hmap'' False [Some (''a'', ''b'', ''c'')]"

theorem LookupFile_loops_iff_witness:
  "LookupFile (example_host []) full_map ''x'' = None \<and> LookupFile (example_host []) full_map ''A'' \<noteq> None"
proof -
  have small: "length (hmap_image False [Some (''a'', ''b'', ''c'')]) < 2 ^ 32" by (simp add: hmap_image_def pool_def)
  have n: "getEndianAdjustedWord (example_host []) full_map (NumBuckets (getHeader full_map)) = 2 ^ 0"
    "length (FileBuffer full_map) < 2 ^ 32"
    using image_header(1) [OF example_swaps] small by (simp_all add: full_map_def)
  have "decodes (example_host []) full_map (getBucket (example_host []) full_map 0) (Some (''a'', ''b'', ''c''))"
    using image_decoded [OF example_swaps small] by (simp add: full_map_def decoded_def)
  then have b: "Key (getBucket (example_host []) full_map 0) \<noteq> HMAP_EmptyBucketKey"
    "getString (example_host []) full_map (Key (getBucket (example_host []) full_map 0)) = Some ''a''"
    by (simp_all add: decodes_def HMAP_EmptyBucketKey_def)
  show ?thesis using LookupFile_loops_iff [OF n(1) _ n(2), of "''x''"] LookupFile_loops_iff [OF n(1) _ n(2), of "''A''"] b
    by (simp add: tolower_def char_of_def bit_Suc_0_iff Let_def)
qed

end
