(* ===== verification/PPCaching.thy ===== *)
theory PPCaching
  imports Tokens
begin

text \<open>
  The token cache of the preprocessor (\<^verbatim>\<open>lib/Lex/PPCaching.cpp\<close>, \<^verbatim>\<open>include/clang/Lex/Preprocessor.h\<close>): lookahead, nested
  backtracking, tokens put back and annotation tokens. It is verified against a cursor over one sequence of tokens with
  a stack of marks.

  The lexers and macro expanders below are the sequence of the tokens they still deliver, an end of file last. The stack of lexers
  matters in two ways: whether one is current (otherwise the preprocessor is in caching mode), and whether there is an
  entry on the stack that caching mode pushed. At the end of the file there is neither.
\<close>

section \<open>State\<close>

text \<open>
  A token has a kind and a location; an annotation token its end location; the other fields are one number. \<open>Token_new\<close> is a
  token that has been made without arguments.
\<close>

record cached_token =
  ct_Kind :: tok_kind
  ct_Location :: nat
  ct_AnnotationEnd :: "nat option"
  ct_Data :: nat

definition isAnnotation :: "cached_token \<Rightarrow> bool" where
  "isAnnotation T \<longleftrightarrow> ct_AnnotationEnd T \<noteq> None"

definition Token_new :: cached_token where
  "Token_new = \<lparr>ct_Kind = tok_unknown, ct_Location = 0, ct_AnnotationEnd = None, ct_Data = 0\<rparr>"

record pp_cache =
  Source :: "cached_token list"
  Lexing :: bool
  Saved :: bool
  CachedTokens :: "cached_token list"
  CachedLexPos :: nat
  BacktrackPositions :: "nat list"

definition isBacktrackEnabled :: "pp_cache \<Rightarrow> bool" where
  "isBacktrackEnabled P \<longleftrightarrow> BacktrackPositions P \<noteq> []"

definition InCachingLexMode :: "pp_cache \<Rightarrow> bool" where
  "InCachingLexMode P \<longleftrightarrow> \<not> Lexing P"

definition EnterCachingLexMode :: "pp_cache \<Rightarrow> pp_cache" where
  "EnterCachingLexMode P = (if InCachingLexMode P then P else P\<lparr>Saved := True, Lexing := False\<rparr>)"

definition ExitCachingLexMode :: "pp_cache \<Rightarrow> pp_cache option" where
  "ExitCachingLexMode P =
     (if InCachingLexMode P then do { asserting (Saved P); Some (P\<lparr>Lexing := True, Saved := False\<rparr>) } else Some P)"

section \<open>Lexing\<close>

text \<open>The current lexer delivers a token; at the end of the main file there is no current lexer any more.\<close>

definition lex_source :: "pp_cache \<Rightarrow> (cached_token \<times> pp_cache) option" where
  "lex_source P = (case Source P of
     [] \<Rightarrow> None
   | T # Ts \<Rightarrow> do { asserting (Lexing P); Some (T, P\<lparr>Source := Ts, Lexing := ct_Kind T \<noteq> tok_eof\<rparr>) })"

definition CachingLex :: "pp_cache \<Rightarrow> (cached_token \<times> pp_cache) option" where
  "CachingLex P =
     (if CachedLexPos P < length (CachedTokens P)
      then Some (CachedTokens P ! CachedLexPos P, P\<lparr>CachedLexPos := CachedLexPos P + 1\<rparr>)
      else do {
        P1 \<leftarrow> ExitCachingLexMode P;
        (Result, P2) \<leftarrow> lex_source P1;
        if \<not> isBacktrackEnabled P2 then Some (Result, P2\<lparr>CachedTokens := [], CachedLexPos := 0\<rparr>)
        else do {
          let P3 = EnterCachingLexMode P2;
          Some (Result, if ct_Kind Result \<noteq> tok_eof
            then P3\<lparr>CachedTokens := CachedTokens P3 @ [Result], CachedLexPos := CachedLexPos P3 + 1\<rparr> else P3) } })"

definition Preprocessor_Lex :: "pp_cache \<Rightarrow> (cached_token \<times> pp_cache) option" where
  "Preprocessor_Lex P = (if Lexing P then lex_source P else CachingLex P)"

text \<open>The loop of \<open>PeekAhead\<close>: each token is lexed into the last element of the cache.\<close>

fun peek_tokens :: "nat \<Rightarrow> pp_cache \<Rightarrow> pp_cache option" where
  "peek_tokens 0 P = Some P"
| "peek_tokens (Suc C) P = do {
     (Result, P1) \<leftarrow> Preprocessor_Lex (P\<lparr>CachedTokens := CachedTokens P @ [Token_new]\<rparr>);
     peek_tokens C (P1\<lparr>CachedTokens := (CachedTokens P1)[length (CachedTokens P1) - 1 := Result]\<rparr>) }"

definition PeekAhead :: "nat \<Rightarrow> pp_cache \<Rightarrow> (cached_token \<times> pp_cache) option" where
  "PeekAhead N P = do {
     asserting (CachedLexPos P + N > length (CachedTokens P));
     P1 \<leftarrow> ExitCachingLexMode P;
     P2 \<leftarrow> peek_tokens (CachedLexPos P1 + N - length (CachedTokens P1)) P1;
     let P3 = EnterCachingLexMode P2;
     Some (last (CachedTokens P3), P3) }"

definition LookAhead :: "nat \<Rightarrow> pp_cache \<Rightarrow> (cached_token \<times> pp_cache) option" where
  "LookAhead N P =
     (if CachedLexPos P + N < length (CachedTokens P) then Some (CachedTokens P ! (CachedLexPos P + N), P) else PeekAhead (N + 1) P)"

section \<open>Backtracking, tokens put back, annotations\<close>

definition EnableBacktrackAtThisPos :: "pp_cache \<Rightarrow> pp_cache" where
  "EnableBacktrackAtThisPos P = EnterCachingLexMode (P\<lparr>BacktrackPositions := BacktrackPositions P @ [CachedLexPos P]\<rparr>)"

definition CommitBacktrackedTokens :: "pp_cache \<Rightarrow> pp_cache option" where
  "CommitBacktrackedTokens P = do {
     asserting (BacktrackPositions P \<noteq> []);
     Some (P\<lparr>BacktrackPositions := butlast (BacktrackPositions P)\<rparr>) }"

definition Backtrack :: "pp_cache \<Rightarrow> pp_cache option" where
  "Backtrack P = do {
     asserting (BacktrackPositions P \<noteq> []);
     Some (P\<lparr>CachedLexPos := last (BacktrackPositions P), BacktrackPositions := butlast (BacktrackPositions P)\<rparr>) }"

definition RevertCachedTokens :: "nat \<Rightarrow> pp_cache \<Rightarrow> pp_cache option" where
  "RevertCachedTokens N P = do {
     asserting (isBacktrackEnabled P);
     asserting (int (CachedLexPos P) - int N \<ge> int (last (BacktrackPositions P)));
     asserting (int (CachedLexPos P) - int N \<ge> 0);
     Some (P\<lparr>CachedLexPos := CachedLexPos P - N\<rparr>) }"

definition EnterToken :: "cached_token \<Rightarrow> pp_cache \<Rightarrow> pp_cache" where
  "EnterToken Tok P =
     (let P1 = EnterCachingLexMode P in P1\<lparr>CachedTokens := insert_at (CachedLexPos P1) Tok (CachedTokens P1)\<rparr>)"

text \<open>The scan goes back to the most recent token at the start location of the annotation.\<close>

definition annotation_start :: "cached_token \<Rightarrow> cached_token list \<Rightarrow> nat \<Rightarrow> nat option" where
  "annotation_start Tok Ts p = find (\<lambda>i. ct_Location (Ts ! i) = ct_Location Tok) (rev [0..<p])"

definition AnnotatePreviousCachedTokens :: "cached_token \<Rightarrow> pp_cache \<Rightarrow> pp_cache option" where
  "AnnotatePreviousCachedTokens Tok P = do {
     asserting (isAnnotation Tok);
     asserting (CachedLexPos P \<noteq> 0);
     asserting (Some (ct_Location (CachedTokens P ! (CachedLexPos P - 1))) = ct_AnnotationEnd Tok);
     i \<leftarrow> annotation_start Tok (CachedTokens P) (CachedLexPos P);
     asserting (BacktrackPositions P = [] \<or> last (BacktrackPositions P) < i + 1);
     Some (P\<lparr>CachedTokens := take i (CachedTokens P) @ Tok # drop (CachedLexPos P) (CachedTokens P), CachedLexPos := i + 1\<rparr>) }"

definition AnnotateCachedTokens :: "cached_token \<Rightarrow> pp_cache \<Rightarrow> pp_cache option" where
  "AnnotateCachedTokens Tok P = do {
     asserting (isAnnotation Tok);
     if CachedLexPos P \<noteq> 0 \<and> isBacktrackEnabled P then AnnotatePreviousCachedTokens Tok P else Some P }"

definition ReplaceLastTokenWithAnnotation :: "cached_token \<Rightarrow> pp_cache \<Rightarrow> pp_cache option" where
  "ReplaceLastTokenWithAnnotation Tok P = do {
     asserting (isAnnotation Tok);
     Some (if CachedLexPos P \<noteq> 0 \<and> isBacktrackEnabled P
           then P\<lparr>CachedTokens := (CachedTokens P)[CachedLexPos P - 1 := Tok]\<rparr> else P) }"

section \<open>Sequences of requests\<close>

datatype cache_request =
  Lexed | Looked_ahead nat | Enabled | Committed | Backtracked | Reverted nat | Entered cached_token
| Annotated cached_token | Replaced cached_token

fun perform_request :: "cache_request \<Rightarrow> pp_cache \<Rightarrow> (cached_token option \<times> pp_cache) option" where
  "perform_request Lexed P = map_option (map_prod Some id) (Preprocessor_Lex P)"
| "perform_request (Looked_ahead N) P = map_option (map_prod Some id) (LookAhead N P)"
| "perform_request Enabled P = Some (None, EnableBacktrackAtThisPos P)"
| "perform_request Committed P = map_option (Pair None) (CommitBacktrackedTokens P)"
| "perform_request Backtracked P = map_option (Pair None) (Backtrack P)"
| "perform_request (Reverted N) P = map_option (Pair None) (RevertCachedTokens N P)"
| "perform_request (Entered T) P = Some (None, EnterToken T P)"
| "perform_request (Annotated T) P = map_option (Pair None) (AnnotateCachedTokens T P)"
| "perform_request (Replaced T) P = map_option (Pair None) (ReplaceLastTokenWithAnnotation T P)"

text \<open>
  The cursor: all tokens, the position, and the marks, the last one first. The end of the file is only read without marks. An
  annotation replaces the tokens from its start on, which must be behind the last mark.
\<close>

type_synonym cursor = "cached_token list \<times> nat \<times> nat list"

fun cursor_step :: "cache_request \<Rightarrow> cursor \<Rightarrow> (cached_token option \<times> cursor) option" where
  "cursor_step Lexed (S, p, ms) =
     (if p < length S \<and> (ct_Kind (S ! p) = tok_eof \<longrightarrow> ms = []) then Some (Some (S ! p), S, p + 1, ms) else None)"
| "cursor_step (Looked_ahead N) (S, p, ms) = (if p + N < length S then Some (Some (S ! (p + N)), S, p, ms) else None)"
| "cursor_step Enabled (S, p, ms) = Some (None, S, p, p # ms)"
| "cursor_step Committed (S, p, ms) = (case ms of [] \<Rightarrow> None | m # ms' \<Rightarrow> Some (None, S, p, ms'))"
| "cursor_step Backtracked (S, p, ms) = (case ms of [] \<Rightarrow> None | m # ms' \<Rightarrow> Some (None, S, m, ms'))"
| "cursor_step (Reverted N) (S, p, ms) =
     (case ms of [] \<Rightarrow> None | m # _ \<Rightarrow> if m + N \<le> p then Some (None, S, p - N, ms) else None)"
| "cursor_step (Entered T) (S, p, ms) = Some (None, insert_at p T S, p, ms)"
| "cursor_step (Annotated T) (S, p, ms) =
     (if \<not> isAnnotation T then None
      else case ms of [] \<Rightarrow> Some (None, S, p, ms)
      | m # _ \<Rightarrow> (case annotation_start T S p of None \<Rightarrow> None
          | Some i \<Rightarrow> if m \<le> i \<and> Some (ct_Location (S ! (p - 1))) = ct_AnnotationEnd T
                     then Some (None, take i S @ T # drop p S, i + 1, ms) else None))"
| "cursor_step (Replaced T) (S, p, ms) =
     (if \<not> isAnnotation T then None
      else case ms of [] \<Rightarrow> Some (None, S, p, ms)
      | m # _ \<Rightarrow> if m < p then Some (None, S[p - 1 := T], p, ms) else None)"

text \<open>A sequence of requests, with the tokens it delivers.\<close>

fun run :: "('r \<Rightarrow> 's \<Rightarrow> (cached_token option \<times> 's) option) \<Rightarrow> 'r list \<Rightarrow> 's \<Rightarrow> (cached_token option list \<times> 's) option" where
  "run step [] s = Some ([], s)"
| "run step (r # rs) s = do { (t, s1) \<leftarrow> step r s; (ts, s2) \<leftarrow> run step rs s1; Some (t # ts, s2) }"

section \<open>The cache implements the cursor\<close>

definition source_ok :: "cached_token list \<Rightarrow> bool" where
  "source_ok Ts \<longleftrightarrow> (\<forall>T \<in> set (butlast Ts). ct_Kind T \<noteq> tok_eof) \<and> (Ts \<noteq> [] \<longrightarrow> ct_Kind (last Ts) = tok_eof)"

definition cache_ok :: "pp_cache \<Rightarrow> bool" where
  "cache_ok P \<longleftrightarrow> source_ok (Source P) \<and> CachedLexPos P \<le> length (CachedTokens P) \<and>
     sorted (BacktrackPositions P) \<and> (\<forall>b \<in> set (BacktrackPositions P). b \<le> CachedLexPos P) \<and>
     (Lexing P \<longrightarrow> CachedTokens P = [] \<and> BacktrackPositions P = []) \<and> \<not> (Lexing P \<and> Saved P) \<and>
     (Source P \<noteq> [] \<longleftrightarrow> Lexing P \<or> Saved P)"

text \<open>The tokens that have left the cache are \<open>pre\<close>.\<close>

definition at_cursor :: "cached_token list \<Rightarrow> pp_cache \<Rightarrow> cursor \<Rightarrow> bool" where
  "at_cursor pre P c \<longleftrightarrow> cache_ok P \<and> c = (pre @ CachedTokens P @ Source P, length pre + CachedLexPos P,
     rev (map (\<lambda>b. length pre + b) (BacktrackPositions P)))"

definition implements :: "pp_cache \<Rightarrow> cursor \<Rightarrow> bool" where
  "implements P c \<longleftrightarrow> (\<exists>pre. at_cursor pre P c)"

lemma source_ok_Cons:
  "source_ok (T # Ts) \<longleftrightarrow> (ct_Kind T = tok_eof \<longleftrightarrow> Ts = []) \<and> source_ok Ts"
  by (cases Ts) (auto simp: source_ok_def)

lemma source_ok_drop: "source_ok Ts \<Longrightarrow> source_ok (drop n Ts)"
proof (induction n arbitrary: Ts)
  case (Suc n)
  then show ?case by (cases Ts) (auto simp: source_ok_Cons)
qed simp

text \<open>In caching mode, without a current lexer; in the cursor nothing changes.\<close>

lemma EnterCachingLexMode_simps [simp]:
  "Source (EnterCachingLexMode P) = Source P" "CachedTokens (EnterCachingLexMode P) = CachedTokens P"
  "CachedLexPos (EnterCachingLexMode P) = CachedLexPos P" "BacktrackPositions (EnterCachingLexMode P) = BacktrackPositions P"
  "\<not> Lexing (EnterCachingLexMode P)" "Saved (EnterCachingLexMode P) \<longleftrightarrow> Saved P \<or> Lexing P"
  by (auto simp: EnterCachingLexMode_def InCachingLexMode_def)

lemma ExitCachingLexMode_source:
  assumes "cache_ok P" "Source P \<noteq> []"
  shows "ExitCachingLexMode P = Some (P\<lparr>Lexing := True, Saved := False\<rparr>)"
  using assms by (cases P) (auto simp: ExitCachingLexMode_def InCachingLexMode_def cache_ok_def)

lemma mark_cases:
  assumes "at_cursor pre P (S, p, ms)"
  obtains "ms = []" "BacktrackPositions P = []"
  | bs b where "ms = (length pre + b) # rev (map (\<lambda>b. length pre + b) bs)" "BacktrackPositions P = bs @ [b]" "b \<le> CachedLexPos P"
      "\<forall>x \<in> set bs. x \<le> b" "sorted bs"
proof (cases "BacktrackPositions P" rule: rev_cases)
  case Nil
  then show thesis using assms by (intro that(1)) (simp_all add: at_cursor_def)
next
  case (snoc bs b)
  then show thesis using assms by (intro that(2) [of b bs]) (simp_all add: at_cursor_def cache_ok_def sorted_append)
qed

lemma Lex_implements:
  assumes "at_cursor pre P (S, p, ms)" "cursor_step Lexed (S, p, ms) = Some (t, c)"
  shows "\<exists>T P'. Preprocessor_Lex P = Some (T, P') \<and> t = Some T \<and> implements P' c"
proof -
  have ok: "cache_ok P" and S: "S = pre @ CachedTokens P @ Source P" and p: "p = length pre + CachedLexPos P"
    and ms: "ms = rev (map (\<lambda>b. length pre + b) (BacktrackPositions P))" using assms(1) by (simp_all add: at_cursor_def)
  have step: "p < length S" "ct_Kind (S ! p) = tok_eof \<longrightarrow> ms = []" "t = Some (S ! p)" "c = (S, p + 1, ms)"
    using assms(2) by (simp_all split: if_splits)
  show ?thesis
  proof (cases "CachedLexPos P < length (CachedTokens P)")
    case True
    then have "\<not> Lexing P" using ok by (auto simp: cache_ok_def)
    then have "Preprocessor_Lex P = Some (CachedTokens P ! CachedLexPos P, P\<lparr>CachedLexPos := CachedLexPos P + 1\<rparr>)"
      using True by (simp add: Preprocessor_Lex_def CachingLex_def)
    moreover have "S ! p = CachedTokens P ! CachedLexPos P" using True by (simp add: S p nth_append)
    moreover have "at_cursor pre (P\<lparr>CachedLexPos := CachedLexPos P + 1\<rparr>) c"
      using ok True \<open>\<not> Lexing P\<close> by (auto simp: at_cursor_def step(4) S p ms cache_ok_def)
    ultimately show ?thesis using step(3) unfolding implements_def by auto
  next
    case False
    then have pos: "CachedLexPos P = length (CachedTokens P)" using ok by (simp add: cache_ok_def)
    then obtain T Ts where src: "Source P = T # Ts" using step(1) by (cases "Source P") (simp_all add: S p)
    have T: "S ! p = T" by (simp add: S p pos src nth_append)
    have eof: "ct_Kind T = tok_eof \<longleftrightarrow> Ts = []" and Ts: "source_ok Ts" using ok by (simp_all add: cache_ok_def src source_ok_Cons)
    show ?thesis
    proof (cases "BacktrackPositions P = []")
      case True
      let ?P' = "P\<lparr>Source := Ts, Lexing := Ts \<noteq> [], Saved := False, CachedTokens := [], CachedLexPos := 0\<rparr>"
      have "Preprocessor_Lex P = Some (T, ?P')"
      proof (cases "Lexing P")
        case True
        then have "CachedTokens P = []" "\<not> Saved P" using ok by (auto simp: cache_ok_def)
        then show ?thesis using True src pos eof by (cases P) (simp add: Preprocessor_Lex_def lex_source_def)
      next
        case False
        then show ?thesis using ExitCachingLexMode_source [OF ok] src eof pos \<open>BacktrackPositions P = []\<close>
          by (cases P) (simp add: Preprocessor_Lex_def CachingLex_def lex_source_def isBacktrackEnabled_def)
      qed
      moreover have "at_cursor (pre @ CachedTokens P @ [T]) ?P' c"
        using ok True Ts by (simp add: at_cursor_def step(4) S p ms pos src cache_ok_def)
      ultimately show ?thesis using step(3) T unfolding implements_def by auto
    next
      case False
      then have more: "ct_Kind T \<noteq> tok_eof" "Ts \<noteq> []" using step(2) T eof by (auto simp: ms)
      have nl: "\<not> Lexing P" using ok False by (auto simp: cache_ok_def)
      let ?P' = "P\<lparr>Source := Ts, Saved := True, CachedTokens := CachedTokens P @ [T], CachedLexPos := CachedLexPos P + 1\<rparr>"
      have "Preprocessor_Lex P = Some (T, ?P')"
        using ExitCachingLexMode_source [OF ok] src pos more nl False
        by (cases P) (simp add: Preprocessor_Lex_def CachingLex_def lex_source_def isBacktrackEnabled_def EnterCachingLexMode_def InCachingLexMode_def)
      moreover have "at_cursor pre ?P' c"
        using ok nl more Ts by (auto simp: at_cursor_def step(4) S p ms pos src cache_ok_def)
      ultimately show ?thesis using step(3) T unfolding implements_def by auto
    qed
  qed
qed

lemma lex_source_appends:
  assumes "Lexing P" "source_ok (Source P)" "Source P = T # Ts"
  shows "Preprocessor_Lex (P\<lparr>CachedTokens := Cs\<rparr>) = Some (T, P\<lparr>Source := Ts, Lexing := Ts \<noteq> [], CachedTokens := Cs\<rparr>)"
  using assms by (cases P) (simp add: Preprocessor_Lex_def lex_source_def source_ok_Cons)

lemma peek_tokens_source:
  assumes "Lexing P \<longleftrightarrow> Source P \<noteq> []" "source_ok (Source P)" "C \<le> length (Source P)"
  shows "peek_tokens C P = Some (P\<lparr>Source := drop C (Source P), Lexing := drop C (Source P) \<noteq> [],
    CachedTokens := CachedTokens P @ take C (Source P)\<rparr>)"
  using assms
proof (induction C arbitrary: P)
  case 0
  then show ?case by (cases P) simp
next
  case (Suc C)
  then obtain T Ts where src: "Source P = T # Ts" by (cases "Source P") auto
  let ?P1 = "P\<lparr>Source := Ts, Lexing := Ts \<noteq> [], CachedTokens := CachedTokens P @ [T]\<rparr>"
  have "Preprocessor_Lex (P\<lparr>CachedTokens := CachedTokens P @ [Token_new]\<rparr>) =
      Some (T, P\<lparr>Source := Ts, Lexing := Ts \<noteq> [], CachedTokens := CachedTokens P @ [Token_new]\<rparr>)"
    using lex_source_appends [OF _ Suc.prems(2) src] Suc.prems(1) src by simp
  then have "peek_tokens (Suc C) P = peek_tokens C ?P1" by (cases P) simp
  moreover have "peek_tokens C ?P1 = Some (?P1\<lparr>Source := drop C Ts, Lexing := drop C Ts \<noteq> [],
      CachedTokens := (CachedTokens P @ [T]) @ take C Ts\<rparr>)"
    using Suc.IH [of ?P1] Suc.prems(2,3) src by (simp add: source_ok_Cons)
  ultimately show ?case using src by (cases P) simp
qed

lemma LookAhead_implements:
  assumes "at_cursor pre P (S, p, ms)" "p + N < length S"
  shows "\<exists>P'. LookAhead N P = Some (S ! (p + N), P') \<and> implements P' (S, p, ms)"
proof -
  have ok: "cache_ok P" and S: "S = pre @ CachedTokens P @ Source P" and p: "p = length pre + CachedLexPos P"
    and ms: "ms = rev (map (\<lambda>b. length pre + b) (BacktrackPositions P))" using assms(1) by (simp_all add: at_cursor_def)
  show ?thesis
  proof (cases "CachedLexPos P + N < length (CachedTokens P)")
    case True
    then have "LookAhead N P = Some (S ! (p + N), P)" by (simp add: LookAhead_def S p nth_append)
    then show ?thesis using assms(1) unfolding implements_def by blast
  next
    case False
    let ?C = "CachedLexPos P + (N + 1) - length (CachedTokens P)"
    have C: "0 < ?C" "?C \<le> length (Source P)" using False assms(2) by (simp_all add: S p)
    then have src: "Source P \<noteq> []" by auto
    let ?P1 = "P\<lparr>Lexing := True, Saved := False\<rparr>"
    let ?Q = "?P1\<lparr>Source := drop ?C (Source P), Lexing := drop ?C (Source P) \<noteq> [], CachedTokens := CachedTokens P @ take ?C (Source P)\<rparr>"
    have "peek_tokens ?C ?P1 = Some ?Q"
      using peek_tokens_source [of ?P1 ?C] C(2) src ok by (simp add: cache_ok_def)
    then have L: "LookAhead N P = Some (last (CachedTokens P @ take ?C (Source P)), EnterCachingLexMode ?Q)"
      using False ExitCachingLexMode_source [OF ok src] by (simp add: LookAhead_def PeekAhead_def)
    have "last (CachedTokens P @ take ?C (Source P)) = Source P ! (?C - 1)"
      using C src by (simp add: last_conv_nth min_absorb2 nth_append)
    also have "\<dots> = S ! (p + N)" using False by (simp add: S p nth_append)
    finally have T: "last (CachedTokens P @ take ?C (Source P)) = S ! (p + N)" .
    have "at_cursor pre (EnterCachingLexMode ?Q) (S, p, ms)"
      using ok source_ok_drop [of "Source P" ?C] by (auto simp: at_cursor_def S p ms cache_ok_def)
    then show ?thesis unfolding implements_def L T by blast
  qed
qed

lemma EnterToken_implements:
  assumes "at_cursor pre P (S, p, ms)"
  shows "at_cursor pre (EnterToken T P) (insert_at p T S, p, ms)"
proof -
  have "CachedLexPos P \<le> length (CachedTokens P)" using assms by (simp add: at_cursor_def cache_ok_def)
  then have "insert_at p T S = pre @ insert_at (CachedLexPos P) T (CachedTokens P) @ Source P"
    using assms by (simp add: at_cursor_def insert_at_def)
  moreover have "length (insert_at (CachedLexPos P) T (CachedTokens P)) = Suc (length (CachedTokens P))"
    using \<open>CachedLexPos P \<le> length (CachedTokens P)\<close> by simp
  ultimately show ?thesis using assms by (auto simp: at_cursor_def cache_ok_def EnterToken_def Let_def)
qed

lemma EnableBacktrack_implements:
  "at_cursor pre P (S, p, ms) \<Longrightarrow> at_cursor pre (EnableBacktrackAtThisPos P) (S, p, p # ms)"
  by (auto simp: at_cursor_def cache_ok_def EnableBacktrackAtThisPos_def sorted_append)

lemma find_rev_upt:
  assumes "find Q (rev [0..<p]) = Some i"
  shows "i < p" "Q i" "\<And>j. i < j \<Longrightarrow> j < p \<Longrightarrow> \<not> Q j"
proof -
  obtain k where k: "k < p" "i = rev [0..<p] ! k" "Q i" "\<forall>j < k. \<not> Q (rev [0..<p] ! j)"
    using assms by (auto simp: find_Some_iff)
  then have i: "i = p - Suc k" by (simp add: rev_nth)
  show "i < p" "Q i" using k(1,3) i by simp_all
  show "\<not> Q j" if "i < j" "j < p" for j
    using k(4) [rule_format, of "p - Suc j"] that i k(1) by (simp add: rev_nth)
qed

lemma find_rev_uptI:
  assumes "i < p" "Q i" "\<And>j. i < j \<Longrightarrow> j < p \<Longrightarrow> \<not> Q j"
  shows "find Q (rev [0..<p]) = Some i"
  unfolding find_Some_iff
proof (intro exI [of _ "p - Suc i"] conjI allI impI)
  fix j assume "j < p - Suc i"
  then show "\<not> Q (rev [0..<p] ! j)" using assms(3) [of "p - Suc j"] by (simp add: rev_nth)
qed (use assms in \<open>simp_all add: rev_nth\<close>)

lemma annotation_start_cached:
  assumes "at_cursor pre P (S, p, ms)" "annotation_start T S p = Some (length pre + i)"
  shows "annotation_start T (CachedTokens P) (CachedLexPos P) = Some i"
proof -
  have S: "S = pre @ CachedTokens P @ Source P" and p: "p = length pre + CachedLexPos P" "CachedLexPos P \<le> length (CachedTokens P)"
    using assms(1) by (simp_all add: at_cursor_def cache_ok_def)
  have nth: "S ! (length pre + j) = CachedTokens P ! j" if "j < CachedLexPos P" for j using that p(2) by (simp add: S nth_append)
  note f = find_rev_upt [OF assms(2) [unfolded annotation_start_def]]
  show ?thesis unfolding annotation_start_def
  proof (rule find_rev_uptI)
    show i: "i < CachedLexPos P" using f(1) by (simp add: p)
    show "ct_Location (CachedTokens P ! i) = ct_Location T" using f(2) nth [OF i] by simp
    show "ct_Location (CachedTokens P ! j) \<noteq> ct_Location T" if "i < j" "j < CachedLexPos P" for j
      using f(3) [of "length pre + j"] nth [OF that(2)] that by (simp add: p)
  qed
qed

lemma Annotate_implements:
  assumes "at_cursor pre P (S, p, ms)" "cursor_step (Annotated T) (S, p, ms) = Some (t, c)"
  shows "\<exists>P'. AnnotateCachedTokens T P = Some P' \<and> t = None \<and> implements P' c"
  using assms(1)
proof (cases rule: mark_cases)
  case 1
  then show ?thesis using assms by (auto simp: AnnotateCachedTokens_def isBacktrackEnabled_def implements_def split: if_splits)
next
  case (2 bs b)
  have ok: "cache_ok P" and S: "S = pre @ CachedTokens P @ Source P" and p: "p = length pre + CachedLexPos P"
    and ms: "ms = rev (map (\<lambda>b. length pre + b) (BacktrackPositions P))" using assms(1) by (simp_all add: at_cursor_def)
  obtain j where j: "isAnnotation T" "annotation_start T S p = Some j" "length pre + b \<le> j"
    "Some (ct_Location (S ! (p - 1))) = ct_AnnotationEnd T" "t = None" "c = (take j S @ T # drop p S, j + 1, ms)"
    using assms(2) 2(1) by (auto split: if_splits option.splits)
  define i where "i = j - length pre"
  have i: "j = length pre + i" "b \<le> i" using j(3) by (simp_all add: i_def)
  note start = annotation_start_cached [OF assms(1) j(2) [unfolded i(1)]]
  have lt: "i < CachedLexPos P" "CachedLexPos P \<le> length (CachedTokens P)"
    using find_rev_upt(1) [OF start [unfolded annotation_start_def]] ok by (simp_all add: cache_ok_def)
  have last: "S ! (p - 1) = CachedTokens P ! (CachedLexPos P - 1)" using lt by (simp add: S p nth_append)
  let ?P' = "P\<lparr>CachedTokens := take i (CachedTokens P) @ T # drop (CachedLexPos P) (CachedTokens P), CachedLexPos := i + 1\<rparr>"
  have "AnnotateCachedTokens T P = Some ?P'"
    using lt start j(1,4) 2(2) i(2) last
    by (simp add: AnnotateCachedTokens_def AnnotatePreviousCachedTokens_def isBacktrackEnabled_def)
  moreover have "\<not> Lexing P" using ok 2(2) by (auto simp: cache_ok_def)
  then have "at_cursor pre ?P' c"
    using ok lt 2(2-5) i(2) by (auto simp: at_cursor_def cache_ok_def j(6) i(1) S p ms sorted_append)
  ultimately show ?thesis using j(5) unfolding implements_def by blast
qed

lemma Replace_implements:
  assumes "at_cursor pre P (S, p, ms)" "cursor_step (Replaced T) (S, p, ms) = Some (t, c)"
  shows "\<exists>P'. ReplaceLastTokenWithAnnotation T P = Some P' \<and> t = None \<and> implements P' c"
  using assms(1)
proof (cases rule: mark_cases)
  case 1
  then show ?thesis using assms by (auto simp: ReplaceLastTokenWithAnnotation_def isBacktrackEnabled_def implements_def split: if_splits)
next
  case (2 bs b)
  have ok: "cache_ok P" and S: "S = pre @ CachedTokens P @ Source P" and p: "p = length pre + CachedLexPos P"
    and ms: "ms = rev (map (\<lambda>b. length pre + b) (BacktrackPositions P))" using assms(1) by (simp_all add: at_cursor_def)
  have c: "isAnnotation T" "b < CachedLexPos P" "t = None" "c = (S[p - 1 := T], p, ms)"
    using assms(2) 2(1) p by (auto split: if_splits)
  let ?P' = "P\<lparr>CachedTokens := (CachedTokens P)[CachedLexPos P - 1 := T]\<rparr>"
  have "ReplaceLastTokenWithAnnotation T P = Some ?P'"
    using c(1,2) 2(2) by (simp add: ReplaceLastTokenWithAnnotation_def isBacktrackEnabled_def)
  moreover have "\<not> Lexing P" using ok 2(2) by (auto simp: cache_ok_def)
  then have "at_cursor pre ?P' c"
    using ok c(2) by (auto simp: at_cursor_def cache_ok_def c(4) S p ms list_update_append)
  ultimately show ?thesis using c(3) unfolding implements_def by blast
qed

lemma perform_implements:
  assumes "implements P c" "cursor_step r c = Some (t, c')"
  shows "\<exists>P'. perform_request r P = Some (t, P') \<and> implements P' c'"
proof -
  obtain S p ms where c: "c = (S, p, ms)" by (cases c)
  obtain pre where at: "at_cursor pre P (S, p, ms)" using assms(1) unfolding implements_def c by blast
  have at': "implements Q d" if "at_cursor pre Q d" for Q d using that unfolding implements_def by blast
  note step = assms(2) [unfolded c]
  show ?thesis
  proof (cases r)
    case Lexed
    then show ?thesis using Lex_implements [OF at step [unfolded Lexed]] by auto
  next
    case (Looked_ahead N)
    then show ?thesis using LookAhead_implements [OF at, of N] step by (auto split: if_splits)
  next
    case Enabled
    then show ?thesis using at' [OF EnableBacktrack_implements [OF at]] step by auto
  next
    case (Entered T)
    then show ?thesis using at' [OF EnterToken_implements [OF at]] step by auto
  next
    case (Annotated T)
    then show ?thesis using Annotate_implements [OF at step [unfolded Annotated]] by auto
  next
    case (Replaced T)
    then show ?thesis using Replace_implements [OF at step [unfolded Replaced]] by auto
  next
    case Committed
    from at show ?thesis
      by (cases rule: mark_cases) (use at step Committed in \<open>auto simp: CommitBacktrackedTokens_def at_cursor_def cache_ok_def intro!: at'\<close>)
  next
    case Backtracked
    from at show ?thesis
      by (cases rule: mark_cases) (use at step Backtracked in \<open>auto simp: Backtrack_def at_cursor_def cache_ok_def intro!: at'\<close>)
  next
    case (Reverted N)
    from at show ?thesis
    proof (cases rule: mark_cases)
      case 1
      then show ?thesis using step Reverted by simp
    next
      case (2 bs b)
      then have "b + N \<le> CachedLexPos P" "c' = (S, p - N, ms)" "t = None" using step Reverted at by (auto simp: at_cursor_def split: if_splits)
      moreover have "at_cursor pre (P\<lparr>CachedLexPos := CachedLexPos P - N\<rparr>) (S, p - N, ms)"
        using at \<open>b + N \<le> CachedLexPos P\<close> 2(2,4) by (auto simp: at_cursor_def cache_ok_def)
      ultimately show ?thesis using Reverted 2(2) at' by (auto simp: RevertCachedTokens_def isBacktrackEnabled_def)
    qed
  qed
qed

lemma run_implements:
  "implements P c \<Longrightarrow> run cursor_step rs c = Some (ts, c') \<Longrightarrow> \<exists>P'. run perform_request rs P = Some (ts, P') \<and> implements P' c'"
proof (induction rs arbitrary: P c ts)
  case (Cons r rs)
  obtain t c1 ts1 where 1: "cursor_step r c = Some (t, c1)" "run cursor_step rs c1 = Some (ts1, c')" "ts = t # ts1"
    using Cons.prems(2) by (auto elim!: bind_SomeE)
  obtain P1 where P1: "perform_request r P = Some (t, P1)" "implements P1 c1" using perform_implements [OF Cons.prems(1) 1(1)] by blast
  obtain P' where "run perform_request rs P1 = Some (ts1, P')" "implements P' c'" using Cons.IH [OF P1(2) 1(2)] by blast
  then show ?case using P1(1) 1(3) by simp
qed simp

text \<open>A preprocessor at the start of a file.\<close>

definition at_start :: "cached_token list \<Rightarrow> pp_cache" where
  "at_start Ts = \<lparr>Source = Ts, Lexing = True, Saved = False, CachedTokens = [], CachedLexPos = 0, BacktrackPositions = []\<rparr>"

lemma at_start_implements: "source_ok Ts \<Longrightarrow> Ts \<noteq> [] \<Longrightarrow> implements (at_start Ts) (Ts, 0, [])"
  unfolding implements_def by (rule exI [of _ "[]"]) (simp add: at_cursor_def cache_ok_def at_start_def)

text \<open>
  C39: the cache of the preprocessor is a cursor over the tokens of the file. Whatever is asked of it, in any order and nesting (lexing,
  looking ahead, marking a position, committing, backtracking, reverting, putting a token back, annotating), it delivers the
  tokens the cursor does, as long as the requests keep inside the file and its end is not lexed while a
  position is marked.
\<close>

theorem caching_refines_cursor:
  assumes "source_ok Ts" "Ts \<noteq> []" "run cursor_step rs (Ts, 0, []) = Some (ts, c)"
  shows "\<exists>P. run perform_request rs (at_start Ts) = Some (ts, P) \<and> implements P c"
  using run_implements [OF at_start_implements [OF assms(1,2)] assms(3)] .

definition example_token :: "nat \<Rightarrow> cached_token" where
  "example_token n = \<lparr>ct_Kind = (if n = 3 then tok_eof else tok_identifier), ct_Location = n, ct_AnnotationEnd = None, ct_Data = 0\<rparr>"

theorem caching_refines_cursor_witness:
  "let Ts = map example_token [0, 1, 2, 3]; a = (example_token 1)\<lparr>ct_AnnotationEnd := Some 2\<rparr>
   in \<exists>P c. run perform_request [Lexed, Looked_ahead 2, Enabled, Lexed, Lexed, Annotated a, Backtracked, Lexed, Lexed] (at_start Ts) =
       Some ([Some (example_token 0), Some (example_token 3), None, Some (example_token 1), Some (example_token 2), None, None, Some a,
         Some (example_token 3)], P) \<and> implements P c"
proof -
  define Ts where "Ts = map example_token [0, 1, 2, 3]"
  define a where "a = (example_token 1)\<lparr>ct_AnnotationEnd := Some 2\<rparr>"
  have ok: "source_ok Ts" "Ts \<noteq> []" by (simp_all add: Ts_def example_token_def source_ok_def)
  have "run cursor_step [Lexed, Looked_ahead 2, Enabled, Lexed, Lexed, Annotated a, Backtracked, Lexed, Lexed] (Ts, 0, []) =
    Some ([Some (example_token 0), Some (example_token 3), None, Some (example_token 1), Some (example_token 2), None, None, Some a,
      Some (example_token 3)], [example_token 0, a, example_token 3], 3, [])"
    by (simp add: Ts_def a_def example_token_def isAnnotation_def annotation_start_def upt_rec numeral_2_eq_2 numeral_3_eq_3)
  from caching_refines_cursor [OF ok this] show ?thesis unfolding Ts_def a_def Let_def by blast
qed

section \<open>The end of the file\<close>

lemma lex_cached:
  assumes "\<not> Lexing P" "CachedLexPos P + k \<le> length (CachedTokens P)"
  shows "run perform_request (replicate k Lexed) P =
    Some (map Some (take k (drop (CachedLexPos P) (CachedTokens P))), P\<lparr>CachedLexPos := CachedLexPos P + k\<rparr>)"
  using assms
proof (induction k arbitrary: P)
  case (Suc k)
  let ?P1 = "P\<lparr>CachedLexPos := CachedLexPos P + 1\<rparr>"
  have "Preprocessor_Lex P = Some (CachedTokens P ! CachedLexPos P, ?P1)"
    using Suc.prems by (simp add: Preprocessor_Lex_def CachingLex_def)
  moreover have "drop (CachedLexPos P) (CachedTokens P) = CachedTokens P ! CachedLexPos P # drop (Suc (CachedLexPos P)) (CachedTokens P)"
    using Suc.prems(2) by (simp add: Cons_nth_drop_Suc)
  ultimately show ?case using Suc.IH [of ?P1] Suc.prems by simp
qed simp

text \<open>
  C40: the end of the file is not cached. If it is lexed while a position is marked, the preprocessor goes back to the
  mark and delivers the tokens from there again, but then fails an assertion instead of reaching the end of the file.
\<close>

theorem end_of_file_lost:
  assumes "cache_ok P" "CachedLexPos P = length (CachedTokens P)" "Source P = [E]" "BacktrackPositions P = bs @ [b]"
  shows "\<exists>P1 P2 P3. Preprocessor_Lex P = Some (E, P1) \<and> Backtrack P1 = Some P2 \<and>
    run perform_request (replicate (length (CachedTokens P) - b) Lexed) P2 = Some (map Some (drop b (CachedTokens P)), P3) \<and>
    Preprocessor_Lex P3 = None"
proof (intro exI conjI)
  let ?P1 = "P\<lparr>Source := [], Lexing := False, Saved := False\<rparr>"
  let ?P2 = "?P1\<lparr>CachedLexPos := b, BacktrackPositions := bs\<rparr>"
  have P: "\<not> Lexing P" "ct_Kind E = tok_eof" "b \<le> length (CachedTokens P)"
    using assms by (auto simp: cache_ok_def source_ok_def)
  show "Preprocessor_Lex P = Some (E, ?P1)"
    using P assms(2,3,4) ExitCachingLexMode_source [OF assms(1)]
    by (cases P) (simp add: Preprocessor_Lex_def CachingLex_def lex_source_def isBacktrackEnabled_def EnterCachingLexMode_def InCachingLexMode_def)
  show "Backtrack ?P1 = Some ?P2" using assms(4) by (simp add: Backtrack_def)
  show "run perform_request (replicate (length (CachedTokens P) - b) Lexed) ?P2 =
      Some (map Some (drop b (CachedTokens P)), ?P2\<lparr>CachedLexPos := length (CachedTokens P)\<rparr>)"
    using lex_cached [of ?P2 "length (CachedTokens P) - b"] P(3) by simp
  show "Preprocessor_Lex (?P2\<lparr>CachedLexPos := length (CachedTokens P)\<rparr>) = None"
    by (simp add: Preprocessor_Lex_def CachingLex_def ExitCachingLexMode_def InCachingLexMode_def)
qed

definition example_cache :: pp_cache where
  "example_cache = \<lparr>Source = [example_token 3], Lexing = False, Saved = True, CachedTokens = [example_token 2], CachedLexPos = 1,
     BacktrackPositions = [0]\<rparr>"

theorem end_of_file_lost_witness:
  "\<exists>P1 P2 P3. Preprocessor_Lex example_cache = Some (example_token 3, P1) \<and> Backtrack P1 = Some P2 \<and>
    run perform_request [Lexed] P2 = Some ([Some (example_token 2)], P3) \<and> Preprocessor_Lex P3 = None"
proof -
  have "cache_ok example_cache" "CachedLexPos example_cache = length (CachedTokens example_cache)"
    "Source example_cache = [example_token 3]" "BacktrackPositions example_cache = [] @ [0]"
    by (simp_all add: example_cache_def cache_ok_def source_ok_def example_token_def)
  from end_of_file_lost [OF this] show ?thesis by (simp add: example_cache_def)
qed

text \<open>Looking one token behind the end of the file delivers the first token instead, and consumes it.\<close>

lemma lookahead_past_end:
  "source_ok [T, E] \<Longrightarrow> \<exists>P. LookAhead 2 (at_start [T, E]) = Some (T, P) \<and> CachedLexPos P = 1 \<and> CachedTokens P = [T, E, T]"
  by (auto simp: LookAhead_def PeekAhead_def at_start_def ExitCachingLexMode_def InCachingLexMode_def numeral_3_eq_3 numeral_2_eq_2
      Preprocessor_Lex_def lex_source_def CachingLex_def source_ok_Cons)

end
