(* ===== verification/Spec2Isabelle.thy ===== *)
theory Spec2Isabelle
  imports DeltaTree RewriteRope RewriteBuffer NumericLiteral StringLiteral PPExpressionsBehaviour ConstraintManagers LexerTokens LexerTotal TokenRewriter HeaderMap PPCaching
begin

text \<open>
  A verification library for clang: the parts of the compiler that read a source file and keep track of where everything in
  it stands, the ones that edit it, and the solvers of constraints of the analyzer.

  \<^bold>\<open>The program and how its parts interact.\<close> A file is loaded by the source manager (\<^verbatim>\<open>lib/Basic/SourceManager.cpp\<close>), which
  gives each file and each macro expansion a range of a 31-bit address space. A location is one address of it. The lexer
  (\<^verbatim>\<open>lib/Lex/Lexer.cpp\<close>) runs over the buffer of one file and turns it into tokens; the preprocessor asks the literal
  parsers (\<^verbatim>\<open>lib/Lex/LiteralSupport.cpp\<close>) for the values of literals and evaluates the expressions of \<^verbatim>\<open>#if\<close> with them
  (\<^verbatim>\<open>lib/Lex/PPExpressions.cpp\<close>). Tokens that are in no file are written into scratch buffers (\<^verbatim>\<open>lib/Lex/ScratchBuffer.cpp\<close>),
  which are buffers of the source manager again. Diagnostics map a location back to a file, a line and a column, through the
  expansions it came from and the line notes of the file. The rewriter (\<^verbatim>\<open>lib/Rewrite\<close>) edits a file at offsets of its
  original text: a rope holds the text, a B-tree of deltas tells where an original offset is now. The token rewriter edits
  the list of raw tokens instead. The analyzer's constraint managers (\<^verbatim>\<open>lib/Analysis\<close>) answer whether an assumption on a
  symbol is feasible.

  \<^bold>\<open>Conventions.\<close> Definitions have the names of the source; a class is a record, an enumeration a datatype. An \<^verbatim>\<open>unsigned\<close> is
  a 32-bit word (\<open>u32\<close>) or a number; where the code adds to a number and no assertion bounds the sum, the wrap-around is
  written out (\<open>wrap32\<close>). A result \<open>None\<close> is a failed assertion or a
  read outside an array or buffer; errors the code reports are values. A pointer into a buffer is an offset into it, a method
  returns its changed object; the leaves of the rope, which point to each other, have addresses in a store of their links. Loops are recursive functions with a measure;
  loops that need not end are \<^verbatim>\<open>partial_function\<close>, and theorems prove that they do.

  \<^bold>\<open>Theories.\<close>

  \<^descr> \<open>Prelude\<close>: 32-bit words, assertions, array moves, and the two collections of rules \<open>list_array\<close> and \<open>u32_arith\<close>.
  \<^descr> \<open>Interfaces\<close>: the contracts between components as locales: \<open>delta_store\<close> (what the edit buffer wants of the delta tree),
    \<open>text_store\<close> (what it wants of the rope), \<open>scratch_store\<close> (what the token rewriter wants of the scratch buffer). Each is
    interpreted in the theory of the component that provides it; further locales stand where they are used: \<open>apint\<close>, \<open>apsint\<close>,
    \<open>value_factory\<close>, \<open>immutable_set\<close> for LLVM's numbers and sets, \<open>walk\<close> and \<open>range_walk\<close> for the walks of the source manager,
    \<open>simple_constraints\<close> and \<open>exact_constraints\<close> for the constraint managers, \<open>edited_text\<close> for a buffer under edit.

  \<^descr> \<open>DeltaTree\<close> (\<^verbatim>\<open>lib/Rewrite/DeltaTree.cpp\<close>): nodes, insertion with splits, lookup. The tree stays balanced and sorted with
    full deltas, and insertion is the update of a sorted list of deltas.
  \<^descr> \<open>RopeLeaves\<close>, \<open>RopeTree\<close>, \<open>RopeChain\<close>, \<open>RewriteRope\<close> (\<^verbatim>\<open>lib/Rewrite/RewriteRope.cpp\<close>): the leaves with their links, the B+ tree
    of pieces over them, what its operations do to the links, and the rope with its allocation buffer and its iterator.
    Insertion and erasure act on the text, the pieces below the root, as on a list; no byte in use is overwritten; iterating
    ends and reads the leaves that are linked. These are the text after insertions, and after erasures that destroy no
    interior node below the root; one that does leaves the erased leaves linked, and iterating still reads them.
    Erasing everything of a tree of several levels leaves a root that the next insertion fails on.
  \<^descr> \<open>EditLayout\<close>, \<open>RewriteBuffer\<close> (\<^verbatim>\<open>lib/Rewrite/Rewriter.cpp\<close>): \<open>EditLayout\<close> is the abstract state, for every original offset
    the text inserted there and whether the character is dead. Every sequence of admissible edits yields the text described.
  \<^descr> \<open>TokenRewriter\<close> (\<^verbatim>\<open>lib/Rewrite/TokenRewriter.cpp\<close>): the raw tokens of a file, over the models of the lexer, the source
    manager and the scratch buffer. Rewriting nothing gives the file; insertions change only their place.

  \<^descr> \<open>Characters\<close>, \<open>NumericLiteral\<close>, \<open>StringLiteral\<close> (\<^verbatim>\<open>lib/Lex/LiteralSupport.cpp\<close>): round trips, the language of suffixes, exact
    overflow, no access outside the token or the result buffer, the values of character literals.
  \<^descr> \<open>Tokens\<close> (\<^verbatim>\<open>lib/Basic/IdentifierTable.cpp\<close>, \<^verbatim>\<open>include/clang/Lex/Token.h\<close>): kinds, keywords of directives and their perfect hash.
  \<^descr> \<open>APSInt\<close>: what the code relies on in LLVM's \<^verbatim>\<open>APSInt\<close>.
  \<^descr> \<open>PPExpressions\<close>, \<open>PPExpressionsTotal\<close>, \<open>PPExpressionsCorrect\<close>, \<open>PPExpressionsBehaviour\<close> (\<^verbatim>\<open>lib/Lex/PPExpressions.cpp\<close>): the
    evaluator returns on every line, computes the value of C99 6.6 where the line is an expression, reports overflow exactly
    and is silent on operands that are not evaluated.

  \<^descr> \<open>LexerCharacters\<close>, \<open>LexerState\<close>, \<open>Lexer\<close> (\<^verbatim>\<open>lib/Lex/Lexer.cpp\<close>): character classes, trigraphs and escaped newlines; the state
    with its modes; every function from \<^verbatim>\<open>LexIdentifier\<close> to \<^verbatim>\<open>LexTokenInternal\<close>, its fast paths included.
  \<^descr> \<open>LexerReads\<close>, \<open>LexerTokens\<close>: every read is a step over the decoded text (\<open>phase2\<close>); identifiers and numbers are munched
    maximally, and numbers satisfy what \<open>NumericLiteral\<close> asks of its caller.
  \<^descr> \<open>LexerInside\<close>, \<open>LexerComments\<close>, \<open>LexerTotal\<close>: a run returns, reads nothing behind the buffer and moves on; keeping
    whitespace, tokens leave no gap.

  \<^descr> \<open>SourceLocation\<close>, \<open>LineTable\<close>, \<open>SourceManager\<close>, \<open>SourceWalks\<close>, \<open>LineNumbers\<close> (\<^verbatim>\<open>lib/Basic/SourceManager.cpp\<close> and its headers):
    encodings of locations; line notes and markers as a stack of includes; the lookup with its cache and two searches;
    the walks through expansions, which end since entries refer to earlier addresses; lines, columns and presumed
    locations with their caches.
  \<^descr> \<open>ScratchBuffer\<close> (\<^verbatim>\<open>lib/Lex/ScratchBuffer.cpp\<close>): tokens are placed at locations of their own and stay readable.

  \<^descr> \<open>HeaderMap\<close> (\<^verbatim>\<open>lib/Lex/HeaderMap.cpp\<close>): the hash table of a header map file, against the file format and linear
    probing; a look-up in a full table never returns.

  \<^descr> \<open>PPCaching\<close> (\<^verbatim>\<open>lib/Lex/PPCaching.cpp\<close>): lookahead, backtracking and annotation tokens, a refinement of a cursor with
    marks; the end of the file is lost when it is lexed under a mark.

  \<^descr> \<open>RangeSets\<close>, \<open>ConstraintManagers\<close> (\<^verbatim>\<open>lib/Analysis/RangeConstraintManager.cpp\<close>, \<^verbatim>\<open>BasicConstraintManager.cpp\<close>,
    \<^verbatim>\<open>SimpleConstraintManager.cpp\<close>): sets of ranges are refined exactly, the range manager is exact on a symbol compared with a
    constant, the basic one never loses a value.

  \<^bold>\<open>Bounds.\<close> The evaluator of \<^verbatim>\<open>#if\<close> recurses on fuel, \<open>2 * n + 2\<close> for a line of \<open>n\<close> tokens: each level of its
    recursion reads a token, and every step of it descends at most once more before it does; \<open>PPExpressionsTotal\<close> proves that it never runs out.
  The edit buffer asks for texts below 2^32 bytes, and for new strings that stay below it together with a chunk of 4080 bytes,
  since the sums of \<^verbatim>\<open>MakeRopeString\<close> wrap beyond; the string parser for a size of its result below 2^32 (\<open>size_needed\<close>); the
  perfect hash for names below 2^27 characters, whose length survives the shift; line numbers for buffers below 4 GB.
  The address space of the source manager is bounded by 2^31 addresses: its
  assertion only tests 2^32, and beyond 2^31 the encoding loses bits. The lexer's theorems ask that the text does not end in
  a backslash or one and blanks (\<open>well_ended\<close>), since there the code does read behind the end, that trigraphs are on or there are none (\<open>exact\<close>),
  since peeking decodes them always, and that the host has a vector unit (\<open>ready\<close>), since the plain scan reads two characters too far.

  \<^bold>\<open>Parameters.\<close> What is not in the repository is an argument: LLVM's \<^verbatim>\<open>APInt\<close>, \<^verbatim>\<open>APSInt\<close> and immutable sets (records of
  operations, instantiated by their mathematical models in the witnesses), the files of the host, the contents of a new memory buffer, the pretty
  printer of statements. The calls of the lexer into the preprocessor are outcomes of its run.

  \<^bold>\<open>Not modelled.\<close> The parser, semantic analysis, the syntax tree, code generation, the driver and the serialization are not
  modelled: they are an order of magnitude larger and rest on LLVM's IR and containers. In the modelled libraries:
  macro expansion, directives, header search, pragmas and precompiled token streams (they work on the state of the whole preprocessor);
  the diagnostic engine, the file manager, targets and the hash table of identifiers (they rest on the host and on LLVM's
  containers); the engine, the stores and the checkers of the analyzer; the clients of the rewriter that print
  Objective-C, macros and HTML. Of the modelled files: freeing memory, reference counts, statistics, debugging output, \<^verbatim>\<open>GetFloatValue\<close> (it hands the text to
  \<^verbatim>\<open>APFloat\<close>), and the lexer for \<^verbatim>\<open>_Pragma\<close>.
\<close>

end
